(* ===== verification/Npu_Prelude.thy ===== *)
theory Npu_Prelude
  imports Main
begin

text \<open>
  What the components share: results with errors (\<open>VPUX_THROW\<close> is a \<open>Left\<close> value),
  folds that stop at the first error, the two loop directions of the code, vectors of
  index sets updated in place, and the order in which a loop walks an
  \<open>llvm::SmallSet\<close>.
\<close>

section \<open>Results and loops\<close>

named_theorems result_simps \<open>rewrite rules for results and error folds\<close>

definition bindE :: "'e + 'a \<Rightarrow> ('a \<Rightarrow> 'e + 'b) \<Rightarrow> 'e + 'b" where
  "bindE r f = (case r of Inl e \<Rightarrow> Inl e | Inr x \<Rightarrow> f x)"

definition guardE :: "bool \<Rightarrow> 'e \<Rightarrow> ('e + 'b) \<Rightarrow> 'e + 'b" where
  "guardE ok e r = (if ok then r else Inl e)"

lemma bindE_simps [simp, result_simps]:
  "bindE (Inl e) f = Inl e" "bindE (Inr x) f = f x"
  by (simp_all add: bindE_def)

lemma guardE_simps [simp, result_simps]:
  "guardE True e r = r" "guardE False e r = Inl e"
  by (simp_all add: guardE_def)

lemma bindE_Inr [result_simps]: "bindE r f = Inr y \<longleftrightarrow> (\<exists>x. r = Inr x \<and> f x = Inr y)"
  by (cases r) auto

lemma guardE_Inr [result_simps]: "guardE ok e r = Inr y \<longleftrightarrow> ok \<and> r = Inr y"
  by (cases ok) auto

lemma guardE_Inl [result_simps]:
  "guardE ok e r = Inl y \<longleftrightarrow> (if ok then r = Inl y else e = y)"
  by (cases ok) auto

text \<open>A loop whose body may throw: it stops at the first error.\<close>

fun foldE :: "('x \<Rightarrow> 's \<Rightarrow> 'e + 's) \<Rightarrow> 'x list \<Rightarrow> 's \<Rightarrow> 'e + 's" where
  "foldE f [] s = Inr s"
| "foldE f (x # xs) s = bindE (f x s) (foldE f xs)"

lemma foldE_append: "foldE f (xs @ ys) s = bindE (foldE f xs s) (foldE f ys)"
  by (induction xs arbitrary: s) (auto simp: bindE_def split: sum.splits)

lemma foldE_pure: "(\<And>x s. x \<in> set xs \<Longrightarrow> f x s = Inr (g x s)) \<Longrightarrow> foldE f xs s = Inr (fold g xs s)"
  by (induction xs arbitrary: s) auto

lemma foldE_invariant:
  assumes "foldE f xs s = Inr s'" and "P s"
    and "\<And>x s s'. x \<in> set xs \<Longrightarrow> P s \<Longrightarrow> f x s = Inr s' \<Longrightarrow> P s'"
  shows "P s'"
  using assms by (induction xs arbitrary: s) (auto simp: bindE_Inr)

lemma foldE_defined:
  assumes "P s"
    and "\<And>x s. x \<in> set xs \<Longrightarrow> P s \<Longrightarrow> \<exists>s'. f x s = Inr s' \<and> P s'"
  shows "\<exists>s'. foldE f xs s = Inr s' \<and> P s'"
  using assms
proof (induction xs arbitrary: s)
  case Nil
  then show ?case by simp
next
  case (Cons x xs)
  from Cons.prems(1) Cons.prems(2)[of x s] obtain s1 where "f x s = Inr s1" "P s1" by auto
  with Cons.IH[of s1] Cons.prems(2) show ?case by auto
qed

lemma fold_invariant_list:
  assumes "P s" and "\<And>x s. x \<in> set xs \<Longrightarrow> P s \<Longrightarrow> P (f x s)"
  shows "P (fold f xs s)"
  using assms by (induction xs arbitrary: s) auto

text \<open>\<open>llvm::any_of\<close> with a predicate that may throw: it stops at the first hit.\<close>

fun anyE :: "('x \<Rightarrow> 'e + bool) \<Rightarrow> 'x list \<Rightarrow> 'e + bool" where
  "anyE f [] = Inr False"
| "anyE f (x # xs) = bindE (f x) (\<lambda>b. if b then Inr True else anyE f xs)"

lemma anyE_pure: "(\<And>x. x \<in> set xs \<Longrightarrow> f x = Inr (g x)) \<Longrightarrow> anyE f xs = Inr (\<exists>x \<in> set xs. g x)"
  by (induction xs) auto

lemma anyE_False: "anyE f xs = Inr False \<Longrightarrow> x \<in> set xs \<Longrightarrow> f x = Inr False"
  by (induction xs) (auto simp: bindE_Inr split: if_splits)

text \<open>
  \<open>for (i = hi + 1; i-- > lo;)\<close> visits \<open>hi, hi - 1, \<dots>, lo\<close>; the ascending loop
  visits \<open>lo, \<dots>, hi\<close>.
\<close>

definition upto_list :: "nat \<Rightarrow> nat \<Rightarrow> nat list" where
  "upto_list lo hi = [lo..<Suc hi]"

definition downto_list :: "nat \<Rightarrow> nat \<Rightarrow> nat list" where
  "downto_list lo hi = rev [lo..<Suc hi]"

lemma set_upto_list [simp]: "set (upto_list lo hi) = {lo..hi}"
  by (auto simp: upto_list_def)

lemma set_downto_list [simp]: "set (downto_list lo hi) = {lo..hi}"
  by (auto simp: downto_list_def)

section \<open>Index sets and vectors of index sets\<close>

type_synonym task_set = "nat set"

text \<open>
  A range-based loop over a set whose body does not depend on the order is modelled as a
  loop over the ascending enumeration (the order of \<open>std::set\<close>).
\<close>

abbreviation elems :: "nat set \<Rightarrow> nat list" where
  "elems S \<equiv> sorted_list_of_set S"

text \<open>
  \<open>llvm::SmallSet\<close> keeps up to 16 elements in insertion order and more in a
  \<open>std::set\<close>, so the order in which a loop sees its elements is not a function of its
  contents the code could rely on. Operations whose result depends on that order take it as
  an argument \<open>iter\<close>, which only promises to enumerate the set without repetition.
\<close>

locale set_iteration =
  fixes iter :: "nat set \<Rightarrow> nat list"
  assumes set_iter: "finite S \<Longrightarrow> set (iter S) = S"
    and distinct_iter: "finite S \<Longrightarrow> distinct (iter S)"
begin

lemma iter_nonempty: "finite S \<Longrightarrow> S \<noteq> {} \<Longrightarrow> iter S \<noteq> []"
  using set_iter by fastforce

lemma sum_list_iter: "finite S \<Longrightarrow> sum_list (map f (iter S)) = (\<Sum>x\<in>S. (f x :: nat))"
  by (metis distinct_iter set_iter sum_list_distinct_conv_sum_set)

lemma iter_empty [simp]: "iter {} = []"
  using set_iter[of "{}"] by simp

lemma length_iter: "finite S \<Longrightarrow> length (iter S) = card S"
  by (metis distinct_card distinct_iter set_iter)

end

interpretation ascending: set_iteration sorted_list_of_set
  by unfold_locales auto

text \<open>\<open>v[i].insert(x)\<close> and \<open>v[i].erase(x)\<close> on a vector of sets.\<close>

definition insert_at :: "nat \<Rightarrow> nat \<Rightarrow> nat set list \<Rightarrow> nat set list" where
  "insert_at i x v = v[i := insert x (v ! i)]"

definition erase_at :: "nat \<Rightarrow> nat \<Rightarrow> nat set list \<Rightarrow> nat set list" where
  "erase_at i x v = v[i := (v ! i) - {x}]"

named_theorems vec_simps \<open>reading a vector of sets after an update\<close>

lemma length_insert_at [simp, vec_simps]: "length (insert_at i x v) = length v"
  by (simp add: insert_at_def)

lemma length_erase_at [simp, vec_simps]: "length (erase_at i x v) = length v"
  by (simp add: erase_at_def)

lemma nth_insert_at [vec_simps]:
  "j < length v \<Longrightarrow> insert_at i x v ! j = (if i = j then insert x (v ! j) else v ! j)"
  by (auto simp: insert_at_def nth_list_update)

lemma nth_erase_at [vec_simps]:
  "j < length v \<Longrightarrow> erase_at i x v ! j = (if i = j then v ! j - {x} else v ! j)"
  by (auto simp: erase_at_def nth_list_update)

lemma length_fold_insert_at [simp, vec_simps]:
  "length (fold (\<lambda>i. insert_at i x) is v) = length v"
  by (induction "is" arbitrary: v) auto

lemma length_fold_erase_at [simp, vec_simps]:
  "length (fold (\<lambda>i. erase_at i x) is v) = length v"
  by (induction "is" arbitrary: v) auto

lemma nth_fold_insert_at [vec_simps]:
  "j < length v \<Longrightarrow>
    fold (\<lambda>i. insert_at i x) is v ! j = (if j \<in> set is then insert x (v ! j) else v ! j)"
  by (induction "is" arbitrary: v) (auto simp: nth_insert_at)

lemma nth_fold_erase_at [vec_simps]:
  "j < length v \<Longrightarrow>
    fold (\<lambda>i. erase_at i x) is v ! j = (if j \<in> set is then v ! j - {x} else v ! j)"
  by (induction "is" arbitrary: v) (auto simp: nth_erase_at)

text \<open>Membership in entry \<open>i\<close> of a vector of sets, false outside the vector.\<close>

definition entry :: "nat set list \<Rightarrow> nat \<Rightarrow> nat set" where
  "entry v i = (if i < length v then v ! i else {})"

lemma entry_nth [simp]: "i < length v \<Longrightarrow> entry v i = v ! i"
  by (simp add: entry_def)

lemma entry_out [simp]: "\<not> i < length v \<Longrightarrow> entry v i = {}"
  by (simp add: entry_def)

lemma entry_in_range: "x \<in> entry v i \<Longrightarrow> i < length v"
  by (auto simp: entry_def split: if_splits)

lemma entry_insert_at [vec_simps]:
  "i < length v \<Longrightarrow> entry (insert_at i x v) j = (if j = i then insert x (entry v j) else entry v j)"
  by (auto simp: entry_def nth_insert_at)

lemma entry_erase_at [vec_simps]:
  "entry (erase_at i x v) j = (if j = i then entry v j - {x} else entry v j)"
  by (auto simp: entry_def nth_erase_at)

lemma entry_fold_insert_at [vec_simps]:
  "set is \<subseteq> {..<length v} \<Longrightarrow>
    entry (fold (\<lambda>i. insert_at i x) is v) j = (if j \<in> set is then insert x (entry v j) else entry v j)"
  by (auto simp: entry_def nth_fold_insert_at)

lemma entry_fold_erase_at [vec_simps]:
  "entry (fold (\<lambda>i. erase_at i x) is v) j = (if j \<in> set is then entry v j - {x} else entry v j)"
  by (auto simp: entry_def nth_fold_erase_at)

lemma entry_append [vec_simps]:
  "entry (v @ [{}]) i = entry v i"
  by (auto simp: entry_def nth_append)

lemma entry_update [vec_simps]:
  "i < length v \<Longrightarrow> entry (v[i := S]) j = (if j = i then S else entry v j)"
  by (auto simp: entry_def)

end
