(* ===== verification/Dep_Graph.thy ===== *)
theory Dep_Graph
  imports Npu_Prelude
begin

text \<open>
  Dependency graphs between tasks and their reduction. A task \<open>t\<close> updates the barriers
  \<open>upd t\<close>; a barrier \<open>b\<close> releases the tasks \<open>cons b\<close>. Dropping from every task
  the barriers one of its descendants updates anyway leaves the ordering of the tasks (the
  transitive closure of the graph) as it was. The barrier optimisation applies this forwards
  and backwards, the dependencies of \<open>async.execute\<close> operations are the case in which
  every barrier is a task.
\<close>

definition dep_edges :: "(nat \<Rightarrow> nat set) \<Rightarrow> (nat \<Rightarrow> nat set) \<Rightarrow> (nat \<times> nat) set" where
  "dep_edges upd cons = {(t, c). \<exists>b \<in> upd t. c \<in> cons b}"

definition dep_kids :: "(nat \<Rightarrow> nat set) \<Rightarrow> (nat \<Rightarrow> nat set) \<Rightarrow> nat \<Rightarrow> nat set" where
  "dep_kids upd cons t = (\<Union>b \<in> upd t. cons b)"

definition reduced ::
  "nat set \<Rightarrow> (nat \<Rightarrow> nat set) \<Rightarrow> (nat \<Rightarrow> nat set) \<Rightarrow> (nat \<Rightarrow> nat set) \<Rightarrow> nat \<Rightarrow> nat set" where
  "reduced R upd cons V t = (if t \<in> R then upd t - (\<Union>c \<in> dep_kids upd cons t. V c) else upd t)"

lemma dep_edges_iff: "(t, c) \<in> dep_edges upd cons \<longleftrightarrow> c \<in> dep_kids upd cons t"
  by (auto simp: dep_edges_def dep_kids_def)

lemma dep_edges_converse:
  assumes "\<And>t b. b \<in> wait t \<longleftrightarrow> t \<in> cons b" "\<And>t b. b \<in> upd t \<longleftrightarrow> t \<in> prd b"
  shows "dep_edges wait prd = (dep_edges upd cons)\<inverse>"
  using assms by (auto simp: dep_edges_def)

lemma dep_edges_mono: "(\<And>t. upd t \<subseteq> upd' t) \<Longrightarrow> dep_edges upd cons \<subseteq> dep_edges upd' cons"
  by (fastforce simp: dep_edges_def)

lemma dep_edges_reduced: "dep_edges (reduced R upd cons V) cons \<subseteq> dep_edges upd cons"
  by (rule dep_edges_mono) (auto simp: reduced_def)

locale dep_reduction =
  fixes R :: "nat set" and upd cons U V :: "nat \<Rightarrow> nat set" and rank :: "nat \<Rightarrow> nat"
  assumes rank_less: "c \<in> dep_kids upd cons t \<Longrightarrow> rank c < rank t"
    and U_in: "t \<in> R \<Longrightarrow> U t = upd t \<union> (\<Union>c \<in> dep_kids upd cons t. U c)"
    and U_out: "t \<notin> R \<Longrightarrow> U t = upd t"
    and V_sub: "V t \<subseteq> U t"
begin

lemma upd_U: "upd t \<subseteq> U t"
  by (cases "t \<in> R") (auto simp: U_in U_out)

lemma upd_cases:
  assumes "b \<in> U t"
  obtains "b \<in> reduced R upd cons V t" | c where "c \<in> dep_kids upd cons t" "b \<in> U c"
proof (cases "t \<in> R \<and> (\<exists>c \<in> dep_kids upd cons t. b \<in> U c)")
  case True
  with that(2) show ?thesis by blast
next
  case False
  with assms have "b \<in> upd t" by (cases "t \<in> R") (auto simp: U_in U_out)
  with False V_sub have "b \<in> reduced R upd cons V t" by (auto simp: reduced_def)
  then show ?thesis by (rule that(1))
qed

lemma rank_edge: "(x, y) \<in> dep_edges (reduced R upd cons V) cons \<Longrightarrow> rank y < rank x"
  using subsetD[OF dep_edges_reduced] by (intro rank_less) (simp only: dep_edges_iff[symmetric])

lemma rank_path: "(x, y) \<in> (dep_edges (reduced R upd cons V) cons)\<^sup>* \<Longrightarrow> rank y \<le> rank x"
  by (induction rule: rtrancl_induct) (auto dest!: rank_edge)

text \<open>
  One step of the argument: if every barrier below the children of \<open>t\<close> is still updated
  below them, every child of \<open>t\<close> is still reached. The induction is on the distance of
  the child: a dropped barrier is updated below another child, which is nearer.
\<close>

lemma kid_reached:
  assumes below: "\<And>e b. rank e < rank t \<Longrightarrow> b \<in> U e \<Longrightarrow>
      \<exists>d. (e, d) \<in> (dep_edges (reduced R upd cons V) cons)\<^sup>* \<and> b \<in> reduced R upd cons V d"
    and "c \<in> dep_kids upd cons t"
  shows "(t, c) \<in> (dep_edges (reduced R upd cons V) cons)\<^sup>+"
  using assms(2)
proof (induction "rank t - rank c" arbitrary: c rule: less_induct)
  case less
  let ?E = "dep_edges (reduced R upd cons V) cons"
  from less.prems obtain b where b: "b \<in> upd t" "c \<in> cons b" by (auto simp: dep_kids_def)
  from b(1) upd_U have "b \<in> U t" by blast
  then show ?case
  proof (cases rule: upd_cases)
    case 1
    with b(2) show ?thesis by (auto simp: dep_edges_def)
  next
    case (2 e)
    from rank_less[OF 2(1)] below 2(2)
    obtain d where d: "(e, d) \<in> ?E\<^sup>*" "b \<in> reduced R upd cons V d" by blast
    from d(2) b(2) have dc: "(d, c) \<in> ?E" by (auto simp: dep_edges_def)
    from rank_edge[OF dc] rank_path[OF d(1)] rank_less[OF 2(1)]
    have "rank t - rank e < rank t - rank c" by simp
    then have "(t, e) \<in> ?E\<^sup>+" using 2(1) by (rule less.hyps)
    with d(1) dc show ?thesis by (meson r_into_trancl trancl_rtrancl_trancl trancl_trans)
  qed
qed

lemma below_reached:
  "b \<in> U t \<Longrightarrow>
    \<exists>d. (t, d) \<in> (dep_edges (reduced R upd cons V) cons)\<^sup>* \<and> b \<in> reduced R upd cons V d"
proof (induction "rank t" arbitrary: t b rule: less_induct)
  case less
  from less.prems show ?case
  proof (cases rule: upd_cases)
    case 1
    then show ?thesis by blast
  next
    case (2 c)
    from less.hyps[OF rank_less[OF 2(1)] 2(2)] obtain d where
      d: "(c, d) \<in> (dep_edges (reduced R upd cons V) cons)\<^sup>*" "b \<in> reduced R upd cons V d"
      by blast
    from kid_reached[OF less.hyps 2(1)] d(1)
    have "(t, d) \<in> (dep_edges (reduced R upd cons V) cons)\<^sup>*"
      by (meson rtrancl_trans trancl_into_rtrancl)
    with d(2) show ?thesis by blast
  qed
qed

theorem reduction_preserves_order:
  "(dep_edges (reduced R upd cons V) cons)\<^sup>+ = (dep_edges upd cons)\<^sup>+"
proof
  show "(dep_edges (reduced R upd cons V) cons)\<^sup>+ \<subseteq> (dep_edges upd cons)\<^sup>+"
    by (rule trancl_mono_subset) (rule dep_edges_reduced)
  have "dep_edges upd cons \<subseteq> (dep_edges (reduced R upd cons V) cons)\<^sup>+"
    using kid_reached[OF below_reached] by (auto simp: dep_edges_iff)
  then have "(dep_edges upd cons)\<^sup>+ \<subseteq> ((dep_edges (reduced R upd cons V) cons)\<^sup>+)\<^sup>+"
    by (rule trancl_mono_subset)
  then show "(dep_edges upd cons)\<^sup>+ \<subseteq> (dep_edges (reduced R upd cons V) cons)\<^sup>+"
    by simp
qed

text \<open>
  When every task that has children is reduced, \<open>U\<close> is exactly what is updated from
  \<open>t\<close> on, and a barrier is kept exactly when no descendant updates it.
\<close>

lemma U_reachable:
  assumes "\<And>t. t \<notin> R \<Longrightarrow> dep_kids upd cons t = {}"
  shows "U t = (\<Union>d \<in> (dep_edges upd cons)\<^sup>* `` {t}. upd d)"
proof (induction "rank t" arbitrary: t rule: less_induct)
  case less
  have kids: "c \<in> dep_kids upd cons t \<Longrightarrow> U c = (\<Union>d \<in> (dep_edges upd cons)\<^sup>* `` {c}. upd d)" for c
    using less.hyps rank_less by blast
  have star: "(dep_edges upd cons)\<^sup>* `` {t} =
      insert t (\<Union>c \<in> dep_kids upd cons t. (dep_edges upd cons)\<^sup>* `` {c})"
    by (auto simp: dep_edges_iff[symmetric] elim: converse_rtranclE
        intro: converse_rtrancl_into_rtrancl)
  have "U t = upd t \<union> (\<Union>c \<in> dep_kids upd cons t. U c)"
    using U_in[of t] U_out[of t] assms[of t] by (cases "t \<in> R") auto
  then show ?case using kids by (simp add: star)
qed

lemma reduced_exact:
  assumes "\<And>t. t \<notin> R \<Longrightarrow> dep_kids upd cons t = {}"
  shows "reduced R upd cons U t = {b \<in> upd t. \<forall>d. (t, d) \<in> (dep_edges upd cons)\<^sup>+ \<longrightarrow> b \<notin> upd d}"
proof -
  have "(dep_edges upd cons)\<^sup>+ `` {t} = (\<Union>c \<in> dep_kids upd cons t. (dep_edges upd cons)\<^sup>* `` {c})"
    by (auto simp: dep_edges_iff[symmetric] Bex_def dest: tranclD intro: rtrancl_into_trancl2)
  then have "(\<Union>c \<in> dep_kids upd cons t. U c) = (\<Union>d \<in> (dep_edges upd cons)\<^sup>+ `` {t}. upd d)"
    by (simp add: U_reachable[OF assms])
  then show ?thesis using assms[of t] by (auto simp: reduced_def)
qed

end

end
