(* ===== verification/Vpurt_Tasks.thy ===== *)
theory Vpurt_Tasks
  imports Npu_Prelude
begin

text \<open>
  \<open>VPURT.Task\<close> operations as far as scheduling reads them: the executor, the wrapped
  operation, the operands that name barriers, and the two attributes the barrier analysis
  attaches (\<open>task-index\<close>, \<open>sync-task\<close>). The number of barrier slots a task uses and
  the hardware queue it runs on follow \<open>BarrierInfo::getNumOfSlotsUsed\<close> and
  \<open>VPURT::getTaskQueueType\<close>.
\<close>

section \<open>Executors and wrapped operations\<close>

datatype executor_kind = DMA_NN | NCE | DPU | SHAVE_UPA | SHAVE_NN | SHAVE_ACT | M2I | UNKNOWN

datatype dma_channel = DDR | CMX | NOT_SPECIFIED

text \<open>
  \<open>NCEClusterTask\<close> carries the cluster id of each of its DPU workloads (variants),
  \<open>SwKernel\<close> the number of kernel runs in its body and its tile index, a DMA its port
  attribute and channel.
\<close>

datatype inner_op =
    NCEClusterTask (dpuTasks: "int option list")
  | SwKernel (kernelRuns: nat) (tileIndex: "int option")
  | Dma (portAttr: "int option") (channelType: "dma_channel option")
  | NCEClusterTiling inner_op
  | OtherOp

record task_op =
  executorKind :: executor_kind
  innerOp :: inner_op
  waitOperands :: "nat option list" \<comment> \<open>\<open>None\<close>: not defined by a \<open>DeclareVirtualBarrier\<close>\<close>
  updateOperands :: "nat option list"
  taskIndexAttr :: "nat option"
  syncTaskAttr :: bool

record barrier_op =
  barId :: nat \<comment> \<open>the SSA value the operation defines\<close>
  barIndexAttr :: "nat option"
  hasNonTaskUser :: bool

datatype barrier_error =
    MissingAttribute
  | InvalidTaskIndex nat
  | InvalidBarrierIndex nat
  | InvalidRead nat
  | NotNceTask
  | NotSwKernel
  | NotDmaTask
  | UnsupportedExecutor executor_kind
  | InvalidBlockIndex nat
  | EmptyTaskRange
  | ConsumerOutOfRange nat
  | ProducerOutOfRange nat
  | TaskQueueMapEmpty
  | ControlMapEmpty
  | SyncTaskDistance
  | InvalidBarrierOperand nat
  | NonTaskUser
  | BlockSizeTooSmall
  | AlreadySplit
  | NoProducers nat
  | NoConsumers nat
  | ConsumersWithoutProducers nat
  | NoParallelConsumers
  | SameTasksAgain
  | MissingSyncAttribute nat

section \<open>Barrier slots used by a task\<close>

definition getNumOfSlotsUsed :: "task_op \<Rightarrow> barrier_error + nat" where
  "getNumOfSlotsUsed op =
     (case executorKind op of
        DPU \<Rightarrow> (case innerOp op of NCEClusterTask vs \<Rightarrow> Inr (length vs) | _ \<Rightarrow> Inl NotNceTask)
      | SHAVE_ACT \<Rightarrow> (case innerOp op of SwKernel runs _ \<Rightarrow> Inr runs | _ \<Rightarrow> Inr 1)
      | DMA_NN \<Rightarrow> Inr 1
      | SHAVE_UPA \<Rightarrow> Inr 1
      | M2I \<Rightarrow> Inr 1
      | UNKNOWN \<Rightarrow> Inr 1
      | k \<Rightarrow> Inl (UnsupportedExecutor k))"

lemma getNumOfSlotsUsed_dma [simp]:
  "executorKind op = DMA_NN \<Longrightarrow> getNumOfSlotsUsed op = Inr 1"
  by (simp add: getNumOfSlotsUsed_def)

section \<open>The hardware queue of a task\<close>

type_synonym queue_type = "executor_kind \<times> int"

fun unwrapClusterTiling :: "inner_op \<Rightarrow> inner_op" where
  "unwrapClusterTiling (NCEClusterTiling i) = i"
| "unwrapClusterTiling i = i"

fun channelValue :: "dma_channel \<Rightarrow> int" where
  "channelValue DDR = 0"
| "channelValue CMX = 1"
| "channelValue NOT_SPECIFIED = 2"

text \<open>The largest value of the generated \<open>DmaChannelType\<close> enumeration is 2.\<close>

definition getDMAQueueIdEncoding :: "int \<Rightarrow> dma_channel option \<Rightarrow> int" where
  "getDMAQueueIdEncoding port channel =
     port * (2 + 1) + channelValue (case channel of Some c \<Rightarrow> c | None \<Rightarrow> NOT_SPECIFIED)"

definition getDMAPortValue :: "inner_op \<Rightarrow> barrier_error + int" where
  "getDMAPortValue i =
     (case i of Dma p _ \<Rightarrow> Inr (case p of None \<Rightarrow> 0 | Some v \<Rightarrow> v) | _ \<Rightarrow> Inl NotDmaTask)"

definition getTaskQueueType :: "task_op \<Rightarrow> bool \<Rightarrow> barrier_error + queue_type" where
  "getTaskQueueType op ignoreIndexForNce =
     (if executorKind op = DPU \<and> \<not> ignoreIndexForNce then
        (case unwrapClusterTiling (innerOp op) of
           NCEClusterTask (c # _) \<Rightarrow> Inr (DPU, case c of None \<Rightarrow> 0 | Some i \<Rightarrow> i)
         | _ \<Rightarrow> Inl NotNceTask)
      else if executorKind op = SHAVE_ACT \<and> \<not> ignoreIndexForNce then
        (case unwrapClusterTiling (innerOp op) of
           SwKernel _ tile \<Rightarrow> Inr (SHAVE_ACT, case tile of None \<Rightarrow> 0 | Some i \<Rightarrow> i)
         | _ \<Rightarrow> Inl NotSwKernel)
      else if executorKind op = DMA_NN then
        (case unwrapClusterTiling (innerOp op) of
           Dma p ch \<Rightarrow>
             bindE (getDMAPortValue (unwrapClusterTiling (innerOp op)))
               (\<lambda>port. Inr (DMA_NN, getDMAQueueIdEncoding port ch))
         | _ \<Rightarrow> Inl NotDmaTask)
      else Inr (executorKind op, 0))"

text \<open>Different ports and channels never share a queue id.\<close>

lemma getDMAQueueIdEncoding_inject:
  "getDMAQueueIdEncoding p (Some c) = getDMAQueueIdEncoding p' (Some c') \<longleftrightarrow> p = p' \<and> c = c'"
  by (cases c; cases c'; simp add: getDMAQueueIdEncoding_def; presburger)

text \<open>\<open>std::map\<close> orders queues by executor first, as the enumeration numbers it.\<close>

fun executorValue :: "executor_kind \<Rightarrow> nat" where
  "executorValue DMA_NN = 0"
| "executorValue NCE = 1"
| "executorValue DPU = 2"
| "executorValue SHAVE_UPA = 3"
| "executorValue SHAVE_NN = 4"
| "executorValue SHAVE_ACT = 5"
| "executorValue M2I = 6"
| "executorValue UNKNOWN = 7"

definition queueLess :: "queue_type \<Rightarrow> queue_type \<Rightarrow> bool" where
  "queueLess a b = (if fst a = fst b then snd a < snd b else executorValue (fst a) < executorValue (fst b))"

lemma executorValue_inject: "executorValue a = executorValue b \<longleftrightarrow> a = b"
  by (cases a; cases b) auto

lemma queueLess_linear: "queueLess a b \<or> a = b \<or> queueLess b a"
  using executorValue_inject[of "fst a" "fst b"] by (cases a; cases b) (auto simp: queueLess_def)

lemma queueLess_asym: "queueLess a b \<Longrightarrow> \<not> queueLess b a"
  by (auto simp: queueLess_def split: if_splits)

lemma queueLess_trans: "queueLess a b \<Longrightarrow> queueLess b c \<Longrightarrow> queueLess a c"
  by (auto simp: queueLess_def split: if_splits)

end
