(* ===== verification/Barrier_Info.thy ===== *)
theory Barrier_Info
  imports Dep_Graph Vpurt_Tasks
begin

text \<open>
  The state of \<open>BarrierInfo\<close> and its elementary operations: who produces and consumes
  each barrier, kept twice (per barrier and per task), the reads with their range checks, and
  the operations that add, remove and replace links. \<open>wf\<close> says the two copies agree;
  every operation keeps it.
\<close>

section \<open>State\<close>

record barrier_info =
  allTaskOps :: "task_op list"
  allBarrierOps :: "barrier_op list"
  enableUneven :: bool
  controlGraphBlockSize :: nat
  syncTasksIds :: "nat list"
  barrierProducerMap :: "task_set list"
  barrierConsumerMap :: "task_set list"
  taskWaitBarriers :: "task_set list"
  taskUpdateBarriers :: "task_set list"
  taskQueueTypeMap :: "(queue_type \<times> nat set) list"

abbreviation producers :: "barrier_info \<Rightarrow> nat \<Rightarrow> nat set" where
  "producers s \<equiv> entry (barrierProducerMap s)"
abbreviation consumers :: "barrier_info \<Rightarrow> nat \<Rightarrow> nat set" where
  "consumers s \<equiv> entry (barrierConsumerMap s)"
abbreviation waits :: "barrier_info \<Rightarrow> nat \<Rightarrow> nat set" where
  "waits s \<equiv> entry (taskWaitBarriers s)"
abbreviation updates :: "barrier_info \<Rightarrow> nat \<Rightarrow> nat set" where
  "updates s \<equiv> entry (taskUpdateBarriers s)"

definition getNumOfTasks :: "barrier_info \<Rightarrow> nat" where
  "getNumOfTasks s = length (allTaskOps s)"

definition getNumOfVirtualBarriers :: "barrier_info \<Rightarrow> nat" where
  "getNumOfVirtualBarriers s = length (allBarrierOps s)"

section \<open>Reads\<close>

definition getIndexTask :: "task_op \<Rightarrow> barrier_error + nat" where
  "getIndexTask op = (case taskIndexAttr op of None \<Rightarrow> Inl MissingAttribute | Some i \<Rightarrow> Inr i)"

definition getIndexBarrier :: "barrier_op \<Rightarrow> barrier_error + nat" where
  "getIndexBarrier op = (case barIndexAttr op of None \<Rightarrow> Inl MissingAttribute | Some i \<Rightarrow> Inr i)"

definition getTaskOpAtIndex :: "barrier_info \<Rightarrow> nat \<Rightarrow> barrier_error + task_op" where
  "getTaskOpAtIndex s i =
     guardE (i < length (allTaskOps s)) (InvalidTaskIndex i)
       (bindE (getIndexTask (allTaskOps s ! i))
         (\<lambda>k. guardE (k = i) (InvalidTaskIndex i) (Inr (allTaskOps s ! i))))"

definition getBarrierOpAtIndex :: "barrier_info \<Rightarrow> nat \<Rightarrow> barrier_error + barrier_op" where
  "getBarrierOpAtIndex s i =
     guardE (i < length (allBarrierOps s)) (InvalidBarrierIndex i)
       (bindE (getIndexBarrier (allBarrierOps s ! i))
         (\<lambda>k. guardE (k = i) (InvalidBarrierIndex i) (Inr (allBarrierOps s ! i))))"

text \<open>
  The four reads of the maps. Three of them check \<open>index <= size\<close> before they index, so an
  index equal to the size passes the check and the vector is read one past its end
  (\<open>InvalidRead\<close>); the update read checks \<open>index < size\<close>.
\<close>

definition readVector :: "nat set list \<Rightarrow> nat \<Rightarrow> barrier_error + nat set" where
  "readVector v i = (if i < length v then Inr (v ! i) else Inl (InvalidRead i))"

definition getWaitBarriers :: "barrier_info \<Rightarrow> nat \<Rightarrow> barrier_error + task_set" where
  "getWaitBarriers s t =
     guardE (t \<le> length (taskWaitBarriers s)) (InvalidTaskIndex t) (readVector (taskWaitBarriers s) t)"

definition getUpdateBarriers :: "barrier_info \<Rightarrow> nat \<Rightarrow> barrier_error + task_set" where
  "getUpdateBarriers s t =
     guardE (t < length (taskUpdateBarriers s)) (InvalidTaskIndex t) (readVector (taskUpdateBarriers s) t)"

definition getBarrierProducers :: "barrier_info \<Rightarrow> nat \<Rightarrow> barrier_error + task_set" where
  "getBarrierProducers s b =
     guardE (b \<le> length (barrierProducerMap s)) (InvalidBarrierIndex b) (readVector (barrierProducerMap s) b)"

definition getBarrierConsumers :: "barrier_info \<Rightarrow> nat \<Rightarrow> barrier_error + task_set" where
  "getBarrierConsumers s b =
     guardE (b \<le> length (barrierConsumerMap s)) (InvalidBarrierIndex b) (readVector (barrierConsumerMap s) b)"

definition slotsOfTask :: "barrier_info \<Rightarrow> nat \<Rightarrow> barrier_error + nat" where
  "slotsOfTask s t = bindE (getTaskOpAtIndex s t) getNumOfSlotsUsed"

definition sumSlots :: "barrier_info \<Rightarrow> nat list \<Rightarrow> barrier_error + nat" where
  "sumSlots s ts = foldE (\<lambda>t n. bindE (slotsOfTask s t) (\<lambda>k. Inr (n + k))) ts 0"

definition getProducerSlotCount :: "barrier_info \<Rightarrow> nat \<Rightarrow> barrier_error + nat" where
  "getProducerSlotCount s b = bindE (getBarrierProducers s b) (\<lambda>ts. sumSlots s (elems ts))"

definition getConsumerSlotCount :: "barrier_info \<Rightarrow> nat \<Rightarrow> barrier_error + nat" where
  "getConsumerSlotCount s b = bindE (getBarrierConsumers s b) (\<lambda>ts. sumSlots s (elems ts))"

definition isSyncPoint :: "barrier_info \<Rightarrow> nat \<Rightarrow> bool" where
  "isSyncPoint s t =
     (if controlGraphBlockSize s = 0 \<or> int t = int (length (allTaskOps s)) - 1 then False
      else (t + 1) mod controlGraphBlockSize s = 0)"

section \<open>Adding and removing links\<close>

definition addConsumer :: "nat \<Rightarrow> nat \<Rightarrow> barrier_info \<Rightarrow> barrier_info" where
  "addConsumer b t s = s
     \<lparr>barrierConsumerMap := insert_at b t (barrierConsumerMap s),
      taskWaitBarriers := insert_at t b (taskWaitBarriers s)\<rparr>"

definition addProducer :: "nat \<Rightarrow> nat \<Rightarrow> barrier_info \<Rightarrow> barrier_info" where
  "addProducer b t s = s
     \<lparr>barrierProducerMap := insert_at b t (barrierProducerMap s),
      taskUpdateBarriers := insert_at t b (taskUpdateBarriers s)\<rparr>"

definition removeConsumer :: "nat \<Rightarrow> nat \<Rightarrow> barrier_info \<Rightarrow> barrier_info" where
  "removeConsumer b t s = s
     \<lparr>barrierConsumerMap := erase_at b t (barrierConsumerMap s),
      taskWaitBarriers := erase_at t b (taskWaitBarriers s)\<rparr>"

definition removeProducer :: "nat \<Rightarrow> nat \<Rightarrow> barrier_info \<Rightarrow> barrier_info" where
  "removeProducer b t s = s
     \<lparr>barrierProducerMap := erase_at b t (barrierProducerMap s),
      taskUpdateBarriers := erase_at t b (taskUpdateBarriers s)\<rparr>"

definition addConsumers :: "nat \<Rightarrow> task_set \<Rightarrow> barrier_info \<Rightarrow> barrier_info" where
  "addConsumers b ts s = fold (addConsumer b) (elems ts) s"

definition addProducers :: "nat \<Rightarrow> task_set \<Rightarrow> barrier_info \<Rightarrow> barrier_info" where
  "addProducers b ts s = fold (addProducer b) (elems ts) s"

definition removeConsumers :: "nat \<Rightarrow> task_set \<Rightarrow> barrier_info \<Rightarrow> barrier_info" where
  "removeConsumers b ts s = fold (removeConsumer b) (elems ts) s"

definition removeProducers :: "nat \<Rightarrow> task_set \<Rightarrow> barrier_info \<Rightarrow> barrier_info" where
  "removeProducers b ts s = fold (removeProducer b) (elems ts) s"

definition setWaitBarriers :: "nat \<Rightarrow> task_set \<Rightarrow> barrier_info \<Rightarrow> barrier_info" where
  "setWaitBarriers t bs s =
     (let cleared = fold (\<lambda>b. erase_at b t) (elems (taskWaitBarriers s ! t)) (barrierConsumerMap s);
          linked = fold (\<lambda>b. insert_at b t) (elems bs) cleared
      in s\<lparr>barrierConsumerMap := linked, taskWaitBarriers := (taskWaitBarriers s)[t := bs]\<rparr>)"

definition setUpdateBarriers :: "nat \<Rightarrow> task_set \<Rightarrow> barrier_info \<Rightarrow> barrier_info" where
  "setUpdateBarriers t bs s =
     (let cleared = fold (\<lambda>b. erase_at b t) (elems (taskUpdateBarriers s ! t)) (barrierProducerMap s);
          linked = fold (\<lambda>b. insert_at b t) (elems bs) cleared
      in s\<lparr>barrierProducerMap := linked, taskUpdateBarriers := (taskUpdateBarriers s)[t := bs]\<rparr>)"

definition resetBarrier :: "nat \<Rightarrow> barrier_info \<Rightarrow> barrier_info" where
  "resetBarrier b s = s
     \<lparr>taskUpdateBarriers := fold (\<lambda>t. erase_at t b) (elems (barrierProducerMap s ! b)) (taskUpdateBarriers s),
      barrierProducerMap := (barrierProducerMap s)[b := {}],
      taskWaitBarriers := fold (\<lambda>t. erase_at t b) (elems (barrierConsumerMap s ! b)) (taskWaitBarriers s),
      barrierConsumerMap := (barrierConsumerMap s)[b := {}]\<rparr>"

text \<open>
  \<open>addNewBarrier\<close> receives an operation freshly created by the builder; it gets the next
  index and empty links.
\<close>

definition addNewBarrier :: "barrier_op \<Rightarrow> barrier_info \<Rightarrow> barrier_info \<times> nat" where
  "addNewBarrier op s =
     (let i = length (allBarrierOps s)
      in (s\<lparr>allBarrierOps := allBarrierOps s @ [op\<lparr>barIndexAttr := Some i\<rparr>],
            barrierConsumerMap := barrierConsumerMap s @ [{}],
            barrierProducerMap := barrierProducerMap s @ [{}]\<rparr>, i))"

definition createBarrier :: "barrier_info \<Rightarrow> barrier_op" where
  "createBarrier s =
     \<lparr>barId = Suc (fold max (map barId (allBarrierOps s)) 0), barIndexAttr = None, hasNonTaskUser = False\<rparr>"


section \<open>The two copies of the links agree\<close>

definition bi_wf :: "barrier_info \<Rightarrow> bool" where
  "bi_wf s \<longleftrightarrow>
     length (barrierProducerMap s) = length (allBarrierOps s) \<and>
     length (barrierConsumerMap s) = length (allBarrierOps s) \<and>
     length (taskWaitBarriers s) = length (allTaskOps s) \<and>
     length (taskUpdateBarriers s) = length (allTaskOps s) \<and>
     (\<forall>b t. t \<in> producers s b \<longleftrightarrow> b \<in> updates s t) \<and>
     (\<forall>b t. t \<in> consumers s b \<longleftrightarrow> b \<in> waits s t)"

named_theorems bi_frame \<open>fields an operation leaves alone\<close>
named_theorems bi_links \<open>the links after an operation\<close>

lemma bi_wf_lengths:
  assumes "bi_wf s"
  shows "length (barrierProducerMap s) = length (allBarrierOps s)"
    "length (barrierConsumerMap s) = length (allBarrierOps s)"
    "length (taskWaitBarriers s) = length (allTaskOps s)"
    "length (taskUpdateBarriers s) = length (allTaskOps s)"
  using assms by (auto simp: bi_wf_def)

lemma bi_wf_producers: "bi_wf s \<Longrightarrow> t \<in> producers s b \<longleftrightarrow> b \<in> updates s t"
  by (simp add: bi_wf_def)

lemma bi_wf_consumers: "bi_wf s \<Longrightarrow> t \<in> consumers s b \<longleftrightarrow> b \<in> waits s t"
  by (simp add: bi_wf_def)

lemma bi_wf_bounds:
  assumes "bi_wf s"
  shows "producers s b \<subseteq> {..<length (allTaskOps s)}" "consumers s b \<subseteq> {..<length (allTaskOps s)}"
    "updates s t \<subseteq> {..<length (allBarrierOps s)}" "waits s t \<subseteq> {..<length (allBarrierOps s)}"
proof -
  note links = bi_wf_producers[OF assms] bi_wf_consumers[OF assms]
  note len = bi_wf_lengths[OF assms]
  show "producers s b \<subseteq> {..<length (allTaskOps s)}" "consumers s b \<subseteq> {..<length (allTaskOps s)}"
    using len links by (metis entry_in_range lessThan_iff subsetI)+
  show "updates s t \<subseteq> {..<length (allBarrierOps s)}" "waits s t \<subseteq> {..<length (allBarrierOps s)}"
    using len links by (metis entry_in_range lessThan_iff subsetI)+
qed

lemma bi_wf_finite [simp]:
  assumes "bi_wf s"
  shows "finite (producers s b)" "finite (consumers s b)" "finite (updates s t)" "finite (waits s t)"
  by (rule finite_subset[OF bi_wf_bounds(1)[OF assms]] finite_subset[OF bi_wf_bounds(2)[OF assms]]
      finite_subset[OF bi_wf_bounds(3)[OF assms]] finite_subset[OF bi_wf_bounds(4)[OF assms]],
      rule finite_lessThan)+

lemma bi_wfI:
  assumes "length (barrierProducerMap s) = length (allBarrierOps s)"
    "length (barrierConsumerMap s) = length (allBarrierOps s)"
    "length (taskWaitBarriers s) = length (allTaskOps s)"
    "length (taskUpdateBarriers s) = length (allTaskOps s)"
    "\<And>b t. t \<in> producers s b \<longleftrightarrow> b \<in> updates s t"
    "\<And>b t. t \<in> consumers s b \<longleftrightarrow> b \<in> waits s t"
  shows "bi_wf s"
  using assms by (simp add: bi_wf_def)

definition validTask :: "barrier_info \<Rightarrow> nat \<Rightarrow> bool" where
  "validTask s t \<longleftrightarrow> t < length (allTaskOps s)"

definition validBarrier :: "barrier_info \<Rightarrow> nat \<Rightarrow> bool" where
  "validBarrier s b \<longleftrightarrow> b < length (allBarrierOps s)"

text \<open>The graph of the tasks: \<open>t\<close> updates a barrier that \<open>c\<close> waits for.\<close>

definition taskGraph :: "barrier_info \<Rightarrow> (nat \<times> nat) set" where
  "taskGraph s = dep_edges (updates s) (consumers s)"

lemma taskGraph_iff: "(t, c) \<in> taskGraph s \<longleftrightarrow> (\<exists>b. b \<in> updates s t \<and> c \<in> consumers s b)"
  by (auto simp: taskGraph_def dep_edges_def)

text \<open>Tasks are listed in an execution order when every edge goes forward.\<close>

definition forward :: "barrier_info \<Rightarrow> bool" where
  "forward s \<longleftrightarrow> (\<forall>(t, c) \<in> taskGraph s. t < c)"

section \<open>Effect of each operation on the links\<close>

lemma addConsumer_frame [simp, bi_frame]:
  "allTaskOps (addConsumer b t s) = allTaskOps s"
  "allBarrierOps (addConsumer b t s) = allBarrierOps s"
  "controlGraphBlockSize (addConsumer b t s) = controlGraphBlockSize s"
  "syncTasksIds (addConsumer b t s) = syncTasksIds s"
  "taskQueueTypeMap (addConsumer b t s) = taskQueueTypeMap s"
  "barrierProducerMap (addConsumer b t s) = barrierProducerMap s"
  "taskUpdateBarriers (addConsumer b t s) = taskUpdateBarriers s"
  "length (barrierConsumerMap (addConsumer b t s)) = length (barrierConsumerMap s)"
  "length (taskWaitBarriers (addConsumer b t s)) = length (taskWaitBarriers s)"
  "enableUneven (addConsumer b t s) = enableUneven s"
  by (simp_all add: addConsumer_def)

lemma addProducer_frame [simp, bi_frame]:
  "allTaskOps (addProducer b t s) = allTaskOps s"
  "allBarrierOps (addProducer b t s) = allBarrierOps s"
  "controlGraphBlockSize (addProducer b t s) = controlGraphBlockSize s"
  "syncTasksIds (addProducer b t s) = syncTasksIds s"
  "taskQueueTypeMap (addProducer b t s) = taskQueueTypeMap s"
  "barrierConsumerMap (addProducer b t s) = barrierConsumerMap s"
  "taskWaitBarriers (addProducer b t s) = taskWaitBarriers s"
  "length (barrierProducerMap (addProducer b t s)) = length (barrierProducerMap s)"
  "length (taskUpdateBarriers (addProducer b t s)) = length (taskUpdateBarriers s)"
  "enableUneven (addProducer b t s) = enableUneven s"
  by (simp_all add: addProducer_def)

lemma removeConsumer_frame [simp, bi_frame]:
  "allTaskOps (removeConsumer b t s) = allTaskOps s"
  "allBarrierOps (removeConsumer b t s) = allBarrierOps s"
  "controlGraphBlockSize (removeConsumer b t s) = controlGraphBlockSize s"
  "syncTasksIds (removeConsumer b t s) = syncTasksIds s"
  "taskQueueTypeMap (removeConsumer b t s) = taskQueueTypeMap s"
  "barrierProducerMap (removeConsumer b t s) = barrierProducerMap s"
  "taskUpdateBarriers (removeConsumer b t s) = taskUpdateBarriers s"
  "length (barrierConsumerMap (removeConsumer b t s)) = length (barrierConsumerMap s)"
  "length (taskWaitBarriers (removeConsumer b t s)) = length (taskWaitBarriers s)"
  "enableUneven (removeConsumer b t s) = enableUneven s"
  by (simp_all add: removeConsumer_def)

lemma removeProducer_frame [simp, bi_frame]:
  "allTaskOps (removeProducer b t s) = allTaskOps s"
  "allBarrierOps (removeProducer b t s) = allBarrierOps s"
  "controlGraphBlockSize (removeProducer b t s) = controlGraphBlockSize s"
  "syncTasksIds (removeProducer b t s) = syncTasksIds s"
  "taskQueueTypeMap (removeProducer b t s) = taskQueueTypeMap s"
  "barrierConsumerMap (removeProducer b t s) = barrierConsumerMap s"
  "taskWaitBarriers (removeProducer b t s) = taskWaitBarriers s"
  "length (barrierProducerMap (removeProducer b t s)) = length (barrierProducerMap s)"
  "length (taskUpdateBarriers (removeProducer b t s)) = length (taskUpdateBarriers s)"
  "enableUneven (removeProducer b t s) = enableUneven s"
  by (simp_all add: removeProducer_def)

lemma addConsumer_links [bi_links]:
  assumes "bi_wf s" "validBarrier s b" "validTask s t"
  shows "consumers (addConsumer b t s) b' = (if b' = b then insert t (consumers s b') else consumers s b')"
    "waits (addConsumer b t s) t' = (if t' = t then insert b (waits s t') else waits s t')"
  using assms bi_wf_lengths[OF assms(1)]
  by (simp_all add: addConsumer_def vec_simps validBarrier_def validTask_def)

lemma addProducer_links [bi_links]:
  assumes "bi_wf s" "validBarrier s b" "validTask s t"
  shows "producers (addProducer b t s) b' = (if b' = b then insert t (producers s b') else producers s b')"
    "updates (addProducer b t s) t' = (if t' = t then insert b (updates s t') else updates s t')"
  using assms bi_wf_lengths[OF assms(1)]
  by (simp_all add: addProducer_def vec_simps validBarrier_def validTask_def)

lemma removeConsumer_links [bi_links]:
  "consumers (removeConsumer b t s) b' = (if b' = b then consumers s b' - {t} else consumers s b')"
  "waits (removeConsumer b t s) t' = (if t' = t then waits s t' - {b} else waits s t')"
  by (simp_all add: removeConsumer_def vec_simps)

lemma removeProducer_links [bi_links]:
  "producers (removeProducer b t s) b' = (if b' = b then producers s b' - {t} else producers s b')"
  "updates (removeProducer b t s) t' = (if t' = t then updates s t' - {b} else updates s t')"
  by (simp_all add: removeProducer_def vec_simps)

lemma addConsumer_wf:
  assumes "bi_wf s" "validBarrier s b" "validTask s t"
  shows "bi_wf (addConsumer b t s)"
  using assms bi_wf_lengths[OF assms(1)] bi_wf_producers[OF assms(1)] bi_wf_consumers[OF assms(1)]
  by (intro bi_wfI) (auto simp: addConsumer_links[OF assms])

lemma addProducer_wf:
  assumes "bi_wf s" "validBarrier s b" "validTask s t"
  shows "bi_wf (addProducer b t s)"
  using assms bi_wf_lengths[OF assms(1)] bi_wf_producers[OF assms(1)] bi_wf_consumers[OF assms(1)]
  by (intro bi_wfI) (auto simp: addProducer_links[OF assms])

lemma removeConsumer_wf: "bi_wf s \<Longrightarrow> bi_wf (removeConsumer b t s)"
  using bi_wf_lengths[of s] bi_wf_producers[of s] bi_wf_consumers[of s]
  by (intro bi_wfI) (auto simp: removeConsumer_links)

lemma removeProducer_wf: "bi_wf s \<Longrightarrow> bi_wf (removeProducer b t s)"
  using bi_wf_lengths[of s] bi_wf_producers[of s] bi_wf_consumers[of s]
  by (intro bi_wfI) (auto simp: removeProducer_links)


text \<open>The fields that no link operation writes.\<close>

definition bi_same :: "barrier_info \<Rightarrow> barrier_info \<Rightarrow> bool" where
  "bi_same s s' \<longleftrightarrow>
     allTaskOps s' = allTaskOps s \<and> allBarrierOps s' = allBarrierOps s \<and>
     enableUneven s' = enableUneven s \<and> controlGraphBlockSize s' = controlGraphBlockSize s \<and>
     syncTasksIds s' = syncTasksIds s \<and> taskQueueTypeMap s' = taskQueueTypeMap s"

lemma bi_same_refl [simp]: "bi_same s s"
  by (simp add: bi_same_def)

lemma bi_same_trans: "bi_same s s' \<Longrightarrow> bi_same s' s'' \<Longrightarrow> bi_same s s''"
  by (simp add: bi_same_def)

lemma bi_same_valid:
  "bi_same s s' \<Longrightarrow> validTask s' t = validTask s t" "bi_same s s' \<Longrightarrow> validBarrier s' b = validBarrier s b"
  by (simp_all add: bi_same_def validTask_def validBarrier_def)

lemma bi_same_step [simp]:
  "bi_same s (addConsumer b t s)" "bi_same s (addProducer b t s)"
  "bi_same s (removeConsumer b t s)" "bi_same s (removeProducer b t s)"
  by (simp_all add: bi_same_def)

text \<open>One fold lemma per link, for any order of the tasks.\<close>

lemma fold_addConsumer:
  assumes "bi_wf s" "validBarrier s b" "\<And>t. t \<in> set ts \<Longrightarrow> validTask s t"
  shows "bi_wf (fold (addConsumer b) ts s) \<and> bi_same s (fold (addConsumer b) ts s) \<and>
    barrierProducerMap (fold (addConsumer b) ts s) = barrierProducerMap s \<and>
    taskUpdateBarriers (fold (addConsumer b) ts s) = taskUpdateBarriers s \<and>
    (\<forall>b'. consumers (fold (addConsumer b) ts s) b' =
       (if b' = b then consumers s b' \<union> set ts else consumers s b')) \<and>
    (\<forall>t'. waits (fold (addConsumer b) ts s) t' = (if t' \<in> set ts then insert b (waits s t') else waits s t'))"
  using assms
proof (induction ts arbitrary: s)
  case Nil
  then show ?case by simp
next
  case (Cons t ts)
  have v: "validTask s t" using Cons.prems(3) by simp
  note l = addConsumer_links[OF Cons.prems(1,2) v]
  have "bi_wf (addConsumer b t s)" by (rule addConsumer_wf[OF Cons.prems(1,2) v])
  from Cons.IH[OF this] Cons.prems bi_same_trans[OF bi_same_step(1)[of s b t]] show ?case
    by (simp add: bi_same_valid[OF bi_same_step(1)] l)
qed

lemma fold_addProducer:
  assumes "bi_wf s" "validBarrier s b" "\<And>t. t \<in> set ts \<Longrightarrow> validTask s t"
  shows "bi_wf (fold (addProducer b) ts s) \<and> bi_same s (fold (addProducer b) ts s) \<and>
    barrierConsumerMap (fold (addProducer b) ts s) = barrierConsumerMap s \<and>
    taskWaitBarriers (fold (addProducer b) ts s) = taskWaitBarriers s \<and>
    (\<forall>b'. producers (fold (addProducer b) ts s) b' =
       (if b' = b then producers s b' \<union> set ts else producers s b')) \<and>
    (\<forall>t'. updates (fold (addProducer b) ts s) t' = (if t' \<in> set ts then insert b (updates s t') else updates s t'))"
  using assms
proof (induction ts arbitrary: s)
  case Nil
  then show ?case by simp
next
  case (Cons t ts)
  have v: "validTask s t" using Cons.prems(3) by simp
  note l = addProducer_links[OF Cons.prems(1,2) v]
  have "bi_wf (addProducer b t s)" by (rule addProducer_wf[OF Cons.prems(1,2) v])
  from Cons.IH[OF this] Cons.prems bi_same_trans[OF bi_same_step(2)[of s b t]] show ?case
    by (simp add: bi_same_valid[OF bi_same_step(2)] l)
qed

lemma fold_removeConsumer:
  assumes "bi_wf s"
  shows "bi_wf (fold (removeConsumer b) ts s) \<and> bi_same s (fold (removeConsumer b) ts s) \<and>
    barrierProducerMap (fold (removeConsumer b) ts s) = barrierProducerMap s \<and>
    taskUpdateBarriers (fold (removeConsumer b) ts s) = taskUpdateBarriers s \<and>
    (\<forall>b'. consumers (fold (removeConsumer b) ts s) b' =
       (if b' = b then consumers s b' - set ts else consumers s b')) \<and>
    (\<forall>t'. waits (fold (removeConsumer b) ts s) t' = (if t' \<in> set ts then waits s t' - {b} else waits s t'))"
  using assms
proof (induction ts arbitrary: s)
  case Nil
  then show ?case by simp
next
  case (Cons t ts)
  from Cons.IH[OF removeConsumer_wf[OF Cons.prems]] bi_same_trans[OF bi_same_step(3)[of s b t]]
  show ?case by (auto simp: removeConsumer_links)
qed

lemma fold_removeProducer:
  assumes "bi_wf s"
  shows "bi_wf (fold (removeProducer b) ts s) \<and> bi_same s (fold (removeProducer b) ts s) \<and>
    barrierConsumerMap (fold (removeProducer b) ts s) = barrierConsumerMap s \<and>
    taskWaitBarriers (fold (removeProducer b) ts s) = taskWaitBarriers s \<and>
    (\<forall>b'. producers (fold (removeProducer b) ts s) b' =
       (if b' = b then producers s b' - set ts else producers s b')) \<and>
    (\<forall>t'. updates (fold (removeProducer b) ts s) t' = (if t' \<in> set ts then updates s t' - {b} else updates s t'))"
  using assms
proof (induction ts arbitrary: s)
  case Nil
  then show ?case by simp
next
  case (Cons t ts)
  from Cons.IH[OF removeProducer_wf[OF Cons.prems]] bi_same_trans[OF bi_same_step(4)[of s b t]]
  show ?case by (auto simp: removeProducer_links)
qed

definition validTasks :: "barrier_info \<Rightarrow> nat set \<Rightarrow> bool" where
  "validTasks s ts \<longleftrightarrow> ts \<subseteq> {..<length (allTaskOps s)}"

lemma validTasks_finite: "validTasks s ts \<Longrightarrow> finite ts"
  unfolding validTasks_def by (rule finite_subset) auto

lemma validTasks_elems: "validTasks s ts \<Longrightarrow> t \<in> set (elems ts) \<Longrightarrow> validTask s t"
  using validTasks_finite[of s ts] by (auto simp: validTasks_def validTask_def)

lemma addConsumers_spec:
  assumes "bi_wf s" "validBarrier s b" "validTasks s ts"
  shows "bi_wf (addConsumers b ts s)" "bi_same s (addConsumers b ts s)"
    "barrierProducerMap (addConsumers b ts s) = barrierProducerMap s"
    "taskUpdateBarriers (addConsumers b ts s) = taskUpdateBarriers s"
    "consumers (addConsumers b ts s) b' = (if b' = b then consumers s b' \<union> ts else consumers s b')"
    "waits (addConsumers b ts s) t' = (if t' \<in> ts then insert b (waits s t') else waits s t')"
  using fold_addConsumer[where ts = "elems ts", OF assms(1,2) validTasks_elems[OF assms(3)]] validTasks_finite[OF assms(3)]
  by (simp_all add: addConsumers_def)

lemma addProducers_spec:
  assumes "bi_wf s" "validBarrier s b" "validTasks s ts"
  shows "bi_wf (addProducers b ts s)" "bi_same s (addProducers b ts s)"
    "barrierConsumerMap (addProducers b ts s) = barrierConsumerMap s"
    "taskWaitBarriers (addProducers b ts s) = taskWaitBarriers s"
    "producers (addProducers b ts s) b' = (if b' = b then producers s b' \<union> ts else producers s b')"
    "updates (addProducers b ts s) t' = (if t' \<in> ts then insert b (updates s t') else updates s t')"
  using fold_addProducer[where ts = "elems ts", OF assms(1,2) validTasks_elems[OF assms(3)]] validTasks_finite[OF assms(3)]
  by (simp_all add: addProducers_def)

lemmas removeConsumers_spec = fold_removeConsumer[where ts = "elems ts" for ts, folded removeConsumers_def]
lemmas removeProducers_spec = fold_removeProducer[where ts = "elems ts" for ts, folded removeProducers_def]

lemma setUpdateBarriers_spec:
  assumes w: "bi_wf s" and t: "validTask s t" and b: "bs \<subseteq> {..<length (allBarrierOps s)}"
  shows "bi_wf (setUpdateBarriers t bs s)" "bi_same s (setUpdateBarriers t bs s)"
    "barrierConsumerMap (setUpdateBarriers t bs s) = barrierConsumerMap s"
    "taskWaitBarriers (setUpdateBarriers t bs s) = taskWaitBarriers s"
    "updates (setUpdateBarriers t bs s) t' = (if t' = t then bs else updates s t')"
proof -
  note len = bi_wf_lengths[OF w]
  have f: "finite bs" using b by (rule finite_subset) simp
  have tu: "taskUpdateBarriers s ! t = updates s t" using t len by (simp add: validTask_def)
  show u: "updates (setUpdateBarriers t bs s) t' = (if t' = t then bs else updates s t')" for t'
    using t len by (simp add: setUpdateBarriers_def Let_def validTask_def vec_simps)
  have p: "producers (setUpdateBarriers t bs s) b =
      (if b \<in> bs then insert t (producers s b) else producers s b - {t})" for b
    using assms f len bi_wf_producers[OF w]
    by (auto simp: setUpdateBarriers_def Let_def vec_simps tu)
  show same: "bi_same s (setUpdateBarriers t bs s)"
    "barrierConsumerMap (setUpdateBarriers t bs s) = barrierConsumerMap s"
    "taskWaitBarriers (setUpdateBarriers t bs s) = taskWaitBarriers s"
    by (simp_all add: setUpdateBarriers_def bi_same_def Let_def)
  show "bi_wf (setUpdateBarriers t bs s)"
    by (rule bi_wfI, unfold p u same)
      (use len bi_wf_producers[OF w] bi_wf_consumers[OF w] in
        \<open>auto simp: setUpdateBarriers_def Let_def\<close>)
qed

lemma setWaitBarriers_spec:
  assumes w: "bi_wf s" and t: "validTask s t" and b: "bs \<subseteq> {..<length (allBarrierOps s)}"
  shows "bi_wf (setWaitBarriers t bs s)" "bi_same s (setWaitBarriers t bs s)"
    "barrierProducerMap (setWaitBarriers t bs s) = barrierProducerMap s"
    "taskUpdateBarriers (setWaitBarriers t bs s) = taskUpdateBarriers s"
    "waits (setWaitBarriers t bs s) t' = (if t' = t then bs else waits s t')"
proof -
  note len = bi_wf_lengths[OF w]
  have f: "finite bs" using b by (rule finite_subset) simp
  have tw: "taskWaitBarriers s ! t = waits s t" using t len by (simp add: validTask_def)
  show u: "waits (setWaitBarriers t bs s) t' = (if t' = t then bs else waits s t')" for t'
    using t len by (simp add: setWaitBarriers_def Let_def validTask_def vec_simps)
  have p: "consumers (setWaitBarriers t bs s) b =
      (if b \<in> bs then insert t (consumers s b) else consumers s b - {t})" for b
    using assms f len bi_wf_consumers[OF w]
    by (auto simp: setWaitBarriers_def Let_def vec_simps tw)
  show same: "bi_same s (setWaitBarriers t bs s)"
    "barrierProducerMap (setWaitBarriers t bs s) = barrierProducerMap s"
    "taskUpdateBarriers (setWaitBarriers t bs s) = taskUpdateBarriers s"
    by (simp_all add: setWaitBarriers_def bi_same_def Let_def)
  show "bi_wf (setWaitBarriers t bs s)"
    by (rule bi_wfI, unfold p u same)
      (use len bi_wf_producers[OF w] bi_wf_consumers[OF w] in
        \<open>auto simp: setWaitBarriers_def Let_def\<close>)
qed

lemma resetBarrier_spec:
  assumes w: "bi_wf s" and b: "validBarrier s b"
  shows "bi_wf (resetBarrier b s)" "bi_same s (resetBarrier b s)"
    "producers (resetBarrier b s) b' = (if b' = b then {} else producers s b')"
    "consumers (resetBarrier b s) b' = (if b' = b then {} else consumers s b')"
    "updates (resetBarrier b s) t = updates s t - {b}"
    "waits (resetBarrier b s) t = waits s t - {b}"
proof -
  note len = bi_wf_lengths[OF w]
  have e: "barrierProducerMap s ! b = producers s b" "barrierConsumerMap s ! b = consumers s b"
    using b len by (simp_all add: validBarrier_def)
  show same: "bi_same s (resetBarrier b s)"
    by (simp add: resetBarrier_def bi_same_def)
  show p: "producers (resetBarrier b s) b' = (if b' = b then {} else producers s b')"
    "consumers (resetBarrier b s) b' = (if b' = b then {} else consumers s b')" for b'
    using b len by (simp_all add: resetBarrier_def vec_simps validBarrier_def)
  show u: "updates (resetBarrier b s) t = updates s t - {b}"
    "waits (resetBarrier b s) t = waits s t - {b}" for t
    using w bi_wf_producers[OF w, of t b] bi_wf_consumers[OF w, of t b]
    by (auto simp: resetBarrier_def vec_simps e)
  show "bi_wf (resetBarrier b s)"
    by (rule bi_wfI, unfold p u same)
      (use len bi_wf_producers[OF w] bi_wf_consumers[OF w] in \<open>auto simp: resetBarrier_def\<close>)
qed

lemma addNewBarrier_spec:
  assumes w: "bi_wf s" and s': "addNewBarrier op s = (s', i)"
  shows "bi_wf s'" "i = length (allBarrierOps s)" "validBarrier s' i"
    "allTaskOps s' = allTaskOps s" "length (allBarrierOps s') = Suc (length (allBarrierOps s))"
    "enableUneven s' = enableUneven s" "controlGraphBlockSize s' = controlGraphBlockSize s"
    "syncTasksIds s' = syncTasksIds s" "taskQueueTypeMap s' = taskQueueTypeMap s"
    "producers s' b = producers s b" "consumers s' b = consumers s b"
    "updates s' t = updates s t" "waits s' t = waits s t"
proof -
  note len = bi_wf_lengths[OF w]
  show p: "producers s' b = producers s b" "consumers s' b = consumers s b"
    "updates s' t = updates s t" "waits s' t = waits s t" for b t
    using s' by (auto simp: addNewBarrier_def Let_def vec_simps)
  show "i = length (allBarrierOps s)" "validBarrier s' i"
    "allTaskOps s' = allTaskOps s" "length (allBarrierOps s') = Suc (length (allBarrierOps s))"
    "enableUneven s' = enableUneven s" "controlGraphBlockSize s' = controlGraphBlockSize s"
    "syncTasksIds s' = syncTasksIds s" "taskQueueTypeMap s' = taskQueueTypeMap s"
    using s' by (auto simp: addNewBarrier_def Let_def validBarrier_def)
  show "bi_wf s'"
    by (rule bi_wfI, unfold p)
      (use s' len bi_wf_producers[OF w] bi_wf_consumers[OF w] in \<open>auto simp: addNewBarrier_def Let_def\<close>)
qed

section \<open>Operations know their position\<close>

text \<open>The attributes say where an operation is.\<close>

definition bi_indexed :: "barrier_info \<Rightarrow> bool" where
  "bi_indexed s \<longleftrightarrow>
     (\<forall>i < length (allTaskOps s). taskIndexAttr (allTaskOps s ! i) = Some i) \<and>
     (\<forall>i < length (allBarrierOps s). barIndexAttr (allBarrierOps s ! i) = Some i)"

lemma bi_same_indexed: "bi_same s s' \<Longrightarrow> bi_indexed s' = bi_indexed s"
  by (simp add: bi_same_def bi_indexed_def)

lemma getTaskOpAtIndex_ok: "bi_indexed s \<Longrightarrow> i < length (allTaskOps s) \<Longrightarrow> getTaskOpAtIndex s i = Inr (allTaskOps s ! i)"
  by (simp add: getTaskOpAtIndex_def getIndexTask_def bi_indexed_def)

lemma getBarrierOpAtIndex_ok:
  "bi_indexed s \<Longrightarrow> i < length (allBarrierOps s) \<Longrightarrow> getBarrierOpAtIndex s i = Inr (allBarrierOps s ! i)"
  by (simp add: getBarrierOpAtIndex_def getIndexBarrier_def bi_indexed_def)

text \<open>Every task runs on an executor whose slots the code can count.\<close>

definition slotsKnown :: "barrier_info \<Rightarrow> bool" where
  "slotsKnown s \<longleftrightarrow> list_all (\<lambda>op. \<not> isl (getNumOfSlotsUsed op)) (allTaskOps s)"

definition taskSlots :: "barrier_info \<Rightarrow> nat \<Rightarrow> nat" where
  "taskSlots s t = projr (getNumOfSlotsUsed (allTaskOps s ! t))"

lemma slotsOfTask_known:
  assumes "slotsKnown s" "bi_indexed s" "t < length (allTaskOps s)"
  shows "slotsOfTask s t = Inr (taskSlots s t)"
  using assms by (simp add: slotsOfTask_def getTaskOpAtIndex_ok slotsKnown_def list_all_length taskSlots_def)

lemma sumSlots_known:
  assumes "slotsKnown s" "bi_indexed s" "set ts \<subseteq> {..<length (allTaskOps s)}"
  shows "sumSlots s ts = Inr (sum_list (map (taskSlots s) ts))"
proof -
  have "foldE (\<lambda>t n. bindE (slotsOfTask s t) (\<lambda>k. Inr (n + k))) ts n = Inr (n + sum_list (map (taskSlots s) ts))" for n
    using assms(3) by (induction ts arbitrary: n) (auto simp: slotsOfTask_known assms(1,2))
  then show ?thesis by (simp add: sumSlots_def)
qed

lemma sumSlots_set:
  assumes "slotsKnown s" "bi_indexed s" "S \<subseteq> {..<length (allTaskOps s)}"
  shows "sumSlots s (elems S) = Inr (\<Sum>t \<in> S. taskSlots s t)"
proof -
  have "finite S" by (rule finite_subset[OF assms(3)]) simp
  with assms sumSlots_known[OF assms(1,2), of "elems S"] show ?thesis
    by (simp add: sum_list_distinct_conv_sum_set)
qed

lemma bi_same_slots: "bi_same s s' \<Longrightarrow> slotsKnown s' = slotsKnown s" "bi_same s s' \<Longrightarrow> taskSlots s' = taskSlots s"
  by (auto simp: bi_same_def slotsKnown_def taskSlots_def fun_eq_iff)

end
