(* ===== verification/Barrier_Blocks.thy ===== *)
theory Barrier_Blocks
  imports Barrier_Info
begin

text \<open>
  The blocks of a split control graph: their number, the range of tasks of each, the barriers
  a block touches, and the check that no dependency leaves its block
  (\<open>verifyControlGraphSplit\<close>).
\<close>

section \<open>Block ranges\<close>

text \<open>Subtraction on \<open>size_t\<close>: it wraps below zero.\<close>

definition subSize :: "nat \<Rightarrow> nat \<Rightarrow> nat" where
  "subSize a b = (if b \<le> a then a - b else 2 ^ 64 + a - b)"

lemma subSize_le [simp]: "b \<le> a \<Longrightarrow> subSize a b = a - b"
  by (simp add: subSize_def)

definition getControlGraphBlockCount :: "barrier_info \<Rightarrow> nat" where
  "getControlGraphBlockCount s = length (syncTasksIds s) + 1"

definition getControlGraphBlockTaskRange ::
  "barrier_info \<Rightarrow> nat \<Rightarrow> bool \<Rightarrow> bool \<Rightarrow> barrier_error + nat \<times> nat" where
  "getControlGraphBlockTaskRange s blk startSync endSync =
     guardE (blk < getControlGraphBlockCount s) (InvalidBlockIndex blk)
       (let st = (if blk = 0 then 0
                  else if startSync then syncTasksIds s ! (blk - 1)
                  else syncTasksIds s ! (blk - 1) + 1);
            en = (if blk = getControlGraphBlockCount s - 1 then subSize (getNumOfTasks s) 1
                  else if endSync then syncTasksIds s ! blk
                  else subSize (syncTasksIds s ! blk) 1)
        in Inr (st, en))"

definition getControlGraphBlockIndex :: "barrier_info \<Rightarrow> nat \<Rightarrow> nat" where
  "getControlGraphBlockIndex s t =
     (if controlGraphBlockSize s = 0 then 0 else t div controlGraphBlockSize s)"

definition getBarriersForTaskBlock ::
  "barrier_info \<Rightarrow> nat \<Rightarrow> bool \<Rightarrow> bool \<Rightarrow> bool \<Rightarrow> barrier_error + nat list" where
  "getBarriersForTaskBlock s blk startSync endSync updateBarriers =
     guardE (blk < getControlGraphBlockCount s) (InvalidBlockIndex blk)
       (bindE (getControlGraphBlockTaskRange s blk startSync endSync) (\<lambda>(st, en).
          (let v = (if updateBarriers then taskUpdateBarriers s else taskWaitBarriers s)
           in bindE (foldE (\<lambda>t bits. bindE (readVector v t) (\<lambda>bs. Inr (bits \<union> bs))) (upto_list st en) {})
                (\<lambda>bits. Inr (elems bits)))))"

text \<open>Sync tasks sit at the end of equally sized blocks.\<close>

definition syncWf :: "barrier_info \<Rightarrow> bool" where
  "syncWf s \<longleftrightarrow>
     (\<forall>i < length (syncTasksIds s). syncTasksIds s ! i = (i + 1) * controlGraphBlockSize s - 1) \<and>
     (syncTasksIds s \<noteq> [] \<longrightarrow> 0 < controlGraphBlockSize s \<and> last (syncTasksIds s) + 1 < length (allTaskOps s))"

lemma foldE_union:
  "foldE (\<lambda>t bits. bindE (readVector v t) (\<lambda>bs. Inr (bits \<union> bs))) ts B =
     (if \<forall>t \<in> set ts. t < length v then Inr (B \<union> (\<Union>t \<in> set ts. v ! t))
      else Inl (InvalidRead (hd (filter (\<lambda>t. \<not> t < length v) ts))))"
  by (induction ts arbitrary: B) (auto simp: readVector_def)

lemma getBarriersForTaskBlock_Inr:
  assumes "getBarriersForTaskBlock s blk a b u = Inr bars"
  obtains st en where "getControlGraphBlockTaskRange s blk a b = Inr (st, en)"
    "bars = elems (\<Union>t \<in> {st..en}. (if u then updates s t else waits s t))"
    "\<And>t. t \<in> {st..en} \<Longrightarrow> t < length (if u then taskUpdateBarriers s else taskWaitBarriers s)"
proof -
  let ?v = "if u then taskUpdateBarriers s else taskWaitBarriers s"
  from assms obtain st en bits where r: "getControlGraphBlockTaskRange s blk a b = Inr (st, en)"
    and f: "foldE (\<lambda>t bits. bindE (readVector ?v t) (\<lambda>bs. Inr (bits \<union> bs))) (upto_list st en) {} = Inr bits"
    and bars: "bars = elems bits"
    by (auto simp: getBarriersForTaskBlock_def guardE_Inr bindE_Inr Let_def)
  from f have range: "\<forall>t \<in> {st..en}. t < length ?v" and bits: "bits = (\<Union>t \<in> {st..en}. ?v ! t)"
    by (auto simp: foldE_union split: if_splits)
  from range bits have "bits = (\<Union>t \<in> {st..en}. (if u then updates s t else waits s t))"
    by (cases u) auto
  with that[OF r] bars range show ?thesis by blast
qed

section \<open>Verifying the split\<close>

text \<open>
  The nested loops of the check, with their early exits: a dependency of a sync task must lead
  into the next block, every other dependency must stay in its block.
\<close>

definition verifySyncDistances :: "barrier_info \<Rightarrow> barrier_error + unit" where
  "verifySyncDistances s =
     foldE (\<lambda>i _. guardE (subSize (syncTasksIds s ! i) (syncTasksIds s ! (i - 1)) = controlGraphBlockSize s)
        SyncTaskDistance (Inr ())) [1..<length (syncTasksIds s)] ()"

definition childInBlock :: "barrier_info \<Rightarrow> nat \<Rightarrow> nat \<Rightarrow> bool" where
  "childInBlock s t c =
     (let block = t div controlGraphBlockSize s;
          sync = (block + 1) * controlGraphBlockSize s - 1;
          childBlock = c div controlGraphBlockSize s
      in if t = sync \<and> block + 1 \<noteq> childBlock then False
         else if t \<noteq> sync \<and> block \<noteq> childBlock then False
         else True)"

definition verifyControlGraphSplit :: "barrier_info \<Rightarrow> barrier_error + bool" where
  "verifyControlGraphSplit s =
     (if syncTasksIds s = [] then Inr True
      else bindE (verifySyncDistances s) (\<lambda>_.
        Inr (list_all (\<lambda>t. list_all (\<lambda>b. list_all (childInBlock s t) (elems (barrierConsumerMap s ! b)))
               (elems (taskUpdateBarriers s ! t))) [0..<length (allTaskOps s)])))"

lemma list_all_elems: "finite S \<Longrightarrow> list_all P (elems S) \<longleftrightarrow> (\<forall>x \<in> S. P x)"
  by (simp add: list_all_iff)

text \<open>What the check accepts: exactly the graphs all of whose edges respect the blocks.\<close>

lemma verifyControlGraphSplit_iff:
  assumes w: "bi_wf s" and "syncTasksIds s \<noteq> []" and "verifySyncDistances s = Inr ()"
  shows "verifyControlGraphSplit s = Inr True \<longleftrightarrow> (\<forall>(t, c) \<in> taskGraph s. childInBlock s t c)"
proof -
  note len = bi_wf_lengths[OF w]
  have u: "set (elems (taskUpdateBarriers s ! t)) = updates s t" if "t < length (allTaskOps s)" for t
    using bi_wf_finite(3)[OF w, of t] that len by simp
  have c: "set (elems (barrierConsumerMap s ! b)) = consumers s b" if "b \<in> updates s t" for b t
    using bi_wf_finite(2)[OF w, of b] bi_wf_bounds(3)[OF w, of t] that len by auto
  have "verifyControlGraphSplit s = Inr True \<longleftrightarrow>
      (\<forall>t \<in> {0..<length (allTaskOps s)}. \<forall>b \<in> updates s t. \<forall>c \<in> consumers s b. childInBlock s t c)"
    using assms(2,3) by (simp add: verifyControlGraphSplit_def list_all_iff u c)
  also have "\<dots> \<longleftrightarrow> (\<forall>(t, c) \<in> taskGraph s. childInBlock s t c)"
    using len by (fastforce simp: taskGraph_iff dest: entry_in_range)
  finally show ?thesis .
qed

end
