(* ===== verification/Barrier_Masks.thy ===== *)
theory Barrier_Masks
  imports Barrier_Blocks
begin

text \<open>
  The bit masks of \<open>optimizeBarrierProducers\<close> and \<open>optimizeBarrierConsumers\<close>. Both
  walk the tasks of a block twice over two maps: \<open>v\<close> from tasks to barriers (update or wait
  barriers) and \<open>w\<close> from barriers to tasks (consumers or producers). The first walk
  collects in the mask of a task its own barriers and the masks of its neighbours, the second
  walk, in the opposite order, clears from it what the neighbours have. A mask is the set of
  its bits, relative to the first barrier of the block.
\<close>

section \<open>The two walks\<close>

definition inRange :: "nat \<Rightarrow> nat \<Rightarrow> nat \<Rightarrow> bool" where
  "inRange low high val \<longleftrightarrow> low \<le> val \<and> val \<le> high"

definition setBarrierMask :: "nat set \<Rightarrow> nat set \<Rightarrow> nat \<Rightarrow> nat set" where
  "setBarrierMask bits barriers offset = fold (\<lambda>b m. insert (subSize b offset) m) (elems barriers) bits"

definition collectMask ::
  "(nat \<Rightarrow> bool) \<Rightarrow> (nat \<Rightarrow> barrier_error) \<Rightarrow> nat set list \<Rightarrow> nat set list \<Rightarrow> nat \<Rightarrow> nat \<Rightarrow> nat
    \<Rightarrow> nat \<Rightarrow> nat set list \<Rightarrow> barrier_error + nat set list" where
  "collectMask skip err v w st en offset t M =
     (let M1 = M[t - st := setBarrierMask (M ! (t - st)) (v ! t) offset]
      in if skip t then Inr M1
         else foldE (\<lambda>b. foldE (\<lambda>c M. guardE (inRange st en c) (err t)
                           (Inr (M[t - st := M ! (t - st) \<union> M ! (c - st)])))
                         (elems (w ! b)))
                (elems (v ! t)) M1)"

definition clearMask ::
  "nat set list \<Rightarrow> nat set list \<Rightarrow> nat \<Rightarrow> nat \<Rightarrow> nat \<Rightarrow> nat set list \<Rightarrow> nat set list" where
  "clearMask v w st en t M =
     fold (\<lambda>b. fold (\<lambda>c M. if inRange st en c then M[t - st := M ! (t - st) - M ! (c - st)] else M)
                 (elems (w ! b)))
       (elems (v ! t)) M"

section \<open>One step of each walk\<close>

lemma mask_other:
  assumes "st \<le> t" "inRange st en c" "c \<noteq> t"
  shows "M[t - st := x] ! (c - st) = M ! (c - st)"
  using assms by (intro nth_list_update_neq) (unfold inRange_def, arith)

lemma setBarrierMask_eq:
  "finite B \<Longrightarrow> setBarrierMask m B off = m \<union> (\<lambda>b. subSize b off) ` B"
proof -
  have "fold (\<lambda>b m. insert (subSize b off) m) xs m = m \<union> (\<lambda>b. subSize b off) ` set xs" for xs
    by (induction xs arbitrary: m) auto
  then show "finite B \<Longrightarrow> ?thesis" by (simp add: setBarrierMask_def)
qed

lemma collect_inner:
  assumes "t - st < length M" "t \<notin> set cs" "st \<le> t" 
  shows "foldE (\<lambda>c M. guardE (inRange st en c) e (Inr (M[t - st := M ! (t - st) \<union> M ! (c - st)]))) cs M =
    (if \<forall>c \<in> set cs. inRange st en c
     then Inr (M[t - st := M ! (t - st) \<union> (\<Union>c \<in> set cs. M ! (c - st))]) else Inl e)"
  using assms
proof (induction cs arbitrary: M)
  case Nil
  then show ?case by simp
next
  case (Cons c cs)
  show ?case
  proof (cases "inRange st en c")
    case True
    then have ne: "c - st \<noteq> t - st" using Cons.prems by (auto simp: inRange_def)
    let ?M = "M[t - st := M ! (t - st) \<union> M ! (c - st)]"
    have "?M ! (c' - st) = M ! (c' - st)" if "c' \<in> set cs" "inRange st en c'" for c'
      using that Cons.prems by (intro mask_other[of st t en c']) auto
    then have "(\<Union>c \<in> set cs. ?M ! (c - st)) = (\<Union>c \<in> set cs. M ! (c - st))"
      if "\<forall>c \<in> set cs. inRange st en c" using that by auto
    with Cons.IH[of ?M] True Cons.prems show ?thesis by (auto simp: Un_assoc)
  next
    case False
    then show ?thesis by simp
  qed
qed

lemma collect_outer:
  assumes "t - st < length M" "\<And>b. b \<in> set bs \<Longrightarrow> finite (w ! b) \<and> t \<notin> w ! b" "st \<le> t"
  shows "foldE (\<lambda>b. foldE (\<lambda>c M. guardE (inRange st en c) e
             (Inr (M[t - st := M ! (t - st) \<union> M ! (c - st)]))) (elems (w ! b))) bs M =
    (if \<forall>b \<in> set bs. \<forall>c \<in> w ! b. inRange st en c
     then Inr (M[t - st := M ! (t - st) \<union> (\<Union>b \<in> set bs. \<Union>c \<in> w ! b. M ! (c - st))]) else Inl e)"
  using assms
proof (induction bs arbitrary: M)
  case Nil
  then show ?case by simp
next
  case (Cons b bs)
  have b: "finite (w ! b)" "t \<notin> w ! b" using Cons.prems by auto
  let ?M = "M[t - st := M ! (t - st) \<union> (\<Union>c \<in> w ! b. M ! (c - st))]"
  have inner: "foldE (\<lambda>c M. guardE (inRange st en c) e (Inr (M[t - st := M ! (t - st) \<union> M ! (c - st)])))
      (elems (w ! b)) M = (if \<forall>c \<in> w ! b. inRange st en c then Inr ?M else Inl e)"
    using collect_inner[of t st M "elems (w ! b)" en e] Cons.prems b by simp
  have "?M ! (c - st) = M ! (c - st)" if "b' \<in> set bs" "c \<in> w ! b'" "inRange st en c" for b' c
    using that Cons.prems by (intro mask_other[of st t en c]) auto
  then have "(\<Union>b \<in> set bs. \<Union>c \<in> w ! b. ?M ! (c - st)) = (\<Union>b \<in> set bs. \<Union>c \<in> w ! b. M ! (c - st))"
    if "\<forall>b \<in> set bs. \<forall>c \<in> w ! b. inRange st en c" using that by auto
  with Cons.IH[of ?M] Cons.prems show ?case by (auto simp: inner Un_assoc)
qed

lemma clear_inner:
  assumes "t - st < length M" "t \<notin> set cs" "st \<le> t" 
  shows "fold (\<lambda>c M. if inRange st en c then M[t - st := M ! (t - st) - M ! (c - st)] else M) cs M =
    M[t - st := M ! (t - st) - (\<Union>c \<in> {c \<in> set cs. inRange st en c}. M ! (c - st))]"
  using assms
proof (induction cs arbitrary: M)
  case Nil
  then show ?case by simp
next
  case (Cons c cs)
  show ?case
  proof (cases "inRange st en c")
    case True
    let ?M = "M[t - st := M ! (t - st) - M ! (c - st)]"
    have "?M ! (c' - st) = M ! (c' - st)" if "c' \<in> set cs" "inRange st en c'" for c'
      using that Cons.prems by (intro mask_other[of st t en c']) auto
    then have "(\<Union>c \<in> {c \<in> set cs. inRange st en c}. ?M ! (c - st)) =
        (\<Union>c \<in> {c \<in> set cs. inRange st en c}. M ! (c - st))" by auto
    moreover have "{c' \<in> set (c # cs). inRange st en c'} = insert c {c \<in> set cs. inRange st en c}"
      using True by auto
    ultimately show ?thesis
      using Cons.IH[of ?M] True Cons.prems by (simp add: Diff_Diff_Int Diff_eq Int_assoc)
  next
    case False
    then have "{c' \<in> set (c # cs). inRange st en c'} = {c \<in> set cs. inRange st en c}" by auto
    with False Cons show ?thesis by simp
  qed
qed

lemma clear_outer:
  assumes "t - st < length M" "\<And>b. b \<in> set bs \<Longrightarrow> finite (w ! b) \<and> t \<notin> w ! b" "st \<le> t"
  shows "fold (\<lambda>b. fold (\<lambda>c M. if inRange st en c then M[t - st := M ! (t - st) - M ! (c - st)] else M)
             (elems (w ! b))) bs M =
    M[t - st := M ! (t - st) - (\<Union>c \<in> {c \<in> \<Union>b \<in> set bs. w ! b. inRange st en c}. M ! (c - st))]"
  using assms
proof (induction bs arbitrary: M)
  case Nil
  then show ?case by simp
next
  case (Cons b bs)
  have b: "finite (w ! b)" "t \<notin> w ! b" using Cons.prems by auto
  let ?M = "M[t - st := M ! (t - st) - (\<Union>c \<in> {c \<in> w ! b. inRange st en c}. M ! (c - st))]"
  have inner: "fold (\<lambda>c M. if inRange st en c then M[t - st := M ! (t - st) - M ! (c - st)] else M)
      (elems (w ! b)) M = ?M"
    using clear_inner[of t st M "elems (w ! b)" en] Cons.prems b by simp
  have "?M ! (c - st) = M ! (c - st)" if "b' \<in> set bs" "c \<in> w ! b'" "inRange st en c" for b' c
    using that Cons.prems by (intro mask_other[of st t en c]) auto
  then have "(\<Union>c \<in> {c \<in> \<Union>b \<in> set bs. w ! b. inRange st en c}. ?M ! (c - st)) =
      (\<Union>c \<in> {c \<in> \<Union>b \<in> set bs. w ! b. inRange st en c}. M ! (c - st))" by auto
  moreover have "{c \<in> \<Union>b \<in> set (b # bs). w ! b. inRange st en c} =
      {c \<in> w ! b. inRange st en c} \<union> {c \<in> \<Union>b \<in> set bs. w ! b. inRange st en c}" by auto
  ultimately show ?case
    using Cons.IH[of ?M] Cons.prems by (simp add: inner UN_Un Diff_eq Int_assoc)
qed

text \<open>The neighbours of a task, as the loops see them.\<close>

definition nbrs :: "nat set list \<Rightarrow> nat set list \<Rightarrow> nat \<Rightarrow> nat set" where
  "nbrs v w t = (\<Union>b \<in> v ! t. w ! b)"

definition stepOk :: "nat set list \<Rightarrow> nat set list \<Rightarrow> nat \<Rightarrow> bool" where
  "stepOk v w t \<longleftrightarrow> finite (v ! t) \<and> (\<forall>b \<in> v ! t. finite (w ! b)) \<and> t \<notin> nbrs v w t"

lemma collectMask_eq:
  assumes "t - st < length M" "st \<le> t" "stepOk v w t"
  shows "collectMask skip err v w st en off t M =
    (if skip t then Inr (M[t - st := M ! (t - st) \<union> (\<lambda>b. subSize b off) ` (v ! t)])
     else if \<forall>c \<in> nbrs v w t. inRange st en c
     then Inr (M[t - st := M ! (t - st) \<union> (\<lambda>b. subSize b off) ` (v ! t) \<union> (\<Union>c \<in> nbrs v w t. M ! (c - st))])
     else Inl (err t))"
proof -
  let ?M = "M[t - st := setBarrierMask (M ! (t - st)) (v ! t) off]"
  have "?M ! (c - st) = M ! (c - st)" if "c \<in> nbrs v w t" "inRange st en c" for c
    using that assms by (intro mask_other[of st t en c]) (auto simp: stepOk_def)
  then have "(\<Union>b \<in> v ! t. \<Union>c \<in> w ! b. ?M ! (c - st)) = (\<Union>c \<in> nbrs v w t. M ! (c - st))"
    if "\<forall>c \<in> nbrs v w t. inRange st en c" using that by (auto simp: nbrs_def)
  moreover have "(\<forall>b \<in> v ! t. \<forall>c \<in> w ! b. inRange st en c) \<longleftrightarrow> (\<forall>c \<in> nbrs v w t. inRange st en c)"
    by (auto simp: nbrs_def)
  moreover have "collectMask skip err v w st en off t M = (if skip t then Inr ?M
      else if \<forall>b \<in> v ! t. \<forall>c \<in> w ! b. inRange st en c
      then Inr (?M[t - st := ?M ! (t - st) \<union> (\<Union>b \<in> v ! t. \<Union>c \<in> w ! b. ?M ! (c - st))]) else Inl (err t))"
    using assms collect_outer[of t st ?M "elems (v ! t)" w en "err t"]
    by (auto simp: collectMask_def Let_def stepOk_def nbrs_def)
  ultimately show ?thesis
    using assms by (simp add: setBarrierMask_eq stepOk_def)
qed

lemma clearMask_eq:
  assumes "t - st < length M" "st \<le> t" "stepOk v w t"
  shows "clearMask v w st en t M =
    M[t - st := M ! (t - st) - (\<Union>c \<in> {c \<in> nbrs v w t. inRange st en c}. M ! (c - st))]"
  using assms clear_outer[of t st M "elems (v ! t)" w en]
  by (auto simp: clearMask_def stepOk_def nbrs_def)

section \<open>The whole first walk\<close>

text \<open>
  When every task comes after its neighbours, the masks that come out satisfy the equations of
  a least closure, and none of the walk's checks failed.
\<close>

definition later :: "nat set list \<Rightarrow> nat set list \<Rightarrow> nat list \<Rightarrow> bool" where
  "later v w ts \<longleftrightarrow> sorted_wrt (\<lambda>t u. u \<notin> nbrs v w t) ts"

lemma collect_walk:
  assumes "distinct ts" "later v w ts"
    and "\<And>t. t \<in> set ts \<Longrightarrow> stepOk v w t \<and> st \<le> t \<and> t \<le> en" "length M = Suc en - st"
    and "\<And>t. t \<in> set ts \<Longrightarrow> M ! (t - st) = {}"
    and "foldE (collectMask skip err v w st en off) ts M = Inr M'"
  shows "length M' = length M \<and>
    (\<forall>t. st \<le> t \<longrightarrow> t \<notin> set ts \<longrightarrow> M' ! (t - st) = M ! (t - st)) \<and>
    (\<forall>t \<in> set ts. (skip t \<or> (\<forall>c \<in> nbrs v w t. inRange st en c)) \<and>
       M' ! (t - st) = (\<lambda>b. subSize b off) ` (v ! t) \<union>
         (if skip t then {} else \<Union>c \<in> nbrs v w t. M' ! (c - st)))"
  using assms
proof (induction ts arbitrary: M)
  case Nil
  then show ?case by simp
next
  case (Cons t ts)
  from Cons.prems(3)[of t] Cons.prems(4) have t: "stepOk v w t" "st \<le> t" "t \<le> en" "t - st < length M"
    by auto
  note step = collectMask_eq[OF t(4,2,1), of skip err en off]
  from Cons.prems(6) obtain M1 where M1: "collectMask skip err v w st en off t M = Inr M1"
    and rest: "foldE (collectMask skip err v w st en off) ts M1 = Inr M'"
    by (auto simp: bindE_Inr)
  have ok: "skip t \<or> (\<forall>c \<in> nbrs v w t. inRange st en c)"
    using M1 by (auto simp: step split: if_splits)
  have M1_eq: "M1 = M[t - st := (\<lambda>b. subSize b off) ` (v ! t) \<union>
      (if skip t then {} else \<Union>c \<in> nbrs v w t. M ! (c - st))]"
    using M1 ok Cons.prems(5)[of t] by (auto simp: step split: if_splits)
  have other: "M1 ! (u - st) = M ! (u - st)" if "st \<le> u" "u \<noteq> t" for u
    unfolding M1_eq using that t(2) by (intro nth_list_update_neq) auto
  have later: "later v w ts" and tsep: "\<forall>u \<in> set ts. u \<notin> nbrs v w t"
    using Cons.prems(2) by (auto simp: later_def)
  have "M1 ! (u - st) = {}" if "u \<in> set ts" for u
    using that other[of u] Cons.prems(1) Cons.prems(3,5)[of u] by auto
  moreover have "length M1 = Suc en - st" using Cons.prems(4) by (simp add: M1_eq)
  ultimately have "length M' = length M1 \<and>
    (\<forall>u. st \<le> u \<longrightarrow> u \<notin> set ts \<longrightarrow> M' ! (u - st) = M1 ! (u - st)) \<and>
    (\<forall>u \<in> set ts. (skip u \<or> (\<forall>c \<in> nbrs v w u. inRange st en c)) \<and>
       M' ! (u - st) = (\<lambda>b. subSize b off) ` (v ! u) \<union>
         (if skip u then {} else \<Union>c \<in> nbrs v w u. M' ! (c - st)))"
    using Cons.prems(1,3) by (intro Cons.IH[OF _ later _ _ _ rest]) auto
  then have IH: "length M' = length M1"
    "\<And>u. st \<le> u \<Longrightarrow> u \<notin> set ts \<Longrightarrow> M' ! (u - st) = M1 ! (u - st)"
    "\<forall>u \<in> set ts. (skip u \<or> (\<forall>c \<in> nbrs v w u. inRange st en c)) \<and>
       M' ! (u - st) = (\<lambda>b. subSize b off) ` (v ! u) \<union>
         (if skip u then {} else \<Union>c \<in> nbrs v w u. M' ! (c - st))"
    by blast+
  have "M' ! (c - st) = M ! (c - st)" if "\<not> skip t" "c \<in> nbrs v w t" for c
  proof -
    have "c \<noteq> t" using that t(1) by (auto simp: stepOk_def)
    moreover have "st \<le> c" using ok that by (auto simp: inRange_def)
    ultimately show ?thesis using IH(2)[of c] other[of c] tsep that by auto
  qed
  moreover have "M' ! (t - st) = M1 ! (t - st)" using IH(2)[of t] t(2) Cons.prems(1) by simp
  ultimately have "M' ! (t - st) = (\<lambda>b. subSize b off) ` (v ! t) \<union>
      (if skip t then {} else \<Union>c \<in> nbrs v w t. M' ! (c - st))"
    using t(4) by (auto simp: M1_eq)
  moreover have "length M' = length M" using IH(1) by (simp add: M1_eq)
  moreover have "M' ! (u - st) = M ! (u - st)" if "st \<le> u" "u \<notin> set (t # ts)" for u
    using that IH(2)[of u] other[of u] by simp
  ultimately show ?case using IH(3) ok by simp
qed

end
