(* ===== verification/Barrier_Reduce.thy ===== *)
theory Barrier_Reduce
  imports Barrier_Masks
begin

text \<open>
  The second walk, and the two walks together. Update barriers against consumers and wait
  barriers against producers are two instances of one contract (\<open>link_side\<close>): a map from
  tasks to barriers that one operation overwrites per task, and a map from barriers to tasks
  that this operation leaves alone. The effect of both walks is proved once for the contract.
\<close>

section \<open>The second walk\<close>

definition reduceTask ::
  "(barrier_info \<Rightarrow> nat set list) \<Rightarrow> (barrier_info \<Rightarrow> nat set list) \<Rightarrow> (nat \<Rightarrow> nat set \<Rightarrow> barrier_info \<Rightarrow> barrier_info)
    \<Rightarrow> nat \<Rightarrow> nat \<Rightarrow> nat \<Rightarrow> nat \<Rightarrow> barrier_info \<times> nat set list \<Rightarrow> barrier_info \<times> nat set list" where
  "reduceTask v w setv st en offset t = (\<lambda>(s, M).
     (let M1 = clearMask (v s) (w s) st en t M
      in (setv t ((\<lambda>bar. bar + offset) ` (M1 ! (t - st))) s, M1)))"

definition reduceBlock ::
  "(barrier_info \<Rightarrow> nat set list) \<Rightarrow> (barrier_info \<Rightarrow> nat set list) \<Rightarrow> (nat \<Rightarrow> nat set \<Rightarrow> barrier_info \<Rightarrow> barrier_info)
    \<Rightarrow> (nat \<Rightarrow> bool) \<Rightarrow> (nat \<Rightarrow> barrier_error) \<Rightarrow> nat list \<Rightarrow> nat list \<Rightarrow> nat \<Rightarrow> nat \<Rightarrow> nat
    \<Rightarrow> barrier_info \<Rightarrow> barrier_error + barrier_info" where
  "reduceBlock v w setv skip err collectOrder reduceOrder st en offset s =
     bindE (foldE (collectMask skip err (v s) (w s) st en offset) collectOrder (replicate (en - st + 1) {}))
       (\<lambda>M. Inr (fst (fold (reduceTask v w setv st en offset) reduceOrder (s, M))))"

lemma reduceTask_apply:
  "reduceTask v w setv st en offset t (s, M) =
     (setv t ((\<lambda>bar. bar + offset) ` (clearMask (v s) (w s) st en t M ! (t - st))) s,
      clearMask (v s) (w s) st en t M)"
  by (simp add: reduceTask_def Let_def)

section \<open>The contract of one side of the links\<close>

locale link_side =
  fixes v w :: "barrier_info \<Rightarrow> nat set list"
    and setv :: "nat \<Rightarrow> nat set \<Rightarrow> barrier_info \<Rightarrow> barrier_info"
  assumes len_v: "bi_wf s \<Longrightarrow> length (v s) = length (allTaskOps s)"
    and len_w: "bi_wf s \<Longrightarrow> length (w s) = length (allBarrierOps s)"
    and bound_v: "bi_wf s \<Longrightarrow> entry (v s) t \<subseteq> {..<length (allBarrierOps s)}"
    and bound_w: "bi_wf s \<Longrightarrow> entry (w s) b \<subseteq> {..<length (allTaskOps s)}"
    and setv: "bi_wf s \<Longrightarrow> validTask s t \<Longrightarrow> bs \<subseteq> {..<length (allBarrierOps s)} \<Longrightarrow>
        bi_wf (setv t bs s) \<and> bi_same s (setv t bs s) \<and> w (setv t bs s) = w s \<and>
        (\<forall>u. entry (v (setv t bs s)) u = (if u = t then bs else entry (v s) u))"
begin

lemma nbrs_kids:
  assumes "bi_wf s" "validTask s t"
  shows "nbrs (v s) (w s) t = dep_kids (entry (v s)) (entry (w s)) t"
proof -
  have "b < length (w s)" if "b \<in> entry (v s) t" for b
    using that bound_v[OF assms(1), of t] len_w[OF assms(1)] by auto
  then show ?thesis
    using assms len_v[OF assms(1)] by (auto simp: nbrs_def dep_kids_def validTask_def)
qed

lemma stepOkI:
  assumes "bi_wf s" "validTask s t" "t \<notin> dep_kids (entry (v s)) (entry (w s)) t"
  shows "stepOk (v s) (w s) t"
proof -
  have e: "v s ! t = entry (v s) t" using assms(1,2) by (simp add: len_v validTask_def)
  have "finite (entry (v s) t)" using bound_v[OF assms(1)] by (rule finite_subset) simp
  moreover have "finite (w s ! b)" if "b \<in> entry (v s) t" for b
  proof -
    have "w s ! b = entry (w s) b" using that bound_v[OF assms(1), of t] len_w[OF assms(1)] by auto
    also have "finite \<dots>" using bound_w[OF assms(1)] by (rule finite_subset) simp
    finally show ?thesis .
  qed
  ultimately show ?thesis
    using assms by (simp add: stepOk_def e nbrs_kids)
qed

text \<open>
  The second walk visits the tasks so that no task is reduced before one that has it as a
  neighbour: every task still sees the masks of the first walk.
\<close>

lemma reduce_walk:
  assumes "distinct ts" "sorted_wrt (\<lambda>t u. t \<notin> dep_kids (entry (v s)) (entry (w s)) u) ts"
    and "bi_wf s" "length M = Suc en - st"
    and "\<And>t. t \<in> set ts \<Longrightarrow> validTask s t \<and> t \<notin> dep_kids (entry (v s)) (entry (w s)) t \<and>
      st \<le> t \<and> t \<le> en \<and> (\<lambda>bar. bar + off) ` (M ! (t - st)) \<subseteq> {..<length (allBarrierOps s)}"
    and "fold (reduceTask v w setv st en off) ts (s, M) = (s', M')"
  shows "bi_wf s' \<and> bi_same s s' \<and> w s' = w s \<and>
    (\<forall>t. entry (v s') t =
      (if t \<in> set ts
       then (\<lambda>bar. bar + off) ` (M ! (t - st) -
         (\<Union>c \<in> {c \<in> dep_kids (entry (v s)) (entry (w s)) t. inRange st en c}. M ! (c - st)))
       else entry (v s) t))"
  using assms
proof (induction ts arbitrary: s M)
  case Nil
  then show ?case by simp
next
  case (Cons t ts)
  let ?kids = "dep_kids (entry (v s)) (entry (w s))"
  let ?new = "\<lambda>u. M ! (u - st) - (\<Union>c \<in> {c \<in> ?kids u. inRange st en c}. M ! (c - st))"
  from Cons.prems(5)[of t] Cons.prems(4) have t: "validTask s t" "t \<notin> ?kids t" "st \<le> t" "t \<le> en"
    "t - st < length M" "(\<lambda>bar. bar + off) ` (M ! (t - st)) \<subseteq> {..<length (allBarrierOps s)}" by auto
  define bs where "bs = (\<lambda>bar. bar + off) ` ?new t"
  define s1 where "s1 = setv t bs s"
  define M1 where "M1 = M[t - st := ?new t]"
  have "clearMask (v s) (w s) st en t M = M1"
    unfolding M1_def using clearMask_eq[OF t(5,3) stepOkI[OF Cons.prems(3) t(1,2)]] nbrs_kids[OF Cons.prems(3) t(1)] by simp
  then have rest: "fold (reduceTask v w setv st en off) ts (s1, M1) = (s', M')"
    using Cons.prems(6) t(5) by (simp add: reduceTask_apply s1_def bs_def) (simp add: M1_def)
  have bs: "bs \<subseteq> {..<length (allBarrierOps s)}" using t(6) by (auto simp: bs_def)
  from setv[OF Cons.prems(3) t(1) bs] have set_t: "bi_wf s1" "bi_same s s1" "w s1 = w s"
    "\<And>u. entry (v s1) u = (if u = t then bs else entry (v s) u)" by (auto simp: s1_def)
  have kids: "dep_kids (entry (v s1)) (entry (w s1)) u = ?kids u" if "u \<in> set ts" for u
    using that Cons.prems(1) by (auto simp: dep_kids_def set_t(3,4))
  have sep: "t \<notin> ?kids u" if "u \<in> set ts" for u using that Cons.prems(2) by simp
  have M_u: "M1 ! (u - st) = M ! (u - st)" if "u \<in> set ts" for u
    using that Cons.prems(1) Cons.prems(5)[of u] t(3) unfolding M1_def by (intro mask_other[of st t en]) (auto simp: inRange_def)
  have M_c: "M1 ! (c - st) = M ! (c - st)" if "u \<in> set ts" "c \<in> ?kids u" "inRange st en c" for u c
    using that sep t(3) unfolding M1_def by (intro mask_other[of st t en]) auto
  have sorted: "sorted_wrt (\<lambda>t u. t \<notin> dep_kids (entry (v s1)) (entry (w s1)) u) ts"
    using Cons.prems(2) kids by (auto elim!: sorted_wrt_mono_rel[rotated])
  have ok: "validTask s1 u \<and> u \<notin> dep_kids (entry (v s1)) (entry (w s1)) u \<and> st \<le> u \<and> u \<le> en \<and>
      (\<lambda>bar. bar + off) ` (M1 ! (u - st)) \<subseteq> {..<length (allBarrierOps s1)}" if "u \<in> set ts" for u
    using that Cons.prems(5)[of u] kids[of u] M_u[of u] set_t(2)
    by (auto simp: bi_same_valid[OF set_t(2)] bi_same_def)
  from Cons.IH[OF _ sorted set_t(1) _ ok rest] Cons.prems(1,4)
  have IH: "bi_wf s'" "bi_same s1 s'" "w s' = w s1"
    "\<And>u. entry (v s') u = (if u \<in> set ts
       then (\<lambda>bar. bar + off) ` (M1 ! (u - st) -
         (\<Union>c \<in> {c \<in> dep_kids (entry (v s1)) (entry (w s1)) u. inRange st en c}. M1 ! (c - st)))
       else entry (v s1) u)" by (auto simp: M1_def)
  have "entry (v s') u = (if u \<in> set (t # ts) then (\<lambda>bar. bar + off) ` ?new u else entry (v s) u)" for u
  proof (cases "u \<in> set ts")
    case True
    have "(\<Union>c \<in> {c \<in> ?kids u. inRange st en c}. M1 ! (c - st)) = (\<Union>c \<in> {c \<in> ?kids u. inRange st en c}. M ! (c - st))"
      using M_c[OF True] by auto
    with True show ?thesis unfolding IH(4) by (simp add: kids M_u)
  next
    case False
    then show ?thesis by (simp add: IH(4) set_t(4) bs_def)
  qed
  with IH(1-3) set_t(2,3) show ?case using bi_same_trans by auto
qed

section \<open>Both walks\<close>

text \<open>
  With the tasks of \<open>[st, en]\<close> visited once in each walk, every task after its neighbours
  in the first and before them in the second, what one side's neighbours contribute is dropped
  and the ordering of the tasks is the same.
\<close>

lemma reduceBlock_correct:
  assumes w: "bi_wf s" and en: "en < length (allTaskOps s)" "st \<le> en"
    and rank: "\<And>t c. c \<in> dep_kids (entry (v s)) (entry (w s)) t \<Longrightarrow> rank c < (rank t :: nat)"
    and co: "distinct collectOrder" "set collectOrder = {st..en}"
      "sorted_wrt (\<lambda>t u. u \<notin> dep_kids (entry (v s)) (entry (w s)) t) collectOrder"
    and ro: "distinct reduceOrder" "set reduceOrder = {st..en}"
      "sorted_wrt (\<lambda>t u. t \<notin> dep_kids (entry (v s)) (entry (w s)) u) reduceOrder"
    and off: "\<And>t b. t \<in> {st..en} \<Longrightarrow> b \<in> entry (v s) t \<Longrightarrow> off \<le> b"
    and skip: "\<And>t c. t \<in> {st..en} \<Longrightarrow> skip t \<Longrightarrow> c \<in> dep_kids (entry (v s)) (entry (w s)) t \<Longrightarrow> \<not> inRange st en c"
    and run: "reduceBlock v w setv skip err collectOrder reduceOrder st en off s = Inr s'"
  obtains U where
    "dep_reduction {t \<in> {st..en}. \<not> skip t} (entry (v s)) (entry (w s)) U U rank"
    "\<And>t. entry (v s') t = reduced {t \<in> {st..en}. \<not> skip t} (entry (v s)) (entry (w s)) U t"
    "bi_wf s'" "bi_same s s'" "w s' = w s"
proof -
  let ?kids = "dep_kids (entry (v s)) (entry (w s))"
  let ?R = "{t \<in> {st..en}. \<not> skip t}"
  from run obtain M where col: "foldE (collectMask skip err (v s) (w s) st en off) collectOrder
      (replicate (en - st + 1) {}) = Inr M"
    and s': "s' = fst (fold (reduceTask v w setv st en off) reduceOrder (s, M))"
    by (auto simp: reduceBlock_def bindE_Inr)
  have valid: "validTask s t" if "t \<in> {st..en}" for t using that en by (simp add: validTask_def)
  have irr: "t \<notin> ?kids t" for t using rank by blast
  have nb: "nbrs (v s) (w s) t = ?kids t" if "t \<in> {st..en}" for t by (rule nbrs_kids[OF w valid[OF that]])
  have lat: "later (v s) (w s) collectOrder"
    unfolding later_def by (rule sorted_wrt_mono_rel[OF _ co(3)]) (use co(2) nb in auto)
  have m0: "length (replicate (en - st + 1) {}) = Suc en - st"
    "t \<in> set collectOrder \<Longrightarrow> replicate (en - st + 1) {} ! (t - st) = {}" for t
    using co(2) en by (auto simp: Suc_diff_le nth_replicate simp del: replicate_Suc)
  have lenM: "length M = Suc en - st"
    and M: "\<And>t. t \<in> {st..en} \<Longrightarrow> (skip t \<or> (\<forall>c \<in> ?kids t. inRange st en c)) \<and>
       M ! (t - st) = (\<lambda>b. subSize b off) ` (v s ! t) \<union> (if skip t then {} else \<Union>c \<in> ?kids t. M ! (c - st))"
    using collect_walk[OF co(1) lat _ m0 col] stepOkI[OF w valid irr] nb co(2) m0(1) by simp_all
  have v_nth: "v s ! t = entry (v s) t" if "t \<in> {st..en}" for t
    using that en by (simp add: len_v[OF w])
  define U where "U t = (if t \<in> {st..en} then (\<lambda>bar. bar + off) ` (M ! (t - st)) else entry (v s) t)" for t
  have lift: "(\<lambda>bar. bar + off) ` (\<lambda>b. subSize b off) ` entry (v s) t = entry (v s) t" if "t \<in> {st..en}" for t
    using off[OF that] by (force simp: image_iff)
  have inr: "c \<in> {st..en}" if "t \<in> ?R" "c \<in> ?kids t" for t c
    using M[of t] that by (auto simp: inRange_def)
  have Ueq: "U t = entry (v s) t \<union> (\<Union>c \<in> ?kids t. U c)" if "t \<in> ?R" for t
  proof -
    have "U t = (\<lambda>bar. bar + off) ` (\<lambda>b. subSize b off) ` entry (v s) t \<union>
        (\<Union>c \<in> ?kids t. (\<lambda>bar. bar + off) ` (M ! (c - st)))"
      using that M[of t] by (simp add: U_def v_nth image_Un image_UN)
    also have "\<dots> = entry (v s) t \<union> (\<Union>c \<in> ?kids t. U c)"
      using lift[of t] that inr[OF that] by (auto simp: U_def)
    finally show ?thesis .
  qed
  have Uout: "U t = entry (v s) t" if "t \<notin> ?R" for t
    using that M[of t] lift[of t] by (cases "t \<in> {st..en}") (auto simp: U_def v_nth)
  have red: "dep_reduction ?R (entry (v s)) (entry (w s)) U U rank"
    by unfold_locales (use rank Ueq Uout in auto)
  have Usub: "U t \<subseteq> {..<length (allBarrierOps s)}" for t
  proof (induction "rank t" arbitrary: t rule: less_induct)
    case less
    show ?case
      using bound_v[OF w, of t] less.hyps[OF rank] Ueq[of t] Uout[of t] by (cases "t \<in> ?R") blast+
  qed
  have pre: "validTask s t \<and> t \<notin> ?kids t \<and> st \<le> t \<and> t \<le> en \<and>
      (\<lambda>bar. bar + off) ` (M ! (t - st)) \<subseteq> {..<length (allBarrierOps s)}" if "t \<in> set reduceOrder" for t
    using that ro(2) valid irr Usub[of t] by (auto simp: U_def)
  from reduce_walk[OF ro(1) ro(3) w lenM pre, of s' "snd (fold (reduceTask v w setv st en off) reduceOrder (s, M))"]
  have walk: "bi_wf s'" "bi_same s s'" "w s' = w s"
    "\<And>t. entry (v s') t = (if t \<in> {st..en}
       then (\<lambda>bar. bar + off) ` (M ! (t - st) - (\<Union>c \<in> {c \<in> ?kids t. inRange st en c}. M ! (c - st)))
       else entry (v s) t)"
    using ro(2) by (auto simp: s')
  have "entry (v s') t = reduced ?R (entry (v s)) (entry (w s)) U t" for t
  proof (cases "t \<in> {st..en}")
    case False
    then show ?thesis unfolding walk(4) by (auto simp: reduced_def)
  next
    case True
    let ?K = "{c \<in> ?kids t. inRange st en c}"
    have "(\<lambda>bar. bar + off) ` (M ! (t - st) - (\<Union>c \<in> ?K. M ! (c - st))) = U t - (\<Union>c \<in> ?K. U c)"
      using True by (subst image_set_diff) (auto simp: U_def inRange_def inj_on_def)
    then have eq: "entry (v s') t = U t - (\<Union>c \<in> ?K. U c)" using True walk(4)[of t] by simp
    show ?thesis
    proof (cases "skip t")
      case True
      with skip[OF \<open>t \<in> {st..en}\<close>] have "?K = {}" by auto
      with eq True show ?thesis by (simp add: reduced_def Uout)
    next
      case False
      then have R: "t \<in> ?R" using True by simp
      then have "?K = ?kids t" using inr[OF R] by (auto simp: inRange_def)
      with eq R Ueq[OF R] show ?thesis by (auto simp: reduced_def)
    qed
  qed
  with red walk(1-3) that show ?thesis by blast
qed

end

interpretation update_side: link_side taskUpdateBarriers barrierConsumerMap setUpdateBarriers
  by unfold_locales
    (simp_all add: bi_wf_lengths bi_wf_bounds setUpdateBarriers_spec)

interpretation wait_side: link_side taskWaitBarriers barrierProducerMap setWaitBarriers
  by unfold_locales
    (simp_all add: bi_wf_lengths bi_wf_bounds setWaitBarriers_spec)

end
