(* ===== verification/Barrier_Optimize.thy ===== *)
theory Barrier_Optimize
  imports Barrier_Reduce
begin

text \<open>
  \<open>BarrierInfo::optimizeBarriers\<close>: per block, drop redundant update barriers, merge
  barriers with the same producers, drop redundant wait barriers. None of the three changes
  the order the barriers impose on the tasks.
\<close>

section \<open>The passes\<close>

definition optimizeBarrierProducers :: "nat \<Rightarrow> barrier_info \<Rightarrow> barrier_error + barrier_info" where
  "optimizeBarrierProducers blk s =
     bindE (getControlGraphBlockTaskRange s blk True True) (\<lambda>(blockStart, blockEnd0).
     bindE (getBarriersForTaskBlock s blk True True True) (\<lambda>barriersRange.
       if barriersRange = [] then Inr s
       else
         (let barrierOffset = hd barriersRange;
              blockEnd = min blockEnd0 (subSize (length (allTaskOps s)) 1)
          in guardE (blockStart \<le> blockEnd) EmptyTaskRange
               (reduceBlock taskUpdateBarriers barrierConsumerMap setUpdateBarriers
                  (\<lambda>t. t = blockEnd \<and> isSyncPoint s t) ConsumerOutOfRange
                  (downto_list blockStart blockEnd) (upto_list blockStart blockEnd)
                  blockStart blockEnd barrierOffset s))))"

definition optimizeBarrierConsumers :: "nat \<Rightarrow> barrier_info \<Rightarrow> barrier_error + barrier_info" where
  "optimizeBarrierConsumers blk s =
     bindE (getControlGraphBlockTaskRange s blk True True) (\<lambda>(blockStart, blockEnd0).
     bindE (getBarriersForTaskBlock s blk True True False) (\<lambda>barriersRange.
       if barriersRange = [] then Inr s
       else
         (let barrierOffset = hd barriersRange;
              blockEnd = min blockEnd0 (subSize (length (allTaskOps s)) 1)
          in guardE (blockStart \<le> blockEnd) EmptyTaskRange
               (reduceBlock taskWaitBarriers barrierProducerMap setWaitBarriers
                  (\<lambda>t. t = blockStart \<and> isSyncPoint s t) ProducerOutOfRange
                  (upto_list blockStart blockEnd) (downto_list blockStart blockEnd)
                  blockStart blockEnd barrierOffset s))))"

text \<open>
  The producers of every barrier of the block are copied to a vector first (in the iteration
  order of the set), and two barriers are merged when these vectors are equal.
\<close>

definition legalMergeSlotCount ::
  "bool \<Rightarrow> nat \<Rightarrow> barrier_info \<Rightarrow> nat \<Rightarrow> nat \<Rightarrow> barrier_error + bool" where
  "legalMergeSlotCount checkValidSlotCount maxVariantCount s bar1 bar2 =
     (if \<not> checkValidSlotCount then Inr True
      else bindE (sumSlots s (elems (barrierProducerMap s ! bar1))) (\<lambda>p.
           bindE (sumSlots s (elems (barrierConsumerMap s ! bar1 \<union> barrierConsumerMap s ! bar2))) (\<lambda>c.
             Inr (p + c \<le> maxVariantCount))))"

definition mergePair ::
  "bool \<Rightarrow> nat \<Rightarrow> nat list \<Rightarrow> nat \<Rightarrow> nat \<Rightarrow> barrier_info \<times> nat list list
    \<Rightarrow> barrier_error + barrier_info \<times> nat list list" where
  "mergePair checkValidSlotCount maxVariantCount bars ind1 ind2 = (\<lambda>(s, prods).
     (let barInd = bars ! ind1; childBarInd = bars ! ind2
      in if prods ! ind1 = prods ! ind2 then
           bindE (legalMergeSlotCount checkValidSlotCount maxVariantCount s barInd childBarInd) (\<lambda>ok.
             if ok then
               (let s1 = fold (addConsumer barInd) (elems (barrierConsumerMap s ! childBarInd)) s
                in bindE (bindE (getBarrierOpAtIndex s1 barInd) (\<lambda>_. getConsumerSlotCount s1 barInd)) (\<lambda>_.
                     Inr (resetBarrier childBarInd s1, prods[ind2 := []])))
             else Inr (s, prods))
         else Inr (s, prods)))"

definition optimizeBarriersWithSameProducers ::
  "(nat set \<Rightarrow> nat list) \<Rightarrow> nat \<Rightarrow> bool \<Rightarrow> nat \<Rightarrow> barrier_info \<Rightarrow> barrier_error + barrier_info" where
  "optimizeBarriersWithSameProducers iter maxVariantCount checkValidSlotCount blk s =
     bindE (getBarriersForTaskBlock s blk True False True) (\<lambda>bars.
       if bars = [] then Inr s
       else guardE (hd bars \<le> subSize (length (allBarrierOps s)) 1) (InvalidBarrierIndex (hd bars))
         (guardE (last bars \<le> subSize (length (allBarrierOps s)) 1) (InvalidBarrierIndex (last bars))
           (bindE (foldE (\<lambda>ind1. foldE (mergePair checkValidSlotCount maxVariantCount bars ind1)
                              [ind1 + 1..<length bars])
                     [0..<length bars] (s, map (\<lambda>b. iter (barrierProducerMap s ! b)) bars))
              (\<lambda>(s', _). Inr s'))))"

definition optimizeBlock ::
  "(nat set \<Rightarrow> nat list) \<Rightarrow> nat \<Rightarrow> bool \<Rightarrow> nat \<Rightarrow> barrier_info \<Rightarrow> barrier_error + barrier_info" where
  "optimizeBlock iter maxVariantCount checkValidSlotCount blk s =
     bindE (getControlGraphBlockTaskRange s blk True True) (\<lambda>_.
     bindE (optimizeBarrierProducers blk s) (\<lambda>s1.
     bindE (optimizeBarriersWithSameProducers iter maxVariantCount checkValidSlotCount blk s1)
       (optimizeBarrierConsumers blk)))"

definition optimizeBarriers ::
  "(nat set \<Rightarrow> nat list) \<Rightarrow> nat \<Rightarrow> bool \<Rightarrow> barrier_info \<Rightarrow> barrier_error + barrier_info" where
  "optimizeBarriers iter maxVariantCount checkValidSlotCount s =
     foldE (optimizeBlock iter maxVariantCount checkValidSlotCount)
       [0..<getControlGraphBlockCount s] s"

section \<open>What a pass keeps\<close>

text \<open>
  \<open>keepsOrder s s'\<close>: the links still agree, the tasks are ordered as before and no
  field outside the links changed.
\<close>

definition keepsOrder :: "barrier_info \<Rightarrow> barrier_info \<Rightarrow> bool" where
  "keepsOrder s s' \<longleftrightarrow> bi_wf s' \<and> bi_same s s' \<and> (taskGraph s')\<^sup>+ = (taskGraph s)\<^sup>+"

lemma keepsOrder_refl [intro]: "bi_wf s \<Longrightarrow> keepsOrder s s"
  by (simp add: keepsOrder_def)

lemma keepsOrder_trans: "keepsOrder s s' \<Longrightarrow> keepsOrder s' s'' \<Longrightarrow> keepsOrder s s''"
  by (auto simp: keepsOrder_def intro: bi_same_trans)

lemma forward_trancl: "(t, c) \<in> (taskGraph s)\<^sup>+ \<Longrightarrow> forward s \<Longrightarrow> t < c"
  by (induction rule: trancl_induct) (fastforce simp: forward_def)+

lemma keepsOrder_forward: "keepsOrder s s' \<Longrightarrow> forward s \<Longrightarrow> forward s'"
  unfolding forward_def[of s'] keepsOrder_def by (metis case_prodI2 forward_trancl r_into_trancl)

text \<open>The graph seen from the wait barriers is the converse.\<close>

lemma waitGraph:
  assumes "bi_wf s"
  shows "dep_edges (waits s) (producers s) = (taskGraph s)\<inverse>"
  unfolding taskGraph_def using assms
  by (intro dep_edges_converse) (simp_all add: bi_wf_producers bi_wf_consumers)

lemma sorted_wrt_downto:
  "(\<And>t u. u < t \<Longrightarrow> P t u) \<Longrightarrow> sorted_wrt P (downto_list a b)"
  unfolding downto_list_def sorted_wrt_rev by (auto simp: sorted_wrt_iff_nth_less simp del: upt_Suc)

lemma sorted_wrt_upto:
  "(\<And>t u. t < u \<Longrightarrow> P t u) \<Longrightarrow> sorted_wrt P (upto_list a b)"
  unfolding upto_list_def by (auto simp: sorted_wrt_iff_nth_less simp del: upt_Suc)

lemma distinct_walks [simp]: "distinct (upto_list a b)" "distinct (downto_list a b)"
  by (simp_all add: upto_list_def downto_list_def)

lemma elems_hd_le: "finite S \<Longrightarrow> x \<in> S \<Longrightarrow> hd (elems S) \<le> x"
  by (metis list.sel(1) list.set_cases set_sorted_list_of_set sorted_list_of_set.sorted_sorted_key_list_of_set sorted_simps(2) nle_le set_ConsD)

lemma block_offset:
  assumes w: "bi_wf s" and r: "getControlGraphBlockTaskRange s blk a b = Inr (st, en)"
    and bars: "getBarriersForTaskBlock s blk a b u = Inr bars"
    and t: "t \<in> {st..en}" "x \<in> (if u then updates s t else waits s t)"
  shows "hd bars \<le> x" "t < length (allTaskOps s)"
proof -
  from bars r have e: "bars = elems (\<Union>t \<in> {st..en}. (if u then updates s t else waits s t))"
    and l: "\<And>t. t \<in> {st..en} \<Longrightarrow> t < length (if u then taskUpdateBarriers s else taskWaitBarriers s)"
    by (auto elim!: getBarriersForTaskBlock_Inr)
  show "t < length (allTaskOps s)" using l[OF t(1)] bi_wf_lengths[OF w] by (cases u) auto
  show "hd bars \<le> x" unfolding e using t w by (intro elems_hd_le) (cases u; auto)+
qed

section \<open>Dropping redundant update barriers\<close>

text \<open>
  What the first pass returns: the update barriers of the block's tasks are those that no
  descendant updates, the rest is untouched.
\<close>

lemma block_empty:
  assumes w: "bi_wf s" and r: "getControlGraphBlockTaskRange s blk a b = Inr (st, en)"
    and bars: "getBarriersForTaskBlock s blk a b u = Inr []" and t: "t \<in> {st..en}"
  shows "(if u then updates s t else waits s t) = {}"
proof -
  have fin: "finite (\<Union>t \<in> {st..en}. (if u then updates s t else waits s t))" using w by (cases u) auto
  from bars r have "elems (\<Union>t \<in> {st..en}. (if u then updates s t else waits s t)) = []"
    by (auto elim!: getBarriersForTaskBlock_Inr)
  then have "(\<Union>t \<in> {st..en}. (if u then updates s t else waits s t)) = {}"
    using fin sorted_list_of_set_eq_Nil_iff by blast
  with t show ?thesis by blast
qed

lemma optimizeBarrierProducers_reduction:
  assumes w: "bi_wf s" and f: "forward s" and run: "optimizeBarrierProducers blk s = Inr s'"
  obtains st en where "s' = s" "getControlGraphBlockTaskRange s blk True True = Inr (st, en)"
    "\<And>t. t \<in> {st..en} \<Longrightarrow> updates s t = {}"
  | st en U where
    "getControlGraphBlockTaskRange s blk True True = Inr (st, en)"
    "dep_reduction {t \<in> {st..en}. \<not> (t = en \<and> isSyncPoint s t)} (updates s) (consumers s) U U
       (\<lambda>t. length (allTaskOps s) - t)"
    "\<And>t. updates s' t = reduced {t \<in> {st..en}. \<not> (t = en \<and> isSyncPoint s t)} (updates s) (consumers s) U t"
    "bi_wf s'" "bi_same s s'" "barrierConsumerMap s' = barrierConsumerMap s"
proof -
  from run[unfolded optimizeBarrierProducers_def Let_def] obtain st en0 bars where
    r: "getControlGraphBlockTaskRange s blk True True = Inr (st, en0)" and
    bars: "getBarriersForTaskBlock s blk True True True = Inr bars" and
    rest: "(if bars = [] then Inr s else
        guardE (st \<le> min en0 (subSize (length (allTaskOps s)) 1)) EmptyTaskRange
         (reduceBlock taskUpdateBarriers barrierConsumerMap setUpdateBarriers
           (\<lambda>t. t = min en0 (subSize (length (allTaskOps s)) 1) \<and> isSyncPoint s t) ConsumerOutOfRange
           (downto_list st (min en0 (subSize (length (allTaskOps s)) 1)))
           (upto_list st (min en0 (subSize (length (allTaskOps s)) 1)))
           st (min en0 (subSize (length (allTaskOps s)) 1)) (hd bars) s)) = Inr s'"
    by (auto simp: bindE_Inr)
  show ?thesis
  proof (cases "bars = []")
    case True
    then have "updates s t = {}" if "t \<in> {st..en0}" for t
      using block_empty[OF w r bars[unfolded True] that] by simp
    with True rest that(1) r show ?thesis by simp
  next
    case False
    from bars r have "\<And>t. t \<in> {st..en0} \<Longrightarrow> t < length (taskUpdateBarriers s)"
      by (auto elim!: getBarriersForTaskBlock_Inr)
    then have lt: "t < length (allTaskOps s)" if "t \<in> {st..en0}" for t
      using that bi_wf_lengths[OF w] by simp
    have "st \<le> en0" using False rest by (auto simp: guardE_Inr)
    with lt have en: "en0 < length (allTaskOps s)" "st \<le> en0" by auto
    then have "min en0 (subSize (length (allTaskOps s)) 1) = en0" by simp
    with rest False have red: "reduceBlock taskUpdateBarriers barrierConsumerMap setUpdateBarriers
           (\<lambda>t. t = en0 \<and> isSyncPoint s t) ConsumerOutOfRange (downto_list st en0) (upto_list st en0)
           st en0 (hd bars) s = Inr s'" by (auto simp: guardE_Inr)
    have edge: "t < c \<and> c < length (allTaskOps s)" if "c \<in> dep_kids (updates s) (consumers s) t" for t c
      using that f bi_wf_bounds(2)[OF w]
      by (fastforce simp: forward_def taskGraph_def dep_edges_iff dep_kids_def)
    show ?thesis
      by (rule update_side.reduceBlock_correct[where rank = "\<lambda>t. length (allTaskOps s) - t", OF w en _ _ _ _ _ _ _ _ _ red])
        (use edge block_offset(1)[OF w r bars] that(2)[OF r] in
          \<open>fastforce intro!: sorted_wrt_downto sorted_wrt_upto simp: inRange_def\<close>)+
  qed
qed


text \<open>The first pass keeps the order, and never adds an update barrier.\<close>

lemma producers_pass_keepsOrder:
  assumes w: "bi_wf s" and f: "forward s" and run: "optimizeBarrierProducers blk s = Inr s'"
  shows "keepsOrder s s'" "updates s' t \<subseteq> updates s t" "waits s' t = waits s t"
proof -
  have "keepsOrder s s' \<and> (\<forall>t. updates s' t \<subseteq> updates s t) \<and> (\<forall>t. waits s' t = waits s t)"
    using w f run
  proof (cases rule: optimizeBarrierProducers_reduction)
    case 1
    with w show ?thesis by auto
  next
    case (2 st en U)
    have "updates s' = reduced {t \<in> {st..en}. \<not> (t = en \<and> isSyncPoint s t)} (updates s) (consumers s) U"
      using 2(3) by auto
    with dep_reduction.reduction_preserves_order[OF 2(2)] 2(3-6)
    have "keepsOrder s s' \<and> (\<forall>t. updates s' t \<subseteq> updates s t)"
      by (auto simp: keepsOrder_def taskGraph_def reduced_def)
    moreover have "waits s' t = waits s t" for t
      using bi_wf_consumers[OF w, of t] bi_wf_consumers[OF 2(4), of t] 2(6) by auto
    ultimately show ?thesis by blast
  qed
  then show "keepsOrder s s'" "updates s' t \<subseteq> updates s t" "waits s' t = waits s t" by blast+
qed

text \<open>Without sync tasks the whole graph is one block.\<close>

lemma single_block_range:
  assumes "syncTasksIds s = []" "allTaskOps s \<noteq> []"
  shows "getControlGraphBlockTaskRange s 0 a b = Inr (0, length (allTaskOps s) - 1)"
proof -
  have "Suc 0 \<le> length (allTaskOps s)" using assms(2) by (cases "allTaskOps s") auto
  then show ?thesis
    using assms by (simp add: getControlGraphBlockTaskRange_def getControlGraphBlockCount_def getNumOfTasks_def)
qed

lemma last_task_no_sync: "isSyncPoint s t \<Longrightarrow> t \<noteq> length (allTaskOps s) - 1 \<or> allTaskOps s = []"
  by (cases "allTaskOps s") (auto simp: isSyncPoint_def split: if_splits)

lemma producers_pass_minimal:
  assumes w: "bi_wf s" and f: "forward s" and sync: "syncTasksIds s = []"
    and run: "optimizeBarrierProducers 0 s = Inr s'"
  shows "updates s' t = {b \<in> updates s t. \<forall>d. (t, d) \<in> (taskGraph s)\<^sup>+ \<longrightarrow> b \<notin> updates s d}"
  using w f run
proof (cases rule: optimizeBarrierProducers_reduction)
  case (1 st en)
  have "updates s t = {}"
  proof (cases "t < length (allTaskOps s)")
    case True
    then have "allTaskOps s \<noteq> []" by auto
    from single_block_range[OF sync this] 1(2) True have "t \<in> {st..en}" by auto
    then show ?thesis by (rule 1(3))
  qed (use bi_wf_lengths[OF w] in simp)
  with 1(1) show ?thesis by simp
next
  case (2 st en U)
  let ?R = "{t \<in> {st..en}. \<not> (t = en \<and> isSyncPoint s t)}"
  show ?thesis
  proof (cases "allTaskOps s = []")
    case True
    then have "updates s t = {}" for t using bi_wf_lengths[OF w] by (simp add: entry_def)
    then show ?thesis using 2(3) by (auto simp: reduced_def)
  next
    case False
    from single_block_range[OF sync False] 2(1) have r: "st = 0" "en = length (allTaskOps s) - 1" by auto
    have R: "?R = {..<length (allTaskOps s)}"
      using False last_task_no_sync[of s en] by (cases "allTaskOps s") (auto simp: r)
    have out: "dep_kids (updates s) (consumers s) u = {}" if "u \<notin> ?R" for u
      using that bi_wf_lengths[OF w] unfolding R by (auto simp: dep_kids_def entry_def)
    show ?thesis
      using 2(3)[of t] dep_reduction.reduced_exact[OF 2(2) out] by (simp add: taskGraph_def)
  qed
qed

section \<open>Dropping redundant wait barriers\<close>

lemma optimizeBarrierConsumers_reduction:
  assumes w: "bi_wf s" and f: "forward s" and run: "optimizeBarrierConsumers blk s = Inr s'"
  obtains st en where "s' = s" "getControlGraphBlockTaskRange s blk True True = Inr (st, en)"
    "\<And>t. t \<in> {st..en} \<Longrightarrow> waits s t = {}"
  | st en U where
    "getControlGraphBlockTaskRange s blk True True = Inr (st, en)"
    "dep_reduction {t \<in> {st..en}. \<not> (t = st \<and> isSyncPoint s t)} (waits s) (producers s) U U (\<lambda>t. t)"
    "\<And>t. waits s' t = reduced {t \<in> {st..en}. \<not> (t = st \<and> isSyncPoint s t)} (waits s) (producers s) U t"
    "bi_wf s'" "bi_same s s'" "barrierProducerMap s' = barrierProducerMap s"
proof -
  from run[unfolded optimizeBarrierConsumers_def Let_def] obtain st en0 bars where
    r: "getControlGraphBlockTaskRange s blk True True = Inr (st, en0)" and
    bars: "getBarriersForTaskBlock s blk True True False = Inr bars" and
    rest: "(if bars = [] then Inr s else
        guardE (st \<le> min en0 (subSize (length (allTaskOps s)) 1)) EmptyTaskRange
         (reduceBlock taskWaitBarriers barrierProducerMap setWaitBarriers
           (\<lambda>t. t = st \<and> isSyncPoint s t) ProducerOutOfRange
           (upto_list st (min en0 (subSize (length (allTaskOps s)) 1)))
           (downto_list st (min en0 (subSize (length (allTaskOps s)) 1)))
           st (min en0 (subSize (length (allTaskOps s)) 1)) (hd bars) s)) = Inr s'"
    by (auto simp: bindE_Inr)
  show ?thesis
  proof (cases "bars = []")
    case True
    then have "waits s t = {}" if "t \<in> {st..en0}" for t
      using block_empty[OF w r bars[unfolded True] that] by simp
    with True rest that(1) r show ?thesis by simp
  next
    case False
    from bars r have "\<And>t. t \<in> {st..en0} \<Longrightarrow> t < length (taskWaitBarriers s)"
      by (auto elim!: getBarriersForTaskBlock_Inr)
    then have lt: "t < length (allTaskOps s)" if "t \<in> {st..en0}" for t
      using that bi_wf_lengths[OF w] by simp
    have "st \<le> en0" using False rest by (auto simp: guardE_Inr)
    with lt have en: "en0 < length (allTaskOps s)" "st \<le> en0" by auto
    then have "min en0 (subSize (length (allTaskOps s)) 1) = en0" by simp
    with rest False have red: "reduceBlock taskWaitBarriers barrierProducerMap setWaitBarriers
           (\<lambda>t. t = st \<and> isSyncPoint s t) ProducerOutOfRange (upto_list st en0) (downto_list st en0)
           st en0 (hd bars) s = Inr s'" by (auto simp: guardE_Inr)
    have edge: "c < t" if "c \<in> dep_kids (waits s) (producers s) t" for t c
      using that f by (fastforce simp: forward_def dep_edges_iff[symmetric] waitGraph[OF w])
    show ?thesis
      by (rule wait_side.reduceBlock_correct[where rank = "\<lambda>t. t", OF w en _ _ _ _ _ _ _ _ _ red])
        (use edge block_offset(1)[OF w r bars] that(2)[OF r] in
          \<open>fastforce intro!: sorted_wrt_downto sorted_wrt_upto simp: inRange_def\<close>)+
  qed
qed

lemma consumers_pass_keepsOrder:
  assumes w: "bi_wf s" and f: "forward s" and run: "optimizeBarrierConsumers blk s = Inr s'"
  shows "keepsOrder s s'" "waits s' t \<subseteq> waits s t" "updates s' t = updates s t"
proof -
  have "keepsOrder s s' \<and> (\<forall>t. waits s' t \<subseteq> waits s t) \<and> (\<forall>t. updates s' t = updates s t)"
    using w f run
  proof (cases rule: optimizeBarrierConsumers_reduction)
    case 1
    with w show ?thesis by auto
  next
    case (2 st en U)
    have "waits s' = reduced {t \<in> {st..en}. \<not> (t = st \<and> isSyncPoint s t)} (waits s) (producers s) U"
      using 2(3) by auto
    with dep_reduction.reduction_preserves_order[OF 2(2)] 2(6) waitGraph[OF w] waitGraph[OF 2(4)]
    have "((taskGraph s')\<inverse>)\<^sup>+ = ((taskGraph s)\<inverse>)\<^sup>+" by simp
    then have "(taskGraph s')\<^sup>+ = (taskGraph s)\<^sup>+" by (simp add: trancl_converse)
    with 2(3-6) have "keepsOrder s s' \<and> (\<forall>t. waits s' t \<subseteq> waits s t)"
      by (auto simp: keepsOrder_def reduced_def)
    moreover have "updates s' t = updates s t" for t
      using bi_wf_producers[OF w, of t] bi_wf_producers[OF 2(4), of t] 2(6) by auto
    ultimately show ?thesis by blast
  qed
  then show "keepsOrder s s'" "waits s' t \<subseteq> waits s t" "updates s' t = updates s t" by blast+
qed

lemma consumers_pass_minimal:
  assumes w: "bi_wf s" and f: "forward s" and sync: "syncTasksIds s = []"
    and block: "controlGraphBlockSize s = 0"
    and run: "optimizeBarrierConsumers 0 s = Inr s'"
  shows "waits s' t = {b \<in> waits s t. \<forall>d. (d, t) \<in> (taskGraph s)\<^sup>+ \<longrightarrow> b \<notin> waits s d}"
proof -
  have outside: "waits s u = {}" if "\<not> u < length (allTaskOps s)" for u
    using that bi_wf_lengths[OF w] by simp
  show ?thesis
    using w f run
  proof (cases rule: optimizeBarrierConsumers_reduction)
    case (1 st en)
    have "waits s t = {}"
    proof (cases "t < length (allTaskOps s)")
      case True
      then have "allTaskOps s \<noteq> []" by auto
      from single_block_range[OF sync this] 1(2) True have "t \<in> {st..en}" by auto
      then show ?thesis by (rule 1(3))
    qed (rule outside)
    with 1(1) show ?thesis by simp
  next
    case (2 st en U)
    show ?thesis
    proof (cases "allTaskOps s = []")
      case True
      with outside have "waits s t = {}" for t by simp
      then show ?thesis using 2(3) by (auto simp: reduced_def)
    next
      case False
      from single_block_range[OF sync False] 2(1) have r: "st = 0" "en = length (allTaskOps s) - 1" by auto
      have R: "{t \<in> {st..en}. \<not> (t = st \<and> isSyncPoint s t)} = {..<length (allTaskOps s)}"
        using False block by (cases "allTaskOps s") (auto simp: r isSyncPoint_def)
      have out: "dep_kids (waits s) (producers s) u = {}" if "u \<notin> {..<length (allTaskOps s)}" for u
        using that outside by (auto simp: dep_kids_def)
      show ?thesis
        using 2(3)[of t, unfolded R] dep_reduction.reduced_exact[OF 2(2), unfolded R, OF out]
        by (simp add: waitGraph[OF w] trancl_converse)
    qed
  qed
qed

section \<open>Merging barriers with the same producers\<close>

text \<open>
  One merge: the consumers move to a barrier with the same producers, so every edge keeps a
  barrier that carries it.
\<close>

lemma merge_edges:
  assumes w: "bi_wf s" and b: "validBarrier s b1" "validBarrier s b2" "b1 \<noteq> b2"
    and p: "producers s b1 = producers s b2"
  defines "s1 \<equiv> fold (addConsumer b1) (elems (barrierConsumerMap s ! b2)) s"
  shows "bi_wf (resetBarrier b2 s1)" "bi_same s (resetBarrier b2 s1)"
    "taskGraph (resetBarrier b2 s1) = taskGraph s"
    "producers (resetBarrier b2 s1) b = (if b = b2 then {} else producers s b)"
    "consumers (resetBarrier b2 s1) b =
       (if b = b2 then {} else if b = b1 then consumers s b1 \<union> consumers s b2 else consumers s b)"
proof -
  have c2: "barrierConsumerMap s ! b2 = consumers s b2"
    using b(2) bi_wf_lengths[OF w] by (simp add: validBarrier_def)
  have ve: "t \<in> set (elems (barrierConsumerMap s ! b2)) \<Longrightarrow> validTask s t" for t
    using bi_wf_bounds(2)[OF w, of b2] w by (auto simp: c2 validTask_def)
  note add = fold_addConsumer[where ts = "elems (barrierConsumerMap s ! b2)", OF w b(1) ve, simplified s1_def[symmetric]]
  have w1: "bi_wf s1" and same1: "bi_same s s1" using add by auto
  have vb: "validBarrier s1 b2" using b(2) bi_same_valid(2)[OF same1] by simp
  note reset = resetBarrier_spec[OF w1 vb]
  show w2: "bi_wf (resetBarrier b2 s1)" and "bi_same s (resetBarrier b2 s1)"
    using reset(1,2) bi_same_trans[OF same1] by auto
  show pr: "producers (resetBarrier b2 s1) b = (if b = b2 then {} else producers s b)" for b
    using add by (simp add: reset(3))
  show co: "consumers (resetBarrier b2 s1) b =
       (if b = b2 then {} else if b = b1 then consumers s b1 \<union> consumers s b2 else consumers s b)" for b
    using add w by (simp add: reset(4) c2)
  have g: "taskGraph r = {(t, c). \<exists>b. t \<in> producers r b \<and> c \<in> consumers r b}" if "bi_wf r" for r
    using that by (auto simp: taskGraph_iff bi_wf_producers)
  show "taskGraph (resetBarrier b2 s1) = taskGraph s"
  proof -
    have "(\<exists>b. t \<in> (if b = b2 then {} else producers s b) \<and>
        c \<in> (if b = b2 then {} else if b = b1 then consumers s b1 \<union> consumers s b2 else consumers s b)) \<longleftrightarrow>
      (\<exists>b. t \<in> producers s b \<and> c \<in> consumers s b)" for t c
      using p b(3) by (metis Un_iff empty_iff)
    then show ?thesis by (simp add: g[OF w2] g[OF w] pr co)
  qed
qed

text \<open>
  The invariant of the two nested loops: the graph is the original one, and each copied
  vector still lists the producers of its barrier.
\<close>

definition mergeInv ::
  "barrier_info \<Rightarrow> nat list \<Rightarrow> barrier_info \<times> nat list list \<Rightarrow> bool" where
  "mergeInv s0 bars = (\<lambda>(s, prods).
     bi_wf s \<and> bi_same s0 s \<and> taskGraph s = taskGraph s0 \<and> length prods = length bars \<and>
     (\<forall>i < length bars. set (prods ! i) = producers s (bars ! i)))"

lemma mergePair_inv:
  assumes inv: "mergeInv s0 bars st" and i: "i < j" "j < length bars"
    and bars: "distinct bars" "\<And>b. b \<in> set bars \<Longrightarrow> validBarrier s0 b"
    and run: "mergePair check maxv bars i j st = Inr st'"
  shows "mergeInv s0 bars st'"
proof -
  obtain s prods where st: "st = (s, prods)" by (cases st)
  from inv have w: "bi_wf s" "bi_same s0 s" "taskGraph s = taskGraph s0" "length prods = length bars"
    "\<And>k. k < length bars \<Longrightarrow> set (prods ! k) = producers s (bars ! k)"
    by (auto simp: mergeInv_def st)
  let ?s1 = "fold (addConsumer (bars ! i)) (elems (barrierConsumerMap s ! (bars ! j))) s"
  from run have "st' = st \<or> prods ! i = prods ! j \<and> st' = (resetBarrier (bars ! j) ?s1, prods[j := []])"
    by (auto simp: mergePair_def st Let_def bindE_Inr split: if_splits)
  then show ?thesis
  proof
    assume "st' = st"
    with inv show ?thesis by simp
  next
    assume m: "prods ! i = prods ! j \<and> st' = (resetBarrier (bars ! j) ?s1, prods[j := []])"
    have v: "validBarrier s (bars ! i)" "validBarrier s (bars ! j)"
      using bars(2) i bi_same_valid(2)[OF w(2)] by auto
    have ne: "bars ! i \<noteq> bars ! j" using bars(1) i by (auto simp: nth_eq_iff_index_eq)
    have p: "producers s (bars ! i) = producers s (bars ! j)" using m w(5)[of i] w(5)[of j] i by simp
    note me = merge_edges[OF w(1) v ne p]
    have "set (prods[j := []] ! k) = producers (resetBarrier (bars ! j) ?s1) (bars ! k)" if "k < length bars" for k
      using that w(4,5) i bars(1) by (auto simp: me(4) nth_list_update nth_eq_iff_index_eq)
    then show ?thesis
      using m me(1-3) w bi_same_trans[OF w(2) me(2)] by (simp add: mergeInv_def)
  qed
qed

lemma getBarriersForTaskBlock_valid:
  assumes w: "bi_wf s" and "getBarriersForTaskBlock s blk a b u = Inr bars"
  shows "distinct bars" "\<And>x. x \<in> set bars \<Longrightarrow> validBarrier s x"
proof -
  from assms(2) obtain st en where e: "bars = elems (\<Union>t \<in> {st..en}. (if u then updates s t else waits s t))"
    by (auto elim!: getBarriersForTaskBlock_Inr)
  show "distinct bars" by (simp add: e)
  have fin: "finite (\<Union>t \<in> {st..en}. (if u then updates s t else waits s t))" using w by (cases u) auto
  show "validBarrier s x" if "x \<in> set bars" for x
  proof -
    from that fin obtain t where "x \<in> (if u then updates s t else waits s t)" by (cases u) (auto simp: e)
    then show ?thesis
      using bi_wf_bounds(3,4)[OF w, of t] by (cases u) (auto simp: validBarrier_def)
  qed
qed

lemma sameProducers_pass_keepsGraph:
  assumes it: "set_iteration iter" and w: "bi_wf s"
    and run: "optimizeBarriersWithSameProducers iter maxv check blk s = Inr s'"
  shows "bi_wf s'" "bi_same s s'" "taskGraph s' = taskGraph s"
proof -
  from run obtain bars where bars: "getBarriersForTaskBlock s blk True False True = Inr bars"
    and body: "s' = s \<or> (\<exists>prods. foldE (\<lambda>ind1. foldE (mergePair check maxv bars ind1) [ind1 + 1..<length bars])
                     [0..<length bars] (s, map (\<lambda>b. iter (barrierProducerMap s ! b)) bars) = Inr (s', prods))"
    by (auto simp: optimizeBarriersWithSameProducers_def bindE_Inr guardE_Inr split: if_splits prod.splits)
  note v = getBarriersForTaskBlock_valid[OF w bars]
  have "barrierProducerMap s ! b = producers s b" if "b \<in> set bars" for b
    using v(2)[OF that] bi_wf_lengths[OF w] by (simp add: validBarrier_def)
  then have start: "mergeInv s bars (s, map (\<lambda>b. iter (barrierProducerMap s ! b)) bars)"
    using w set_iteration.set_iter[OF it] by (auto simp: mergeInv_def)
  from body have "bi_wf s' \<and> bi_same s s' \<and> taskGraph s' = taskGraph s"
  proof
    assume "s' = s"
    with w show ?thesis by simp
  next
    assume "\<exists>prods. foldE (\<lambda>ind1. foldE (mergePair check maxv bars ind1) [ind1 + 1..<length bars])
                     [0..<length bars] (s, map (\<lambda>b. iter (barrierProducerMap s ! b)) bars) = Inr (s', prods)"
    then obtain prods where f: "foldE (\<lambda>ind1. foldE (mergePair check maxv bars ind1) [ind1 + 1..<length bars])
                     [0..<length bars] (s, map (\<lambda>b. iter (barrierProducerMap s ! b)) bars) = Inr (s', prods)" ..
    have "mergeInv s bars (s', prods)"
    proof (rule foldE_invariant[where P = "mergeInv s bars", OF f start])
      fix i st st'
      assume k: "mergeInv s bars st" and r: "foldE (mergePair check maxv bars i) [i + 1..<length bars] st = Inr st'"
      show "mergeInv s bars st'"
      proof (rule foldE_invariant[where P = "mergeInv s bars", OF r k])
        fix j st st'
        assume "j \<in> set [i + 1..<length bars]" "mergeInv s bars st" "mergePair check maxv bars i j st = Inr st'"
        then show "mergeInv s bars st'" using mergePair_inv[of s bars st i j check maxv st'] v by simp
      qed
    qed
    then show ?thesis by (simp add: mergeInv_def)
  qed
  then show "bi_wf s'" "bi_same s s'" "taskGraph s' = taskGraph s" by auto
qed

section \<open>The whole optimisation\<close>

lemma optimizeBlock_keepsOrder:
  assumes it: "set_iteration iter" and w: "bi_wf s" and f: "forward s"
    and run: "optimizeBlock iter maxv check blk s = Inr s'"
  shows "keepsOrder s s'"
proof -
  from run obtain s1 s2 where s1: "optimizeBarrierProducers blk s = Inr s1"
    and s2: "optimizeBarriersWithSameProducers iter maxv check blk s1 = Inr s2"
    and s3: "optimizeBarrierConsumers blk s2 = Inr s'"
    by (auto simp: optimizeBlock_def bindE_Inr)
  have k1: "keepsOrder s s1" by (rule producers_pass_keepsOrder(1)[OF w f s1])
  then have w1: "bi_wf s1" by (simp add: keepsOrder_def)
  note p2 = sameProducers_pass_keepsGraph[OF it w1 s2]
  then have k2: "keepsOrder s1 s2" by (simp add: keepsOrder_def)
  have f2: "forward s2" using keepsOrder_forward[OF keepsOrder_trans[OF k1 k2] f] .
  from consumers_pass_keepsOrder(1)[OF p2(1) f2 s3] k1 k2 show ?thesis
    by (blast intro: keepsOrder_trans)
qed

lemma optimizeBarriers_keepsOrder:
  assumes it: "set_iteration iter" and w: "bi_wf s" and f: "forward s"
    and run: "optimizeBarriers iter maxv check s = Inr s'"
  shows "keepsOrder s s'"
proof (rule foldE_invariant[where P = "keepsOrder s", OF run[unfolded optimizeBarriers_def] keepsOrder_refl[OF w]])
  fix blk s1 s2
  assume k: "keepsOrder s s1" and r: "optimizeBlock iter maxv check blk s1 = Inr s2"
  have "bi_wf s1" "forward s1" using k keepsOrder_forward[OF k f] by (simp_all add: keepsOrder_def)
  from optimizeBlock_keepsOrder[OF it this r] k show "keepsOrder s s2"
    by (blast intro: keepsOrder_trans)
qed

end
