(* ===== verification/Barrier_Optimize_Total.thy ===== *)
theory Barrier_Optimize_Total
  imports Barrier_Optimize
begin

text \<open>
  The optimisation does not throw: on a control graph that is not split, with links that
  agree and tasks in execution order, every pass returns.
\<close>

section \<open>The walks return\<close>

lemma collect_walk_defined:
  assumes "\<And>t. t \<in> set ts \<Longrightarrow> stepOk v w t \<and> st \<le> t \<and> t \<le> en \<and> (\<forall>c \<in> nbrs v w t. inRange st en c)"
    and "length M = Suc en - st"
  shows "\<exists>M'. foldE (collectMask skip err v w st en off) ts M = Inr M'"
proof -
  have "\<exists>M'. foldE (collectMask skip err v w st en off) ts M = Inr M' \<and> length M' = Suc en - st"
  proof (rule foldE_defined[where P = "\<lambda>M :: nat set list. length M = Suc en - st", OF assms(2)])
    fix t and M :: "nat set list"
    assume "t \<in> set ts" "length M = Suc en - st"
    with assms(1)[of t] have t: "t - st < length M" "st \<le> t" "stepOk v w t" "\<forall>c \<in> nbrs v w t. inRange st en c"
      by auto
    with \<open>length M = Suc en - st\<close>
    show "\<exists>M'. collectMask skip err v w st en off t M = Inr M' \<and> length M' = Suc en - st"
      by (simp add: collectMask_eq[OF t(1-3)])
  qed
  then show ?thesis by blast
qed

context link_side
begin

lemma reduceBlock_defined:
  assumes w: "bi_wf s" and en: "en < length (allTaskOps s)" "st \<le> en"
    and co: "set collectOrder \<subseteq> {st..en}"
    and kids: "\<And>t c. t \<in> {st..en} \<Longrightarrow> c \<in> dep_kids (entry (v s)) (entry (w s)) t \<Longrightarrow> c \<noteq> t \<and> inRange st en c"
  shows "\<exists>s'. reduceBlock v w setv skip err collectOrder reduceOrder st en off s = Inr s'"
proof -
  have valid: "validTask s t" if "t \<in> {st..en}" for t using that en by (simp add: validTask_def)
  have "\<exists>M'. foldE (collectMask skip err (v s) (w s) st en off) collectOrder
      (replicate (en - st + 1) {}) = Inr M'"
  proof (rule collect_walk_defined)
    fix t
    assume "t \<in> set collectOrder"
    then have t: "t \<in> {st..en}" using co by blast
    with kids stepOkI[OF w valid[OF t]] nbrs_kids[OF w valid[OF t]]
    show "stepOk (v s) (w s) t \<and> st \<le> t \<and> t \<le> en \<and> (\<forall>c \<in> nbrs (v s) (w s) t. inRange st en c)"
      by auto
  qed (use en in simp)
  then show ?thesis by (auto simp: reduceBlock_def)
qed

end

section \<open>The passes return\<close>

definition unsplit :: "barrier_info \<Rightarrow> bool" where
  "unsplit s \<longleftrightarrow> syncTasksIds s = [] \<and> allTaskOps s \<noteq> []"

lemma unsplit_same: "bi_same s s' \<Longrightarrow> unsplit s' = unsplit s"
  by (simp add: bi_same_def unsplit_def)

lemma unsplit_barriers:
  assumes w: "bi_wf s" and u: "unsplit s"
  shows "\<exists>bars. getBarriersForTaskBlock s 0 a b upd = Inr bars"
proof -
  let ?v = "if upd then taskUpdateBarriers s else taskWaitBarriers s"
  have r: "getControlGraphBlockTaskRange s 0 a b = Inr (0, length (allTaskOps s) - 1)"
    using u by (intro single_block_range) (auto simp: unsplit_def)
  have "\<forall>t \<in> set (upto_list 0 (length (allTaskOps s) - 1)). t < length ?v"
    using u bi_wf_lengths[OF w] by (cases "allTaskOps s") (auto simp: unsplit_def)
  with r u show ?thesis
    unfolding getBarriersForTaskBlock_def
    by (simp add: foldE_union getControlGraphBlockCount_def unsplit_def Let_def)
qed

lemma unsplit_min:
  "unsplit s \<Longrightarrow> min (length (allTaskOps s) - Suc 0) (subSize (length (allTaskOps s)) (Suc 0)) = length (allTaskOps s) - Suc 0"
  by (cases "allTaskOps s") (auto simp: unsplit_def)

lemma optimizeBarrierProducers_defined:
  assumes w: "bi_wf s" and f: "forward s" and u: "unsplit s"
  shows "\<exists>s'. optimizeBarrierProducers 0 s = Inr s'"
proof -
  have r: "getControlGraphBlockTaskRange s 0 True True = Inr (0, length (allTaskOps s) - 1)"
    using u by (intro single_block_range) (auto simp: unsplit_def)
  obtain bars where b: "getBarriersForTaskBlock s 0 True True True = Inr bars"
    using unsplit_barriers[OF w u] by blast
  have kids: "c \<noteq> t \<and> inRange 0 (length (allTaskOps s) - 1) c"
    if "c \<in> dep_kids (updates s) (consumers s) t" for t c
    using that f bi_wf_bounds(2)[OF w]
    by (fastforce simp: forward_def taskGraph_def dep_edges_iff dep_kids_def inRange_def)
  have n: "length (allTaskOps s) - 1 < length (allTaskOps s)" using u by (simp add: unsplit_def)
  have "\<exists>s'. reduceBlock taskUpdateBarriers barrierConsumerMap setUpdateBarriers
      (\<lambda>t. t = length (allTaskOps s) - 1 \<and> isSyncPoint s t) ConsumerOutOfRange
      (downto_list 0 (length (allTaskOps s) - 1)) (upto_list 0 (length (allTaskOps s) - 1))
      0 (length (allTaskOps s) - 1) (hd bars) s = Inr s'"
    by (rule update_side.reduceBlock_defined[OF w n]) (use kids in auto)
  with r b u show ?thesis
    by (auto simp: optimizeBarrierProducers_def unsplit_min Let_def)
qed

lemma optimizeBarrierConsumers_defined:
  assumes w: "bi_wf s" and f: "forward s" and u: "unsplit s"
  shows "\<exists>s'. optimizeBarrierConsumers 0 s = Inr s'"
proof -
  have r: "getControlGraphBlockTaskRange s 0 True True = Inr (0, length (allTaskOps s) - 1)"
    using u by (intro single_block_range) (auto simp: unsplit_def)
  obtain bars where b: "getBarriersForTaskBlock s 0 True True False = Inr bars"
    using unsplit_barriers[OF w u] by blast
  have kids: "c \<noteq> t \<and> inRange 0 (length (allTaskOps s) - 1) c"
    if "c \<in> dep_kids (waits s) (producers s) t" for t c
  proof -
    from that have "c \<in> (\<Union>b. producers s b)" by (auto simp: dep_kids_def)
    then have "c < length (allTaskOps s)" using bi_wf_bounds(1)[OF w] by blast
    moreover have "c < t" using that f by (fastforce simp: forward_def dep_edges_iff[symmetric] waitGraph[OF w])
    ultimately show ?thesis by (auto simp: inRange_def)
  qed
  have n: "length (allTaskOps s) - 1 < length (allTaskOps s)" using u by (simp add: unsplit_def)
  have "\<exists>s'. reduceBlock taskWaitBarriers barrierProducerMap setWaitBarriers
      (\<lambda>t. t = 0 \<and> isSyncPoint s t) ProducerOutOfRange
      (upto_list 0 (length (allTaskOps s) - 1)) (downto_list 0 (length (allTaskOps s) - 1))
      0 (length (allTaskOps s) - 1) (hd bars) s = Inr s'"
    by (rule wait_side.reduceBlock_defined[OF w n]) (use kids in auto)
  with r b u show ?thesis
    by (auto simp: optimizeBarrierConsumers_def unsplit_min Let_def)
qed

text \<open>What merging needs of the state: slots are known and operations know their index.\<close>

definition countable_slots :: "barrier_info \<Rightarrow> bool" where
  "countable_slots s \<longleftrightarrow> slotsKnown s \<and> bi_indexed s"

lemma countable_slots_same: "bi_same s s' \<Longrightarrow> countable_slots s' = countable_slots s"
  by (simp add: countable_slots_def bi_same_slots bi_same_indexed)

lemma mergePair_defined:
  assumes inv: "mergeInv s0 bars st" and k: "countable_slots s0" and ij: "i < length bars" "j < length bars"
    and v: "\<And>b. b \<in> set bars \<Longrightarrow> validBarrier s0 b"
  shows "\<exists>st'. mergePair check maxv bars i j st = Inr st'"
proof -
  obtain s prods where st: "st = (s, prods)" by (cases st)
  from inv have w: "bi_wf s" and same: "bi_same s0 s" by (auto simp: mergeInv_def st)
  have k': "slotsKnown s" "bi_indexed s"
    using k countable_slots_same[OF same] by (auto simp: countable_slots_def)
  have vb: "bars ! i < length (allBarrierOps s)" "bars ! j < length (allBarrierOps s)"
    using ij v same by (auto simp: validBarrier_def bi_same_def)
  note len = bi_wf_lengths[OF w]
  have sub: "barrierProducerMap s ! (bars ! i) \<subseteq> {..<length (allTaskOps s)}"
    "barrierConsumerMap s ! (bars ! i) \<union> barrierConsumerMap s ! (bars ! j) \<subseteq> {..<length (allTaskOps s)}"
    using bi_wf_bounds(1)[OF w, of "bars ! i"] bi_wf_bounds(2)[OF w, of "bars ! i"]
      bi_wf_bounds(2)[OF w, of "bars ! j"] vb len by simp_all
  let ?s1 = "fold (addConsumer (bars ! i)) (elems (barrierConsumerMap s ! (bars ! j))) s"
  have vt: "validTasks s (barrierConsumerMap s ! (bars ! j))" using sub(2) by (simp add: validTasks_def)
  have s1: "bi_wf ?s1" "bi_same s ?s1"
    using fold_addConsumer[OF w _ validTasks_elems[OF vt], of "bars ! i"] vb by (auto simp: validBarrier_def)
  then have k1: "slotsKnown ?s1" "bi_indexed ?s1" "bars ! i < length (allBarrierOps ?s1)"
    using k' vb by (auto simp: bi_same_slots(1)[OF s1(2)] bi_same_indexed[OF s1(2)] bi_same_def)
  have "barrierConsumerMap ?s1 ! (bars ! i) \<subseteq> {..<length (allTaskOps ?s1)}"
    using bi_wf_bounds(2)[OF s1(1), of "bars ! i"] bi_wf_lengths[OF s1(1)] k1(3) by simp
  then have c: "\<exists>n. getConsumerSlotCount ?s1 (bars ! i) = Inr n"
    using k1 bi_wf_lengths[OF s1(1)] sumSlots_set[OF k1(1,2)]
    by (auto simp: getConsumerSlotCount_def getBarrierConsumers_def readVector_def)
  have l: "\<exists>ok. legalMergeSlotCount check maxv s (bars ! i) (bars ! j) = Inr ok"
    using sumSlots_set[OF k' sub(1)] sumSlots_set[OF k' sub(2)] by (auto simp: legalMergeSlotCount_def)
  show ?thesis
    using c l getBarrierOpAtIndex_ok[OF k1(2,3)] by (auto simp: mergePair_def st Let_def bindE_def split: sum.splits)
qed


lemma sameProducers_defined:
  assumes it: "set_iteration iter" and w: "bi_wf s" and u: "unsplit s" and k: "countable_slots s"
  shows "\<exists>s'. optimizeBarriersWithSameProducers iter maxv check 0 s = Inr s'"
proof -
  obtain bars where b: "getBarriersForTaskBlock s 0 True False True = Inr bars"
    using unsplit_barriers[OF w u] by blast
  note v = getBarriersForTaskBlock_valid[OF w b]
  have "barrierProducerMap s ! x = producers s x" if "x \<in> set bars" for x
    using v(2)[OF that] bi_wf_lengths[OF w] by (simp add: validBarrier_def)
  then have start: "mergeInv s bars (s, map (\<lambda>b. iter (barrierProducerMap s ! b)) bars)"
    using w set_iteration.set_iter[OF it] by (auto simp: mergeInv_def)
  have "\<exists>st. foldE (\<lambda>ind1. foldE (mergePair check maxv bars ind1) [ind1 + 1..<length bars])
      [0..<length bars] (s, map (\<lambda>b. iter (barrierProducerMap s ! b)) bars) = Inr st \<and> mergeInv s bars st"
  proof (rule foldE_defined[where P = "mergeInv s bars", OF start])
    fix i st
    assume i: "i \<in> set [0..<length bars]" and "mergeInv s bars st"
    then show "\<exists>st'. foldE (mergePair check maxv bars i) [i + 1..<length bars] st = Inr st' \<and> mergeInv s bars st'"
    proof (intro foldE_defined[where P = "mergeInv s bars"])
      fix j st
      assume j: "j \<in> set [i + 1..<length bars]" and inv: "mergeInv s bars st"
      from i j have "i < length bars" "j < length bars" by auto
      from mergePair_defined[OF inv k this v(2)] obtain st' where st': "mergePair check maxv bars i j st = Inr st'" ..
      with mergePair_inv[OF inv _ _ v st'] j
      show "\<exists>st'. mergePair check maxv bars i j st = Inr st' \<and> mergeInv s bars st'" by auto
    qed
  qed
  moreover have "x \<le> subSize (length (allBarrierOps s)) 1" if "x \<in> set bars" for x
    using v(2)[OF that] by (auto simp: validBarrier_def subSize_def)
  ultimately show ?thesis
    using b by (cases "bars = []") (auto simp: optimizeBarriersWithSameProducers_def simp del: upt_Suc)
qed

lemma optimizeBarriers_defined:
  assumes it: "set_iteration iter" and w: "bi_wf s" and f: "forward s" and u: "unsplit s" and k: "countable_slots s"
  shows "\<exists>s'. optimizeBarriers iter maxv check s = Inr s'"
proof -
  from optimizeBarrierProducers_defined[OF w f u] obtain s1 where s1: "optimizeBarrierProducers 0 s = Inr s1" ..
  note k1 = producers_pass_keepsOrder(1)[OF w f s1]
  then have w1: "bi_wf s1" and m1: "bi_same s s1" by (simp_all add: keepsOrder_def)
  from sameProducers_defined[OF it w1] u k obtain s2
    where s2: "optimizeBarriersWithSameProducers iter maxv check 0 s1 = Inr s2"
    by (metis countable_slots_same m1 unsplit_same)
  note p2 = sameProducers_pass_keepsGraph[OF it w1 s2]
  have f2: "forward s2" using keepsOrder_forward[OF k1 f] p2(3) by (simp add: forward_def)
  from optimizeBarrierConsumers_defined[OF p2(1) f2] u obtain s3 where "optimizeBarrierConsumers 0 s2 = Inr s3"
    by (metis m1 p2(2) unsplit_same)
  moreover have "getControlGraphBlockTaskRange s 0 True True = Inr (0, length (allTaskOps s) - 1)"
    using u by (intro single_block_range) (auto simp: unsplit_def)
  ultimately have "optimizeBlock iter maxv check 0 s = Inr s3"
    by (simp add: optimizeBlock_def s1 s2)
  then show ?thesis using u by (simp add: optimizeBarriers_def getControlGraphBlockCount_def unsplit_def)
qed

end
