(* ===== verification/Barrier_Slots.thy ===== *)
theory Barrier_Slots
  imports Barrier_Optimize_Total
begin

text \<open>
  The hardware bounds the slots of a barrier, counted over its producers and its consumers.
  The optimisation, told to check slot counts, never pushes a barrier over the bound.
\<close>

definition barrierSlots :: "barrier_info \<Rightarrow> nat \<Rightarrow> nat" where
  "barrierSlots s b = (\<Sum>t \<in> producers s b. taskSlots s t) + (\<Sum>t \<in> consumers s b. taskSlots s t)"

definition withinSlots :: "nat \<Rightarrow> barrier_info \<Rightarrow> bool" where
  "withinSlots maxv s \<longleftrightarrow> (\<forall>b < length (allBarrierOps s). barrierSlots s b \<le> maxv)"

lemma barrierSlots_mono:
  assumes "bi_wf s" "bi_same s s'" "producers s' b \<subseteq> producers s b" "consumers s' b \<subseteq> consumers s b"
  shows "barrierSlots s' b \<le> barrierSlots s b"
  using assms by (simp add: barrierSlots_def bi_same_slots add_mono sum_mono2)

lemma withinSlots_mono:
  assumes "bi_wf s" "bi_same s s'" "\<And>b. producers s' b \<subseteq> producers s b" "\<And>b. consumers s' b \<subseteq> consumers s b"
    and "withinSlots maxv s"
  shows "withinSlots maxv s'"
  using assms barrierSlots_mono[OF assms(1,2)] unfolding withinSlots_def bi_same_def
  by (metis le_trans)

lemma links_mono:
  assumes "bi_wf s" "bi_wf s'" "\<And>t. updates s' t \<subseteq> updates s t" "\<And>t. waits s' t \<subseteq> waits s t"
  shows "producers s' b \<subseteq> producers s b" "consumers s' b \<subseteq> consumers s b"
  using assms(3,4) by (auto simp: bi_wf_producers[OF assms(1)] bi_wf_consumers[OF assms(1)]
      bi_wf_producers[OF assms(2)] bi_wf_consumers[OF assms(2)] subset_iff)

lemma producers_pass_slots:
  assumes w: "bi_wf s" and f: "forward s" and run: "optimizeBarrierProducers blk s = Inr s'"
    and "withinSlots maxv s"
  shows "withinSlots maxv s'"
proof -
  note k = producers_pass_keepsOrder[OF w f run]
  from k(1) have w': "bi_wf s'" "bi_same s s'" by (simp_all add: keepsOrder_def)
  show ?thesis
    by (rule withinSlots_mono[OF w w'(2) _ _ assms(4)]; rule links_mono[OF w w'(1)]) (use k in auto)
qed

lemma consumers_pass_slots:
  assumes w: "bi_wf s" and f: "forward s" and run: "optimizeBarrierConsumers blk s = Inr s'"
    and "withinSlots maxv s"
  shows "withinSlots maxv s'"
proof -
  note k = consumers_pass_keepsOrder[OF w f run]
  from k(1) have w': "bi_wf s'" "bi_same s s'" by (simp_all add: keepsOrder_def)
  show ?thesis
    by (rule withinSlots_mono[OF w w'(2) _ _ assms(4)]; rule links_mono[OF w w'(1)]) (use k in auto)
qed

lemma mergePair_slots:
  assumes inv: "mergeInv s0 bars (s, prods)" and k: "countable_slots s0" and ij: "i < j" "j < length bars"
    and v: "distinct bars" "\<And>b. b \<in> set bars \<Longrightarrow> validBarrier s0 b"
    and lim: "withinSlots maxv s" and run: "mergePair True maxv bars i j (s, prods) = Inr (s', prods')"
  shows "withinSlots maxv s'"
proof -
  let ?s1 = "fold (addConsumer (bars ! i)) (elems (barrierConsumerMap s ! (bars ! j))) s"
  from inv have w: "bi_wf s" "bi_same s0 s" "\<And>k. k < length bars \<Longrightarrow> set (prods ! k) = producers s (bars ! k)"
    by (auto simp: mergeInv_def)
  have k': "slotsKnown s" "bi_indexed s"
    using k countable_slots_same[OF w(2)] by (auto simp: countable_slots_def)
  have vb: "validBarrier s (bars ! i)" "validBarrier s (bars ! j)"
    using v(2) ij bi_same_valid(2)[OF w(2)] by auto
  from run have "s' = s \<or> prods ! i = prods ! j \<and> legalMergeSlotCount True maxv s (bars ! i) (bars ! j) = Inr True
      \<and> s' = resetBarrier (bars ! j) ?s1"
    by (auto simp: mergePair_def Let_def bindE_Inr split: if_splits)
  then show ?thesis
  proof
    assume "s' = s"
    with lim show ?thesis by simp
  next
    assume m: "prods ! i = prods ! j \<and> legalMergeSlotCount True maxv s (bars ! i) (bars ! j) = Inr True
      \<and> s' = resetBarrier (bars ! j) ?s1"
    have ne: "bars ! i \<noteq> bars ! j" using v(1) ij by (auto simp: nth_eq_iff_index_eq)
    have p: "producers s (bars ! i) = producers s (bars ! j)" using m w(3)[of i] w(3)[of j] ij by simp
    note me = merge_edges[OF w(1) vb ne p]
    have c: "barrierConsumerMap s ! (bars ! i) = consumers s (bars ! i)" "barrierConsumerMap s ! (bars ! j) = consumers s (bars ! j)"
      "barrierProducerMap s ! (bars ! i) = producers s (bars ! i)"
      using vb bi_wf_lengths[OF w(1)] by (simp_all add: validBarrier_def)
    have s': "s' = resetBarrier (bars ! j) ?s1" using m by simp
    note new = me(2,4,5)[folded s']
    have "(\<Sum>t \<in> producers s (bars ! i). taskSlots s t) +
        (\<Sum>t \<in> consumers s (bars ! i) \<union> consumers s (bars ! j). taskSlots s t) \<le> maxv"
      using m sumSlots_set[OF k' bi_wf_bounds(1)[OF w(1)], of "bars ! i"]
        sumSlots_set[OF k', of "consumers s (bars ! i) \<union> consumers s (bars ! j)"] bi_wf_bounds(2)[OF w(1)]
      by (simp add: legalMergeSlotCount_def c)
    then have "barrierSlots s' (bars ! i) \<le> maxv"
      using ne by (simp add: barrierSlots_def new(2,3) bi_same_slots(2)[OF new(1)])
    moreover have "barrierSlots s' b \<le> barrierSlots s b" if "b \<noteq> bars ! i" for b
      using that by (intro barrierSlots_mono[OF w(1) new(1)]) (auto simp: new(2,3) split: if_splits)
    ultimately show ?thesis
      using lim new(1) unfolding withinSlots_def bi_same_def by (metis le_trans)
  qed
qed


lemma sameProducers_pass_slots:
  assumes it: "set_iteration iter" and w: "bi_wf s" and k: "countable_slots s" and lim: "withinSlots maxv s"
    and run: "optimizeBarriersWithSameProducers iter maxv True blk s = Inr s'"
  shows "withinSlots maxv s'"
proof -
  from run obtain bars where bars: "getBarriersForTaskBlock s blk True False True = Inr bars"
    and body: "s' = s \<or> (\<exists>prods. foldE (\<lambda>ind1. foldE (mergePair True maxv bars ind1) [ind1 + 1..<length bars])
                     [0..<length bars] (s, map (\<lambda>b. iter (barrierProducerMap s ! b)) bars) = Inr (s', prods))"
    by (auto simp: optimizeBarriersWithSameProducers_def bindE_Inr guardE_Inr split: if_splits prod.splits)
  note v = getBarriersForTaskBlock_valid[OF w bars]
  let ?P = "\<lambda>st. mergeInv s bars st \<and> withinSlots maxv (fst st)"
  have "barrierProducerMap s ! b = producers s b" if "b \<in> set bars" for b
    using v(2)[OF that] bi_wf_lengths[OF w] by (simp add: validBarrier_def)
  then have start: "?P (s, map (\<lambda>b. iter (barrierProducerMap s ! b)) bars)"
    using w lim set_iteration.set_iter[OF it] by (auto simp: mergeInv_def)
  have step: "?P st'" if "?P st" "i < j" "j < length bars" "mergePair True maxv bars i j st = Inr st'" for st st' i j
  proof -
    from that have "mergeInv s bars (fst st, snd st)" "withinSlots maxv (fst st)"
      "mergePair True maxv bars i j (fst st, snd st) = Inr (fst st', snd st')" by simp_all
    from mergePair_slots[OF this(1) k that(2,3) v this(2,3)] mergePair_inv[of s bars st i j True maxv st'] v that
    show ?thesis by blast
  qed
  from body show ?thesis
  proof (elim disjE exE)
    fix prods
    assume f: "foldE (\<lambda>ind1. foldE (mergePair True maxv bars ind1) [ind1 + 1..<length bars])
                     [0..<length bars] (s, map (\<lambda>b. iter (barrierProducerMap s ! b)) bars) = Inr (s', prods)"
    have "?P (s', prods)"
    proof (rule foldE_invariant[where P = ?P, OF f start])
      fix i st st'
      assume P: "?P st" and r: "foldE (mergePair True maxv bars i) [i + 1..<length bars] st = Inr st'"
      show "?P st'"
        by (rule foldE_invariant[where P = ?P, OF r P], rule step) auto
    qed
    then show ?thesis by simp
  qed (use lim in simp)
qed

lemma optimizeBlock_slots:
  assumes it: "set_iteration iter" and w: "bi_wf s" and f: "forward s" and k: "countable_slots s"
    and lim: "withinSlots maxv s" and run: "optimizeBlock iter maxv True blk s = Inr s'"
  shows "withinSlots maxv s'"
proof -
  from run obtain s1 s2 where s1: "optimizeBarrierProducers blk s = Inr s1"
    and s2: "optimizeBarriersWithSameProducers iter maxv True blk s1 = Inr s2"
    and s3: "optimizeBarrierConsumers blk s2 = Inr s'"
    by (auto simp: optimizeBlock_def bindE_Inr)
  have k1: "keepsOrder s s1" by (rule producers_pass_keepsOrder(1)[OF w f s1])
  then have w1: "bi_wf s1" "bi_same s s1" by (simp_all add: keepsOrder_def)
  note p2 = sameProducers_pass_keepsGraph[OF it w1(1) s2]
  have f2: "forward s2" using keepsOrder_forward[OF k1 f] p2(3) by (simp add: forward_def)
  have "withinSlots maxv s1" by (rule producers_pass_slots[OF w f s1 lim])
  from sameProducers_pass_slots[OF it w1(1) _ this s2] k countable_slots_same[OF w1(2)]
  have "withinSlots maxv s2" by simp
  then show ?thesis by (rule consumers_pass_slots[OF p2(1) f2 s3])
qed

lemma optimizeBarriers_slots:
  assumes it: "set_iteration iter" and w: "bi_wf s" and f: "forward s" and k: "countable_slots s"
    and lim: "withinSlots maxv s" and run: "optimizeBarriers iter maxv True s = Inr s'"
  shows "withinSlots maxv s'"
proof -
  have "keepsOrder s s' \<and> withinSlots maxv s'"
  proof (rule foldE_invariant[where P = "\<lambda>r. keepsOrder s r \<and> withinSlots maxv r", OF run[unfolded optimizeBarriers_def]])
    show "keepsOrder s s \<and> withinSlots maxv s" using w lim by auto
    fix blk r r'
    assume h: "keepsOrder s r \<and> withinSlots maxv r" and r: "optimizeBlock iter maxv True blk r = Inr r'"
    from h have "bi_wf r" "forward r" "countable_slots r"
      using keepsOrder_forward[of s r] f k countable_slots_same[of s r] by (auto simp: keepsOrder_def)
    with optimizeBlock_slots[OF it this] optimizeBlock_keepsOrder[OF it this(1,2) r] h r
    show "keepsOrder s r' \<and> withinSlots maxv r'" by (blast intro: keepsOrder_trans)
  qed
  then show ?thesis by simp
qed

end
