(* ===== verification/Barrier_Build.thy ===== *)
theory Barrier_Build
  imports Barrier_Blocks
begin

text \<open>
  Reading the barrier maps off a function body (\<open>buildBarrierMaps\<close>) and writing them back
  to the operands of its tasks (\<open>updateIR\<close>).
\<close>

section \<open>Function bodies\<close>

datatype ir_op = TaskIR task_op | BarrierIR barrier_op | OtherIR

definition tasksOf :: "ir_op list \<Rightarrow> task_op list" where
  "tasksOf func = List.map_filter (\<lambda>op. case op of TaskIR t \<Rightarrow> Some t | _ \<Rightarrow> None) func"

definition barriersOf :: "ir_op list \<Rightarrow> barrier_op list" where
  "barriersOf func = List.map_filter (\<lambda>op. case op of BarrierIR b \<Rightarrow> Some b | _ \<Rightarrow> None) func"

text \<open>Numbering the operations in the order of the body.\<close>

definition indexTasks :: "task_op list \<Rightarrow> task_op list" where
  "indexTasks ts = map (\<lambda>(i, t). t\<lparr>taskIndexAttr := Some i\<rparr>) (enumerate 0 ts)"

definition indexBarriers :: "barrier_op list \<Rightarrow> barrier_op list" where
  "indexBarriers bs = map (\<lambda>(i, b). b\<lparr>barIndexAttr := Some i\<rparr>) (enumerate 0 bs)"

definition syncIds :: "task_op list \<Rightarrow> nat list" where
  "syncIds ts = filter (\<lambda>i. syncTaskAttr (ts ! i)) [0..<length ts]"

text \<open>The operation that defines an operand, found by its SSA value.\<close>

definition findBarrier :: "barrier_op list \<Rightarrow> nat \<Rightarrow> barrier_op option" where
  "findBarrier bs x = find (\<lambda>b. barId b = x) bs"

definition operandIndex :: "barrier_info \<Rightarrow> nat \<Rightarrow> nat option \<Rightarrow> barrier_error + nat" where
  "operandIndex s taskInd bar =
     (case bar of None \<Rightarrow> Inl (InvalidBarrierOperand taskInd)
      | Some x \<Rightarrow> (case findBarrier (allBarrierOps s) x of
                     None \<Rightarrow> Inl MissingAttribute
                   | Some b \<Rightarrow> getIndexBarrier b))"

definition addTaskOp :: "task_op \<Rightarrow> barrier_info \<Rightarrow> barrier_error + barrier_info" where
  "addTaskOp op s =
     bindE (getIndexTask op) (\<lambda>taskInd.
     bindE (foldE (\<lambda>bar s. bindE (operandIndex s taskInd bar) (\<lambda>b. Inr (addConsumer b taskInd s)))
              (waitOperands op) s) (\<lambda>s1.
       foldE (\<lambda>bar s. bindE (operandIndex s taskInd bar) (\<lambda>b. Inr (addProducer b taskInd s)))
         (updateOperands op) s1))"

definition syncBlockSize :: "nat list \<Rightarrow> barrier_error + nat" where
  "syncBlockSize ids =
     (if ids = [] then Inr 0
      else (let size = ids ! 0 + 1
            in foldE (\<lambda>i sz. guardE (subSize (ids ! i) (ids ! (i - 1)) = size) SyncTaskDistance (Inr sz))
                 [1..<length ids] size))"

text \<open>
  The constructor: collect and number the operations, allocate the maps, read the sync tasks,
  then visit the body in order, linking each task and checking each barrier's users.
\<close>

definition initialInfo :: "ir_op list \<Rightarrow> nat \<Rightarrow> barrier_info" where
  "initialInfo func blockSize =
     (let ts = indexTasks (tasksOf func); bs = indexBarriers (barriersOf func)
      in \<lparr>allTaskOps = ts, allBarrierOps = bs, enableUneven = False,
          controlGraphBlockSize = blockSize, syncTasksIds = syncIds ts,
          barrierProducerMap = replicate (length bs) {}, barrierConsumerMap = replicate (length bs) {},
          taskWaitBarriers = replicate (length ts) {}, taskUpdateBarriers = replicate (length ts) {},
          taskQueueTypeMap = []\<rparr>)"

fun visitBody :: "ir_op list \<Rightarrow> nat \<Rightarrow> barrier_info \<Rightarrow> barrier_error + barrier_info" where
  "visitBody [] n s = Inr s"
| "visitBody (TaskIR _ # ops) n s = bindE (addTaskOp (allTaskOps s ! n) s) (visitBody ops (n + 1))"
| "visitBody (BarrierIR b # ops) n s = guardE (\<not> hasNonTaskUser b) NonTaskUser (visitBody ops n s)"
| "visitBody (OtherIR # ops) n s = visitBody ops n s"

definition buildBarrierMaps :: "ir_op list \<Rightarrow> barrier_error + barrier_info" where
  "buildBarrierMaps func =
     bindE (syncBlockSize (syncIds (tasksOf func))) (\<lambda>size.
       visitBody func 0 (initialInfo func size))"

text \<open>
  \<open>updateIR\<close> rewrites the operands of every task; the barriers of a task come out in the
  iteration order of its set.
\<close>

definition operandsFor ::
  "(nat set \<Rightarrow> nat list) \<Rightarrow> barrier_info \<Rightarrow> nat set \<Rightarrow> barrier_error + nat option list" where
  "operandsFor iter s bs =
     foldE (\<lambda>b ops. bindE (getBarrierOpAtIndex s b) (\<lambda>op. Inr (ops @ [Some (barId op)]))) (iter bs) []"

definition updateTaskIR ::
  "(nat set \<Rightarrow> nat list) \<Rightarrow> nat \<Rightarrow> barrier_info \<Rightarrow> barrier_error + barrier_info" where
  "updateTaskIR iter t s =
     bindE (getTaskOpAtIndex s t) (\<lambda>op.
     bindE (operandsFor iter s (taskWaitBarriers s ! t)) (\<lambda>ws.
     bindE (operandsFor iter s (taskUpdateBarriers s ! t)) (\<lambda>us.
       Inr (s\<lparr>allTaskOps := (allTaskOps s)[t := op\<lparr>waitOperands := ws, updateOperands := us\<rparr>]\<rparr>))))"

definition updateIR :: "(nat set \<Rightarrow> nat list) \<Rightarrow> barrier_info \<Rightarrow> barrier_error + barrier_info" where
  "updateIR iter s = foldE (updateTaskIR iter) [0..<length (allTaskOps s)] s"

section \<open>A built state is well-formed\<close>

lemma length_indexTasks [simp]: "length (indexTasks ts) = length ts"
  by (simp add: indexTasks_def)

lemma length_indexBarriers [simp]: "length (indexBarriers bs) = length bs"
  by (simp add: indexBarriers_def)

lemma nth_indexTasks: "i < length ts \<Longrightarrow> indexTasks ts ! i = (ts ! i)\<lparr>taskIndexAttr := Some i\<rparr>"
  by (simp add: indexTasks_def nth_enumerate_eq)

lemma nth_indexBarriers: "i < length bs \<Longrightarrow> indexBarriers bs ! i = (bs ! i)\<lparr>barIndexAttr := Some i\<rparr>"
  by (simp add: indexBarriers_def nth_enumerate_eq)

lemma initialInfo_wf: "bi_wf (initialInfo func n)" "bi_indexed (initialInfo func n)"
  by (auto simp: bi_wf_def bi_indexed_def initialInfo_def Let_def entry_def nth_indexTasks nth_indexBarriers)

lemma find_index: "find P xs = Some x \<Longrightarrow> \<exists>i < length xs. xs ! i = x \<and> P x"
  by (metis find_Some_iff)

lemma operandIndex_valid:
  "bi_indexed s \<Longrightarrow> operandIndex s t bar = Inr b \<Longrightarrow> validBarrier s b"
  by (auto simp: operandIndex_def findBarrier_def getIndexBarrier_def bi_indexed_def validBarrier_def
      split: option.splits dest!: find_index)

lemma addTaskOp_wf:
  assumes "bi_wf s" "bi_indexed s" "taskIndexAttr op = Some t" "validTask s t" "addTaskOp op s = Inr s'"
  shows "bi_wf s' \<and> bi_same s s'"
proof -
  let ?P = "\<lambda>r. bi_wf r \<and> bi_same s r"
  from assms(3,5) obtain s1 where
    1: "foldE (\<lambda>bar s. bindE (operandIndex s t bar) (\<lambda>b. Inr (addConsumer b t s))) (waitOperands op) s = Inr s1"
    and 2: "foldE (\<lambda>bar s. bindE (operandIndex s t bar) (\<lambda>b. Inr (addProducer b t s))) (updateOperands op) s1 = Inr s'"
    by (auto simp: addTaskOp_def getIndexTask_def bindE_Inr)
  have step: "?P (addConsumer b t r)" "?P (addProducer b t r)" if "?P r" "operandIndex r t bar = Inr b" for r b bar
    using that assms(2,4) operandIndex_valid[of r t bar b] addConsumer_wf[of r b t] addProducer_wf[of r b t]
      bi_same_indexed[of s r] bi_same_valid(1)[of s r t] bi_same_trans[of s r] by auto
  have "?P s1"
    by (rule foldE_invariant[where P = ?P, OF 1]) (use assms(1) step in \<open>auto simp: bindE_Inr\<close>)
  show ?thesis
    by (rule foldE_invariant[where P = ?P, OF 2]) (use \<open>?P s1\<close> step in \<open>auto simp: bindE_Inr\<close>)
qed

lemma visitBody_wf:
  assumes "bi_wf s" "bi_indexed s" "n + length (tasksOf ops) \<le> length (allTaskOps s)" "visitBody ops n s = Inr s'"
  shows "bi_wf s' \<and> bi_same s s'"
  using assms
proof (induction ops n s rule: visitBody.induct)
  case (2 t ops n s)
  from "2.prems"(4) obtain s1 where s1: "addTaskOp (allTaskOps s ! n) s = Inr s1" "visitBody ops (n + 1) s1 = Inr s'"
    by (auto simp: bindE_Inr)
  have n: "n < length (allTaskOps s)" using "2.prems"(3) by (simp add: tasksOf_def map_filter_simps)
  with "2.prems"(1,2) s1(1) have k: "bi_wf s1 \<and> bi_same s s1"
    by (intro addTaskOp_wf[where t = n]) (auto simp: bi_indexed_def validTask_def)
  then have "n + 1 + length (tasksOf ops) \<le> length (allTaskOps s1)"
    using "2.prems"(3) by (simp add: tasksOf_def map_filter_simps bi_same_def)
  with "2.IH"[of s1] k "2.prems"(2) s1(2) show ?case
    by (metis bi_same_indexed bi_same_trans)
qed (auto simp: tasksOf_def map_filter_simps guardE_Inr)

lemma buildBarrierMaps_wf:
  assumes "buildBarrierMaps func = Inr s"
  shows "bi_wf s" "bi_indexed s" "length (allTaskOps s) = length (tasksOf func)"
    "length (allBarrierOps s) = length (barriersOf func)"
proof -
  from assms obtain n where v: "visitBody func 0 (initialInfo func n) = Inr s"
    by (auto simp: buildBarrierMaps_def bindE_Inr)
  have "bi_wf s \<and> bi_same (initialInfo func n) s"
    by (rule visitBody_wf[OF initialInfo_wf _ v]) (simp add: initialInfo_def Let_def)
  then show "bi_wf s" "bi_indexed s" "length (allTaskOps s) = length (tasksOf func)"
    "length (allBarrierOps s) = length (barriersOf func)"
    using bi_same_indexed[of "initialInfo func n" s] initialInfo_wf(2)[of func n]
    by (auto simp: bi_same_def initialInfo_def Let_def)
qed

end
