(* ===== verification/Barrier_Examples.thy ===== *)
theory Barrier_Examples
  imports Barrier_Slots Barrier_Build
begin

text \<open>
  Concrete control graphs on which the properties are applied, and code equations that let the
  predicates on states be evaluated.
\<close>

lemma ball_entry_iff:
  "(\<forall>b t. t \<in> entry u b \<longleftrightarrow> b \<in> entry v t) \<longleftrightarrow>
     list_all (\<lambda>b. \<forall>t \<in> u ! b. t < length v \<and> b \<in> v ! t) [0..<length u] \<and>
     list_all (\<lambda>t. \<forall>b \<in> v ! t. b < length u \<and> t \<in> u ! b) [0..<length v]"
  (is "?l = ?r")
proof -
  have "?l \<longleftrightarrow> (\<forall>b t. b < length u \<longrightarrow> t \<in> u ! b \<longrightarrow> t < length v \<and> b \<in> v ! t) \<and>
      (\<forall>t b. t < length v \<longrightarrow> b \<in> v ! t \<longrightarrow> b < length u \<and> t \<in> u ! b)"
    unfolding entry_def by (simp split: if_split) blast
  then show ?thesis by (simp add: list_all_iff Ball_def)
qed

lemma bi_wf_code [code]:
  "bi_wf s \<longleftrightarrow>
     length (barrierProducerMap s) = length (allBarrierOps s) \<and>
     length (barrierConsumerMap s) = length (allBarrierOps s) \<and>
     length (taskWaitBarriers s) = length (allTaskOps s) \<and>
     length (taskUpdateBarriers s) = length (allTaskOps s) \<and>
     list_all (\<lambda>b. \<forall>t \<in> barrierProducerMap s ! b. t < length (taskUpdateBarriers s) \<and> b \<in> taskUpdateBarriers s ! t)
       [0..<length (barrierProducerMap s)] \<and>
     list_all (\<lambda>t. \<forall>b \<in> taskUpdateBarriers s ! t. b < length (barrierProducerMap s) \<and> t \<in> barrierProducerMap s ! b)
       [0..<length (taskUpdateBarriers s)] \<and>
     list_all (\<lambda>b. \<forall>t \<in> barrierConsumerMap s ! b. t < length (taskWaitBarriers s) \<and> b \<in> taskWaitBarriers s ! t)
       [0..<length (barrierConsumerMap s)] \<and>
     list_all (\<lambda>t. \<forall>b \<in> taskWaitBarriers s ! t. b < length (barrierConsumerMap s) \<and> t \<in> barrierConsumerMap s ! b)
       [0..<length (taskWaitBarriers s)]"
  unfolding bi_wf_def ball_entry_iff by blast

lemma forward_code [code]:
  "forward s \<longleftrightarrow> list_all (\<lambda>t. \<forall>b \<in> taskUpdateBarriers s ! t. \<forall>c \<in> consumers s b. t < c)
     [0..<length (taskUpdateBarriers s)]"
proof -
  have "forward s \<longleftrightarrow> (\<forall>t. \<forall>b \<in> updates s t. \<forall>c \<in> consumers s b. t < c)"
    unfolding forward_def Ball_def split_paired_All taskGraph_iff by simp blast
  also have "\<dots> \<longleftrightarrow> (\<forall>t < length (taskUpdateBarriers s). \<forall>b \<in> taskUpdateBarriers s ! t. \<forall>c \<in> consumers s b. t < c)"
    (is "(\<forall>t. ?P t) \<longleftrightarrow> ?r")
  proof
    assume r: ?r
    show "\<forall>t. ?P t"
    proof
      fix t
      show "?P t" using r by (cases "t < length (taskUpdateBarriers s)") auto
    qed
  qed (metis entry_nth)
  finally show ?thesis by (simp add: list_all_iff Ball_def)
qed

lemma bi_indexed_code [code]:
  "bi_indexed s \<longleftrightarrow>
     list_all (\<lambda>i. taskIndexAttr (allTaskOps s ! i) = Some i) [0..<length (allTaskOps s)] \<and>
     list_all (\<lambda>i. barIndexAttr (allBarrierOps s ! i) = Some i) [0..<length (allBarrierOps s)]"
  by (auto simp: bi_indexed_def list_all_iff)

lemma withinSlots_code [code]:
  "withinSlots maxv s \<longleftrightarrow> list_all (\<lambda>b. barrierSlots s b \<le> maxv) [0..<length (allBarrierOps s)]"
  by (auto simp: withinSlots_def list_all_iff)

section \<open>A chain with a redundant barrier\<close>

definition dmaTask :: "nat list \<Rightarrow> nat list \<Rightarrow> ir_op" where
  "dmaTask ws us = TaskIR
     \<lparr>executorKind = DMA_NN, innerOp = Dma (Some 0) (Some DDR), waitOperands = map Some ws,
      updateOperands = map Some us, taskIndexAttr = None, syncTaskAttr = False\<rparr>"

definition barrierDecl :: "nat \<Rightarrow> ir_op" where
  "barrierDecl i = BarrierIR \<lparr>barId = i, barIndexAttr = None, hasNonTaskUser = False\<rparr>"

text \<open>
  Task 0 releases task 1 through barrier 0 and task 2 through barrier 1, task 1 releases task 2
  through barrier 1 as well: the update of barrier 1 by task 0 is redundant.
\<close>

definition chainFunc :: "ir_op list" where
  "chainFunc = [barrierDecl 10, barrierDecl 11, dmaTask [] [10, 11], dmaTask [10] [11], OtherIR, dmaTask [11] []]"

definition chainInfo :: barrier_info where
  "chainInfo = projr (buildBarrierMaps chainFunc)"

lemma chainInfo_ok:
  "bi_wf chainInfo" "forward chainInfo" "unsplit chainInfo" "countable_slots chainInfo"
  by code_simp+
lemma chainInfo_sync: "syncTasksIds chainInfo = []"
  by code_simp

definition chainProducers :: barrier_info where
  "chainProducers = projr (optimizeBarrierProducers 0 chainInfo)"

lemma chainInfo_producers: "optimizeBarrierProducers 0 chainInfo = Inr chainProducers"
  by code_simp

lemma chainInfo_producers_changed: "updates chainProducers 0 \<noteq> updates chainInfo 0"
  by code_simp

text \<open>Task 2 waits for both tasks before it, task 1 already waited for task 0.\<close>

definition joinInfo :: barrier_info where
  "joinInfo = projr (buildBarrierMaps
     [barrierDecl 10, barrierDecl 11, dmaTask [] [10], dmaTask [10] [11], dmaTask [10, 11] []])"

definition joinConsumers :: barrier_info where
  "joinConsumers = projr (optimizeBarrierConsumers 0 joinInfo)"

lemma joinInfo_ok:
  "bi_wf joinInfo" "forward joinInfo" "syncTasksIds joinInfo = []" "controlGraphBlockSize joinInfo = 0"
  by code_simp+

lemma joinInfo_consumers: "optimizeBarrierConsumers 0 joinInfo = Inr joinConsumers"
  by code_simp

lemma joinInfo_consumers_changed: "waits joinConsumers 2 \<noteq> waits joinInfo 2"
  by code_simp

text \<open>Two barriers with the same producer, merged into one of three slots.\<close>

definition forkInfo :: barrier_info where
  "forkInfo = projr (buildBarrierMaps
     [barrierDecl 10, barrierDecl 11, dmaTask [] [10, 11], dmaTask [10] [], dmaTask [11] []])"

definition forkOptimized :: barrier_info where
  "forkOptimized = projr (optimizeBarriers sorted_list_of_set 3 True forkInfo)"

lemma forkInfo_ok:
  "bi_wf forkInfo" "forward forkInfo" "countable_slots forkInfo" "withinSlots 3 forkInfo"
  by code_simp+

lemma forkInfo_optimized: "optimizeBarriers sorted_list_of_set 3 True forkInfo = Inr forkOptimized"
  by code_simp

lemma forkInfo_merged: "consumers forkOptimized 0 = {1, 2}"
  by code_simp

section \<open>A split graph\<close>

text \<open>
  Five tasks, the third one a sync task that ends the first block; the redundant update is in
  the first block.
\<close>

definition syncTask :: "nat list \<Rightarrow> nat list \<Rightarrow> ir_op" where
  "syncTask ws us = TaskIR
     \<lparr>executorKind = DMA_NN, innerOp = Dma (Some 0) (Some DDR), waitOperands = map Some ws,
      updateOperands = map Some us, taskIndexAttr = None, syncTaskAttr = True\<rparr>"

definition syncInfo :: barrier_info where
  "syncInfo = projr (buildBarrierMaps
     [barrierDecl 10, barrierDecl 11, barrierDecl 12,
      dmaTask [] [10, 11], dmaTask [10] [11], syncTask [11] [12], dmaTask [12] [], dmaTask [12] []])"

definition syncOptimized :: barrier_info where
  "syncOptimized = projr (optimizeBarriers sorted_list_of_set 64 False syncInfo)"

lemma syncInfo_optimized: "optimizeBarriers sorted_list_of_set 64 False syncInfo = Inr syncOptimized"
  by code_simp

lemma syncOptimized_changed: "updates syncOptimized 0 \<noteq> updates syncInfo 0"
  by code_simp

lemma syncInfo_ok:
  "bi_wf syncInfo" "forward syncInfo" "getControlGraphBlockCount syncInfo = 2" "syncOptimized \<noteq> syncInfo"
  using syncOptimized_changed by (code_simp, code_simp, code_simp, auto)

end
