(* ===== verification/Barrier_Properties.thy ===== *)
theory Barrier_Properties
  imports Barrier_Slots Barrier_Examples
begin

text \<open>
  The properties of the barrier optimisation, over the lemmas of the component theories.
\<close>

section \<open>Optimising barriers\<close>

text \<open>
  C1: On a control graph that is not split into blocks, with links that agree and tasks listed
  in execution order, \<open>optimizeBarriers\<close> does not throw, whatever the iteration order of
  the sets, and the tasks are ordered exactly as before.
\<close>

theorem optimizeBarriers_total_order:
  assumes "set_iteration iter" "bi_wf s" "forward s" "unsplit s" "countable_slots s"
  shows "\<exists>s'. optimizeBarriers iter maxv check s = Inr s' \<and> bi_wf s' \<and> (taskGraph s')\<^sup>+ = (taskGraph s)\<^sup>+"
  using optimizeBarriers_defined[OF assms] optimizeBarriers_keepsOrder[OF assms(1-3)]
  unfolding keepsOrder_def by blast

theorem optimizeBarriers_total_order_witness:
  "\<exists>s'. optimizeBarriers sorted_list_of_set 64 True chainInfo = Inr s' \<and> bi_wf s' \<and>
     (taskGraph s')\<^sup>+ = (taskGraph chainInfo)\<^sup>+"
  by (rule optimizeBarriers_total_order[OF ascending.set_iteration_axioms chainInfo_ok])

text \<open>
  C2: On a split control graph too, whenever \<open>optimizeBarriers\<close> returns, the two copies of
  the links agree and no ordering between two tasks was lost or added.
\<close>

theorem optimizeBarriers_split_order:
  assumes "set_iteration iter" "bi_wf s" "forward s" "optimizeBarriers iter maxv check s = Inr s'"
  shows "bi_wf s' \<and> (taskGraph s')\<^sup>+ = (taskGraph s)\<^sup>+"
  using optimizeBarriers_keepsOrder[OF assms] by (simp add: keepsOrder_def)

theorem optimizeBarriers_split_order_witness:
  "\<exists>s'. optimizeBarriers sorted_list_of_set 64 False syncInfo = Inr s' \<and> s' \<noteq> syncInfo \<and>
     getControlGraphBlockCount syncInfo = 2 \<and> (taskGraph s')\<^sup>+ = (taskGraph syncInfo)\<^sup>+"
  using optimizeBarriers_split_order[OF ascending.set_iteration_axioms syncInfo_ok(1,2) syncInfo_optimized]
    syncInfo_ok(3,4) syncInfo_optimized by blast

text \<open>
  C3: On a graph that is not split the first pass leaves to every task exactly the update
  barriers that no task after it in the order updates: it drops every redundant one and no
  other.
\<close>

theorem optimizeBarrierProducers_exact:
  assumes "bi_wf s" "forward s" "syncTasksIds s = []" "optimizeBarrierProducers 0 s = Inr s'"
  shows "updates s' t = {b \<in> updates s t. \<forall>d. (t, d) \<in> (taskGraph s)\<^sup>+ \<longrightarrow> b \<notin> updates s d}"
  by (rule producers_pass_minimal[OF assms])

theorem optimizeBarrierProducers_exact_witness:
  "\<exists>s'. optimizeBarrierProducers 0 chainInfo = Inr s' \<and> updates s' 0 \<noteq> updates chainInfo 0 \<and>
     updates s' 0 = {b \<in> updates chainInfo 0. \<forall>d. (0, d) \<in> (taskGraph chainInfo)\<^sup>+ \<longrightarrow> b \<notin> updates chainInfo d}"
  using optimizeBarrierProducers_exact[OF chainInfo_ok(1,2) chainInfo_sync chainInfo_producers, of 0]
    chainInfo_producers_changed chainInfo_producers by blast

text \<open>
  C4: On a graph without sync tasks the last pass leaves to every task exactly the wait
  barriers that no task before it in the order waits for.
\<close>

theorem optimizeBarrierConsumers_exact:
  assumes "bi_wf s" "forward s" "syncTasksIds s = []" "controlGraphBlockSize s = 0"
    and "optimizeBarrierConsumers 0 s = Inr s'"
  shows "waits s' t = {b \<in> waits s t. \<forall>d. (d, t) \<in> (taskGraph s)\<^sup>+ \<longrightarrow> b \<notin> waits s d}"
  by (rule consumers_pass_minimal[OF assms])

theorem optimizeBarrierConsumers_exact_witness:
  "\<exists>s'. optimizeBarrierConsumers 0 joinInfo = Inr s' \<and> waits s' 2 \<noteq> waits joinInfo 2 \<and>
     waits s' 2 = {b \<in> waits joinInfo 2. \<forall>d. (d, 2) \<in> (taskGraph joinInfo)\<^sup>+ \<longrightarrow> b \<notin> waits joinInfo d}"
  using optimizeBarrierConsumers_exact[OF joinInfo_ok(1-4) joinInfo_consumers, of 2]
    joinInfo_consumers_changed joinInfo_consumers by blast

text \<open>
  C5: With slot checking, \<open>optimizeBarriers\<close> never lifts a barrier over the bound: when
  the producers and consumers of every barrier use at most \<open>maxv\<close> slots before, they do
  after.
\<close>

theorem optimizeBarriers_keeps_slot_bound:
  assumes "set_iteration iter" "bi_wf s" "forward s" "countable_slots s" "withinSlots maxv s"
    and "optimizeBarriers iter maxv True s = Inr s'"
  shows "withinSlots maxv s'"
  by (rule optimizeBarriers_slots[OF assms])

theorem optimizeBarriers_keeps_slot_bound_witness:
  "\<exists>s'. optimizeBarriers sorted_list_of_set 3 True forkInfo = Inr s' \<and> consumers s' 0 = {1, 2} \<and> withinSlots 3 s'"
  using optimizeBarriers_keeps_slot_bound[OF ascending.set_iteration_axioms forkInfo_ok forkInfo_optimized]
    forkInfo_merged forkInfo_optimized by blast

end
