(* ===== verification/Barrier_Control.thy ===== *)
theory Barrier_Control
  imports Barrier_Masks Barrier_Optimize
begin

text \<open>
  Implicit ordering: the tasks of one hardware queue, the control map of a block (which task
  is known to run before which), and the checks that decide whether two barriers can be
  merged.
\<close>

section \<open>Queues of tasks\<close>

text \<open>\<open>std::map\<close> from queues to the tasks on them, in the order of the keys.\<close>

fun queueInsert :: "queue_type \<Rightarrow> nat set \<Rightarrow> (queue_type \<times> nat set) list \<Rightarrow> (queue_type \<times> nat set) list" where
  "queueInsert q S [] = [(q, S)]"
| "queueInsert q S (x # xs) =
     (if queueLess q (fst x) then (q, S) # x # xs
      else if q = fst x then x # xs
      else x # queueInsert q S xs)"

definition queueSet :: "queue_type \<Rightarrow> nat \<Rightarrow> (queue_type \<times> nat set) list \<Rightarrow> (queue_type \<times> nat set) list" where
  "queueSet q t m = map (\<lambda>(p, S). (p, if p = q then insert t S else S)) m"

text \<open>
  The number of DMA ports and the channels with independent link agents come from the module
  and the architecture.
\<close>

definition dmaQueues :: "nat \<Rightarrow> dma_channel list \<Rightarrow> queue_type list" where
  "dmaQueues dmaPortNum dmaChannels =
     concat (map (\<lambda>port. map (\<lambda>ch. (DMA_NN, getDMAQueueIdEncoding (int port) (Some ch))) dmaChannels) [0..<dmaPortNum])"

definition buildTaskQueueTypeMap ::
  "nat \<Rightarrow> dma_channel list \<Rightarrow> bool \<Rightarrow> barrier_info \<Rightarrow> barrier_error + barrier_info" where
  "buildTaskQueueTypeMap dmaPortNum dmaChannels considerTaskFifoDependency s =
     (let m0 = (if taskQueueTypeMap s = []
                then fold (\<lambda>q. queueInsert q {}) (dmaQueues dmaPortNum dmaChannels) []
                else taskQueueTypeMap s)
      in if considerTaskFifoDependency then
           bindE (foldE (\<lambda>op m. bindE (getIndexTask op) (\<lambda>t. bindE (getTaskQueueType op False) (\<lambda>q.
                     Inr (if q \<in> fst ` set m then queueSet q t m else m))))
                   (rev (allTaskOps s)) m0)
             (\<lambda>m. Inr (s\<lparr>taskQueueTypeMap := m\<rparr>))
         else Inr (s\<lparr>taskQueueTypeMap := m0\<rparr>))"

lemma keys_queueInsert: "fst ` set (queueInsert q S m) = insert q (fst ` set m)"
  by (induction m) auto

lemma keys_queueSet [simp]: "fst ` set (queueSet q t m) = fst ` set m"
  by (auto simp: queueSet_def image_iff) force+

lemma map_fst_queueSet [simp]: "map fst (queueSet q t m) = map fst m"
  by (auto simp: queueSet_def)

lemma queueInsert_sorted:
  "sorted_wrt queueLess (map fst m) \<Longrightarrow> sorted_wrt queueLess (map fst (queueInsert q S m))"
  by (induction m) (auto simp: image_iff keys_queueInsert queueLess_linear
      dest: queueLess_trans, (metis queueLess_linear queueLess_trans)+)

lemma queueInsert_empty: "\<forall>(p, S) \<in> set m. S = {} \<Longrightarrow> \<forall>(p, S) \<in> set (queueInsert q {} m). S = {}"
  by (induction m) auto

section \<open>The control map of a block\<close>

text \<open>
  \<open>find_first_in(from, to, true)\<close> searches \<open>[from, to)\<close>, the following
  \<open>find_next\<close> calls go up to and including \<open>to\<close>.
\<close>

definition copyBitsRange :: "nat set \<Rightarrow> nat \<Rightarrow> nat \<Rightarrow> nat list" where
  "copyBitsRange src lo hi =
     (let bits = elems (Set.filter (\<lambda>i. lo \<le> i \<and> i \<le> hi) src)
      in if bits = [] \<or> hd bits = hi then [] else map (\<lambda>i. i - lo) bits)"

definition fifoBits :: "nat list \<Rightarrow> nat set list \<Rightarrow> nat set list" where
  "fifoBits ts M =
     fold (\<lambda>i. fold (\<lambda>j. insert_at (ts ! i) (ts ! j)) [i + 1..<length ts]) [0..<length ts] M"

definition childBits :: "barrier_info \<Rightarrow> nat \<Rightarrow> nat \<Rightarrow> nat \<Rightarrow> nat set list \<Rightarrow> nat set list" where
  "childBits s st en t M =
     fold (\<lambda>b. fold (\<lambda>c M. if inRange st en c then insert_at (t - st) (c - st) M else M)
                 (elems (barrierConsumerMap s ! b)))
       (elems (taskUpdateBarriers s ! t)) M"

definition descendantBits :: "barrier_info \<Rightarrow> nat \<Rightarrow> nat \<Rightarrow> nat \<Rightarrow> nat set list \<Rightarrow> barrier_error + nat set list" where
  "descendantBits s st en t M =
     (if t = en \<and> isSyncPoint s t then Inr M
      else foldE (\<lambda>b. foldE (\<lambda>c M. guardE (inRange st en c) (ConsumerOutOfRange t)
                           (Inr (M[t - st := M ! (t - st) \<union> M ! (c - st)])))
                         (elems (barrierConsumerMap s ! b)))
             (elems (taskUpdateBarriers s ! t)) M)"

definition buildTaskControlMap :: "nat \<Rightarrow> bool \<Rightarrow> barrier_info \<Rightarrow> barrier_error + nat set list \<times> nat" where
  "buildTaskControlMap blk considerTaskFifoDependency s =
     guardE (blk < getControlGraphBlockCount s) (InvalidBlockIndex blk)
       (bindE (getControlGraphBlockTaskRange s blk True True) (\<lambda>(st, en).
         guardE (st \<le> en) EmptyTaskRange
           (let M0 = replicate (en - st + 1) {};
                M1 = (if considerTaskFifoDependency
                      then fold (\<lambda>item. fifoBits (copyBitsRange (snd item) st en)) (taskQueueTypeMap s) M0
                      else M0);
                M2 = fold (childBits s st en) (downto_list st en) M1
            in bindE (foldE (descendantBits s st en) (downto_list st en) M2) (\<lambda>M. Inr (M, st)))))"

definition controlPathExistsBetweenTasksInSameBlock ::
  "nat set list \<Rightarrow> nat \<Rightarrow> nat \<Rightarrow> bool \<Rightarrow> barrier_error + bool" where
  "controlPathExistsBetweenTasksInSameBlock taskControlMap a b biDirection =
     guardE (taskControlMap \<noteq> []) ControlMapEmpty
       (guardE (a < length taskControlMap) (InvalidTaskIndex a)
         (guardE (b < length taskControlMap) (InvalidTaskIndex b)
           (Inr (if biDirection then b \<in> taskControlMap ! a \<or> a \<in> taskControlMap ! b
                 else b \<in> taskControlMap ! a))))"

section \<open>Merging two barriers\<close>

definition inImplicitQueueTypeDependencyList :: "barrier_info \<Rightarrow> task_set \<Rightarrow> barrier_error + bool" where
  "inImplicitQueueTypeDependencyList s taskList =
     guardE (taskQueueTypeMap s \<noteq> []) TaskQueueMapEmpty
       (Inr (\<forall>t \<in> taskList. list_ex (\<lambda>item. t \<in> snd item) (taskQueueTypeMap s)))"

definition producersControlsAllConsumers ::
  "barrier_info \<Rightarrow> task_set \<Rightarrow> task_set \<Rightarrow> task_set \<Rightarrow> task_set list \<Rightarrow> barrier_error + bool" where
  "producersControlsAllConsumers s origProducers newConsumers origConsumers origWaitBarriersMap =
     (let consumersWithoutDirectControl = newConsumers - origConsumers
      in if consumersWithoutDirectControl = {} then Inr True
         else if origProducers = {} then Inr False
         else bindE (inImplicitQueueTypeDependencyList s consumersWithoutDirectControl) (\<lambda>c.
           if \<not> c then Inr False
           else bindE (inImplicitQueueTypeDependencyList s origProducers) (\<lambda>p.
             if \<not> p then Inr False
             else if Max origProducers \<ge> Min consumersWithoutDirectControl then Inr False
             else bindE (anyE (\<lambda>producer. anyE (\<lambda>consumer.
                      bindE (readVector origWaitBarriersMap producer) (\<lambda>a.
                      bindE (readVector origWaitBarriersMap consumer) (\<lambda>b. Inr (a = b))))
                    (elems consumersWithoutDirectControl)) (elems origProducers))
                  (\<lambda>parallel. Inr (\<not> parallel)))))"

definition canBarriersBeMerged ::
  "barrier_info \<Rightarrow> task_set \<Rightarrow> task_set \<Rightarrow> task_set \<Rightarrow> task_set \<Rightarrow> task_set list \<Rightarrow> barrier_error + bool" where
  "canBarriersBeMerged s producersA consumersA producersB consumersB origWaitBarriersMap =
     bindE (producersControlsAllConsumers s producersA consumersB consumersA origWaitBarriersMap) (\<lambda>ab.
       if \<not> ab then Inr False
       else bindE (producersControlsAllConsumers s producersB consumersA consumersB origWaitBarriersMap) (\<lambda>ba.
         if \<not> ba then Inr False else Inr True))"

definition haveSameImplicitDependencyTaskQueueType ::
  "(nat set \<Rightarrow> nat list) \<Rightarrow> barrier_info \<Rightarrow> task_set \<Rightarrow> barrier_error + queue_type option" where
  "haveSameImplicitDependencyTaskQueueType iter s taskInds =
     (if taskInds = {} then Inr None
      else guardE (taskQueueTypeMap s \<noteq> []) TaskQueueMapEmpty
        (Inr (case find (\<lambda>item. hd (iter taskInds) \<in> snd item) (taskQueueTypeMap s) of
                None \<Rightarrow> None
              | Some item \<Rightarrow>
                  if \<exists>t \<in> taskInds. t \<notin> snd item \<or> isSyncPoint s t then None else Some (fst item))))"

text \<open>The common barrier is an output argument; which one is found depends on the set's order.\<close>

definition hasBarrierDependency ::
  "(nat set \<Rightarrow> nat list) \<Rightarrow> barrier_info \<Rightarrow> nat \<Rightarrow> nat \<Rightarrow> barrier_error + nat option" where
  "hasBarrierDependency iter s taskOne taskTwo =
     bindE (getUpdateBarriers s taskOne) (\<lambda>us.
     bindE (getWaitBarriers s taskTwo) (\<lambda>ws.
       Inr (find (\<lambda>b. b \<in> ws) (iter us))))"

end
