(* ===== verification/Barrier_Control_Map.thy ===== *)
theory Barrier_Control_Map
  imports Barrier_Control Barrier_Optimize_Total
begin

text \<open>
  What the control map of a block says: bit \<open>c\<close> of task \<open>t\<close> is set exactly when
  barriers lead from \<open>t\<close> to a task that a barrier or its queue orders before \<open>c\<close>.
\<close>

section \<open>The bits of the children\<close>

lemma child_inner:
  "t - st < length M \<Longrightarrow>
    fold (\<lambda>c M. if inRange st en c then insert_at (t - st) (c - st) M else M) cs M =
    M[t - st := M ! (t - st) \<union> (\<lambda>c. c - st) ` {c \<in> set cs. inRange st en c}]"
proof (induction cs arbitrary: M)
  case Nil
  then show ?case by simp
next
  case (Cons c cs)
  have "{x \<in> set (c # cs). inRange st en x} =
      (if inRange st en c then insert c {x \<in> set cs. inRange st en x} else {x \<in> set cs. inRange st en x})" by auto
  with Cons show ?case by (auto simp: insert_at_def)
qed

lemma childBits_eq:
  assumes "t - st < length M" "stepOk (taskUpdateBarriers s) (barrierConsumerMap s) t"
  shows "childBits s st en t M =
    M[t - st := M ! (t - st) \<union> (\<lambda>c. c - st) ` {c \<in> nbrs (taskUpdateBarriers s) (barrierConsumerMap s) t. inRange st en c}]"
proof -
  have outer: "fold (\<lambda>b. fold (\<lambda>c M. if inRange st en c then insert_at (t - st) (c - st) M else M)
        (elems (barrierConsumerMap s ! b))) bs M =
      M[t - st := M ! (t - st) \<union> (\<lambda>c. c - st) ` {c \<in> (\<Union>b \<in> set bs. barrierConsumerMap s ! b). inRange st en c}]"
    if "\<And>b. b \<in> set bs \<Longrightarrow> finite (barrierConsumerMap s ! b)" "t - st < length M" for bs M
    using that
  proof (induction bs arbitrary: M)
    case (Cons b bs)
    have "{c \<in> (\<Union>x \<in> set (b # bs). barrierConsumerMap s ! x). inRange st en c} =
        {c \<in> barrierConsumerMap s ! b. inRange st en c} \<union> {c \<in> (\<Union>x \<in> set bs. barrierConsumerMap s ! x). inRange st en c}"
      by auto
    with Cons show ?case by (simp add: child_inner image_Un Un_assoc)
  qed simp
  then show ?thesis
    using assms outer[of "elems (taskUpdateBarriers s ! t)" M]
    by (auto simp: childBits_def stepOk_def nbrs_def)
qed

lemma child_walk:
  assumes "distinct ts" "\<And>t. t \<in> set ts \<Longrightarrow> stepOk (taskUpdateBarriers s) (barrierConsumerMap s) t \<and> st \<le> t \<and> t \<le> en"
    and "length M = Suc en - st"
  shows "length (fold (childBits s st en) ts M) = length M \<and>
    (\<forall>t. st \<le> t \<longrightarrow> t \<le> en \<longrightarrow> fold (childBits s st en) ts M ! (t - st) = M ! (t - st) \<union>
       (if t \<in> set ts then (\<lambda>c. c - st) ` {c \<in> nbrs (taskUpdateBarriers s) (barrierConsumerMap s) t. inRange st en c} else {}))"
  using assms
proof (induction ts arbitrary: M)
  case Nil
  then show ?case by simp
next
  case (Cons t ts)
  let ?B = "(\<lambda>c. c - st) ` {c \<in> nbrs (taskUpdateBarriers s) (barrierConsumerMap s) t. inRange st en c}"
  let ?M = "M[t - st := M ! (t - st) \<union> ?B]"
  have t: "t - st < length M" "st \<le> t" using Cons.prems(2)[of t] Cons.prems(3) by auto
  have step: "childBits s st en t M = ?M" using Cons.prems(2)[of t] t by (intro childBits_eq) auto
  have nth: "?M ! (u - st) = M ! (u - st) \<union> (if u = t then ?B else {})" if "st \<le> u" for u
    using that t by (cases "u = t") (auto simp: nth_list_update)
  have "length ?M = Suc en - st" using Cons.prems(3) by simp
  from Cons.IH[OF _ _ this] Cons.prems(1,2) Cons.prems(3) nth
  show ?case by (auto simp: step)
qed

section \<open>The walk over the descendants\<close>

lemma descendantBits_eq:
  assumes "t - st < length M" "st \<le> t" "stepOk (taskUpdateBarriers s) (barrierConsumerMap s) t"
  shows "descendantBits s st en t M =
    (let K = nbrs (taskUpdateBarriers s) (barrierConsumerMap s) t
     in if t = en \<and> isSyncPoint s t then Inr M
        else if \<forall>c \<in> K. inRange st en c then Inr (M[t - st := M ! (t - st) \<union> (\<Union>c \<in> K. M ! (c - st))])
        else Inl (ConsumerOutOfRange t))"
  using assms collect_outer[of t st M "elems (taskUpdateBarriers s ! t)" "barrierConsumerMap s" en "ConsumerOutOfRange t"]
  by (auto simp: descendantBits_def Let_def stepOk_def nbrs_def)

lemma descendant_walk:
  fixes s :: barrier_info
  defines "K \<equiv> nbrs (taskUpdateBarriers s) (barrierConsumerMap s)"
  assumes "distinct ts" "later (taskUpdateBarriers s) (barrierConsumerMap s) ts"
    and "\<And>t. t \<in> set ts \<Longrightarrow> stepOk (taskUpdateBarriers s) (barrierConsumerMap s) t \<and> st \<le> t \<and> t \<le> en"
    and "length M = Suc en - st" "foldE (descendantBits s st en) ts M = Inr M'"
  shows "length M' = length M \<and>
    (\<forall>t. st \<le> t \<longrightarrow> t \<notin> set ts \<longrightarrow> M' ! (t - st) = M ! (t - st)) \<and>
    (\<forall>t \<in> set ts. if t = en \<and> isSyncPoint s t then M' ! (t - st) = M ! (t - st)
       else (\<forall>c \<in> K t. inRange st en c) \<and> M' ! (t - st) = M ! (t - st) \<union> (\<Union>c \<in> K t. M' ! (c - st)))"
  using assms(2-)
proof (induction ts arbitrary: M)
  case Nil
  then show ?case by simp
next
  case (Cons t ts)
  let ?skip = "t = en \<and> isSyncPoint s t"
  from Cons.prems(3)[of t] Cons.prems(4)
  have t: "t - st < length M" "st \<le> t" "stepOk (taskUpdateBarriers s) (barrierConsumerMap s) t" by auto
  note step = descendantBits_eq[OF t, of en, folded K_def]
  let ?M1 = "if ?skip then M else M[t - st := M ! (t - st) \<union> (\<Union>c \<in> K t. M ! (c - st))]"
  from Cons.prems(5) obtain M1 where M1: "descendantBits s st en t M = Inr M1"
    and rest: "foldE (descendantBits s st en) ts M1 = Inr M'"
    by (auto simp: bindE_Inr)
  from M1 step have ok: "?skip \<or> (\<forall>c \<in> K t. inRange st en c)" and M1_eq: "M1 = ?M1"
    by (auto simp: Let_def split: if_splits)
  have other: "M1 ! (u - st) = M ! (u - st)" if "st \<le> u" "u \<noteq> t" for u
    unfolding M1_eq using that t(2) by (cases ?skip) auto
  have later: "later (taskUpdateBarriers s) (barrierConsumerMap s) ts" and tsep: "\<forall>u \<in> set ts. u \<notin> K t"
    using Cons.prems(2) by (auto simp: later_def K_def)
  have len: "length M1 = length M" by (simp add: M1_eq)
  have "length M1 = Suc en - st" using len Cons.prems(4) by simp
  from Cons.IH[OF _ later _ this rest] Cons.prems(1,3)
  have IH: "length M' = length M1"
    "\<And>u. st \<le> u \<Longrightarrow> u \<notin> set ts \<Longrightarrow> M' ! (u - st) = M1 ! (u - st)"
    "\<And>u. u \<in> set ts \<Longrightarrow> if u = en \<and> isSyncPoint s u then M' ! (u - st) = M1 ! (u - st)
       else (\<forall>c \<in> K u. inRange st en c) \<and> M' ! (u - st) = M1 ! (u - st) \<union> (\<Union>c \<in> K u. M' ! (c - st))"
    by auto
  have here: "M' ! (t - st) = M1 ! (t - st)" using IH(2)[of t] t(2) Cons.prems(1) by simp
  have kids: "M' ! (c - st) = M ! (c - st)" if "\<not> ?skip" "c \<in> K t" for c
  proof -
    have "c \<noteq> t" using that t(3) by (auto simp: stepOk_def K_def)
    moreover have "st \<le> c" using ok that by (auto simp: inRange_def)
    ultimately show ?thesis using IH(2)[of c] other[of c] tsep that by auto
  qed
  have first: "if ?skip then M' ! (t - st) = M ! (t - st)
      else (\<forall>c \<in> K t. inRange st en c) \<and> M' ! (t - st) = M ! (t - st) \<union> (\<Union>c \<in> K t. M' ! (c - st))"
    using here ok kids t(1) by (auto simp: M1_eq)
  have rest_eq: "M1 ! (u - st) = M ! (u - st)" if "u \<in> set ts" for u
    using that other[of u] Cons.prems(1) Cons.prems(3)[of u] by auto
  show ?case
  proof (intro conjI ballI allI impI)
    show "length M' = length M" using IH(1) len by simp
    show "M' ! (u - st) = M ! (u - st)" if "st \<le> u" "u \<notin> set (t # ts)" for u
      using that IH(2)[of u] other[of u] by simp
    show "if u = en \<and> isSyncPoint s u then M' ! (u - st) = M ! (u - st)
       else (\<forall>c \<in> K u. inRange st en c) \<and> M' ! (u - st) = M ! (u - st) \<union> (\<Union>c \<in> K u. M' ! (c - st))"
      if "u \<in> set (t # ts)" for u
    proof (cases "u = t")
      case True
      then show ?thesis using first by (simp only:)
    next
      case False
      then have "u \<in> set ts" using that by simp
      then show ?thesis using IH(3)[OF \<open>u \<in> set ts\<close>] rest_eq[OF \<open>u \<in> set ts\<close>] by (simp only:)
    qed
  qed
qed

section \<open>The queue edges\<close>

definition queueEdges :: "barrier_info \<Rightarrow> nat \<Rightarrow> nat \<Rightarrow> (nat \<times> nat) set" where
  "queueEdges s st en = {(a, b). a < b \<and> a \<in> {st..en} \<and> b \<in> {st..en} \<and>
     (\<exists>item \<in> set (taskQueueTypeMap s). a \<in> snd item \<and> b \<in> snd item)}"

lemma fifo_inner:
  "i < length M \<Longrightarrow> length (fold (\<lambda>j. insert_at i (f j)) js M) = length M \<and>
    (\<forall>k < length M. fold (\<lambda>j. insert_at i (f j)) js M ! k = (if k = i then M ! k \<union> f ` set js else M ! k))"
  by (induction js arbitrary: M) (auto simp: nth_insert_at)

lemma fifo_outer:
  assumes "\<And>i. i \<in> set is \<Longrightarrow> ts ! i < length M"
  shows "length (fold (\<lambda>i. fold (\<lambda>j. insert_at (ts ! i) (ts ! j)) [i + 1..<length ts]) is M) = length M \<and>
    (\<forall>k < length M. fold (\<lambda>i. fold (\<lambda>j. insert_at (ts ! i) (ts ! j)) [i + 1..<length ts]) is M ! k =
       M ! k \<union> {ts ! j |i j. i \<in> set is \<and> ts ! i = k \<and> i < j \<and> j < length ts})"
  using assms
proof (induction "is" arbitrary: M)
  case Nil
  then show ?case by simp
next
  case (Cons i "is")
  let ?M = "fold (\<lambda>j. insert_at (ts ! i) (ts ! j)) [i + 1..<length ts] M"
  have i: "length ?M = length M" "\<And>k. k < length M \<Longrightarrow>
      ?M ! k = (if k = ts ! i then M ! k \<union> (\<lambda>j. ts ! j) ` {i + 1..<length ts} else M ! k)"
    using fifo_inner[of "ts ! i" M "\<lambda>j. ts ! j" "[i + 1..<length ts]"] Cons.prems[of i] by auto
  have split: "{ts ! j |i' j. i' \<in> set (i # is) \<and> ts ! i' = k \<and> i' < j \<and> j < length ts} =
      (if k = ts ! i then (\<lambda>j. ts ! j) ` {i + 1..<length ts} else {}) \<union>
      {ts ! j |i j. i \<in> set is \<and> ts ! i = k \<and> i < j \<and> j < length ts}" for k
    by (rule set_eqI) (simp add: image_iff Bex_def Suc_le_eq, blast)
  have IH: "length (fold (\<lambda>i. fold (\<lambda>j. insert_at (ts ! i) (ts ! j)) [i + 1..<length ts]) is ?M) = length ?M"
    "\<And>k. k < length ?M \<Longrightarrow> fold (\<lambda>i. fold (\<lambda>j. insert_at (ts ! i) (ts ! j)) [i + 1..<length ts]) is ?M ! k =
       ?M ! k \<union> {ts ! j |i j. i \<in> set is \<and> ts ! i = k \<and> i < j \<and> j < length ts}"
    using Cons.IH[of ?M] Cons.prems i(1) by auto
  show ?case unfolding split using IH i by (simp add: Un_assoc del: upt_Suc)
qed

lemma fifoBits_eq:
  assumes "sorted_wrt (<) ts" "\<And>t. t \<in> set ts \<Longrightarrow> t < length M"
  shows "length (fifoBits ts M) = length M"
    "k < length M \<Longrightarrow> fifoBits ts M ! k = M ! k \<union> (if k \<in> set ts then {t \<in> set ts. k < t} else {})"
proof -
  note o = fifo_outer[of "[0..<length ts]" ts M]
  show "length (fifoBits ts M) = length M" using o assms(2) by (simp add: fifoBits_def)
  assume k: "k < length M"
  have "{ts ! j |i j. i \<in> set [0..<length ts] \<and> ts ! i = k \<and> i < j \<and> j < length ts} =
      (if k \<in> set ts then {t \<in> set ts. k < t} else {})" (is "?l = ?r")
  proof
    show "?l \<subseteq> ?r" using assms(1) by (auto simp: sorted_wrt_iff_nth_less)
    show "?r \<subseteq> ?l"
    proof
      fix t
      assume "t \<in> ?r"
      then have "k \<in> set ts" "t \<in> set ts" "k < t" by (auto split: if_splits)
      then obtain i j where ij: "i < length ts" "ts ! i = k" "j < length ts" "ts ! j = t" by (auto simp: in_set_conv_nth)
      moreover have "i < j"
        using ij \<open>k < t\<close> assms(1) by (metis linorder_neqE_nat not_less_iff_gr_or_eq sorted_wrt_iff_nth_less)
      ultimately show "t \<in> ?l" unfolding mem_Collect_eq set_upt by (metis atLeastLessThan_iff zero_le)
    qed
  qed
  with o assms(2) k show "fifoBits ts M ! k = M ! k \<union> (if k \<in> set ts then {t \<in> set ts. k < t} else {})"
    by (simp add: fifoBits_def)
qed

lemma copyBitsRange_props:
  assumes "finite S"
  shows "sorted_wrt (<) (copyBitsRange S st en)"
    "t \<in> set (copyBitsRange S st en) \<Longrightarrow> st + t \<in> S \<and> st + t \<le> en"
    "a \<in> S \<Longrightarrow> b \<in> S \<Longrightarrow> st \<le> a \<Longrightarrow> a < b \<Longrightarrow> b \<le> en \<Longrightarrow>
      a - st \<in> set (copyBitsRange S st en) \<and> b - st \<in> set (copyBitsRange S st en)"
proof -
  let ?F = "Set.filter (\<lambda>i. st \<le> i \<and> i \<le> en) S"
  have fin: "finite ?F" using assms by simp
  have sub: "sorted_wrt (<) (map (\<lambda>i. i - st) xs)" if "sorted_wrt (<) xs" "\<forall>x \<in> set xs. st \<le> x" for xs
    unfolding sorted_wrt_map by (rule sorted_wrt_mono_rel[OF _ that(1)]) (use that(2) in \<open>simp add: diff_less_mono\<close>)
  define xs where "xs = elems ?F"
  have mem: "x \<in> set xs \<longleftrightarrow> st \<le> x \<and> x \<le> en \<and> x \<in> S" for x
    unfolding xs_def using fin by (subst set_sorted_list_of_set) (simp_all add: conj_ac)
  have sorted: "sorted_wrt (<) xs" unfolding xs_def by (rule strict_sorted_list_of_set)
  have eq: "copyBitsRange S st en = (if xs = [] \<or> hd xs = en then [] else map (\<lambda>i. i - st) xs)"
    unfolding copyBitsRange_def Let_def xs_def ..
  show "sorted_wrt (<) (copyBitsRange S st en)"
    unfolding eq using sub[OF sorted] mem by simp
  show "t \<in> set (copyBitsRange S st en) \<Longrightarrow> st + t \<in> S \<and> st + t \<le> en"
  proof -
    assume "t \<in> set (copyBitsRange S st en)"
    then have "t \<in> (\<lambda>i. i - st) ` set xs" unfolding eq by (cases "xs = [] \<or> hd xs = en") (simp_all only: if_True if_False list.set set_map empty_iff)
    then obtain i where "i \<in> set xs" "t = i - st" by blast
    with mem[of i] show ?thesis by simp
  qed
  assume a: "a \<in> S" "b \<in> S" "st \<le> a" "a < b" "b \<le> en"
  then have in_F: "a \<in> set xs" "b \<in> set xs" by (simp_all add: mem)
  have "hd xs \<le> a" unfolding xs_def using fin a by (intro elems_hd_le) auto
  then have "xs \<noteq> []" "hd xs \<noteq> en" using in_F a by auto
  then show "a - st \<in> set (copyBitsRange S st en) \<and> b - st \<in> set (copyBitsRange S st en)"
    unfolding eq using in_F by simp
qed


definition queuesWf :: "barrier_info \<Rightarrow> bool" where
  "queuesWf s \<longleftrightarrow> list_all (\<lambda>item. \<forall>t \<in> snd item. t < length (allTaskOps s)) (taskQueueTypeMap s)"

lemma fifo_items:
  assumes "\<And>item. item \<in> set items \<Longrightarrow> finite (snd item)" "length M = Suc en - st"
  shows "length (fold (\<lambda>item. fifoBits (copyBitsRange (snd item) st en)) items M) = length M"
    "st \<le> t \<Longrightarrow> t \<le> en \<Longrightarrow> fold (\<lambda>item. fifoBits (copyBitsRange (snd item) st en)) items M ! (t - st) =
       M ! (t - st) \<union> {b - st |b. t < b \<and> b \<le> en \<and> (\<exists>item \<in> set items. t \<in> snd item \<and> b \<in> snd item)}"
proof -
  have "length (fold (\<lambda>item. fifoBits (copyBitsRange (snd item) st en)) items M) = length M \<and>
    (\<forall>t. st \<le> t \<longrightarrow> t \<le> en \<longrightarrow> fold (\<lambda>item. fifoBits (copyBitsRange (snd item) st en)) items M ! (t - st) =
       M ! (t - st) \<union> {b - st |b. t < b \<and> b \<le> en \<and> (\<exists>item \<in> set items. t \<in> snd item \<and> b \<in> snd item)})"
    using assms
  proof (induction items arbitrary: M)
    case Nil
    then show ?case by simp
  next
    case (Cons item items)
    let ?ts = "copyBitsRange (snd item) st en"
    have fin: "finite (snd item)" using Cons.prems(1) by simp
    note c = copyBitsRange_props[OF fin, where st = st and en = en]
    have lt: "t < length M" if "t \<in> set ?ts" for t using c(2)[OF that] Cons.prems(2) by arith
    note f = fifoBits_eq[OF c(1) lt]
    have here: "fifoBits ?ts M ! (t - st) = M ! (t - st) \<union> {b - st |b. t < b \<and> b \<le> en \<and> t \<in> snd item \<and> b \<in> snd item}"
      if t: "st \<le> t" "t \<le> en" for t
    proof -
      have "(if t - st \<in> set ?ts then {u \<in> set ?ts. t - st < u} else {}) =
          {b - st |b. t < b \<and> b \<le> en \<and> t \<in> snd item \<and> b \<in> snd item}" (is "?l = ?r")
      proof
        show "?l \<subseteq> ?r"
        proof
          fix u
          assume "u \<in> ?l"
          then have "t - st \<in> set ?ts" "u \<in> set ?ts" "t - st < u" by (auto split: if_splits)
          then show "u \<in> ?r" using c(2)[of "t - st"] c(2)[of u] t by (auto intro!: exI[of _ "st + u"])
        qed
        show "?r \<subseteq> ?l" using c(3)[of t] t by (auto simp: diff_less_mono)
      qed
      then show ?thesis using f(2)[of "t - st"] t Cons.prems(2) by simp
    qed
    have un: "{b - st |b. t < b \<and> b \<le> en \<and> (\<exists>i \<in> set (item # items). t \<in> snd i \<and> b \<in> snd i)} =
        {b - st |b. t < b \<and> b \<le> en \<and> t \<in> snd item \<and> b \<in> snd item} \<union>
        {b - st |b. t < b \<and> b \<le> en \<and> (\<exists>i \<in> set items. t \<in> snd i \<and> b \<in> snd i)}" for t
      by auto
    have "length (fifoBits ?ts M) = Suc en - st" using f(1) Cons.prems(2) by simp
    note IH = Cons.IH[OF _ this]
    show ?case
      unfolding un using IH Cons.prems(1) f(1) here by (simp add: Un_assoc)
  qed
  then show "length (fold (\<lambda>item. fifoBits (copyBitsRange (snd item) st en)) items M) = length M"
    "st \<le> t \<Longrightarrow> t \<le> en \<Longrightarrow> fold (\<lambda>item. fifoBits (copyBitsRange (snd item) st en)) items M ! (t - st) =
       M ! (t - st) \<union> {b - st |b. t < b \<and> b \<le> en \<and> (\<exists>item \<in> set items. t \<in> snd item \<and> b \<in> snd item)}"
    by blast+
qed

section \<open>What the map says\<close>

definition blockGraph :: "barrier_info \<Rightarrow> nat \<Rightarrow> nat \<Rightarrow> (nat \<times> nat) set" where
  "blockGraph s st en = taskGraph s \<inter> {st..en} \<times> {st..en}"

definition blockOrder :: "barrier_info \<Rightarrow> nat \<Rightarrow> nat \<Rightarrow> bool \<Rightarrow> (nat \<times> nat) set" where
  "blockOrder s st en fifo = blockGraph s st en \<union> (if fifo then queueEdges s st en else {})"

lemma blockOrder_range: "(a, b) \<in> blockOrder s st en fifo \<Longrightarrow> b \<in> {st..en}"
  by (auto simp: blockOrder_def blockGraph_def queueEdges_def split: if_splits)

lemma star_step:
  "(G\<^sup>* O H) `` {t} = H `` {t} \<union> (\<Union>c \<in> G `` {t}. (G\<^sup>* O H) `` {c})"
  by (auto elim: converse_rtranclE intro: converse_rtrancl_into_rtrancl)

lemma controlMap_bits:
  assumes w: "bi_wf s" and f: "forward s" and q: "queuesWf s"
    and run: "buildTaskControlMap blk fifo s = Inr (M, st)"
    and r: "getControlGraphBlockTaskRange s blk True True = Inr (st', en)"
    and en: "en < length (allTaskOps s)"
  shows "st' = st" "length M = Suc en - st"
    "t \<in> {st..en} \<Longrightarrow> M ! (t - st) = (\<lambda>c. c - st) ` (((blockGraph s st en)\<^sup>* O blockOrder s st en fifo) `` {t})"
proof -
  let ?K = "nbrs (taskUpdateBarriers s) (barrierConsumerMap s)"
  let ?M0 = "replicate (Suc en - st) {} :: nat set list"
  let ?M1 = "if fifo then fold (\<lambda>item. fifoBits (copyBitsRange (snd item) st en)) (taskQueueTypeMap s) ?M0 else ?M0"
  let ?M2 = "fold (childBits s st en) (downto_list st en) ?M1"
  from run r have st: "st' = st" "st \<le> en"
    and walk: "foldE (descendantBits s st en) (downto_list st en) ?M2 = Inr M"
    by (auto simp: buildTaskControlMap_def guardE_Inr bindE_Inr Let_def Suc_diff_le simp del: replicate_Suc)
  show "st' = st" by (rule st(1))
  have kids: "?K t = {c. (t, c) \<in> taskGraph s}" if "t \<in> {st..en}" for t
    using that en update_side.nbrs_kids[OF w, of t] by (auto simp: taskGraph_def dep_edges_iff validTask_def)
  have ok: "stepOk (taskUpdateBarriers s) (barrierConsumerMap s) t \<and> st \<le> t \<and> t \<le> en" if "t \<in> {st..en}" for t
  proof -
    have "t \<notin> dep_kids (updates s) (consumers s) t"
      using f by (auto simp: forward_def taskGraph_def dep_edges_iff[symmetric])
    with that en show ?thesis using update_side.stepOkI[OF w, of t] by (simp add: validTask_def)
  qed
  have later: "later (taskUpdateBarriers s) (barrierConsumerMap s) (downto_list st en)"
    unfolding later_def
  proof (rule sorted_wrt_mono_rel[OF _ sorted_wrt_downto])
    fix t u
    assume "t \<in> set (downto_list st en)" "u < (t :: nat)"
    then show "u \<notin> ?K t" using f kids[of t] by (fastforce simp: forward_def)
  qed
  have fin: "finite (snd item)" if "item \<in> set (taskQueueTypeMap s)" for item
  proof (rule finite_subset)
    show "snd item \<subseteq> {..<length (allTaskOps s)}" using q that by (auto simp: queuesWf_def list_all_iff)
  qed simp
  have M1: "length ?M1 = Suc en - st"
    "\<And>t. t \<in> {st..en} \<Longrightarrow> ?M1 ! (t - st) = (\<lambda>b. b - st) ` (if fifo then queueEdges s st en `` {t} else {})"
    using fifo_items[OF fin, of "taskQueueTypeMap s" ?M0 en st]
    by (auto simp: queueEdges_def image_iff simp del: replicate_Suc)
  have dl: "distinct (downto_list st en)" "set (downto_list st en) = {st..en}" by simp_all
  note cw = child_walk[OF dl(1) _ M1(1), of s]
  have M2: "length ?M2 = Suc en - st"
    "\<And>t. t \<in> {st..en} \<Longrightarrow> ?M2 ! (t - st) = (\<lambda>c. c - st) ` (blockOrder s st en fifo `` {t})"
  proof -
    have "t \<in> set (downto_list st en) \<Longrightarrow>
        stepOk (taskUpdateBarriers s) (barrierConsumerMap s) t \<and> st \<le> t \<and> t \<le> en" for t
      using ok dl(2) by blast
    then have cw': "length ?M2 = length ?M1 \<and> (\<forall>t. st \<le> t \<longrightarrow> t \<le> en \<longrightarrow> ?M2 ! (t - st) = ?M1 ! (t - st) \<union>
       (if t \<in> set (downto_list st en) then (\<lambda>c. c - st) ` {c \<in> ?K t. inRange st en c} else {}))"
      by (rule cw)
    note c1 = conjunct1[OF cw']
    have c2: "?M2 ! (t - st) = ?M1 ! (t - st) \<union> (\<lambda>c. c - st) ` {c \<in> ?K t. inRange st en c}" if t: "t \<in> {st..en}" for t
    proof -
      have "st \<le> t" "t \<le> en" "t \<in> set (downto_list st en)" using t dl(2) by auto
      from conjunct2[OF cw', rule_format, OF this(1,2), unfolded if_P[OF this(3)]] show ?thesis .
    qed
    show "length ?M2 = Suc en - st" using c1 M1(1) by simp
    fix t
    assume t: "t \<in> {st..en}"
    have "{c \<in> ?K t. inRange st en c} = blockGraph s st en `` {t}"
      using t by (auto simp: kids[OF t] blockGraph_def inRange_def)
    then show "?M2 ! (t - st) = (\<lambda>c. c - st) ` (blockOrder s st en fifo `` {t})"
      unfolding c2[OF t] M1(2)[OF t] by (simp only: blockOrder_def Un_Image image_Un Un_commute if_distrib[of "\<lambda>r. r `` {t}"] Image_empty1)
  qed
  have D: "length M = Suc en - st" "\<And>t. t \<in> {st..en} \<Longrightarrow>
      M ! (t - st) = ?M2 ! (t - st) \<union> (\<Union>c \<in> blockGraph s st en `` {t}. M ! (c - st))"
  proof -
    have "t \<in> set (downto_list st en) \<Longrightarrow>
        stepOk (taskUpdateBarriers s) (barrierConsumerMap s) t \<and> st \<le> t \<and> t \<le> en" for t
      using ok dl(2) by blast
    from descendant_walk[OF dl(1) later this M2(1) walk, unfolded dl(2)]
    have d: "length M = length ?M2" "\<And>t. t \<in> {st..en} \<Longrightarrow>
      if t = en \<and> isSyncPoint s t then M ! (t - st) = ?M2 ! (t - st)
      else (\<forall>c \<in> ?K t. inRange st en c) \<and> M ! (t - st) = ?M2 ! (t - st) \<union> (\<Union>c \<in> ?K t. M ! (c - st))"
      by blast+
    show "length M = Suc en - st" using d(1) M2(1) by simp
    fix t
    assume t: "t \<in> {st..en}"
    show "M ! (t - st) = ?M2 ! (t - st) \<union> (\<Union>c \<in> blockGraph s st en `` {t}. M ! (c - st))"
    proof (cases "t = en \<and> isSyncPoint s t")
      case True
      then have "blockGraph s st en `` {t} = {}" using f by (fastforce simp: blockGraph_def forward_def)
      then show ?thesis using d(2)[OF t, unfolded if_P[OF True]] by simp
    next
      case False
      with d(2)[OF t, unfolded if_not_P[OF False]] have "\<forall>c \<in> ?K t. inRange st en c" "M ! (t - st) = ?M2 ! (t - st) \<union> (\<Union>c \<in> ?K t. M ! (c - st))"
        by blast+
      moreover have "?K t = blockGraph s st en `` {t}"
        using t calculation(1) by (auto simp: kids[OF t] blockGraph_def inRange_def)
      ultimately show ?thesis by simp
    qed
  qed
  show "length M = Suc en - st" by (rule D(1))
  show "M ! (t - st) = (\<lambda>c. c - st) ` (((blockGraph s st en)\<^sup>* O blockOrder s st en fifo) `` {t})" if "t \<in> {st..en}" for t
    using that
  proof (induction "en - t" arbitrary: t rule: less_induct)
    case less
    have IH: "M ! (c - st) = (\<lambda>c. c - st) ` (((blockGraph s st en)\<^sup>* O blockOrder s st en fifo) `` {c})"
      if "c \<in> blockGraph s st en `` {t}" for c
    proof -
      have "t < c" "c \<in> {st..en}" using that f by (auto simp: blockGraph_def forward_def)
      with less show ?thesis by auto
    qed
    show ?case
      unfolding D(2)[OF less.prems] M2(2)[OF less.prems] by (subst star_step) (simp add: image_Un image_UN IH)
  qed
qed


lemma controlMap_defined:
  assumes w: "bi_wf s" and f: "forward s" and q: "queuesWf s" and u: "unsplit s"
  shows "\<exists>M. buildTaskControlMap 0 fifo s = Inr (M, 0)"
proof -
  let ?n = "length (allTaskOps s) - 1"
  let ?M0 = "replicate (Suc ?n) {} :: nat set list"
  let ?M1 = "if fifo then fold (\<lambda>item. fifoBits (copyBitsRange (snd item) 0 ?n)) (taskQueueTypeMap s) ?M0 else ?M0"
  let ?M2 = "fold (childBits s 0 ?n) (downto_list 0 ?n) ?M1"
  have n: "?n < length (allTaskOps s)" using u by (simp add: unsplit_def)
  have r: "getControlGraphBlockTaskRange s 0 True True = Inr (0, ?n)"
    using u by (intro single_block_range) (auto simp: unsplit_def)
  have ok: "stepOk (taskUpdateBarriers s) (barrierConsumerMap s) t" if "t \<in> {0..?n}" for t
  proof -
    have "t \<notin> dep_kids (updates s) (consumers s) t"
      using f by (auto simp: forward_def taskGraph_def dep_edges_iff[symmetric])
    with that n show ?thesis using update_side.stepOkI[OF w, of t] by (simp add: validTask_def)
  qed
  have kids: "inRange 0 ?n c" if "t \<in> {0..?n}" "c \<in> nbrs (taskUpdateBarriers s) (barrierConsumerMap s) t" for t c
    using that n update_side.nbrs_kids[OF w, of t] bi_wf_bounds(2)[OF w]
    by (fastforce simp: validTask_def dep_kids_def inRange_def)
  have fin: "finite (snd item)" if "item \<in> set (taskQueueTypeMap s)" for item
  proof (rule finite_subset)
    show "snd item \<subseteq> {..<length (allTaskOps s)}" using q that by (auto simp: queuesWf_def list_all_iff)
  qed simp
  have M1: "length ?M1 = Suc ?n - 0"
    using fifo_items(1)[OF fin, of "taskQueueTypeMap s" ?M0 ?n 0] by simp
  have M2: "length ?M2 = Suc ?n"
    using child_walk[OF distinct_walks(2) _ M1, of 0 ?n s] ok M1 by simp
  have "\<exists>M. foldE (descendantBits s 0 ?n) (downto_list 0 ?n) ?M2 = Inr M \<and> length M = Suc ?n"
  proof (rule foldE_defined[where P = "\<lambda>M. length M = Suc ?n", OF M2])
    fix t and M :: "nat set list"
    assume t: "t \<in> set (downto_list 0 ?n)" and M: "length M = Suc ?n"
    then have "t - 0 < length M" "t \<in> {0..?n}" by auto
    with descendantBits_eq[OF this(1) _ ok[OF this(2)], of ?n] kids[of t] M
    show "\<exists>M'. descendantBits s 0 ?n t M = Inr M' \<and> length M' = Suc ?n" by (simp add: Let_def)
  qed
  then obtain M where "foldE (descendantBits s 0 ?n) (downto_list 0 ?n) ?M2 = Inr M" by blast
  then have "buildTaskControlMap 0 fifo s = Inr (M, 0)"
    using u by (cases fifo) (simp_all add: buildTaskControlMap_def r getControlGraphBlockCount_def Let_def del: replicate_Suc)
  then show ?thesis by blast
qed

lemma unsplit_graph:
  assumes "bi_wf s" "unsplit s"
  shows "blockGraph s 0 (length (allTaskOps s) - 1) = taskGraph s"
proof -
  have "t \<le> length (allTaskOps s) - 1 \<and> c \<le> length (allTaskOps s) - 1" if "(t, c) \<in> taskGraph s" for t c
  proof -
    from that obtain b where b: "b \<in> updates s t" "c \<in> consumers s b" by (auto simp: taskGraph_iff)
    then have "t < length (allTaskOps s)" "c < length (allTaskOps s)"
      using bi_wf_bounds(2)[OF assms(1), of b] bi_wf_lengths[OF assms(1)] entry_in_range[OF b(1)] by auto
    then show ?thesis by arith
  qed
  then show ?thesis by (auto simp: blockGraph_def)
qed

lemma controlPath_iff:
  assumes w: "bi_wf s" and f: "forward s" and q: "queuesWf s" and u: "unsplit s"
    and run: "buildTaskControlMap 0 fifo s = Inr (M, 0)"
    and a: "a < length (allTaskOps s)" and b: "b < length (allTaskOps s)"
  shows "controlPathExistsBetweenTasksInSameBlock M a b False =
    Inr ((a, b) \<in> (taskGraph s)\<^sup>* O blockOrder s 0 (length (allTaskOps s) - 1) fifo)"
proof -
  have r: "getControlGraphBlockTaskRange s 0 True True = Inr (0, length (allTaskOps s) - 1)"
    using u by (intro single_block_range) (auto simp: unsplit_def)
  have n: "length (allTaskOps s) - 1 < length (allTaskOps s)" using a by simp
  note bits = controlMap_bits[OF w f q run r n]
  have len: "length M = length (allTaskOps s)" using bits(2) a by simp
  have "a \<in> {0..length (allTaskOps s) - 1}" using a by simp
  note here = bits(3)[OF this, unfolded unsplit_graph[OF w u]]
  have "M \<noteq> []" using len a by auto
  with len a b here show ?thesis
    by (simp add: controlPathExistsBetweenTasksInSameBlock_def Image_iff image_def)
qed

section \<open>Queues and merging\<close>

lemma producersControl_order:
  assumes "producersControlsAllConsumers s P C C0 orig = Inr True"
    and "finite P" "finite C" "p \<in> P" "c \<in> C" "\<And>p c. p \<in> P \<Longrightarrow> c \<in> C0 \<Longrightarrow> p < c"
  shows "p < c"
proof (cases "c \<in> C0")
  case True
  with assms(4,6) show ?thesis by blast
next
  case False
  then have "C - C0 \<noteq> {}" "P \<noteq> {}" using assms by auto
  with assms(1) have "Max P < Min (C - C0)"
    by (auto simp: producersControlsAllConsumers_def Let_def bindE_Inr split: if_splits)
  moreover have "p \<le> Max P" "Min (C - C0) \<le> c" using assms False by auto
  ultimately show ?thesis by simp
qed

lemma queue_of_iff:
  assumes "set_iteration iter" "finite ts" "ts \<noteq> {}"
    and disj: "\<And>i j. i \<in> set m \<Longrightarrow> j \<in> set m \<Longrightarrow> snd i \<inter> snd j \<noteq> {} \<Longrightarrow> i = j"
  shows "(case find (\<lambda>item. hd (iter ts) \<in> snd item) m of None \<Rightarrow> None
      | Some item \<Rightarrow> if \<exists>t \<in> ts. t \<notin> snd item \<or> P t then None else Some (fst item)) = Some q \<longleftrightarrow>
    (\<exists>S. (q, S) \<in> set m \<and> ts \<subseteq> S \<and> (\<forall>t \<in> ts. \<not> P t))"
    (is "?l = Some q \<longleftrightarrow> ?r")
proof -
  have hd: "hd (iter ts) \<in> ts"
    using set_iteration.set_iter[OF assms(1,2)] set_iteration.iter_nonempty[OF assms(1-3)] list.set_sel(1) by metis
  show ?thesis
  proof
    assume "?l = Some q"
    then obtain item where "find (\<lambda>item. hd (iter ts) \<in> snd item) m = Some item"
      "\<forall>t \<in> ts. t \<in> snd item \<and> \<not> P t" "q = fst item"
      by (auto split: option.splits if_splits)
    then show ?r by (metis find_Some_iff nth_mem prod.collapse subsetI)
  next
    assume ?r
    then obtain S where S: "(q, S) \<in> set m" "ts \<subseteq> S" "\<forall>t \<in> ts. \<not> P t" by blast
    with hd have "find (\<lambda>item. hd (iter ts) \<in> snd item) m \<noteq> None"
      by (auto simp: find_None_iff)
    then obtain item where item: "find (\<lambda>item. hd (iter ts) \<in> snd item) m = Some item" by blast
    then have "item \<in> set m" "hd (iter ts) \<in> snd item" by (auto simp: find_Some_iff)
    with disj[of item "(q, S)"] S hd have "item = (q, S)" by auto
    with item S show "?l = Some q" by auto
  qed
qed


lemma queue_step:
  "(if q \<in> fst ` set m then queueSet q t m else m) = map (\<lambda>(p, S). (p, S \<union> (if p = q then {t} else {}))) m"
  by (induction m) (auto simp: queueSet_def split: if_splits intro!: map_cong)

lemma queue_fold:
  assumes "foldE (\<lambda>op m. bindE (getIndexTask op) (\<lambda>t. bindE (getTaskQueueType op False) (\<lambda>q.
      Inr (if q \<in> fst ` set m then queueSet q t m else m)))) ops m = Inr m'"
  shows "m' = map (\<lambda>(p, S). (p, S \<union> {t. \<exists>op \<in> set ops. taskIndexAttr op = Some t \<and> getTaskQueueType op False = Inr p})) m"
  using assms
proof (induction ops arbitrary: m)
  case Nil
  then show ?case by (simp add: case_prod_unfold)
next
  case (Cons op ops)
  from Cons.prems obtain t q where t: "taskIndexAttr op = Some t" "getTaskQueueType op False = Inr q"
    and rest: "foldE (\<lambda>op m. bindE (getIndexTask op) (\<lambda>t. bindE (getTaskQueueType op False) (\<lambda>q.
      Inr (if q \<in> fst ` set m then queueSet q t m else m)))) ops
      (map (\<lambda>(p, S). (p, S \<union> (if p = q then {t} else {}))) m) = Inr m'"
    by (auto simp: bindE_Inr queue_step getIndexTask_def split: option.splits)
  have "{u. \<exists>o' \<in> set (op # ops). taskIndexAttr o' = Some u \<and> getTaskQueueType o' False = Inr p} =
      (if p = q then {t} else {}) \<union> {u. \<exists>o' \<in> set ops. taskIndexAttr o' = Some u \<and> getTaskQueueType o' False = Inr p}" for p
    using t by auto
  with Cons.IH[OF rest] show ?case by (auto simp: Un_assoc)
qed

lemma fold_queueInsert:
  "fst ` set (fold (\<lambda>q. queueInsert q {}) qs m) = set qs \<union> fst ` set m"
  "(\<forall>(p, S) \<in> set m. S = {}) \<Longrightarrow> \<forall>(p, S) \<in> set (fold (\<lambda>q. queueInsert q {}) qs m). S = {}"
  "sorted_wrt queueLess (map fst m) \<Longrightarrow> sorted_wrt queueLess (map fst (fold (\<lambda>q. queueInsert q {}) qs m))"
proof (induction qs arbitrary: m)
  case (Cons q qs)
  { case 1 show ?case using Cons.IH(1)[of "queueInsert q {} m"] by (simp add: keys_queueInsert) }
  { case 2 show ?case using Cons.IH(2)[OF queueInsert_empty[OF 2]] by simp }
  { case 3 show ?case using Cons.IH(3)[OF queueInsert_sorted[OF 3]] by simp }
qed auto

lemma buildTaskQueueTypeMap_entries:
  assumes ix: "bi_indexed s" and empty: "taskQueueTypeMap s = []"
    and run: "buildTaskQueueTypeMap ports channels True s = Inr s'"
  shows "(q, S) \<in> set (taskQueueTypeMap s') \<longleftrightarrow>
    q \<in> set (dmaQueues ports channels) \<and>
    S = {t. t < length (allTaskOps s) \<and> getTaskQueueType (allTaskOps s ! t) False = Inr q}"
    and "sorted_wrt queueLess (map fst (taskQueueTypeMap s'))"
proof -
  let ?m0 = "fold (\<lambda>q. queueInsert q {}) (dmaQueues ports channels) []"
  from run obtain m where f: "foldE (\<lambda>op m. bindE (getIndexTask op) (\<lambda>t. bindE (getTaskQueueType op False) (\<lambda>q.
      Inr (if q \<in> fst ` set m then queueSet q t m else m)))) (rev (allTaskOps s)) ?m0 = Inr m"
    and s': "taskQueueTypeMap s' = m"
    by (auto simp: buildTaskQueueTypeMap_def empty bindE_Inr Let_def)
  have tasks: "{t. \<exists>op \<in> set (rev (allTaskOps s)). taskIndexAttr op = Some t \<and> getTaskQueueType op False = Inr p} =
      {t. t < length (allTaskOps s) \<and> getTaskQueueType (allTaskOps s ! t) False = Inr p}" for p
    using ix by (auto simp: bi_indexed_def in_set_conv_nth[of _ "allTaskOps s"] intro!: bexI[OF _ nth_mem])
  have m: "m = map (\<lambda>(p, S). (p, S \<union> {t. t < length (allTaskOps s) \<and> getTaskQueueType (allTaskOps s ! t) False = Inr p})) ?m0"
    using queue_fold[OF f] unfolding tasks .
  have keys: "fst ` set ?m0 = set (dmaQueues ports channels)" and sets: "\<forall>(p, S) \<in> set ?m0. S = {}"
    using fold_queueInsert(1)[of "dmaQueues ports channels" "[]"] fold_queueInsert(2)[of "[]" "dmaQueues ports channels"] by auto
  show "(q, S) \<in> set (taskQueueTypeMap s') \<longleftrightarrow> q \<in> set (dmaQueues ports channels) \<and>
    S = {t. t < length (allTaskOps s) \<and> getTaskQueueType (allTaskOps s ! t) False = Inr q}"
  proof -
    have *: "(q, S) \<in> set m \<longleftrightarrow> (\<exists>S0. (q, S0) \<in> set ?m0 \<and>
        S = S0 \<union> {t. t < length (allTaskOps s) \<and> getTaskQueueType (allTaskOps s ! t) False = Inr q})"
      unfolding m set_map image_iff by (cases q) (auto simp: Bex_def)
    have e: "S0 = {}" if "(q, S0) \<in> set ?m0" for S0 using sets that by blast
    have k: "(\<exists>S0. (q, S0) \<in> set ?m0) \<longleftrightarrow> q \<in> set (dmaQueues ports channels)"
      unfolding keys[symmetric] by force
    show ?thesis
    proof (cases "\<exists>S0. (q, S0) \<in> set ?m0")
      case True
      then have "(q, {}) \<in> set ?m0" using e by blast
      then show ?thesis unfolding s' * k[symmetric] using e by (simp add: True) blast
    next
      case False
      then show ?thesis unfolding s' * k[symmetric] by blast
    qed
  qed
  have "map fst m = map fst ?m0" unfolding m by (simp add: case_prod_unfold comp_def)
  then show "sorted_wrt queueLess (map fst (taskQueueTypeMap s'))"
    using fold_queueInsert(3)[of "[]" "dmaQueues ports channels"] by (simp add: s')
qed

end
