(* ===== verification/Barrier_Control_Properties.thy ===== *)
theory Barrier_Control_Properties
  imports Barrier_Control_Map Barrier_Examples
begin

text \<open>The properties of the queues, the control map and the merge conditions.\<close>

definition queueInfo :: barrier_info where
  "queueInfo = projr (buildTaskQueueTypeMap 1 [DDR, CMX] True chainInfo)"

lemma queueInfo_run: "buildTaskQueueTypeMap 1 [DDR, CMX] True chainInfo = Inr queueInfo"
  by code_simp

text \<open>
  C6: \<open>buildTaskQueueTypeMap\<close> gives, in the order of the keys, one entry per DMA port and
  channel, which holds exactly the tasks that run on this queue.
\<close>

theorem buildTaskQueueTypeMap_exact:
  assumes "bi_indexed s" "taskQueueTypeMap s = []" "buildTaskQueueTypeMap ports channels True s = Inr s'"
  shows "sorted_wrt queueLess (map fst (taskQueueTypeMap s')) \<and>
    (\<forall>q S. (q, S) \<in> set (taskQueueTypeMap s') \<longleftrightarrow>
       q \<in> set (dmaQueues ports channels) \<and>
       S = {t. t < length (allTaskOps s) \<and> getTaskQueueType (allTaskOps s ! t) False = Inr q})"
  using buildTaskQueueTypeMap_entries[OF assms] by blast

theorem buildTaskQueueTypeMap_exact_witness:
  "((DMA_NN, 0), {0, 1, 2}) \<in> set (taskQueueTypeMap queueInfo) \<and>
   {0, 1, 2} = {t. t < length (allTaskOps chainInfo) \<and> getTaskQueueType (allTaskOps chainInfo ! t) False = Inr (DMA_NN, 0)}"
proof -
  have ok: "bi_indexed chainInfo" "taskQueueTypeMap chainInfo = []" by code_simp+
  have "((DMA_NN, 0), {0, 1, 2}) \<in> set (taskQueueTypeMap queueInfo)" by code_simp
  moreover from this buildTaskQueueTypeMap_exact[OF ok queueInfo_run, THEN conjunct2, rule_format, of "(DMA_NN, 0)" "{0, 1, 2}"]
  have "{0, 1, 2} = {t. t < length (allTaskOps chainInfo) \<and> getTaskQueueType (allTaskOps chainInfo ! t) False = Inr (DMA_NN, 0)}"
    by (simp only:)
  ultimately show ?thesis by (rule conjI)
qed

text \<open>
  C7: On a graph that is not split \<open>buildTaskControlMap\<close> returns a map for which
  \<open>controlPathExistsBetweenTasksInSameBlock\<close> answers exactly: barriers lead from the first
  task to one that directly releases the second or, with queues considered, precedes it on its
  queue. In particular a positive answer is never wrong, and without queues it is reachability.
\<close>

theorem taskControlMap_exact:
  assumes "bi_wf s" "forward s" "queuesWf s" "unsplit s"
  shows "\<exists>M. buildTaskControlMap 0 fifo s = Inr (M, 0) \<and>
    (\<forall>a b. a < length (allTaskOps s) \<and> b < length (allTaskOps s) \<longrightarrow>
       controlPathExistsBetweenTasksInSameBlock M a b False =
         Inr ((a, b) \<in> (taskGraph s)\<^sup>* O (taskGraph s \<union>
            (if fifo then queueEdges s 0 (length (allTaskOps s) - 1) else {}))))"
proof -
  from controlMap_defined[OF assms] obtain M where M: "buildTaskControlMap 0 fifo s = Inr (M, 0)" ..
  with controlPath_iff[OF assms M, unfolded blockOrder_def unsplit_graph[OF assms(1,4)]] show ?thesis by blast
qed

theorem taskControlMap_exact_witness:
  "\<exists>M. buildTaskControlMap 0 True queueInfo = Inr (M, 0) \<and>
     controlPathExistsBetweenTasksInSameBlock M 0 2 False = Inr True \<and>
     (0, 2) \<in> (taskGraph queueInfo)\<^sup>* O (taskGraph queueInfo \<union> queueEdges queueInfo 0 2)"
proof -
  have ok: "bi_wf queueInfo" "forward queueInfo" "queuesWf queueInfo" "unsplit queueInfo"
    "length (allTaskOps queueInfo) = 3" by code_simp+
  from taskControlMap_exact[OF ok(1-4), of True] obtain M where M: "buildTaskControlMap 0 True queueInfo = Inr (M, 0)"
    "controlPathExistsBetweenTasksInSameBlock M 0 2 False =
      Inr ((0, 2) \<in> (taskGraph queueInfo)\<^sup>* O (taskGraph queueInfo \<union> queueEdges queueInfo 0 2))"
    by (auto simp: ok(5))
  have "map_sum id (\<lambda>(M, _). controlPathExistsBetweenTasksInSameBlock M 0 2 False)
      (buildTaskControlMap 0 True queueInfo) = Inr (Inr True)"
    by code_simp
  with M show ?thesis by simp
qed

text \<open>
  C8: When \<open>canBarriersBeMerged\<close> accepts two barriers whose links go forward, every
  producer of the two precedes every consumer of the two, so one barrier in their place keeps
  the tasks in execution order.
\<close>

theorem canBarriersBeMerged_forward:
  assumes "canBarriersBeMerged s PA CA PB CB orig = Inr True"
    and "finite PA" "finite CA" "finite PB" "finite CB"
    and "\<forall>p \<in> PA. \<forall>c \<in> CA. p < c" "\<forall>p \<in> PB. \<forall>c \<in> CB. p < c"
  shows "\<forall>p \<in> PA \<union> PB. \<forall>c \<in> CA \<union> CB. p < c"
proof -
  from assms(1) have ab: "producersControlsAllConsumers s PA CB CA orig = Inr True"
    and ba: "producersControlsAllConsumers s PB CA CB orig = Inr True"
    by (auto simp: canBarriersBeMerged_def bindE_Inr split: if_splits)
  have "p < c" if "p \<in> PA" "c \<in> CB" for p c
    using producersControl_order[OF ab assms(2,5) that] assms(6) by blast
  moreover have "p < c" if "p \<in> PB" "c \<in> CA" for p c
    using producersControl_order[OF ba assms(4,3) that] assms(7) by blast
  ultimately show ?thesis using assms(6,7) by blast
qed

theorem canBarriersBeMerged_forward_witness:
  "canBarriersBeMerged (queueInfo\<lparr>taskQueueTypeMap := [((DMA_NN, 0), {0, 1, 2, 3})]\<rparr>)
     {0} {2, 3} {1} {2} [{}, {}, {0, 1}, {0}] = Inr True \<and> (1 :: nat) < 3 \<and> (0 :: nat) < 2"
proof -
  have run: "canBarriersBeMerged (queueInfo\<lparr>taskQueueTypeMap := [((DMA_NN, 0), {0, 1, 2, 3})]\<rparr>)
      {0} {2, 3} {1} {2} [{}, {}, {0, 1}, {0}] = Inr True"
    by code_simp
  have "\<forall>p \<in> {0} \<union> {1 :: nat}. \<forall>c \<in> {2, 3} \<union> {2 :: nat}. p < c"
    by (rule canBarriersBeMerged_forward[OF run]) auto
  with run show ?thesis by blast
qed

text \<open>
  C9: With disjoint queues the answer of \<open>haveSameImplicitDependencyTaskQueueType\<close> does not
  depend on which task the set yields first: it is the queue that holds all the tasks, provided
  none of them is a sync point.
\<close>

theorem sameQueue_iff:
  assumes "set_iteration iter" "finite ts" "ts \<noteq> {}" "taskQueueTypeMap s \<noteq> []"
    and "\<And>i j. i \<in> set (taskQueueTypeMap s) \<Longrightarrow> j \<in> set (taskQueueTypeMap s) \<Longrightarrow> snd i \<inter> snd j \<noteq> {} \<Longrightarrow> i = j"
  shows "haveSameImplicitDependencyTaskQueueType iter s ts = Inr (Some q) \<longleftrightarrow>
    (\<exists>S. (q, S) \<in> set (taskQueueTypeMap s) \<and> ts \<subseteq> S \<and> (\<forall>t \<in> ts. \<not> isSyncPoint s t))"
  using queue_of_iff[OF assms(1-3,5), where P = "isSyncPoint s" and q = q] assms(3,4)
  by (simp add: haveSameImplicitDependencyTaskQueueType_def)

theorem sameQueue_iff_witness:
  "haveSameImplicitDependencyTaskQueueType sorted_list_of_set queueInfo {0, 2} = Inr (Some (DMA_NN, 0)) \<and>
   (\<exists>S. ((DMA_NN, 0), S) \<in> set (taskQueueTypeMap queueInfo) \<and> {0, 2} \<subseteq> S \<and> \<not> isSyncPoint queueInfo 0)"
proof -
  have run: "haveSameImplicitDependencyTaskQueueType sorted_list_of_set queueInfo {0, 2} = Inr (Some (DMA_NN, 0))"
    by code_simp
  have m: "taskQueueTypeMap queueInfo = [((DMA_NN, 0), {0, 1, 2}), ((DMA_NN, 1), {})]" by code_simp
  have disj: "i = j" if "i \<in> set (taskQueueTypeMap queueInfo)" "j \<in> set (taskQueueTypeMap queueInfo)"
    "snd i \<inter> snd j \<noteq> {}" for i j
    using that by (auto simp: m)
  have "{0, 2} \<noteq> {}" "finite {0, 2 :: nat}" "taskQueueTypeMap queueInfo \<noteq> []" using m by simp_all
  from sameQueue_iff[OF ascending.set_iteration_axioms this(2,1,3) disj, of "(DMA_NN, 0)"] run
  show ?thesis by blast
qed

end
