(* ===== verification/Barrier_Variants.thy ===== *)
theory Barrier_Variants
  imports Barrier_Slots
begin

text \<open>
  Splitting barriers whose producers or consumers use too many slots: batches of tasks that fit
  (\<open>createLegalVariantBatches\<close>), one new barrier per batch, and the two walks of
  \<open>splitBarriersWithExceedingVariantCount\<close>.
\<close>

section \<open>Batches\<close>

definition batchStep ::
  "barrier_info \<Rightarrow> nat \<Rightarrow> nat \<Rightarrow> nat set list \<times> nat \<Rightarrow> barrier_error + nat set list \<times> nat" where
  "batchStep s availableSlots t = (\<lambda>(legalBatches, totalSlotCount).
     bindE (slotsOfTask s t) (\<lambda>numSlotsUsedByTask.
       (let (batches, tot) = (if totalSlotCount + numSlotsUsedByTask \<le> availableSlots
                                then (legalBatches, totalSlotCount) else (legalBatches @ [{}], 0))
        in Inr (insert_at (length batches - 1) t batches, tot + numSlotsUsedByTask))))"

definition createLegalVariantBatches :: "barrier_info \<Rightarrow> task_set \<Rightarrow> nat \<Rightarrow> barrier_error + nat set list" where
  "createLegalVariantBatches s tasks availableSlots =
     bindE (foldE (batchStep s availableSlots) (elems tasks) ([{}], 0)) (\<lambda>(batches, _). Inr batches)"

section \<open>One barrier per batch\<close>

definition linkNewBarrier :: "task_set \<Rightarrow> task_set \<Rightarrow> barrier_info \<Rightarrow> barrier_error + barrier_info" where
  "linkNewBarrier ps cs s =
     (let (s1, i) = addNewBarrier (createBarrier s) s
      in bindE (foldE (\<lambda>t s. bindE (slotsOfTask s t) (\<lambda>_. Inr (addProducer i t s))) (elems ps) s1)
           (foldE (\<lambda>t s. bindE (slotsOfTask s t) (\<lambda>_. Inr (addConsumer i t s))) (elems cs)))"

text \<open>
  \<open>body\<close> lists the barriers in the order of their operations in the function; a new
  operation goes right before the one that is split.
\<close>

definition insertBefore :: "nat \<Rightarrow> nat list \<Rightarrow> nat list \<Rightarrow> nat list" where
  "insertBefore b new body = concat (map (\<lambda>x. if x = b then new @ [x] else [x]) body)"

definition splitProducersOf ::
  "nat \<Rightarrow> nat \<Rightarrow> barrier_info \<times> nat list \<Rightarrow> barrier_error + barrier_info \<times> nat list" where
  "splitProducersOf availableSlots b = (\<lambda>(s, body).
     bindE (getBarrierProducers s b) (\<lambda>barrierProducers.
     bindE (getBarrierConsumers s b) (\<lambda>barrierConsumers.
     bindE (createLegalVariantBatches s barrierProducers availableSlots) (\<lambda>batches.
     bindE (foldE (\<lambda>batch. linkNewBarrier batch barrierConsumers) batches s) (\<lambda>s1.
       Inr (resetBarrier b s1,
            insertBefore b [length (allBarrierOps s)..<length (allBarrierOps s1)] body))))))"

definition splitConsumersOf ::
  "nat \<Rightarrow> nat \<Rightarrow> barrier_info \<times> nat list \<Rightarrow> barrier_error + barrier_info \<times> nat list" where
  "splitConsumersOf availableSlots b = (\<lambda>(s, body).
     bindE (getBarrierConsumers s b) (\<lambda>barrierConsumers.
     bindE (getBarrierProducers s b) (\<lambda>barrierProducers.
     bindE (createLegalVariantBatches s barrierConsumers availableSlots) (\<lambda>batches.
     bindE (foldE (\<lambda>batch. linkNewBarrier barrierProducers batch) batches s) (\<lambda>s1.
       Inr (resetBarrier b s1,
            insertBefore b [length (allBarrierOps s)..<length (allBarrierOps s1)] body))))))"

text \<open>The walks see the operations that were there when they started.\<close>

definition visitProducers ::
  "nat \<Rightarrow> nat \<Rightarrow> bool \<Rightarrow> nat \<Rightarrow> barrier_info \<times> nat list \<Rightarrow> barrier_error + barrier_info \<times> nat list" where
  "visitProducers availableSlots maxSlotsSum maxSlotsSumLimitEnabled b st =
     bindE (getProducerSlotCount (fst st) b) (\<lambda>producerNum.
     bindE (getConsumerSlotCount (fst st) b) (\<lambda>consumerNum.
       if maxSlotsSumLimitEnabled \<and> producerNum + consumerNum \<le> maxSlotsSum then Inr st
       else if producerNum \<le> availableSlots then Inr st
       else splitProducersOf availableSlots b st))"

definition splitBarrierProducers ::
  "nat \<Rightarrow> nat \<Rightarrow> bool \<Rightarrow> barrier_info \<times> nat list \<Rightarrow> barrier_error + barrier_info \<times> nat list" where
  "splitBarrierProducers availableSlots maxSlotsSum maxSlotsSumLimitEnabled st =
     foldE (visitProducers availableSlots maxSlotsSum maxSlotsSumLimitEnabled) (snd st) st"

definition visitConsumers ::
  "nat \<Rightarrow> nat \<Rightarrow> bool \<Rightarrow> nat \<Rightarrow> barrier_info \<times> nat list \<Rightarrow> barrier_error + barrier_info \<times> nat list" where
  "visitConsumers availableSlots maxSlotsSum maxSlotsSumLimitEnabled b st =
     bindE (getProducerSlotCount (fst st) b) (\<lambda>producerNum.
     bindE (getConsumerSlotCount (fst st) b) (\<lambda>consumerNum.
       if maxSlotsSumLimitEnabled \<and> producerNum + consumerNum \<le> maxSlotsSum then Inr st
       else if consumerNum \<le> availableSlots then Inr st
       else splitConsumersOf availableSlots b st))"

definition splitBarrierConsumers ::
  "nat \<Rightarrow> nat \<Rightarrow> bool \<Rightarrow> barrier_info \<times> nat list \<Rightarrow> barrier_error + barrier_info \<times> nat list" where
  "splitBarrierConsumers availableSlots maxSlotsSum maxSlotsSumLimitEnabled st =
     foldE (visitConsumers availableSlots maxSlotsSum maxSlotsSumLimitEnabled) (snd st) st"

definition splitBarriersWithExceedingVariantCount ::
  "nat \<Rightarrow> nat \<Rightarrow> nat \<Rightarrow> barrier_info \<times> nat list \<Rightarrow> barrier_error + barrier_info \<times> nat list" where
  "splitBarriersWithExceedingVariantCount availableSlots maxSlotsSum maxAvailableSlots st =
     (let maxSlotsSumLimitEnabled = maxSlotsSum < maxAvailableSlots
      in bindE (splitBarrierProducers availableSlots maxSlotsSum maxSlotsSumLimitEnabled st)
           (splitBarrierConsumers availableSlots maxSlotsSum maxSlotsSumLimitEnabled))"

section \<open>What the batches are\<close>

text \<open>
  A batch sequence for the tasks seen so far: it covers them, earlier batches hold earlier
  tasks, and a batch is over the bound only when it is one task that is itself over it.
\<close>

definition fits :: "(nat \<Rightarrow> nat) \<Rightarrow> nat \<Rightarrow> nat set \<Rightarrow> bool" where
  "fits w cap B \<longleftrightarrow> (\<Sum>t \<in> B. w t) \<le> cap \<or> (\<exists>t. B = {t} \<and> cap < w t)"

definition batchesOf :: "(nat \<Rightarrow> nat) \<Rightarrow> nat \<Rightarrow> nat list \<Rightarrow> nat set list \<Rightarrow> nat \<Rightarrow> bool" where
  "batchesOf w cap ts bs tot \<longleftrightarrow>
     bs \<noteq> [] \<and> (\<forall>B \<in> set bs. finite B \<and> fits w cap B) \<and> \<Union> (set bs) = set ts \<and>
     sorted_wrt (\<lambda>A B. \<forall>a \<in> A. \<forall>b \<in> B. a < b) bs \<and> tot = (\<Sum>t \<in> last bs. w t)"

lemma insert_at_last: "insert_at (length xs) t (xs @ [B]) = xs @ [insert t B]"
  by (simp add: insert_at_def)

lemma insert_at_last2: "insert_at (Suc (length xs)) t (xs @ [A, B]) = xs @ [A, insert t B]"
  using insert_at_last[of "xs @ [A]" t B] by simp

lemma batchesOf_step:
  assumes b: "batchesOf w cap ts bs tot" and t: "\<forall>u \<in> set ts. u < t"
    and bs': "bs' = (if tot + w t \<le> cap then bs else bs @ [{}])"
    and tot': "tot' = (if tot + w t \<le> cap then tot else 0)"
  shows "batchesOf w cap (ts @ [t]) (insert_at (length bs' - 1) t bs') (tot' + w t)"
proof -
  have t_new: "t \<notin> \<Union> (set bs)" using b t by (auto simp: batchesOf_def)
  obtain xs B where bsxs: "bs = xs @ [B]" using b by (metis append_butlast_last_id batchesOf_def)
  note facts = b[unfolded batchesOf_def bsxs]
  show ?thesis
  proof (cases "tot + w t \<le> cap")
    case True
    have "t \<notin> B" "finite B" using facts t_new by (auto simp: bsxs)
    then have "(\<Sum>u \<in> insert t B. w u) = tot + w t" using facts by simp
    with True facts t show ?thesis
      by (auto simp: insert_at_last insert_at_last2 bs' tot' batchesOf_def bsxs fits_def sorted_wrt_append)
  next
    case False
    have "w t \<le> cap \<or> cap < w t" by arith
    with False facts t show ?thesis
      by (auto simp: insert_at_last insert_at_last2 bs' tot' batchesOf_def bsxs fits_def sorted_wrt_append)
  qed
qed

lemma batch_fold:
  assumes "\<And>t. t \<in> set ts \<Longrightarrow> slotsOfTask s t = Inr (w t)"
    and "batchesOf w cap us bs tot" "sorted_wrt (<) (us @ ts)"
  shows "\<exists>bs' tot'. foldE (batchStep s cap) ts (bs, tot) = Inr (bs', tot') \<and> batchesOf w cap (us @ ts) bs' tot'"
  using assms
proof (induction ts arbitrary: us bs tot)
  case Nil
  then show ?case by simp
next
  case (Cons t ts)
  define bs' tot' where "bs' = (if tot + w t \<le> cap then bs else bs @ [{}])"
    and "tot' = (if tot + w t \<le> cap then tot else 0)"
  have "batchesOf w cap (us @ [t]) (insert_at (length bs' - 1) t bs') (tot' + w t)"
    by (rule batchesOf_step[OF Cons.prems(2) _ bs'_def tot'_def]) (use Cons.prems(3) in \<open>auto simp: sorted_wrt_append\<close>)
  moreover have "batchStep s cap t (bs, tot) = Inr (insert_at (length bs' - 1) t bs', tot' + w t)"
    using Cons.prems(1)[of t] by (simp add: batchStep_def bs'_def tot'_def Let_def)
  ultimately show ?case using Cons.IH[of "us @ [t]"] Cons.prems(1,3) by simp
qed

lemma createLegalVariantBatches_spec:
  assumes k: "countable_slots s" and v: "validTasks s tasks"
  shows "\<exists>bs. createLegalVariantBatches s tasks cap = Inr bs \<and> \<Union> (set bs) = tasks \<and>
    (\<forall>B \<in> set bs. fits (taskSlots s) cap B) \<and> sorted_wrt (\<lambda>A B. \<forall>a \<in> A. \<forall>b \<in> B. a < b) bs"
proof -
  note fin = validTasks_finite[OF v]
  have w: "slotsOfTask s t = Inr (taskSlots s t)" if "t \<in> set (elems tasks)" for t
    using that v k fin by (intro slotsOfTask_known) (auto simp: countable_slots_def validTasks_def)
  have "batchesOf (taskSlots s) cap [] [{}] 0" by (simp add: batchesOf_def fits_def)
  from batch_fold[OF w this, of "elems tasks"] obtain bs tot where
    "foldE (batchStep s cap) (elems tasks) ([{}], 0) = Inr (bs, tot)" "batchesOf (taskSlots s) cap (elems tasks) bs tot"
    by (auto simp: strict_sorted_list_of_set)
  then show ?thesis using fin
    by (auto simp: createLegalVariantBatches_def batchesOf_def)
qed


text \<open>No batch is empty when there are tasks and each fits by itself.\<close>

lemma batchStep_nonempty:
  assumes "slotsOfTask s t = Inr k" "bs \<noteq> []" "{} \<notin> set bs \<or> bs = [{}] \<and> tot = 0 \<and> k \<le> cap"
    and "batchStep s cap t (bs, tot) = Inr (bs', tot')"
  shows "bs' \<noteq> [] \<and> {} \<notin> set bs'"
proof -
  obtain xs B where bs: "bs = xs @ [B]" using assms(2) by (metis append_butlast_last_id)
  show ?thesis
  proof (cases "tot + k \<le> cap")
    case True
    with assms bs have "bs' = xs @ [insert t B]" by (simp add: batchStep_def insert_at_last)
    moreover have "{} \<notin> set xs" using assms(3) bs by auto
    ultimately show ?thesis by simp
  next
    case False
    with assms bs have "bs' = xs @ [B, insert t {}]" by (simp add: batchStep_def insert_at_last2)
    moreover have "{} \<notin> set bs" using assms(3) False by auto
    ultimately show ?thesis using bs by simp
  qed
qed

lemma batch_fold_nonempty:
  assumes "\<forall>t \<in> set ts. slotsOfTask s t = Inr (w t)" "bs \<noteq> []" "{} \<notin> set bs"
    and "foldE (batchStep s cap) ts (bs, tot) = Inr (bs', tot')"
  shows "bs' \<noteq> [] \<and> {} \<notin> set bs'"
  using assms
proof (induction ts arbitrary: bs tot)
  case (Cons t ts)
  from Cons.prems(4) obtain bs1 tot1 where 1: "batchStep s cap t (bs, tot) = Inr (bs1, tot1)"
    and 2: "foldE (batchStep s cap) ts (bs1, tot1) = Inr (bs', tot')" by (auto simp: bindE_Inr)
  from batchStep_nonempty[OF _ Cons.prems(2) _ 1, of "w t"] Cons.prems(1,3)
  have "bs1 \<noteq> [] \<and> {} \<notin> set bs1" by simp
  with Cons.IH[OF _ _ _ 2] Cons.prems(1) show ?case by simp
qed simp

lemma createLegalVariantBatches_nonempty:
  assumes k: "countable_slots s" and v: "validTasks s tasks" and ne: "tasks \<noteq> {}"
    and fit: "\<forall>t \<in> tasks. taskSlots s t \<le> cap" and run: "createLegalVariantBatches s tasks cap = Inr bs"
  shows "bs \<noteq> [] \<and> {} \<notin> set bs"
proof -
  note fin = validTasks_finite[OF v]
  have w: "\<forall>t \<in> set (elems tasks). slotsOfTask s t = Inr (taskSlots s t)"
    using v k fin by (auto simp: countable_slots_def validTasks_def intro!: slotsOfTask_known)
  obtain t ts where ts: "elems tasks = t # ts" using ne fin by (cases "elems tasks") auto
  have "t \<in> tasks" using ts fin by (metis list.set_intros(1) set_sorted_list_of_set)
  with fit w ts have t: "slotsOfTask s t = Inr (taskSlots s t)" "taskSlots s t \<le> cap" by auto
  from run ts obtain bs1 tot1 tot' where 1: "batchStep s cap t ([{}], 0) = Inr (bs1, tot1)"
    and 2: "foldE (batchStep s cap) ts (bs1, tot1) = Inr (bs, tot')"
    by (auto simp: createLegalVariantBatches_def bindE_Inr)
  from batchStep_nonempty[OF t(1) _ _ 1] t(2) have "bs1 \<noteq> [] \<and> {} \<notin> set bs1" by simp
  with batch_fold_nonempty[OF _ _ _ 2, of "taskSlots s"] w ts show ?thesis by simp
qed

section \<open>A new barrier\<close>

lemma link_folds:
  assumes k: "countable_slots s" and "validTasks s ts"
    and f: "\<And>t s. bi_same s (f t s)"
  shows "foldE (\<lambda>t s. bindE (slotsOfTask s t) (\<lambda>_. Inr (f t s))) (elems ts) s = Inr (fold f (elems ts) s)"
proof -
  have "foldE (\<lambda>t s. bindE (slotsOfTask s t) (\<lambda>_. Inr (f t s))) us r = Inr (fold f us r)"
    if "countable_slots r" "\<forall>t \<in> set us. t < length (allTaskOps r)" for us r
    using that
  proof (induction us arbitrary: r)
    case (Cons t us)
    have "countable_slots (f t r)" "allTaskOps (f t r) = allTaskOps r"
      using Cons.prems(1) countable_slots_same[OF f] f[of r t] by (auto simp: bi_same_def)
    with Cons slotsOfTask_known[of r t] show ?case by (simp add: countable_slots_def)
  qed simp
  moreover have "\<forall>t \<in> set (elems ts). t < length (allTaskOps s)"
    using assms(2) validTasks_finite[OF assms(2)] by (auto simp: validTasks_def)
  ultimately show ?thesis using k by blast
qed

lemma addNewBarrier_countable:
  assumes "bi_wf s" "countable_slots s" "addNewBarrier op s = (s', i)"
  shows "countable_slots s'"
  using assms by (auto simp: addNewBarrier_def Let_def countable_slots_def slotsKnown_def bi_indexed_def nth_append)

text \<open>The fields and links after \<open>linkNewBarrier\<close>.\<close>

definition grows :: "barrier_info \<Rightarrow> nat \<Rightarrow> task_set \<Rightarrow> task_set \<Rightarrow> barrier_info \<Rightarrow> bool" where
  "grows s b ps cs s' \<longleftrightarrow>
     b = length (allBarrierOps s) \<and> length (allBarrierOps s') = Suc b \<and>
     bi_wf s' \<and> countable_slots s' \<and> allTaskOps s' = allTaskOps s \<and>
     (\<forall>x. producers s' x = (if x = b then ps else producers s x)) \<and>
     (\<forall>x. consumers s' x = (if x = b then cs else consumers s x))"

lemma linkNewBarrier_spec:
  assumes w: "bi_wf s" and k: "countable_slots s" and ps: "validTasks s ps" and cs: "validTasks s cs"
  shows "\<exists>s'. linkNewBarrier ps cs s = Inr s' \<and> grows s (length (allBarrierOps s)) ps cs s'"
proof -
  obtain s1 i where new: "addNewBarrier (createBarrier s) s = (s1, i)" by (cases "addNewBarrier (createBarrier s) s")
  note n = addNewBarrier_spec[OF w new]
  have k1: "countable_slots s1" by (rule addNewBarrier_countable[OF w k new])
  have v1: "validTasks s1 ps" "validTasks s1 cs" using ps cs n(4) by (simp_all add: validTasks_def)
  let ?s2 = "addProducers i ps s1"
  let ?s3 = "addConsumers i cs ?s2"
  note p = addProducers_spec[OF n(1,3) v1(1)]
  have s2: "bi_wf ?s2" "bi_same s1 ?s2" using p(1,2) by auto
  then have vb2: "validBarrier ?s2 i" and v2: "validTasks ?s2 cs"
    using n(3) v1(2) by (auto simp: bi_same_def validBarrier_def validTasks_def)
  note c = addConsumers_spec[OF s2(1) vb2 v2]
  have s3: "bi_wf ?s3" "bi_same s1 ?s3" using c(1,2) bi_same_trans[OF s2(2)] by auto
  have k2: "countable_slots ?s2" using k1 countable_slots_same[OF s2(2)] by simp
  have run: "linkNewBarrier ps cs s = Inr ?s3"
    using link_folds[OF k1 v1(1), of "addProducer i"] link_folds[OF k2 v2, of "addConsumer i"]
    by (simp add: linkNewBarrier_def new addProducers_def addConsumers_def)
  have fresh: "producers s i = {}" "consumers s i = {}"
    using n(2) bi_wf_lengths[OF w] by simp_all
  have "producers ?s3 x = (if x = i then ps else producers s x)" for x
    using c(3) p(5)[of x] n(10)[of x] n(10)[of i] fresh by simp
  moreover have "consumers ?s3 x = (if x = i then cs else consumers s x)" for x
    using c(5)[of x] p(3) n(11)[of x] n(11)[of i] fresh by simp
  ultimately have "grows s i ps cs ?s3"
    using s3 n k1 countable_slots_same[OF s3(2)] by (simp add: grows_def bi_same_def)
  with run n(2) show ?thesis by auto
qed

lemma linkNewBarriers_spec:
  assumes w: "bi_wf s" and k: "countable_slots s"
    and v: "\<And>B. B \<in> set bs \<Longrightarrow> validTasks s (P B) \<and> validTasks s (C B)"
  shows "\<exists>s'. foldE (\<lambda>B. linkNewBarrier (P B) (C B)) bs s = Inr s' \<and>
    bi_wf s' \<and> countable_slots s' \<and> allTaskOps s' = allTaskOps s \<and>
    length (allBarrierOps s') = length (allBarrierOps s) + length bs \<and>
    (\<forall>x. producers s' x = (if length (allBarrierOps s) \<le> x \<and> x < length (allBarrierOps s') then P (bs ! (x - length (allBarrierOps s))) else producers s x)) \<and>
    (\<forall>x. consumers s' x = (if length (allBarrierOps s) \<le> x \<and> x < length (allBarrierOps s') then C (bs ! (x - length (allBarrierOps s))) else consumers s x))"
  using assms
proof (induction bs arbitrary: s)
  case Nil
  then show ?case by auto
next
  case (Cons B bs)
  from linkNewBarrier_spec[OF Cons.prems(1,2), of "P B" "C B"] Cons.prems(3)[of B] obtain s1 where
    s1: "linkNewBarrier (P B) (C B) s = Inr s1" "grows s (length (allBarrierOps s)) (P B) (C B) s1" by auto
  then have v1: "validTasks s1 (P D) \<and> validTasks s1 (C D)" if "D \<in> set bs" for D
    using Cons.prems(3)[of D] that by (simp add: grows_def validTasks_def)
  from s1(2) Cons.IH[of s1, OF _ _ v1] obtain s2 where
    s2: "foldE (\<lambda>B. linkNewBarrier (P B) (C B)) bs s1 = Inr s2" "bi_wf s2" "countable_slots s2"
      "allTaskOps s2 = allTaskOps s1" "length (allBarrierOps s2) = length (allBarrierOps s1) + length bs"
      "\<forall>x. producers s2 x = (if length (allBarrierOps s1) \<le> x \<and> x < length (allBarrierOps s2) then P (bs ! (x - length (allBarrierOps s1))) else producers s1 x)"
      "\<forall>x. consumers s2 x = (if length (allBarrierOps s1) \<le> x \<and> x < length (allBarrierOps s2) then C (bs ! (x - length (allBarrierOps s1))) else consumers s1 x)"
    by (auto simp: grows_def)
  let ?n = "length (allBarrierOps s)"
  have idx: "(B # bs) ! (x - ?n) = (if x = ?n then B else bs ! (x - Suc ?n))" if "?n \<le> x" for x
    using that by (auto simp: nth_Cons')
  have "producers s2 x = (if ?n \<le> x \<and> x < length (allBarrierOps s2) then P ((B # bs) ! (x - ?n)) else producers s x)" for x
    using s1(2) s2(5,6) idx[of x] by (auto simp: grows_def)
  moreover have "consumers s2 x = (if ?n \<le> x \<and> x < length (allBarrierOps s2) then C ((B # bs) ! (x - ?n)) else consumers s x)" for x
    using s1(2) s2(5,7) idx[of x] by (auto simp: grows_def)
  ultimately show ?case using s1 s2(1-5) by (simp add: grows_def)
qed


section \<open>Replacing a barrier by the barriers of its batches\<close>

text \<open>
  \<open>b\<close> is replaced by new barriers, one per batch, with the links \<open>P\<close> and \<open>C\<close> gives
  the batch.
\<close>

definition replaced ::
  "barrier_info \<Rightarrow> nat \<Rightarrow> (nat set \<Rightarrow> nat set) \<Rightarrow> (nat set \<Rightarrow> nat set) \<Rightarrow> nat set list \<Rightarrow> barrier_info \<Rightarrow> bool" where
  "replaced s b P C bs s' \<longleftrightarrow>
     bi_wf s' \<and> countable_slots s' \<and> allTaskOps s' = allTaskOps s \<and>
     length (allBarrierOps s') = length (allBarrierOps s) + length bs \<and>
     (\<forall>x. producers s' x = (if x = b then {} else if length (allBarrierOps s) \<le> x \<and> x < length (allBarrierOps s')
        then P (bs ! (x - length (allBarrierOps s))) else producers s x)) \<and>
     (\<forall>x. consumers s' x = (if x = b then {} else if length (allBarrierOps s) \<le> x \<and> x < length (allBarrierOps s')
        then C (bs ! (x - length (allBarrierOps s))) else consumers s x))"

lemma replace_spec:
  assumes w: "bi_wf s" and k: "countable_slots s" and b: "validBarrier s b"
    and v: "\<And>B. B \<in> set bs \<Longrightarrow> validTasks s (P B) \<and> validTasks s (C B)"
  shows "\<exists>s1. foldE (\<lambda>B. linkNewBarrier (P B) (C B)) bs s = Inr s1 \<and>
    length (allBarrierOps s1) = length (allBarrierOps s) + length bs \<and> replaced s b P C bs (resetBarrier b s1)"
proof -
  from linkNewBarriers_spec[where P = P and C = C, OF w k v] obtain s1 where
    s1: "foldE (\<lambda>B. linkNewBarrier (P B) (C B)) bs s = Inr s1" "bi_wf s1" "countable_slots s1"
      "allTaskOps s1 = allTaskOps s" "length (allBarrierOps s1) = length (allBarrierOps s) + length bs"
    and p: "\<And>x. producers s1 x = (if length (allBarrierOps s) \<le> x \<and> x < length (allBarrierOps s1) then P (bs ! (x - length (allBarrierOps s))) else producers s x)"
    and c: "\<And>x. consumers s1 x = (if length (allBarrierOps s) \<le> x \<and> x < length (allBarrierOps s1) then C (bs ! (x - length (allBarrierOps s))) else consumers s x)"
    by blast
  have vb: "validBarrier s1 b" using b s1(5) by (simp add: validBarrier_def)
  note r = resetBarrier_spec[OF s1(2) vb]
  have len: "length (allBarrierOps (resetBarrier b s1)) = length (allBarrierOps s1)" "allTaskOps (resetBarrier b s1) = allTaskOps s1"
    using r(2) by (simp_all add: bi_same_def)
  have "replaced s b P C bs (resetBarrier b s1)"
    unfolding replaced_def len using r(1,3,4) s1 countable_slots_same[OF r(2)] p c by simp
  with s1(1,5) show ?thesis by blast
qed

lemma taskGraph_pairs:
  "bi_wf r \<Longrightarrow> taskGraph r = (\<Union>x. producers r x \<times> consumers r x)"
  by (auto simp: taskGraph_iff bi_wf_producers)

lemma replaced_graph:
  assumes w: "bi_wf s" and b: "validBarrier s b" and r: "replaced s b P C bs s'"
    and cover: "(\<Union>B \<in> set bs. P B \<times> C B) = producers s b \<times> consumers s b"
  shows "taskGraph s' = taskGraph s"
proof -
  let ?n = "length (allBarrierOps s)"
  from r have w': "bi_wf s'" and len: "length (allBarrierOps s') = ?n + length bs"
    and p: "\<And>x. producers s' x = (if x = b then {} else if ?n \<le> x \<and> x < length (allBarrierOps s') then P (bs ! (x - ?n)) else producers s x)"
    and c: "\<And>x. consumers s' x = (if x = b then {} else if ?n \<le> x \<and> x < length (allBarrierOps s') then C (bs ! (x - ?n)) else consumers s x)"
    by (auto simp: replaced_def)
  have bn: "b < ?n" using b by (simp add: validBarrier_def)
  have out: "producers s x = {}" if "?n \<le> x" for x using that bi_wf_lengths[OF w] by simp
  have new: "(\<Union>x \<in> {?n..<length (allBarrierOps s')}. producers s' x \<times> consumers s' x) = producers s b \<times> consumers s b"
  proof -
    have "(\<Union>x \<in> {?n..<length (allBarrierOps s')}. producers s' x \<times> consumers s' x) =
        (\<Union>x \<in> {?n..<?n + length bs}. P (bs ! (x - ?n)) \<times> C (bs ! (x - ?n)))"
      using bn len by (intro SUP_cong) (auto simp: p c)
    also have "\<dots> = (\<Union>i \<in> {..<length bs}. P (bs ! i) \<times> C (bs ! i))"
      by (rule set_eqI) (force simp: le_iff_add)
    also have "\<dots> = (\<Union>B \<in> set bs. P B \<times> C B)" by (force simp: in_set_conv_nth)
    finally show ?thesis by (simp add: cover)
  qed
  have old: "producers s' x \<times> consumers s' x = (if x = b then {} else producers s x \<times> consumers s x)"
    if "x \<notin> {?n..<length (allBarrierOps s')}" for x
    using that by (auto simp: p c)
  have "taskGraph s' = (\<Union>x \<in> {?n..<length (allBarrierOps s')}. producers s' x \<times> consumers s' x) \<union>
      (\<Union>x \<in> - {?n..<length (allBarrierOps s')}. producers s' x \<times> consumers s' x)"
    unfolding taskGraph_pairs[OF w'] by blast
  also have "\<dots> = producers s b \<times> consumers s b \<union>
      (\<Union>x \<in> - {?n..<length (allBarrierOps s')}. if x = b then {} else producers s x \<times> consumers s x)"
    unfolding new by (simp add: old)
  also have "\<dots> = taskGraph s"
    unfolding taskGraph_pairs[OF w] using bn out by (auto split: if_splits) fastforce+
  finally show ?thesis .
qed

lemma splitProducersOf_spec:
  assumes w: "bi_wf s" and k: "countable_slots s" and b: "validBarrier s b"
  obtains bs s' where "splitProducersOf cap b (s, body) =
      Inr (s', insertBefore b [length (allBarrierOps s)..<length (allBarrierOps s')] body)"
    "replaced s b (\<lambda>B. B) (\<lambda>_. consumers s b) bs s'" "\<Union> (set bs) = producers s b"
    "\<forall>B \<in> set bs. fits (taskSlots s) cap B" "taskGraph s' = taskGraph s"
proof -
  have bn: "b < length (allBarrierOps s)" using b by (simp add: validBarrier_def)
  have vp: "validTasks s (producers s b)" and vc: "validTasks s (consumers s b)"
    using bi_wf_bounds[OF w] by (simp_all add: validTasks_def)
  from createLegalVariantBatches_spec[OF k vp, of cap] obtain bs where
    bs: "createLegalVariantBatches s (producers s b) cap = Inr bs" "\<Union> (set bs) = producers s b"
      "\<forall>B \<in> set bs. fits (taskSlots s) cap B" by auto
  have v: "validTasks s B \<and> validTasks s (consumers s b)" if "B \<in> set bs" for B
    using that vp vc bs(2) by (auto simp: validTasks_def)
  from replace_spec[where P = "\<lambda>B. B" and C = "\<lambda>_. consumers s b", OF w k b v] obtain s1 where
    s1: "foldE (\<lambda>B. linkNewBarrier B (consumers s b)) bs s = Inr s1"
      "length (allBarrierOps s1) = length (allBarrierOps s) + length bs"
      "replaced s b (\<lambda>B. B) (\<lambda>_. consumers s b) bs (resetBarrier b s1)" by blast
  have run: "splitProducersOf cap b (s, body) =
      Inr (resetBarrier b s1, insertBefore b [length (allBarrierOps s)..<length (allBarrierOps (resetBarrier b s1))] body)"
    using s1 bs bn bi_wf_lengths[OF w]
    by (simp add: splitProducersOf_def getBarrierProducers_def getBarrierConsumers_def readVector_def replaced_def)
  have "taskGraph (resetBarrier b s1) = taskGraph s"
    by (rule replaced_graph[OF w b s1(3)]) (use bs(2) in auto)
  from that[OF run s1(3) bs(2,3) this] show ?thesis .
qed

lemma splitConsumersOf_spec:
  assumes w: "bi_wf s" and k: "countable_slots s" and b: "validBarrier s b"
  obtains bs s' where "splitConsumersOf cap b (s, body) =
      Inr (s', insertBefore b [length (allBarrierOps s)..<length (allBarrierOps s')] body)"
    "replaced s b (\<lambda>_. producers s b) (\<lambda>B. B) bs s'" "\<Union> (set bs) = consumers s b"
    "\<forall>B \<in> set bs. fits (taskSlots s) cap B" "taskGraph s' = taskGraph s"
proof -
  have bn: "b < length (allBarrierOps s)" using b by (simp add: validBarrier_def)
  have vp: "validTasks s (producers s b)" and vc: "validTasks s (consumers s b)"
    using bi_wf_bounds[OF w] by (simp_all add: validTasks_def)
  from createLegalVariantBatches_spec[OF k vc, of cap] obtain bs where
    bs: "createLegalVariantBatches s (consumers s b) cap = Inr bs" "\<Union> (set bs) = consumers s b"
      "\<forall>B \<in> set bs. fits (taskSlots s) cap B" by auto
  have v: "validTasks s (producers s b) \<and> validTasks s B" if "B \<in> set bs" for B
    using that vp vc bs(2) by (auto simp: validTasks_def)
  from replace_spec[where P = "\<lambda>_. producers s b" and C = "\<lambda>B. B", OF w k b v] obtain s1 where
    s1: "foldE (\<lambda>B. linkNewBarrier (producers s b) B) bs s = Inr s1"
      "length (allBarrierOps s1) = length (allBarrierOps s) + length bs"
      "replaced s b (\<lambda>_. producers s b) (\<lambda>B. B) bs (resetBarrier b s1)" by blast
  have run: "splitConsumersOf cap b (s, body) =
      Inr (resetBarrier b s1, insertBefore b [length (allBarrierOps s)..<length (allBarrierOps (resetBarrier b s1))] body)"
    using s1 bs bn bi_wf_lengths[OF w]
    by (simp add: splitConsumersOf_def getBarrierProducers_def getBarrierConsumers_def readVector_def replaced_def)
  have "taskGraph (resetBarrier b s1) = taskGraph s"
    by (rule replaced_graph[OF w b s1(3)]) (use bs(2) in auto)
  from that[OF run s1(3) bs(2,3) this] show ?thesis .
qed


section \<open>The walks\<close>

abbreviation barrierCount :: "barrier_info \<times> nat list \<Rightarrow> nat" where
  "barrierCount st \<equiv> length (allBarrierOps (fst st))"

text \<open>What every step of a walk keeps; \<open>Q\<close> is what an earlier walk established.\<close>

definition walkOk :: "(barrier_info \<Rightarrow> bool) \<Rightarrow> barrier_info \<Rightarrow> barrier_info \<times> nat list \<Rightarrow> bool" where
  "walkOk Q s0 st \<longleftrightarrow>
     bi_wf (fst st) \<and> countable_slots (fst st) \<and> allTaskOps (fst st) = allTaskOps s0 \<and>
     taskGraph (fst st) = taskGraph s0 \<and> set (snd st) = {..<barrierCount st} \<and> Q (fst st)"

text \<open>What a step establishes of its barrier and of the new ones, and leaves of the others.\<close>

definition stepTo ::
  "(nat set \<Rightarrow> nat set \<Rightarrow> bool) \<Rightarrow> nat set \<Rightarrow> barrier_info \<times> nat list \<Rightarrow> barrier_info \<times> nat list \<Rightarrow> bool" where
  "stepTo L X st st' \<longleftrightarrow>
     barrierCount st \<le> barrierCount st' \<and>
     (\<forall>x. x \<in> X \<or> barrierCount st \<le> x \<longrightarrow> L (producers (fst st') x) (consumers (fst st') x)) \<and>
     (\<forall>x. x \<notin> X \<and> x < barrierCount st \<longrightarrow>
        producers (fst st') x = producers (fst st) x \<and> consumers (fst st') x = consumers (fst st) x)"

lemma stepTo_trans:
  assumes "stepTo L X st st1" "stepTo L Y st1 st2"
  shows "stepTo L (X \<union> Y) st st2"
proof -
  have "L (producers (fst st2) x) (consumers (fst st2) x)" if "x \<in> X \<union> Y \<or> barrierCount st \<le> x" for x
  proof (cases "x \<in> Y \<or> barrierCount st1 \<le> x")
    case True
    with assms(2) show ?thesis unfolding stepTo_def by blast
  next
    case False
    with assms(2) have "producers (fst st2) x = producers (fst st1) x" "consumers (fst st2) x = consumers (fst st1) x"
      unfolding stepTo_def by auto
    with False that assms(1) show ?thesis unfolding stepTo_def by auto
  qed
  moreover have "producers (fst st2) x = producers (fst st) x \<and> consumers (fst st2) x = consumers (fst st) x"
    if "x \<notin> X \<union> Y" "x < barrierCount st" for x
    using assms that unfolding stepTo_def by auto
  moreover have "barrierCount st \<le> barrierCount st2" using assms by (simp add: stepTo_def)
  ultimately show ?thesis unfolding stepTo_def by blast
qed

lemma split_walk:
  assumes step: "\<And>b st. walkOk Q s0 st \<Longrightarrow> b < barrierCount st \<Longrightarrow>
      \<exists>st'. f b st = Inr st' \<and> walkOk Q s0 st' \<and> stepTo L {b} st st'"
    and "walkOk Q s0 st" "set xs \<subseteq> {..<barrierCount st}" and empty: "L {} {}"
  shows "\<exists>st'. foldE f xs st = Inr st' \<and> walkOk Q s0 st' \<and> (xs \<noteq> [] \<longrightarrow> stepTo L (set xs) st st') \<and> (xs = [] \<longrightarrow> st' = st)"
  using assms(2,3)
proof (induction xs arbitrary: st)
  case Nil
  then show ?case by simp
next
  case (Cons b xs)
  from step[OF Cons.prems(1), of b] Cons.prems(2) obtain st1 where
    st1: "f b st = Inr st1" "walkOk Q s0 st1" "stepTo L {b} st st1" by auto
  then have "set xs \<subseteq> {..<barrierCount st1}" using Cons.prems(2) by (auto simp: stepTo_def)
  from Cons.IH[OF st1(2) this] obtain st' where
    st': "foldE f xs st1 = Inr st'" "walkOk Q s0 st'" "xs \<noteq> [] \<longrightarrow> stepTo L (set xs) st1 st'" "xs = [] \<longrightarrow> st' = st1" by blast
  have "stepTo L (set (b # xs)) st st'"
    using st1(3) st'(3,4) stepTo_trans[OF st1(3), of "set xs" st'] by (cases "xs = []") auto
  with st1 st' show ?case by simp
qed

lemma set_insertBefore: "b \<in> set body \<Longrightarrow> set (insertBefore b new body) = set body \<union> set new"
  by (auto simp: insertBefore_def split: if_splits)

text \<open>The load of a side of a barrier, for fixed tasks.\<close>

definition load :: "barrier_info \<Rightarrow> nat set \<Rightarrow> nat" where
  "load s T = (\<Sum>t \<in> T. taskSlots s t)"

lemma slotCounts:
  assumes w: "bi_wf s" and k: "countable_slots s" and b: "b < length (allBarrierOps s)"
  shows "getProducerSlotCount s b = Inr (load s (producers s b))"
    "getConsumerSlotCount s b = Inr (load s (consumers s b))"
  using sumSlots_set[of s "producers s b"] sumSlots_set[of s "consumers s b"] k b
    bi_wf_bounds(1,2)[OF w, of b] bi_wf_lengths[OF w]
  by (simp_all add: countable_slots_def getProducerSlotCount_def getConsumerSlotCount_def getBarrierProducers_def
      getBarrierConsumers_def readVector_def load_def)

lemma load_same: "allTaskOps s' = allTaskOps s \<Longrightarrow> load s' = load s"
  by (simp add: load_def taskSlots_def fun_eq_iff)

definition tasksFit :: "nat \<Rightarrow> barrier_info \<Rightarrow> bool" where
  "tasksFit cap s \<longleftrightarrow> list_all (\<lambda>op. projr (getNumOfSlotsUsed op) \<le> cap) (allTaskOps s)"

lemma fits_load:
  assumes "tasksFit cap s" "fits (taskSlots s) cap B" "B \<subseteq> {..<length (allTaskOps s)}"
  shows "load s B \<le> cap"
  using assms by (auto simp: fits_def load_def tasksFit_def list_all_length taskSlots_def)

text \<open>What the walks accept of a barrier.\<close>

definition producerLegal :: "nat \<Rightarrow> nat \<Rightarrow> bool \<Rightarrow> barrier_info \<Rightarrow> nat set \<Rightarrow> nat set \<Rightarrow> bool" where
  "producerLegal cap mx lim s P C \<longleftrightarrow> lim \<and> load s P + load s C \<le> mx \<or> load s P \<le> cap"

definition consumerLegal :: "nat \<Rightarrow> nat \<Rightarrow> bool \<Rightarrow> barrier_info \<Rightarrow> nat set \<Rightarrow> nat set \<Rightarrow> bool" where
  "consumerLegal cap mx lim s P C \<longleftrightarrow> lim \<and> load s P + load s C \<le> mx \<or> load s C \<le> cap"

lemma replaced_walkOk:
  assumes ok: "walkOk Q s0 (s, body)" and b: "b < length (allBarrierOps s)" and r: "replaced s b P C bs s'"
    and g: "taskGraph s' = taskGraph s" and q: "Q s'"
  shows "walkOk Q s0 (s', insertBefore b [length (allBarrierOps s)..<length (allBarrierOps s')] body)"
  using ok r g q b by (auto simp: walkOk_def replaced_def set_insertBefore)

lemma replaced_new:
  assumes "replaced s b P C bs s'" "length (allBarrierOps s) \<le> x" "x < length (allBarrierOps s')" "b < length (allBarrierOps s)"
  obtains B where "B \<in> set bs" "producers s' x = P B" "consumers s' x = C B"
proof (rule that)
  show "bs ! (x - length (allBarrierOps s)) \<in> set bs" using assms by (auto simp: replaced_def)
  show "producers s' x = P (bs ! (x - length (allBarrierOps s)))" "consumers s' x = C (bs ! (x - length (allBarrierOps s)))"
    using assms by (auto simp: replaced_def)
qed

lemma splitProducers_step:
  assumes fit: "tasksFit cap s0" and ok: "walkOk (\<lambda>_. True) s0 st" and b: "b < barrierCount st"
  shows "\<exists>st'. visitProducers cap mx lim b st = Inr st' \<and> walkOk (\<lambda>_. True) s0 st' \<and> stepTo (producerLegal cap mx lim s0) {b} st st'"
proof -
  obtain s body where st: "st = (s, body)" by (cases st)
  from ok have w: "bi_wf s" "countable_slots s" "allTaskOps s = allTaskOps s0" by (auto simp: walkOk_def st)
  have bs: "b < length (allBarrierOps s)" using b by (simp add: st)
  note n = slotCounts[OF w(1,2) bs] load_same[OF w(3)]
  have empty: "producers s x = {}" if "length (allBarrierOps s) \<le> x" for x using that bi_wf_lengths[OF w(1)] by simp
  show ?thesis
  proof (cases "producerLegal cap mx lim s0 (producers s b) (consumers s b)")
    case True
    then have "stepTo (producerLegal cap mx lim s0) {b} st st"
      by (auto simp: stepTo_def st empty producerLegal_def load_def)
    with True ok show ?thesis by (auto simp: st n producerLegal_def visitProducers_def)
  next
    case False
    have vb: "validBarrier s b" using bs by (simp add: validBarrier_def)
    obtain bs' s' where
      run: "splitProducersOf cap b (s, body) = Inr (s', insertBefore b [length (allBarrierOps s)..<length (allBarrierOps s')] body)"
      and r: "replaced s b (\<lambda>B. B) (\<lambda>_. consumers s b) bs' s'" and un: "\<Union> (set bs') = producers s b"
      and f: "\<forall>B \<in> set bs'. fits (taskSlots s) cap B" and g: "taskGraph s' = taskGraph s"
      by (rule splitProducersOf_spec[OF w(1,2) vb, of cap body]) (rule that; assumption)
    have new: "load s0 (producers s' x) \<le> cap" if x: "x = b \<or> length (allBarrierOps s) \<le> x" for x
    proof (cases "x \<noteq> b \<and> x < length (allBarrierOps s')")
      case True
      with x obtain B where B: "B \<in> set bs'" "producers s' x = B" using replaced_new[OF r _ _ bs, of x] by auto
      moreover have "tasksFit cap s" using fit w(3) by (simp add: tasksFit_def)
      moreover have "B \<subseteq> {..<length (allTaskOps s)}" using B(1) un bi_wf_bounds(1)[OF w(1), of b] by blast
      ultimately show ?thesis using fits_load[of cap s B] f n(3) by simp
    next
      case False
      have "bi_wf s'" "producers s' b = {}" using r by (simp_all add: replaced_def)
      with False have "producers s' x = {}" using bi_wf_lengths(1)[of s'] by (cases "x = b") simp_all
      then show ?thesis by (simp add: load_def)
    qed
    have "stepTo (producerLegal cap mx lim s0) {b} st (s', insertBefore b [length (allBarrierOps s)..<length (allBarrierOps s')] body)"
        unfolding stepTo_def st using new r by (simp add: producerLegal_def replaced_def)
    with replaced_walkOk[OF ok[unfolded st] bs r g] run False show ?thesis
      by (auto simp: st n producerLegal_def visitProducers_def)
  qed
qed


definition allProducersLegal :: "nat \<Rightarrow> nat \<Rightarrow> bool \<Rightarrow> barrier_info \<Rightarrow> barrier_info \<Rightarrow> bool" where
  "allProducersLegal cap mx lim s0 s \<longleftrightarrow> (\<forall>x. producerLegal cap mx lim s0 (producers s x) (consumers s x))"

lemma splitConsumers_step:
  assumes fit: "tasksFit cap s0" and ok: "walkOk (allProducersLegal cap mx lim s0) s0 st" and b: "b < barrierCount st"
  shows "\<exists>st'. visitConsumers cap mx lim b st = Inr st' \<and>
       walkOk (allProducersLegal cap mx lim s0) s0 st' \<and> stepTo (consumerLegal cap mx lim s0) {b} st st'"
proof -
  obtain s body where st: "st = (s, body)" by (cases st)
  from ok have w: "bi_wf s" "countable_slots s" "allTaskOps s = allTaskOps s0"
    and q: "\<And>x. producerLegal cap mx lim s0 (producers s x) (consumers s x)"
    by (auto simp: walkOk_def st allProducersLegal_def)
  have bs: "b < length (allBarrierOps s)" using b by (simp add: st)
  note n = slotCounts[OF w(1,2) bs] load_same[OF w(3)]
  have empty: "consumers s x = {}" if "length (allBarrierOps s) \<le> x" for x using that bi_wf_lengths[OF w(1)] by simp
  show ?thesis
  proof (cases "consumerLegal cap mx lim s0 (producers s b) (consumers s b)")
    case True
    then have "stepTo (consumerLegal cap mx lim s0) {b} st st"
      by (auto simp: stepTo_def st empty consumerLegal_def load_def)
    with True ok show ?thesis by (auto simp: st n consumerLegal_def visitConsumers_def)
  next
    case False
    have vb: "validBarrier s b" using bs by (simp add: validBarrier_def)
    obtain bs' s' where
      run: "splitConsumersOf cap b (s, body) = Inr (s', insertBefore b [length (allBarrierOps s)..<length (allBarrierOps s')] body)"
      and r: "replaced s b (\<lambda>_. producers s b) (\<lambda>B. B) bs' s'" and un: "\<Union> (set bs') = consumers s b"
      and f: "\<forall>B \<in> set bs'. fits (taskSlots s) cap B" and g: "taskGraph s' = taskGraph s"
      by (rule splitConsumersOf_spec[OF w(1,2) vb, of cap body]) (rule that; assumption)
    have r': "bi_wf s'" "producers s' b = {}" "consumers s' b = {}" using r by (simp_all add: replaced_def)
    have new: "load s0 (consumers s' x) \<le> cap \<and> (producers s' x = {} \<or> producers s' x = producers s b)"
      if x: "x = b \<or> length (allBarrierOps s) \<le> x" for x
    proof (cases "x \<noteq> b \<and> x < length (allBarrierOps s')")
      case True
      with x obtain B where B: "B \<in> set bs'" "consumers s' x = B" "producers s' x = producers s b"
        using replaced_new[OF r _ _ bs, of x] by auto
      moreover have "tasksFit cap s" using fit w(3) by (simp add: tasksFit_def)
      moreover have "B \<subseteq> {..<length (allTaskOps s)}" using B(1) un bi_wf_bounds(2)[OF w(1), of b] by blast
      ultimately show ?thesis using fits_load[of cap s B] f n(3) by simp
    next
      case False
      then have "consumers s' x = {}" "producers s' x = {}"
        using r' bi_wf_lengths(1,2)[OF r'(1)] by (cases "x = b"; simp)+
      then show ?thesis by (simp add: load_def)
    qed
    have "stepTo (consumerLegal cap mx lim s0) {b} st (s', insertBefore b [length (allBarrierOps s)..<length (allBarrierOps s')] body)"
      unfolding stepTo_def st using new r by (simp add: consumerLegal_def replaced_def)
    moreover have "allProducersLegal cap mx lim s0 s'"
      unfolding allProducersLegal_def
    proof
      fix x
      have pb: "load s0 (producers s b) \<le> cap" using q[of b] False by (auto simp: producerLegal_def consumerLegal_def)
      show "producerLegal cap mx lim s0 (producers s' x) (consumers s' x)"
      proof (cases "x = b \<or> length (allBarrierOps s) \<le> x")
        case True
        with new[OF True] pb show ?thesis by (auto simp: producerLegal_def load_def)
      next
        case False
        then show ?thesis using q[of x] r by (simp add: replaced_def)
      qed
    qed
    ultimately show ?thesis
      using replaced_walkOk[OF ok[unfolded st] bs r g] run False by (auto simp: st n consumerLegal_def visitConsumers_def)
  qed
qed

lemma splitBarriers_correct:
  assumes w: "bi_wf s" and k: "countable_slots s" and fit: "tasksFit cap s"
    and body: "set body = {..<length (allBarrierOps s)}"
  shows "\<exists>s' body'. splitBarriersWithExceedingVariantCount cap mx maxAvail (s, body) = Inr (s', body') \<and>
    bi_wf s' \<and> taskGraph s' = taskGraph s \<and> allTaskOps s' = allTaskOps s \<and>
    (\<forall>x. mx < maxAvail \<and> load s (producers s' x) + load s (consumers s' x) \<le> mx \<or>
         load s (producers s' x) \<le> cap \<and> load s (consumers s' x) \<le> cap)"
proof (cases "body = []")
  case True
  then have "allBarrierOps s = []" using body by (cases "allBarrierOps s") auto
  then have "producers s x = {}" "consumers s x = {}" for x using bi_wf_lengths[OF w] by simp_all
  with True w show ?thesis
    by (auto simp: splitBarriersWithExceedingVariantCount_def splitBarrierProducers_def splitBarrierConsumers_def load_def)
next
  case False
  let ?lim = "mx < maxAvail"
  have ok0: "walkOk (\<lambda>_. True) s (s, body)" using w k body by (simp add: walkOk_def)
  have sub: "set body \<subseteq> {..<barrierCount (s, body)}" using body by simp
  have empty: "producerLegal cap mx ?lim s {} {}" "consumerLegal cap mx ?lim s {} {}"
    by (simp_all add: producerLegal_def consumerLegal_def load_def)
  obtain st1 where run1: "splitBarrierProducers cap mx ?lim (s, body) = Inr st1"
    and ok1: "walkOk (\<lambda>_. True) s st1" and s1: "stepTo (producerLegal cap mx ?lim s) (set body) (s, body) st1"
  proof -
    have "\<exists>st'. foldE (visitProducers cap mx ?lim) body (s, body) = Inr st' \<and> walkOk (\<lambda>_. True) s st' \<and>
        (body \<noteq> [] \<longrightarrow> stepTo (producerLegal cap mx ?lim s) (set body) (s, body) st') \<and> (body = [] \<longrightarrow> st' = (s, body))"
      by (rule split_walk, rule splitProducers_step[OF fit]) (assumption | rule ok0 sub empty(1))+
    then obtain st1 where "foldE (visitProducers cap mx ?lim) body (s, body) = Inr st1" "walkOk (\<lambda>_. True) s st1"
      "body \<noteq> [] \<longrightarrow> stepTo (producerLegal cap mx ?lim s) (set body) (s, body) st1" by (elim exE conjE)
    with False that show ?thesis by (simp add: splitBarrierProducers_def)
  qed
  have dom1: "x \<in> set body \<or> barrierCount (s, body) \<le> x" for x
    unfolding body by (cases "x < length (allBarrierOps s)") simp_all
  have "producerLegal cap mx ?lim s (producers (fst st1) x) (consumers (fst st1) x)" for x
    using s1[unfolded stepTo_def, THEN conjunct2, THEN conjunct1, rule_format, OF dom1] .
  with ok1 have ok1': "walkOk (allProducersLegal cap mx ?lim s) s st1"
    by (simp add: walkOk_def allProducersLegal_def)
  have ne1: "snd st1 \<noteq> []" proof -
    have "0 < barrierCount (s, body)" using False body by (cases "allBarrierOps s") auto
    also have "\<dots> \<le> barrierCount st1" using s1 unfolding stepTo_def by (rule conjunct1)
    finally have "{..<barrierCount st1} \<noteq> {}" by auto
    moreover have "set (snd st1) = {..<barrierCount st1}" using ok1 by (simp add: walkOk_def)
    ultimately have "set (snd st1) \<noteq> {}" by (simp only: not_False_eq_True)
    then show ?thesis by (simp only: set_empty not_False_eq_True)
  qed
  have sub1: "set (snd st1) \<subseteq> {..<barrierCount st1}" using ok1 by (simp add: walkOk_def)
  obtain st2 where run2: "splitBarrierConsumers cap mx ?lim st1 = Inr st2"
    and ok2: "walkOk (allProducersLegal cap mx ?lim s) s st2"
    and s2: "stepTo (consumerLegal cap mx ?lim s) (set (snd st1)) st1 st2"
  proof -
    have "\<exists>st'. foldE (visitConsumers cap mx ?lim) (snd st1) st1 = Inr st' \<and> walkOk (allProducersLegal cap mx ?lim s) s st' \<and>
        (snd st1 \<noteq> [] \<longrightarrow> stepTo (consumerLegal cap mx ?lim s) (set (snd st1)) st1 st') \<and> (snd st1 = [] \<longrightarrow> st' = st1)"
      by (rule split_walk, rule splitConsumers_step[OF fit]) (assumption | rule ok1' sub1 empty(2))+
    then obtain st2 where "foldE (visitConsumers cap mx ?lim) (snd st1) st1 = Inr st2"
      "walkOk (allProducersLegal cap mx ?lim s) s st2"
      "snd st1 \<noteq> [] \<longrightarrow> stepTo (consumerLegal cap mx ?lim s) (set (snd st1)) st1 st2" by (elim exE conjE)
    with ne1 that show ?thesis by (simp add: splitBarrierConsumers_def)
  qed
  have "?lim \<and> load s (producers (fst st2) x) + load s (consumers (fst st2) x) \<le> mx \<or>
      load s (producers (fst st2) x) \<le> cap \<and> load s (consumers (fst st2) x) \<le> cap" for x
  proof -
    have "set (snd st1) = {..<barrierCount st1}" using ok1 by (simp add: walkOk_def)
    then have dom2: "x \<in> set (snd st1) \<or> barrierCount st1 \<le> x" by (cases "x < barrierCount st1") simp_all
    have "consumerLegal cap mx ?lim s (producers (fst st2) x) (consumers (fst st2) x)"
      using s2[unfolded stepTo_def, THEN conjunct2, THEN conjunct1, rule_format, OF dom2] .
    moreover have "producerLegal cap mx ?lim s (producers (fst st2) x) (consumers (fst st2) x)"
      using ok2 unfolding walkOk_def allProducersLegal_def by blast
    ultimately show ?thesis unfolding consumerLegal_def producerLegal_def by blast
  qed
  moreover have "splitBarriersWithExceedingVariantCount cap mx maxAvail (s, body) = Inr (fst st2, snd st2)"
    by (simp add: splitBarriersWithExceedingVariantCount_def run1 run2)
  ultimately show ?thesis using ok2 unfolding walkOk_def by blast
qed

end
