(* ===== verification/Barrier_Merge.thy ===== *)
theory Barrier_Merge
  imports Barrier_Variants
begin

text \<open>
  Driving every task by one wait barrier (\<open>ensureTasksDrivenBySingleBarrier\<close>): the wait
  barriers of a task are replaced by one new barrier when their producers fit its slots, and by
  a chain of barriers over batches of producers otherwise.
\<close>

section \<open>Choosing producers and consumers\<close>

definition getMinEntry :: "nat set \<Rightarrow> nat" where
  "getMinEntry entries = (if entries = {} then 0 else Min entries)"

definition getMaxEntry :: "nat set \<Rightarrow> nat" where
  "getMaxEntry entries = (if entries = {} then 2 ^ 64 - 1 else Max entries)"

text \<open>The loop stops as soon as the sum exceeds the bound.\<close>

fun fitsWithin :: "barrier_info \<Rightarrow> nat \<Rightarrow> nat list \<Rightarrow> nat \<Rightarrow> barrier_error + bool" where
  "fitsWithin s availableSlots [] producerSlotCount = Inr True"
| "fitsWithin s availableSlots (t # ts) producerSlotCount =
     bindE (slotsOfTask s t) (\<lambda>k.
       if producerSlotCount + k > availableSlots then Inr False
       else fitsWithin s availableSlots ts (producerSlotCount + k))"

definition canMergeBarriersForTasks :: "barrier_info \<Rightarrow> task_set \<Rightarrow> nat \<Rightarrow> barrier_error + bool" where
  "canMergeBarriersForTasks s ps availableSlots = fitsWithin s availableSlots (elems ps) 0"

definition unionOver :: "(nat \<Rightarrow> barrier_error + nat set) \<Rightarrow> nat list \<Rightarrow> barrier_error + nat set" where
  "unionOver f bs = foldE (\<lambda>b acc. bindE (f b) (\<lambda>S. Inr (acc \<union> S))) bs {}"

text \<open>
  The consumers that wait for the same barriers, as many as the slots allow, in the iteration
  order of the set.
\<close>

fun consumerTasks :: "barrier_info \<Rightarrow> nat set \<Rightarrow> nat \<Rightarrow> nat list \<Rightarrow> nat \<Rightarrow> nat set \<Rightarrow> barrier_error + nat set" where
  "consumerTasks s waitBarriers slots [] cnt acc = Inr acc"
| "consumerTasks s waitBarriers slots (c # cs) cnt acc =
     bindE (getWaitBarriers s c) (\<lambda>ws.
       if waitBarriers \<noteq> ws then consumerTasks s waitBarriers slots cs cnt acc
       else bindE (slotsOfTask s c) (\<lambda>k.
         if cnt + k > slots then Inr acc
         else consumerTasks s waitBarriers slots cs (cnt + k) (insert c acc)))"

definition availableForConsumers ::
  "barrier_info \<Rightarrow> nat set \<Rightarrow> task_set \<Rightarrow> nat \<Rightarrow> nat \<Rightarrow> barrier_error + nat" where
  "availableForConsumers s waitBarriers parallelConsumers parallelProducerSlotCount availableSlots =
     (let totalSlots = 2 * availableSlots
      in if enableUneven s \<and> parallelProducerSlotCount > availableSlots \<and> parallelProducerSlotCount < totalSlots then
           bindE (anyE (\<lambda>c. bindE (getWaitBarriers s c) (\<lambda>ws.
                    if waitBarriers \<noteq> ws then Inr False
                    else bindE (slotsOfTask s c) (\<lambda>k. Inr (\<not> k \<le> totalSlots - parallelProducerSlotCount))))
                  (elems parallelConsumers))
             (\<lambda>someTooBig. Inr (if \<not> someTooBig then totalSlots - parallelProducerSlotCount else availableSlots))
         else Inr availableSlots)"

section \<open>Batches of producers\<close>

text \<open>One wait barrier after another; no batches when the producers are out of order.\<close>

fun producerBatches ::
  "barrier_info \<Rightarrow> nat \<Rightarrow> nat list \<Rightarrow> nat set list \<Rightarrow> nat \<Rightarrow> barrier_error + nat set list" where
  "producerBatches s availableSlots [] legalBatches prevLastUserInd = Inr legalBatches"
| "producerBatches s availableSlots (w # ws) legalBatches prevLastUserInd =
     bindE (getBarrierProducers s w) (\<lambda>barrierProducers.
       if legalBatches = [] then
         bindE (canMergeBarriersForTasks s barrierProducers availableSlots) (\<lambda>ok.
         bindE (if ok then Inr [barrierProducers] else createLegalVariantBatches s barrierProducers availableSlots) (\<lambda>bs.
           producerBatches s availableSlots ws bs (getMaxEntry barrierProducers)))
       else if prevLastUserInd \<ge> getMinEntry barrierProducers then Inr []
       else
         (let current = last legalBatches \<union> barrierProducers
          in bindE (canMergeBarriersForTasks s current availableSlots) (\<lambda>both.
             if both then
               producerBatches s availableSlots ws (butlast legalBatches @ [current]) (getMaxEntry barrierProducers)
             else bindE (canMergeBarriersForTasks s barrierProducers availableSlots) (\<lambda>ok.
                  bindE (if ok then Inr [barrierProducers] else createLegalVariantBatches s barrierProducers availableSlots) (\<lambda>bs.
                    producerBatches s availableSlots ws (legalBatches @ bs) (getMaxEntry barrierProducers))))))"

definition createProducerBatches ::
  "(nat set \<Rightarrow> nat list) \<Rightarrow> barrier_info \<Rightarrow> nat set \<Rightarrow> nat \<Rightarrow> barrier_error + nat set list" where
  "createProducerBatches iter s waitBarriers availableSlots =
     producerBatches s availableSlots (iter waitBarriers) [] (2 ^ 64 - 1)"

section \<open>Merging\<close>

text \<open>These barriers are linked without counting slots.\<close>

definition newBarrierBetween :: "task_set \<Rightarrow> task_set \<Rightarrow> barrier_info \<Rightarrow> barrier_info" where
  "newBarrierBetween ps cs s =
     (let (s1, i) = addNewBarrier (createBarrier s) s
      in fold (addConsumer i) (elems cs) (fold (addProducer i) (elems ps) s1))"

definition mergeLegalParallelProducers ::
  "nat \<Rightarrow> task_set \<Rightarrow> task_set \<Rightarrow> barrier_info \<Rightarrow> barrier_error + barrier_info" where
  "mergeLegalParallelProducers taskInd parallelProducers parallelConsumers s =
     bindE (getTaskOpAtIndex s taskInd) (\<lambda>_. Inr (newBarrierBetween parallelProducers parallelConsumers s))"

definition linearizeLegalParallelProducers ::
  "(nat set \<Rightarrow> nat list) \<Rightarrow> nat \<Rightarrow> task_set \<Rightarrow> task_set \<Rightarrow> nat \<Rightarrow> barrier_info \<Rightarrow> barrier_error + barrier_info" where
  "linearizeLegalParallelProducers iter taskInd parallelProducers parallelConsumers availableSlots s =
     bindE (getWaitBarriers s taskInd) (\<lambda>ws.
     bindE (createProducerBatches iter s ws availableSlots) (\<lambda>bs0.
     bindE (if bs0 = [] then createLegalVariantBatches s parallelProducers availableSlots else Inr bs0) (\<lambda>legalBatches.
     bindE (getTaskOpAtIndex s taskInd) (\<lambda>_.
       Inr (fst (fold (\<lambda>batch (s, nextBatch). (newBarrierBetween batch nextBatch s, batch))
                  (rev legalBatches) (s, parallelConsumers)))))))"

definition unlinkTaskFromParallelBarriers :: "task_set \<Rightarrow> nat set \<Rightarrow> barrier_info \<Rightarrow> barrier_error + barrier_info" where
  "unlinkTaskFromParallelBarriers tasks waitBarriers s =
     foldE (\<lambda>w s.
       bindE (getBarrierConsumers s w) (\<lambda>barrierConsumers.
       bindE (getBarrierOpAtIndex s w) (\<lambda>_.
         if card barrierConsumers = card tasks then Inr (resetBarrier w s)
         else Inr (fold (removeConsumer w) (elems tasks) s)))) (elems waitBarriers) s"

definition mergeParallelWaitBarriers ::
  "(nat set \<Rightarrow> nat list) \<Rightarrow> nat \<Rightarrow> nat \<Rightarrow> barrier_info \<Rightarrow> barrier_error + barrier_info" where
  "mergeParallelWaitBarriers iter availableSlots taskInd s =
     bindE (getWaitBarriers s taskInd) (\<lambda>waitBarriers.
     bindE (unionOver (getBarrierConsumers s) (elems waitBarriers)) (\<lambda>parallelConsumers.
     bindE (unionOver (getBarrierProducers s) (elems waitBarriers)) (\<lambda>parallelProducers.
     bindE (sumSlots s (elems parallelProducers)) (\<lambda>parallelProducerSlotCount.
     bindE (availableForConsumers s waitBarriers parallelConsumers parallelProducerSlotCount availableSlots) (\<lambda>forConsumer.
     bindE (consumerTasks s waitBarriers forConsumer (iter parallelConsumers) 0 {}) (\<lambda>toMerge.
     guardE (toMerge \<noteq> {}) NoParallelConsumers
       (bindE (canMergeBarriersForTasks s parallelProducers (2 * availableSlots - forConsumer)) (\<lambda>ok.
        bindE (if ok then mergeLegalParallelProducers taskInd parallelProducers toMerge s
               else linearizeLegalParallelProducers iter taskInd parallelProducers toMerge availableSlots s) (\<lambda>s1.
          unlinkTaskFromParallelBarriers toMerge waitBarriers s1)))))))))"

text \<open>
  The loop over all tasks, repeated while some task has more than one wait barrier; it throws
  when a round leaves the same tasks. Every round but the last changes that set of tasks;
  \<open>fuel\<close> bounds the rounds.
\<close>

definition tasksWithParallelWaitBarriers :: "barrier_info \<Rightarrow> barrier_error + nat set" where
  "tasksWithParallelWaitBarriers s =
     foldE (\<lambda>t acc. bindE (getWaitBarriers s t) (\<lambda>ws. Inr (if card ws \<ge> 2 then insert t acc else acc)))
       [0..<length (allTaskOps s)] {}"

definition mergeRound ::
  "(nat set \<Rightarrow> nat list) \<Rightarrow> nat \<Rightarrow> barrier_info \<times> bool \<Rightarrow> barrier_error + barrier_info \<times> bool" where
  "mergeRound iter availableSlots st =
     foldE (\<lambda>t (s, modifiedIR). bindE (getWaitBarriers s t) (\<lambda>ws.
         if card ws < 2 then Inr (s, modifiedIR)
         else bindE (mergeParallelWaitBarriers iter availableSlots t s) (\<lambda>s1. Inr (s1, True))))
       [0..<length (allTaskOps (fst st))] st"

fun mergeRounds ::
  "nat \<Rightarrow> (nat set \<Rightarrow> nat list) \<Rightarrow> nat \<Rightarrow> bool \<Rightarrow> nat set \<Rightarrow> barrier_info \<times> bool
    \<Rightarrow> (barrier_error + barrier_info \<times> bool) option" where
  "mergeRounds 0 iter availableSlots iteratively tasks st = None"
| "mergeRounds (Suc fuel) iter availableSlots iteratively tasks st =
     (if tasks = {} then Some (Inr st)
      else case bindE (mergeRound iter availableSlots st) (\<lambda>st1.
             bindE (tasksWithParallelWaitBarriers (fst st1)) (\<lambda>tasks1.
               guardE (tasks1 \<noteq> tasks) SameTasksAgain (Inr (st1, tasks1)))) of
             Inl e \<Rightarrow> Some (Inl e)
           | Inr (st1, tasks1) \<Rightarrow>
               if \<not> iteratively then Some (Inr st1)
               else mergeRounds fuel iter availableSlots iteratively tasks1 st1)"

definition ensureTasksDrivenBySingleBarrier ::
  "nat \<Rightarrow> (nat set \<Rightarrow> nat list) \<Rightarrow> nat \<Rightarrow> bool \<Rightarrow> barrier_info \<Rightarrow> (barrier_error + barrier_info \<times> bool) option" where
  "ensureTasksDrivenBySingleBarrier fuel iter availableSlots mergeWaitBarriersIteratively s =
     (case tasksWithParallelWaitBarriers s of
        Inl e \<Rightarrow> Some (Inl e)
      | Inr tasks \<Rightarrow> mergeRounds fuel iter availableSlots mergeWaitBarriersIteratively tasks (s, False))"

definition enableUnevenVariantSplit :: "barrier_info \<Rightarrow> barrier_info" where
  "enableUnevenVariantSplit s = s\<lparr>enableUneven := True\<rparr>"

end
