(* ===== verification/Barrier_Merge_Correct.thy ===== *)
theory Barrier_Merge_Correct
  imports Barrier_Merge
begin

text \<open>
  Merging the wait barriers of a task: the merged consumers are left with exactly one wait
  barrier, every ordering is kept, and tasks stay in execution order.
\<close>

section \<open>The helpers\<close>

lemma fitsWithin_iff:
  assumes "countable_slots s" "\<forall>t \<in> set ts. t < length (allTaskOps s)"
  shows "fitsWithin s cap ts n = Inr (n + sum_list (map (taskSlots s) ts) \<le> cap \<or> ts = [])"
  using assms(2)
proof (induction ts arbitrary: n)
  case (Cons t ts)
  with slotsOfTask_known[of s t] assms(1) show ?case
    by (cases "ts = []") (auto simp: countable_slots_def)
qed simp

lemma canMerge_iff:
  assumes k: "countable_slots s" and v: "validTasks s ps"
  shows "canMergeBarriersForTasks s ps cap = Inr (load s ps \<le> cap)"
  using fitsWithin_iff[OF k, of "elems ps" cap 0] v validTasks_finite[OF v]
  by (auto simp: canMergeBarriersForTasks_def validTasks_def load_def sum_list_distinct_conv_sum_set subset_iff)

lemma unionOver_eq:
  assumes "\<And>b. b \<in> set bs \<Longrightarrow> f b = Inr (g b)"
  shows "unionOver f bs = Inr (\<Union>b \<in> set bs. g b)"
proof -
  have "foldE (\<lambda>b acc. bindE (f b) (\<lambda>S. Inr (acc \<union> S))) bs A = Inr (A \<union> (\<Union>b \<in> set bs. g b))" for A
    using assms by (induction bs arbitrary: A) auto
  then show ?thesis by (simp add: unionOver_def)
qed

text \<open>The chosen consumers wait for exactly the given barriers.\<close>

lemma consumerTasks_waits:
  assumes "bi_wf s" "consumerTasks s W slots cs n acc = Inr T"
    and "\<forall>c \<in> acc. c < length (allTaskOps s) \<and> waits s c = W"
  shows "\<forall>c \<in> T. c < length (allTaskOps s) \<and> waits s c = W"
  using assms(2,3)
proof (induction cs arbitrary: n acc)
  case (Cons c cs)
  have c: "getWaitBarriers s c = Inr ws \<Longrightarrow> c < length (allTaskOps s) \<and> ws = waits s c" for ws
    using bi_wf_lengths[OF assms(1)] by (auto simp: getWaitBarriers_def readVector_def guardE_Inr split: if_splits)
  from Cons.prems(1) obtain ws where ws: "getWaitBarriers s c = Inr ws"
    by (auto simp: bindE_Inr)
  show ?case
  proof (cases "W = ws")
    case False
    with Cons.prems(1) ws have "consumerTasks s W slots cs n acc = Inr T" by simp
    then show ?thesis using Cons.prems(2) by (rule Cons.IH)
  next
    case True
    with Cons.prems ws obtain k where "T = acc \<or> consumerTasks s W slots cs (n + k) (insert c acc) = Inr T"
      by (auto simp: bindE_Inr split: if_splits)
    then show ?thesis
    proof
      assume "T = acc"
      with Cons.prems(2) show ?thesis by simp
    next
      assume r: "consumerTasks s W slots cs (n + k) (insert c acc) = Inr T"
      have "\<forall>x \<in> insert c acc. x < length (allTaskOps s) \<and> waits s x = W"
        using Cons.prems(2) c[OF ws] True by (simp only: ball_simps simp_thms)
      with r show ?thesis by (rule Cons.IH)
    qed
  qed
qed simp

section \<open>Batches of producers\<close>

definition ascends :: "nat set list \<Rightarrow> bool" where
  "ascends bs \<longleftrightarrow> sorted_wrt (\<lambda>A B. \<forall>a \<in> A. \<forall>b \<in> B. a < b) bs"

definition goodBatches :: "nat set list \<Rightarrow> nat set \<Rightarrow> bool" where
  "goodBatches bs S \<longleftrightarrow> \<Union> (set bs) = S \<and> ascends bs \<and> bs \<noteq> [] \<and> {} \<notin> set (tl bs)"

lemma goodBatches_append:
  assumes "goodBatches bs S" "goodBatches cs T" "{} \<notin> set cs" "\<forall>a \<in> S. \<forall>b \<in> T. a < b"
  shows "goodBatches (bs @ cs) (S \<union> T)"
  using assms by (cases bs) (auto simp: goodBatches_def ascends_def sorted_wrt_append)

lemma goodBatches_last:
  assumes "goodBatches bs S" "\<forall>a \<in> S. \<forall>b \<in> P. a < b" "P \<noteq> {}"
  shows "goodBatches (butlast bs @ [last bs \<union> P]) (S \<union> P)"
proof -
  from assms(1) obtain xs B where "bs = xs @ [B]" by (metis append_butlast_last_id goodBatches_def)
  with assms show ?thesis
    by (cases xs) (auto simp: goodBatches_def ascends_def sorted_wrt_append)
qed

lemma legal_good:
  assumes k: "countable_slots s" and v: "validTasks s P" and fit: "tasksFit cap s"
    and run: "createLegalVariantBatches s P cap = Inr bs"
  shows "goodBatches bs P" "P \<noteq> {} \<Longrightarrow> {} \<notin> set bs"
proof -
  have fit': "\<forall>t \<in> P. taskSlots s t \<le> cap"
    using fit v by (auto simp: tasksFit_def list_all_length validTasks_def taskSlots_def)
  show ne: "{} \<notin> set bs" if "P \<noteq> {}"
    using createLegalVariantBatches_nonempty[OF k v that fit' run] by simp
  from createLegalVariantBatches_spec[OF k v, of cap] run
  have sp: "\<Union> (set bs) = P" "ascends bs" by (auto simp: ascends_def)
  show "goodBatches bs P"
  proof (cases "P = {}")
    case True
    with run have "bs = [{}]" by (simp add: createLegalVariantBatches_def)
    with True show ?thesis by (simp add: goodBatches_def ascends_def)
  next
    case False
    with sp ne createLegalVariantBatches_nonempty[OF k v False fit' run] show ?thesis
      by (auto simp: goodBatches_def dest: list.set_sel(2))
  qed
qed

lemma producerBatches_good:
  assumes w: "bi_wf s" and k: "countable_slots s" and fit: "tasksFit cap s"
    and "producerBatches s cap ws lb prev = Inr bs"
    and "lb = [] \<and> S = {} \<or> goodBatches lb S \<and> (\<forall>x \<in> S. x \<le> prev)"
  shows "bs = [] \<or> goodBatches bs (S \<union> (\<Union>w \<in> set ws. producers s w))"
  using assms(4,5)
proof (induction ws arbitrary: lb S prev)
  case Nil
  then show ?case by auto
next
  case (Cons b ws)
  from Cons.prems(1) obtain P where P0: "getBarrierProducers s b = Inr P"
    by (auto simp: bindE_Inr)
  then have P: "P = producers s b"
    using bi_wf_lengths[OF w] by (auto simp: getBarrierProducers_def readVector_def guardE_Inr split: if_splits)
  have vP: "validTasks s P" using bi_wf_bounds(1)[OF w, of b] by (simp add: P validTasks_def)
  note finP = validTasks_finite[OF vP]
  have maxP: "\<forall>x \<in> P. x \<le> getMaxEntry P" using finP by (auto simp: getMaxEntry_def)
  have alone: "goodBatches cs P \<and> (P \<noteq> {} \<longrightarrow> {} \<notin> set cs)"
    if "(if ok then Inr [P] else createLegalVariantBatches s P cap) = Inr cs" for ok cs
    using that legal_good[OF k vP fit] by (cases ok) (auto simp: goodBatches_def ascends_def)
  show ?case
  proof (cases "lb = []")
    case True
    with Cons.prems P0 obtain ok cs where cs: "(if ok then Inr [P] else createLegalVariantBatches s P cap) = Inr cs"
      and rest: "producerBatches s cap ws cs (getMaxEntry P) = Inr bs"
      by (auto simp: bindE_Inr)
    from Cons.IH[OF rest, of P] alone[OF cs] maxP Cons.prems(2) True show ?thesis
      by (auto simp: P goodBatches_def)
  next
    case False
    with Cons.prems(2) have g: "goodBatches lb S" "\<forall>x \<in> S. x \<le> prev" by auto
    show ?thesis
    proof (cases "prev \<ge> getMinEntry P")
      case True
      with Cons.prems(1) P0 False show ?thesis by simp
    next
      case F: False
      then have ne: "P \<noteq> {}" by (auto simp: getMinEntry_def)
      have lt: "\<forall>a \<in> S. \<forall>x \<in> P. a < x"
      proof (intro ballI)
        fix a x
        assume "a \<in> S" "x \<in> P"
        then have "a \<le> prev" "Min P \<le> x" using g(2) finP by auto
        moreover have "prev < Min P" using F ne by (simp add: getMinEntry_def)
        ultimately show "a < x" by simp
      qed
      have max: "\<forall>x \<in> S \<union> P. x \<le> getMaxEntry P"
      proof
        fix x
        assume "x \<in> S \<union> P"
        moreover obtain p where "p \<in> P" using ne by blast
        ultimately show "x \<le> getMaxEntry P" using maxP lt by (metis UnE less_imp_le le_trans)
      qed
      from Cons.prems(1) P0 False F obtain both where
        both: "canMergeBarriersForTasks s (last lb \<union> P) cap = Inr both"
        and step: "(if both then producerBatches s cap ws (butlast lb @ [last lb \<union> P]) (getMaxEntry P)
             else bindE (canMergeBarriersForTasks s P cap) (\<lambda>ok.
                  bindE (if ok then Inr [P] else createLegalVariantBatches s P cap) (\<lambda>ds.
                    producerBatches s cap ws (lb @ ds) (getMaxEntry P)))) = Inr bs"
        by (simp add: Let_def) (simp only: bindE_Inr, blast)
      obtain cs where
        rest: "producerBatches s cap ws cs (getMaxEntry P) = Inr bs" and
        cs: "cs = butlast lb @ [last lb \<union> P] \<or>
             (\<exists>ok ds. (if ok then Inr [P] else createLegalVariantBatches s P cap) = Inr ds \<and> cs = lb @ ds)"
      proof (cases both)
        case True
        with step that show ?thesis by simp
      next
        case False
        with step obtain ok ds where "(if ok then Inr [P] else createLegalVariantBatches s P cap) = Inr ds"
          "producerBatches s cap ws (lb @ ds) (getMaxEntry P) = Inr bs"
          by (simp only: if_False bindE_Inr) blast
        with that show ?thesis by blast
      qed
      have "goodBatches cs (S \<union> P)"
        using cs alone goodBatches_last[OF g(1) lt ne] goodBatches_append[OF g(1) _ _ lt] ne by blast
      with Cons.IH[OF rest, of "S \<union> P"] max show ?thesis by (auto simp: P Un_assoc)
    qed
  qed
qed


section \<open>Chains of new barriers\<close>

lemma newBarrierBetween_spec:
  assumes w: "bi_wf s" and k: "countable_slots s" and ps: "validTasks s ps" and cs: "validTasks s cs"
  shows "grows s (length (allBarrierOps s)) ps cs (newBarrierBetween ps cs s)"
proof -
  obtain s1 i where new: "addNewBarrier (createBarrier s) s = (s1, i)" by (cases "addNewBarrier (createBarrier s) s")
  note n = addNewBarrier_spec[OF w new]
  have k1: "countable_slots s1" by (rule addNewBarrier_countable[OF w k new])
  have v1: "validTasks s1 ps" "validTasks s1 cs" using ps cs n(4) by (simp_all add: validTasks_def)
  have s2: "bi_same s1 (fold (addProducer i) (elems ps) s1)"
    using addProducers_spec(2)[OF n(1,3) v1(1)] by (simp add: addProducers_def)
  have "countable_slots (fold (addProducer i) (elems ps) s1)" "validTasks (fold (addProducer i) (elems ps) s1) cs"
    using k1 countable_slots_same[OF s2] v1(2) s2 by (simp_all add: bi_same_def validTasks_def)
  then have "linkNewBarrier ps cs s = Inr (newBarrierBetween ps cs s)"
    using link_folds[OF k1 v1(1), of "addProducer i"] link_folds[of "fold (addProducer i) (elems ps) s1" cs "addConsumer i"]
    by (simp add: linkNewBarrier_def newBarrierBetween_def new)
  with linkNewBarrier_spec[OF w k ps cs] show ?thesis by auto
qed

fun chainBarriers :: "nat set list \<Rightarrow> nat set \<Rightarrow> barrier_info \<Rightarrow> barrier_info" where
  "chainBarriers [] T s = s"
| "chainBarriers (x # xs) T s = chainBarriers xs x (newBarrierBetween x T s)"

fun chainEdges :: "nat set list \<Rightarrow> nat set \<Rightarrow> (nat \<times> nat) set" where
  "chainEdges [] T = {}"
| "chainEdges (x # xs) T = x \<times> T \<union> chainEdges xs x"

lemma chain_fold:
  "fst (fold (\<lambda>batch (s, nextBatch). (newBarrierBetween batch nextBatch s, batch)) xs (s, T)) = chainBarriers xs T s"
  by (induction xs arbitrary: s T) auto

lemma chainBarriers_spec:
  assumes "bi_wf s" "countable_slots s" "validTasks s T" "\<And>x. x \<in> set xs \<Longrightarrow> validTasks s x"
  shows "bi_wf (chainBarriers xs T s) \<and> countable_slots (chainBarriers xs T s) \<and>
    allTaskOps (chainBarriers xs T s) = allTaskOps s \<and>
    length (allBarrierOps (chainBarriers xs T s)) = length (allBarrierOps s) + length xs \<and>
    (\<forall>b. producers (chainBarriers xs T s) b = (if b < length (allBarrierOps s) then producers s b
       else if b < length (allBarrierOps s) + length xs then xs ! (b - length (allBarrierOps s)) else {})) \<and>
    (\<forall>b. consumers (chainBarriers xs T s) b = (if b < length (allBarrierOps s) then consumers s b
       else if b < length (allBarrierOps s) + length xs then (T # xs) ! (b - length (allBarrierOps s)) else {}))"
  using assms
proof (induction xs arbitrary: s T)
  case Nil
  then show ?case using bi_wf_lengths[OF Nil(1)] by simp
next
  case (Cons x xs)
  let ?n = "length (allBarrierOps s)" and ?s1 = "newBarrierBetween x T s"
  have g: "grows s ?n x T ?s1" using Cons.prems by (intro newBarrierBetween_spec) auto
  then have v: "validTasks ?s1 y" if "validTasks s y" for y using that by (simp add: grows_def validTasks_def)
  have len1: "length (allBarrierOps ?s1) = Suc ?n" using g by (simp add: grows_def)
  have "bi_wf ?s1" "countable_slots ?s1" "validTasks ?s1 x" "\<And>y. y \<in> set xs \<Longrightarrow> validTasks ?s1 y"
    using g v Cons.prems(4) by (auto simp: grows_def)
  note IH = Cons.IH[OF this]
  have p: "producers ?s1 b = (if b = ?n then x else producers s b)"
    and c: "consumers ?s1 b = (if b = ?n then T else consumers s b)" for b
    using g by (simp_all add: grows_def)
  have idx: "b - ?n = Suc (b - Suc ?n)" if "\<not> b < Suc ?n" for b using that by simp
  have "producers (chainBarriers xs x ?s1) b = (if b < ?n then producers s b
       else if b < ?n + length (x # xs) then (x # xs) ! (b - ?n) else {})" for b
  proof (cases "b < Suc ?n")
    case True
    then show ?thesis using IH p[of b] by (cases "b = ?n") (simp_all add: len1)
  next
    case False
    then show ?thesis using IH by (simp add: len1 idx)
  qed
  moreover have "consumers (chainBarriers xs x ?s1) b = (if b < ?n then consumers s b
       else if b < ?n + length (x # xs) then (T # x # xs) ! (b - ?n) else {})" for b
  proof (cases "b < Suc ?n")
    case True
    then show ?thesis using IH c[of b] by (cases "b = ?n") (simp_all add: len1)
  next
    case False
    then show ?thesis using IH by (simp add: len1 idx)
  qed
  ultimately show ?case using IH g by (simp add: grows_def)
qed

lemma chainEdges_nth:
  "chainEdges xs T = (\<Union>i < length xs. xs ! i \<times> (T # xs) ! i)"
proof (induction xs arbitrary: T)
  case (Cons x xs)
  have "(\<Union>i < length (x # xs). (x # xs) ! i \<times> (T # x # xs) ! i) =
      x \<times> T \<union> (\<Union>i < length xs. xs ! i \<times> (x # xs) ! i)"
    by (simp add: lessThan_Suc_eq_insert_0)
  with Cons show ?case by simp
qed simp

lemma chainEdges_reach:
  assumes "{} \<notin> set (butlast xs)" "p \<in> \<Union> (set xs)" "t \<in> T"
  shows "(p, t) \<in> (chainEdges xs T)\<^sup>+"
  using assms
proof (induction xs arbitrary: T t)
  case (Cons x xs)
  show ?case
  proof (cases "p \<in> x")
    case True
    with Cons.prems(3) show ?thesis by auto
  next
    case False
    with Cons.prems(2) have ne: "xs \<noteq> []" and p: "p \<in> \<Union> (set xs)" by auto
    with Cons.prems(1) have "x \<noteq> {}" "{} \<notin> set (butlast xs)" by auto
    then obtain q where q: "q \<in> x" by blast
    from Cons.IH[OF \<open>{} \<notin> set (butlast xs)\<close> p q] have "(p, q) \<in> (chainEdges (x # xs) T)\<^sup>+"
      by (rule trancl_mono) simp
    moreover have "(q, t) \<in> chainEdges (x # xs) T" using q Cons.prems(3) by simp
    ultimately show ?thesis by (rule trancl_into_trancl)
  qed
qed simp

lemma chainEdges_forward:
  assumes "sorted_wrt (\<lambda>A B. \<forall>a \<in> A. \<forall>b \<in> B. b < a) xs" "\<forall>p \<in> \<Union> (set xs). \<forall>t \<in> T. p < t"
    and "(a, b) \<in> chainEdges xs T"
  shows "a < b"
  using assms
proof (induction xs arbitrary: T)
  case (Cons x xs)
  from Cons.prems(3) consider "a \<in> x" "b \<in> T" | "(a, b) \<in> chainEdges xs x" by auto
  then show ?case
  proof cases
    case 1
    with Cons.prems(2) show ?thesis by simp
  next
    case 2
    with Cons.IH[of x] Cons.prems(1) show ?thesis by auto
  qed
qed simp

lemma goodBatches_chain:
  assumes "goodBatches bs S" "\<forall>p \<in> S. \<forall>t \<in> T. p < (t :: nat)"
  shows "p \<in> S \<Longrightarrow> t \<in> T \<Longrightarrow> (p, t) \<in> (chainEdges (rev bs) T)\<^sup>+"
    "(a, b) \<in> chainEdges (rev bs) T \<Longrightarrow> a < b"
proof -
  from assms(1) have b: "\<Union> (set bs) = S" "ascends bs" "{} \<notin> set (tl bs)" by (auto simp: goodBatches_def)
  have "butlast (rev bs) = rev (tl bs)" by (cases bs) auto
  then show "p \<in> S \<Longrightarrow> t \<in> T \<Longrightarrow> (p, t) \<in> (chainEdges (rev bs) T)\<^sup>+"
    using b by (intro chainEdges_reach) auto
  have "sorted_wrt (\<lambda>A B. \<forall>a \<in> A. \<forall>b \<in> B. b < a) (rev bs)"
    unfolding sorted_wrt_rev by (rule sorted_wrt_mono_rel[OF _ b(2)[unfolded ascends_def]]) auto
  then show "(a, b) \<in> chainEdges (rev bs) T \<Longrightarrow> a < b"
    using b(1) assms(2) by (intro chainEdges_forward[of "rev bs" T]) auto
qed

section \<open>Unlinking the merged consumers\<close>

lemma unlink_spec:
  assumes "bi_wf s" "countable_slots s" "distinct ws" "\<And>w. w \<in> set ws \<Longrightarrow> validBarrier s w \<and> T \<subseteq> consumers s w"
    and "foldE (\<lambda>w s. bindE (getBarrierConsumers s w) (\<lambda>cs. bindE (getBarrierOpAtIndex s w) (\<lambda>_.
         if card cs = card T then Inr (resetBarrier w s) else Inr (fold (removeConsumer w) (elems T) s)))) ws s = Inr s'"
    and fin: "finite T"
  shows "bi_wf s' \<and> bi_same s s' \<and>
    (\<forall>x. consumers s' x = (if x \<in> set ws then consumers s x - T else consumers s x)) \<and>
    (\<forall>x. producers s' x = (if x \<in> set ws \<and> consumers s x = T then {} else producers s x))"
  using assms(1-5)
proof (induction ws arbitrary: s)
  case Nil
  then show ?case by simp
next
  case (Cons w ws)
  let ?step = "\<lambda>w s. bindE (getBarrierConsumers s w) (\<lambda>cs. bindE (getBarrierOpAtIndex s w) (\<lambda>_.
         if card cs = card T then Inr (resetBarrier w s) else Inr (fold (removeConsumer w) (elems T) s)))"
  have w: "validBarrier s w" "T \<subseteq> consumers s w" using Cons.prems(4)[of w] by auto
  then have cs: "getBarrierConsumers s w = Inr (consumers s w)"
    using bi_wf_lengths[OF Cons.prems(1)] by (simp add: getBarrierConsumers_def readVector_def validBarrier_def)
  from Cons.prems(5) obtain s1 where s1: "?step w s = Inr s1" and rest: "foldE ?step ws s1 = Inr s'"
    unfolding foldE.simps bindE_Inr by blast
  from s1 cs have s1': "s1 = (if card (consumers s w) = card T then resetBarrier w s else fold (removeConsumer w) (elems T) s)"
    by (auto simp: bindE_Inr split: if_splits)
  have eqT: "card (consumers s w) = card T \<longleftrightarrow> consumers s w = T"
    using card_subset_eq[OF _ w(2)] bi_wf_finite(2)[OF Cons.prems(1), of w] by auto
  note rm = fold_removeConsumer[OF Cons.prems(1), of w "elems T"]
  have one: "bi_wf s1" "bi_same s s1"
    "consumers s1 x = (if x = w then consumers s x - T else consumers s x)"
    "producers s1 x = (if x = w \<and> consumers s x = T then {} else producers s x)" for x
    using resetBarrier_spec(1-4)[OF Cons.prems(1) w(1)] rm fin eqT by (auto simp: s1')
  have "\<And>v. v \<in> set ws \<Longrightarrow> validBarrier s1 v \<and> T \<subseteq> consumers s1 v"
    using Cons.prems(3,4) one(2,3) by (auto simp: bi_same_valid(2))
  from Cons.IH[OF one(1) _ _ this rest] Cons.prems(2,3) countable_slots_same[OF one(2)]
  have IH: "bi_wf s'" "bi_same s1 s'" "\<And>x. consumers s' x = (if x \<in> set ws then consumers s1 x - T else consumers s1 x)"
    "\<And>x. producers s' x = (if x \<in> set ws \<and> consumers s1 x = T then {} else producers s1 x)" by auto
  have "w \<notin> set ws" using Cons.prems(3) by simp
  then have "consumers s' x = (if x \<in> set (w # ws) then consumers s x - T else consumers s x)"
    "producers s' x = (if x \<in> set (w # ws) \<and> consumers s x = T then {} else producers s x)" for x
    by (auto simp: IH(3,4) one(3,4))
  with IH(1,2) bi_same_trans[OF one(2)] show ?case by blast
qed


section \<open>One task\<close>

text \<open>
  What replacing the wait barriers \<open>W\<close> of the consumers \<open>T\<close> by a chain over the batches
  \<open>bs\<close> of their producers does.
\<close>

lemma chain_unlink:
  assumes w: "bi_wf s" and k: "countable_slots s" and f: "forward s"
    and W: "finite W" and T: "T \<noteq> {}" "\<forall>c \<in> T. c < length (allTaskOps s) \<and> waits s c = W"
    and good: "goodBatches bs (\<Union>b \<in> W. producers s b)"
    and run: "unlinkTaskFromParallelBarriers T W (chainBarriers (rev bs) T s) = Inr s'"
  shows "bi_wf s' \<and> countable_slots s' \<and> allTaskOps s' = allTaskOps s \<and> forward s' \<and>
    (\<forall>c \<in> T. waits s' c = {length (allBarrierOps s)}) \<and>
    taskGraph s \<subseteq> (taskGraph s')\<^sup>+ \<and> taskGraph s' \<subseteq> taskGraph s \<union> chainEdges (rev bs) T \<and>
    (bs = [\<Union>b \<in> W. producers s b] \<longrightarrow> taskGraph s' = taskGraph s) \<and>
    (\<forall>c. c \<notin> T \<longrightarrow> c \<notin> (\<Union>b \<in> W. producers s b) \<longrightarrow> waits s' c \<subseteq> waits s c) \<and>
    (\<forall>p \<in> \<Union>b \<in> W. producers s b. \<forall>c \<in> T. p < c)"
proof -
  let ?n = "length (allBarrierOps s)" and ?s1 = "chainBarriers (rev bs) T s" and ?S = "\<Union>b \<in> W. producers s b"
  have bs: "\<Union> (set bs) = ?S" "bs \<noteq> []" using good by (auto simp: goodBatches_def)
  have vT: "validTasks s T" using T(2) by (auto simp: validTasks_def)
  have vS: "?S \<subseteq> {..<length (allTaskOps s)}" using bi_wf_bounds(1)[OF w] by blast
  have vB: "validTasks s B" if "B \<in> set (rev bs)" for B using that bs(1) vS by (auto simp: validTasks_def)
  from chainBarriers_spec[where xs = "rev bs", OF w k vT vB]
  have s1: "bi_wf ?s1" "countable_slots ?s1" "allTaskOps ?s1 = allTaskOps s"
      "length (allBarrierOps ?s1) = ?n + length bs"
    and p1: "\<And>b. producers ?s1 b = (if b < ?n then producers s b else if b < ?n + length bs then rev bs ! (b - ?n) else {})"
    and c1: "\<And>b. consumers ?s1 b = (if b < ?n then consumers s b else if b < ?n + length bs then (T # rev bs) ! (b - ?n) else {})"
    by auto
  have Wn: "b < ?n" "T \<subseteq> consumers s b" if "b \<in> W" for b
  proof -
    obtain c where "c \<in> T" using T(1) by blast
    then have "b \<in> waits s c" using T(2) that by blast
    then show "b < ?n" using bi_wf_bounds(4)[OF w, of c] by auto
    show "T \<subseteq> consumers s b" using T(2) that bi_wf_consumers[OF w] by blast
  qed
  have before: "\<forall>p \<in> ?S. \<forall>t \<in> T. p < t"
    using f Wn(2) bi_wf_producers[OF w] by (fastforce simp: forward_def taskGraph_iff)
  note chain = goodBatches_chain[OF good before]
  have "\<And>b. b \<in> set (elems W) \<Longrightarrow> validBarrier ?s1 b \<and> T \<subseteq> consumers ?s1 b"
    using Wn W s1(4) c1 by (fastforce simp: validBarrier_def)
  note us = unlink_spec[where ws = "elems W", OF s1(1,2) _ this run[unfolded unlinkTaskFromParallelBarriers_def] validTasks_finite[OF vT]]
  have setW: "set (elems W) = W" "distinct (elems W)" using W by simp_all
  note us' = us[OF setW(2), unfolded setW(1)]
  have s': "bi_wf s'" "bi_same ?s1 s'" using us' by blast+
  have cW: "consumers ?s1 x = consumers s x" if "x \<in> W" for x using Wn(1)[OF that] c1[of x] by simp
  have c': "consumers s' x = (if x \<in> W then consumers s x - T else consumers ?s1 x)" for x
    using us'[THEN conjunct2, THEN conjunct2, THEN conjunct1, rule_format, of x] cW[of x] by (cases "x \<in> W") simp_all
  have p': "producers s' x = (if x \<in> W \<and> consumers s x = T then {} else producers ?s1 x)" for x
    using us'[THEN conjunct2, THEN conjunct2, THEN conjunct2, rule_format, of x] cW[of x] by (cases "x \<in> W") simp_all
  have new_edges: "(\<Union>x \<in> {?n..<?n + length bs}. producers s' x \<times> consumers s' x) = chainEdges (rev bs) T"
  proof -
    have "(\<Union>x \<in> {?n..<?n + length bs}. producers s' x \<times> consumers s' x) =
        (\<Union>x \<in> {?n..<?n + length bs}. rev bs ! (x - ?n) \<times> (T # rev bs) ! (x - ?n))"
      using Wn(1) by (intro SUP_cong) (force simp: p' c' p1 c1)+
    also have "\<dots> = (\<Union>i < length (rev bs). rev bs ! i \<times> (T # rev bs) ! i)"
      by (rule set_eqI) (force simp: le_iff_add)
    finally show ?thesis by (simp add: chainEdges_nth)
  qed
  have old_edges: "producers s' x \<times> consumers s' x \<subseteq> producers s x \<times> consumers s x" if "x < ?n" for x
    using that by (auto simp: p' c' p1 c1 split: if_splits)
  have none: "producers s' x \<times> consumers s' x = {}" if "?n + length bs \<le> x" for x
    using that Wn(1)[of x] by (auto simp: p' p1 split: if_splits)
  have up: "taskGraph s' \<subseteq> taskGraph s \<union> chainEdges (rev bs) T"
  proof
    fix e
    assume "e \<in> taskGraph s'"
    then obtain x where x: "e \<in> producers s' x \<times> consumers s' x" unfolding taskGraph_pairs[OF s'(1)] by blast
    consider "x < ?n" | "x \<in> {?n..<?n + length bs}" | "?n + length bs \<le> x" by fastforce
    then show "e \<in> taskGraph s \<union> chainEdges (rev bs) T"
    proof cases
      case 1
      with old_edges x show ?thesis unfolding taskGraph_pairs[OF w] by blast
    next
      case 2
      with x new_edges show ?thesis by blast
    next
      case 3
      with none x show ?thesis by blast
    qed
  qed
  have new_in: "chainEdges (rev bs) T \<subseteq> taskGraph s'"
    unfolding new_edges[symmetric] taskGraph_pairs[OF s'(1)] by blast
  have kept: "e \<in> taskGraph s' \<or> (\<exists>p \<in> ?S. \<exists>c \<in> T. e = (p, c))" if e: "e \<in> taskGraph s" for e
  proof -
    from e obtain x where x: "e \<in> producers s x \<times> consumers s x" unfolding taskGraph_pairs[OF w] by blast
    then have xn: "x < ?n" using bi_wf_lengths[OF w] by (auto dest: entry_in_range)
    show ?thesis
    proof (cases "x \<in> W \<and> snd e \<in> T")
      case True
      with x show ?thesis by (metis UN_I mem_Times_iff prod.collapse)
    next
      case False
      with x xn have "e \<in> producers s' x \<times> consumers s' x" by (auto simp: p' c' p1 c1)
      then show ?thesis unfolding taskGraph_pairs[OF s'(1)] by blast
    qed
  qed
  have lower: "taskGraph s \<subseteq> (taskGraph s')\<^sup>+"
  proof
    fix e
    assume "e \<in> taskGraph s"
    from kept[OF this] show "e \<in> (taskGraph s')\<^sup>+"
    proof (elim disjE bexE)
      fix p c
      assume "p \<in> ?S" "c \<in> T" "e = (p, c)"
      with chain(1)[of p c] show ?thesis using trancl_mono[OF _ new_in] by blast
    qed (rule r_into_trancl')
  qed
  have one: "waits s' c = {?n}" if c: "c \<in> T" for c
  proof -
    have notin: "c \<notin> B" if "B \<in> set bs" for B using before c bs(1) that by blast
    have "x \<in> waits s' c \<longleftrightarrow> x = ?n" for x
    proof -
      have "x \<in> waits s' c \<longleftrightarrow> c \<in> consumers s' x" using bi_wf_consumers[OF s'(1)] by simp
      also have "\<dots> \<longleftrightarrow> x = ?n"
      proof (cases "x < ?n")
        case True
        have "c \<in> consumers s x \<longleftrightarrow> x \<in> W" using T(2) c bi_wf_consumers[OF w] by blast
        with True c show ?thesis by (auto simp: c' c1)
      next
        case False
        then have "x \<notin> W" using Wn(1) by blast
        moreover have "c \<notin> rev bs ! (x - Suc ?n)" if "x - Suc ?n < length bs"
          using notin[of "rev bs ! (x - Suc ?n)"] that by (metis length_rev nth_mem set_rev)
        ultimately show ?thesis using False c bs(2) by (auto simp: c' c1 nth_Cons')
      qed
      finally show ?thesis .
    qed
    then show ?thesis by blast
  qed
  have fwd: "forward s'"
    unfolding forward_def
  proof (clarify)
    fix a b
    assume "(a, b) \<in> taskGraph s'"
    with up have "(a, b) \<in> taskGraph s \<or> (a, b) \<in> chainEdges (rev bs) T" by blast
    then show "a < b" using f chain(2) by (auto simp: forward_def)
  qed
  have same: "taskGraph s' = taskGraph s" if "bs = [?S]"
  proof
    have "chainEdges (rev bs) T \<subseteq> taskGraph s"
      unfolding that taskGraph_pairs[OF w] using Wn(2) by auto
    with up show "taskGraph s' \<subseteq> taskGraph s" by blast
    have "?S \<times> T \<subseteq> taskGraph s'" using new_in unfolding that by simp
    with kept show "taskGraph s \<subseteq> taskGraph s'" by blast
  qed
  have fewer: "waits s' c \<subseteq> waits s c" if c: "c \<notin> T" "c \<notin> ?S" for c
  proof
    fix x
    assume "x \<in> waits s' c"
    then have x: "c \<in> consumers s' x" using bi_wf_consumers[OF s'(1)] by simp
    have notin: "c \<notin> B" if "B \<in> set (rev bs)" for B using that bs(1) c(2) by auto
    have "x < ?n"
    proof (rule ccontr)
      assume n: "\<not> x < ?n"
      then have "x \<notin> W" using Wn(1) by blast
      with x n have in1: "c \<in> (T # rev bs) ! (x - ?n)" "x - ?n < length bs" by (auto simp: c' c1 split: if_splits)
      show False
      proof (cases "x - ?n")
        case 0
        with in1 c(1) show False by simp
      next
        case (Suc j)
        with in1 have "j < length bs" "c \<in> rev bs ! j" by simp_all
        then show False using notin[of "rev bs ! j"] nth_mem[of j "rev bs"] by simp
      qed
    qed
    with x have "c \<in> consumers s x" by (auto simp: c' c1 split: if_splits)
    then show "x \<in> waits s c" using bi_wf_consumers[OF w] by simp
  qed
  have main: "bi_wf s' \<and> countable_slots s' \<and> allTaskOps s' = allTaskOps s \<and> forward s' \<and>
    (\<forall>c \<in> T. waits s' c = {length (allBarrierOps s)}) \<and>
    taskGraph s \<subseteq> (taskGraph s')\<^sup>+ \<and> taskGraph s' \<subseteq> taskGraph s \<union> chainEdges (rev bs) T \<and>
    (bs = [?S] \<longrightarrow> taskGraph s' = taskGraph s)"
    using s' s1 countable_slots_same[OF s'(2)] fwd one lower up same by (auto simp: bi_same_def)
  then show ?thesis using fewer before by blast
qed

lemma mergeParallel_correct:
  assumes it: "set_iteration iter" and w: "bi_wf s" and k: "countable_slots s" and f: "forward s"
    and fit: "tasksFit slots s" and run: "mergeParallelWaitBarriers iter slots t s = Inr s'"
  shows "\<exists>T. T \<noteq> {} \<and> (\<forall>c \<in> T. waits s c = waits s t \<and> waits s' c = {length (allBarrierOps s)}) \<and>
    bi_wf s' \<and> countable_slots s' \<and> allTaskOps s' = allTaskOps s \<and> forward s' \<and> (taskGraph s)\<^sup>+ \<subseteq> (taskGraph s')\<^sup>+ \<and>
    (load s (\<Union>b \<in> waits s t. producers s b) \<le> slots \<longrightarrow> taskGraph s' = taskGraph s) \<and>
    T \<subseteq> {..<length (allTaskOps s)} \<and> (\<forall>c. c \<notin> T \<longrightarrow> waits s' c \<subseteq> waits s c \<or> (\<forall>c' \<in> T. c < c'))"
proof -
  from run obtain W PC PP cnt forC T ok s1 where
    W: "getWaitBarriers s t = Inr W" and PC: "unionOver (getBarrierConsumers s) (elems W) = Inr PC"
    and PP: "unionOver (getBarrierProducers s) (elems W) = Inr PP"
    and cnt: "sumSlots s (elems PP) = Inr cnt" and forC: "availableForConsumers s W PC cnt slots = Inr forC"
    and T: "consumerTasks s W forC (iter PC) 0 {} = Inr T" and ne: "T \<noteq> {}"
    and ok: "canMergeBarriersForTasks s PP (2 * slots - forC) = Inr ok"
    and s1: "(if ok then mergeLegalParallelProducers t PP T s
               else linearizeLegalParallelProducers iter t PP T slots s) = Inr s1"
    and un: "unlinkTaskFromParallelBarriers T W s1 = Inr s'"
    unfolding mergeParallelWaitBarriers_def bindE_Inr guardE_Inr by blast
  have Wt: "t < length (allTaskOps s)" "W = waits s t"
    using W bi_wf_lengths[OF w] by (auto simp: getWaitBarriers_def readVector_def guardE_Inr split: if_splits)
  have finW: "finite W" using w by (simp add: Wt(2))
  have Wb: "b < length (allBarrierOps s)" if "b \<in> W" for b using that bi_wf_bounds(4)[OF w, of t] Wt(2) by auto
  have prod: "getBarrierProducers s b = Inr (producers s b)" if "b \<in> W" for b
    using Wb[OF that] bi_wf_lengths[OF w] by (simp add: getBarrierProducers_def readVector_def)
  have PPeq: "PP = (\<Union>b \<in> W. producers s b)"
    using unionOver_eq[of "elems W" "getBarrierProducers s" "producers s"] prod PP finW by simp
  have vP: "validTasks s PP" using bi_wf_bounds(1)[OF w] by (auto simp: PPeq validTasks_def)
  have Tw: "\<forall>c \<in> T. c < length (allTaskOps s) \<and> waits s c = W" by (rule consumerTasks_waits[OF w T]) simp
  have "\<exists>bs. goodBatches bs PP \<and> s1 = chainBarriers (rev bs) T s \<and> (ok \<longrightarrow> bs = [PP])"
  proof (cases ok)
    case True
    with s1 have "s1 = chainBarriers (rev [PP]) T s" by (auto simp: mergeLegalParallelProducers_def bindE_Inr)
    moreover have "goodBatches [PP] PP" by (simp add: goodBatches_def ascends_def)
    ultimately show ?thesis by blast
  next
    case False
    with s1 W obtain bs0 bs where bs0: "createProducerBatches iter s W slots = Inr bs0"
      and bs: "(if bs0 = [] then createLegalVariantBatches s PP slots else Inr bs0) = Inr bs"
      and s1': "s1 = chainBarriers (rev bs) T s"
      by (auto simp: linearizeLegalParallelProducers_def bindE_Inr chain_fold)
    have "goodBatches bs PP"
    proof (cases "bs0 = []")
      case True
      with bs legal_good(1)[OF k vP fit] show ?thesis by simp
    next
      case False
      with bs have "bs = bs0" by simp
      with producerBatches_good[OF w k fit bs0[unfolded createProducerBatches_def], of "{}"] False
        set_iteration.set_iter[OF it finW] show ?thesis by (simp add: PPeq)
    qed
    with s1' False show ?thesis by blast
  qed
  then obtain bs where good: "goodBatches bs PP" and s1eq: "s1 = chainBarriers (rev bs) T s" and okbs: "ok \<longrightarrow> bs = [PP]"
    by blast
  note cu = chain_unlink[OF w k f finW ne Tw good[unfolded PPeq] un[unfolded s1eq]]
  have single: "ok" if "load s PP \<le> slots"
  proof -
    have "cnt = load s PP"
      using cnt sumSlots_set[of s PP] k vP by (simp add: countable_slots_def load_def validTasks_def)
    with that have "forC = slots" using forC by (simp add: availableForConsumers_def Let_def)
    with ok that canMerge_iff[OF k vP] show ?thesis by simp
  qed
  have sub: "(taskGraph s)\<^sup>+ \<subseteq> (taskGraph s')\<^sup>+"
  proof -
    have "taskGraph s \<subseteq> (taskGraph s')\<^sup>+" using cu by (elim conjE)
    from trancl_mono_subset[OF this] show ?thesis by simp
  qed
  have basic: "bi_wf s' \<and> countable_slots s' \<and> allTaskOps s' = allTaskOps s \<and> forward s'"
    using cu by (elim conjE) (intro conjI)
  have one: "\<forall>c \<in> T. waits s' c = {length (allBarrierOps s)}" using cu by (elim conjE)
  have same: "bs = [\<Union>b \<in> W. producers s b] \<longrightarrow> taskGraph s' = taskGraph s" using cu by (elim conjE)
  have fewer: "\<forall>c. c \<notin> T \<longrightarrow> c \<notin> (\<Union>b \<in> W. producers s b) \<longrightarrow> waits s' c \<subseteq> waits s c"
    using cu by (elim conjE)
  have below: "\<forall>p \<in> \<Union>b \<in> W. producers s b. \<forall>c \<in> T. p < c" using cu by (elim conjE)
  show ?thesis
  proof (intro exI[of _ T] conjI)
    show "load s (\<Union>b \<in> waits s t. producers s b) \<le> slots \<longrightarrow> taskGraph s' = taskGraph s"
      using single okbs same unfolding Wt(2)[symmetric] PPeq[symmetric] by blast
    show "\<forall>c \<in> T. waits s c = waits s t \<and> waits s' c = {length (allBarrierOps s)}"
      using one Tw Wt(2) by simp
    show "\<forall>c. c \<notin> T \<longrightarrow> waits s' c \<subseteq> waits s c \<or> (\<forall>c' \<in> T. c < c')" using fewer below by blast
    show "T \<subseteq> {..<length (allTaskOps s)}" using Tw by blast
  qed (use basic ne sub in auto)
qed


section \<open>All tasks\<close>

definition mergeOk :: "barrier_info \<Rightarrow> nat \<Rightarrow> barrier_info \<Rightarrow> bool" where
  "mergeOk s0 slots s \<longleftrightarrow>
     bi_wf s \<and> countable_slots s \<and> forward s \<and> allTaskOps s = allTaskOps s0 \<and> tasksFit slots s \<and>
     (taskGraph s0)\<^sup>+ \<subseteq> (taskGraph s)\<^sup>+"

lemma mergeParallel_ok:
  assumes "set_iteration iter" "mergeOk s0 slots s" "mergeParallelWaitBarriers iter slots t s = Inr s'"
  shows "mergeOk s0 slots s'"
proof -
  from assms(2) have s: "bi_wf s" "countable_slots s" "forward s" "allTaskOps s = allTaskOps s0" "tasksFit slots s"
    "(taskGraph s0)\<^sup>+ \<subseteq> (taskGraph s)\<^sup>+" by (auto simp: mergeOk_def)
  from mergeParallel_correct[OF assms(1) s(1-3,5) assms(3)]
  have "bi_wf s'" "countable_slots s'" "allTaskOps s' = allTaskOps s" "forward s'" "(taskGraph s)\<^sup>+ \<subseteq> (taskGraph s')\<^sup>+"
    by blast+
  with s show ?thesis by (auto simp: mergeOk_def tasksFit_def)
qed

lemma mergeRound_ok:
  assumes it: "set_iteration iter" and ok: "mergeOk s0 slots s" and run: "mergeRound iter slots (s, m) = Inr (s', m')"
  shows "mergeOk s0 slots s'"
proof -
  have "mergeOk s0 slots (fst (s', m'))"
  proof (rule foldE_invariant[where P = "\<lambda>st. mergeOk s0 slots (fst st)", OF run[unfolded mergeRound_def]])
    fix t st st'
    assume "mergeOk s0 slots (fst st)" and
      "(case st of (s, modifiedIR) \<Rightarrow> bindE (getWaitBarriers s t) (\<lambda>ws. if card ws < 2 then Inr (s, modifiedIR)
         else bindE (mergeParallelWaitBarriers iter slots t s) (\<lambda>s1. Inr (s1, True)))) = Inr st'"
    then show "mergeOk s0 slots (fst st')"
      using mergeParallel_ok[OF it] by (cases st) (auto simp: bindE_Inr split: if_splits)
  qed (use ok in simp)
  then show ?thesis by simp
qed

lemma parallelTasks_eq:
  assumes "bi_wf s"
  shows "tasksWithParallelWaitBarriers s = Inr {t. t < length (allTaskOps s) \<and> 2 \<le> card (waits s t)}"
proof -
  have "foldE (\<lambda>t acc. bindE (getWaitBarriers s t) (\<lambda>ws. Inr (if card ws \<ge> 2 then insert t acc else acc))) ts A =
      Inr (A \<union> {t \<in> set ts. 2 \<le> card (waits s t)})" if "\<forall>t \<in> set ts. t < length (allTaskOps s)" for ts A
    using that
  proof (induction ts arbitrary: A)
    case (Cons t ts)
    then have "getWaitBarriers s t = Inr (waits s t)"
      using bi_wf_lengths[OF assms] by (simp add: getWaitBarriers_def readVector_def)
    with Cons show ?case by auto
  qed simp
  from this[of "[0..<length (allTaskOps s)]" "{}"] show ?thesis
    unfolding tasksWithParallelWaitBarriers_def by (auto simp: conj_commute)
qed

lemma mergeRounds_correct:
  assumes it: "set_iteration iter" and "mergeOk s0 slots (fst st)"
    and "tasksWithParallelWaitBarriers (fst st) = Inr tasks"
    and "mergeRounds fuel iter slots iteratively tasks st = Some (Inr st')"
  shows "mergeOk s0 slots (fst st') \<and> (iteratively \<longrightarrow> tasksWithParallelWaitBarriers (fst st') = Inr {})"
  using assms(2-4)
proof (induction fuel arbitrary: tasks st)
  case (Suc fuel)
  show ?case
  proof (cases "tasks = {}")
    case True
    with Suc.prems show ?thesis by auto
  next
    case False
    obtain st1 where r: "mergeRound iter slots st = Inr st1"
      using Suc.prems(3) False by (cases "mergeRound iter slots st") simp_all
    obtain tasks1 where t1: "tasksWithParallelWaitBarriers (fst st1) = Inr tasks1"
      using Suc.prems(3) False r by (cases "tasksWithParallelWaitBarriers (fst st1)") simp_all
    have "tasks1 \<noteq> tasks"
      using Suc.prems(3) False r t1 by (cases "tasks1 = tasks") (simp_all add: guardE_def)
    then have rest: "(if \<not> iteratively then Some (Inr st1) else mergeRounds fuel iter slots iteratively tasks1 st1) = Some (Inr st')"
      using Suc.prems(3) False r t1 by (simp add: guardE_def)
    have ok1: "mergeOk s0 slots (fst st1)"
      using mergeRound_ok[OF it Suc.prems(1), of "snd st" "fst st1" "snd st1"] r by simp
    show ?thesis
    proof (cases iteratively)
      case True
      with rest Suc.IH[OF ok1 t1] show ?thesis by simp
    next
      case False
      with rest ok1 show ?thesis by auto
    qed
  qed
qed simp

lemma ensureTasks_correct:
  assumes it: "set_iteration iter" and w: "bi_wf s" and k: "countable_slots s" and f: "forward s" and fit: "tasksFit slots s"
    and run: "ensureTasksDrivenBySingleBarrier fuel iter slots iteratively s = Some (Inr (s', m))"
  shows "bi_wf s' \<and> forward s' \<and> (taskGraph s)\<^sup>+ \<subseteq> (taskGraph s')\<^sup>+ \<and>
    (iteratively \<longrightarrow> (\<forall>t. card (waits s' t) \<le> 1))"
proof -
  have ok: "mergeOk s slots s" using assms by (simp add: mergeOk_def)
  from run parallelTasks_eq[OF w] have "mergeRounds fuel iter slots iteratively
      {t. t < length (allTaskOps s) \<and> 2 \<le> card (waits s t)} (s, False) = Some (Inr (s', m))"
    by (simp add: ensureTasksDrivenBySingleBarrier_def)
  from mergeRounds_correct[OF it _ _ this, of s] ok parallelTasks_eq[OF w]
  have r: "mergeOk s slots s'" "iteratively \<longrightarrow> tasksWithParallelWaitBarriers s' = Inr {}" by auto
  have w': "bi_wf s'" using r(1) by (simp add: mergeOk_def)
  have "card (waits s' t) \<le> 1" if "iteratively" for t
  proof (cases "t < length (allTaskOps s')")
    case True
    with that r(2) parallelTasks_eq[OF w'] show ?thesis by fastforce
  next
    case False
    then show ?thesis using bi_wf_lengths[OF w'] by simp
  qed
  with r(1) show ?thesis by (auto simp: mergeOk_def)
qed

end
