(* ===== verification/Barrier_Merge_Total.thy ===== *)
theory Barrier_Merge_Total
  imports Barrier_Merge_Correct
begin

text \<open>
  The iterated \<open>ensureTasksDrivenBySingleBarrier\<close> returns: no merge throws, and every merge
  lowers a weight of the tasks that wait for several barriers, in which a task weighs more
  than all earlier ones together.
\<close>

section \<open>A merge does not throw\<close>

lemma getWaitBarriers_ok: "bi_wf s \<Longrightarrow> t < length (allTaskOps s) \<Longrightarrow> getWaitBarriers s t = Inr (waits s t)"
  using bi_wf_lengths[of s] by (simp add: getWaitBarriers_def readVector_def)

lemma getBarrierProducers_ok:
  "bi_wf s \<Longrightarrow> b < length (allBarrierOps s) \<Longrightarrow> getBarrierProducers s b = Inr (producers s b)"
  using bi_wf_lengths[of s] by (simp add: getBarrierProducers_def readVector_def)

lemma getBarrierConsumers_ok:
  "bi_wf s \<Longrightarrow> b < length (allBarrierOps s) \<Longrightarrow> getBarrierConsumers s b = Inr (consumers s b)"
  using bi_wf_lengths[of s] by (simp add: getBarrierConsumers_def readVector_def)

text \<open>Some task is chosen when one waits for the barriers and every such task fits on its own.\<close>

lemma consumerTasks_total:
  assumes w: "bi_wf s" and k: "countable_slots s" and "\<forall>c \<in> set cs. c < length (allTaskOps s)"
    and "acc \<noteq> {} \<or> n = 0 \<and> (\<exists>c \<in> set cs. waits s c = W) \<and> (\<forall>c \<in> set cs. waits s c = W \<longrightarrow> taskSlots s c \<le> cap)"
  shows "\<exists>T. consumerTasks s W cap cs n acc = Inr T \<and> T \<noteq> {}"
  using assms(3,4)
proof (induction cs arbitrary: n acc)
  case Nil
  then show ?case by simp
next
  case (Cons c cs)
  have c: "getWaitBarriers s c = Inr (waits s c)" "slotsOfTask s c = Inr (taskSlots s c)"
    using Cons.prems(1) w k by (simp_all add: getWaitBarriers_ok slotsOfTask_known countable_slots_def)
  show ?case
  proof (cases "waits s c = W")
    case False
    then have "W \<noteq> waits s c" by blast
    with Cons.IH[of acc n] Cons.prems False show ?thesis by (simp add: c)
  next
    case True
    show ?thesis
    proof (cases "n + taskSlots s c > cap")
      case True': True
      with True Cons.prems(2) have "acc \<noteq> {}" by auto
      with True True' show ?thesis by (simp add: c)
    next
      case False
      with Cons.IH[of "insert c acc" "n + taskSlots s c"] Cons.prems(1) True show ?thesis by (simp add: c)
    qed
  qed
qed

lemma availableForConsumers_total:
  assumes w: "bi_wf s" and k: "countable_slots s" and fit: "tasksFit slots s" and PC: "PC \<subseteq> {..<length (allTaskOps s)}"
  shows "\<exists>cap. availableForConsumers s W PC n slots = Inr cap \<and> (\<forall>c \<in> PC. waits s c = W \<longrightarrow> taskSlots s c \<le> cap)"
proof -
  have fin: "finite PC" using PC by (rule finite_subset) simp
  have own: "\<forall>c \<in> PC. taskSlots s c \<le> slots"
    using fit PC by (auto simp: tasksFit_def list_all_length taskSlots_def)
  have c: "getWaitBarriers s c = Inr (waits s c)" "slotsOfTask s c = Inr (taskSlots s c)" if "c \<in> PC" for c
    using that PC w k by (auto simp: getWaitBarriers_ok slotsOfTask_known countable_slots_def subset_iff)
  have any: "anyE (\<lambda>c. bindE (getWaitBarriers s c) (\<lambda>ws. if W \<noteq> ws then Inr False
        else bindE (slotsOfTask s c) (\<lambda>k. Inr (\<not> k \<le> 2 * slots - n)))) (elems PC)
      = Inr (\<exists>c \<in> set (elems PC). waits s c = W \<and> \<not> taskSlots s c \<le> 2 * slots - n)"
    by (rule anyE_pure) (auto simp: c fin)
  then show ?thesis using own fin by (auto simp: availableForConsumers_def Let_def)
qed

lemma producerBatches_total:
  assumes w: "bi_wf s" and k: "countable_slots s"
    and "\<forall>b \<in> set ws. b < length (allBarrierOps s)" and "\<forall>B \<in> set lb. validTasks s B"
  shows "\<exists>bs. producerBatches s cap ws lb prev = Inr bs"
  using assms(3,4)
proof (induction ws arbitrary: lb prev)
  case Nil
  then show ?case by simp
next
  case (Cons b ws)
  let ?P = "producers s b"
  have P: "getBarrierProducers s b = Inr ?P" using Cons.prems(1) w by (simp add: getBarrierProducers_ok)
  have vP: "validTasks s ?P" using bi_wf_bounds(1)[OF w] by (simp add: validTasks_def)
  obtain cs where cs: "createLegalVariantBatches s ?P cap = Inr cs" "\<Union> (set cs) = ?P"
    using createLegalVariantBatches_spec[OF k vP, of cap] by blast
  have vcs: "\<forall>B \<in> set cs. validTasks s B" using cs(2) vP unfolding validTasks_def by blast
  have IH: "\<exists>bs. producerBatches s cap ws l p = Inr bs" if "\<forall>B \<in> set l. validTasks s B" for l p
    using Cons.IH[of l p] Cons.prems(1) that by simp
  have alone: "\<exists>ds. (if load s ?P \<le> cap then Inr [?P] else createLegalVariantBatches s ?P cap) = Inr ds \<and>
      (\<forall>B \<in> set ds. validTasks s B)" using cs vcs vP by simp
  then obtain ds where ds: "(if load s ?P \<le> cap then Inr [?P] else createLegalVariantBatches s ?P cap) = Inr ds"
    "\<forall>B \<in> set ds. validTasks s B" by blast
  show ?case
  proof (cases "lb = []")
    case True
    then show ?thesis using IH[OF ds(2)] by (simp add: P canMerge_iff[OF k vP] ds(1))
  next
    case False
    then have last: "last lb \<in> set lb" by simp
    then have vc: "validTasks s (last lb \<union> ?P)" using Cons.prems(2) vP by (simp add: validTasks_def)
    have "\<forall>B \<in> set (butlast lb @ [last lb \<union> ?P]). validTasks s B"
      using Cons.prems(2) vc by (auto dest: in_set_butlastD)
    moreover have "\<forall>B \<in> set (lb @ ds). validTasks s B" using Cons.prems(2) ds(2) by auto
    ultimately show ?thesis using IH False
      by (simp add: P Let_def canMerge_iff[OF k vc] canMerge_iff[OF k vP] ds(1))
  qed
qed

lemma unlink_total:
  assumes w: "bi_wf s" and k: "bi_indexed s" and W: "W \<subseteq> {..<length (allBarrierOps s)}" and T: "validTasks s T"
  shows "\<exists>s'. unlinkTaskFromParallelBarriers T W s = Inr s'"
proof -
  let ?P = "\<lambda>x. bi_wf x \<and> bi_same s x"
  have fin: "finite W" using W by (rule finite_subset) simp
  have "\<exists>s'. unlinkTaskFromParallelBarriers T W s = Inr s' \<and> ?P s'"
    unfolding unlinkTaskFromParallelBarriers_def
  proof (rule foldE_defined[where P = ?P])
    show "?P s" using w by simp
    fix x r
    assume x: "x \<in> set (elems W)" and r: "?P r"
    have len: "length (allBarrierOps r) = length (allBarrierOps s)" using r by (simp add: bi_same_def)
    then have v: "x < length (allBarrierOps r)" using x W fin by auto
    have ix: "bi_indexed r" using r k bi_same_indexed by blast
    have read: "getBarrierConsumers r x = Inr (consumers r x)" "getBarrierOpAtIndex r x = Inr (allBarrierOps r ! x)"
      using r v ix by (simp_all add: getBarrierConsumers_ok getBarrierOpAtIndex_ok)
    have "?P (resetBarrier x r)"
      using r resetBarrier_spec(1,2)[of r x] v bi_same_trans by (auto simp: validBarrier_def)
    moreover have "?P (fold (removeConsumer x) (elems T) r)"
      using r fold_removeConsumer[of r x "elems T"] bi_same_trans by auto
    ultimately show "\<exists>r'. bindE (getBarrierConsumers r x) (\<lambda>cs. bindE (getBarrierOpAtIndex r x) (\<lambda>_.
        if card cs = card T then Inr (resetBarrier x r) else Inr (fold (removeConsumer x) (elems T) r))) = Inr r' \<and> ?P r'"
      by (simp add: read)
  qed
  then show ?thesis by blast
qed

lemma mergeParallel_total:
  assumes it: "set_iteration iter" and w: "bi_wf s" and k: "countable_slots s" and fit: "tasksFit slots s"
    and t: "t < length (allTaskOps s)" and ne: "waits s t \<noteq> {}"
  shows "\<exists>s'. mergeParallelWaitBarriers iter slots t s = Inr s'"
proof -
  let ?W = "waits s t"
  let ?PC = "\<Union>b \<in> ?W. consumers s b" and ?PP = "\<Union>b \<in> ?W. producers s b"
  have finW: "finite ?W" using w by simp
  have Wb: "?W \<subseteq> {..<length (allBarrierOps s)}" by (rule bi_wf_bounds(4)[OF w])
  have W: "getWaitBarriers s t = Inr ?W" by (rule getWaitBarriers_ok[OF w t])
  have PC: "unionOver (getBarrierConsumers s) (elems ?W) = Inr ?PC"
    using unionOver_eq[of "elems ?W" "getBarrierConsumers s" "consumers s"] finW Wb w
    by (auto simp: getBarrierConsumers_ok subset_iff)
  have PP: "unionOver (getBarrierProducers s) (elems ?W) = Inr ?PP"
    using unionOver_eq[of "elems ?W" "getBarrierProducers s" "producers s"] finW Wb w
    by (auto simp: getBarrierProducers_ok subset_iff)
  have vP: "validTasks s ?PP" using bi_wf_bounds(1)[OF w] by (auto simp: validTasks_def)
  have PCb: "?PC \<subseteq> {..<length (allTaskOps s)}" using bi_wf_bounds(2)[OF w] by blast
  have finPC: "finite ?PC" using PCb by (rule finite_subset) simp
  have iterPC: "set (iter ?PC) = ?PC" by (rule set_iteration.set_iter[OF it finPC])
  have cnt: "sumSlots s (elems ?PP) = Inr (load s ?PP)"
    using sumSlots_set[of s ?PP] k vP by (simp add: countable_slots_def load_def validTasks_def)
  obtain cap where cap: "availableForConsumers s ?W ?PC (load s ?PP) slots = Inr cap"
    "\<forall>c \<in> ?PC. waits s c = ?W \<longrightarrow> taskSlots s c \<le> cap"
    using availableForConsumers_total[OF w k fit PCb] by blast
  have "t \<in> ?PC" using ne bi_wf_consumers[OF w] by blast
  then obtain T where T: "consumerTasks s ?W cap (iter ?PC) 0 {} = Inr T" "T \<noteq> {}"
    using consumerTasks_total[OF w k, of "iter ?PC" "{}" 0 ?W cap] iterPC PCb cap(2) by auto
  have vT: "validTasks s T" using consumerTasks_waits[OF w T(1)] by (auto simp: validTasks_def)
  have op: "getTaskOpAtIndex s t = Inr (allTaskOps s ! t)"
    using k t by (simp add: countable_slots_def getTaskOpAtIndex_ok)
  have "\<exists>bs. (if load s ?PP \<le> 2 * slots - cap then mergeLegalParallelProducers t ?PP T s
      else linearizeLegalParallelProducers iter t ?PP T slots s) = Inr (chainBarriers (rev bs) T s) \<and>
    (\<forall>B \<in> set bs. validTasks s B)"
  proof (cases "load s ?PP \<le> 2 * slots - cap")
    case True
    then show ?thesis using vP by (intro exI[of _ "[?PP]"]) (simp add: mergeLegalParallelProducers_def op)
  next
    case False
    have iterW: "set (iter ?W) = ?W" by (rule set_iteration.set_iter[OF it finW])
    have "\<forall>b \<in> set (iter ?W). b < length (allBarrierOps s)" using iterW Wb by auto
    then obtain bs0 where bs0: "createProducerBatches iter s ?W slots = Inr bs0"
      unfolding createProducerBatches_def using producerBatches_total[OF w k, where lb = "[]"] by fastforce
    obtain bs1 where bs1: "createLegalVariantBatches s ?PP slots = Inr bs1" "\<Union> (set bs1) = ?PP"
      using createLegalVariantBatches_spec[OF k vP, of slots] by blast
    have "bs0 = [] \<or> \<Union> (set bs0) = ?PP"
      using producerBatches_good[OF w k fit bs0[unfolded createProducerBatches_def], of "{}"] iterW
      by (auto simp: goodBatches_def)
    then have "\<Union> (set (if bs0 = [] then bs1 else bs0)) = ?PP" using bs1(2) by (cases "bs0 = []") simp_all
    then have "\<forall>B \<in> set (if bs0 = [] then bs1 else bs0). validTasks s B"
      using vP unfolding validTasks_def by blast
    with False show ?thesis
      by (intro exI[of _ "if bs0 = [] then bs1 else bs0"])
        (auto simp: linearizeLegalParallelProducers_def W bs0 bs1(1) op chain_fold)
  qed
  then obtain bs where s1: "(if load s ?PP \<le> 2 * slots - cap then mergeLegalParallelProducers t ?PP T s
      else linearizeLegalParallelProducers iter t ?PP T slots s) = Inr (chainBarriers (rev bs) T s)"
    and bs: "\<forall>B \<in> set bs. validTasks s B" by blast
  from chainBarriers_spec[OF w k vT, of "rev bs"] bs
  have r: "bi_wf (chainBarriers (rev bs) T s)" "countable_slots (chainBarriers (rev bs) T s)"
    "allTaskOps (chainBarriers (rev bs) T s) = allTaskOps s"
    "length (allBarrierOps (chainBarriers (rev bs) T s)) = length (allBarrierOps s) + length bs" by simp_all
  obtain s' where un: "unlinkTaskFromParallelBarriers T ?W (chainBarriers (rev bs) T s) = Inr s'"
    using unlink_total[OF r(1), of ?W T] r(2,3,4) Wb vT by (force simp: countable_slots_def validTasks_def)
  show ?thesis
    unfolding mergeParallelWaitBarriers_def W PC PP bindE_simps cnt cap(1) T(1) canMerge_iff[OF k vP]
    using T(2) s1 un by simp
qed

section \<open>The weight of the tasks that wait for several barriers\<close>

definition parallelTasks :: "barrier_info \<Rightarrow> nat set" where
  "parallelTasks s = {t. t < length (allTaskOps s) \<and> 2 \<le> card (waits s t)}"

definition weight :: "nat set \<Rightarrow> nat" where
  "weight A = (\<Sum>t \<in> A. 2 ^ t)"

lemma finite_parallelTasks [simp]: "finite (parallelTasks s)"
  by (simp add: parallelTasks_def)

lemma weight_below: "A \<subseteq> {..<n} \<Longrightarrow> weight A < 2 ^ n"
proof -
  assume A: "A \<subseteq> {..<n}"
  have "weight A \<le> weight {..<n}" unfolding weight_def by (rule sum_mono2) (use A in auto)
  also have "weight {..<n} < 2 ^ n" by (induction n) (simp_all add: weight_def)
  finally show ?thesis .
qed

lemma weight_mono: "finite B \<Longrightarrow> A \<subseteq> B \<Longrightarrow> weight A \<le> weight B"
  unfolding weight_def by (rule sum_mono2) auto

text \<open>Removing an element pays for all smaller ones.\<close>

lemma weight_less:
  assumes "finite B" "m \<in> B" "m \<notin> A" "\<forall>t \<in> A. t \<notin> B \<longrightarrow> t < m"
  shows "weight A < weight B"
proof -
  let ?low = "{t \<in> A. t < m}" and ?high = "{t \<in> A. \<not> t < m}"
  have fin: "finite A" by (rule finite_subset[of _ "B \<union> {..<m}"]) (use assms in auto)
  have "weight A = weight ?low + weight ?high"
  proof -
    have "A = ?low \<union> ?high" "?low \<inter> ?high = {}" by auto
    with fin show ?thesis unfolding weight_def by (metis (no_types, lifting) finite_Un sum.union_disjoint)
  qed
  moreover have "weight ?low < 2 ^ m" by (rule weight_below) auto
  moreover have "weight ?high \<le> weight (B - {m})" by (rule weight_mono) (use assms in auto)
  moreover have "weight B = 2 ^ m + weight (B - {m})" unfolding weight_def by (rule sum.remove[OF assms(1,2)])
  ultimately show ?thesis by simp
qed

lemma mergeParallel_weight:
  assumes "set_iteration iter" "bi_wf s" "countable_slots s" "forward s" "tasksFit slots s"
    and par: "2 \<le> card (waits s t)" and run: "mergeParallelWaitBarriers iter slots t s = Inr s'"
  shows "weight (parallelTasks s') < weight (parallelTasks s)"
proof -
  from mergeParallel_correct[OF assms(1-5) run] obtain T where T: "T \<noteq> {}"
    "\<forall>c \<in> T. waits s c = waits s t \<and> waits s' c = {length (allBarrierOps s)}"
    "allTaskOps s' = allTaskOps s" "T \<subseteq> {..<length (allTaskOps s)}"
    "\<forall>c. c \<notin> T \<longrightarrow> waits s' c \<subseteq> waits s c \<or> (\<forall>c' \<in> T. c < c')" by (elim exE conjE) (rule that)
  have "finite T" using T(4) by (rule finite_subset) simp
  with T(1) have m: "Min T \<in> T" by simp
  show ?thesis
  proof (rule weight_less[where m = "Min T"])
    show "Min T \<in> parallelTasks s" "Min T \<notin> parallelTasks s'"
      using m T(2,4) par by (auto simp: parallelTasks_def)
    show "\<forall>c \<in> parallelTasks s'. c \<notin> parallelTasks s \<longrightarrow> c < Min T"
    proof (intro ballI impI)
      fix c
      assume c: "c \<in> parallelTasks s'" "c \<notin> parallelTasks s"
      then have "c \<notin> T" using T(2) by (auto simp: parallelTasks_def)
      moreover have "\<not> waits s' c \<subseteq> waits s c"
        using c T(3) card_mono[OF bi_wf_finite(4)[OF assms(2)], of "waits s' c" c] by (auto simp: parallelTasks_def)
      ultimately show "c < Min T" using T(5) m by blast
    qed
  qed simp
qed

section \<open>Rounds\<close>

lemma mergeRound_total:
  assumes it: "set_iteration iter" and ok: "mergeOk s0 slots s"
  shows "\<exists>st. mergeRound iter slots (s, m) = Inr st \<and> mergeOk s0 slots (fst st) \<and>
    (parallelTasks s \<noteq> {} \<longrightarrow> weight (parallelTasks (fst st)) < weight (parallelTasks s))"
proof -
  let ?step = "\<lambda>t (s, modifiedIR). bindE (getWaitBarriers s t) (\<lambda>ws. if card ws < 2 then Inr (s, modifiedIR)
         else bindE (mergeParallelWaitBarriers iter slots t s) (\<lambda>s1. Inr (s1, True)))"
  have "\<exists>st. foldE ?step ts (r, m) = Inr st \<and> mergeOk s0 slots (fst st) \<and>
      weight (parallelTasks (fst st)) \<le> weight (parallelTasks r) \<and>
      ((\<exists>t \<in> set ts. 2 \<le> card (waits r t)) \<longrightarrow> weight (parallelTasks (fst st)) < weight (parallelTasks r))"
    if "mergeOk s0 slots r" "\<forall>t \<in> set ts. t < length (allTaskOps s0)" for ts r m
    using that
  proof (induction ts arbitrary: r m)
    case Nil
    then show ?case by simp
  next
    case (Cons t ts)
    from Cons.prems have r: "bi_wf r" "countable_slots r" "forward r" "tasksFit slots r" "t < length (allTaskOps r)"
      by (auto simp: mergeOk_def)
    have W: "getWaitBarriers r t = Inr (waits r t)" by (rule getWaitBarriers_ok[OF r(1,5)])
    show ?case
    proof (cases "card (waits r t) < 2")
      case True
      with Cons.IH[of r m] Cons.prems show ?thesis by (auto simp: W)
    next
      case False
      then have par: "2 \<le> card (waits r t)" "waits r t \<noteq> {}" by auto
      obtain r1 where r1: "mergeParallelWaitBarriers iter slots t r = Inr r1"
        using mergeParallel_total[OF it r(1,2,4,5) par(2)] by blast
      have less: "weight (parallelTasks r1) < weight (parallelTasks r)"
        by (rule mergeParallel_weight[OF it r(1-4) par(1) r1])
      have ok1: "mergeOk s0 slots r1" by (rule mergeParallel_ok[OF it Cons.prems(1) r1])
      from Cons.IH[OF ok1, of True] Cons.prems(2) obtain st where
        "foldE ?step ts (r1, True) = Inr st" "mergeOk s0 slots (fst st)"
        "weight (parallelTasks (fst st)) \<le> weight (parallelTasks r1)" by auto
      with False less show ?thesis by (simp add: W r1)
    qed
  qed
  from this[OF ok, of "[0..<length (allTaskOps s)]" m] ok show ?thesis
    unfolding mergeRound_def by (fastforce simp: mergeOk_def parallelTasks_def)
qed

lemma mergeRounds_total:
  assumes it: "set_iteration iter" and "mergeOk s0 slots (fst st)"
  shows "\<exists>st'. \<forall>fuel > weight (parallelTasks (fst st)).
    mergeRounds fuel iter slots iteratively (parallelTasks (fst st)) st = Some (Inr st')"
  using assms(2)
proof (induction "weight (parallelTasks (fst st))" arbitrary: st rule: less_induct)
  case less
  show ?case
  proof (cases "parallelTasks (fst st) = {}")
    case True
    have "mergeRounds fuel iter slots iteratively (parallelTasks (fst st)) st = Some (Inr st)" if "0 < fuel" for fuel
      using that True by (cases fuel) simp_all
    then show ?thesis by (auto intro!: exI[of _ st])
  next
    case False
    obtain st1 where st1: "mergeRound iter slots st = Inr st1" "mergeOk s0 slots (fst st1)"
      "weight (parallelTasks (fst st1)) < weight (parallelTasks (fst st))"
      using mergeRound_total[OF it less.prems, of "snd st"] False by auto
    have tasks: "tasksWithParallelWaitBarriers (fst st1) = Inr (parallelTasks (fst st1))"
      using st1(2) parallelTasks_eq by (simp add: mergeOk_def parallelTasks_def)
    have new: "parallelTasks (fst st1) \<noteq> parallelTasks (fst st)" using st1(3) by auto
    from less.hyps[OF st1(3,2)] obtain st' where st': "\<forall>fuel > weight (parallelTasks (fst st1)).
      mergeRounds fuel iter slots iteratively (parallelTasks (fst st1)) st1 = Some (Inr st')" by blast
    have "mergeRounds fuel iter slots iteratively (parallelTasks (fst st)) st =
        Some (Inr (if iteratively then st' else st1))" if "weight (parallelTasks (fst st)) < fuel" for fuel
    proof (cases fuel)
      case (Suc n)
      with that st1(3) have "weight (parallelTasks (fst st1)) < n" by simp
      with st' have "mergeRounds n iter slots iteratively (parallelTasks (fst st1)) st1 = Some (Inr st')" by blast
      then show ?thesis using False new by (cases iteratively) (simp_all add: Suc st1(1) tasks)
    qed (use that in simp)
    then show ?thesis by blast
  qed
qed

lemma ensureTasks_total:
  assumes it: "set_iteration iter" and w: "bi_wf s" and k: "countable_slots s" and f: "forward s" and fit: "tasksFit slots s"
  shows "\<exists>s' m. \<forall>fuel \<ge> 2 ^ length (allTaskOps s).
    ensureTasksDrivenBySingleBarrier fuel iter slots iteratively s = Some (Inr (s', m))"
proof -
  have ok: "mergeOk s slots (fst (s, False))" using assms by (simp add: mergeOk_def)
  have "weight (parallelTasks s) < 2 ^ length (allTaskOps s)" by (rule weight_below) (auto simp: parallelTasks_def)
  moreover obtain s' m where "\<forall>fuel > weight (parallelTasks s).
    mergeRounds fuel iter slots iteratively (parallelTasks s) (s, False) = Some (Inr (s', m))"
    using mergeRounds_total[OF it ok, of iteratively] by auto
  ultimately show ?thesis
    using parallelTasks_eq[OF w] by (auto simp: ensureTasksDrivenBySingleBarrier_def parallelTasks_def intro!: exI[of _ s'] exI[of _ m])
qed

end
