(* ===== verification/Barrier_Merge_Properties.thy ===== *)
theory Barrier_Merge_Properties
  imports Barrier_Merge_Total Barrier_Examples
begin

text \<open>The properties of splitting and merging barriers.\<close>

section \<open>Splitting\<close>

text \<open>Three DMA tasks that produce one barrier with two consumers.\<close>

definition wideInfo :: barrier_info where
  "wideInfo = projr (buildBarrierMaps
     [barrierDecl 10, dmaTask [] [10], dmaTask [] [10], dmaTask [] [10], dmaTask [10] [], dmaTask [10] []])"

lemma wideInfo_ok: "bi_wf wideInfo" "countable_slots wideInfo" "tasksFit 2 wideInfo"
  "set [0] = {..<length (allBarrierOps wideInfo)}" "forward wideInfo"
  by code_simp+

text \<open>
  C10: The batches of \<open>createLegalVariantBatches\<close> partition the tasks in ascending order,
  and a batch exceeds the slots only when it is a single task that does.
\<close>

theorem createLegalVariantBatches_partition:
  assumes "countable_slots s" "validTasks s tasks"
  shows "\<exists>bs. createLegalVariantBatches s tasks slots = Inr bs \<and> \<Union> (set bs) = tasks \<and>
    sorted_wrt (\<lambda>A B. \<forall>a \<in> A. \<forall>b \<in> B. a < b) bs \<and>
    (\<forall>B \<in> set bs. load s B \<le> slots \<or> (\<exists>t. B = {t} \<and> slots < taskSlots s t))"
  using createLegalVariantBatches_spec[OF assms, of slots] by (fastforce simp: fits_def load_def)

theorem createLegalVariantBatches_partition_witness:
  "createLegalVariantBatches wideInfo {0, 1, 2} 2 = Inr [{0, 1}, {2}] \<and> \<Union> (set [{0, 1}, {2}]) = {0, 1, 2 :: nat}"
proof -
  have "validTasks wideInfo {0, 1, 2}" by code_simp
  from createLegalVariantBatches_partition[OF wideInfo_ok(2) this, of 2]
  have "\<exists>bs. createLegalVariantBatches wideInfo {0, 1, 2} 2 = Inr bs \<and> \<Union> (set bs) = {0, 1, 2}" by blast
  moreover have "createLegalVariantBatches wideInfo {0, 1, 2} 2 = Inr [{0, 1}, {2}]" by code_simp
  ultimately show ?thesis by auto
qed

text \<open>
  C11: \<open>splitBarriersWithExceedingVariantCount\<close> returns, leaves the graph of the tasks as it
  was, and afterwards every barrier is legal: its producers and its consumers fit the slots, or,
  where the sum of both is bounded, they fit together.
\<close>

theorem splitBarriers_legal:
  assumes "bi_wf s" "countable_slots s" "tasksFit slots s" "set body = {..<length (allBarrierOps s)}"
  shows "\<exists>s' body'. splitBarriersWithExceedingVariantCount slots maxSum maxAvailable (s, body) = Inr (s', body') \<and>
    bi_wf s' \<and> taskGraph s' = taskGraph s \<and>
    (\<forall>b. maxSum < maxAvailable \<and> load s (producers s' b) + load s (consumers s' b) \<le> maxSum \<or>
         load s (producers s' b) \<le> slots \<and> load s (consumers s' b) \<le> slots)"
  using splitBarriers_correct[OF assms] by blast

theorem splitBarriers_legal_witness:
  "\<exists>s' body'. splitBarriersWithExceedingVariantCount 2 4 4 (wideInfo, [0]) = Inr (s', body') \<and>
     taskGraph s' = taskGraph wideInfo \<and> load wideInfo (producers s' 1) \<le> 2"
  using splitBarriers_legal[OF wideInfo_ok(1-4), of 4 4] by fastforce

section \<open>Merging\<close>

text \<open>The bound passed to the first barrier is not read: an equation to compute with.\<close>

lemma producerBatches_first: "producerBatches s slots ws [] p = producerBatches s slots ws [] q"
  by (cases ws) simp_all

lemma createProducerBatches_code [code]:
  "createProducerBatches iter s waitBarriers slots = producerBatches s slots (iter waitBarriers) [] 0"
  unfolding createProducerBatches_def by (rule producerBatches_first)

definition parallelInfo :: barrier_info where
  "parallelInfo = projr (buildBarrierMaps
     [barrierDecl 10, barrierDecl 11, dmaTask [] [10], dmaTask [] [11], dmaTask [10, 11] [], dmaTask [11] []])"

definition parallelMerged :: barrier_info where
  "parallelMerged = projr (mergeParallelWaitBarriers sorted_list_of_set 2 2 parallelInfo)"

definition parallelLinearized :: barrier_info where
  "parallelLinearized = fst (projr (the (ensureTasksDrivenBySingleBarrier 3 sorted_list_of_set 1 True parallelInfo)))"

lemma parallelInfo_ok: "bi_wf parallelInfo" "countable_slots parallelInfo" "forward parallelInfo"
  "tasksFit 1 parallelInfo" "tasksFit 2 parallelInfo"
  by code_simp+

lemma parallelInfo_merged: "mergeParallelWaitBarriers sorted_list_of_set 2 2 parallelInfo = Inr parallelMerged"
  by code_simp

lemma taskGraph_code: "(t, c) \<in> taskGraph s \<longleftrightarrow> Bex (updates s t) (\<lambda>b. c \<in> consumers s b)"
  by (auto simp: taskGraph_iff)

lemma parallelLinearized_changed: "(0, 1) \<notin> taskGraph parallelInfo" "(0, 1) \<in> taskGraph parallelLinearized"
  unfolding taskGraph_code by code_simp+

text \<open>
  \<open>mergeParallelWaitBarriers\<close> leaves the consumers it merges, all of which waited for
  the same barriers as the task, with exactly the new barrier, keeps every ordering and the
  execution order, and adds no ordering when the producers fit the slots.
\<close>

lemma mergeParallelWaitBarriers_single:
  assumes "set_iteration iter" "bi_wf s" "countable_slots s" "forward s" "tasksFit slots s"
    and "mergeParallelWaitBarriers iter slots t s = Inr s'"
  shows "\<exists>T. T \<noteq> {} \<and> (\<forall>c \<in> T. waits s c = waits s t \<and> waits s' c = {length (allBarrierOps s)}) \<and>
    bi_wf s' \<and> forward s' \<and> (taskGraph s)\<^sup>+ \<subseteq> (taskGraph s')\<^sup>+ \<and>
    (load s (\<Union>b \<in> waits s t. producers s b) \<le> slots \<longrightarrow> taskGraph s' = taskGraph s)"
  using mergeParallel_correct[OF assms] by (elim exE conjE) (rule exI, intro conjI)

text \<open>
  C12: \<open>ensureTasksDrivenBySingleBarrier\<close> always returns: on links that agree, in execution
  order, with tasks that fit the slots on their own, \<open>2 ^ n\<close> rounds for \<open>n\<close> tasks are
  enough, and no merge throws. It loses no ordering of the tasks and keeps the execution order;
  iterated, it leaves every task with at most one wait barrier.
\<close>

theorem ensureTasksDrivenBySingleBarrier_returns:
  assumes "set_iteration iter" "bi_wf s" "countable_slots s" "forward s" "tasksFit slots s"
  shows "\<exists>s' modified.
    (\<forall>fuel \<ge> 2 ^ length (allTaskOps s).
       ensureTasksDrivenBySingleBarrier fuel iter slots iteratively s = Some (Inr (s', modified))) \<and>
    bi_wf s' \<and> forward s' \<and> (taskGraph s)\<^sup>+ \<subseteq> (taskGraph s')\<^sup>+ \<and>
    (iteratively \<longrightarrow> (\<forall>t. card (waits s' t) \<le> 1))"
proof -
  from ensureTasks_total[OF assms, of iteratively] obtain s' m where run: "\<forall>fuel \<ge> 2 ^ length (allTaskOps s).
    ensureTasksDrivenBySingleBarrier fuel iter slots iteratively s = Some (Inr (s', m))" by blast
  then have "ensureTasksDrivenBySingleBarrier (2 ^ length (allTaskOps s)) iter slots iteratively s = Some (Inr (s', m))" by simp
  from ensureTasks_correct[OF assms this] run show ?thesis by blast
qed

lemma parallelInfo_enough:
  "ensureTasksDrivenBySingleBarrier 16 sorted_list_of_set 1 True parallelInfo = Some (Inr (parallelLinearized, True))"
  "2 ^ length (allTaskOps parallelInfo) = (16 :: nat)"
  by code_simp+

theorem ensureTasksDrivenBySingleBarrier_returns_witness:
  "ensureTasksDrivenBySingleBarrier 16 sorted_list_of_set 1 True parallelInfo = Some (Inr (parallelLinearized, True)) \<and>
   (0, 1) \<notin> taskGraph parallelInfo \<and> (0, 1) \<in> taskGraph parallelLinearized \<and> card (waits parallelLinearized 2) \<le> 1 \<and>
   (taskGraph parallelInfo)\<^sup>+ \<subseteq> (taskGraph parallelLinearized)\<^sup>+"
proof -
  from ensureTasksDrivenBySingleBarrier_returns[OF ascending.set_iteration_axioms parallelInfo_ok(1-4), of True]
  obtain s' m where r: "\<forall>fuel \<ge> 16. ensureTasksDrivenBySingleBarrier fuel sorted_list_of_set 1 True parallelInfo = Some (Inr (s', m))"
    "(taskGraph parallelInfo)\<^sup>+ \<subseteq> (taskGraph s')\<^sup>+" "card (waits s' 2) \<le> 1"
    unfolding parallelInfo_enough(2) by blast
  from r(1) parallelInfo_enough(1) have "s' = parallelLinearized" by (metis Inr_inject option.inject order_refl prod.inject)
  with r(2,3) parallelInfo_enough(1) parallelLinearized_changed show ?thesis by blast
qed

end
