(* ===== verification/Barrier_Split.thy ===== *)
theory Barrier_Split
  imports Barrier_Build "HOL-Library.AList"
begin

text \<open>
  Splitting the control graph into blocks (\<open>splitControlGraphToBlocks\<close>): the last task of
  every block but the last becomes a sync task with a wait and an update barrier of its own, and
  every dependency that left its block is led through the sync tasks. One definition per step
  of the function.
\<close>

section \<open>Sync tasks\<close>

text \<open>
  The map from a sync task to its wait and update barrier. \<open>operator[]\<close> of a \<open>std::map\<close>
  inserts a pair of zeros for a missing key.
\<close>

type_synonym sync_map = "(nat \<times> nat \<times> nat) list"

definition syncBarriers :: "sync_map \<Rightarrow> nat \<Rightarrow> nat \<times> nat" where
  "syncBarriers m t = (case map_of m t of Some p \<Rightarrow> p | None \<Rightarrow> (0, 0))"

definition touchSync :: "nat \<Rightarrow> sync_map \<Rightarrow> sync_map" where
  "touchSync t m = (if map_of m t = None then AList.update t (0, 0) m else m)"

definition numOfBlocks :: "nat \<Rightarrow> nat \<Rightarrow> nat" where
  "numOfBlocks tasksSize blockSize =
     tasksSize div blockSize + (if tasksSize mod blockSize > 0 then 1 else 0)"

text \<open>Step 1: barriers for the sync task at the end of block \<open>blockInd - 1\<close>.\<close>

definition addSyncBarriers ::
  "nat \<Rightarrow> nat \<Rightarrow> barrier_info \<times> sync_map \<Rightarrow> barrier_error + barrier_info \<times> sync_map" where
  "addSyncBarriers blockSize blockInd st =
     (let (s, m) = st; syncTaskInd = blockInd * blockSize - 1
      in bindE (getTaskOpAtIndex s syncTaskInd) (\<lambda>_.
         bindE (getTaskOpAtIndex s ((blockInd - 1) * blockSize)) (\<lambda>_.
           (let (s1, waitBarInd) = addNewBarrier (createBarrier s) s;
                s2 = addConsumer waitBarInd syncTaskInd s1;
                (s3, updateBarInd) = addNewBarrier (createBarrier s2) s2;
                s4 = addProducer updateBarInd syncTaskInd s3
            in Inr (s4, AList.update syncTaskInd (waitBarInd, updateBarInd) m)))))"

section \<open>Tasks without barriers\<close>

text \<open>
  Step 2, one task: the last task of a queue without an update barrier is linked to the next
  sync task, the first one without a wait barrier to the previous sync task.
\<close>

type_synonym queue_tasks = "(queue_type \<times> nat) list"

definition queueOfTask :: "barrier_info \<Rightarrow> nat \<Rightarrow> barrier_error + queue_type" where
  "queueOfTask s t = bindE (getTaskOpAtIndex s t) (\<lambda>op. getTaskQueueType op False)"

definition linkLastTasks ::
  "nat \<Rightarrow> nat \<Rightarrow> sync_map \<Rightarrow> nat \<Rightarrow> barrier_info \<times> queue_tasks \<Rightarrow> barrier_error + barrier_info \<times> queue_tasks" where
  "linkLastTasks blockSize blocks m taskInd st =
     (let (s, lasts) = st; taskBlockInd = taskInd div blockSize;
          syncTaskInd = taskBlockInd * blockSize + blockSize - 1
      in if taskBlockInd < blocks - 1 then
           if taskInd = syncTaskInd then
             Inr (fold (addProducer (fst (syncBarriers m syncTaskInd))) (map snd lasts) s, [])
           else if taskUpdateBarriers s ! taskInd = {} then
             bindE (queueOfTask s taskInd) (\<lambda>q. Inr (s, AList.update q taskInd lasts))
           else Inr (s, lasts)
         else Inr (s, lasts))"

definition linkFirstTasks ::
  "nat \<Rightarrow> nat \<Rightarrow> sync_map \<Rightarrow> nat \<Rightarrow> barrier_info \<times> queue_tasks \<Rightarrow> barrier_error + barrier_info \<times> queue_tasks" where
  "linkFirstTasks blockSize tasksSize m taskInd st =
     (let (s, firsts) = st; taskBlockInd = taskInd div blockSize;
          syncTaskInd = taskBlockInd * blockSize + blockSize - 1
      in if taskBlockInd > 0 then
           if taskInd = syncTaskInd \<or> taskInd = tasksSize - 1 then
             Inr (fold (addConsumer (snd (syncBarriers m (taskBlockInd * blockSize - 1)))) (map snd firsts) s, [])
           else if taskWaitBarriers s ! taskInd = {} then
             bindE (queueOfTask s taskInd) (\<lambda>q.
               Inr (s, if map_of firsts q = None then AList.update q taskInd firsts else firsts))
           else Inr (s, firsts)
         else Inr (s, firsts))"

definition linkTasksWithoutBarriers ::
  "nat \<Rightarrow> nat \<Rightarrow> nat \<Rightarrow> sync_map \<Rightarrow> barrier_info \<Rightarrow> barrier_error + barrier_info" where
  "linkTasksWithoutBarriers blockSize blocks tasksSize m s =
     bindE (foldE (\<lambda>taskInd (s, firsts, lasts).
         bindE (linkLastTasks blockSize blocks m taskInd (s, lasts)) (\<lambda>(s1, lasts1).
         bindE (linkFirstTasks blockSize tasksSize m taskInd (s1, firsts)) (\<lambda>(s2, firsts1).
           Inr (s2, firsts1, lasts1)))) [0..<tasksSize] (s, [], []))
       (\<lambda>(s1, _, _). Inr s1)"

section \<open>Barriers that cross blocks\<close>

definition getSetWithNoSyncTasks :: "barrier_info \<Rightarrow> task_set \<Rightarrow> task_set" where
  "getSetWithNoSyncTasks s taskSet = Set.filter (\<lambda>t. \<not> isSyncPoint s t) taskSet"

definition blocksOf :: "nat \<Rightarrow> task_set \<Rightarrow> nat set" where
  "blocksOf blockSize taskSet = (\<lambda>t. t div blockSize) ` taskSet"

definition tasksInBlock :: "nat \<Rightarrow> task_set \<Rightarrow> nat \<Rightarrow> task_set" where
  "tasksInBlock blockSize taskSet blk = Set.filter (\<lambda>t. t div blockSize = blk) taskSet"

text \<open>
  Step 3, the producers of block \<open>blk\<close> of a barrier of an earlier block: they leave the
  barrier and produce the next sync task's wait barrier, or, when they are the last producers
  and have consumers in their block, a new barrier for these.
\<close>

definition moveProducers ::
  "(nat set \<Rightarrow> nat list) \<Rightarrow> nat \<Rightarrow> nat \<Rightarrow> nat \<Rightarrow> nat \<Rightarrow> task_set \<Rightarrow> task_set \<Rightarrow> nat
    \<Rightarrow> barrier_info \<times> sync_map \<Rightarrow> barrier_error + barrier_info \<times> sync_map" where
  "moveProducers iter blockSize tasksSize barInd barBlockId prods cons blk st =
     (if blk = barBlockId then Inr st
      else let (s, m) = st; here = tasksInBlock blockSize prods blk;
               s1 = removeProducers barInd here s
           in bindE (if blk \<noteq> Max (blocksOf blockSize prods) \<or> blk \<notin> blocksOf blockSize cons then
                let nextSyncTaskInd = blk * blockSize - 1 + blockSize
                in if nextSyncTaskInd < tasksSize then
                     Inr (addProducers (fst (syncBarriers m nextSyncTaskInd)) (getSetWithNoSyncTasks s1 here) s1,
                       touchSync nextSyncTaskInd m)
                   else Inr (s1, m)
              else bindE (getTaskOpAtIndex s1 (hd (iter here))) (\<lambda>_.
                let (s2, newBarInd) = addNewBarrier (createBarrier s1) s1
                in Inr (addConsumers newBarInd (tasksInBlock blockSize cons blk) (addProducers newBarInd here s2), m)))
            (\<lambda>(s3, m3).
              let syncTaskInd = blk * blockSize - 1
              in Inr (addConsumers (snd (syncBarriers m3 syncTaskInd)) (getSetWithNoSyncTasks s3 here) s3,
                   touchSync syncTaskInd m3)))"

definition dropConsumers :: "nat \<Rightarrow> nat \<Rightarrow> nat \<Rightarrow> task_set \<Rightarrow> nat \<Rightarrow> barrier_info \<Rightarrow> barrier_info" where
  "dropConsumers blockSize barInd barBlockId cons blk s =
     (if blk = barBlockId then s else removeConsumers barInd (tasksInBlock blockSize cons blk) s)"

text \<open>The sync task of the barrier's block consumes it, unless it was its first producer.\<close>

definition linkBarrierToSync ::
  "(nat set \<Rightarrow> nat list) \<Rightarrow> nat \<Rightarrow> nat \<Rightarrow> nat \<Rightarrow> task_set \<Rightarrow> barrier_info \<Rightarrow> barrier_error + barrier_info" where
  "linkBarrierToSync iter blockSize barInd barBlockId prods s =
     (let barSyncTaskInd = barBlockId * blockSize + blockSize - 1
      in case iter (tasksInBlock blockSize prods barBlockId) of
           [] \<Rightarrow> Inl (InvalidRead barBlockId)
         | first # _ \<Rightarrow>
             Inr (if first \<noteq> barSyncTaskInd then addConsumer barInd barSyncTaskInd (removeProducer barInd barSyncTaskInd s)
                  else s))"

definition linkConsumers ::
  "nat \<Rightarrow> nat \<Rightarrow> task_set \<Rightarrow> nat \<Rightarrow> barrier_info \<times> sync_map \<Rightarrow> barrier_info \<times> sync_map" where
  "linkConsumers blockSize barBlockId cons blk st =
     (if blk = barBlockId then st
      else let (s, m) = st; syncTaskInd = blk * blockSize - 1
           in (addConsumers (snd (syncBarriers m syncTaskInd))
                 (getSetWithNoSyncTasks s (tasksInBlock blockSize cons blk)) s, touchSync syncTaskInd m))"

definition splitBarrier ::
  "(nat set \<Rightarrow> nat list) \<Rightarrow> nat \<Rightarrow> nat \<Rightarrow> nat \<Rightarrow> nat \<Rightarrow> task_set \<Rightarrow> task_set
    \<Rightarrow> barrier_info \<times> sync_map \<Rightarrow> barrier_error + barrier_info \<times> sync_map" where
  "splitBarrier iter blockSize tasksSize barInd barBlockId prods cons st =
     bindE (foldE (moveProducers iter blockSize tasksSize barInd barBlockId prods cons)
              (elems (blocksOf blockSize prods)) st) (\<lambda>(s1, m1).
       let s2 = fold (dropConsumers blockSize barInd barBlockId cons) (elems (blocksOf blockSize cons)) s1
       in bindE (linkBarrierToSync iter blockSize barInd barBlockId prods s2) (\<lambda>s3.
            Inr (fold (linkConsumers blockSize barBlockId cons) (elems (blocksOf blockSize cons)) (s3, m1))))"

text \<open>The loop over the barriers there were before the split, with its early exit.\<close>

fun splitBarriers ::
  "(nat set \<Rightarrow> nat list) \<Rightarrow> nat \<Rightarrow> nat \<Rightarrow> nat \<Rightarrow> nat list
    \<Rightarrow> barrier_info \<times> sync_map \<Rightarrow> barrier_error + barrier_info \<times> sync_map" where
  "splitBarriers iter blockSize blocks tasksSize [] st = Inr st"
| "splitBarriers iter blockSize blocks tasksSize (barInd # bars) st =
     (let prods = barrierProducerMap (fst st) ! barInd; cons = barrierConsumerMap (fst st) ! barInd
      in guardE (prods \<noteq> {}) (NoProducers barInd) (guardE (cons \<noteq> {}) (NoConsumers barInd)
        (if card (blocksOf blockSize prods \<union> blocksOf blockSize cons) < 2 then
           splitBarriers iter blockSize blocks tasksSize bars st
         else let barBlockId = min (Min (blocksOf blockSize prods)) (Min (blocksOf blockSize cons))
              in if barBlockId = blocks + 1 then Inr st
                 else bindE (splitBarrier iter blockSize tasksSize barInd barBlockId prods cons st)
                        (splitBarriers iter blockSize blocks tasksSize bars))))"

section \<open>Finishing\<close>

text \<open>Step 4: each sync task releases the next one.\<close>

definition linkSyncTasks :: "nat \<Rightarrow> nat \<Rightarrow> sync_map \<Rightarrow> barrier_info \<Rightarrow> barrier_info" where
  "linkSyncTasks blockSize blocks m s =
     fold (\<lambda>blockInd. addConsumer (snd (syncBarriers m ((blockInd - 1) * blockSize - 1))) (blockInd * blockSize - 1))
       [2..<blocks] s"

text \<open>Step 5: a barrier left without consumers is dropped, its producers go to the sync task.\<close>

definition linkProducerToSync :: "nat \<Rightarrow> nat \<Rightarrow> nat \<Rightarrow> barrier_info \<times> sync_map \<Rightarrow> barrier_info \<times> sync_map" where
  "linkProducerToSync blockSize tasksSize taskInd st =
     (let (s, m) = st; syncTaskInd = (taskInd div blockSize) * blockSize + blockSize - 1
      in if syncTaskInd \<ge> tasksSize \<or> taskInd = syncTaskInd then st
         else (addProducer (fst (syncBarriers m syncTaskInd)) taskInd s, touchSync syncTaskInd m))"

definition sanitizeBarrier ::
  "nat \<Rightarrow> nat \<Rightarrow> nat \<Rightarrow> barrier_info \<times> sync_map \<Rightarrow> barrier_error + barrier_info \<times> sync_map" where
  "sanitizeBarrier blockSize tasksSize barInd st =
     (let (s, m) = st;
          (s1, m1) = (if barrierConsumerMap s ! barInd = {} \<and> barrierProducerMap s ! barInd \<noteq> {} then
                        let (s2, m2) = fold (linkProducerToSync blockSize tasksSize) (elems (barrierProducerMap s ! barInd)) st
                        in (resetBarrier barInd s2, m2)
                      else st)
      in guardE (barrierProducerMap s1 ! barInd = {} \<longrightarrow> barrierConsumerMap s1 ! barInd = {})
           (ConsumersWithoutProducers barInd) (Inr (s1, m1)))"

text \<open>
  Step 6: unused barriers of sync tasks. The code reads the wait barrier for both checks, so
  an update barrier without consumers stays.
\<close>

definition resetUnusedSync :: "nat \<times> nat \<times> nat \<Rightarrow> barrier_info \<Rightarrow> barrier_info" where
  "resetUnusedSync e s =
     (let waitBarInd = fst (snd e); updateBarInd = fst (snd e);
          s1 = (if barrierProducerMap s ! waitBarInd = {} then resetBarrier waitBarInd s else s)
      in if barrierConsumerMap s1 ! updateBarInd = {} then resetBarrier updateBarInd s1 else s1)"

text \<open>Step 7: the attribute of the sync tasks.\<close>

definition markSyncTask :: "nat \<Rightarrow> nat \<Rightarrow> barrier_info \<Rightarrow> barrier_error + barrier_info" where
  "markSyncTask blockSize blockInd s =
     bindE (getTaskOpAtIndex s (blockInd * blockSize - 1)) (\<lambda>op.
       Inr (s\<lparr>allTaskOps := (allTaskOps s)[blockInd * blockSize - 1 := op\<lparr>syncTaskAttr := True\<rparr>]\<rparr>))"

definition splitControlGraphToBlocks ::
  "(nat set \<Rightarrow> nat list) \<Rightarrow> nat \<Rightarrow> barrier_info \<Rightarrow> barrier_error + barrier_info" where
  "splitControlGraphToBlocks iter blockSize s =
     guardE (\<not> blockSize < 2) BlockSizeTooSmall (guardE (\<not> controlGraphBlockSize s > 0) AlreadySplit
       (let tasksSize = length (allTaskOps s)
        in if blockSize \<ge> tasksSize then Inr s
           else let s0 = s\<lparr>controlGraphBlockSize := blockSize\<rparr>; blocks = numOfBlocks tasksSize blockSize;
                    barriersCount = length (allBarrierOps s)
                in bindE (foldE (addSyncBarriers blockSize) [1..<blocks] (s0, [])) (\<lambda>(s1, m).
                   bindE (linkTasksWithoutBarriers blockSize blocks tasksSize m s1) (\<lambda>s2.
                   bindE (splitBarriers iter blockSize blocks tasksSize [0..<barriersCount] (s2, m)) (\<lambda>(s3, m3).
                   bindE (foldE (sanitizeBarrier blockSize tasksSize) [0..<barriersCount]
                            (linkSyncTasks blockSize blocks m3 s3, m3)) (\<lambda>(s5, m5).
                     foldE (markSyncTask blockSize) [1..<blocks] (fold resetUnusedSync m5 s5)))))))"

section \<open>Attributes\<close>

text \<open>Both analyses remove what they attached; it is an error when it is gone.\<close>

definition clearAttributes :: "barrier_info \<Rightarrow> barrier_error + barrier_info" where
  "clearAttributes s =
     bindE (foldE (\<lambda>op ops. guardE (taskIndexAttr op \<noteq> None) MissingAttribute (Inr (ops @ [op\<lparr>taskIndexAttr := None\<rparr>])))
              (allTaskOps s) []) (\<lambda>ts.
     bindE (foldE (\<lambda>op ops. guardE (barIndexAttr op \<noteq> None) MissingAttribute (Inr (ops @ [op\<lparr>barIndexAttr := None\<rparr>])))
              (allBarrierOps s) []) (\<lambda>bs.
       Inr (s\<lparr>allTaskOps := ts, allBarrierOps := bs\<rparr>)))"

definition removeSyncTaskAttributes :: "barrier_info \<Rightarrow> barrier_error + barrier_info" where
  "removeSyncTaskAttributes s =
     (if syncTasksIds s = [] then Inr s
      else foldE (\<lambda>t s. bindE (getTaskOpAtIndex s t) (\<lambda>op.
             guardE (syncTaskAttr op) (MissingSyncAttribute t)
               (Inr (s\<lparr>allTaskOps := (allTaskOps s)[t := op\<lparr>syncTaskAttr := False\<rparr>]\<rparr>))))
           (syncTasksIds s) s)"

end
