(* ===== verification/Barrier_Split_Correct.thy ===== *)
theory Barrier_Split_Correct
  imports Barrier_Split
begin

text \<open>
  Correctness of the split. Each step is described by what it does to the producers and
  consumers of every barrier: the barriers there were before the split change one at a time,
  the ones made for the split only grow, and none of them ever leads an edge out of a block
  except from a sync task.
\<close>

section \<open>Blocks of tasks\<close>

definition syncAt :: "nat \<Rightarrow> nat \<Rightarrow> nat" where
  "syncAt bs k = k * bs + bs - 1"

definition okEdge :: "nat \<Rightarrow> nat \<Rightarrow> nat \<Rightarrow> bool" where
  "okEdge bs p c \<longleftrightarrow> p < c \<and> (if p = syncAt bs (p div bs) then c div bs = p div bs + 1 else c div bs = p div bs)"

lemma div_bounds:
  assumes "0 < (bs :: nat)"
  shows "t div bs * bs \<le> t" "t < t div bs * bs + bs"
proof -
  have "t div bs * bs + t mod bs = t" by simp
  moreover have "t mod bs < bs" using assms by simp
  ultimately show "t div bs * bs \<le> t" "t < t div bs * bs + bs" by linarith+
qed

lemma div_lessI: "0 < (bs :: nat) \<Longrightarrow> a div bs < b div bs \<Longrightarrow> a < b"
  by (metis div_le_mono not_less)

lemma syncAt_div [simp]: "0 < bs \<Longrightarrow> syncAt bs k div bs = k"
proof -
  assume bs: "0 < bs"
  then have "syncAt bs k = bs - 1 + k * bs" by (simp add: syncAt_def)
  moreover have "(bs - 1 + k * bs) div bs = k + (bs - 1) div bs" using bs by (simp only: div_mult_self1 less_numeral_extra(3) neq0_conv)
  ultimately show ?thesis using bs by simp
qed

lemma le_syncAt: "0 < bs \<Longrightarrow> t \<le> syncAt bs (t div bs)"
  using div_bounds(2)[of bs t] by (simp add: syncAt_def)

lemma syncAt_forms:
  "0 < bs \<Longrightarrow> Suc k * bs - 1 = syncAt bs k" "0 < bs \<Longrightarrow> (k + 1) * bs - 1 = syncAt bs k"
  "0 < bs \<Longrightarrow> 0 < k \<Longrightarrow> k * bs - 1 + bs = syncAt bs k" "0 < k \<Longrightarrow> k * bs - 1 = syncAt bs (k - 1)"
  by (cases k; auto simp: syncAt_def algebra_simps)+

lemma numOfBlocks_div:
  assumes "0 < bs" "t < T"
  shows "t div bs < numOfBlocks T bs"
proof (rule ccontr)
  assume "\<not> t div bs < numOfBlocks T bs"
  then have "numOfBlocks T bs * bs \<le> t div bs * bs" by simp
  also have "\<dots> \<le> t" using div_bounds(1)[OF assms(1)] .
  finally have "numOfBlocks T bs * bs \<le> t" .
  moreover have "T \<le> numOfBlocks T bs * bs"
  proof -
    have e: "T div bs * bs + T mod bs = T" by simp
    have "T mod bs < bs" using assms(1) by simp
    then show ?thesis using e unfolding numOfBlocks_def add_mult_distrib by (simp only: split: if_splits) linarith
  qed
  ultimately show False using assms(2) by linarith
qed

lemma numOfBlocks_sync:
  assumes "0 < bs" "k < numOfBlocks T bs - 1"
  shows "syncAt bs k + 1 < T"
proof -
  have "(k + 1) * bs < T"
  proof (cases "T mod bs = 0")
    case True
    with assms(2) have "k + 1 < T div bs" by (simp add: numOfBlocks_def)
    then have "(k + 1) * bs < T div bs * bs" using assms(1) by (simp only: mult_less_cancel2)
    then show ?thesis using div_bounds(1)[OF assms(1), of T] by linarith
  next
    case False
    with assms(2) have "(k + 1) * bs \<le> T div bs * bs" by (intro mult_le_mono1) (simp add: numOfBlocks_def)
    moreover have "T = T div bs * bs + T mod bs" by simp
    ultimately show ?thesis using False by linarith
  qed
  then show ?thesis using assms(1) by (simp add: syncAt_def algebra_simps)
qed

lemma isSyncPoint_iff:
  assumes "0 < bs" "controlGraphBlockSize s = bs" "length (allTaskOps s) = T" "t < T"
  shows "isSyncPoint s t \<longleftrightarrow> t = syncAt bs (t div bs) \<and> t div bs < numOfBlocks T bs - 1"
proof -
  have m: "(t + 1) mod bs = 0 \<longleftrightarrow> t = syncAt bs (t div bs)"
  proof
    assume "(t + 1) mod bs = 0"
    then obtain j where j: "t + 1 = bs * j" by auto
    then obtain i where "j = Suc i" by (cases j) auto
    with j have "t = syncAt bs i" using assms(1) by (simp add: syncAt_def algebra_simps)
    then show "t = syncAt bs (t div bs)" using assms(1) by simp
  next
    assume "t = syncAt bs (t div bs)"
    then have "t + 1 = (t div bs + 1) * bs" using assms(1) by (simp add: syncAt_def algebra_simps)
    then show "(t + 1) mod bs = 0" by (metis mod_mult_self2_is_0)
  qed
  have "t div bs < numOfBlocks T bs - 1" if "t \<noteq> T - 1" "t = syncAt bs (t div bs)"
  proof -
    have "(t + 1) div bs < numOfBlocks T bs" using that(1) assms by (intro numOfBlocks_div) auto
    moreover have "t + 1 = (t div bs + 1) * bs"
      using that(2) assms(1) by (simp add: syncAt_def algebra_simps)
    then have "(t + 1) div bs = t div bs + 1" using assms(1) by (metis div_mult_self_is_m)
    ultimately show ?thesis by simp
  qed
  moreover have "t \<noteq> T - 1" if "t div bs < numOfBlocks T bs - 1" "t = syncAt bs (t div bs)"
    using numOfBlocks_sync[OF assms(1) that(1)] that(2) by simp
  moreover have "int t = int T - 1 \<longleftrightarrow> t = T - 1" using assms(4) by auto
  ultimately show ?thesis using assms(1) m unfolding isSyncPoint_def assms(2,3) by auto
qed


section \<open>States during the split\<close>

abbreviation waitBar :: "nat \<Rightarrow> nat \<Rightarrow> nat" where
  "waitBar B k \<equiv> B + 2 * k"
abbreviation updateBar :: "nat \<Rightarrow> nat \<Rightarrow> nat" where
  "updateBar B k \<equiv> B + 2 * k + 1"

text \<open>
  \<open>B\<close> barriers were there before the split, \<open>n\<close> sync tasks have their two barriers, and
  every other new barrier only has edges inside a block.
\<close>

definition splitBase :: "nat \<Rightarrow> task_op list \<Rightarrow> barrier_info \<Rightarrow> bool" where
  "splitBase bs ops s \<longleftrightarrow> bi_wf s \<and> bi_indexed s \<and> allTaskOps s = ops \<and> controlGraphBlockSize s = bs"

definition syncBars :: "nat \<Rightarrow> nat \<Rightarrow> nat \<Rightarrow> (nat \<Rightarrow> nat set) \<Rightarrow> (nat \<Rightarrow> nat set) \<Rightarrow> bool" where
  "syncBars bs n B pr cn \<longleftrightarrow>
     (\<forall>k < n. pr (waitBar B k) \<subseteq> {t. t div bs = k \<and> t \<noteq> syncAt bs k} \<and> cn (waitBar B k) = {syncAt bs k} \<and>
        pr (updateBar B k) = {syncAt bs k} \<and> cn (updateBar B k) \<subseteq> {t. t div bs = k + 1}) \<and>
     (\<forall>b \<ge> B + 2 * n. \<forall>p \<in> pr b. \<forall>c \<in> cn b. okEdge bs p c)"

definition splitOk :: "nat \<Rightarrow> nat \<Rightarrow> nat \<Rightarrow> task_op list \<Rightarrow> barrier_info \<Rightarrow> bool" where
  "splitOk bs n B ops s \<longleftrightarrow>
     splitBase bs ops s \<and> B + 2 * n \<le> length (allBarrierOps s) \<and> syncBars bs n B (producers s) (consumers s)"

definition effect :: "nat set \<Rightarrow> nat \<Rightarrow> barrier_info \<Rightarrow> barrier_info \<Rightarrow> bool" where
  "effect X B s s' \<longleftrightarrow>
     length (allBarrierOps s) \<le> length (allBarrierOps s') \<and>
     (\<forall>j. j \<notin> X \<and> j < B \<longrightarrow> producers s' j = producers s j \<and> consumers s' j = consumers s j) \<and>
     (\<forall>j. B \<le> j \<longrightarrow> producers s j \<subseteq> producers s' j \<and> consumers s j \<subseteq> consumers s' j)"

lemma effect_refl [simp]: "effect X B s s"
  by (simp add: effect_def)

lemma effect_trans: "effect X B s s' \<Longrightarrow> effect X B s' s'' \<Longrightarrow> effect X B s s''"
  unfolding effect_def by (metis order_trans)

lemma effect_mono: "effect X B s s' \<Longrightarrow> X \<subseteq> Y \<Longrightarrow> effect Y B s s'"
  unfolding effect_def by blast

lemma effectD:
  assumes "effect X B s s'"
  shows "j \<notin> X \<Longrightarrow> j < B \<Longrightarrow> producers s' j = producers s j" "j \<notin> X \<Longrightarrow> j < B \<Longrightarrow> consumers s' j = consumers s j"
    "B \<le> j \<Longrightarrow> p \<in> producers s j \<Longrightarrow> p \<in> producers s' j" "B \<le> j \<Longrightarrow> p \<in> consumers s j \<Longrightarrow> p \<in> consumers s' j"
  using assms by (auto simp: effect_def)

lemma splitOk_base:
  assumes "splitOk bs n B ops s"
  shows "bi_wf s" "bi_indexed s" "allTaskOps s = ops" "controlGraphBlockSize s = bs" "B + 2 * n \<le> length (allBarrierOps s)"
  using assms by (auto simp: splitOk_def splitBase_def)

lemma splitBase_same: "splitBase bs ops s \<Longrightarrow> bi_wf s' \<Longrightarrow> bi_same s s' \<Longrightarrow> splitBase bs ops s'"
  using bi_same_indexed[of s s'] by (simp add: splitBase_def bi_same_def)

lemma odd_even [simp]: "Suc (2 * k) \<noteq> 2 * k'" "2 * k' \<noteq> Suc (2 * k)"
  by presburger+

lemma syncBars_at:
  assumes "syncBars bs n B pr cn" "k < n"
  shows "pr (waitBar B k) \<subseteq> {t. t div bs = k \<and> t \<noteq> syncAt bs k}" "cn (waitBar B k) = {syncAt bs k}"
    "pr (updateBar B k) = {syncAt bs k}" "cn (updateBar B k) \<subseteq> {t. t div bs = k + 1}"
  using assms unfolding syncBars_def by blast+

lemma syncBars_producers:
  assumes s: "syncBars bs n B pr cn" and k: "k < n" and A: "A \<subseteq> {t. t div bs = k \<and> t \<noteq> syncAt bs k}"
  shows "syncBars bs n B (\<lambda>j. if j = waitBar B k then pr j \<union> A else pr j) cn"
proof -
  have "\<forall>b \<ge> B + 2 * n. \<forall>p \<in> pr b. \<forall>c \<in> cn b. okEdge bs p c" using s by (simp add: syncBars_def)
  moreover have "b \<noteq> waitBar B k" if "B + 2 * n \<le> b" for b using that k by simp
  ultimately show ?thesis
    unfolding syncBars_def using syncBars_at[OF s] A by (intro conjI allI impI) simp_all
qed

lemma syncBars_consumers:
  assumes s: "syncBars bs n B pr cn" and k: "k < n" and A: "A \<subseteq> {t. t div bs = k + 1}"
  shows "syncBars bs n B pr (\<lambda>j. if j = updateBar B k then cn j \<union> A else cn j)"
proof -
  have "\<forall>b \<ge> B + 2 * n. \<forall>p \<in> pr b. \<forall>c \<in> cn b. okEdge bs p c" using s by (simp add: syncBars_def)
  moreover have "b \<noteq> updateBar B k" if "B + 2 * n \<le> b" for b using that k by simp
  ultimately show ?thesis
    unfolding syncBars_def using syncBars_at[OF s] A by (intro conjI allI impI) simp_all
qed

text \<open>Producers of a wait barrier, consumers of an update barrier.\<close>

lemma splitOk_addProducer:
  assumes s: "splitOk bs n B ops s" and k: "k < n"
    and ts: "\<And>t. t \<in> set ts \<Longrightarrow> t < length ops \<and> t div bs = k \<and> t \<noteq> syncAt bs k"
  defines "s' \<equiv> fold (addProducer (waitBar B k)) ts s"
  shows "splitOk bs n B ops s'" "effect {} B s s'" "set ts \<subseteq> producers s' (waitBar B k)"
    "updates s' t = (if t \<in> set ts then insert (waitBar B k) (updates s t) else updates s t)" "waits s' t = waits s t"
    "taskWaitBarriers s' = taskWaitBarriers s" "allBarrierOps s' = allBarrierOps s"
proof -
  note b = splitOk_base[OF s]
  have "validBarrier s (waitBar B k)" "\<And>t. t \<in> set ts \<Longrightarrow> validTask s t"
    using b k ts by (auto simp: validBarrier_def validTask_def)
  from fold_addProducer[where ts = ts, OF b(1) this] have f: "bi_wf s'" "bi_same s s'"
    "barrierConsumerMap s' = barrierConsumerMap s" "taskWaitBarriers s' = taskWaitBarriers s"
    "\<And>j. producers s' j = (if j = waitBar B k then producers s j \<union> set ts else producers s j)"
    "\<And>t. updates s' t = (if t \<in> set ts then insert (waitBar B k) (updates s t) else updates s t)"
    by (simp_all add: s'_def)
  show "effect {} B s s'" using f by (auto simp: effect_def bi_same_def)
  show "updates s' t = (if t \<in> set ts then insert (waitBar B k) (updates s t) else updates s t)"
    "waits s' t = waits s t" "taskWaitBarriers s' = taskWaitBarriers s" "allBarrierOps s' = allBarrierOps s"
    using f by (simp_all add: bi_same_def)
  have "splitBase bs ops s'" using splitBase_same f(1,2) s by (auto simp: splitOk_def)
  moreover have "syncBars bs n B (producers s') (consumers s')"
    unfolding f(3,5) by (rule syncBars_producers) (use s k ts in \<open>auto simp: splitOk_def\<close>)
  ultimately show "splitOk bs n B ops s'" using b f(2) by (simp add: splitOk_def bi_same_def)
  show "set ts \<subseteq> producers s' (waitBar B k)" using f(5) by simp
qed


lemma splitOk_addConsumer:
  assumes s: "splitOk bs n B ops s" and k: "k < n"
    and ts: "\<And>t. t \<in> set ts \<Longrightarrow> t < length ops \<and> t div bs = k + 1"
  defines "s' \<equiv> fold (addConsumer (updateBar B k)) ts s"
  shows "splitOk bs n B ops s'" "effect {} B s s'" "set ts \<subseteq> consumers s' (updateBar B k)"
    "waits s' t = (if t \<in> set ts then insert (updateBar B k) (waits s t) else waits s t)" "updates s' t = updates s t"
    "taskUpdateBarriers s' = taskUpdateBarriers s" "allBarrierOps s' = allBarrierOps s"
proof -
  note b = splitOk_base[OF s]
  have "validBarrier s (updateBar B k)" "\<And>t. t \<in> set ts \<Longrightarrow> validTask s t"
    using b k ts by (auto simp: validBarrier_def validTask_def)
  from fold_addConsumer[where ts = ts, OF b(1) this] have f: "bi_wf s'" "bi_same s s'"
    "barrierProducerMap s' = barrierProducerMap s" "taskUpdateBarriers s' = taskUpdateBarriers s"
    "\<And>j. consumers s' j = (if j = updateBar B k then consumers s j \<union> set ts else consumers s j)"
    "\<And>t. waits s' t = (if t \<in> set ts then insert (updateBar B k) (waits s t) else waits s t)"
    by (simp_all add: s'_def)
  show "effect {} B s s'" using f by (auto simp: effect_def bi_same_def)
  show "waits s' t = (if t \<in> set ts then insert (updateBar B k) (waits s t) else waits s t)"
    "updates s' t = updates s t" "taskUpdateBarriers s' = taskUpdateBarriers s" "allBarrierOps s' = allBarrierOps s"
    using f by (simp_all add: bi_same_def)
  have "splitBase bs ops s'" using splitBase_same f(1,2) s by (auto simp: splitOk_def)
  moreover have "syncBars bs n B (producers s') (consumers s')"
    unfolding f(3,5) by (rule syncBars_consumers) (use s k ts in \<open>auto simp: splitOk_def\<close>)
  ultimately show "splitOk bs n B ops s'" using b f(2) by (simp add: splitOk_def bi_same_def)
  show "set ts \<subseteq> consumers s' (updateBar B k)" using f(5) by simp
qed

text \<open>A change of one of the barriers there were before.\<close>

lemma splitOk_old:
  assumes s: "splitOk bs n B ops s" and "bi_wf s'" "bi_same s s'"
    and "\<And>j. j \<noteq> b \<Longrightarrow> producers s' j = producers s j \<and> consumers s' j = consumers s j" and "b < B"
  shows "splitOk bs n B ops s'" "effect {b} B s s'"
proof -
  have "splitBase bs ops s'" using splitBase_same assms(2,3) s by (auto simp: splitOk_def)
  moreover have e: "producers s' j = producers s j" "consumers s' j = consumers s j" if "B \<le> j" for j
    using assms(4)[of j] that assms(5) by auto
  then have "syncBars bs n B (producers s') (consumers s')"
    using s unfolding splitOk_def syncBars_def by simp
  ultimately show "splitOk bs n B ops s'" using s assms(3) by (simp add: splitOk_def bi_same_def)
  show "effect {b} B s s'" using assms(3,4) e by (auto simp: effect_def bi_same_def)
qed

text \<open>A new barrier between tasks of one block.\<close>

lemma splitOk_new:
  assumes s: "splitOk bs n B ops s" and new: "addNewBarrier (createBarrier s) s = (s2, i)"
    and ps: "ps \<subseteq> {..<length ops}" and cs: "cs \<subseteq> {..<length ops}"
    and ok: "\<And>p c. p \<in> ps \<Longrightarrow> c \<in> cs \<Longrightarrow> okEdge bs p c"
  defines "s' \<equiv> addConsumers i cs (addProducers i ps s2)"
  shows "splitOk bs n B ops s'" "effect {} B s s'"
    "\<exists>b \<ge> B. ps \<subseteq> producers s' b \<and> cs \<subseteq> consumers s' b"
proof -
  note b = splitOk_base[OF s]
  note a = addNewBarrier_spec[OF b(1) new]
  have idx: "bi_indexed s2" using b(2) new
    by (auto simp: addNewBarrier_def Let_def bi_indexed_def nth_append less_Suc_eq)
  have v: "validTasks s2 ps" using ps a(4) b(3) by (simp add: validTasks_def)
  note p = addProducers_spec[OF a(1,3) v]
  have c: "validTasks (addProducers i ps s2) cs" "validBarrier (addProducers i ps s2) i"
    using cs a(3,4) b(3) p(2) by (simp_all add: validTasks_def validBarrier_def bi_same_def)
  note c = addConsumers_spec[OF p(1) c(2,1), folded s'_def]
  have e: "producers s' j = (if j = i then producers s j \<union> ps else producers s j)"
    "consumers s' j = (if j = i then consumers s j \<union> cs else consumers s j)" for j
    using c(3,5) p(3,5) a(10,11) by simp_all
  have out: "producers s i = {}" "consumers s i = {}" using a(2) bi_wf_lengths[OF b(1)] by simp_all
  have same: "bi_same s2 s'" using p(2) c(2) bi_same_trans by blast
  then have len: "length (allBarrierOps s') = Suc (length (allBarrierOps s))" using a(5) by (simp add: bi_same_def)
  have "splitBase bs ops s'"
    using same c(1) bi_same_indexed[OF same] idx a(4,7) b by (simp add: splitBase_def bi_same_def)
  moreover have "syncBars bs n B (producers s') (consumers s')"
  proof -
    have ne: "waitBar B k \<noteq> i" "updateBar B k \<noteq> i" if "k < n" for k using that b(5) a(2) by auto
    have "okEdge bs p c" if "j \<ge> B + 2 * n" "p \<in> producers s' j" "c \<in> consumers s' j" for j p c
      using that ok out e s by (cases "j = i") (auto simp: splitOk_def syncBars_def)
    moreover note syncBars_at[of bs n B "producers s" "consumers s"]
    ultimately show ?thesis using s ne unfolding splitOk_def syncBars_def by (simp add: e)
  qed
  ultimately show "splitOk bs n B ops s'" using b(5) len by (simp add: splitOk_def)
  show "effect {} B s s'"
  proof -
    have "j \<noteq> i" if "j < B" for j using that b(5) a(2) by simp
    then show ?thesis using len by (auto simp: effect_def e)
  qed
  show "\<exists>b \<ge> B. ps \<subseteq> producers s' b \<and> cs \<subseteq> consumers s' b"
    using b(5) a(2) by (intro exI[of _ i]) (auto simp: e)
qed


section \<open>Step 1\<close>

definition syncMapOk :: "nat \<Rightarrow> nat \<Rightarrow> nat \<Rightarrow> sync_map \<Rightarrow> bool" where
  "syncMapOk bs n B m \<longleftrightarrow>
     (\<forall>k < n. map_of m (syncAt bs k) = Some (waitBar B k, updateBar B k)) \<and>
     (\<forall>e \<in> set m. \<exists>k < n. fst (snd e) = waitBar B k)"

lemma syncMapOk_at:
  assumes "syncMapOk bs n B m" "k < n"
  shows "syncBarriers m (syncAt bs k) = (waitBar B k, updateBar B k)" "touchSync (syncAt bs k) m = m"
  using assms by (simp_all add: syncMapOk_def syncBarriers_def touchSync_def)

lemma set_update_subset: "set (AList.update k v al) \<subseteq> insert (k, v) (set al)"
  by (induction al) auto

lemma syncAt_inject: "0 < bs \<Longrightarrow> syncAt bs k = syncAt bs k' \<longleftrightarrow> k = k'"
  by (metis syncAt_div)

lemma addSyncBarriers_ok:
  assumes bs: "0 < bs" and s: "splitOk bs n B ops s" and len: "length (allBarrierOps s) = B + 2 * n"
    and m: "syncMapOk bs n B m" and t: "syncAt bs n < length ops"
  shows "\<exists>s' m'. addSyncBarriers bs (n + 1) (s, m) = Inr (s', m') \<and> splitOk bs (n + 1) B ops s' \<and>
    length (allBarrierOps s') = B + 2 * (n + 1) \<and> syncMapOk bs (n + 1) B m' \<and> effect {} B s s' \<and>
    (\<forall>t. t \<noteq> syncAt bs n \<longrightarrow> updates s' t = updates s t \<and> waits s' t = waits s t)"
proof -
  note b = splitOk_base[OF s]
  obtain s1 w where n1: "addNewBarrier (createBarrier s) s = (s1, w)" by fastforce
  note a1 = addNewBarrier_spec[OF b(1) n1]
  let ?t = "syncAt bs n" let ?s2 = "addConsumer w ?t s1"
  have t1: "validTask s1 ?t" using t a1(4) b(3) by (simp add: validTask_def)
  note w2 = addConsumer_wf[OF a1(1,3) t1] note l2 = addConsumer_links[OF a1(1,3) t1]
  obtain s3 u where n3: "addNewBarrier (createBarrier ?s2) ?s2 = (s3, u)" by fastforce
  note a3 = addNewBarrier_spec[OF w2 n3]
  let ?s4 = "addProducer u ?t s3"
  have t3: "validTask s3 ?t" using t1 a3(4) by (simp add: validTask_def)
  note w4 = addProducer_wf[OF a3(1,3) t3] note l4 = addProducer_links[OF a3(1,3) t3]
  let ?m = "AList.update ?t (w, u) m"
  have "n * bs < length ops" using t bs unfolding syncAt_def by linarith
  moreover have "?t < length ops" "(n + 1) * bs - 1 = ?t" using t syncAt_forms(2)[OF bs] by simp_all
  ultimately have r: "addSyncBarriers bs (n + 1) (s, m) = Inr (?s4, ?m)"
    using getTaskOpAtIndex_ok[OF b(2)] b(3) n1 n3 by (simp add: addSyncBarriers_def Let_def)
  have wu: "w = waitBar B n" "u = updateBar B n" using a1(2,5) a3(2) len by simp_all
  have idx: "bi_indexed s1" using b(2) n1 by (auto simp: addNewBarrier_def Let_def bi_indexed_def nth_append less_Suc_eq)
  then have "bi_indexed ?s2" by (simp add: bi_indexed_def)
  then have "bi_indexed s3" using n3 by (auto simp: addNewBarrier_def Let_def bi_indexed_def nth_append less_Suc_eq)
  then have idx4: "bi_indexed ?s4" by (simp add: bi_indexed_def)
  have e: "producers ?s4 j = (if j = u then insert ?t (producers s j) else producers s j)"
    "consumers ?s4 j = (if j = w then insert ?t (consumers s j) else consumers s j)" for j
    using l2 l4(1) a1(10,11) a3(10,11) by simp_all
  have out: "producers s j = {}" "consumers s j = {}" if "B + 2 * n \<le> j" for j
    using that len bi_wf_lengths[OF b(1)] by simp_all
  have e': "updates ?s4 t = updates s t" "waits ?s4 t = waits s t" if "t \<noteq> ?t" for t
    using l2(2) l4(2) a1(12,13) a3(12,13) that by simp_all
  have l: "length (allBarrierOps ?s4) = B + 2 * (n + 1)" using a1(5) a3(5) len by simp
  have pe: "producers ?s4 = (\<lambda>j. if j = updateBar B n then insert ?t (producers s j) else producers s j)"
    by (rule ext) (simp only: e(1), simp only: wu(2))
  have ce: "consumers ?s4 = (\<lambda>j. if j = waitBar B n then insert ?t (consumers s j) else consumers s j)"
    by (rule ext) (simp only: e(2), simp only: wu(1))
  have "syncBars bs (n + 1) B (producers ?s4) (consumers ?s4)"
    using s out unfolding splitOk_def syncBars_def pe ce by (auto simp: less_Suc_eq)
  then have k: "splitOk bs (n + 1) B ops ?s4"
    using w4 idx4 a1(4,7) a3(4,7) b(3,4) l by (simp add: splitOk_def splitBase_def)
  have mk: "syncMapOk bs (n + 1) B ?m"
  proof -
    have "map_of ?m (syncAt bs k) = Some (waitBar B k, updateBar B k)" if "k < n + 1" for k
      using that m wu syncAt_inject[OF bs, of k n] by (auto simp: update_conv' syncMapOk_def less_Suc_eq)
    moreover have "\<exists>k < n + 1. fst (snd e) = waitBar B k" if "e \<in> set ?m" for e
    proof (cases "e \<in> set m")
      case True
      with m show ?thesis unfolding syncMapOk_def by (meson less_SucI add.commute less_add_same_cancel1 less_trans zero_less_one)
    next
      case False
      with that set_update_subset[of ?t "(w, u)" m] show ?thesis by (intro exI[of _ n]) (auto simp: wu)
    qed
    ultimately show ?thesis by (simp add: syncMapOk_def)
  qed
  have "effect {} B s ?s4" using l len unfolding effect_def pe ce by auto
  with r k l mk e' show ?thesis by blast
qed

lemma addSyncBarriers_all:
  assumes bs: "0 < bs" and s: "splitOk bs 0 B ops s" and len: "length (allBarrierOps s) = B"
    and t: "\<And>k. k < n \<Longrightarrow> syncAt bs k < length ops"
  shows "\<exists>s' m'. foldE (addSyncBarriers bs) [1..<n + 1] (s, []) = Inr (s', m') \<and> splitOk bs n B ops s' \<and>
    length (allBarrierOps s') = B + 2 * n \<and> syncMapOk bs n B m' \<and> effect {} B s s' \<and>
    (\<forall>t. (\<forall>k < n. t \<noteq> syncAt bs k) \<longrightarrow> updates s' t = updates s t \<and> waits s' t = waits s t)"
  using t
proof (induction n)
  case 0
  then show ?case using s len by (simp add: syncMapOk_def)
next
  case (Suc n)
  then obtain s1 m1 where r: "foldE (addSyncBarriers bs) [1..<n + 1] (s, []) = Inr (s1, m1)"
    and k1: "splitOk bs n B ops s1" "length (allBarrierOps s1) = B + 2 * n" "syncMapOk bs n B m1" "effect {} B s s1"
    and u1: "\<forall>t. (\<forall>k < n. t \<noteq> syncAt bs k) \<longrightarrow> updates s1 t = updates s t \<and> waits s1 t = waits s t" by auto
  from addSyncBarriers_ok[OF bs k1(1-3) Suc.prems[of n]] obtain s2 m2 where
    r2: "addSyncBarriers bs (n + 1) (s1, m1) = Inr (s2, m2)"
    and k2: "splitOk bs (n + 1) B ops s2" "length (allBarrierOps s2) = B + 2 * (n + 1)" "syncMapOk bs (n + 1) B m2" "effect {} B s1 s2"
    and u2: "\<forall>t. t \<noteq> syncAt bs n \<longrightarrow> updates s2 t = updates s1 t \<and> waits s2 t = waits s1 t" by auto
  have "foldE (addSyncBarriers bs) [1..<Suc n + 1] (s, []) = Inr (s2, m2)"
    using r r2 by (simp add: foldE_append)
  moreover have "\<forall>t. (\<forall>k < Suc n. t \<noteq> syncAt bs k) \<longrightarrow> updates s2 t = updates s t \<and> waits s2 t = waits s t"
    using u1 u2 by (simp add: less_Suc_eq)
  ultimately show ?case using k2 effect_trans[OF k1(4) k2(4)] by auto
qed


section \<open>Step 2\<close>

text \<open>
  What has been seen when the loop reaches task \<open>t\<close>: in the blocks before it the last task of
  each queue without an update barrier produces the wait barrier of the sync task; in its own
  block the map of last tasks holds these tasks.
\<close>

definition queueOf :: "task_op list \<Rightarrow> nat \<Rightarrow> queue_type" where
  "queueOf ops t = projr (getTaskQueueType (ops ! t) False)"

definition lastLinked :: "nat \<Rightarrow> nat \<Rightarrow> nat \<Rightarrow> task_op list \<Rightarrow> barrier_info \<Rightarrow> nat \<Rightarrow> bool" where
  "lastLinked bs n B ops s t \<longleftrightarrow>
     (\<exists>u \<ge> t. u div bs = t div bs \<and> u < length ops \<and> queueOf ops u = queueOf ops t \<and>
        u \<in> producers s (waitBar B (t div bs)))"

definition lastInv ::
  "nat \<Rightarrow> nat \<Rightarrow> nat \<Rightarrow> task_op list \<Rightarrow> barrier_info \<Rightarrow> nat \<Rightarrow> barrier_info \<Rightarrow> queue_tasks \<Rightarrow> bool" where
  "lastInv bs n B ops s1 t s lasts \<longleftrightarrow>
     splitOk bs n B ops s \<and> effect {} B s1 s \<and>
     (\<forall>u \<ge> t. u < length ops \<longrightarrow> updates s u = updates s1 u) \<and>
     (\<forall>u < t. updates s1 u = {} \<longrightarrow> u div bs < n \<longrightarrow>
        lastLinked bs n B ops s u \<or>
        (u div bs = t div bs \<and> (\<exists>v \<ge> u. map_of lasts (queueOf ops u) = Some v))) \<and>
     (\<forall>q v. (q, v) \<in> set lasts \<longrightarrow>
        v < t \<and> v < length ops \<and> v div bs = t div bs \<and> t div bs < n \<and> v \<noteq> syncAt bs (t div bs) \<and> queueOf ops v = q)"

definition firstInv :: "nat \<Rightarrow> task_op list \<Rightarrow> nat \<Rightarrow> queue_tasks \<Rightarrow> bool" where
  "firstInv bs ops t firsts \<longleftrightarrow> (\<forall>q v. (q, v) \<in> set firsts \<longrightarrow> v < t \<and> v < length ops \<and> v div bs = t div bs \<and> 0 < t div bs)"

lemma next_block:
  assumes "0 < bs"
  shows "t = syncAt bs (t div bs) \<Longrightarrow> Suc t div bs = t div bs + 1" "t \<noteq> syncAt bs (t div bs) \<Longrightarrow> Suc t div bs = t div bs"
proof -
  assume "t = syncAt bs (t div bs)"
  then have "Suc t = (t div bs + 1) * bs" using assms by (simp add: syncAt_def algebra_simps)
  then show "Suc t div bs = t div bs + 1" using assms by (metis div_mult_self_is_m)
next
  assume "t \<noteq> syncAt bs (t div bs)"
  then have "t < syncAt bs (t div bs)" using le_syncAt[OF assms, of t] by linarith
  then have "Suc t div bs \<le> t div bs" using assms by (metis Suc_leI div_le_mono syncAt_div)
  moreover have "t div bs \<le> Suc t div bs" by (rule div_le_mono) simp
  ultimately show "Suc t div bs = t div bs" by (rule antisym)
qed

lemma queueOfTask_ok:
  assumes "bi_indexed s" "allTaskOps s = ops" "t < length ops" "\<forall>t < length ops. \<exists>q. getTaskQueueType (ops ! t) False = Inr q"
  shows "queueOfTask s t = Inr (queueOf ops t)"
  using assms by (auto simp: queueOfTask_def getTaskOpAtIndex_ok queueOf_def)


lemma lastLinked_effect: "lastLinked bs n B ops s t \<Longrightarrow> effect X B s s' \<Longrightarrow> lastLinked bs n B ops s' t"
  unfolding lastLinked_def using effectD(3)[of X B s s'] by fastforce

lemma sync_updates:
  assumes "splitOk bs n B ops s" "k < n"
  shows "updates s (syncAt bs k) \<noteq> {}"
proof -
  have "syncAt bs k \<in> producers s (updateBar B k)" using assms by (auto simp: splitOk_def syncBars_def)
  then show ?thesis using bi_wf_producers[OF splitOk_base(1)[OF assms(1)]] by blast
qed

lemma lastInvI:
  assumes "splitOk bs n B ops s" "effect {} B s1 s" "\<And>u. t \<le> u \<Longrightarrow> u < length ops \<Longrightarrow> updates s u = updates s1 u"
    "\<And>u. u < t \<Longrightarrow> updates s1 u = {} \<Longrightarrow> u div bs < n \<Longrightarrow> lastLinked bs n B ops s u \<or>
        (u div bs = t div bs \<and> (\<exists>v \<ge> u. map_of lasts (queueOf ops u) = Some v))"
    "\<And>q v. (q, v) \<in> set lasts \<Longrightarrow>
        v < t \<and> v < length ops \<and> v div bs = t div bs \<and> t div bs < n \<and> v \<noteq> syncAt bs (t div bs) \<and> queueOf ops v = q"
  shows "lastInv bs n B ops s1 t s lasts"
  using assms unfolding lastInv_def by blast

lemma linkLastTasks_ok:
  assumes bs: "0 < bs" and inv: "lastInv bs n B ops s1 t s lasts" and m: "syncMapOk bs n B m" and s1: "splitOk bs n B ops s1"
    and t: "t < length ops" and qs: "\<forall>t < length ops. \<exists>q. getTaskQueueType (ops ! t) False = Inr q"
  shows "\<exists>s' lasts'. linkLastTasks bs (n + 1) m t (s, lasts) = Inr (s', lasts') \<and> lastInv bs n B ops s1 (Suc t) s' lasts'"
proof -
  from inv have k: "splitOk bs n B ops s" "effect {} B s1 s"
    and u: "\<And>u. t \<le> u \<Longrightarrow> u < length ops \<Longrightarrow> updates s u = updates s1 u"
    and linked: "\<And>u. u < t \<Longrightarrow> updates s1 u = {} \<Longrightarrow> u div bs < n \<Longrightarrow> lastLinked bs n B ops s u \<or>
        (u div bs = t div bs \<and> (\<exists>v \<ge> u. map_of lasts (queueOf ops u) = Some v))"
    and lasts: "\<And>q v. (q, v) \<in> set lasts \<Longrightarrow>
        v < t \<and> v < length ops \<and> v div bs = t div bs \<and> t div bs < n \<and> v \<noteq> syncAt bs (t div bs) \<and> queueOf ops v = q"
    unfolding lastInv_def by blast+
  note b = splitOk_base[OF k(1)]
  have tu: "taskUpdateBarriers s ! t = updates s t" using bi_wf_lengths[OF b(1)] b(3) t by simp
  have sync: "t div bs * bs + bs - Suc 0 = syncAt bs (t div bs)" by (simp add: syncAt_def)
  note nb = next_block[OF bs, of t]
  show ?thesis
  proof (cases "t div bs < n")
    case False
    then have "lasts = []" using lasts by (cases lasts) auto
    have "lastInv bs n B ops s1 (Suc t) s lasts"
    proof (rule lastInvI[OF k u])
      fix u assume "u < Suc t" "updates s1 u = {}" "u div bs < n"
      then show "lastLinked bs n B ops s u \<or>
          (u div bs = Suc t div bs \<and> (\<exists>v \<ge> u. map_of lasts (queueOf ops u) = Some v))"
        using linked[of u] False by (cases "u = t") auto
    qed (use \<open>lasts = []\<close> in auto)
    then show ?thesis using False by (simp add: linkLastTasks_def)
  next
    case n: True
    show ?thesis
    proof (cases "t = syncAt bs (t div bs)")
      case True
      define s' where "s' = fold (addProducer (waitBar B (t div bs))) (map snd lasts) s"
      have vs: "v < length ops \<and> v div bs = t div bs \<and> v \<noteq> syncAt bs (t div bs) \<and> v < t" if "v \<in> set (map snd lasts)" for v
        using that lasts by force
      note f = splitOk_addProducer[OF k(1) n, of "map snd lasts", folded s'_def] vs
      have "lastInv bs n B ops s1 (Suc t) s' []"
      proof (rule lastInvI)
        show "splitOk bs n B ops s'" "effect {} B s1 s'" using f(1,2) vs effect_trans[OF k(2)] by blast+
        show "updates s' u = updates s1 u" if "Suc t \<le> u" "u < length ops" for u
        proof -
          have "u \<notin> set (map snd lasts)" using vs[of u] that(1) by linarith
          then show ?thesis using f(4)[of u] vs u[of u] that by simp
        qed
        fix u assume u: "u < Suc t" "updates s1 u = {}" "u div bs < n"
        have "u \<noteq> t" using u(2) True sync_updates[OF s1 n] by auto
        with u(1) have "u < t" by simp
        from linked[OF this u(2,3)] show "lastLinked bs n B ops s' u \<or>
            u div bs = Suc t div bs \<and> (\<exists>v \<ge> u. map_of [] (queueOf ops u) = Some v)"
        proof
          assume "lastLinked bs n B ops s u"
          with lastLinked_effect f(2) vs show ?thesis by blast
        next
          assume "u div bs = t div bs \<and> (\<exists>v \<ge> u. map_of lasts (queueOf ops u) = Some v)"
          then obtain v where v: "u div bs = t div bs" "u \<le> v" "map_of lasts (queueOf ops u) = Some v" by blast
          then have "(queueOf ops u, v) \<in> set lasts" by (simp add: map_of_SomeD)
          moreover from this have "v \<in> producers s' (waitBar B (t div bs))" using f(3) vs by force
          ultimately show ?thesis using v lasts unfolding lastLinked_def by metis
        qed
      qed simp
      moreover have "linkLastTasks bs (n + 1) m t (s, lasts) = Inr (s', [])"
        using n True syncMapOk_at(1)[OF m n] by (simp add: linkLastTasks_def Let_def sync s'_def)
      ultimately show ?thesis by blast
    next
      case False
      have eq: "Suc t div bs = t div bs" by (rule nb(2)[OF False])
      show ?thesis
      proof (cases "updates s t = {}")
        case True
        let ?l = "AList.update (queueOf ops t) t lasts"
        have "lastInv bs n B ops s1 (Suc t) s ?l"
        proof (rule lastInvI[OF k u])
          fix u assume u: "u < Suc t" "updates s1 u = {}" "u div bs < n"
          show "lastLinked bs n B ops s u \<or>
              u div bs = Suc t div bs \<and> (\<exists>v \<ge> u. map_of ?l (queueOf ops u) = Some v)"
            using linked[of u] u by (cases "u = t") (auto simp: eq update_conv')
        next
          fix q v assume "(q, v) \<in> set ?l"
          then have "(q, v) \<in> insert (queueOf ops t, t) (set lasts)" using set_update_subset by fast
          then show "v < Suc t \<and> v < length ops \<and> v div bs = Suc t div bs \<and> Suc t div bs < n \<and>
              v \<noteq> syncAt bs (Suc t div bs) \<and> queueOf ops v = q"
            using lasts[of q v] t False n by (auto simp: eq)
        qed auto
        moreover have "linkLastTasks bs (n + 1) m t (s, lasts) = Inr (s, ?l)"
          using n False True queueOfTask_ok[OF b(2,3) t qs] by (simp add: linkLastTasks_def Let_def sync tu)
        ultimately show ?thesis by blast
      next
        case ne: False
        have "lastInv bs n B ops s1 (Suc t) s lasts"
        proof (rule lastInvI[OF k u])
          fix u assume u: "u < Suc t" "updates s1 u = {}" "u div bs < n"
          have "u \<noteq> t" using ne \<open>\<And>u. t \<le> u \<Longrightarrow> u < length ops \<Longrightarrow> updates s u = updates s1 u\<close>[of t] t u(2) by auto
          with linked[of u] u show "lastLinked bs n B ops s u \<or>
              u div bs = Suc t div bs \<and> (\<exists>v \<ge> u. map_of lasts (queueOf ops u) = Some v)" by (auto simp: eq)
        next
          fix q v assume "(q, v) \<in> set lasts"
          from lasts[OF this] show "v < Suc t \<and> v < length ops \<and> v div bs = Suc t div bs \<and> Suc t div bs < n \<and>
              v \<noteq> syncAt bs (Suc t div bs) \<and> queueOf ops v = q" by (simp add: eq)
        qed auto
        moreover have "linkLastTasks bs (n + 1) m t (s, lasts) = Inr (s, lasts)"
          using n False ne by (simp add: linkLastTasks_def Let_def sync tu)
        ultimately show ?thesis by blast
      qed
    qed
  qed
qed


lemma linkFirstTasks_ok:
  assumes bs: "0 < bs" and k: "splitOk bs n B ops s" and inv: "firstInv bs ops t firsts" and m: "syncMapOk bs n B m"
    and t: "t < length ops" and qs: "\<forall>t < length ops. \<exists>q. getTaskQueueType (ops ! t) False = Inr q"
    and last: "t div bs \<le> n"
  shows "\<exists>s' firsts'. linkFirstTasks bs (length ops) m t (s, firsts) = Inr (s', firsts') \<and> firstInv bs ops (Suc t) firsts' \<and>
    splitOk bs n B ops s' \<and> effect {} B s s' \<and> taskUpdateBarriers s' = taskUpdateBarriers s"
proof -
  from inv have firsts: "\<And>q v. (q, v) \<in> set firsts \<Longrightarrow> v < t \<and> v < length ops \<and> v div bs = t div bs \<and> 0 < t div bs"
    unfolding firstInv_def by blast
  note b = splitOk_base[OF k]
  have sync: "t div bs * bs + bs - Suc 0 = syncAt bs (t div bs)" by (simp add: syncAt_def)
  show ?thesis
  proof (cases "0 < t div bs")
    case False
    then have "firsts = []" using firsts by (cases firsts) auto
    with False k show ?thesis by (simp add: linkFirstTasks_def firstInv_def)
  next
    case pos: True
    have ub: "t div bs * bs - Suc 0 = syncAt bs (t div bs - Suc 0)" using syncAt_forms(4)[OF pos] by simp
    show ?thesis
    proof (cases "t = syncAt bs (t div bs) \<or> t = length ops - 1")
      case True
      define s' where "s' = fold (addConsumer (updateBar B (t div bs - 1))) (map snd firsts) s"
      have n: "t div bs - 1 < n" using last pos by linarith
      have vs: "v < length ops \<and> v div bs = t div bs - 1 + 1" if "v \<in> set (map snd firsts)" for v
        using that firsts pos by force
      have r: "linkFirstTasks bs (length ops) m t (s, firsts) = Inr (s', [])"
        using pos True syncMapOk_at(1)[OF m n] by (simp add: linkFirstTasks_def Let_def sync ub s'_def)
      note f = splitOk_addConsumer[where ts = "map snd firsts", OF k n vs, folded s'_def]
      show ?thesis
        by (intro exI[of _ s'] exI[of _ "[]"] conjI r f) (simp_all add: firstInv_def)
    next
      case False
      then have eq: "Suc t div bs = t div bs" using next_block(2)[OF bs] by blast
      have "firstInv bs ops (Suc t) firsts" "firstInv bs ops (Suc t) (AList.update q t firsts)" for q
        unfolding firstInv_def eq using firsts t pos set_update_subset[of q t firsts] by fastforce+
      then show ?thesis
        using pos False k queueOfTask_ok[OF b(2,3) t qs] by (simp add: linkFirstTasks_def Let_def sync ub)
    qed
  qed
qed

lemma linkTasksWithoutBarriers_ok:
  assumes bs: "0 < bs" and s1: "splitOk bs n B ops s1" and m: "syncMapOk bs n B m"
    and qs: "\<forall>t < length ops. \<exists>q. getTaskQueueType (ops ! t) False = Inr q"
    and last: "\<And>t. t < length ops \<Longrightarrow> t div bs \<le> n" and sync: "\<And>k. k < n \<Longrightarrow> syncAt bs k < length ops"
  shows "\<exists>s. linkTasksWithoutBarriers bs (n + 1) (length ops) m s1 = Inr s \<and> splitOk bs n B ops s \<and> effect {} B s1 s \<and>
    (\<forall>t < length ops. updates s1 t = {} \<longrightarrow> t div bs < n \<longrightarrow> lastLinked bs n B ops s t)"
proof -
  let ?body = "\<lambda>taskInd (s, firsts, lasts).
         bindE (linkLastTasks bs (n + 1) m taskInd (s, lasts)) (\<lambda>(s1, lasts1).
         bindE (linkFirstTasks bs (length ops) m taskInd (s1, firsts)) (\<lambda>(s2, firsts1).
           Inr (s2, firsts1, lasts1)))"
  have "\<exists>s firsts lasts. foldE ?body [0..<T] (s1, [], []) = Inr (s, firsts, lasts) \<and>
      lastInv bs n B ops s1 T s lasts \<and> firstInv bs ops T firsts" if "T \<le> length ops" for T
    using that
  proof (induction T)
    case 0
    have "lastInv bs n B ops s1 0 s1 []" by (rule lastInvI[OF s1]) simp_all
    then show ?case by (simp add: firstInv_def)
  next
    case (Suc T)
    then obtain s firsts lasts where r: "foldE ?body [0..<T] (s1, [], []) = Inr (s, firsts, lasts)"
      and inv: "lastInv bs n B ops s1 T s lasts" and fi: "firstInv bs ops T firsts" by auto
    have T: "T < length ops" using Suc.prems by simp
    from linkLastTasks_ok[OF bs inv m s1 T qs] obtain s2 lasts2 where
      r2: "linkLastTasks bs (n + 1) m T (s, lasts) = Inr (s2, lasts2)" and inv2: "lastInv bs n B ops s1 (Suc T) s2 lasts2" by blast
    then have k2: "splitOk bs n B ops s2" by (simp add: lastInv_def)
    from linkFirstTasks_ok[OF bs k2 fi m T qs last[OF T]] obtain s3 firsts3 where
      r3: "linkFirstTasks bs (length ops) m T (s2, firsts) = Inr (s3, firsts3)" and fi3: "firstInv bs ops (Suc T) firsts3"
      and k3: "splitOk bs n B ops s3" "effect {} B s2 s3" "taskUpdateBarriers s3 = taskUpdateBarriers s2" by blast
    have "lastInv bs n B ops s1 (Suc T) s3 lasts2"
      using inv2 k3 effect_trans[of "{}" B s1 s2 s3] lastLinked_effect[of bs n B ops s2 _ "{}" s3]
      unfolding lastInv_def k3(3) by blast
    then show ?case using r r2 r3 fi3 by (simp add: foldE_append)
  qed
  from this[of "length ops"] obtain s firsts lasts where
    r: "foldE ?body [0..<length ops] (s1, [], []) = Inr (s, firsts, lasts)"
    and inv: "lastInv bs n B ops s1 (length ops) s lasts" by auto
  have "lastLinked bs n B ops s t" if t: "t < length ops" "updates s1 t = {}" "t div bs < n" for t
  proof -
    have "length ops div bs \<noteq> t div bs \<or> lasts = []"
    proof (rule ccontr)
      assume "\<not> ?thesis"
      then have "length ops div bs = t div bs" by simp
      moreover have "syncAt bs (t div bs) + 1 \<le> length ops" using sync[OF t(3)] by simp
      then have "(t div bs + 1) * bs \<le> length ops" using bs by (simp add: syncAt_def algebra_simps)
      then have "(t div bs + 1) * bs div bs \<le> length ops div bs" by (rule div_le_mono)
      ultimately show False using bs by simp
    qed
    then show ?thesis using inv t unfolding lastInv_def by fastforce
  qed
  with r inv show ?thesis unfolding lastInv_def linkTasksWithoutBarriers_def by simp
qed


section \<open>Step 3\<close>

lemma tasksInBlock_eq: "tasksInBlock bs A k = {t \<in> A. t div bs = k}"
  by (auto simp: tasksInBlock_def)

lemma noSync_eq:
  assumes "0 < bs" "splitOk bs n B ops s" "numOfBlocks (length ops) bs = n + 1" "A \<subseteq> {..<length ops}"
  shows "getSetWithNoSyncTasks s A = {t \<in> A. \<not> (t = syncAt bs (t div bs) \<and> t div bs < n)}"
  using isSyncPoint_iff[OF assms(1) splitOk_base(4)[OF assms(2)], of "length ops"] splitOk_base(3)[OF assms(2)] assms(3,4)
  by (auto simp: getSetWithNoSyncTasks_def subset_iff)

text \<open>Producers and consumers of one barrier of a graph in execution order.\<close>

definition ordered :: "nat \<Rightarrow> nat set \<Rightarrow> nat set \<Rightarrow> bool" where
  "ordered T P C \<longleftrightarrow> P \<subseteq> {..<T} \<and> C \<subseteq> {..<T} \<and> P \<noteq> {} \<and> C \<noteq> {} \<and> (\<forall>p \<in> P. \<forall>c \<in> C. p < c)"

text \<open>What happened to the producers of block \<open>blk\<close>.\<close>

definition moved :: "nat \<Rightarrow> nat \<Rightarrow> nat \<Rightarrow> nat set \<Rightarrow> nat set \<Rightarrow> nat \<Rightarrow> barrier_info \<Rightarrow> bool" where
  "moved bs n B P C blk s \<longleftrightarrow>
     (\<forall>p \<in> P. \<forall>c \<in> C. p div bs = blk \<and> c div bs = blk \<longrightarrow> (\<exists>b \<ge> B. p \<in> producers s b \<and> c \<in> consumers s b)) \<and>
     (\<forall>p \<in> P. p div bs = blk \<and> blk < n \<and> p \<noteq> syncAt bs blk \<longrightarrow>
        p \<in> producers s (waitBar B blk) \<or> (\<exists>c \<in> C. c div bs = blk))"

lemma moved_effect: "moved bs n B P C blk s \<Longrightarrow> effect X B s s' \<Longrightarrow> moved bs n B P C blk s'"
  unfolding moved_def using effectD(3,4)[of X B s s'] by (meson trans_le_add1 order_refl)

lemma finite_bounded: "A \<subseteq> {..<(n :: nat)} \<Longrightarrow> finite A"
  by (rule finite_subset[of _ "{..<n}"]) simp_all

lemma moveProducers_ok:
  assumes bs: "0 < bs" and it: "set_iteration iter" and k: "splitOk bs n B ops s" and m: "syncMapOk bs n B m"
    and blocks: "numOfBlocks (length ops) bs = n + 1" and b: "b < B" and o: "ordered (length ops) P C"
    and blk: "blk \<in> blocksOf bs P" "k0 < blk"
  shows "\<exists>s'. moveProducers iter bs (length ops) b k0 P C blk (s, m) = Inr (s', m) \<and> splitOk bs n B ops s' \<and>
    effect {b} B s s' \<and> producers s' b = producers s b - {p \<in> P. p div bs = blk} \<and> consumers s' b = consumers s b \<and>
    moved bs n B P C blk s'"
proof -
  let ?here = "tasksInBlock bs P blk"
  have P: "P \<subseteq> {..<length ops}" "C \<subseteq> {..<length ops}" "C \<noteq> {}" "\<And>p c. p \<in> P \<Longrightarrow> c \<in> C \<Longrightarrow> p < c"
    using o by (auto simp: ordered_def)
  have hereT: "?here \<subseteq> {..<length ops}" using P(1) by (auto simp: tasksInBlock_eq)
  note fin = finite_bounded[OF P(1)] finite_bounded[OF P(2)] finite_bounded[OF hereT]
  have div_n: "t div bs \<le> n" if "t < length ops" for t using numOfBlocks_div[OF bs that] blocks by simp
  obtain p0 where p0: "p0 \<in> P" "p0 div bs = blk" using blk(1) by (auto simp: blocksOf_def)
  have bn: "blk \<le> n" "blk - 1 < n" using div_n[of p0] p0 P(1) blk(2) by auto
  let ?s1 = "removeProducers b ?here s"
  have r1: "bi_wf ?s1" "bi_same s ?s1" "\<And>j. producers ?s1 j = (if j = b then producers s j - ?here else producers s j)"
    "\<And>j. consumers ?s1 j = consumers s j"
    using removeProducers_spec[OF splitOk_base(1)[OF k], of b ?here] fin(3) by auto
  have k1: "splitOk bs n B ops ?s1" "effect {b} B s ?s1" using splitOk_old[OF k r1(1,2) _ b] r1(3,4) by auto
  have e: "effect {b} B s s'" if "effect {} B ?s1 s'" for s'
    using effect_trans[OF k1(2) effect_mono[OF that]] by simp
  have "\<exists>s3. (if blk \<noteq> Max (blocksOf bs P) \<or> blk \<notin> blocksOf bs C then
                let nextSyncTaskInd = blk * bs - 1 + bs
                in if nextSyncTaskInd < length ops then
                     Inr (addProducers (fst (syncBarriers m nextSyncTaskInd)) (getSetWithNoSyncTasks ?s1 ?here) ?s1,
                       touchSync nextSyncTaskInd m)
                   else Inr (?s1, m)
              else bindE (getTaskOpAtIndex ?s1 (hd (iter ?here))) (\<lambda>_.
                let (s2, newBarInd) = addNewBarrier (createBarrier ?s1) ?s1
                in Inr (addConsumers newBarInd (tasksInBlock bs C blk) (addProducers newBarInd ?here s2), m))) = Inr (s3, m) \<and>
      splitOk bs n B ops s3 \<and> effect {} B ?s1 s3 \<and> moved bs n B P C blk s3" (is "\<exists>s3. ?branch = _ \<and> _ s3")
  proof (cases "blk \<noteq> Max (blocksOf bs P) \<or> blk \<notin> blocksOf bs C")
    case True
    have nc: "c div bs \<noteq> blk" if c: "c \<in> C" for c
    proof (cases "blk \<in> blocksOf bs C")
      case False
      then show ?thesis using c by (auto simp: blocksOf_def)
    next
      case in_C: True
      have f: "finite (blocksOf bs P)" using fin(1) by (simp add: blocksOf_def)
      then have "Max (blocksOf bs P) \<in> blocksOf bs P" "blk \<le> Max (blocksOf bs P)" using blk(1) by (auto intro: Max_in)
      with True in_C obtain q where q: "q \<in> P" "blk < q div bs" unfolding blocksOf_def by fastforce
      have "q div bs \<le> c div bs" using P(4)[OF q(1) c] by (intro div_le_mono) simp
      with q show ?thesis by simp
    qed
    obtain c where c: "c \<in> C" using P(3) by blast
    have "blk \<le> c div bs" using P(4)[OF p0(1) c] p0(2) by (metis div_le_mono less_imp_le)
    with nc[OF c] div_n[of c] c P(2) have bn': "blk < n" by fastforce
    have nx: "blk * bs - Suc 0 + bs = syncAt bs blk" using syncAt_forms(3)[OF bs, of blk] blk(2) by simp
    have lt: "syncAt bs blk < length ops" using numOfBlocks_sync[OF bs, of blk "length ops"] bn' blocks by simp
    let ?A = "getSetWithNoSyncTasks ?s1 ?here"
    have A: "?A = {t \<in> P. t div bs = blk \<and> t \<noteq> syncAt bs blk}"
      using noSync_eq[OF bs k1(1) blocks hereT] bn' by (auto simp: tasksInBlock_eq)
    have fA: "finite ?A" unfolding A using fin(1) by simp
    define s3 where "s3 = addProducers (waitBar B blk) ?A ?s1"
    have ts: "t < length ops \<and> t div bs = blk \<and> t \<noteq> syncAt bs blk" if "t \<in> set (elems ?A)" for t
      using that fA A P(1) by auto
    note f = splitOk_addProducer[where ts = "elems ?A", OF k1(1) bn' ts, folded addProducers_def, folded s3_def]
    have "?branch = Inr (s3, m)"
      using True lt syncMapOk_at[OF m bn'] by (auto simp: nx Let_def s3_def)
    moreover have "moved bs n B P C blk s3"
      using f(3) nc fA A by (auto simp: moved_def)
    ultimately show ?thesis using f(1,2) by blast
  next
    case False
    have mx: "blk = Max (blocksOf bs P)" using False by simp
    obtain s2 i where new: "addNewBarrier (createBarrier ?s1) ?s1 = (s2, i)" by fastforce
    let ?cs = "tasksInBlock bs C blk"
    have csT: "?cs \<subseteq> {..<length ops}" using P(2) by (auto simp: tasksInBlock_eq)
    have ok: "okEdge bs p c" if "p \<in> ?here" "c \<in> ?cs" for p c
    proof -
      have pc: "p < c" "p div bs = blk" "c div bs = blk" using that P(4) by (auto simp: tasksInBlock_eq)
      then have "p \<noteq> syncAt bs (p div bs)" using le_syncAt[OF bs, of c] by auto
      with pc show ?thesis by (simp add: okEdge_def)
    qed
    note f = splitOk_new[OF k1(1) new hereT csT ok]
    have "hd (iter ?here) \<in> ?here"
      using set_iteration.set_iter[OF it fin(3)] set_iteration.iter_nonempty[OF it fin(3)] p0
      by (metis (mono_tags, lifting) empty_iff hd_in_set mem_Collect_eq tasksInBlock_eq)
    then have "hd (iter ?here) < length ops" using hereT by auto
    then have "?branch = Inr (addConsumers i ?cs (addProducers i ?here s2), m)"
      using False getTaskOpAtIndex_ok[OF splitOk_base(2)[OF k1(1)]] splitOk_base(3)[OF k1(1)] new by simp
    moreover have "moved bs n B P C blk (addConsumers i ?cs (addProducers i ?here s2))"
      using f(3) False unfolding moved_def by (fastforce simp: tasksInBlock_eq blocksOf_def)
    ultimately show ?thesis using f(1,2) by blast
  qed
  then obtain s3 where br: "?branch = Inr (s3, m)" and k3: "splitOk bs n B ops s3" "effect {} B ?s1 s3"
    and mv: "moved bs n B P C blk s3" by blast
  let ?A = "getSetWithNoSyncTasks s3 ?here"
  have A: "?A \<subseteq> ?here" using noSync_eq[OF bs k3(1) blocks hereT] by auto
  then have fA: "finite ?A" using fin(3) finite_subset by blast
  define s4 where "s4 = addConsumers (updateBar B (blk - 1)) ?A s3"
  have ts: "t < length ops \<and> t div bs = blk - 1 + 1" if "t \<in> set (elems ?A)" for t
    using that fA A P(1) blk(2) by (auto simp: tasksInBlock_eq)
  note f = splitOk_addConsumer[where ts = "elems ?A", OF k3(1) bn(2) ts, folded addConsumers_def, folded s4_def]
  have up: "blk * bs - 1 = syncAt bs (blk - 1)" using syncAt_forms(4)[of blk bs] blk(2) by linarith
  have step: "moveProducers iter bs (length ops) b k0 P C blk (s, m) = bindE ?branch (\<lambda>(s3, m3).
      let syncTaskInd = blk * bs - 1
      in Inr (addConsumers (snd (syncBarriers m3 syncTaskInd)) (getSetWithNoSyncTasks s3 ?here) s3, touchSync syncTaskInd m3))"
    using blk(2) unfolding moveProducers_def by (simp only: if_False less_irrefl_nat Let_def prod.case split: if_split) simp
  have "moveProducers iter bs (length ops) b k0 P C blk (s, m) = Inr (s4, m)"
    by (subst step, subst br) (simp only: bindE_simps Let_def prod.case up syncMapOk_at[OF m bn(2)] snd_conv s4_def)
  moreover have "effect {} B ?s1 s4" using effect_trans[OF k3(2) f(2)] .
  then have "producers s4 b = producers ?s1 b" "consumers s4 b = consumers ?s1 b" "effect {b} B s s4"
    using effectD(1,2)[of "{}" B ?s1 s4 b] b e by auto
  moreover have "moved bs n B P C blk s4" using moved_effect[OF mv f(2)] .
  ultimately show ?thesis using f(1) r1(3,4) by (intro exI[of _ s4]) (simp add: tasksInBlock_eq)
qed


lemma allMoveProducers_ok:
  assumes bs: "0 < bs" and it: "set_iteration iter" and k: "splitOk bs n B ops s" and m: "syncMapOk bs n B m"
    and blocks: "numOfBlocks (length ops) bs = n + 1" and b: "b < B" and o: "ordered (length ops) P C"
    and P: "producers s b = P" and ks: "set ks \<subseteq> blocksOf bs P" "\<forall>k \<in> set ks. k0 \<le> k"
  shows "\<exists>s'. foldE (moveProducers iter bs (length ops) b k0 P C) ks (s, m) = Inr (s', m) \<and> splitOk bs n B ops s' \<and>
    effect {b} B s s' \<and> producers s' b = {p \<in> P. p div bs \<in> set ks \<longrightarrow> p div bs = k0} \<and> consumers s' b = consumers s b \<and>
    (\<forall>blk \<in> set ks. blk \<noteq> k0 \<longrightarrow> moved bs n B P C blk s')"
  using ks
proof (induction ks rule: rev_induct)
  case Nil
  then show ?case using k P by simp
next
  case (snoc blk ks)
  then obtain s1 where r1: "foldE (moveProducers iter bs (length ops) b k0 P C) ks (s, m) = Inr (s1, m)"
    and k1: "splitOk bs n B ops s1" "effect {b} B s s1" and p1: "producers s1 b = {p \<in> P. p div bs \<in> set ks \<longrightarrow> p div bs = k0}"
    and c1: "consumers s1 b = consumers s b" and mv1: "\<forall>blk \<in> set ks. blk \<noteq> k0 \<longrightarrow> moved bs n B P C blk s1" by auto
  show ?case
  proof (cases "blk = k0")
    case True
    then have "moveProducers iter bs (length ops) b k0 P C blk (s1, m) = Inr (s1, m)" by (simp add: moveProducers_def)
    moreover have "producers s1 b = {p \<in> P. p div bs \<in> set (ks @ [blk]) \<longrightarrow> p div bs = k0}" using p1 True by auto
    ultimately show ?thesis using r1 k1 c1 mv1 True by (intro exI[of _ s1]) (simp add: foldE_append)
  next
    case False
    with snoc.prems have blk: "blk \<in> blocksOf bs P" "k0 < blk" by (simp_all add: le_neq_implies_less)
    from moveProducers_ok[OF bs it k1(1) m blocks b o blk] obtain s2 where
      r2: "moveProducers iter bs (length ops) b k0 P C blk (s1, m) = Inr (s2, m)" and k2: "splitOk bs n B ops s2" "effect {b} B s1 s2"
      and p2: "producers s2 b = producers s1 b - {p \<in> P. p div bs = blk}" and c2: "consumers s2 b = consumers s1 b"
      and mv2: "moved bs n B P C blk s2" by blast
    have "producers s2 b = {p \<in> P. p div bs \<in> set (ks @ [blk]) \<longrightarrow> p div bs = k0}" using p1 p2 False by auto
    moreover have "\<forall>j \<in> set (ks @ [blk]). j \<noteq> k0 \<longrightarrow> moved bs n B P C j s2"
      using mv1 mv2 moved_effect[OF _ k2(2)] by auto
    ultimately show ?thesis using r1 r2 k2(1) c1 c2 effect_trans[OF k1(2) k2(2)]
      by (intro exI[of _ s2]) (simp add: foldE_append)
  qed
qed

lemma allDropConsumers_ok:
  assumes k: "splitOk bs n B ops s" and b: "b < B" and C: "consumers s b = C" and f: "finite C"
  shows "splitOk bs n B ops (fold (dropConsumers bs b k0 C) ks s) \<and> effect {b} B s (fold (dropConsumers bs b k0 C) ks s) \<and>
    producers (fold (dropConsumers bs b k0 C) ks s) b = producers s b \<and>
    consumers (fold (dropConsumers bs b k0 C) ks s) b = {c \<in> C. c div bs \<in> set ks \<longrightarrow> c div bs = k0}"
proof (induction ks rule: rev_induct)
  case Nil
  then show ?case using k C by simp
next
  case (snoc blk ks)
  let ?s1 = "fold (dropConsumers bs b k0 C) ks s"
  have k1: "splitOk bs n B ops ?s1" "effect {b} B s ?s1" "producers ?s1 b = producers s b"
    "consumers ?s1 b = {c \<in> C. c div bs \<in> set ks \<longrightarrow> c div bs = k0}"
    using snoc.IH by blast+
  show ?case
  proof (cases "blk = k0")
    case True
    then have "dropConsumers bs b k0 C blk ?s1 = ?s1" by (simp add: dropConsumers_def)
    then show ?thesis using k1 True by auto
  next
    case False
    let ?here = "tasksInBlock bs C blk" let ?s2 = "removeConsumers b ?here ?s1"
    have fh: "finite ?here" using f by (simp add: tasksInBlock_eq)
    have r: "bi_wf ?s2" "bi_same ?s1 ?s2" "\<And>j. consumers ?s2 j = (if j = b then consumers ?s1 j - ?here else consumers ?s1 j)"
      "\<And>j. producers ?s2 j = producers ?s1 j"
      using removeConsumers_spec[OF splitOk_base(1)[OF k1(1)], of b ?here] fh by auto
    have k2: "splitOk bs n B ops ?s2" "effect {b} B ?s1 ?s2" using splitOk_old[OF k1(1) r(1,2) _ b] r(3,4) by auto
    have "dropConsumers bs b k0 C blk ?s1 = ?s2" using False by (simp add: dropConsumers_def)
    then have "fold (dropConsumers bs b k0 C) (ks @ [blk]) s = ?s2" by simp
    then show ?thesis using k2(1) effect_trans[OF k1(2) k2(2)] r(3,4) k1(3,4) False by (auto simp: tasksInBlock_eq)
  qed
qed

lemma allLinkConsumers_ok:
  assumes bs: "0 < bs" and k: "splitOk bs n B ops s" and m: "syncMapOk bs n B m"
    and blocks: "numOfBlocks (length ops) bs = n + 1" and C: "C \<subseteq> {..<length ops}"
    and ks: "\<forall>blk \<in> set ks. k0 \<le> blk \<and> blk \<le> n"
  shows "\<exists>s'. fold (linkConsumers bs k0 C) ks (s, m) = (s', m) \<and> splitOk bs n B ops s' \<and> effect {} B s s' \<and>
    (\<forall>c \<in> C. c div bs \<in> set ks \<and> c div bs \<noteq> k0 \<and> \<not> (c = syncAt bs (c div bs) \<and> c div bs < n) \<longrightarrow>
       c \<in> consumers s' (updateBar B (c div bs - 1)))"
  using ks
proof (induction ks rule: rev_induct)
  case Nil
  then show ?case using k by simp
next
  case (snoc blk ks)
  then obtain s1 where r1: "fold (linkConsumers bs k0 C) ks (s, m) = (s1, m)" and k1: "splitOk bs n B ops s1" "effect {} B s s1"
    and c1: "\<forall>c \<in> C. c div bs \<in> set ks \<and> c div bs \<noteq> k0 \<and> \<not> (c = syncAt bs (c div bs) \<and> c div bs < n) \<longrightarrow>
       c \<in> consumers s1 (updateBar B (c div bs - 1))" by auto
  show ?case
  proof (cases "blk = k0")
    case True
    then have "linkConsumers bs k0 C blk (s1, m) = (s1, m)" by (simp add: linkConsumers_def)
    then have "fold (linkConsumers bs k0 C) (ks @ [blk]) (s, m) = (s1, m)" using r1 by simp
    then show ?thesis using k1 c1 True by auto
  next
    case False
    with snoc.prems have blk: "k0 < blk" "blk \<le> n" by auto
    then have bn: "blk - 1 < n" by simp
    let ?here = "tasksInBlock bs C blk" let ?A = "getSetWithNoSyncTasks s1 ?here"
    have hT: "?here \<subseteq> {..<length ops}" using C by (auto simp: tasksInBlock_eq)
    have A: "?A = {c \<in> C. c div bs = blk \<and> \<not> (c = syncAt bs (c div bs) \<and> c div bs < n)}"
      unfolding noSync_eq[OF bs k1(1) blocks hT] by (auto simp: tasksInBlock_eq)
    have fA: "finite ?A" unfolding A using finite_bounded[OF C] by simp
    define s2 where "s2 = addConsumers (updateBar B (blk - 1)) ?A s1"
    have ts: "t < length ops \<and> t div bs = blk - 1 + 1" if "t \<in> set (elems ?A)" for t
      using that fA A C blk(1) by auto
    note f = splitOk_addConsumer[where ts = "elems ?A", OF k1(1) bn ts, folded addConsumers_def, folded s2_def]
    have up: "blk * bs - Suc 0 = syncAt bs (blk - Suc 0)" using syncAt_forms(4)[of blk bs] blk(1) by simp
    have r2: "fold (linkConsumers bs k0 C) (ks @ [blk]) (s, m) = (s2, m)"
      using r1 False syncMapOk_at[OF m bn] by (simp add: linkConsumers_def Let_def up s2_def)
    have "\<forall>c \<in> C. c div bs \<in> set (ks @ [blk]) \<and> c div bs \<noteq> k0 \<and> \<not> (c = syncAt bs (c div bs) \<and> c div bs < n) \<longrightarrow>
       c \<in> consumers s2 (updateBar B (c div bs - 1))"
    proof (intro ballI impI)
      fix c assume c: "c \<in> C" "c div bs \<in> set (ks @ [blk]) \<and> c div bs \<noteq> k0 \<and> \<not> (c = syncAt bs (c div bs) \<and> c div bs < n)"
      show "c \<in> consumers s2 (updateBar B (c div bs - 1))"
      proof (cases "c div bs = blk")
        case True
        with c bs have "c \<in> ?A" unfolding A by auto
        with f(3) fA True show ?thesis by auto
      next
        case False
        with c c1 have "c \<in> consumers s1 (updateBar B (c div bs - 1))" by simp
        with effectD(4)[OF f(2)] show ?thesis by simp
      qed
    qed
    with r2 f(1) effect_trans[OF k1(2) f(2)] show ?thesis by blast
  qed
qed


text \<open>
  A barrier whose dependencies have been split: its edges stay in the block, those inside a
  block are kept, consumers in later blocks wait for the sync task before them, and each
  producer is followed by a consumer in its block or by the sync task.
\<close>

definition barDone :: "bool \<Rightarrow> nat \<Rightarrow> nat \<Rightarrow> nat \<Rightarrow> nat \<Rightarrow> nat set \<Rightarrow> nat set \<Rightarrow> barrier_info \<Rightarrow> bool" where
  "barDone pend bs n B b P C s \<longleftrightarrow>
     (\<forall>p \<in> producers s b. \<forall>c \<in> consumers s b. okEdge bs p c) \<and>
     (pend \<longrightarrow> producers s b \<noteq> {}) \<and> producers s b \<subseteq> P \<and>
     (pend \<and> consumers s b = {} \<longrightarrow> (\<exists>k < n. \<forall>p \<in> producers s b. p div bs = k)) \<and>
     (\<forall>p \<in> P. \<forall>c \<in> C. p div bs = c div bs \<longrightarrow>
        (\<exists>b'. (b' = b \<or> B \<le> b') \<and> p \<in> producers s b' \<and> c \<in> consumers s b')) \<and>
     (\<forall>p \<in> P. \<forall>c \<in> C. p div bs < c div bs \<longrightarrow> \<not> (c = syncAt bs (c div bs) \<and> c div bs < n) \<longrightarrow>
        c \<in> consumers s (updateBar B (c div bs - 1))) \<and>
     (\<forall>p \<in> P. p div bs < n \<longrightarrow> p \<noteq> syncAt bs (p div bs) \<longrightarrow>
        (\<exists>c \<in> C. c div bs = p div bs) \<or> p \<in> producers s (waitBar B (p div bs)) \<or>
        (p \<in> producers s b \<and> (syncAt bs (p div bs) \<in> consumers s b \<or> pend \<and> consumers s b = {})))"

lemma barDone_effect:
  assumes d: "barDone pend bs n B b P C s" and e: "effect X B s s'" and b: "b < B" "b \<notin> X"
  shows "barDone pend bs n B b P C s'"
proof -
  have eq: "producers s' b = producers s b" "consumers s' b = consumers s b"
    using effectD(1,2)[OF e b(2,1)] by auto
  have m: "B \<le> j \<Longrightarrow> p \<in> producers s j \<Longrightarrow> p \<in> producers s' j" "B \<le> j \<Longrightarrow> p \<in> consumers s j \<Longrightarrow> p \<in> consumers s' j" for j p
    using effectD(3,4)[OF e] by auto
  have "(b' = b \<or> B \<le> b') \<and> p \<in> producers s b' \<and> c \<in> consumers s b' \<Longrightarrow>
      (b' = b \<or> B \<le> b') \<and> p \<in> producers s' b' \<and> c \<in> consumers s' b'" for b' p c
    using eq m by blast
  with d show ?thesis unfolding barDone_def eq using m(1)[of "waitBar B _"] m(2)[of "updateBar B _"]
    by (meson trans_le_add1 le_refl)
qed

lemma splitBarrier_ok:
  assumes bs: "0 < bs" and it: "set_iteration iter" and k: "splitOk bs n B ops s" and m: "syncMapOk bs n B m"
    and blocks: "numOfBlocks (length ops) bs = n + 1" and b: "b < B" and o: "ordered (length ops) P C"
    and PC: "producers s b = P" "consumers s b = C" and two: "2 \<le> card (blocksOf bs P \<union> blocksOf bs C)"
    and k0: "k0 = min (Min (blocksOf bs P)) (Min (blocksOf bs C))"
  shows "\<exists>s'. splitBarrier iter bs (length ops) b k0 P C (s, m) = Inr (s', m) \<and> splitOk bs n B ops s' \<and>
    effect {b} B s s' \<and> barDone True bs n B b P C s'"
proof -
  have P: "P \<subseteq> {..<length ops}" "C \<subseteq> {..<length ops}" "P \<noteq> {}" "C \<noteq> {}" "\<And>p c. p \<in> P \<Longrightarrow> c \<in> C \<Longrightarrow> p < c"
    using o by (auto simp: ordered_def)
  note fin = finite_bounded[OF P(1)] finite_bounded[OF P(2)]
  have fb: "finite (blocksOf bs P)" "finite (blocksOf bs C)" "blocksOf bs P \<noteq> {}" "blocksOf bs C \<noteq> {}"
    using fin P(3,4) by (simp_all add: blocksOf_def)
  have div_n: "t div bs \<le> n" if "t < length ops" for t using numOfBlocks_div[OF bs that] blocks by simp
  have min: "\<And>p. p \<in> P \<Longrightarrow> k0 \<le> p div bs" "\<And>c. c \<in> C \<Longrightarrow> k0 \<le> c div bs"
    using fb Min_le[OF fb(1)] Min_le[OF fb(2)] unfolding k0 blocksOf_def by (auto simp: min_le_iff_disj)
  have pk0: "\<exists>p \<in> P. p div bs = k0"
  proof (rule ccontr)
    assume n: "\<not> (\<exists>p \<in> P. p div bs = k0)"
    have "k0 \<in> blocksOf bs P \<union> blocksOf bs C" unfolding k0 min_def using Min_in fb by auto
    with n obtain c where c: "c \<in> C" "c div bs = k0" by (auto simp: blocksOf_def)
    obtain p where p: "p \<in> P" using P(3) by blast
    have "p div bs \<le> c div bs" using P(5)[OF p c(1)] by (intro div_le_mono) simp
    with c min(1)[OF p] n p show False by auto
  qed
  have kn: "k0 < n"
  proof (rule ccontr)
    assume "\<not> k0 < n"
    then have "\<And>t. t \<in> P \<union> C \<Longrightarrow> t div bs = k0"
      using min div_n P(1,2) by (metis Un_iff dual_order.strict_trans2 le_antisym lessThan_iff not_less subsetD)
    then have "blocksOf bs P \<union> blocksOf bs C \<subseteq> {k0}" by (auto simp: blocksOf_def)
    then have "card (blocksOf bs P \<union> blocksOf bs C) \<le> card {k0}" by (rule card_mono[rotated]) simp
    with two show False by simp
  qed
  have k1a: "set (elems (blocksOf bs P)) \<subseteq> blocksOf bs P" "\<forall>k \<in> set (elems (blocksOf bs P)). k0 \<le> k"
    using fb min by (auto simp: blocksOf_def)
  from allMoveProducers_ok[OF bs it k m blocks b o PC(1) k1a] obtain s1 where
    r1: "foldE (moveProducers iter bs (length ops) b k0 P C) (elems (blocksOf bs P)) (s, m) = Inr (s1, m)"
    and k1: "splitOk bs n B ops s1" "effect {b} B s s1"
    and p1: "producers s1 b = {p \<in> P. p div bs \<in> set (elems (blocksOf bs P)) \<longrightarrow> p div bs = k0}" and c1: "consumers s1 b = C"
    and mv1: "\<forall>blk \<in> set (elems (blocksOf bs P)). blk \<noteq> k0 \<longrightarrow> moved bs n B P C blk s1"
    using PC(2) by auto
  have p1: "producers s1 b = {p \<in> P. p div bs = k0}" using p1 fb by (auto simp: blocksOf_def)
  let ?s2 = "fold (dropConsumers bs b k0 C) (elems (blocksOf bs C)) s1"
  have k2: "splitOk bs n B ops ?s2" "effect {b} B s1 ?s2" "producers ?s2 b = {p \<in> P. p div bs = k0}"
    and c2: "consumers ?s2 b = {c \<in> C. c div bs = k0}"
    using allDropConsumers_ok[OF k1(1) b c1 fin(2), of k0 "elems (blocksOf bs C)"] p1 fb by (auto simp: blocksOf_def)
  let ?P0 = "tasksInBlock bs P k0" let ?S = "syncAt bs k0"
  have f0: "finite ?P0" "?P0 \<noteq> {}" using fin pk0 by (auto simp: tasksInBlock_eq)
  obtain first rest where fr: "iter ?P0 = first # rest"
    using set_iteration.iter_nonempty[OF it f0] by (cases "iter ?P0") auto
  have first: "first \<in> P" "first div bs = k0"
    using set_iteration.set_iter[OF it f0(1)] fr by (auto simp: tasksInBlock_eq)
  have Slen: "?S < length ops" using numOfBlocks_sync[OF bs, of k0 "length ops"] kn blocks by simp
  have Seq: "k0 * bs + bs - 1 = ?S" by (simp add: syncAt_def)
  have valid: "validBarrier ?s2 b" "validTask ?s2 ?S"
    using splitOk_base(3,5)[OF k2(1)] b Slen by (simp_all add: validBarrier_def validTask_def)
  have noC: "c div bs \<noteq> k0" if "first = ?S" "c \<in> C" for c
    using P(5)[OF first(1) that(2)] that(1) le_syncAt[OF bs, of c] by auto
  obtain s3 where r3: "linkBarrierToSync iter bs b k0 P ?s2 = Inr s3" and w3: "bi_wf s3" "bi_same ?s2 s3"
    and o3: "\<And>j. j \<noteq> b \<Longrightarrow> producers s3 j = producers ?s2 j \<and> consumers s3 j = consumers ?s2 j"
    and p3: "producers s3 b = (if first = ?S then {p \<in> P. p div bs = k0} else {p \<in> P. p div bs = k0} - {?S})"
    and c3: "consumers s3 b = (if first = ?S then {} else insert ?S {c \<in> C. c div bs = k0})"
  proof (cases "first = ?S")
    case True
    have "linkBarrierToSync iter bs b k0 P ?s2 = Inr ?s2" using True fr Seq by (simp add: linkBarrierToSync_def Let_def)
    moreover have "consumers ?s2 b = {}" using c2 noC[OF True] by auto
    ultimately show ?thesis using that k2 splitOk_base(1)[OF k2(1)] True by auto
  next
    case False
    let ?r = "removeProducer b ?S ?s2" let ?s3 = "addConsumer b ?S ?r"
    have w: "bi_wf ?r" "validBarrier ?r b" "validTask ?r ?S"
      using removeProducer_wf[OF splitOk_base(1)[OF k2(1)]] valid by (simp_all add: validBarrier_def validTask_def)
    have "linkBarrierToSync iter bs b k0 P ?s2 = Inr ?s3" using False fr Seq by (simp add: linkBarrierToSync_def Let_def)
    moreover have "bi_wf ?s3" by (rule addConsumer_wf[OF w])
    moreover have "bi_same ?s2 ?s3" by (rule bi_same_trans[OF bi_same_step(4) bi_same_step(1)])
    moreover have "producers ?s3 j = (if j = b then producers ?s2 j - {?S} else producers ?s2 j)"
      "consumers ?s3 j = (if j = b then insert ?S (consumers ?s2 j) else consumers ?s2 j)" for j
      by (simp_all add: addConsumer_links[OF w] removeProducer_links)
    ultimately show ?thesis using that[of ?s3] k2(3) c2 False by simp
  qed
  have k3: "splitOk bs n B ops s3" "effect {b} B ?s2 s3" using splitOk_old[OF k2(1) w3 o3 b] by auto
  have "\<forall>blk \<in> set (elems (blocksOf bs C)). k0 \<le> blk \<and> blk \<le> n"
    using fb(2) min(2) div_n P(2) by (auto simp: blocksOf_def)
  from allLinkConsumers_ok[OF bs k3(1) m blocks P(2) this] obtain s4 where
    r4: "fold (linkConsumers bs k0 C) (elems (blocksOf bs C)) (s3, m) = (s4, m)" and k4: "splitOk bs n B ops s4" "effect {} B s3 s4"
    and c4: "\<forall>c \<in> C. c div bs \<in> set (elems (blocksOf bs C)) \<and> c div bs \<noteq> k0 \<and> \<not> (c = syncAt bs (c div bs) \<and> c div bs < n) \<longrightarrow>
       c \<in> consumers s4 (updateBar B (c div bs - 1))" by blast
  have run: "splitBarrier iter bs (length ops) b k0 P C (s, m) = Inr (s4, m)"
    using r1 r3 r4 by (simp add: splitBarrier_def Let_def)
  have "effect {b} B ?s2 s4" by (rule effect_trans[OF k3(2) effect_mono[OF k4(2)]]) simp
  then have e4: "effect {b} B s1 s4" by (rule effect_trans[OF k2(2)])
  then have e4': "effect {b} B s s4" by (rule effect_trans[OF k1(2)])
  have bar4: "producers s4 b = producers s3 b" "consumers s4 b = consumers s3 b"
    using effectD(1,2)[OF k4(2) _ b] by auto
  have mv4: "moved bs n B P C blk s4" if "blk \<in> blocksOf bs P" "blk \<noteq> k0" for blk
    using mv1 that fb(1) moved_effect[OF _ e4] by simp
  have pS: "p < ?S" if "p div bs = k0" "p \<noteq> ?S" for p using that le_syncAt[OF bs, of p] by simp
  have "barDone True bs n B b P C s4"
    unfolding barDone_def
  proof (intro conjI ballI impI)
    fix p c assume "p \<in> producers s4 b" "c \<in> consumers s4 b"
    then have "p \<in> P" "p div bs = k0" "p \<noteq> ?S" "c = ?S \<or> c \<in> C \<and> c div bs = k0"
      unfolding bar4 p3 c3 by (auto split: if_splits)
    then show "okEdge bs p c" using P(5)[of p c] pS[of p] bs by (auto simp: okEdge_def)
  next
    show "producers s4 b \<noteq> {}" unfolding bar4 p3 using pk0 first by auto
    show "producers s4 b \<subseteq> P" unfolding bar4 p3 by auto
    show "\<exists>k < n. \<forall>p \<in> producers s4 b. p div bs = k" unfolding bar4 p3 using kn by auto
  next
    fix p c assume pc: "p \<in> P" "c \<in> C" "p div bs = c div bs"
    show "\<exists>b'. (b' = b \<or> B \<le> b') \<and> p \<in> producers s4 b' \<and> c \<in> consumers s4 b'"
    proof (cases "p div bs = k0")
      case True
      with noC[of c] pc have ne: "first \<noteq> ?S" by auto
      have "c \<le> ?S" using le_syncAt[OF bs, of c] True pc(3) by simp
      then have "p \<noteq> ?S" using P(5)[OF pc(1,2)] by auto
      then have "p \<in> producers s4 b" "c \<in> consumers s4 b" unfolding bar4 p3 c3 using pc True ne by auto
      then show ?thesis by blast
    next
      case False
      have "p div bs \<in> blocksOf bs P" using pc(1) by (simp add: blocksOf_def)
      from mv4[OF this False] pc show ?thesis unfolding moved_def by metis
    qed
  next
    fix p c assume pc: "p \<in> P" "c \<in> C" "p div bs < c div bs" "\<not> (c = syncAt bs (c div bs) \<and> c div bs < n)"
    have "c div bs \<noteq> k0" using min(1)[OF pc(1)] pc(3) by simp
    with c4 pc fb(2) show "c \<in> consumers s4 (updateBar B (c div bs - 1))" by (simp add: blocksOf_def)
  next
    fix p assume p: "p \<in> P" "p div bs < n" "p \<noteq> syncAt bs (p div bs)"
    show "(\<exists>c \<in> C. c div bs = p div bs) \<or> p \<in> producers s4 (waitBar B (p div bs)) \<or>
        p \<in> producers s4 b \<and> (syncAt bs (p div bs) \<in> consumers s4 b \<or> True \<and> consumers s4 b = {})"
    proof (cases "p div bs = k0")
      case True
      with p show ?thesis unfolding bar4 p3 c3 by auto
    next
      case False
      have "p div bs \<in> blocksOf bs P" using p(1) by (simp add: blocksOf_def)
      from mv4[OF this False] p show ?thesis unfolding moved_def by blast
    qed
  qed
  with run k4(1) e4' show ?thesis by blast
qed


text \<open>A barrier inside one block is left alone.\<close>

lemma barDone_inner:
  assumes bs: "0 < bs" and o: "ordered T P C" and PC: "producers s b = P" "consumers s b = C"
    and one: "card (blocksOf bs P \<union> blocksOf bs C) < 2"
  shows "barDone True bs n B b P C s"
proof -
  have P: "P \<noteq> {}" "C \<noteq> {}" "\<And>p c. p \<in> P \<Longrightarrow> c \<in> C \<Longrightarrow> p < c" and fin: "finite P" "finite C"
    using o finite_bounded by (auto simp: ordered_def)
  let ?K = "blocksOf bs P \<union> blocksOf bs C"
  have "finite ?K" "?K \<noteq> {}" using fin P by (auto simp: blocksOf_def)
  with one have "card ?K = 1" by (metis One_nat_def card_gt_0_iff less_2_cases not_less_zero)
  then obtain k where k: "?K = {k}" by (rule card_1_singletonE)
  then have kk: "\<And>t. t \<in> P \<union> C \<Longrightarrow> t div bs = k" by (auto simp: blocksOf_def)
  have "okEdge bs p c" if "p \<in> P" "c \<in> C" for p c
    using P(3)[OF that] le_syncAt[OF bs, of c] kk that by (auto simp: okEdge_def)
  moreover obtain c0 where "c0 \<in> C" using P(2) by blast
  moreover have "\<exists>b'. (b' = b \<or> B \<le> b') \<and> p \<in> producers s b' \<and> c \<in> consumers s b'" if "p \<in> P" "c \<in> C" for p c
    using that PC by blast
  ultimately show ?thesis unfolding barDone_def PC using P kk by auto
qed

lemma splitBarriers_ok:
  assumes bs: "0 < bs" and it: "set_iteration iter" and k: "splitOk bs n B ops s" and m: "syncMapOk bs n B m"
    and blocks: "numOfBlocks (length ops) bs = n + 1" and l: "set l \<subseteq> {..<B}" "distinct l"
    and o: "\<And>b. b \<in> set l \<Longrightarrow> ordered (length ops) (producers s b) (consumers s b)"
  shows "\<exists>s'. splitBarriers iter bs (n + 1) (length ops) l (s, m) = Inr (s', m) \<and> splitOk bs n B ops s' \<and>
    effect (set l) B s s' \<and> (\<forall>b \<in> set l. barDone True bs n B b (producers s b) (consumers s b) s')"
  using k l o
proof (induction l arbitrary: s)
  case Nil
  then show ?case by simp
next
  case (Cons b l)
  have b: "b < B" "b \<notin> set l" using Cons.prems by auto
  have ob: "ordered (length ops) (producers s b) (consumers s b)" using Cons.prems(4) by simp
  have len: "b < length (barrierProducerMap s)" "b < length (barrierConsumerMap s)"
    using bi_wf_lengths[OF splitOk_base(1)[OF Cons.prems(1)]] splitOk_base(5)[OF Cons.prems(1)] b by auto
  then have nth: "barrierProducerMap s ! b = producers s b" "barrierConsumerMap s ! b = consumers s b" by simp_all
  have ne: "producers s b \<noteq> {}" "consumers s b \<noteq> {}" using ob unfolding ordered_def by blast+
  let ?K = "blocksOf bs (producers s b) \<union> blocksOf bs (consumers s b)"
  obtain s1 where r1: "splitBarriers iter bs (n + 1) (length ops) (b # l) (s, m) = splitBarriers iter bs (n + 1) (length ops) l (s1, m)"
    and k1: "splitOk bs n B ops s1" "effect {b} B s s1" and d1: "barDone True bs n B b (producers s b) (consumers s b) s1"
  proof (cases "card ?K < 2")
    case True
    then have e: "splitBarriers iter bs (n + 1) (length ops) (b # l) (s, m) = splitBarriers iter bs (n + 1) (length ops) l (s, m)"
      by (simp only: splitBarriers.simps Let_def fst_conv nth guardE_def ne if_True not_False_eq_True simp_thms)
    show ?thesis by (rule that[OF e Cons.prems(1) effect_refl barDone_inner[OF bs ob refl refl True]])
  next
    case False
    let ?k0 = "min (Min (blocksOf bs (producers s b))) (Min (blocksOf bs (consumers s b)))"
    from splitBarrier_ok[OF bs it Cons.prems(1) m blocks b(1) ob refl refl _ refl] False obtain s1 where
      r: "splitBarrier iter bs (length ops) b ?k0 (producers s b) (consumers s b) (s, m) = Inr (s1, m)"
      and k1: "splitOk bs n B ops s1" "effect {b} B s s1" "barDone True bs n B b (producers s b) (consumers s b) s1" by auto
    have "?k0 \<le> n"
    proof -
      have fin: "finite (blocksOf bs (producers s b))" "blocksOf bs (producers s b) \<noteq> {}"
        using ne finite_bounded[of "producers s b" "length ops"] ob unfolding ordered_def blocksOf_def by blast+
      then have "Min (blocksOf bs (producers s b)) \<in> blocksOf bs (producers s b)" by (rule Min_in)
      then obtain p where p: "p \<in> producers s b" "Min (blocksOf bs (producers s b)) = p div bs"
        unfolding blocksOf_def by blast
      have "p < length ops" using ob p(1) unfolding ordered_def by blast
      from numOfBlocks_div[OF bs this] have "Min (blocksOf bs (producers s b)) \<le> n" unfolding p(2) blocks by simp
      then show ?thesis by simp
    qed
    then have "splitBarriers iter bs (n + 1) (length ops) (b # l) (s, m) = splitBarriers iter bs (n + 1) (length ops) l (s1, m)"
      using False by (simp only: splitBarriers.simps Let_def fst_conv nth guardE_def ne r bindE_simps if_True if_False
          not_False_eq_True simp_thms split: if_split) auto
    with that k1 show ?thesis by blast
  qed
  have eq: "producers s1 j = producers s j" "consumers s1 j = consumers s j" if "j \<in> set l" for j
    using effectD(1,2)[OF k1(2), of j] that b(2) Cons.prems(2) by auto
  have "\<exists>s'. splitBarriers iter bs (n + 1) (length ops) l (s1, m) = Inr (s', m) \<and> splitOk bs n B ops s' \<and>
      effect (set l) B s1 s' \<and> (\<forall>b \<in> set l. barDone True bs n B b (producers s1 b) (consumers s1 b) s')"
    by (rule Cons.IH[OF k1(1)]) (use Cons.prems eq in auto)
  then obtain s2 where r2: "splitBarriers iter bs (n + 1) (length ops) l (s1, m) = Inr (s2, m)"
    and k2: "splitOk bs n B ops s2" "effect (set l) B s1 s2"
    and d2: "\<forall>b \<in> set l. barDone True bs n B b (producers s b) (consumers s b) s2" using eq by auto
  have "barDone True bs n B b (producers s b) (consumers s b) s2" by (rule barDone_effect[OF d1 k2(2) b])
  moreover have "effect (set (b # l)) B s s2"
    using effect_trans[OF effect_mono[OF k1(2)] effect_mono[OF k2(2)], of "set (b # l)"] by auto
  ultimately show ?case using r1 r2 k2(1) d2 by auto
qed


section \<open>Steps 4 to 7\<close>

lemma linkSyncTasks_ok:
  assumes bs: "0 < bs" and k: "splitOk bs n B ops s" and m: "syncMapOk bs n B m"
    and sync: "\<And>k. k < n \<Longrightarrow> syncAt bs k < length ops" and j: "j \<le> n"
  defines "f \<equiv> \<lambda>blockInd. addConsumer (snd (syncBarriers m ((blockInd - 1) * bs - 1))) (blockInd * bs - 1)"
  shows "splitOk bs n B ops (fold f [2..<Suc j] s) \<and> effect {} B s (fold f [2..<Suc j] s) \<and>
    (\<forall>k. k + 1 < j \<longrightarrow> syncAt bs (k + 1) \<in> consumers (fold f [2..<Suc j] s) (updateBar B k))"
  using j
proof (induction j)
  case 0
  then show ?case using k by simp
next
  case (Suc j)
  let ?s1 = "fold f [2..<Suc j] s"
  have k1: "splitOk bs n B ops ?s1" "effect {} B s ?s1"
    and c1: "\<And>k. k + 1 < j \<Longrightarrow> syncAt bs (k + 1) \<in> consumers ?s1 (updateBar B k)" using Suc by auto
  show ?case
  proof (cases "1 \<le> j")
    case False
    then have "[2..<Suc (Suc j)] = []" "j = 0" by simp_all
    then show ?thesis using k by simp
  next
    case True
    then obtain i where i: "j = Suc i" by (cases j) auto
    have n: "i < n" and n1: "Suc i < n" using Suc.prems i by auto
    have "(Suc j - 1) * bs - 1 = syncAt bs i" "Suc j * bs - 1 = syncAt bs (i + 1)"
      using syncAt_forms(1)[OF bs, of i] syncAt_forms(1)[OF bs, of "Suc i"] unfolding i by simp_all
    then have fj: "f (Suc j) s' = fold (addConsumer (updateBar B i)) [syncAt bs (i + 1)] s'" for s'
      using syncMapOk_at(1)[OF m n] by (simp add: f_def)
    have ts: "t < length ops \<and> t div bs = i + 1" if "t \<in> set [syncAt bs (i + 1)]" for t
      using that sync[OF n1] bs by simp
    note g = splitOk_addConsumer[where ts = "[syncAt bs (i + 1)]", OF k1(1) n ts, folded fj]
    have e: "fold f [2..<Suc (Suc j)] s = f (Suc j) ?s1" using True by simp
    have "syncAt bs (k + 1) \<in> consumers (f (Suc j) ?s1) (updateBar B k)" if "k + 1 < Suc j" for k
    proof (cases "k = i")
      case True
      then show ?thesis using g(3) by simp
    next
      case False
      then show ?thesis using that i c1[of k] effectD(4)[OF g(2), of "updateBar B k"] by simp
    qed
    then show ?thesis unfolding e using g(1) effect_trans[OF k1(2) g(2)] by blast
  qed
qed

lemma linkProducersToSync_ok:
  assumes bs: "0 < bs" and k: "splitOk bs n B ops s" and m: "syncMapOk bs n B m"
    and sync: "\<And>k. k < n \<Longrightarrow> syncAt bs k < length ops"
    and ts: "\<And>t. t \<in> set ts \<Longrightarrow> t < length ops \<and> t div bs < n"
  shows "\<exists>s'. fold (linkProducerToSync bs (length ops)) ts (s, m) = (s', m) \<and> splitOk bs n B ops s' \<and> effect {} B s s' \<and>
    (\<forall>t \<in> set ts. t \<noteq> syncAt bs (t div bs) \<longrightarrow> t \<in> producers s' (waitBar B (t div bs)))"
  using k ts
proof (induction ts arbitrary: s)
  case Nil
  then show ?case by simp
next
  case (Cons t ts)
  have t: "t < length ops" "t div bs < n" using Cons.prems(2) by auto
  have e: "t div bs * bs + bs - Suc 0 = syncAt bs (t div bs)" by (simp add: syncAt_def)
  obtain s1 where r1: "linkProducerToSync bs (length ops) t (s, m) = (s1, m)" and k1: "splitOk bs n B ops s1" "effect {} B s s1"
    and p1: "t \<noteq> syncAt bs (t div bs) \<longrightarrow> t \<in> producers s1 (waitBar B (t div bs))"
  proof (cases "t = syncAt bs (t div bs)")
    case True
    then have "linkProducerToSync bs (length ops) t (s, m) = (s, m)" by (simp add: linkProducerToSync_def Let_def e)
    with that Cons.prems(1) True show ?thesis by simp
  next
    case False
    have v: "u < length ops \<and> u div bs = t div bs \<and> u \<noteq> syncAt bs (t div bs)" if "u \<in> set [t]" for u
      using that t False by simp
    note g = splitOk_addProducer[where ts = "[t]", OF Cons.prems(1) t(2) v]
    have "linkProducerToSync bs (length ops) t (s, m) = (fold (addProducer (waitBar B (t div bs))) [t] s, m)"
      using False sync[OF t(2)] syncMapOk_at[OF m t(2)] by (simp add: linkProducerToSync_def Let_def e)
    from that[OF this g(1,2)] g(3) show ?thesis by simp
  qed
  from Cons.IH[OF k1(1)] Cons.prems(2) obtain s2 where
    r2: "fold (linkProducerToSync bs (length ops)) ts (s1, m) = (s2, m)" and k2: "splitOk bs n B ops s2" "effect {} B s1 s2"
    and p2: "\<forall>t \<in> set ts. t \<noteq> syncAt bs (t div bs) \<longrightarrow> t \<in> producers s2 (waitBar B (t div bs))" by auto
  have "t \<noteq> syncAt bs (t div bs) \<longrightarrow> t \<in> producers s2 (waitBar B (t div bs))"
    using p1 effectD(3)[OF k2(2)] by simp
  with r1 r2 k2(1) effect_trans[OF k1(2) k2(2)] p2 show ?case by auto
qed


lemma sanitizeBarrier_ok:
  assumes bs: "0 < bs" and k: "splitOk bs n B ops s" and m: "syncMapOk bs n B m"
    and sync: "\<And>k. k < n \<Longrightarrow> syncAt bs k < length ops" and b: "b < B" and d: "barDone True bs n B b P C s"
    and P: "P \<subseteq> {..<length ops}"
  shows "\<exists>s'. sanitizeBarrier bs (length ops) b (s, m) = Inr (s', m) \<and> splitOk bs n B ops s' \<and> effect {b} B s s' \<and>
    barDone False bs n B b P C s'"
proof -
  note base = splitOk_base[OF k]
  have len: "b < length (barrierProducerMap s)" "b < length (barrierConsumerMap s)"
    using bi_wf_lengths[OF base(1)] base(5) b by auto
  have nth: "barrierProducerMap s ! b = producers s b" "barrierConsumerMap s ! b = consumers s b"
    using len by simp_all
  have d': "producers s b \<noteq> {}" "producers s b \<subseteq> P" using d by (auto simp: barDone_def)
  show ?thesis
  proof (cases "consumers s b = {}")
    case False
    have "sanitizeBarrier bs (length ops) b (s, m) = Inr (s, m)"
      using False d'(1) by (simp add: sanitizeBarrier_def nth del: entry_nth)
    moreover have "barDone False bs n B b P C s" using d False unfolding barDone_def by simp
    ultimately show ?thesis using k by (intro exI[of _ s]) simp
  next
    case True
    with d obtain j where j: "j < n" "\<And>p. p \<in> producers s b \<Longrightarrow> p div bs = j" unfolding barDone_def by metis
    have fin: "finite (producers s b)" using bi_wf_finite(1)[OF base(1)] .
    have ts: "t < length ops \<and> t div bs < n" if "t \<in> set (elems (producers s b))" for t
      using that fin d'(2) P j by auto
    from linkProducersToSync_ok[OF bs k m sync ts] obtain s1 where
      r1: "fold (linkProducerToSync bs (length ops)) (elems (producers s b)) (s, m) = (s1, m)" and k1: "splitOk bs n B ops s1" "effect {} B s s1"
      and p1: "\<forall>t \<in> set (elems (producers s b)). t \<noteq> syncAt bs (t div bs) \<longrightarrow> t \<in> producers s1 (waitBar B (t div bs))" by blast
    have v: "validBarrier s1 b" using splitOk_base(5)[OF k1(1)] b by (simp add: validBarrier_def)
    let ?s2 = "resetBarrier b s1"
    note rs = resetBarrier_spec[OF splitOk_base(1)[OF k1(1)] v]
    have k2: "splitOk bs n B ops ?s2" "effect {b} B s1 ?s2" using splitOk_old[OF k1(1) rs(1,2) _ b] rs(3,4) by auto
    have len2: "b < length (barrierProducerMap ?s2)" "b < length (barrierConsumerMap ?s2)"
      using bi_wf_lengths[OF rs(1)] splitOk_base(5)[OF k2(1)] b by auto
    have "barrierProducerMap ?s2 ! b = {}" "barrierConsumerMap ?s2 ! b = {}"
      using rs(3)[of b] rs(4)[of b] len2 by simp_all
    then have run: "sanitizeBarrier bs (length ops) b (s, m) = Inr (?s2, m)"
      using True d'(1) r1 by (simp add: sanitizeBarrier_def nth del: entry_nth)
    have e: "effect {b} B s ?s2" using effect_trans[OF effect_mono[OF k1(2)] k2(2)] by simp
    have m3: "x \<in> producers ?s2 i" if "B \<le> i" "x \<in> producers s i" for x i using effectD(3)[OF e that] .
    have m4: "x \<in> consumers ?s2 i" if "B \<le> i" "x \<in> consumers s i" for x i using effectD(4)[OF e that] .
    have "barDone False bs n B b P C ?s2"
      unfolding barDone_def
    proof (intro conjI ballI impI)
      show "\<And>p c. p \<in> producers ?s2 b \<Longrightarrow> c \<in> consumers ?s2 b \<Longrightarrow> okEdge bs p c" "producers ?s2 b \<subseteq> P"
        using rs(3)[of b] by simp_all
    next
      fix p c assume "p \<in> P" "c \<in> C" "p div bs = c div bs"
      with d obtain b' where "b' = b \<or> B \<le> b'" "p \<in> producers s b'" "c \<in> consumers s b'" unfolding barDone_def by blast
      with True m3 m4 show "\<exists>b'. (b' = b \<or> B \<le> b') \<and> p \<in> producers ?s2 b' \<and> c \<in> consumers ?s2 b'" by blast
    next
      fix p c assume "p \<in> P" "c \<in> C" "p div bs < c div bs" "\<not> (c = syncAt bs (c div bs) \<and> c div bs < n)"
      then have "c \<in> consumers s (updateBar B (c div bs - 1))" using d unfolding barDone_def by blast
      then show "c \<in> consumers ?s2 (updateBar B (c div bs - 1))" by (rule m4[rotated]) simp
    next
      fix p assume p: "p \<in> P" "p div bs < n" "p \<noteq> syncAt bs (p div bs)"
      then have "(\<exists>c \<in> C. c div bs = p div bs) \<or> p \<in> producers s (waitBar B (p div bs)) \<or> p \<in> producers s b"
        using d unfolding barDone_def by blast
      moreover have "p \<in> producers ?s2 (waitBar B (p div bs))" if "p \<in> producers s b"
      proof -
        have "p \<in> producers s1 (waitBar B (p div bs))" using p1 that fin p(3) by simp
        then show ?thesis using effectD(3)[OF k2(2)] by simp
      qed
      ultimately show "(\<exists>c \<in> C. c div bs = p div bs) \<or> p \<in> producers ?s2 (waitBar B (p div bs)) \<or>
          p \<in> producers ?s2 b \<and> (syncAt bs (p div bs) \<in> consumers ?s2 b \<or> False \<and> consumers ?s2 b = {})"
        using m3[of "waitBar B (p div bs)" p] by auto
    qed simp_all
    with run k2(1) e show ?thesis by blast
  qed
qed

lemma sanitizeBarriers_ok:
  assumes bs: "0 < bs" and k: "splitOk bs n B ops s" and m: "syncMapOk bs n B m"
    and sync: "\<And>k. k < n \<Longrightarrow> syncAt bs k < length ops" and P: "\<And>b. b < B \<Longrightarrow> pr b \<subseteq> {..<length ops}"
    and l: "set l \<subseteq> {..<B}" "distinct l" and d: "\<And>b. b \<in> set l \<Longrightarrow> barDone True bs n B b (pr b) (cn b) s"
  shows "\<exists>s'. foldE (sanitizeBarrier bs (length ops)) l (s, m) = Inr (s', m) \<and> splitOk bs n B ops s' \<and> effect (set l) B s s' \<and>
    (\<forall>b \<in> set l. barDone False bs n B b (pr b) (cn b) s')"
  using k l d
proof (induction l arbitrary: s)
  case Nil
  then show ?case by simp
next
  case (Cons b l)
  have b: "b < B" "b \<notin> set l" using Cons.prems by auto
  have db: "barDone True bs n B b (pr b) (cn b) s" using Cons.prems(4) by simp
  from sanitizeBarrier_ok[OF bs Cons.prems(1) m sync b(1) db P[OF b(1)]] obtain s1 where
    r1: "sanitizeBarrier bs (length ops) b (s, m) = Inr (s1, m)" and k1: "splitOk bs n B ops s1" "effect {b} B s s1"
    and d1: "barDone False bs n B b (pr b) (cn b) s1" by blast
  have "barDone True bs n B j (pr j) (cn j) s1" if "j \<in> set l" for j
  proof (rule barDone_effect[OF _ k1(2)])
    show "barDone True bs n B j (pr j) (cn j) s" using Cons.prems(4) that by simp
    show "j < B" "j \<notin> {b}" using Cons.prems(2) b(2) that by auto
  qed
  with Cons.IH[OF k1(1)] Cons.prems(2,3) obtain s2 where
    r2: "foldE (sanitizeBarrier bs (length ops)) l (s1, m) = Inr (s2, m)" and k2: "splitOk bs n B ops s2" "effect (set l) B s1 s2"
    and d2: "\<forall>b \<in> set l. barDone False bs n B b (pr b) (cn b) s2" by auto
  have "barDone False bs n B b (pr b) (cn b) s2" by (rule barDone_effect[OF d1 k2(2) b])
  moreover have "effect (set (b # l)) B s s2"
    using effect_trans[OF effect_mono[OF k1(2)] effect_mono[OF k2(2)], of "set (b # l)"] by auto
  ultimately show ?case using r1 r2 k2(1) d2 by auto
qed

text \<open>Resetting a barrier without producers or without consumers removes no edge.\<close>

lemma resetBarrier_graph:
  assumes "bi_wf s" "validBarrier s b" "producers s b = {} \<or> consumers s b = {}"
  shows "taskGraph (resetBarrier b s) = taskGraph s"
proof -
  note r = resetBarrier_spec[OF assms(1,2)]
  have "(t, c) \<in> taskGraph (resetBarrier b s) \<longleftrightarrow> (t, c) \<in> taskGraph s" for t c
  proof -
    have "b' \<noteq> b" if "b' \<in> updates s t" "c \<in> consumers s b'" for b'
      using that assms(3) bi_wf_producers[OF assms(1), of t b'] by auto
    then show ?thesis unfolding taskGraph_iff r(4,5) by auto
  qed
  then show ?thesis by auto
qed

lemma resetUnusedSync_ok:
  assumes k: "splitBase bs ops s" and m: "validBarrier s (fst (snd e))"
  shows "splitBase bs ops (resetUnusedSync e s) \<and> taskGraph (resetUnusedSync e s) = taskGraph s \<and>
    bi_same s (resetUnusedSync e s)"
proof -
  let ?w = "fst (snd e)"
  have step: "splitBase bs ops (resetBarrier ?w r) \<and> taskGraph (resetBarrier ?w r) = taskGraph r \<and> bi_same r (resetBarrier ?w r)"
    if "splitBase bs ops r" "validBarrier r ?w" "barrierProducerMap r ! ?w = {} \<or> barrierConsumerMap r ! ?w = {}" for r
  proof -
    have w: "bi_wf r" using that(1) by (simp add: splitBase_def)
    have "producers r ?w = {} \<or> consumers r ?w = {}"
      using that(2,3) bi_wf_lengths[OF w] by (simp add: validBarrier_def)
    then show ?thesis
      using resetBarrier_graph[OF w that(2)] resetBarrier_spec(1,2)[OF w that(2)] splitBase_same[OF that(1)] by blast
  qed
  let ?s1 = "if barrierProducerMap s ! ?w = {} then resetBarrier ?w s else s"
  have 1: "splitBase bs ops ?s1 \<and> taskGraph ?s1 = taskGraph s \<and> bi_same s ?s1" using step[OF k m] k by simp
  then have v: "validBarrier ?s1 ?w" using bi_same_valid(2)[of s ?s1 ?w] m by blast
  have e: "resetUnusedSync e s = (if barrierConsumerMap ?s1 ! ?w = {} then resetBarrier ?w ?s1 else ?s1)"
    by (simp add: resetUnusedSync_def Let_def)
  have b1: "splitBase bs ops ?s1" "taskGraph ?s1 = taskGraph s" "bi_same s ?s1" using 1 by blast+
  show ?thesis
  proof (cases "barrierConsumerMap ?s1 ! ?w = {}")
    case True
    have e': "resetUnusedSync e s = resetBarrier ?w ?s1" unfolding e by (rule if_P[OF True])
    have "splitBase bs ops (resetBarrier ?w ?s1) \<and> taskGraph (resetBarrier ?w ?s1) = taskGraph ?s1 \<and>
        bi_same ?s1 (resetBarrier ?w ?s1)" by (rule step[OF b1(1) v disjI2[OF True]])
    then show ?thesis unfolding e' b1(2) using bi_same_trans[OF b1(3)] by blast
  next
    case False
    have e': "resetUnusedSync e s = ?s1" unfolding e by (rule if_not_P[OF False])
    show ?thesis unfolding e' using b1 by blast
  qed
qed

lemma resetAllUnused_ok:
  assumes "splitBase bs ops s" "\<And>e. e \<in> set m \<Longrightarrow> validBarrier s (fst (snd e))"
  shows "splitBase bs ops (fold resetUnusedSync m s) \<and> taskGraph (fold resetUnusedSync m s) = taskGraph s"
  using assms
proof (induction m arbitrary: s)
  case (Cons e m)
  from resetUnusedSync_ok[OF Cons.prems(1), of e] Cons.prems(2) have
    1: "splitBase bs ops (resetUnusedSync e s)" "taskGraph (resetUnusedSync e s) = taskGraph s" "bi_same s (resetUnusedSync e s)" by auto
  then have "\<And>x. x \<in> set m \<Longrightarrow> validBarrier (resetUnusedSync e s) (fst (snd x))"
    using bi_same_valid(2)[OF 1(3)] Cons.prems(2) by simp
  from Cons.IH[OF 1(1) this] 1(2) show ?case by simp
qed simp

end
