(* ===== verification/Barrier_Split_Final.thy ===== *)
theory Barrier_Split_Final
  imports Barrier_Split_Correct
begin

text \<open>
  The steps of the split put together: it returns, every edge of its result respects the
  blocks, the order of the tasks is kept up to the order of the hardware queues, and a
  \<open>BarrierInfo\<close> rebuilt from the result accepts it.
\<close>

section \<open>Marking the sync tasks\<close>

lemma markSyncTask_ok:
  assumes w: "bi_wf s" "bi_indexed s" and t: "blockInd * bs - 1 < length (allTaskOps s)"
  shows "\<exists>s'. markSyncTask bs blockInd s = Inr s' \<and> bi_wf s' \<and> bi_indexed s' \<and> taskGraph s' = taskGraph s \<and>
    controlGraphBlockSize s' = controlGraphBlockSize s \<and> syncTasksIds s' = syncTasksIds s \<and>
    length (allTaskOps s') = length (allTaskOps s) \<and>
    (\<forall>t < length (allTaskOps s). syncTaskAttr (allTaskOps s' ! t) \<longleftrightarrow>
       syncTaskAttr (allTaskOps s ! t) \<or> t = blockInd * bs - 1)"
proof -
  let ?t = "blockInd * bs - 1" let ?op = "allTaskOps s ! ?t"
  let ?s = "s\<lparr>allTaskOps := (allTaskOps s)[?t := ?op\<lparr>syncTaskAttr := True\<rparr>]\<rparr>"
  have "markSyncTask bs blockInd s = Inr ?s"
    using getTaskOpAtIndex_ok[OF w(2) t] by (simp add: markSyncTask_def)
  moreover have "bi_wf ?s" using w(1) by (simp add: bi_wf_def)
  moreover have "bi_indexed ?s" using w(2) t by (auto simp: bi_indexed_def nth_list_update)
  moreover have "taskGraph ?s = taskGraph s" by (simp add: taskGraph_def)
  ultimately show ?thesis using t by (intro exI[of _ ?s]) (auto simp: nth_list_update)
qed

lemma markSyncTasks_ok:
  assumes w: "bi_wf s" "bi_indexed s" and bs: "0 < bs" and sync: "\<And>k. k < n \<Longrightarrow> syncAt bs k < length (allTaskOps s)"
  shows "\<exists>s'. foldE (markSyncTask bs) [1..<n + 1] s = Inr s' \<and> bi_wf s' \<and> bi_indexed s' \<and> taskGraph s' = taskGraph s \<and>
    controlGraphBlockSize s' = controlGraphBlockSize s \<and> syncTasksIds s' = syncTasksIds s \<and>
    length (allTaskOps s') = length (allTaskOps s) \<and>
    (\<forall>t < length (allTaskOps s). syncTaskAttr (allTaskOps s' ! t) \<longleftrightarrow>
       syncTaskAttr (allTaskOps s ! t) \<or> (\<exists>k < n. t = syncAt bs k))"
  using sync
proof (induction n)
  case 0
  then show ?case using w by simp
next
  case (Suc n)
  then obtain s1 where r1: "foldE (markSyncTask bs) [1..<n + 1] s = Inr s1" and w1: "bi_wf s1" "bi_indexed s1"
    and e1: "taskGraph s1 = taskGraph s" "controlGraphBlockSize s1 = controlGraphBlockSize s" "syncTasksIds s1 = syncTasksIds s"
      "length (allTaskOps s1) = length (allTaskOps s)"
    and a1: "\<forall>t < length (allTaskOps s). syncTaskAttr (allTaskOps s1 ! t) \<longleftrightarrow>
       syncTaskAttr (allTaskOps s ! t) \<or> (\<exists>k < n. t = syncAt bs k)" by auto
  have f: "(n + 1) * bs - 1 = syncAt bs n" by (rule syncAt_forms(2)[OF bs])
  have "(n + 1) * bs - 1 < length (allTaskOps s1)" unfolding f e1(4) using Suc.prems by simp
  from markSyncTask_ok[OF w1 this] obtain s2 where r2: "markSyncTask bs (n + 1) s1 = Inr s2" and w2: "bi_wf s2" "bi_indexed s2"
    and e2: "taskGraph s2 = taskGraph s1" "controlGraphBlockSize s2 = controlGraphBlockSize s1" "syncTasksIds s2 = syncTasksIds s1"
      "length (allTaskOps s2) = length (allTaskOps s1)"
    and a2: "\<forall>t < length (allTaskOps s1). syncTaskAttr (allTaskOps s2 ! t) \<longleftrightarrow>
       syncTaskAttr (allTaskOps s1 ! t) \<or> t = syncAt bs n" unfolding f by blast
  have "foldE (markSyncTask bs) [1..<Suc n + 1] s = Inr s2" using r1 r2 by (simp add: foldE_append)
  moreover have "\<forall>t < length (allTaskOps s). syncTaskAttr (allTaskOps s2 ! t) \<longleftrightarrow>
       syncTaskAttr (allTaskOps s ! t) \<or> (\<exists>k < Suc n. t = syncAt bs k)"
    using a1 a2 e1(4) by (auto simp: less_Suc_eq)
  ultimately show ?case using w2 e1 e2 by auto
qed

section \<open>The whole split\<close>

text \<open>Tasks of one hardware queue run in their order without any barrier.\<close>

definition queueOrder :: "barrier_info \<Rightarrow> (nat \<times> nat) set" where
  "queueOrder s = {(t, u). t < u \<and> u < length (allTaskOps s) \<and> queueOf (allTaskOps s) t = queueOf (allTaskOps s) u}"

text \<open>What the split needs of the graph.\<close>

definition splittable :: "barrier_info \<Rightarrow> bool" where
  "splittable s \<longleftrightarrow>
     bi_wf s \<and> bi_indexed s \<and> forward s \<and> controlGraphBlockSize s = 0 \<and>
     list_all (\<lambda>b. producers s b \<noteq> {} \<and> consumers s b \<noteq> {}) [0..<length (allBarrierOps s)] \<and>
     list_all (\<lambda>op. \<not> isl (getTaskQueueType op False)) (allTaskOps s)"

lemma splitOk_edges:
  assumes bs: "0 < bs" and k: "splitOk bs n B ops s" and d: "\<And>b. b < B \<Longrightarrow> barDone False bs n B b (pr b) (cn b) s"
    and e: "(p, c) \<in> taskGraph s"
  shows "okEdge bs p c"
proof -
  from e obtain b where b: "p \<in> producers s b" "c \<in> consumers s b"
    using bi_wf_producers[OF splitOk_base(1)[OF k]] by (auto simp: taskGraph_iff)
  have sb: "syncBars bs n B (producers s) (consumers s)" using k by (simp add: splitOk_def)
  consider "b < B" | k where "k < n" "b = waitBar B k" | k where "k < n" "b = updateBar B k" | "B + 2 * n \<le> b"
  proof -
    have "b = B + 2 * ((b - B) div 2) \<or> b = B + 2 * ((b - B) div 2) + 1" if "B \<le> b" using that by presburger
    moreover have "(b - B) div 2 < n" if "b < B + 2 * n" "B \<le> b" using that by linarith
    ultimately show ?thesis using that by (meson not_le)
  qed
  then show ?thesis
  proof cases
    case 1
    then show ?thesis using d[OF 1] b unfolding barDone_def by blast
  next
    case (2 k)
    have "p div bs = k" "p \<noteq> syncAt bs k" "c = syncAt bs k"
      using syncBars_at(1,2)[OF sb 2(1)] b unfolding 2(2) by auto
    then show ?thesis using le_syncAt[OF bs, of p] bs by (auto simp: okEdge_def)
  next
    case (3 k)
    have pc: "p = syncAt bs k" "c div bs = k + 1"
      using syncBars_at(3,4)[OF sb 3(1)] b unfolding 3(2) by auto
    then have "p < c" using div_lessI[OF bs, of p c] bs by simp
    with pc show ?thesis using bs by (simp add: okEdge_def)
  next
    case 4
    then show ?thesis using sb b unfolding syncBars_def by blast
  qed
qed


lemma reach_sync:
  assumes bs: "0 < bs" and k: "t div bs < n"
    and step: "\<And>t. t div bs < n \<Longrightarrow> t \<noteq> syncAt bs (t div bs) \<Longrightarrow>
      (t, syncAt bs (t div bs)) \<in> G \<or> (\<exists>c > t. c div bs = t div bs \<and> (t, c) \<in> G) \<or>
      (\<exists>u. (u = t \<or> (t, u) \<in> Q) \<and> (u, syncAt bs (t div bs)) \<in> G)"
  shows "(t, syncAt bs (t div bs)) \<in> (G \<union> Q)\<^sup>*"
  using k
proof (induction "syncAt bs (t div bs) - t" arbitrary: t rule: less_induct)
  case less
  show ?case
  proof (cases "t = syncAt bs (t div bs)")
    case True
    then have "(t, t) \<in> (G \<union> Q)\<^sup>*" by simp
    with True show ?thesis by metis
  next
    case False
    from step[OF less.prems False] consider "(t, syncAt bs (t div bs)) \<in> G"
      | c where "t < c" "c div bs = t div bs" "(t, c) \<in> G"
      | u where "u = t \<or> (t, u) \<in> Q" "(u, syncAt bs (t div bs)) \<in> G" by blast
    then show ?thesis
    proof cases
      case 1
      then show ?thesis by auto
    next
      case (2 c)
      have "c \<le> syncAt bs (c div bs)" by (rule le_syncAt[OF bs])
      then have "syncAt bs (c div bs) - c < syncAt bs (t div bs) - t" using 2 by simp
      from less.hyps[OF this] less.prems 2(2) have "(c, syncAt bs (t div bs)) \<in> (G \<union> Q)\<^sup>*" by simp
      with 2(3) show ?thesis by (meson UnI1 converse_rtrancl_into_rtrancl)
    next
      case (3 u)
      then show ?thesis by (meson UnI1 UnI2 converse_rtrancl_into_rtrancl r_into_rtrancl)
    qed
  qed
qed

lemma sync_chain:
  assumes "i \<le> j" "j < n" "\<And>k. k + 1 < n \<Longrightarrow> (syncAt bs k, syncAt bs (k + 1)) \<in> G"
  shows "(syncAt bs i, syncAt bs j) \<in> G\<^sup>*"
  using assms(1,2)
proof (induction j rule: dec_induct)
  case (step j)
  then have "(syncAt bs i, syncAt bs j) \<in> G\<^sup>*" "(syncAt bs j, syncAt bs (Suc j)) \<in> G" using assms(3)[of j] by auto
  then show ?case by (rule rtrancl_into_rtrancl)
qed simp

lemma splitControlGraphToBlocks_ok:
  assumes it: "set_iteration iter" and ok: "splittable s" and size: "2 \<le> bs" "bs < length (allTaskOps s)"
  defines "n \<equiv> numOfBlocks (length (allTaskOps s)) bs - 1"
  shows "\<exists>s'. splitControlGraphToBlocks iter bs s = Inr s' \<and> bi_wf s' \<and> bi_indexed s' \<and>
    controlGraphBlockSize s' = bs \<and> length (allTaskOps s') = length (allTaskOps s) \<and>
    (\<forall>(p, c) \<in> taskGraph s'. okEdge bs p c) \<and> taskGraph s \<subseteq> (taskGraph s' \<union> queueOrder s)\<^sup>+ \<and>
    (\<forall>t < length (allTaskOps s). syncTaskAttr (allTaskOps s' ! t) \<longleftrightarrow>
       syncTaskAttr (allTaskOps s ! t) \<or> (\<exists>k < n. t = syncAt bs k))"
proof -
  have bs: "0 < bs" using size by simp
  let ?ops = "allTaskOps s" let ?T = "length ?ops" let ?B = "length (allBarrierOps s)"
  let ?s0 = "s\<lparr>controlGraphBlockSize := bs\<rparr>"
  have w: "bi_wf s" "bi_indexed s" "forward s" "controlGraphBlockSize s = 0"
    using ok unfolding splittable_def by blast+
  have pc: "producers s b \<noteq> {} \<and> consumers s b \<noteq> {}" if "b < ?B" for b
  proof -
    have "list_all (\<lambda>b. producers s b \<noteq> {} \<and> consumers s b \<noteq> {}) [0..<?B]" using ok unfolding splittable_def by blast
    then show ?thesis unfolding list_all_iff using that by simp
  qed
  have qs: "\<forall>t < ?T. \<exists>q. getTaskQueueType (?ops ! t) False = Inr q"
  proof (intro allI impI)
    fix t assume t: "t < ?T"
    have "list_all (\<lambda>op. \<not> isl (getTaskQueueType op False)) ?ops" using ok unfolding splittable_def by blast
    then have "\<not> isl (getTaskQueueType (?ops ! t) False)" unfolding list_all_length using t by blast
    then show "\<exists>q. getTaskQueueType (?ops ! t) False = Inr q" by (cases "getTaskQueueType (?ops ! t) False") simp_all
  qed
  have nb: "numOfBlocks ?T bs = n + 1"
    using numOfBlocks_div[OF bs, of 0 ?T] size unfolding n_def by (cases ?ops) auto
  have sync: "syncAt bs k < ?T" if "k < n" for k using numOfBlocks_sync[OF bs, of k ?T] that nb by simp
  have div_n: "t div bs \<le> n" if "t < ?T" for t using numOfBlocks_div[OF bs that] nb by simp
  have w0: "bi_wf ?s0" using w(1) by (simp add: bi_wf_def)
  have k0: "splitOk bs 0 ?B ?ops ?s0"
    using w0 w(2) bi_wf_lengths[OF w(1)] by (simp add: splitOk_def splitBase_def syncBars_def bi_indexed_def)
  from addSyncBarriers_all[OF bs k0 _ sync, of n] obtain s1 m where
    r1: "foldE (addSyncBarriers bs) [1..<n + 1] (?s0, []) = Inr (s1, m)" and k1: "splitOk bs n ?B ?ops s1" "effect {} ?B ?s0 s1"
    and m: "syncMapOk bs n ?B m" and u1: "\<forall>t. (\<forall>k < n. t \<noteq> syncAt bs k) \<longrightarrow> updates s1 t = updates s t" by auto
  from linkTasksWithoutBarriers_ok[OF bs k1(1) m qs div_n sync] obtain s2 where
    r2: "linkTasksWithoutBarriers bs (n + 1) ?T m s1 = Inr s2" and k2: "splitOk bs n ?B ?ops s2" "effect {} ?B s1 s2"
    and last2: "\<forall>t < ?T. updates s1 t = {} \<longrightarrow> t div bs < n \<longrightarrow> lastLinked bs n ?B ?ops s2 t" by blast
  have PC: "producers s2 b = producers s b" "consumers s2 b = consumers s b" if "b < ?B" for b
    using effectD(1,2)[OF effect_trans[OF k1(2) k2(2)], of b] that by simp_all
  have o: "ordered ?T (producers s b) (consumers s b)" if "b < ?B" for b
    unfolding ordered_def
  proof (intro conjI ballI)
    show "producers s b \<subseteq> {..<?T}" "consumers s b \<subseteq> {..<?T}" using bi_wf_bounds[OF w(1)] by blast+
    show "producers s b \<noteq> {}" "consumers s b \<noteq> {}" using pc[OF that] by blast+
    fix p c assume "p \<in> producers s b" "c \<in> consumers s b"
    then have "(p, c) \<in> taskGraph s" using bi_wf_producers[OF w(1)] by (auto simp: taskGraph_iff)
    then show "p < c" using w(3) unfolding forward_def by blast
  qed
  have "set [0..<?B] \<subseteq> {..<?B}" "distinct [0..<?B]" by auto
  note l = this
  have "\<exists>s'. splitBarriers iter bs (n + 1) ?T [0..<?B] (s2, m) = Inr (s', m) \<and> splitOk bs n ?B ?ops s' \<and>
      effect (set [0..<?B]) ?B s2 s' \<and> (\<forall>b \<in> set [0..<?B]. barDone True bs n ?B b (producers s2 b) (consumers s2 b) s')"
  proof (rule splitBarriers_ok[OF bs it k2(1) m nb l])
    fix b assume "b \<in> set [0..<?B]"
    then have b: "b < ?B" by simp
    show "ordered ?T (producers s2 b) (consumers s2 b)" unfolding PC[OF b] by (rule o[OF b])
  qed
  then obtain s3 where r3: "splitBarriers iter bs (n + 1) ?T [0..<?B] (s2, m) = Inr (s3, m)" and k3: "splitOk bs n ?B ?ops s3"
    "effect (set [0..<?B]) ?B s2 s3" and d3: "\<And>b. b < ?B \<Longrightarrow> barDone True bs n ?B b (producers s b) (consumers s b) s3"
    using PC by auto
  define s4 where "s4 = linkSyncTasks bs (n + 1) m s3"
  have k4: "splitOk bs n ?B ?ops s4" "effect {} ?B s3 s4"
    and chain4: "\<And>k. k + 1 < n \<Longrightarrow> syncAt bs (k + 1) \<in> consumers s4 (updateBar ?B k)"
    using linkSyncTasks_ok[OF bs k3(1) m sync order.refl] unfolding s4_def linkSyncTasks_def by simp_all
  have d4: "barDone True bs n ?B b (producers s b) (consumers s b) s4" if "b < ?B" for b
    using barDone_effect[OF d3[OF that] k4(2) that] by simp
  have "\<exists>s'. foldE (sanitizeBarrier bs ?T) [0..<?B] (s4, m) = Inr (s', m) \<and> splitOk bs n ?B ?ops s' \<and>
      effect (set [0..<?B]) ?B s4 s' \<and> (\<forall>b \<in> set [0..<?B]. barDone False bs n ?B b (producers s b) (consumers s b) s')"
  proof (rule sanitizeBarriers_ok[OF bs k4(1) m sync _ l])
    show "producers s b \<subseteq> {..<?T}" if "b < ?B" for b using o[OF that] unfolding ordered_def by blast
    show "barDone True bs n ?B b (producers s b) (consumers s b) s4" if "b \<in> set [0..<?B]" for b
      by (rule d4) (use that in simp)
  qed
  then obtain s5 where r5: "foldE (sanitizeBarrier bs ?T) [0..<?B] (s4, m) = Inr (s5, m)" and k5: "splitOk bs n ?B ?ops s5"
    "effect (set [0..<?B]) ?B s4 s5" and d5: "\<And>b. b < ?B \<Longrightarrow> barDone False bs n ?B b (producers s b) (consumers s b) s5" by auto
  have "\<And>e. e \<in> set m \<Longrightarrow> validBarrier s5 (fst (snd e))"
    using m splitOk_base(5)[OF k5(1)] unfolding syncMapOk_def validBarrier_def by fastforce
  then have k6: "splitBase bs ?ops (fold resetUnusedSync m s5)" "taskGraph (fold resetUnusedSync m s5) = taskGraph s5"
    using resetAllUnused_ok[of bs ?ops s5 m] k5(1) by (auto simp: splitOk_def)
  let ?s6 = "fold resetUnusedSync m s5"
  have b6: "bi_wf ?s6" "bi_indexed ?s6" "allTaskOps ?s6 = ?ops" "controlGraphBlockSize ?s6 = bs" using k6(1) by (simp_all add: splitBase_def)
  from markSyncTasks_ok[OF b6(1,2) bs, of n] sync b6(3) obtain s7 where
    r7: "foldE (markSyncTask bs) [1..<n + 1] ?s6 = Inr s7" and b7: "bi_wf s7" "bi_indexed s7" "taskGraph s7 = taskGraph s5"
    "controlGraphBlockSize s7 = bs" "length (allTaskOps s7) = ?T"
    and a7: "\<forall>t < ?T. syncTaskAttr (allTaskOps s7 ! t) \<longleftrightarrow> syncTaskAttr (?ops ! t) \<or> (\<exists>k < n. t = syncAt bs k)"
    using k6(2) b6(4) by auto
  have "splitControlGraphToBlocks iter bs s = Inr s7"
    unfolding splitControlGraphToBlocks_def Let_def
    using size w(4) r1 r2 r3 r5 r7 by (simp add: nb s4_def)
  moreover have "\<forall>(p, c) \<in> taskGraph s7. okEdge bs p c"
    using splitOk_edges[OF bs k5(1) d5] b7(3) by auto
  moreover have "taskGraph s \<subseteq> (taskGraph s7 \<union> queueOrder s)\<^sup>+"
  proof (rule subrelI)
    let ?G = "taskGraph s7" let ?Q = "queueOrder s" let ?S = "syncAt bs"
    have edge: "(p, c) \<in> ?G" if "p \<in> producers s5 b" "c \<in> consumers s5 b" for p c b
      using that bi_wf_producers[OF splitOk_base(1)[OF k5(1)]] unfolding b7(3) taskGraph_iff by blast
    have sb5: "syncBars bs n ?B (producers s5) (consumers s5)" using k5(1) by (simp add: splitOk_def)
    have chain: "(?S k, ?S (k + 1)) \<in> ?G" if "k + 1 < n" for k
    proof (rule edge)
      show "?S (k + 1) \<in> consumers s5 (updateBar ?B k)" using effectD(4)[OF k5(2) _ chain4[OF that]] by simp
      show "?S k \<in> producers s5 (updateBar ?B k)" using syncBars_at(3)[OF sb5, of k] that by simp
    qed
    have step: "(t, ?S (t div bs)) \<in> ?G \<or> (\<exists>c > t. c div bs = t div bs \<and> (t, c) \<in> ?G) \<or>
        (\<exists>u. (u = t \<or> (t, u) \<in> ?Q) \<and> (u, ?S (t div bs)) \<in> ?G)" if t: "t div bs < n" "t \<noteq> ?S (t div bs)" for t
    proof -
      have T: "t < ?T" using sync[OF t(1)] le_syncAt[OF bs, of t] by simp
      have W: "(u, ?S (t div bs)) \<in> ?G" if "u \<in> producers s5 (waitBar ?B (t div bs))" for u
        by (rule edge[OF that]) (use syncBars_at(2)[OF sb5 t(1)] in simp)
      show ?thesis
      proof (cases "updates s t = {}")
        case True
        have "\<forall>k < n. t \<noteq> ?S k" using t bs by auto
        with u1 True have "updates s1 t = {}" by simp
        with last2 T t(1) have "lastLinked bs n ?B ?ops s2 t" by blast
        then have "lastLinked bs n ?B ?ops s5 t"
          using lastLinked_effect k3(2) k4(2) k5(2) by blast
        then obtain u where u: "t \<le> u" "u < ?T" "queueOf ?ops u = queueOf ?ops t" "u \<in> producers s5 (waitBar ?B (t div bs))"
          unfolding lastLinked_def by blast
        then have "u = t \<or> (t, u) \<in> ?Q" by (auto simp: queueOrder_def)
        with W[OF u(4)] show ?thesis by blast
      next
        case False
        then obtain b where b: "b \<in> updates s t" by blast
        then have bB: "b < ?B" using bi_wf_bounds(3)[OF w(1)] by blast
        have tp: "t \<in> producers s b" using b bi_wf_producers[OF w(1)] by blast
        note d = d5[OF bB]
        have "(\<exists>c \<in> consumers s b. c div bs = t div bs) \<or> t \<in> producers s5 (waitBar ?B (t div bs)) \<or>
            (t \<in> producers s5 b \<and> ?S (t div bs) \<in> consumers s5 b)"
          using d tp t unfolding barDone_def by blast
        then show ?thesis
        proof (elim disjE bexE)
          fix c assume c: "c \<in> consumers s b" "c div bs = t div bs"
          then have "t < c" using o[OF bB] tp unfolding ordered_def by blast
          moreover obtain b' where "t \<in> producers s5 b'" "c \<in> consumers s5 b'"
            using d tp c unfolding barDone_def by metis
          then have "(t, c) \<in> ?G" by (rule edge)
          ultimately show ?thesis using c(2) by blast
        qed (use W edge in blast)+
      qed
    qed
    fix p c assume "(p, c) \<in> taskGraph s"
    then obtain b where b: "b \<in> updates s p" "c \<in> consumers s b" by (auto simp: taskGraph_iff)
    then have bB: "b < ?B" using bi_wf_bounds(3)[OF w(1)] by blast
    have pp: "p \<in> producers s b" using b bi_wf_producers[OF w(1)] by blast
    have lt: "p < c" "c < ?T" using o[OF bB] pp b(2) unfolding ordered_def by blast+
    note d = d5[OF bB]
    show "(p, c) \<in> (?G \<union> ?Q)\<^sup>+"
    proof (cases "p div bs = c div bs")
      case True
      then obtain b' where "p \<in> producers s5 b'" "c \<in> consumers s5 b'" using d pp b(2) unfolding barDone_def by metis
      then show ?thesis using edge by blast
    next
      case False
      then have dl: "p div bs < c div bs" using lt(1) by (meson div_le_mono le_neq_implies_less less_imp_le)
      let ?k = "c div bs - 1"
      have kn: "?k < n" "p div bs \<le> ?k" "p div bs < n" "?k + 1 = c div bs" using dl div_n[OF lt(2)] by auto
      have a: "(p, ?S (p div bs)) \<in> (?G \<union> ?Q)\<^sup>*" by (rule reach_sync[OF bs kn(3) step])
      have "(?S (p div bs), ?S ?k) \<in> ?G\<^sup>*" by (rule sync_chain[OF kn(2,1) chain])
      then have b': "(?S (p div bs), ?S ?k) \<in> (?G \<union> ?Q)\<^sup>*" using rtrancl_mono[of ?G "?G \<union> ?Q"] by blast
      have "(?S ?k, c) \<in> ?G"
      proof (cases "c = ?S (c div bs) \<and> c div bs < n")
        case True
        then show ?thesis using chain[of ?k] kn(4) by metis
      next
        case False
        have "c \<in> consumers s5 (updateBar ?B ?k)" using d pp b(2) dl False unfolding barDone_def by blast
        then show ?thesis by (rule edge[rotated]) (use syncBars_at(3)[OF sb5 kn(1)] in simp)
      qed
      with a b' show ?thesis by (meson UnI1 rtrancl_into_trancl1 rtrancl_trans)
    qed
  qed
  ultimately show ?thesis using b7 a7 by blast
qed

end
