(* ===== verification/Barrier_Split_Properties.thy ===== *)
theory Barrier_Split_Properties
  imports Barrier_Split_Final Barrier_Examples
begin

text \<open>The properties of splitting the control graph into blocks.\<close>

lemma okEdge_childInBlock:
  "controlGraphBlockSize s = bs \<Longrightarrow> okEdge bs p c \<Longrightarrow> childInBlock s p c \<and> p < c"
  by (auto simp: okEdge_def childInBlock_def Let_def syncAt_def algebra_simps split: if_splits)

lemma syncIds_split:
  assumes bs: "0 < bs" and attr: "\<forall>t < length ops. syncTaskAttr (ops ! t) \<longleftrightarrow> (\<exists>k < n. t = syncAt bs k)"
    and sync: "\<And>k. k < n \<Longrightarrow> syncAt bs k < length ops"
  shows "syncIds ops = map (syncAt bs) [0..<n]"
proof (rule sorted_distinct_set_unique)
  have "syncAt bs i < syncAt bs j" if "i < j" for i j using div_lessI[OF bs, of "syncAt bs i" "syncAt bs j"] that bs by simp
  then show "sorted (map (syncAt bs) [0..<n])" "distinct (map (syncAt bs) [0..<n])"
    by (auto simp: sorted_iff_nth_mono_less distinct_map inj_on_def less_imp_le) (metis less_irrefl linorder_neqE_nat)
  show "sorted (syncIds ops)" "distinct (syncIds ops)" by (simp_all add: syncIds_def sorted_wrt_filter)
  show "set (syncIds ops) = set (map (syncAt bs) [0..<n])" using attr sync by (auto simp: syncIds_def)
qed

lemma verifySyncDistances_split:
  assumes bs: "0 < bs" and "syncTasksIds s = map (syncAt bs) [0..<n]" and "controlGraphBlockSize s = bs"
  shows "verifySyncDistances s = Inr ()"
proof -
  have "foldE (\<lambda>i _. guardE (subSize (syncTasksIds s ! i) (syncTasksIds s ! (i - 1)) = controlGraphBlockSize s)
      SyncTaskDistance (Inr ())) is () = Inr ()" if "set is \<subseteq> {1..<n}" for "is"
    using that
  proof (induction "is")
    case (Cons i "is")
    then have "1 \<le> i" "i < n" by auto
    then obtain j where j: "i = Suc j" by (cases i) auto
    have "syncAt bs (Suc j) = syncAt bs j + bs" using bs by (simp add: syncAt_def)
    then have "subSize (syncAt bs (Suc j)) (syncAt bs j) = bs" by simp
    with Cons j assms show ?case by (simp add: nth_append)
  qed simp
  from this[of "[1..<n]"] assms(2) show ?thesis by (simp add: verifySyncDistances_def)
qed

section \<open>An example\<close>

text \<open>
  Five tasks in blocks of two. Barrier 0 leads from task 0 to tasks 1 and 4, barrier 1 from tasks
  1 and 2 to task 3; tasks 3 and 4 update no barrier.
\<close>

definition longInfo :: barrier_info where
  "longInfo = projr (buildBarrierMaps
     [barrierDecl 10, barrierDecl 11, dmaTask [] [10], dmaTask [10] [11], dmaTask [] [11], dmaTask [11] [], dmaTask [10] []])"

definition longSplit :: barrier_info where
  "longSplit = projr (splitControlGraphToBlocks sorted_list_of_set 2 longInfo)"

lemma longInfo_ok: "splittable longInfo" "2 < length (allTaskOps longInfo)"
  "list_all (\<lambda>op. \<not> syncTaskAttr op) (allTaskOps longInfo)"
  by code_simp+

lemma longInfo_split: "splitControlGraphToBlocks sorted_list_of_set 2 longInfo = Inr longSplit"
  by code_simp

lemma longSplit_values: "waits longInfo 4 = {0}" "waits longSplit 4 = {5}" "updates longSplit 3 = {5}"
  by code_simp+

section \<open>Properties\<close>

text \<open>
  C13: \<open>splitControlGraphToBlocks\<close> returns on every graph in execution order whose barriers
  have producers and consumers; in its result every dependency goes forward and stays in its
  block or leads from a sync task to the next block, and every old dependency still holds
  through barriers and the order of the hardware queues.
\<close>

theorem splitControlGraphToBlocks_correct:
  assumes "set_iteration iter" "splittable s" "2 \<le> blockSize" "blockSize < length (allTaskOps s)"
  shows "\<exists>s'. splitControlGraphToBlocks iter blockSize s = Inr s' \<and> bi_wf s' \<and> forward s' \<and>
    controlGraphBlockSize s' = blockSize \<and> (\<forall>(t, c) \<in> taskGraph s'. childInBlock s' t c) \<and>
    taskGraph s \<subseteq> (taskGraph s' \<union> queueOrder s)\<^sup>+"
proof -
  from splitControlGraphToBlocks_ok[OF assms] obtain s' where
    r: "splitControlGraphToBlocks iter blockSize s = Inr s'" "bi_wf s'" "controlGraphBlockSize s' = blockSize"
      "taskGraph s \<subseteq> (taskGraph s' \<union> queueOrder s)\<^sup>+"
    and e: "\<forall>(p, c) \<in> taskGraph s'. okEdge blockSize p c" by blast
  have "childInBlock s' p c \<and> p < c" if "(p, c) \<in> taskGraph s'" for p c
    by (rule okEdge_childInBlock[OF r(3)]) (use e that in blast)
  with r show ?thesis unfolding forward_def by blast
qed

theorem splitControlGraphToBlocks_correct_witness:
  "splitControlGraphToBlocks sorted_list_of_set 2 longInfo = Inr longSplit \<and> waits longSplit 4 = {5} \<and>
   forward longSplit \<and> taskGraph longInfo \<subseteq> (taskGraph longSplit \<union> queueOrder longInfo)\<^sup>+"
  using splitControlGraphToBlocks_correct[OF ascending.set_iteration_axioms longInfo_ok(1) order.refl longInfo_ok(2)]
    longInfo_split longSplit_values by auto

text \<open>
  C14: A \<open>BarrierInfo\<close> whose sync tasks are read from the attributes the split has set
  accepts the split: \<open>verifyControlGraphSplit\<close> returns true.
\<close>

theorem splitControlGraphToBlocks_verified:
  assumes "set_iteration iter" "splittable s" "2 \<le> blockSize" "blockSize < length (allTaskOps s)"
    and "list_all (\<lambda>op. \<not> syncTaskAttr op) (allTaskOps s)" and "splitControlGraphToBlocks iter blockSize s = Inr s'"
  shows "verifyControlGraphSplit (s'\<lparr>syncTasksIds := syncIds (allTaskOps s')\<rparr>) = Inr True"
proof -
  let ?r = "s'\<lparr>syncTasksIds := syncIds (allTaskOps s')\<rparr>" let ?T = "length (allTaskOps s)"
  let ?n = "numOfBlocks ?T blockSize - 1"
  have bs: "0 < blockSize" using assms(3) by simp
  from splitControlGraphToBlocks_ok[OF assms(1-4)] assms(6) have r: "bi_wf s'" "controlGraphBlockSize s' = blockSize"
    "length (allTaskOps s') = ?T" "\<forall>(p, c) \<in> taskGraph s'. okEdge blockSize p c"
    and a: "\<forall>t < ?T. syncTaskAttr (allTaskOps s' ! t) \<longleftrightarrow> syncTaskAttr (allTaskOps s ! t) \<or> (\<exists>k < ?n. t = syncAt blockSize k)" by auto
  have sync: "syncAt blockSize k < length (allTaskOps s')" if "k < ?n" for k
    using numOfBlocks_sync[OF bs that] r(3) by simp
  have "\<forall>t < length (allTaskOps s'). syncTaskAttr (allTaskOps s' ! t) \<longleftrightarrow> (\<exists>k < ?n. t = syncAt blockSize k)"
    using a assms(5) r(3) by (simp add: list_all_length)
  note ids = syncIds_split[OF bs this sync]
  have "1 < numOfBlocks ?T blockSize"
    using numOfBlocks_div[OF bs assms(4)] bs by simp
  then have ne: "syncTasksIds ?r \<noteq> []" using ids by simp
  have d: "verifySyncDistances ?r = Inr ()" by (rule verifySyncDistances_split[OF bs]) (use ids r in simp_all)
  have "bi_wf ?r" using r(1) by (simp add: bi_wf_def)
  moreover have "taskGraph ?r = taskGraph s'" by (simp add: taskGraph_def)
  moreover have "childInBlock ?r t c" if "(t, c) \<in> taskGraph s'" for t c
    using that r(2,4) okEdge_childInBlock[of ?r blockSize t c] by auto
  ultimately show ?thesis using verifyControlGraphSplit_iff[OF _ ne d] by auto
qed

theorem splitControlGraphToBlocks_verified_witness:
  "verifyControlGraphSplit (longSplit\<lparr>syncTasksIds := syncIds (allTaskOps longSplit)\<rparr>) = Inr True \<and>
   syncIds (allTaskOps longSplit) = [1, 3]"
proof -
  have "syncIds (allTaskOps longSplit) = [1, 3]" by code_simp
  with splitControlGraphToBlocks_verified[OF ascending.set_iteration_axioms longInfo_ok(1) order.refl longInfo_ok(2,3) longInfo_split]
  show ?thesis by simp
qed

end
