(* ===== verification/Partitioner.thy ===== *)
theory Partitioner
  imports Npu_Prelude
begin

text \<open>
  The memory partitioner of \<open>utils/partitioner.cpp\<close>: the free part of an address range as a
  vector of gaps, with allocation in the smallest suitable gap, allocation at a given address
  and release. Addresses are unsigned 64-bit integers, written as \<open>int\<close> with the wrap-around
  of every sum and difference explicit.
\<close>

section \<open>64-bit addresses\<close>

definition wrap :: "int \<Rightarrow> int" where
  "wrap x = x mod 2 ^ 64"

definition invalidAddress :: int where
  "invalidAddress = 2 ^ 64 - 1"

lemma wrap_id [simp]: "0 \<le> x \<Longrightarrow> x < 2 ^ 64 \<Longrightarrow> wrap x = x"
  by (simp add: wrap_def)

lemma wrap_bounds: "0 \<le> wrap x" "wrap x < 2 ^ 64"
  by (simp_all add: wrap_def)

datatype memory_error =
    ZeroAlignment
  | NoGapBefore int
  | InvalidAllocAddress
  | AlreadyAllocated
  | NotAllocated
  | NotDynamicSpill
  | SpillsNotImplemented
  | GapsCreated

definition alignValUp :: "int \<Rightarrow> int \<Rightarrow> memory_error + int" where
  "alignValUp val align = guardE (align \<noteq> 0) ZeroAlignment (Inr (wrap (wrap (val + (align - 1)) div align * align)))"

section \<open>State\<close>

record gap =
  gapBegin :: int
  gapEnd :: int

record partitioner =
  gaps :: "gap list"
  totalSize :: int

datatype direction = Up | Down

definition mkGap :: "int \<Rightarrow> int \<Rightarrow> gap" where
  "mkGap b e = \<lparr>gapBegin = b, gapEnd = e\<rparr>"

lemma mkGap_simps [simp]: "gapBegin (mkGap b e) = b" "gapEnd (mkGap b e) = e" "mkGap (gapBegin g) (gapEnd g) = g"
  by (simp_all add: mkGap_def)

definition gapSize :: "gap \<Rightarrow> int" where
  "gapSize g = wrap (gapEnd g - gapBegin g)"

definition mkPartitioner :: "int \<Rightarrow> partitioner" where
  "mkPartitioner lim = \<lparr>gaps = [mkGap 0 lim], totalSize = lim\<rparr>"

section \<open>Queries\<close>

definition totalFreeSize :: "partitioner \<Rightarrow> int" where
  "totalFreeSize p = fold (\<lambda>g res. wrap (res + gapSize g)) (gaps p) 0"

definition maxFreeSize :: "partitioner \<Rightarrow> int" where
  "maxFreeSize p = fold (\<lambda>g res. max res (gapSize g)) (gaps p) 0"

definition intersects :: "int \<Rightarrow> int \<Rightarrow> int \<Rightarrow> int \<Rightarrow> bool" where
  "intersects addr1 size1 addr2 size2 =
     (let end1 = wrap (addr1 + size1); end2 = wrap (addr2 + size2);
          inRange = (\<lambda>b e v. v \<ge> b \<and> v < e)
      in inRange addr1 end1 addr2 \<or> inRange addr1 end1 (wrap (end2 - 1)) \<or>
         inRange addr2 end2 addr1 \<or> inRange addr2 end2 (wrap (end1 - 1)))"

section \<open>Allocation\<close>

definition getAddrFromGap :: "gap list \<Rightarrow> nat \<Rightarrow> int \<Rightarrow> int \<Rightarrow> direction \<Rightarrow> memory_error + int" where
  "getAddrFromGap gs pos sz alignment dir =
     (let g = gs ! pos
      in if gapSize g < sz then Inr invalidAddress
         else case dir of
           Up \<Rightarrow> bindE (alignValUp (gapBegin g) alignment) (\<lambda>alignedBegin.
             Inr (if wrap (alignedBegin + sz) > gapEnd g then invalidAddress else alignedBegin))
         | Down \<Rightarrow> bindE (alignValUp (wrap (gapEnd g - sz)) alignment) (\<lambda>alignedBegin.
             if wrap (alignedBegin + sz) > gapEnd g then
               if wrap (gapBegin g + alignment) > alignedBegin then Inr invalidAddress
               else let alignedBegin = wrap (alignedBegin - alignment)
                    in Inr (if wrap (alignedBegin + sz) > gapEnd g then invalidAddress else alignedBegin)
             else Inr alignedBegin))"

definition useGap :: "gap list \<Rightarrow> nat \<Rightarrow> int \<Rightarrow> int \<Rightarrow> gap list" where
  "useGap gs pos alignedBegin sz =
     (let g = gs ! pos;
          newGapLeft = wrap (alignedBegin - gapBegin g);
          newGapRight = wrap (gapEnd g - wrap (alignedBegin + sz))
      in if newGapLeft = 0 \<and> newGapRight = 0 then take pos gs @ drop (Suc pos) gs
         else if newGapLeft > 0 \<and> newGapRight = 0 then gs[pos := g\<lparr>gapEnd := alignedBegin\<rparr>]
         else if newGapLeft = 0 \<and> newGapRight > 0 then gs[pos := g\<lparr>gapBegin := wrap (alignedBegin + sz)\<rparr>]
         else take pos gs @ [mkGap (gapBegin g) alignedBegin, g\<lparr>gapBegin := wrap (alignedBegin + sz)\<rparr>] @ drop (Suc pos) gs)"

text \<open>The scan for the smallest suitable gap; no index is \<open>-1\<close> in the code.\<close>

definition minGapStep ::
  "gap list \<Rightarrow> int \<Rightarrow> int \<Rightarrow> direction \<Rightarrow> nat \<Rightarrow> nat option \<times> int \<Rightarrow> memory_error + nat option \<times> int" where
  "minGapStep gs sz alignment dir i st =
     (let (minGapInd, minGapSize) = st
      in bindE (getAddrFromGap gs i sz alignment dir) (\<lambda>alignedBegin.
           Inr (if alignedBegin \<noteq> invalidAddress \<and> gapSize (gs ! i) < minGapSize then (Some i, gapSize (gs ! i)) else st)))"

text \<open>The last gap in the direction is tried only when no other one fits.\<close>

definition chooseMinimalGap :: "int \<Rightarrow> int \<Rightarrow> direction \<Rightarrow> partitioner \<Rightarrow> memory_error + int \<times> partitioner" where
  "chooseMinimalGap sz alignment dir p =
     (let gs = gaps p; numGaps = length gs
      in if gs = [] then Inr (invalidAddress, p)
         else
           let order = (case dir of Up \<Rightarrow> [0..<numGaps - 1] | Down \<Rightarrow> rev [1..<numGaps]);
               lastGap = (case dir of Up \<Rightarrow> numGaps - 1 | Down \<Rightarrow> 0)
           in bindE (foldE (minGapStep gs sz alignment dir) order (None, 2 ^ 64 - 1)) (\<lambda>(minGapInd, _).
              bindE (if minGapInd \<noteq> None then Inr minGapInd
                     else bindE (getAddrFromGap gs lastGap sz alignment dir) (\<lambda>a.
                            Inr (if a \<noteq> invalidAddress then Some lastGap else None))) (\<lambda>ind.
              case ind of
                None \<Rightarrow> Inr (invalidAddress, p)
              | Some i \<Rightarrow> bindE (getAddrFromGap gs i sz alignment dir) (\<lambda>alignedBegin.
                  Inr (alignedBegin, p\<lparr>gaps := useGap gs i alignedBegin sz\<rparr>)))))"

definition alloc :: "int \<Rightarrow> int \<Rightarrow> direction \<Rightarrow> partitioner \<Rightarrow> memory_error + int \<times> partitioner" where
  "alloc sz alignment dir p = chooseMinimalGap sz alignment dir p"

text \<open>
  \<open>std::lower_bound\<close> on the sorted gaps; decrementing the iterator at the first gap is an
  error.
\<close>

definition allocFixed :: "int \<Rightarrow> int \<Rightarrow> partitioner \<Rightarrow> memory_error + partitioner" where
  "allocFixed addr sz p =
     (let gs = gaps p; it = length (takeWhile (\<lambda>g. gapBegin g < addr) gs)
      in if it < length gs \<and> gapBegin (gs ! it) = addr then
           let elem = gs ! it
           in Inr (p\<lparr>gaps := (if gapSize elem = sz then take it gs @ drop (Suc it) gs
                             else gs[it := elem\<lparr>gapBegin := wrap (gapBegin elem + sz)\<rparr>])\<rparr>)
         else if it = 0 then Inl (NoGapBefore addr)
         else let i = it - 1; elem = gs ! i; e = wrap (addr + sz)
              in Inr (p\<lparr>gaps := (if gapEnd elem = e then gs[i := elem\<lparr>gapEnd := addr\<rparr>]
                   else let tailSize = wrap (gapEnd elem - e)
                        in take i gs @ [elem\<lparr>gapEnd := addr\<rparr>, mkGap e (wrap (e + tailSize))] @ drop (Suc i) gs)\<rparr>))"

section \<open>Release\<close>

definition prependGap :: "gap \<Rightarrow> int \<Rightarrow> gap" where
  "prependGap g sz = g\<lparr>gapBegin := wrap (gapBegin g - sz)\<rparr>"

definition appendGap :: "gap \<Rightarrow> int \<Rightarrow> gap" where
  "appendGap g sz = g\<lparr>gapEnd := wrap (gapEnd g + sz)\<rparr>"

text \<open>The loop over neighbouring gaps, ending with the last gap.\<close>

fun freeWalk :: "int \<Rightarrow> int \<Rightarrow> gap list \<Rightarrow> gap list" where
  "freeWalk addr sz [] = []"
| "freeWalk addr sz [lastGap] =
     (let e = wrap (addr + sz)
      in if e < gapBegin lastGap then [mkGap addr e, lastGap]
         else if e = gapBegin lastGap then [prependGap lastGap sz]
         else if addr = gapEnd lastGap then [appendGap lastGap sz]
         else [lastGap, mkGap addr e])"
| "freeWalk addr sz (g # next # gs) =
     (let e = wrap (addr + sz)
      in if addr \<ge> gapEnd g \<and> e \<le> gapBegin next then
           if addr = gapEnd g then
             if e = gapBegin next then appendGap g (wrap (sz + gapSize next)) # gs
             else appendGap g sz # next # gs
           else if e = gapBegin next then g # prependGap next sz # gs
           else g # mkGap addr e # next # gs
         else g # freeWalk addr sz (next # gs))"

definition free :: "int \<Rightarrow> int \<Rightarrow> partitioner \<Rightarrow> partitioner" where
  "free addr sz p =
     (let e = wrap (addr + sz)
      in p\<lparr>gaps := (case gaps p of
             [] \<Rightarrow> [mkGap addr e]
           | firstGap # rest \<Rightarrow>
               if e = gapBegin firstGap then prependGap firstGap sz # rest
               else if e < gapBegin firstGap then mkGap addr e # firstGap # rest
               else freeWalk addr sz (firstGap # rest))\<rparr>)"

section \<open>The free addresses\<close>

definition span :: "gap \<Rightarrow> int set" where
  "span g = {gapBegin g..<gapEnd g}"

definition covered :: "gap list \<Rightarrow> int set" where
  "covered gs = \<Union> (span ` set gs)"

definition freeSpace :: "partitioner \<Rightarrow> int set" where
  "freeSpace p = covered (gaps p)"

text \<open>Gaps in order, none empty, and no two of them adjacent.\<close>

definition gapsOk :: "int \<Rightarrow> gap list \<Rightarrow> bool" where
  "gapsOk lim gs \<longleftrightarrow>
     sorted_wrt (\<lambda>g h. gapEnd g < gapBegin h) gs \<and> (\<forall>g \<in> set gs. 0 \<le> gapBegin g \<and> gapBegin g < gapEnd g \<and> gapEnd g \<le> lim)"

definition parOk :: "partitioner \<Rightarrow> bool" where
  "parOk p \<longleftrightarrow> totalSize p < 2 ^ 64 \<and> gapsOk (totalSize p) (gaps p)"

lemma span_simps [simp]: "x \<in> span g \<longleftrightarrow> gapBegin g \<le> x \<and> x < gapEnd g"
  by (simp add: span_def)

lemma covered_simps [simp]:
  "covered [] = {}" "covered (g # gs) = span g \<union> covered gs" "covered (gs @ hs) = covered gs \<union> covered hs"
  by (auto simp: covered_def)

lemma gapsOk_Nil [simp]: "gapsOk lim []"
  by (simp add: gapsOk_def)

lemma gapsOk_Cons:
  "gapsOk lim (g # gs) \<longleftrightarrow>
     0 \<le> gapBegin g \<and> gapBegin g < gapEnd g \<and> gapEnd g \<le> lim \<and> (\<forall>h \<in> set gs. gapEnd g < gapBegin h) \<and> gapsOk lim gs"
  by (auto simp: gapsOk_def)

lemma gapsOk_append:
  "gapsOk lim (gs @ hs) \<longleftrightarrow>
     gapsOk lim gs \<and> gapsOk lim hs \<and> (\<forall>g \<in> set gs. \<forall>h \<in> set hs. gapEnd g < gapBegin h)"
  by (auto simp: gapsOk_def sorted_wrt_append)

lemma gapsOk_bounds:
  assumes "gapsOk lim gs" "g \<in> set gs"
  shows "0 \<le> gapBegin g" "gapBegin g < gapEnd g" "gapEnd g \<le> lim"
  using assms by (auto simp: gapsOk_def)

lemma covered_bounds: "gapsOk lim gs \<Longrightarrow> covered gs \<subseteq> {0..<lim}"
  by (fastforce simp: covered_def gapsOk_def)

text \<open>Every suffix lies after a gap, every prefix before it.\<close>

lemma covered_after: "gapsOk lim (g # gs) \<Longrightarrow> x \<in> covered gs \<Longrightarrow> gapEnd g < x"
  by (fastforce simp: gapsOk_Cons covered_def)

lemma gapSize_ok: "gapsOk lim gs \<Longrightarrow> g \<in> set gs \<Longrightarrow> lim < 2 ^ 64 \<Longrightarrow> gapSize g = gapEnd g - gapBegin g"
  using gapsOk_bounds[of lim gs g] by (simp add: gapSize_def)

text \<open>The gaps are determined by the free addresses.\<close>

lemma covered_eq_empty: "gapsOk lim gs \<Longrightarrow> covered gs = {} \<longleftrightarrow> gs = []"
  by (cases gs) (force simp: gapsOk_Cons)+

lemma covered_first:
  assumes "gapsOk lim (g # gs)" "x \<in> covered (g # gs)"
  shows "gapBegin g \<le> x"
  using assms covered_after[OF assms(1), of x] by (auto simp: gapsOk_Cons)

lemma covered_inject:
  "gapsOk lim gs \<Longrightarrow> gapsOk lim hs \<Longrightarrow> covered gs = covered hs \<Longrightarrow> gs = hs"
proof (induction gs arbitrary: hs)
  case Nil
  then show ?case using covered_eq_empty[of lim hs] by simp
next
  case (Cons g gs)
  then have "hs \<noteq> []" using covered_eq_empty[of lim "g # gs"] by auto
  then obtain h hs' where hs: "hs = h # hs'" by (cases hs) auto
  note ok = Cons.prems(1) Cons.prems(2)[unfolded hs] note eq = Cons.prems(3)[unfolded hs]
  have in_g: "gapBegin g \<in> covered (g # gs)" and in_h: "gapBegin h \<in> covered (h # hs')"
    using ok by (simp_all add: gapsOk_Cons)
  have b: "gapBegin g = gapBegin h"
    by (rule antisym[OF covered_first[OF ok(1) in_h[folded eq]] covered_first[OF ok(2) in_g[unfolded eq]]])
  have ends: "x \<notin> covered (f # fs)" if "gapsOk lim (f # fs)" "x = gapEnd f" for f fs x
    using that covered_after[OF that(1), of x] by auto
  have e: "gapEnd g = gapEnd h"
  proof (rule ccontr)
    assume "gapEnd g \<noteq> gapEnd h"
    then consider "gapEnd g < gapEnd h" | "gapEnd h < gapEnd g" by linarith
    then show False
    proof cases
      case 1
      then have "gapEnd g \<in> covered (h # hs')" using b ok(1) by (simp add: gapsOk_Cons)
      then have "gapEnd g \<in> covered (g # gs)" unfolding eq .
      with ends[OF ok(1) refl] show False by blast
    next
      case 2
      then have "gapEnd h \<in> covered (g # gs)" using b ok(2) by (simp add: gapsOk_Cons)
      then have "gapEnd h \<in> covered (h # hs')" unfolding eq .
      with ends[OF ok(2) refl] show False by blast
    qed
  qed
  have tail: "covered fs = covered (f # fs) - {..gapEnd f}" if "gapsOk lim (f # fs)" for f fs
    using covered_after[OF that] that by (force simp: gapsOk_Cons not_le)
  have "covered gs = covered hs'" using tail[OF ok(1)] tail[OF ok(2)] eq e by simp
  with Cons.IH[of hs'] ok have "gs = hs'" by (simp add: gapsOk_Cons)
  with b e show ?case unfolding hs by (metis mkGap_simps(3))
qed

end
