(* ===== verification/Linear_Scan.thy ===== *)
theory Linear_Scan
  imports Partitioner "HOL-Library.Signed_Division"
begin

text \<open>
  The linear scan allocator of \<open>linear_scan.hpp\<close> over a handler of live ranges, and the
  handler \<open>LinearScanHandler\<close> that the compiler instantiates it with.
\<close>

section \<open>The interface of a handler\<close>

text \<open>The methods the header requires of its \<open>Handler\<close> class; \<open>'h\<close> is its state.\<close>

record ('v, 'h) scan_handler =
  isAlive :: "'v \<Rightarrow> 'h \<Rightarrow> bool"
  isFixedAlloc :: "'v \<Rightarrow> bool"
  getSize :: "'v \<Rightarrow> 'h \<Rightarrow> int"
  getAlignment :: "'v \<Rightarrow> 'h \<Rightarrow> int"
  getAddress :: "'v \<Rightarrow> 'h \<Rightarrow> memory_error + int"
  allocated :: "'v \<Rightarrow> int \<Rightarrow> 'h \<Rightarrow> memory_error + 'h"
  freed :: "'v \<Rightarrow> 'h \<Rightarrow> memory_error + 'h"
  getSpillWeight :: "'v \<Rightarrow> 'h \<Rightarrow> memory_error + int"
  spilled :: "'v \<Rightarrow> 'h \<Rightarrow> memory_error + bool \<times> 'h"

record ('v, 'h) linear_scan =
  par :: partitioner
  liveRanges :: "'v list"
  handler :: 'h

text \<open>The constructor reserves the given address ranges.\<close>

definition mkLinearScan :: "int \<Rightarrow> (int \<times> int) list \<Rightarrow> 'h \<Rightarrow> memory_error + ('v, 'h) linear_scan" where
  "mkLinearScan sz reservedVec h =
     bindE (foldE (\<lambda>(addr, s) p. allocFixed addr s p) reservedVec (mkPartitioner sz)) (\<lambda>p.
       Inr \<lparr>par = p, liveRanges = [], handler = h\<rparr>)"

section \<open>Releasing live ranges\<close>

text \<open>\<open>*it = back(); pop_back()\<close>\<close>

definition swapRemove :: "nat \<Rightarrow> 'v list \<Rightarrow> 'v list" where
  "swapRemove i xs = butlast (xs[i := last xs])"

definition freeLiveRange ::
  "('v, 'h) scan_handler \<Rightarrow> nat \<Rightarrow> ('v, 'h) linear_scan \<Rightarrow> memory_error + ('v, 'h) linear_scan" where
  "freeLiveRange H i s =
     (let range = liveRanges s ! i
      in bindE (getAddress H range (handler s)) (\<lambda>addr.
         bindE (freed H range (handler s)) (\<lambda>h.
           Inr (s\<lparr>par := free addr (getSize H range (handler s)) (par s), handler := h,
                 liveRanges := swapRemove i (liveRanges s)\<rparr>))))"

text \<open>
  Every round of the loop either advances the iterator or removes a range, so the number of
  rounds is the number of ranges at its start.
\<close>

fun freeNonAliveFrom ::
  "('v, 'h) scan_handler \<Rightarrow> nat \<Rightarrow> nat \<Rightarrow> ('v, 'h) linear_scan \<Rightarrow> memory_error + ('v, 'h) linear_scan" where
  "freeNonAliveFrom H 0 it s = Inr s"
| "freeNonAliveFrom H (Suc n) it s =
     (if \<not> isAlive H (liveRanges s ! it) (handler s) then
        bindE (freeLiveRange H it s) (freeNonAliveFrom H n it)
      else freeNonAliveFrom H n (Suc it) s)"

definition freeNonAlive :: "('v, 'h) scan_handler \<Rightarrow> ('v, 'h) linear_scan \<Rightarrow> memory_error + ('v, 'h) linear_scan" where
  "freeNonAlive H s = freeNonAliveFrom H (length (liveRanges s)) 0 s"

section \<open>Spilling\<close>

text \<open>\<open>std::min_element\<close> compares the weight of each range with the smallest one so far.\<close>

fun minElement :: "('v, 'h) scan_handler \<Rightarrow> 'h \<Rightarrow> 'v list \<Rightarrow> nat \<Rightarrow> nat list \<Rightarrow> memory_error + nat" where
  "minElement H h xs best [] = Inr best"
| "minElement H h xs best (i # is) =
     bindE (getSpillWeight H (xs ! i) h) (\<lambda>w1.
     bindE (getSpillWeight H (xs ! best) h) (\<lambda>w2.
       minElement H h xs (if w1 < w2 then i else best) is))"

definition getSpillCandidate ::
  "('v, 'h) scan_handler \<Rightarrow> ('v, 'h) linear_scan \<Rightarrow> memory_error + 'v option \<times> ('v, 'h) linear_scan" where
  "getSpillCandidate H s =
     (if liveRanges s = [] then Inr (None, s)
      else bindE (minElement H (handler s) (liveRanges s) 0 [1..<length (liveRanges s)]) (\<lambda>i.
           let spillCandidate = liveRanges s ! i
           in bindE (getAddress H spillCandidate (handler s)) (\<lambda>spilledAddr.
              Inr (Some spillCandidate,
                   s\<lparr>par := free spilledAddr (getSize H spillCandidate (handler s)) (par s),
                     liveRanges := swapRemove i (liveRanges s)\<rparr>))))"

text \<open>The candidates that do not conflict after all get their memory back.\<close>

fun performActualSpill ::
  "('v, 'h) scan_handler \<Rightarrow> 'v list \<Rightarrow> int \<Rightarrow> int \<Rightarrow> ('v, 'h) linear_scan \<Rightarrow> memory_error + bool \<times> ('v, 'h) linear_scan" where
  "performActualSpill H [] newRangeAddr newRangeSize s = Inr (True, s)"
| "performActualSpill H (c # cs) newRangeAddr newRangeSize s =
     bindE (getAddress H c (handler s)) (\<lambda>spilledAddr.
       let spilledSize = getSize H c (handler s)
       in if intersects spilledAddr spilledSize newRangeAddr newRangeSize then
            bindE (spilled H c (handler s)) (\<lambda>(isSpilled, h1).
              if \<not> isSpilled then Inr (False, s\<lparr>handler := h1\<rparr>)
              else bindE (freed H c h1) (\<lambda>h2. performActualSpill H cs newRangeAddr newRangeSize (s\<lparr>handler := h2\<rparr>)))
          else
            bindE (allocFixed spilledAddr spilledSize (par s)) (\<lambda>p.
            bindE (allocated H c spilledAddr (handler s)) (\<lambda>h.
              performActualSpill H cs newRangeAddr newRangeSize
                (s\<lparr>par := p, handler := h, liveRanges := liveRanges s @ [c]\<rparr>))))"

section \<open>Allocating live ranges\<close>

text \<open>
  The ranges placed so far in one call, by their position in the new ranges. The unordered map
  is walked in some order; releases in any order give the same partitioner.
\<close>

type_synonym allocated_addrs = "(nat \<times> int \<times> int) list"

definition rollback :: "allocated_addrs \<Rightarrow> ('v, 'h) linear_scan \<Rightarrow> ('v, 'h) linear_scan" where
  "rollback addrs s =
     s\<lparr>par := fold (\<lambda>(_, addr, sz) p. if addr = invalidAddress then p else free addr sz p) addrs (par s)\<rparr>"

definition canAllocFixed ::
  "('v, 'h) scan_handler \<Rightarrow> int \<Rightarrow> int \<Rightarrow> ('v, 'h) linear_scan \<Rightarrow> memory_error + bool" where
  "canAllocFixed H newRangeAddr newRangeSize s =
     bindE (anyE (\<lambda>prevRange. bindE (getAddress H prevRange (handler s)) (\<lambda>prevRangeAddr.
              Inr (intersects newRangeAddr newRangeSize prevRangeAddr (getSize H prevRange (handler s)))))
            (liveRanges s)) (\<lambda>hit. Inr (\<not> hit))"

text \<open>
  The loops of the two placements end because every round takes one live range out; \<open>n\<close> counts
  the live ranges. \<open>None\<close> stands for the early return after \<open>rollback\<close>.
\<close>

fun makeRoomFixed ::
  "('v, 'h) scan_handler \<Rightarrow> bool \<Rightarrow> int \<Rightarrow> int \<Rightarrow> nat \<Rightarrow> 'v list \<Rightarrow> ('v, 'h) linear_scan
    \<Rightarrow> memory_error + 'v list option \<times> ('v, 'h) linear_scan" where
  "makeRoomFixed H allowSpills newRangeAddr newRangeSize n spillCandidates s =
     bindE (canAllocFixed H newRangeAddr newRangeSize s) (\<lambda>room.
       if room then Inr (Some spillCandidates, s)
       else if \<not> allowSpills then Inr (None, s)
       else bindE (getSpillCandidate H s) (\<lambda>(c, s1).
         case (c, n) of
           (Some v, Suc m) \<Rightarrow> makeRoomFixed H allowSpills newRangeAddr newRangeSize m (spillCandidates @ [v]) s1
         | _ \<Rightarrow> Inr (None, s1)))"

definition allocFixedRange ::
  "('v, 'h) scan_handler \<Rightarrow> nat \<Rightarrow> 'v \<Rightarrow> bool \<Rightarrow> allocated_addrs \<Rightarrow> ('v, 'h) linear_scan
    \<Rightarrow> memory_error + allocated_addrs option \<times> ('v, 'h) linear_scan" where
  "allocFixedRange H pos newRange allowSpills addrs s =
     bindE (getAddress H newRange (handler s)) (\<lambda>newRangeAddr.
       let newRangeSize = getSize H newRange (handler s)
       in bindE (makeRoomFixed H allowSpills newRangeAddr newRangeSize (length (liveRanges s)) [] s) (\<lambda>(room, s1).
          case room of
            None \<Rightarrow> Inr (None, rollback addrs s1)
          | Some spillCandidates \<Rightarrow>
              bindE (performActualSpill H spillCandidates newRangeAddr newRangeSize s1) (\<lambda>(ok, s2).
                if \<not> ok then Inr (None, rollback addrs s2)
                else bindE (allocFixed newRangeAddr newRangeSize (par s2)) (\<lambda>p.
                       Inr (Some (addrs @ [(pos, newRangeAddr, newRangeSize)]), s2\<lparr>par := p\<rparr>)))))"

fun makeRoomPlain ::
  "('v, 'h) scan_handler \<Rightarrow> bool \<Rightarrow> int \<Rightarrow> int \<Rightarrow> direction \<Rightarrow> nat \<Rightarrow> 'v list \<Rightarrow> ('v, 'h) linear_scan
    \<Rightarrow> memory_error + (int \<times> 'v list) option \<times> ('v, 'h) linear_scan" where
  "makeRoomPlain H allowSpills newRangeSize newRangeAlignment dir n spillCandidates s =
     bindE (alloc newRangeSize newRangeAlignment dir (par s)) (\<lambda>(newRangeAddr, p).
       let s = s\<lparr>par := p\<rparr>
       in if newRangeAddr \<noteq> invalidAddress then Inr (Some (newRangeAddr, spillCandidates), s)
          else if \<not> allowSpills then Inr (None, s)
          else bindE (getSpillCandidate H s) (\<lambda>(c, s1).
            case (c, n) of
              (Some v, Suc m) \<Rightarrow> makeRoomPlain H allowSpills newRangeSize newRangeAlignment dir m (spillCandidates @ [v]) s1
            | _ \<Rightarrow> Inr (None, s1)))"

definition allocPlainRange ::
  "('v, 'h) scan_handler \<Rightarrow> nat \<Rightarrow> 'v \<Rightarrow> bool \<Rightarrow> direction \<Rightarrow> allocated_addrs \<Rightarrow> ('v, 'h) linear_scan
    \<Rightarrow> memory_error + allocated_addrs option \<times> ('v, 'h) linear_scan" where
  "allocPlainRange H pos newRange allowSpills dir addrs s =
     (let newRangeSize = getSize H newRange (handler s); newRangeAlignment = getAlignment H newRange (handler s)
      in bindE (makeRoomPlain H allowSpills newRangeSize newRangeAlignment dir (length (liveRanges s)) [] s) (\<lambda>(room, s1).
         case room of
           None \<Rightarrow> Inr (None, rollback addrs s1)
         | Some (newRangeAddr, spillCandidates) \<Rightarrow>
             bindE (performActualSpill H spillCandidates newRangeAddr newRangeSize s1) (\<lambda>(ok, s2).
               if \<not> ok then Inr (None, rollback addrs s2)
               else Inr (Some (addrs @ [(pos, newRangeAddr, newRangeSize)]), s2))))"

text \<open>One pass over the new ranges; it stops at the first one that finds no room.\<close>

fun placeRanges ::
  "(nat \<Rightarrow> 'v \<Rightarrow> allocated_addrs \<Rightarrow> ('v, 'h) linear_scan \<Rightarrow> memory_error + allocated_addrs option \<times> ('v, 'h) linear_scan)
    \<Rightarrow> (nat \<times> 'v) list \<Rightarrow> allocated_addrs \<Rightarrow> ('v, 'h) linear_scan
    \<Rightarrow> memory_error + allocated_addrs option \<times> ('v, 'h) linear_scan" where
  "placeRanges place [] addrs s = Inr (Some addrs, s)"
| "placeRanges place ((pos, newRange) # rs) addrs s =
     bindE (place pos newRange addrs s) (\<lambda>(r, s1).
       case r of None \<Rightarrow> Inr (None, s1) | Some addrs1 \<Rightarrow> placeRanges place rs addrs1 s1)"

definition introduceRange ::
  "('v, 'h) scan_handler \<Rightarrow> allocated_addrs \<Rightarrow> nat \<times> 'v \<Rightarrow> ('v, 'h) linear_scan \<Rightarrow> memory_error + ('v, 'h) linear_scan" where
  "introduceRange H addrs r s =
     (case map_of addrs (fst r) of
        None \<Rightarrow> Inl NotAllocated
      | Some (addr, _) \<Rightarrow> bindE (allocated H (snd r) addr (handler s)) (\<lambda>h.
          Inr (s\<lparr>handler := h, liveRanges := liveRanges s @ [snd r]\<rparr>)))"

definition allocRanges ::
  "('v, 'h) scan_handler \<Rightarrow> 'v list \<Rightarrow> bool \<Rightarrow> direction \<Rightarrow> ('v, 'h) linear_scan
    \<Rightarrow> memory_error + bool \<times> ('v, 'h) linear_scan" where
  "allocRanges H newLiveRanges allowSpills dir s =
     (let news = enumerate 0 newLiveRanges
      in bindE (placeRanges (\<lambda>pos r. allocFixedRange H pos r allowSpills)
                  (filter (\<lambda>r. isFixedAlloc H (snd r)) news) [] s) (\<lambda>(fixedAddrs, s1).
         case fixedAddrs of
           None \<Rightarrow> Inr (False, s1)
         | Some addrs1 \<Rightarrow>
             bindE (placeRanges (\<lambda>pos r. allocPlainRange H pos r allowSpills dir)
                      (filter (\<lambda>r. \<not> isFixedAlloc H (snd r)) news) addrs1 s1) (\<lambda>(plainAddrs, s2).
             case plainAddrs of
               None \<Rightarrow> Inr (False, s2)
             | Some addrs2 \<Rightarrow> bindE (foldE (introduceRange H addrs2) news s2) (\<lambda>s3. Inr (True, s3)))))"

text \<open>A trial allocation: everything it takes is released again.\<close>

fun trialAlloc ::
  "('v, 'h) scan_handler \<Rightarrow> 'h \<Rightarrow> direction \<Rightarrow> 'v list \<Rightarrow> (int \<times> int) list \<Rightarrow> partitioner
    \<Rightarrow> memory_error + bool \<times> (int \<times> int) list \<times> partitioner" where
  "trialAlloc H h dir [] tempAlloc p = Inr (True, tempAlloc, p)"
| "trialAlloc H h dir (newRange # rs) tempAlloc p =
     bindE (alloc (getSize H newRange h) (getAlignment H newRange h) dir p) (\<lambda>(allocAddr, p1).
       if allocAddr = invalidAddress then Inr (False, tempAlloc, p1)
       else trialAlloc H h dir rs (tempAlloc @ [(allocAddr, getSize H newRange h)]) p1)"

definition canAlloc ::
  "('v, 'h) scan_handler \<Rightarrow> 'v list \<Rightarrow> direction \<Rightarrow> ('v, 'h) linear_scan \<Rightarrow> memory_error + bool \<times> ('v, 'h) linear_scan" where
  "canAlloc H newLiveRanges dir s =
     bindE (trialAlloc H (handler s) dir newLiveRanges [] (par s)) (\<lambda>(canAllocAll, tempAlloc, p1).
       let p2 = fold (\<lambda>(addr, sz). free addr sz) tempAlloc p1
       in guardE (length (gaps (par s)) = length (gaps p2)) GapsCreated (Inr (canAllocAll, s\<lparr>par := p2\<rparr>)))"

section \<open>LinearScanHandler\<close>

text \<open>
  A value as the handler sees it: the operation that defines it, with its alignment attribute
  or static offset, and the total size of its type in bytes.
\<close>

datatype defining_op =
    StaticAllocOp (staticOffset: nat)
  | MemrefAllocOp (memrefAlignment: "nat option")
  | VpurtAllocOp (vpurtAlignment: "nat option")
  | VpurtAllocDistributedOp (distributedAlignment: "nat option")
  | OtherDefiningOp

record mlir_value =
  valueId :: nat
  definingOp :: defining_op
  totalBytes :: nat

record handler_state =
  valOffsets :: "mlir_value \<rightharpoonup> int"
  sizeCache :: "mlir_value \<rightharpoonup> int"
  aliveValues :: "mlir_value set"
  dynamicSpillValues :: "mlir_value set"
  defaultAlignment :: int
  maxAllocatedSize :: int

definition mkHandler :: "int \<Rightarrow> handler_state" where
  "mkHandler align = \<lparr>valOffsets = Map.empty, sizeCache = Map.empty, aliveValues = {}, dynamicSpillValues = {},
     defaultAlignment = align, maxAllocatedSize = 0\<rparr>"

definition markAsDead :: "mlir_value \<Rightarrow> handler_state \<Rightarrow> handler_state" where
  "markAsDead v h = h\<lparr>aliveValues := aliveValues h - {v}\<rparr>"

definition markAllBuffersAsDead :: "handler_state \<Rightarrow> handler_state" where
  "markAllBuffersAsDead h = h\<lparr>aliveValues := {}\<rparr>"

definition markAsAlive :: "mlir_value \<Rightarrow> handler_state \<Rightarrow> handler_state" where
  "markAsAlive v h = h\<lparr>aliveValues := insert v (aliveValues h)\<rparr>"

definition markAsDynamicSpill :: "mlir_value \<Rightarrow> handler_state \<Rightarrow> handler_state" where
  "markAsDynamicSpill v h = h\<lparr>dynamicSpillValues := insert v (dynamicSpillValues h)\<rparr>"

definition removeDynamicSpill :: "mlir_value \<Rightarrow> handler_state \<Rightarrow> memory_error + handler_state" where
  "removeDynamicSpill v h =
     guardE (v \<in> dynamicSpillValues h) NotDynamicSpill (Inr (h\<lparr>dynamicSpillValues := dynamicSpillValues h - {v}\<rparr>))"

definition lsIsAlive :: "mlir_value \<Rightarrow> handler_state \<Rightarrow> bool" where
  "lsIsAlive v h = (v \<in> aliveValues h)"

definition isDynamicSpill :: "mlir_value \<Rightarrow> handler_state \<Rightarrow> bool" where
  "isDynamicSpill v h = (v \<in> dynamicSpillValues h)"

definition lsIsFixedAlloc :: "mlir_value \<Rightarrow> bool" where
  "lsIsFixedAlloc v = (case definingOp v of StaticAllocOp _ \<Rightarrow> True | _ \<Rightarrow> False)"

text \<open>The size comes from the cache, which is filled on the first request.\<close>

definition lsGetSize :: "mlir_value \<Rightarrow> handler_state \<Rightarrow> int \<times> handler_state" where
  "lsGetSize v h =
     (case sizeCache h v of
        None \<Rightarrow> (let sz = int (totalBytes v) in (sz, h\<lparr>sizeCache := (sizeCache h)(v \<mapsto> sz)\<rparr>))
      | Some sz \<Rightarrow> (sz, h))"

definition lsGetAlignment :: "mlir_value \<Rightarrow> handler_state \<Rightarrow> int" where
  "lsGetAlignment v h =
     (let fallback = defaultAlignment h
      in case definingOp v of
           MemrefAllocOp (Some a) \<Rightarrow> int a
         | VpurtAllocOp (Some a) \<Rightarrow> int a
         | VpurtAllocDistributedOp (Some a) \<Rightarrow> int a
         | _ \<Rightarrow> fallback)"

definition lsGetAddress :: "mlir_value \<Rightarrow> handler_state \<Rightarrow> memory_error + int" where
  "lsGetAddress v h =
     (case definingOp v of
        StaticAllocOp off \<Rightarrow> Inr (int off)
      | _ \<Rightarrow> (case valOffsets h v of None \<Rightarrow> Inl NotAllocated | Some a \<Rightarrow> Inr a))"

definition setAddress :: "mlir_value \<Rightarrow> int \<Rightarrow> handler_state \<Rightarrow> handler_state" where
  "setAddress v addr h = h\<lparr>valOffsets := (valOffsets h)(v \<mapsto> addr)\<rparr>"

text \<open>\<open>alignValUp<int64_t>\<close>: signed, and negative values are not rounded.\<close>

definition toSigned :: "int \<Rightarrow> int" where
  "toSigned x = (if wrap x < 2 ^ 63 then wrap x else wrap x - 2 ^ 64)"

definition alignValUpSigned :: "int \<Rightarrow> int \<Rightarrow> memory_error + int" where
  "alignValUpSigned val align =
     guardE (align \<noteq> 0) ZeroAlignment
       (let isPos = (if val \<ge> 0 then 1 else 0)
        in Inr (((val + isPos * (align - 1)) sdiv align) * align))"

definition lsAllocated :: "mlir_value \<Rightarrow> int \<Rightarrow> handler_state \<Rightarrow> memory_error + handler_state" where
  "lsAllocated v addr h =
     guardE (addr \<noteq> invalidAddress) InvalidAllocAddress (guardE (valOffsets h v = None) AlreadyAllocated
       (let h1 = h\<lparr>valOffsets := (valOffsets h)(v \<mapsto> addr)\<rparr>; (sz, h2) = lsGetSize v h1
        in bindE (alignValUpSigned (toSigned (addr + sz)) (toSigned (lsGetAlignment v h2))) (\<lambda>endAddr.
             Inr (h2\<lparr>maxAllocatedSize := max (maxAllocatedSize h2) endAddr\<rparr>))))"

definition deallocate :: "mlir_value \<Rightarrow> handler_state \<Rightarrow> memory_error + handler_state" where
  "deallocate v h =
     guardE (valOffsets h v \<noteq> None) NotAllocated (Inr (h\<lparr>valOffsets := (valOffsets h)(v := None)\<rparr>))"

definition lsFreed :: "mlir_value \<Rightarrow> handler_state \<Rightarrow> memory_error + handler_state" where
  "lsFreed v h = Inr (markAsDead v h)"

definition lsGetSpillWeight :: "mlir_value \<Rightarrow> handler_state \<Rightarrow> memory_error + int" where
  "lsGetSpillWeight v h = Inl SpillsNotImplemented"

definition lsSpilled :: "mlir_value \<Rightarrow> handler_state \<Rightarrow> memory_error + bool \<times> handler_state" where
  "lsSpilled v h = Inl SpillsNotImplemented"

definition linearScanHandler :: "(mlir_value, handler_state) scan_handler" where
  "linearScanHandler =
     \<lparr>isAlive = lsIsAlive, isFixedAlloc = lsIsFixedAlloc, getSize = (\<lambda>v h. fst (lsGetSize v h)),
      getAlignment = lsGetAlignment, getAddress = lsGetAddress, allocated = lsAllocated, freed = lsFreed,
      getSpillWeight = lsGetSpillWeight, spilled = lsSpilled\<rparr>"

end
