(* ===== verification/Partitioner_Correct.thy ===== *)
theory Partitioner_Correct
  imports Partitioner
begin

text \<open>
  What the partitioner does to the set of free addresses: an allocation takes an aligned
  interval out of it and fails only when there is none, a release gives the interval back, and
  the two undo each other.
\<close>

section \<open>Gaps and intervals\<close>

lemma gapEnd_free: "gapsOk lim gs \<Longrightarrow> g \<in> set gs \<Longrightarrow> gapEnd g \<notin> covered gs"
proof (induction gs)
  case (Cons f gs)
  have ok: "gapsOk lim gs" "\<And>h. h \<in> set gs \<Longrightarrow> gapEnd f < gapBegin h" using Cons.prems(1) by (simp_all add: gapsOk_Cons)
  show ?case
  proof (cases "g = f")
    case True
    then show ?thesis using covered_after[OF Cons.prems(1), of "gapEnd f"] by auto
  next
    case False
    then have g: "g \<in> set gs" using Cons.prems(2) by simp
    have "gapEnd f < gapEnd g" using ok(2)[OF g] gapsOk_bounds(2)[OF ok(1) g] by linarith
    then show ?thesis using Cons.IH[OF ok(1) g] by simp
  qed
qed simp

lemma interval_in_gap:
  assumes ok: "gapsOk lim gs" and sub: "{a..<b} \<subseteq> covered gs" and "a < b"
  obtains g where "g \<in> set gs" "gapBegin g \<le> a" "b \<le> gapEnd g"
proof -
  have "a \<in> covered gs" using assms by auto
  then obtain g where g: "g \<in> set gs" "gapBegin g \<le> a" "a < gapEnd g" by (auto simp: covered_def)
  have "b \<le> gapEnd g"
  proof (rule ccontr)
    assume "\<not> b \<le> gapEnd g"
    then have "gapEnd g \<in> {a..<b}" using g by simp
    with sub gapEnd_free[OF ok g(1)] show False by blast
  qed
  with g show thesis using that by blast
qed

lemma gap_in_covered: "g \<in> set gs \<Longrightarrow> gapBegin g \<le> a \<Longrightarrow> b \<le> gapEnd g \<Longrightarrow> {a..<b} \<subseteq> covered gs"
  unfolding covered_def by force

text \<open>The gaps around one gap.\<close>

lemma gapsOk_split:
  "gapsOk lim (ls @ g # rs) \<longleftrightarrow>
     gapsOk lim ls \<and> gapsOk lim rs \<and> 0 \<le> gapBegin g \<and> gapBegin g < gapEnd g \<and> gapEnd g \<le> lim \<and>
     (\<forall>l \<in> set ls. gapEnd l < gapBegin g) \<and> (\<forall>r \<in> set rs. gapEnd g < gapBegin r) \<and>
     (\<forall>l \<in> set ls. \<forall>r \<in> set rs. gapEnd l < gapBegin r)"
  by (auto simp: gapsOk_append gapsOk_Cons)

lemma covered_sides:
  assumes "gapsOk lim (ls @ g # rs)"
  shows "x \<in> covered ls \<Longrightarrow> x < gapBegin g" "x \<in> covered rs \<Longrightarrow> gapEnd g < x"
proof -
  show "x < gapBegin g" if "x \<in> covered ls"
  proof -
    from that obtain l where "l \<in> set ls" "x < gapEnd l" by (auto simp: covered_def)
    then show ?thesis using assms unfolding gapsOk_split by force
  qed
  show "gapEnd g < x" if "x \<in> covered rs"
  proof -
    from that obtain r where "r \<in> set rs" "gapBegin r \<le> x" by (auto simp: covered_def)
    then show ?thesis using assms unfolding gapsOk_split by force
  qed
qed

text \<open>Cutting an interval out of one gap, whatever is left of it.\<close>

definition cutGap :: "gap \<Rightarrow> int \<Rightarrow> int \<Rightarrow> gap list" where
  "cutGap g a b =
     (if gapBegin g < a then [mkGap (gapBegin g) a] else []) @ (if b < gapEnd g then [mkGap b (gapEnd g)] else [])"

lemma cutGap_ok:
  assumes ok: "gapsOk lim (ls @ g # rs)" and ab: "gapBegin g \<le> a" "a < b" "b \<le> gapEnd g"
  shows "gapsOk lim (ls @ cutGap g a b @ rs)" "covered (ls @ cutGap g a b @ rs) = covered (ls @ g # rs) - {a..<b}"
proof -
  have s: "gapsOk lim ls" "gapsOk lim rs" "0 \<le> gapBegin g" "gapBegin g < gapEnd g" "gapEnd g \<le> lim"
    "\<And>l. l \<in> set ls \<Longrightarrow> gapEnd l < gapBegin g" "\<And>r. r \<in> set rs \<Longrightarrow> gapEnd g < gapBegin r"
    "\<And>l r. l \<in> set ls \<Longrightarrow> r \<in> set rs \<Longrightarrow> gapEnd l < gapBegin r"
    using ok unfolding gapsOk_split by blast+
  have c: "gapsOk lim (cutGap g a b)" "\<And>h. h \<in> set (cutGap g a b) \<Longrightarrow> gapBegin g \<le> gapBegin h \<and> gapEnd h \<le> gapEnd g"
    using s(3-5) ab by (auto simp: cutGap_def gapsOk_def)
  have "gapEnd l < gapBegin h" if "l \<in> set ls" "h \<in> set (cutGap g a b)" for l h
    using s(6)[OF that(1)] c(2)[OF that(2)] by linarith
  moreover have "gapEnd h < gapBegin r" if "r \<in> set rs" "h \<in> set (cutGap g a b)" for r h
    using s(7)[OF that(1)] c(2)[OF that(2)] by linarith
  ultimately show "gapsOk lim (ls @ cutGap g a b @ rs)"
    unfolding gapsOk_append set_append using s(1,2,8) c(1) by blast
  have "x \<in> covered (cutGap g a b) \<longleftrightarrow> x \<in> span g \<and> x \<notin> {a..<b}" for x
    using ab by (auto simp: cutGap_def)
  moreover have "x \<notin> {a..<b}" if "x \<in> covered ls \<or> x \<in> covered rs" for x
    using covered_sides[OF ok, of x] that ab by fastforce
  ultimately show "covered (ls @ cutGap g a b @ rs) = covered (ls @ g # rs) - {a..<b}"
    by (simp only: covered_simps) blast
qed

lemma useGap_cut:
  assumes ok: "gapsOk lim gs" and lim: "lim < 2 ^ 64" and pos: "pos < length gs"
    and a: "gapBegin (gs ! pos) \<le> a" "a + sz \<le> gapEnd (gs ! pos)" "0 < sz"
  shows "useGap gs pos a sz = take pos gs @ cutGap (gs ! pos) a (a + sz) @ drop (Suc pos) gs"
proof -
  let ?g = "gs ! pos"
  have b: "0 \<le> gapBegin ?g" "gapEnd ?g \<le> lim" using gapsOk_bounds[OF ok nth_mem[OF pos]] by auto
  have w: "wrap (a + sz) = a + sz" "wrap (a - gapBegin ?g) = a - gapBegin ?g" "wrap (gapEnd ?g - (a + sz)) = gapEnd ?g - (a + sz)"
    using a b lim by simp_all
  have u: "gs[pos := x] = take pos gs @ x # drop (Suc pos) gs" for x using pos by (rule upd_conv_take_nth_drop)
  have g: "?g\<lparr>gapEnd := e\<rparr> = mkGap (gapBegin ?g) e" "?g\<lparr>gapBegin := e\<rparr> = mkGap e (gapEnd ?g)" for e
    by (simp_all add: mkGap_def)
  show ?thesis unfolding useGap_def Let_def w u g using a by (auto simp: cutGap_def)
qed

lemma useGap_ok:
  assumes "gapsOk lim gs" "lim < 2 ^ 64" "pos < length gs" "gapBegin (gs ! pos) \<le> a" "a + sz \<le> gapEnd (gs ! pos)" "0 < sz"
  shows "gapsOk lim (useGap gs pos a sz)" "covered (useGap gs pos a sz) = covered gs - {a..<a + sz}"
proof -
  have gs: "gs = take pos gs @ gs ! pos # drop (Suc pos) gs" using id_take_nth_drop[OF assms(3)] .
  note c = cutGap_ok[of lim "take pos gs" "gs ! pos" "drop (Suc pos) gs" a "a + sz", folded gs, OF assms(1,4) _ assms(5)]
  then show "gapsOk lim (useGap gs pos a sz)" "covered (useGap gs pos a sz) = covered gs - {a..<a + sz}"
    using assms(6) unfolding useGap_cut[OF assms] by simp_all
qed

section \<open>Choosing an address in a gap\<close>

lemma alignValUp_ok:
  assumes "0 \<le> val" "0 < align" "val + align \<le> 2 ^ 64"
  obtains a where "alignValUp val align = Inr a" "align dvd a" "val \<le> a" "a < val + align"
    "\<And>m. align dvd m \<Longrightarrow> val \<le> m \<Longrightarrow> a \<le> m"
proof -
  let ?a = "(val + (align - 1)) div align * align"
  have w: "wrap (val + (align - 1)) = val + (align - 1)" using assms by simp
  have d: "?a + (val + (align - 1)) mod align = val + (align - 1)" by simp
  have m: "0 \<le> (val + (align - 1)) mod align" "(val + (align - 1)) mod align < align" using assms by simp_all
  have b: "val \<le> ?a" "?a < val + align" using d m by linarith+
  have "0 \<le> ?a" "?a < 2 ^ 64" using b assms by linarith+
  then have r: "alignValUp val align = Inr ?a" using assms(2) by (simp add: alignValUp_def w)
  have least: "?a \<le> x" if x: "align dvd x" "val \<le> x" for x
  proof -
    obtain k where k: "x = align * k" using x(1) by auto
    have "(val + (align - 1)) div align \<le> (x + (align - 1)) div align"
      using x(2) assms(2) by (intro zdiv_mono1) auto
    also have "(x + (align - 1)) div align = k + (align - 1) div align"
      unfolding k using assms(2) by (simp add: add.commute)
    also have "(align - 1) div align = 0" using assms(2) by (simp add: div_pos_pos_trivial)
    finally have "(val + (align - 1)) div align * align \<le> k * align" using assms(2) by (intro mult_right_mono) auto
    then show ?thesis by (simp add: k mult.commute)
  qed
  show thesis by (rule that[OF r _ b least]) simp
qed

definition fitsGap :: "gap \<Rightarrow> int \<Rightarrow> int \<Rightarrow> bool" where
  "fitsGap g sz align \<longleftrightarrow> (\<exists>m. align dvd m \<and> gapBegin g \<le> m \<and> m + sz \<le> gapEnd g)"

lemma getAddrFromGap_ok:
  assumes ok: "gapsOk lim gs" and pos: "pos < length gs" and sz: "0 < sz" "0 < align" "lim + align < 2 ^ 64"
  obtains a where "getAddrFromGap gs pos sz align dir = Inr a" "a \<noteq> invalidAddress \<longleftrightarrow> fitsGap (gs ! pos) sz align"
    "a \<noteq> invalidAddress \<Longrightarrow> align dvd a \<and> gapBegin (gs ! pos) \<le> a \<and> a + sz \<le> gapEnd (gs ! pos)"
proof -
  let ?g = "gs ! pos"
  have b: "0 \<le> gapBegin ?g" "gapBegin ?g < gapEnd ?g" "gapEnd ?g \<le> lim" using gapsOk_bounds[OF ok nth_mem[OF pos]] by auto
  have gs: "gapSize ?g = gapEnd ?g - gapBegin ?g" using gapSize_ok[OF ok nth_mem[OF pos]] sz by simp
  have valid: "a \<noteq> invalidAddress" if "a + sz \<le> gapEnd ?g" for a
    using that b sz by (simp add: invalidAddress_def)
  show thesis
  proof (cases "gapEnd ?g - gapBegin ?g < sz")
    case True
    then have "getAddrFromGap gs pos sz align dir = Inr invalidAddress" by (simp add: getAddrFromGap_def gs Let_def)
    moreover have "\<not> fitsGap ?g sz align" using True by (auto simp: fitsGap_def)
    ultimately show thesis using that by blast
  next
    case False
    show thesis
    proof (cases dir)
      case Up
      obtain a where a: "alignValUp (gapBegin ?g) align = Inr a" "align dvd a" "gapBegin ?g \<le> a" "a < gapBegin ?g + align"
        "\<And>m. align dvd m \<Longrightarrow> gapBegin ?g \<le> m \<Longrightarrow> a \<le> m"
        using alignValUp_ok[of "gapBegin ?g" align] b sz by auto
      have w: "wrap (a + sz) = a + sz" using a b sz False by simp
      have r: "getAddrFromGap gs pos sz align dir = Inr (if a + sz > gapEnd ?g then invalidAddress else a)"
        using False Up a(1) w by (simp add: getAddrFromGap_def gs Let_def)
      show thesis
      proof (cases "a + sz > gapEnd ?g")
        case True
        have "\<not> fitsGap ?g sz align" using a(5) True by (fastforce simp: fitsGap_def)
        with that r True show thesis by simp
      next
        case False
        then have "fitsGap ?g sz align" using a by (auto simp: fitsGap_def)
        with that[of a] r False valid[of a] a show thesis by simp
      qed
    next
      case Down
      have e: "wrap (gapEnd ?g - sz) = gapEnd ?g - sz" using False b sz by simp
      obtain a where a: "alignValUp (gapEnd ?g - sz) align = Inr a" "align dvd a" "gapEnd ?g - sz \<le> a" "a < gapEnd ?g - sz + align"
        "\<And>m. align dvd m \<Longrightarrow> gapEnd ?g - sz \<le> m \<Longrightarrow> a \<le> m"
        using alignValUp_ok[of "gapEnd ?g - sz" align] False b sz by auto
      have w: "wrap (a + sz) = a + sz" "wrap (gapBegin ?g + align) = gapBegin ?g + align" using a b sz False by simp_all
      show thesis
      proof (cases "a + sz > gapEnd ?g")
        case far: True
        have below: "m \<le> a - align" if "align dvd m" "m + sz \<le> gapEnd ?g" for m
        proof (rule ccontr)
          assume "\<not> m \<le> a - align"
          have "align dvd m" using that(1) .
          then obtain k where k: "m = align * k" unfolding dvd_def by blast
          obtain j where j: "a = align * j" using a(2) unfolding dvd_def by blast
          note kj = k j
          have "a - align < m" using \<open>\<not> m \<le> a - align\<close> by simp
          then have "align * (j - 1) < align * k" by (simp add: kj algebra_simps)
          then have "j \<le> k" using sz(2) by (simp add: mult_less_cancel_left)
          then have "a \<le> m" using sz(2) by (simp add: kj)
          with that(2) far show False by simp
        qed
        show thesis
        proof (cases "gapBegin ?g + align > a")
          case True
          then have "getAddrFromGap gs pos sz align dir = Inr invalidAddress"
            using False Down a(1) w e far by (simp add: getAddrFromGap_def gs Let_def)
          moreover have "\<not> fitsGap ?g sz align" using below True by (fastforce simp: fitsGap_def)
          ultimately show thesis using that by blast
        next
          case near: False
          have w2: "wrap (a - align) = a - align" "wrap (a - align + sz) = a - align + sz" using near a b sz by simp_all
          have r: "getAddrFromGap gs pos sz align dir = Inr (a - align)"
            using False Down a(1,4) w w2 e far near by (simp add: getAddrFromGap_def gs Let_def)
          have f: "align dvd a - align" "gapBegin ?g \<le> a - align" "a - align + sz \<le> gapEnd ?g" using a near by simp_all
          then have "fitsGap ?g sz align" by (auto simp: fitsGap_def)
          with that r f valid[of "a - align"] show thesis by blast
        qed
      next
        case near: False
        then have r: "getAddrFromGap gs pos sz align dir = Inr a"
          using False Down a(1) w e by (simp add: getAddrFromGap_def gs Let_def)
        have f: "gapBegin ?g \<le> a" "a + sz \<le> gapEnd ?g" using near a(3) False by simp_all
        then have "fitsGap ?g sz align" using a(2) by (auto simp: fitsGap_def)
        with that r f a(2) valid[of a] show thesis by blast
      qed
    qed
  qed
qed


section \<open>Allocation\<close>

lemma minGap_fold:
  assumes ok: "gapsOk lim gs" and sz: "0 < sz" "0 < align" "lim + align < 2 ^ 64" and idx: "set l \<subseteq> {..<length gs}"
  shows "\<exists>ind m. foldE (minGapStep gs sz align dir) l (None, 2 ^ 64 - 1) = Inr (ind, m) \<and>
    (ind = None \<longrightarrow> m = 2 ^ 64 - 1 \<and> (\<forall>i \<in> set l. \<not> fitsGap (gs ! i) sz align)) \<and>
    (\<forall>i. ind = Some i \<longrightarrow> i \<in> set l \<and> m = gapSize (gs ! i) \<and> fitsGap (gs ! i) sz align \<and>
       (\<forall>j \<in> set l. fitsGap (gs ! j) sz align \<longrightarrow> gapSize (gs ! i) \<le> gapSize (gs ! j)))"
  using idx
proof (induction l rule: rev_induct)
  case Nil
  then show ?case by simp
next
  case (snoc i l)
  then obtain ind m where r: "foldE (minGapStep gs sz align dir) l (None, 2 ^ 64 - 1) = Inr (ind, m)"
    and none: "ind = None \<longrightarrow> m = 2 ^ 64 - 1 \<and> (\<forall>i \<in> set l. \<not> fitsGap (gs ! i) sz align)"
    and some: "\<And>i. ind = Some i \<Longrightarrow> i \<in> set l \<and> m = gapSize (gs ! i) \<and> fitsGap (gs ! i) sz align \<and>
       (\<forall>j \<in> set l. fitsGap (gs ! j) sz align \<longrightarrow> gapSize (gs ! i) \<le> gapSize (gs ! j))" by auto
  have i: "i < length gs" using snoc.prems by simp
  obtain a where a: "getAddrFromGap gs i sz align dir = Inr a" "a \<noteq> invalidAddress \<longleftrightarrow> fitsGap (gs ! i) sz align"
    using getAddrFromGap_ok[OF ok i sz] by metis
  have small: "gapSize (gs ! i) < 2 ^ 64 - 1"
    using gapSize_ok[OF ok nth_mem[OF i]] gapsOk_bounds[OF ok nth_mem[OF i]] sz by simp
  have step: "foldE (minGapStep gs sz align dir) (l @ [i]) (None, 2 ^ 64 - 1) =
      Inr (if fitsGap (gs ! i) sz align \<and> gapSize (gs ! i) < m then (Some i, gapSize (gs ! i)) else (ind, m))"
    using r a by (simp add: foldE_append minGapStep_def)
  show ?case
  proof (cases "fitsGap (gs ! i) sz align \<and> gapSize (gs ! i) < m")
    case True
    have "gapSize (gs ! i) \<le> gapSize (gs ! j)" if "j \<in> set (l @ [i])" "fitsGap (gs ! j) sz align" for j
      using that none some True by (cases ind) fastforce+
    with step True show ?thesis by auto
  next
    case False
    have "ind = None \<Longrightarrow> \<not> fitsGap (gs ! i) sz align" using none False small by auto
    moreover have "ind = Some k \<Longrightarrow> fitsGap (gs ! i) sz align \<Longrightarrow> gapSize (gs ! k) \<le> gapSize (gs ! i)" for k
      using some[of k] False by auto
    moreover have "foldE (minGapStep gs sz align dir) (l @ [i]) (None, 2 ^ 64 - 1) = Inr (ind, m)"
      unfolding step using False by simp
    ultimately show ?thesis using none some by (intro exI[of _ ind] exI[of _ m]) auto
  qed
qed

text \<open>An aligned interval of free addresses.\<close>

definition freeSlot :: "int set \<Rightarrow> int \<Rightarrow> int \<Rightarrow> int \<Rightarrow> bool" where
  "freeSlot F sz align a \<longleftrightarrow> align dvd a \<and> {a..<a + sz} \<subseteq> F"

lemma freeSlot_fits:
  assumes "gapsOk lim gs" "0 < sz"
  shows "(\<exists>a. freeSlot (covered gs) sz align a) \<longleftrightarrow> (\<exists>g \<in> set gs. fitsGap g sz align)"
proof
  assume "\<exists>a. freeSlot (covered gs) sz align a"
  then obtain a where a: "align dvd a" "{a..<a + sz} \<subseteq> covered gs" by (auto simp: freeSlot_def)
  have "a < a + sz" using assms(2) by simp
  from interval_in_gap[OF assms(1) a(2) this] obtain g where "g \<in> set gs" "gapBegin g \<le> a" "a + sz \<le> gapEnd g" by blast
  with a(1) show "\<exists>g \<in> set gs. fitsGap g sz align" by (auto simp: fitsGap_def)
next
  assume "\<exists>g \<in> set gs. fitsGap g sz align"
  then obtain g a where "g \<in> set gs" "align dvd a" "gapBegin g \<le> a" "a + sz \<le> gapEnd g" by (auto simp: fitsGap_def)
  then show "\<exists>a. freeSlot (covered gs) sz align a" using gap_in_covered[of g gs a "a + sz"] by (auto simp: freeSlot_def)
qed

text \<open>An allocation fails exactly when there is no such interval.\<close>

lemma alloc_ok:
  assumes ok: "parOk p" and sz: "0 < sz" "0 < align" "totalSize p + align < 2 ^ 64"
  shows "\<exists>a p'. alloc sz align dir p = Inr (a, p') \<and> parOk p' \<and> totalSize p' = totalSize p \<and>
    (a = invalidAddress \<longrightarrow> p' = p \<and> (\<forall>x. \<not> freeSlot (freeSpace p) sz align x)) \<and>
    (a \<noteq> invalidAddress \<longrightarrow> freeSlot (freeSpace p) sz align a \<and> freeSpace p' = freeSpace p - {a..<a + sz})"
proof -
  let ?gs = "gaps p"
  have g: "gapsOk (totalSize p) ?gs" "totalSize p < 2 ^ 64" using ok by (simp_all add: parOk_def)
  show ?thesis
  proof (cases "?gs = []")
    case True
    then have "\<not> freeSlot (freeSpace p) sz align x" for x using sz by (auto simp: freeSlot_def freeSpace_def)
    then show ?thesis using True ok by (simp add: alloc_def chooseMinimalGap_def)
  next
    case False
    define order where "order = (case dir of Up \<Rightarrow> [0..<length ?gs - 1] | Down \<Rightarrow> rev [1..<length ?gs])"
    define lastGap where "lastGap = (case dir of Up \<Rightarrow> length ?gs - 1 | Down \<Rightarrow> 0)"
    have order: "set order \<subseteq> {..<length ?gs}" "lastGap < length ?gs" "\<And>i. i < length ?gs \<Longrightarrow> i \<in> set order \<or> i = lastGap"
      using False by (auto simp: order_def lastGap_def split: direction.splits)
    from minGap_fold[OF g(1) sz order(1)] obtain ind m where
      r: "foldE (minGapStep ?gs sz align dir) order (None, 2 ^ 64 - 1) = Inr (ind, m)"
      and none: "ind = None \<longrightarrow> (\<forall>i \<in> set order. \<not> fitsGap (?gs ! i) sz align)"
      and some: "\<And>i. ind = Some i \<Longrightarrow> i \<in> set order \<and> fitsGap (?gs ! i) sz align" by blast
    obtain l where l: "getAddrFromGap ?gs lastGap sz align dir = Inr l" "l \<noteq> invalidAddress \<longleftrightarrow> fitsGap (?gs ! lastGap) sz align"
      using getAddrFromGap_ok[OF g(1) order(2) sz] by metis
    define fin where "fin = (if ind \<noteq> None then ind else if l \<noteq> invalidAddress then Some lastGap else None)"
    have run: "alloc sz align dir p = (case fin of None \<Rightarrow> Inr (invalidAddress, p)
        | Some i \<Rightarrow> bindE (getAddrFromGap ?gs i sz align dir) (\<lambda>a. Inr (a, p\<lparr>gaps := useGap ?gs i a sz\<rparr>)))"
      using False r l(1) unfolding alloc_def chooseMinimalGap_def Let_def order_def[symmetric] lastGap_def[symmetric] fin_def
      by (cases ind) simp_all
    show ?thesis
    proof (cases fin)
      case None
      then have "\<not> fitsGap (?gs ! i) sz align" if "i < length ?gs" for i
        using order(3)[OF that] none l(2) by (auto simp: fin_def split: if_splits)
      then have "\<forall>x. \<not> freeSlot (freeSpace p) sz align x"
        using freeSlot_fits[OF g(1) sz(1), of align] by (auto simp: freeSpace_def in_set_conv_nth)
      then show ?thesis using run None ok by simp
    next
      case (Some i)
      have i: "i < length ?gs" "fitsGap (?gs ! i) sz align"
        using Some some order l(2) by (auto simp: fin_def split: if_splits)
      obtain a where a: "getAddrFromGap ?gs i sz align dir = Inr a" "a \<noteq> invalidAddress"
        "align dvd a \<and> gapBegin (?gs ! i) \<le> a \<and> a + sz \<le> gapEnd (?gs ! i)"
        using getAddrFromGap_ok[OF g(1) i(1) sz] i(2) by metis
      note u = useGap_ok[OF g i(1) _ _ sz(1), of a]
      have "freeSlot (freeSpace p) sz align a"
        using a(3) gap_in_covered[OF nth_mem[OF i(1)], of a "a + sz"] by (simp add: freeSlot_def freeSpace_def)
      then show ?thesis
        using run Some a u ok by (simp add: parOk_def freeSpace_def)
    qed
  qed
qed

section \<open>Allocation at an address\<close>

lemma allocFixed_ok:
  assumes ok: "parOk p" and sz: "0 < sz" and sub: "{addr..<addr + sz} \<subseteq> freeSpace p"
  shows "\<exists>p'. allocFixed addr sz p = Inr p' \<and> parOk p' \<and> totalSize p' = totalSize p \<and>
    freeSpace p' = freeSpace p - {addr..<addr + sz}"
proof -
  let ?gs = "gaps p"
  have gok: "gapsOk (totalSize p) ?gs" "totalSize p < 2 ^ 64" using ok by (simp_all add: parOk_def)
  obtain g where g: "g \<in> set ?gs" "gapBegin g \<le> addr" "addr + sz \<le> gapEnd g"
    using interval_in_gap[OF gok(1)] sub sz unfolding freeSpace_def by (metis less_add_same_cancel1)
  then obtain ls rs where gs: "?gs = ls @ g # rs" by (meson split_list)
  note b = gapsOk_bounds[OF gok(1) g(1)]
  have s: "gapsOk (totalSize p) (ls @ g # rs)" using gok(1) gs by simp
  have ls: "gapBegin l < addr" if "l \<in> set ls" for l
    using that s gapsOk_bounds(2)[OF s, of l] g(2) unfolding gapsOk_split by fastforce
  have rs: "addr < gapBegin r" if "r \<in> set rs" for r
    using that s g(3) sz unfolding gapsOk_split by fastforce
  have e: "wrap (addr + sz) = addr + sz" using g b sz gok(2) by simp
  have tw: "takeWhile (\<lambda>h. gapBegin h < addr) ?gs = (if gapBegin g < addr then ls @ [g] else ls)"
  proof -
    have "takeWhile (\<lambda>h. gapBegin h < addr) rs = []"
    proof (cases rs)
      case (Cons r rest)
      then show ?thesis using rs[of r] by simp
    qed simp
    then show ?thesis unfolding gs using ls by (simp add: takeWhile_append2)
  qed
  define p' where "p' = p\<lparr>gaps := ls @ cutGap g addr (addr + sz) @ rs\<rparr>"
  have "allocFixed addr sz p = Inr p'"
  proof (cases "gapBegin g = addr")
    case True
    have "gapSize g = gapEnd g - addr" using gapSize_ok[OF gok(1) g(1) gok(2)] True by simp
    then show ?thesis using True e tw g
      by (auto simp: allocFixed_def Let_def gs p'_def cutGap_def mkGap_def)
  next
    case False
    then have lt: "gapBegin g < addr" using g(2) by simp
    have hd: "\<not> (Suc (length ls) < length ?gs \<and> gapBegin (?gs ! Suc (length ls)) = addr)"
    proof (cases rs)
      case (Cons r rest)
      then show ?thesis using rs[of r] by (simp add: gs nth_append)
    qed (simp add: gs)
    have i: "Suc (length ls) - 1 = length ls" "?gs ! length ls = g" by (simp_all add: gs)
    have w: "wrap (gapEnd g - (addr + sz)) = gapEnd g - (addr + sz)" "wrap (gapEnd g) = gapEnd g" using g b gok(2) sz by simp_all
    show ?thesis
      using lt hd e tw i w g(3) unfolding allocFixed_def Let_def
      by (simp add: p'_def cutGap_def) (auto simp: gs mkGap_def)
  qed
  moreover note cutGap_ok[OF s g(2) _ g(3)]
  ultimately show ?thesis using sz gok(2) by (intro exI[of _ p']) (simp add: parOk_def freeSpace_def p'_def gs)
qed


section \<open>Release\<close>

lemma gap_update_simps [simp]:
  "gapBegin (prependGap g sz) = wrap (gapBegin g - sz)" "gapEnd (prependGap g sz) = gapEnd g"
  "gapBegin (appendGap g sz) = gapBegin g" "gapEnd (appendGap g sz) = wrap (gapEnd g + sz)"
  by (simp_all add: prependGap_def appendGap_def)

text \<open>An interval that meets no gap lies before or after each of them.\<close>

lemma interval_beside:
  assumes "gapsOk lim gs" "{a..<b} \<inter> covered gs = {}" "g \<in> set gs" "a < b"
  shows "b \<le> gapBegin g \<or> gapEnd g \<le> a"
proof (rule ccontr)
  assume "\<not> ?thesis"
  then have "max a (gapBegin g) \<in> {a..<b}" "max a (gapBegin g) \<in> span g"
    using gapsOk_bounds(2)[OF assms(1,3)] assms(4) by (auto simp: max_def)
  with assms(2,3) show False unfolding covered_def by blast
qed

lemma gapsOk_Cons_list:
  assumes "gapsOk lim (g # gs)" "gapsOk lim hs" "0 \<le> gapBegin f" "gapBegin f < gapEnd f" "gapEnd f \<le> lim"
    "\<And>h. h \<in> set hs \<Longrightarrow> gapEnd f < gapBegin h"
  shows "gapsOk lim (f # hs)"
  using assms by (simp add: gapsOk_Cons)

lemma freeWalk_ok:
  assumes "gapsOk lim (f # gs)" "lim < 2 ^ 64" "gapEnd f \<le> addr" "0 < sz" "addr + sz \<le> lim"
    "{addr..<addr + sz} \<inter> covered (f # gs) = {}"
  shows "gapsOk lim (freeWalk addr sz (f # gs)) \<and>
    covered (freeWalk addr sz (f # gs)) = covered (f # gs) \<union> {addr..<addr + sz} \<and>
    (\<forall>h \<in> set (freeWalk addr sz (f # gs)). gapBegin f \<le> gapBegin h)"
  using assms
proof (induction gs arbitrary: f)
  case Nil
  then have b: "0 \<le> gapBegin f" "gapBegin f < gapEnd f" by (simp_all add: gapsOk_Cons)
  have e: "wrap (addr + sz) = addr + sz" using Nil.prems b by simp
  show ?case
  proof (cases "addr = gapEnd f")
    case True
    have "wrap (gapEnd f + sz) = gapEnd f + sz" using True e by simp
    then show ?thesis using True Nil.prems b e by (auto simp: Let_def gapsOk_Cons)
  next
    case False
    then show ?thesis using Nil.prems b e by (auto simp: Let_def gapsOk_Cons)
  qed
next
  case (Cons nx gs)
  have b: "0 \<le> gapBegin f" "gapBegin f < gapEnd f" "gapEnd f < gapBegin nx" "gapBegin nx < gapEnd nx" "gapEnd nx \<le> lim"
    and ok: "gapsOk lim (nx # gs)" and after: "\<And>h. h \<in> set gs \<Longrightarrow> gapEnd nx < gapBegin h" "\<And>h. h \<in> set gs \<Longrightarrow> gapEnd f < gapBegin h"
    using Cons.prems(1) by (simp_all add: gapsOk_Cons)
  have far: "gapBegin f \<le> gapBegin h" if "h \<in> set gs" for h using after(2)[OF that] b(2) by linarith
  have beyond: "x < gapBegin h" if "h \<in> set gs" "x \<le> gapEnd nx" for x h using after(1)[OF that(1)] that(2) by linarith
  have okgs: "gapsOk lim gs" using ok by (simp add: gapsOk_Cons)
  have e: "wrap (addr + sz) = addr + sz" using Cons.prems b by simp
  have gn: "gapSize nx = gapEnd nx - gapBegin nx" using gapSize_ok[OF ok] Cons.prems(2) by simp
  show ?case
  proof (cases "addr + sz \<le> gapBegin nx")
    case True
    consider "addr = gapEnd f" "addr + sz = gapBegin nx" | "addr = gapEnd f" "addr + sz < gapBegin nx"
      | "gapEnd f < addr" "addr + sz = gapBegin nx" | "gapEnd f < addr" "addr + sz < gapBegin nx"
      using True Cons.prems(3) by linarith
    then show ?thesis
    proof cases
      case 1
      have w: "wrap (sz + gapSize nx) = gapEnd nx - gapEnd f" "wrap (gapEnd nx) = gapEnd nx"
        using 1 gn b Cons.prems by simp_all
      have r: "freeWalk addr sz (f # nx # gs) = mkGap (gapBegin f) (gapEnd nx) # gs"
        using 1 e w by (simp add: Let_def appendGap_def mkGap_def)
      show ?thesis unfolding r using 1 b far okgs by (auto simp: gapsOk_Cons intro!: beyond)
    next
      case 2
      have w: "wrap (gapEnd f + sz) = gapEnd f + sz" using 2 e by simp
      have r: "freeWalk addr sz (f # nx # gs) = mkGap (gapBegin f) (gapEnd f + sz) # nx # gs"
        using 2 e w by (simp add: Let_def appendGap_def mkGap_def)
      show ?thesis unfolding r using 2 b far ok Cons.prems(4) by (auto simp: gapsOk_Cons intro!: beyond)
    next
      case 3
      have w: "wrap (gapBegin nx - sz) = addr" using 3 b Cons.prems by simp
      have r: "freeWalk addr sz (f # nx # gs) = f # mkGap addr (gapEnd nx) # gs"
        using 3 e w b by (simp add: Let_def prependGap_def mkGap_def)
      show ?thesis unfolding r using 3 b far okgs Cons.prems(4) by (auto simp: gapsOk_Cons intro!: beyond)
    next
      case 4
      have r: "freeWalk addr sz (f # nx # gs) = f # mkGap addr (addr + sz) # nx # gs" using 4 e by (simp add: Let_def)
      show ?thesis unfolding r using 4 b far ok Cons.prems(4) by (auto simp: gapsOk_Cons intro!: beyond)
    qed
  next
    case False
    have "addr < addr + sz" using Cons.prems(4) by simp
    from interval_beside[OF Cons.prems(1,6) _ this, of nx] False have n: "gapEnd nx \<le> addr" by simp
    have d: "{addr..<addr + sz} \<inter> covered (nx # gs) = {}" using Cons.prems(6) by auto
    from Cons.IH[OF ok Cons.prems(2) n Cons.prems(4,5) d] have
      ih: "gapsOk lim (freeWalk addr sz (nx # gs))"
        "covered (freeWalk addr sz (nx # gs)) = covered (nx # gs) \<union> {addr..<addr + sz}"
        "\<And>h. h \<in> set (freeWalk addr sz (nx # gs)) \<Longrightarrow> gapBegin nx \<le> gapBegin h" by blast+
    have r: "freeWalk addr sz (f # nx # gs) = f # freeWalk addr sz (nx # gs)" using False e by (simp add: Let_def)
    have "gapsOk lim (f # freeWalk addr sz (nx # gs))"
      unfolding gapsOk_Cons using ih(1) ih(3) b by (meson less_le_trans less_trans order_less_imp_le)
    moreover have "\<forall>h \<in> set (f # freeWalk addr sz (nx # gs)). gapBegin f \<le> gapBegin h" using ih(3) b by force
    ultimately show ?thesis unfolding r using ih(2) by (simp only: covered_simps) blast
  qed
qed

lemma free_ok:
  assumes ok: "parOk p" and sz: "0 < sz" "0 \<le> addr" "addr + sz \<le> totalSize p"
    and dis: "{addr..<addr + sz} \<inter> freeSpace p = {}"
  shows "parOk (free addr sz p) \<and> totalSize (free addr sz p) = totalSize p \<and>
    freeSpace (free addr sz p) = freeSpace p \<union> {addr..<addr + sz}"
proof -
  have g: "gapsOk (totalSize p) (gaps p)" "totalSize p < 2 ^ 64" using ok by (simp_all add: parOk_def)
  have e: "wrap (addr + sz) = addr + sz" using sz g by simp
  show ?thesis
  proof (cases "gaps p")
    case Nil
    then show ?thesis using sz ok e by (auto simp: free_def Let_def parOk_def freeSpace_def gapsOk_Cons)
  next
    case (Cons f gs)
    have okf: "gapsOk (totalSize p) (f # gs)" using g(1) Cons by simp
    then have b: "0 \<le> gapBegin f" "gapBegin f < gapEnd f" "gapEnd f \<le> totalSize p"
      "\<And>h. h \<in> set gs \<Longrightarrow> gapEnd f < gapBegin h" "gapsOk (totalSize p) gs" by (simp_all add: gapsOk_Cons)
    have d: "{addr..<addr + sz} \<inter> covered (f # gs) = {}" using dis Cons by (simp add: freeSpace_def)
    define gs' where "gs' = gaps (free addr sz p)"
    have "gapsOk (totalSize p) gs' \<and> covered gs' = covered (f # gs) \<union> {addr..<addr + sz}"
    proof (cases "addr + sz \<le> gapBegin f")
      case True
      then consider "addr + sz = gapBegin f" | "addr + sz < gapBegin f" by linarith
      then show ?thesis
      proof cases
        case 1
        have "wrap (gapBegin f - sz) = addr" using 1 sz g b by simp
        then have "gs' = mkGap addr (gapEnd f) # gs"
          using 1 e Cons by (simp add: gs'_def free_def Let_def prependGap_def mkGap_def)
        then show ?thesis using 1 b sz by (auto simp: gapsOk_Cons)
      next
        case 2
        then have "gs' = mkGap addr (addr + sz) # f # gs" using e Cons by (simp add: gs'_def free_def Let_def)
        then show ?thesis using 2 b sz okf by (fastforce simp: gapsOk_Cons)
      qed
    next
      case False
      have "addr < addr + sz" using sz by simp
      from interval_beside[OF okf d _ this, of f] False have f: "gapEnd f \<le> addr" by simp
      have "gs' = freeWalk addr sz (f # gs)" using False e Cons by (simp add: gs'_def free_def Let_def)
      then show ?thesis using freeWalk_ok[OF okf g(2) f sz(1,3) d] by blast
    qed
    moreover have "totalSize (free addr sz p) = totalSize p" by (simp add: free_def Let_def)
    ultimately show ?thesis using g(2) Cons unfolding parOk_def freeSpace_def gs'_def by simp
  qed
qed

section \<open>The gaps follow from the free addresses\<close>

lemma partitioner_inject:
  assumes "parOk p" "parOk q" "totalSize p = totalSize q" "freeSpace p = freeSpace q"
  shows "p = q"
  using covered_inject[of "totalSize p" "gaps p" "gaps q"] assms by (simp add: parOk_def freeSpace_def)

lemma free_alloc_inverse:
  assumes "parOk p" "parOk p'" "totalSize p' = totalSize p" "freeSpace p' = freeSpace p - {a..<a + sz}"
    "{a..<a + sz} \<subseteq> freeSpace p" "0 < sz"
  shows "free a sz p' = p"
proof -
  have "a \<in> freeSpace p" "a + sz - 1 \<in> freeSpace p" using assms(5,6) by auto
  then have b: "0 \<le> a" "a + sz \<le> totalSize p'"
    using assms(1,3) covered_bounds[of "totalSize p" "gaps p"] by (auto simp: parOk_def freeSpace_def)
  have "{a..<a + sz} \<inter> freeSpace p' = {}" using assms(4) by blast
  from free_ok[OF assms(2,6) b this] have
    "parOk (free a sz p')" "totalSize (free a sz p') = totalSize p" "freeSpace (free a sz p') = freeSpace p"
    using assms(3,4,5) by auto
  then show ?thesis using partitioner_inject[OF _ assms(1)] by simp
qed

section \<open>Queries\<close>

lemma intersects_iff:
  assumes "0 \<le> a" "0 < s" "a + s < 2 ^ 64" "0 \<le> b" "0 < t" "b + t < 2 ^ 64"
  shows "intersects a s b t \<longleftrightarrow> {a..<a + s} \<inter> {b..<b + t} \<noteq> {}"
proof -
  have w: "wrap (a + s) = a + s" "wrap (b + t) = b + t" "wrap (a + s - 1) = a + s - 1" "wrap (b + t - 1) = b + t - 1"
    using assms by simp_all
  have "intersects a s b t \<longleftrightarrow> a < b + t \<and> b < a + s"
    unfolding intersects_def Let_def w using assms by auto
  also have "\<dots> \<longleftrightarrow> {a..<a + s} \<inter> {b..<b + t} \<noteq> {}"
  proof
    assume "a < b + t \<and> b < a + s"
    then have "max a b \<in> {a..<a + s} \<inter> {b..<b + t}" using assms by (auto simp: max_def)
    then show "{a..<a + s} \<inter> {b..<b + t} \<noteq> {}" by blast
  qed auto
  finally show ?thesis .
qed

lemma totalFreeSize_card:
  assumes "parOk p"
  shows "totalFreeSize p = int (card (freeSpace p))"
proof -
  have fin: "finite (covered gs)" if "gapsOk lim gs" for gs lim by (rule finite_subset[OF covered_bounds[OF that]]) simp
  have small: "int (card (covered gs)) \<le> lim" if "gapsOk lim gs" "0 \<le> lim" for gs lim
    using card_mono[OF _ covered_bounds[OF that(1)]] that(2) by simp
  have "gapsOk lim (hs @ gs) \<Longrightarrow> 0 \<le> lim \<Longrightarrow> lim < 2 ^ 64 \<Longrightarrow>
      fold (\<lambda>g res. wrap (res + gapSize g)) gs (int (card (covered hs))) = int (card (covered (hs @ gs)))" for lim hs gs
  proof (induction gs arbitrary: hs)
    case (Cons g gs)
    have s: "gapsOk lim hs" "gapsOk lim (hs @ [g])" using Cons.prems(1) by (auto simp: gapsOk_append gapsOk_Cons)
    have sz: "gapSize g = int (card (span g))"
      using gapSize_ok[OF s(2)] Cons.prems(3) gapsOk_bounds[OF s(2), of g] by (simp add: span_def)
    have "covered hs \<inter> span g = {}" using covered_sides(1)[of lim hs g "[]"] s(2) by fastforce
    then have c: "int (card (covered hs)) + gapSize g = int (card (covered (hs @ [g])))"
      using fin[OF s(1)] sz by (simp add: card_Un_disjoint span_def)
    have "wrap (int (card (covered hs)) + gapSize g) = int (card (covered (hs @ [g])))"
      unfolding c using small[OF s(2) Cons.prems(2)] Cons.prems(3) by simp
    then show ?case using Cons.IH[of "hs @ [g]"] Cons.prems by simp
  qed simp
  from this[of "totalSize p" "[]" "gaps p"] have "totalFreeSize p = int (card (freeSpace p))" if "0 \<le> totalSize p"
    using assms that by (simp add: totalFreeSize_def freeSpace_def parOk_def)
  moreover have "gaps p = []" if "totalSize p < 0"
  proof (rule ccontr)
    assume "gaps p \<noteq> []"
    then obtain g gs where "gaps p = g # gs" by (cases "gaps p") auto
    with assms that show False by (auto simp: parOk_def gapsOk_Cons)
  qed
  ultimately show ?thesis by (cases "totalSize p < 0") (auto simp: totalFreeSize_def freeSpace_def)
qed

end
