(* ===== verification/Linear_Scan_Correct.thy ===== *)
theory Linear_Scan_Correct
  imports Linear_Scan Partitioner_Correct "HOL-Library.Multiset"
begin

text \<open>
  The linear scan over any handler that keeps the addresses it is told: live ranges never
  overlap, the partitioner's free space is exactly the rest of the memory, and an allocation
  that fails leaves everything as it was.
\<close>

section \<open>Regions of the memory\<close>

definition ivl :: "int \<times> int \<Rightarrow> int set" where
  "ivl r = {fst r..<fst r + snd r}"

text \<open>
  The regions \<open>I\<close> are disjoint, avoid the reserved addresses \<open>R\<close>, and together with them
  are what is not free.
\<close>

definition regionsOk :: "int set \<Rightarrow> (int \<times> int) list \<Rightarrow> partitioner \<Rightarrow> bool" where
  "regionsOk R I p \<longleftrightarrow>
     parOk p \<and> distinct I \<and> (\<forall>r \<in> set I. 0 < snd r \<and> ivl r \<subseteq> {0..<totalSize p} - R) \<and>
     (\<forall>r \<in> set I. \<forall>r' \<in> set I. r \<noteq> r' \<longrightarrow> ivl r \<inter> ivl r' = {}) \<and>
     freeSpace p = {0..<totalSize p} - R - \<Union> (ivl ` set I)"

lemma regionsOk_perm: "regionsOk R I p \<Longrightarrow> mset I = mset J \<Longrightarrow> regionsOk R J p"
  unfolding regionsOk_def using mset_eq_imp_distinct_iff mset_eq_setD by metis

lemma regionsOk_take:
  assumes r: "regionsOk R I p" and sub: "{a..<a + s} \<subseteq> freeSpace p" "0 < s"
    and p': "parOk p'" "totalSize p' = totalSize p" "freeSpace p' = freeSpace p - {a..<a + s}"
  shows "regionsOk R ((a, s) # I) p'"
proof -
  have ne: "a \<in> ivl (a, s)" using sub(2) by (simp add: ivl_def)
  have F: "freeSpace p = {0..<totalSize p} - R - \<Union> (ivl ` set I)" using r by (simp add: regionsOk_def)
  have sub': "ivl (a, s) \<subseteq> freeSpace p" and p3: "freeSpace p' = freeSpace p - ivl (a, s)" using sub(1) p'(3) by (simp_all add: ivl_def)
  have d: "ivl (a, s) \<inter> ivl x = {}" if "x \<in> set I" for x using that sub' unfolding F by blast
  then have "(a, s) \<notin> set I" using ne by blast
  moreover have "ivl (a, s) \<subseteq> {0..<totalSize p} - R" using sub' unfolding F by blast
  moreover have "freeSpace p' = {0..<totalSize p} - R - \<Union> (ivl ` set ((a, s) # I))"
    unfolding p3 F by auto
  ultimately show ?thesis using r d p'(1,2) sub(2) unfolding regionsOk_def by (auto simp: Int_commute)
qed

lemma regionsOk_release:
  assumes "regionsOk R ((a, s) # I) p"
  shows "regionsOk R I (free a s p)" "totalSize (free a s p) = totalSize p"
proof -
  have b: "0 < s" "ivl (a, s) \<subseteq> {0..<totalSize p} - R" using assms by (auto simp: regionsOk_def)
  have d: "ivl (a, s) \<inter> ivl x = {}" if "x \<in> set I" for x using that assms unfolding regionsOk_def by fastforce
  have F: "freeSpace p = {0..<totalSize p} - R - (ivl (a, s) \<union> \<Union> (ivl ` set I))" using assms by (simp add: regionsOk_def)
  have "a \<in> ivl (a, s)" "a + s - 1 \<in> ivl (a, s)" using b(1) by (simp_all add: ivl_def)
  with b(2) have "0 \<le> a" "a + s \<le> totalSize p" by auto
  moreover have "{a..<a + s} \<inter> freeSpace p = {}" using F by (auto simp: ivl_def)
  moreover have "parOk p" using assms by (simp add: regionsOk_def)
  ultimately have f: "parOk (free a s p)" "totalSize (free a s p) = totalSize p"
    "freeSpace (free a s p) = freeSpace p \<union> ivl (a, s)" using free_ok b(1) by (auto simp: ivl_def)
  then show "totalSize (free a s p) = totalSize p" by simp
  have "freeSpace (free a s p) = {0..<totalSize p} - R - \<Union> (ivl ` set I)"
    unfolding f(3) F using b(2) d by blast
  then show "regionsOk R I (free a s p)" using assms f(1,2) unfolding regionsOk_def by simp
qed

lemma regionsOk_inject: "regionsOk R I p \<Longrightarrow> regionsOk R I q \<Longrightarrow> totalSize p = totalSize q \<Longrightarrow> p = q"
  unfolding regionsOk_def by (metis partitioner_inject)

lemma regionsOk_bounds:
  assumes "regionsOk R I p" "(a, s) \<in> set I"
  shows "0 < s" "0 \<le> a" "a + s \<le> totalSize p" "a \<noteq> invalidAddress"
proof -
  have b: "0 < s" "ivl (a, s) \<subseteq> {0..<totalSize p}" "totalSize p < 2 ^ 64"
    using assms by (auto simp: regionsOk_def parOk_def)
  have "a \<in> ivl (a, s)" "a + s - 1 \<in> ivl (a, s)" using b(1) by (simp_all add: ivl_def)
  with b(2) show "0 \<le> a" "a + s \<le> totalSize p" by auto
  with b show "0 < s" "a \<noteq> invalidAddress" by (auto simp: invalidAddress_def)
qed

text \<open>Releasing all regions of a list.\<close>

lemma release_all:
  assumes "regionsOk R (map snd A @ I) p"
  shows "regionsOk R I (fold (\<lambda>(_, a, s) p. if a = invalidAddress then p else free a s p) A p) \<and>
    totalSize (fold (\<lambda>(_, a, s) p. if a = invalidAddress then p else free a s p) A p) = totalSize p"
  using assms
proof (induction A arbitrary: p)
  case (Cons x A)
  obtain i a s where x: "x = (i, a, s)" by (cases x) auto
  have ok: "regionsOk R ((a, s) # map snd A @ I) p" using Cons.prems x by simp
  have "a \<noteq> invalidAddress" using regionsOk_bounds(4)[OF ok, of a s] by simp
  then show ?case using Cons.IH[OF regionsOk_release(1)[OF ok]] regionsOk_release(2)[OF ok] x by simp
qed simp

lemma release_list:
  assumes "regionsOk R (A @ I) p"
  shows "regionsOk R I (fold (\<lambda>(a, s). free a s) A p) \<and> totalSize (fold (\<lambda>(a, s). free a s) A p) = totalSize p"
  using assms
proof (induction A arbitrary: p)
  case (Cons x A)
  obtain a s where x: "x = (a, s)" by (cases x) auto
  have ok: "regionsOk R ((a, s) # A @ I) p" using Cons.prems x by simp
  then show ?case using Cons.IH[OF regionsOk_release(1)[OF ok]] regionsOk_release(2)[OF ok] x by simp
qed simp

section \<open>Removing from the live ranges\<close>

lemma swapRemove_props:
  assumes "i < length xs"
  shows "mset (swapRemove i xs) = mset xs - {#xs ! i#}" "length (swapRemove i xs) = length xs - 1"
    "j < i \<Longrightarrow> swapRemove i xs ! j = xs ! j"
proof -
  obtain ys y where xs: "xs = ys @ [y]" using assms by (cases xs rule: rev_cases) auto
  show "mset (swapRemove i xs) = mset xs - {#xs ! i#}"
  proof (cases "i = length ys")
    case True
    then show ?thesis by (simp add: swapRemove_def xs)
  next
    case False
    then have i: "i < length ys" using assms xs by simp
    then show ?thesis by (simp add: swapRemove_def xs list_update_append nth_append mset_update butlast_append)
  qed
  show "length (swapRemove i xs) = length xs - 1" by (simp add: swapRemove_def)
  show "swapRemove i xs ! j = xs ! j" if "j < i" using that assms by (simp add: swapRemove_def nth_butlast)
qed


section \<open>The contract of a handler\<close>

text \<open>The address and size of each live range, as the handler knows them.\<close>

definition regions :: "('v, 'h) scan_handler \<Rightarrow> 'h \<Rightarrow> 'v list \<Rightarrow> (int \<times> int) list" where
  "regions H h vs = map (\<lambda>v. (projr (getAddress H v h), getSize H v h)) vs"

text \<open>
  \<open>known\<close> says which ranges have been given an address. A handler accepts every new range,
  reports the address it was given (a fixed range keeps its own), and freeing a range only ends
  its life.
\<close>

declare makeRoomFixed.simps [simp del] makeRoomPlain.simps [simp del]

locale range_handler =
  fixes H :: "('v, 'h) scan_handler" and known :: "'v \<Rightarrow> 'h \<Rightarrow> bool"
  assumes allocated_defined: "\<not> known v h \<Longrightarrow> a \<noteq> invalidAddress \<Longrightarrow> 0 < getAlignment H v h \<Longrightarrow>
      getAlignment H v h < 2 ^ 64 \<Longrightarrow> \<exists>h'. allocated H v a h = Inr h'"
    and allocated_known: "allocated H v a h = Inr h' \<Longrightarrow> known w h' \<longleftrightarrow> w = v \<or> known w h"
    and allocated_address: "allocated H v a h = Inr h' \<Longrightarrow>
      getAddress H w h' = (if w = v \<and> \<not> isFixedAlloc H v then Inr a else getAddress H w h)"
    and allocated_frame: "allocated H v a h = Inr h' \<Longrightarrow>
      getSize H w h' = getSize H w h \<and> getAlignment H w h' = getAlignment H w h \<and> isAlive H w h' = isAlive H w h"
    and freed_frame: "\<exists>h'. freed H v h = Inr h' \<and> (\<forall>w. known w h' = known w h \<and> getAddress H w h' = getAddress H w h \<and>
      getSize H w h' = getSize H w h \<and> getAlignment H w h' = getAlignment H w h \<and>
      isAlive H w h' = (w \<noteq> v \<and> isAlive H w h))"
begin

definition scanOk :: "int set \<Rightarrow> ('v, 'h) linear_scan \<Rightarrow> bool" where
  "scanOk R s \<longleftrightarrow>
     distinct (liveRanges s) \<and> (\<forall>v \<in> set (liveRanges s). known v (handler s) \<and> \<not> isl (getAddress H v (handler s))) \<and>
     regionsOk R (regions H (handler s) (liveRanges s)) (par s)"

lemma address_Inr: "\<not> isl (getAddress H v h) \<Longrightarrow> getAddress H v h = Inr (projr (getAddress H v h))"
  by (cases "getAddress H v h") simp_all

lemma freeLiveRange_ok:
  assumes ok: "scanOk R s" and i: "i < length (liveRanges s)"
  shows "\<exists>s'. freeLiveRange H i s = Inr s' \<and> scanOk R s' \<and> liveRanges s' = swapRemove i (liveRanges s) \<and>
    totalSize (par s') = totalSize (par s) \<and>
    (\<forall>w. isAlive H w (handler s') \<longleftrightarrow> w \<noteq> liveRanges s ! i \<and> isAlive H w (handler s))"
proof -
  let ?h = "handler s" and ?L = "liveRanges s"
  let ?v = "?L ! i" let ?s = "getSize H ?v ?h"
  have v: "?v \<in> set ?L" using i by simp
  then have "\<not> isl (getAddress H ?v ?h)" using ok by (simp add: scanOk_def)
  then obtain a where a: "getAddress H ?v ?h = Inr a" by (cases "getAddress H ?v ?h") auto
  obtain h' where h': "freed H ?v ?h = Inr h'" and f: "\<And>w. known w h' = known w ?h" "\<And>w. getAddress H w h' = getAddress H w ?h"
    "\<And>w. getSize H w h' = getSize H w ?h" "\<And>w. isAlive H w h' = (w \<noteq> ?v \<and> isAlive H w ?h)"
    using freed_frame by metis
  let ?L' = "swapRemove i ?L" let ?s' = "s\<lparr>par := free a ?s (par s), handler := h', liveRanges := ?L'\<rparr>"
  have run: "freeLiveRange H i s = Inr ?s'" using a h' by (simp add: freeLiveRange_def Let_def)
  have m: "mset ?L = add_mset ?v (mset ?L')" using swapRemove_props(1)[OF i] v by simp
  have reg: "regions H h' ?L' = regions H ?h ?L'" by (simp add: regions_def f)
  have "mset (regions H ?h ?L) = mset ((a, ?s) # regions H ?h ?L')" using m a by (simp add: regions_def)
  then have r: "regionsOk R ((a, ?s) # regions H ?h ?L') (par s)"
    using ok regionsOk_perm by (auto simp: scanOk_def)
  have "distinct (?v # ?L')" using ok m mset_eq_imp_distinct_iff[of ?L "?v # ?L'"] by (simp add: scanOk_def)
  moreover have "set ?L' \<subseteq> set ?L" using m mset_eq_setD[of ?L "?v # ?L'"] by auto
  ultimately have "scanOk R ?s'"
    using ok regionsOk_release(1)[OF r] unfolding scanOk_def by (auto simp: reg f)
  with run regionsOk_release(2)[OF r] f(4) show ?thesis by (intro exI[of _ ?s']) simp
qed

lemma freeNonAliveFrom_ok:
  assumes "scanOk R s" "n = length (liveRanges s) - it" "it \<le> length (liveRanges s)"
    "\<forall>j < it. isAlive H (liveRanges s ! j) (handler s)"
  shows "\<exists>s'. freeNonAliveFrom H n it s = Inr s' \<and> scanOk R s' \<and> totalSize (par s') = totalSize (par s) \<and>
    set (liveRanges s') = {v \<in> set (liveRanges s). isAlive H v (handler s)}"
  using assms
proof (induction n arbitrary: it s)
  case 0
  then have "it = length (liveRanges s)" by simp
  with 0 show ?case by (auto simp: in_set_conv_nth)
next
  case (Suc n)
  then have i: "it < length (liveRanges s)" by simp
  show ?case
  proof (cases "isAlive H (liveRanges s ! it) (handler s)")
    case True
    have "\<forall>j < Suc it. isAlive H (liveRanges s ! j) (handler s)" using Suc.prems(4) True by (simp add: less_Suc_eq)
    then have "\<exists>s'. freeNonAliveFrom H n (Suc it) s = Inr s' \<and> scanOk R s' \<and> totalSize (par s') = totalSize (par s) \<and>
        set (liveRanges s') = {v \<in> set (liveRanges s). isAlive H v (handler s)}"
      using Suc.prems i by (intro Suc.IH) simp_all
    with True show ?thesis by simp
  next
    case False
    from freeLiveRange_ok[OF Suc.prems(1) i] obtain s1 where r1: "freeLiveRange H it s = Inr s1" and ok1: "scanOk R s1"
      and l1: "liveRanges s1 = swapRemove it (liveRanges s)" and t1: "totalSize (par s1) = totalSize (par s)"
      and a1: "\<And>w. isAlive H w (handler s1) \<longleftrightarrow> w \<noteq> liveRanges s ! it \<and> isAlive H w (handler s)" by blast
    note sw = swapRemove_props[OF i]
    have ne: "liveRanges s ! j \<noteq> liveRanges s ! it" if "j < it" for j
      using Suc.prems(1) that i nth_eq_iff_index_eq[of "liveRanges s" j it] by (simp add: scanOk_def)
    have m: "mset (liveRanges s) = mset (liveRanges s ! it # liveRanges s1)" using sw(1) i l1 by simp
    have set1: "set (liveRanges s) = insert (liveRanges s ! it) (set (liveRanges s1))"
      using mset_eq_setD[OF m] by simp
    have d1: "distinct (liveRanges s ! it # liveRanges s1)"
      using mset_eq_imp_distinct_iff[OF m] Suc.prems(1) by (simp add: scanOk_def)
    have "\<exists>s'. freeNonAliveFrom H n it s1 = Inr s' \<and> scanOk R s' \<and> totalSize (par s') = totalSize (par s1) \<and>
        set (liveRanges s') = {v \<in> set (liveRanges s1). isAlive H v (handler s1)}"
      by (rule Suc.IH[OF ok1]) (use Suc.prems i l1 sw ne a1 in simp_all)
    moreover have "{v \<in> set (liveRanges s1). isAlive H v (handler s1)} = {v \<in> set (liveRanges s). isAlive H v (handler s)}"
      using set1 d1 a1 False by auto
    ultimately show ?thesis using r1 t1 False by simp
  qed
qed

lemma freeNonAlive_ok:
  assumes "scanOk R s"
  shows "\<exists>s'. freeNonAlive H s = Inr s' \<and> scanOk R s' \<and> totalSize (par s') = totalSize (par s) \<and>
    set (liveRanges s') = {v \<in> set (liveRanges s). isAlive H v (handler s)}"
  unfolding freeNonAlive_def by (rule freeNonAliveFrom_ok[OF assms]) simp_all

text \<open>What a call may be given: new ranges, and fixed ones that lie apart in the memory.\<close>

definition newOk :: "int set \<Rightarrow> ('v, 'h) linear_scan \<Rightarrow> 'v list \<Rightarrow> bool" where
  "newOk R s news \<longleftrightarrow> distinct news \<and>
     (\<forall>v \<in> set news. \<not> known v (handler s) \<and> 0 < getSize H v (handler s) \<and> 0 < getAlignment H v (handler s) \<and>
        totalSize (par s) + getAlignment H v (handler s) < 2 ^ 64) \<and>
     (\<forall>v \<in> set news. isFixedAlloc H v \<longrightarrow> (\<exists>a. getAddress H v (handler s) = Inr a \<and>
        ivl (a, getSize H v (handler s)) \<subseteq> {0..<totalSize (par s)} - R)) \<and>
     (\<forall>v \<in> set news. \<forall>w \<in> set news. v \<noteq> w \<longrightarrow> isFixedAlloc H v \<longrightarrow> isFixedAlloc H w \<longrightarrow>
        ivl (projr (getAddress H v (handler s)), getSize H v (handler s)) \<inter>
        ivl (projr (getAddress H w (handler s)), getSize H w (handler s)) = {})"

text \<open>The state between two placements: the ranges placed so far are taken.\<close>

definition entryOk :: "'h \<Rightarrow> 'v list \<Rightarrow> nat \<times> int \<times> int \<Rightarrow> bool" where
  "entryOk h news e \<longleftrightarrow> (case e of (pos, a, sz) \<Rightarrow> pos < length news \<and> sz = getSize H (news ! pos) h \<and>
     (if isFixedAlloc H (news ! pos) then getAddress H (news ! pos) h = Inr a
      else getAlignment H (news ! pos) h dvd a))"

definition placed :: "int set \<Rightarrow> ('v, 'h) linear_scan \<Rightarrow> 'v list \<Rightarrow> allocated_addrs \<Rightarrow> ('v, 'h) linear_scan \<Rightarrow> bool" where
  "placed R s0 news A s \<longleftrightarrow>
     handler s = handler s0 \<and> liveRanges s = liveRanges s0 \<and> totalSize (par s) = totalSize (par s0) \<and>
     regionsOk R (map snd A @ regions H (handler s0) (liveRanges s0)) (par s) \<and>
     (\<forall>e \<in> set A. entryOk (handler s0) news e)"

lemma linear_scan_eqI: "par s = par t \<Longrightarrow> liveRanges s = liveRanges t \<Longrightarrow> handler s = handler t \<Longrightarrow> s = (t :: ('v, 'h) linear_scan)"
  by (cases s; cases t) simp

lemma rollback_placed:
  assumes "placed R s0 news A s" "scanOk R s0"
  shows "rollback A s = s0"
proof -
  have r: "regionsOk R (map snd A @ regions H (handler s0) (liveRanges s0)) (par s)" using assms(1) by (simp add: placed_def)
  have "par (rollback A s) = par s0"
    using release_all[OF r] assms regionsOk_inject by (auto simp: rollback_def scanOk_def placed_def)
  moreover have "liveRanges (rollback A s) = liveRanges s0" "handler (rollback A s) = handler s0"
    using assms(1) by (simp_all add: rollback_def placed_def)
  ultimately show ?thesis by (rule linear_scan_eqI)
qed

lemma placed_extend:
  assumes "placed R s0 news A s" and sub: "{a..<a + sz} \<subseteq> freeSpace (par s)" "0 < sz"
    and p': "parOk p'" "totalSize p' = totalSize (par s)" "freeSpace p' = freeSpace (par s) - {a..<a + sz}"
    and e: "entryOk (handler s0) news (pos, a, sz)"
  shows "placed R s0 news (A @ [(pos, a, sz)]) (s\<lparr>par := p'\<rparr>)"
proof -
  have "regionsOk R ((a, sz) # map snd A @ regions H (handler s0) (liveRanges s0)) p'"
    using assms(1) by (intro regionsOk_take[OF _ sub p']) (simp add: placed_def)
  then have "regionsOk R (map snd (A @ [(pos, a, sz)]) @ regions H (handler s0) (liveRanges s0)) p'"
    by (rule regionsOk_perm) simp
  with assms(1) p'(2) e show ?thesis by (simp add: placed_def)
qed

lemma allocPlainRange_ok:
  assumes A: "placed R s0 news A s" and s0: "scanOk R s0" and n: "newOk R s0 news" and pos: "pos < length news"
    and plain: "\<not> isFixedAlloc H (news ! pos)"
  shows "allocPlainRange H pos (news ! pos) False dir A s = Inr (None, s0) \<or>
    (\<exists>a sz s1. allocPlainRange H pos (news ! pos) False dir A s = Inr (Some (A @ [(pos, a, sz)]), s1) \<and>
       placed R s0 news (A @ [(pos, a, sz)]) s1)"
proof -
  let ?v = "news ! pos" let ?h = "handler s0" let ?sz = "getSize H ?v ?h" and ?al = "getAlignment H ?v ?h"
  have h: "handler s = ?h" "totalSize (par s) = totalSize (par s0)" "parOk (par s)"
    using A by (simp_all add: placed_def regionsOk_def)
  have v: "0 < ?sz" "0 < ?al" "totalSize (par s) + ?al < 2 ^ 64" using n pos h by (simp_all add: newOk_def)
  from alloc_ok[OF h(3) v, of dir] obtain a p' where r: "alloc ?sz ?al dir (par s) = Inr (a, p')" and p': "parOk p'" "totalSize p' = totalSize (par s)"
    and inv: "a = invalidAddress \<longrightarrow> p' = par s"
    and slot: "a \<noteq> invalidAddress \<longrightarrow> freeSlot (freeSpace (par s)) ?sz ?al a \<and> freeSpace p' = freeSpace (par s) - {a..<a + ?sz}" by blast
  show ?thesis
  proof (cases "a = invalidAddress")
    case True
    have "s\<lparr>par := par s\<rparr> = s" by simp
    then have "allocPlainRange H pos ?v False dir A s = Inr (None, rollback A s)"
      using r True inv h by (simp add: allocPlainRange_def makeRoomPlain.simps)
    then show ?thesis using rollback_placed[OF A s0] by simp
  next
    case False
    have "allocPlainRange H pos ?v False dir A s = Inr (Some (A @ [(pos, a, ?sz)]), s\<lparr>par := p'\<rparr>)"
      using r False h by (simp add: allocPlainRange_def makeRoomPlain.simps)
    moreover have "placed R s0 news (A @ [(pos, a, ?sz)]) (s\<lparr>par := p'\<rparr>)"
      using slot False pos plain p' by (intro placed_extend[OF A _ v(1)]) (auto simp: freeSlot_def entryOk_def)
    ultimately show ?thesis by blast
  qed
qed

lemma canAllocFixed_ok:
  assumes s: "scanOk R s" and a: "0 \<le> a" "0 < sz" "a + sz \<le> totalSize (par s)"
  shows "canAllocFixed H a sz s = Inr (\<forall>v \<in> set (liveRanges s).
    ivl (a, sz) \<inter> ivl (projr (getAddress H v (handler s)), getSize H v (handler s)) = {})"
proof -
  let ?h = "handler s" and ?r = "\<lambda>v. (projr (getAddress H v (handler s)), getSize H v (handler s))"
  have lim: "totalSize (par s) < 2 ^ 64" using s by (simp add: scanOk_def regionsOk_def parOk_def)
  have f: "bindE (getAddress H v ?h) (\<lambda>b. Inr (intersects a sz b (getSize H v ?h))) = Inr (ivl (a, sz) \<inter> ivl (?r v) \<noteq> {})"
    if v: "v \<in> set (liveRanges s)" for v
  proof -
    have "\<not> isl (getAddress H v ?h)" using s v by (simp add: scanOk_def)
    then obtain b where b: "getAddress H v ?h = Inr b" by (cases "getAddress H v ?h") auto
    have "?r v \<in> set (regions H ?h (liveRanges s))" using v by (simp add: regions_def)
    then have "(b, getSize H v ?h) \<in> set (regions H ?h (liveRanges s))" using b by simp
    from regionsOk_bounds[OF _ this] s have "0 < getSize H v ?h" "0 \<le> b" "b + getSize H v ?h \<le> totalSize (par s)"
      by (auto simp: scanOk_def)
    with a lim b show ?thesis by (simp add: intersects_iff ivl_def)
  qed
  from anyE_pure[of "liveRanges s", OF f] show ?thesis by (simp add: canAllocFixed_def)
qed

lemma allocFixedRange_ok:
  assumes A: "placed R s0 news A s" and s0: "scanOk R s0" and n: "newOk R s0 news" and pos: "pos < length news"
    and fixed: "isFixedAlloc H (news ! pos)" and others: "\<forall>e \<in> set A. isFixedAlloc H (news ! fst e) \<and> fst e \<noteq> pos"
  shows "allocFixedRange H pos (news ! pos) False A s = Inr (None, s0) \<or>
    (\<exists>a sz s1. allocFixedRange H pos (news ! pos) False A s = Inr (Some (A @ [(pos, a, sz)]), s1) \<and>
       placed R s0 news (A @ [(pos, a, sz)]) s1)"
proof -
  let ?v = "news ! pos" let ?h = "handler s0" let ?sz = "getSize H ?v ?h"
  have h: "handler s = ?h" "liveRanges s = liveRanges s0" "totalSize (par s) = totalSize (par s0)"
    and reg: "regionsOk R (map snd A @ regions H ?h (liveRanges s0)) (par s)" and en: "\<forall>e \<in> set A. entryOk ?h news e"
    using A unfolding placed_def by blast+
  have po: "parOk (par s)" using reg by (simp add: regionsOk_def)
  have vin: "?v \<in> set news" using pos by simp
  then obtain a where a: "getAddress H ?v ?h = Inr a" and R: "ivl (a, ?sz) \<subseteq> {0..<totalSize (par s0)} - R"
    using n fixed unfolding newOk_def by blast
  have sz: "0 < ?sz" using n vin by (simp add: newOk_def)
  then have "a \<in> ivl (a, ?sz)" "a + ?sz - 1 \<in> ivl (a, ?sz)" by (simp_all add: ivl_def)
  with R have b: "0 \<le> a" "a + ?sz \<le> totalSize (par s0)" by auto
  have can: "canAllocFixed H a ?sz s = canAllocFixed H a ?sz s0" by (simp add: canAllocFixed_def h)
  note can = can[unfolded canAllocFixed_ok[OF s0 b(1) sz b(2)]]
  show ?thesis
  proof (cases "\<forall>v \<in> set (liveRanges s0). ivl (a, ?sz) \<inter> ivl (projr (getAddress H v ?h), getSize H v ?h) = {}")
    case False
    then have "canAllocFixed H a ?sz s = Inr False" unfolding can by simp
    then have "allocFixedRange H pos ?v False A s = Inr (None, rollback A s)"
      using a h by (simp add: allocFixedRange_def makeRoomFixed.simps)
    then show ?thesis using rollback_placed[OF A s0] by simp
  next
    case True
    then have room: "canAllocFixed H a ?sz s = Inr True" unfolding can by simp
    have "ivl (a, ?sz) \<inter> ivl r = {}" if r: "r \<in> set (map snd A @ regions H ?h (liveRanges s0))" for r
    proof (cases "r \<in> set (regions H ?h (liveRanges s0))")
      case in_live: True
      then obtain v where "v \<in> set (liveRanges s0)" "r = (projr (getAddress H v ?h), getSize H v ?h)"
        unfolding regions_def by auto
      with True show ?thesis by blast
    next
      case False
      with r obtain j c t where e: "(j, c, t) \<in> set A" "r = (c, t)" by auto
      then have j: "isFixedAlloc H (news ! j)" "j \<noteq> pos" "j < length news" "t = getSize H (news ! j) ?h"
        "getAddress H (news ! j) ?h = Inr c"
        using bspec[OF others e(1)] bspec[OF en e(1)] by (simp_all add: entryOk_def)
      have "news ! j \<noteq> ?v" using n j pos by (simp add: newOk_def nth_eq_iff_index_eq)
      moreover have "news ! j \<in> set news" using j(3) by simp
      ultimately have "ivl (projr (getAddress H ?v ?h), ?sz) \<inter> ivl (projr (getAddress H (news ! j) ?h), getSize H (news ! j) ?h) = {}"
        using n vin fixed j(1) unfolding newOk_def by metis
      then show ?thesis using a j e(2) by simp
    qed
    then have "ivl (a, ?sz) \<inter> \<Union> (ivl ` set (map snd A @ regions H ?h (liveRanges s0))) = {}" by blast
    moreover have "freeSpace (par s) = {0..<totalSize (par s)} - R - \<Union> (ivl ` set (map snd A @ regions H ?h (liveRanges s0)))"
      using reg unfolding regionsOk_def by blast
    ultimately have "ivl (a, ?sz) \<subseteq> freeSpace (par s)" using R unfolding h(3) by blast
    then have sub: "{a..<a + ?sz} \<subseteq> freeSpace (par s)" by (simp add: ivl_def)
    from allocFixed_ok[OF po sz sub] obtain p' where p': "allocFixed a ?sz (par s) = Inr p'" "parOk p'"
      "totalSize p' = totalSize (par s)" "freeSpace p' = freeSpace (par s) - {a..<a + ?sz}" by blast
    have "allocFixedRange H pos ?v False A s = Inr (Some (A @ [(pos, a, ?sz)]), s\<lparr>par := p'\<rparr>)"
      using a h room p'(1) by (simp add: allocFixedRange_def makeRoomFixed.simps)
    moreover have "placed R s0 news (A @ [(pos, a, ?sz)]) (s\<lparr>par := p'\<rparr>)"
      using pos fixed a by (intro placed_extend[OF A sub sz p'(2-4)]) (simp add: entryOk_def)
    ultimately show ?thesis by blast
  qed
qed

lemma placeRanges_ok:
  assumes "placed R s0 news A s" and "distinct ps" "fst ` set A \<inter> set ps = {}" "\<forall>i \<in> set ps. Q i" "\<forall>e \<in> set A. Q (fst e)"
    and step: "\<And>pos A s. pos \<in> set ps \<Longrightarrow> placed R s0 news A s \<Longrightarrow> pos \<notin> fst ` set A \<Longrightarrow> \<forall>e \<in> set A. Q (fst e) \<Longrightarrow>
      place pos (news ! pos) A s = Inr (None, s0) \<or>
      (\<exists>a sz s1. place pos (news ! pos) A s = Inr (Some (A @ [(pos, a, sz)]), s1) \<and> placed R s0 news (A @ [(pos, a, sz)]) s1)"
  shows "placeRanges place (map (\<lambda>i. (i, news ! i)) ps) A s = Inr (None, s0) \<or>
    (\<exists>A1 s1. placeRanges place (map (\<lambda>i. (i, news ! i)) ps) A s = Inr (Some A1, s1) \<and> placed R s0 news A1 s1 \<and>
       map fst A1 = map fst A @ ps)"
  using assms
proof (induction ps arbitrary: A s)
  case (Cons pos ps)
  have "pos \<notin> fst ` set A" using Cons.prems(3) by auto
  from Cons.prems(6)[OF _ Cons.prems(1) this Cons.prems(5)] consider "place pos (news ! pos) A s = Inr (None, s0)"
    | a sz s1 where "place pos (news ! pos) A s = Inr (Some (A @ [(pos, a, sz)]), s1)" "placed R s0 news (A @ [(pos, a, sz)]) s1"
    by auto
  then show ?case
  proof cases
    case (2 a sz s1)
    have "placeRanges place (map (\<lambda>i. (i, news ! i)) ps) (A @ [(pos, a, sz)]) s1 = Inr (None, s0) \<or>
      (\<exists>A1 s1'. placeRanges place (map (\<lambda>i. (i, news ! i)) ps) (A @ [(pos, a, sz)]) s1 = Inr (Some A1, s1') \<and>
         placed R s0 news A1 s1' \<and> map fst A1 = map fst (A @ [(pos, a, sz)]) @ ps)"
      by (rule Cons.IH[OF 2(2)]) (use Cons.prems in auto)
    with 2(1) show ?thesis by auto
  qed simp
qed simp

lemma filter_enumerate:
  "filter (\<lambda>r. P (snd r)) (enumerate 0 xs) = map (\<lambda>i. (i, xs ! i)) (filter (\<lambda>i. P (xs ! i)) [0..<length xs])"
proof -
  have "enumerate 0 xs = map (\<lambda>i. (i, xs ! i)) [0..<length xs]" by (rule nth_equalityI) (simp_all add: nth_enumerate_eq)
  then show ?thesis by (simp add: filter_map comp_def)
qed

lemma introduce_ok:
  assumes A: "placed R s0 news A s" and s0: "scanOk R s0" and n: "newOk R s0 news" and dom: "fst ` set A = {..<length news}"
    and k: "k \<le> length news"
  shows "\<exists>s'. foldE (introduceRange H A) (enumerate 0 (take k news)) s = Inr s' \<and> par s' = par s \<and>
    liveRanges s' = liveRanges s0 @ take k news \<and>
    (\<forall>w. known w (handler s') \<longleftrightarrow> known w (handler s0) \<or> w \<in> set (take k news)) \<and>
    (\<forall>i < k. getAddress H (news ! i) (handler s') = Inr (fst (the (map_of A i)))) \<and>
    (\<forall>w. w \<notin> set (take k news) \<longrightarrow> getAddress H w (handler s') = getAddress H w (handler s0)) \<and>
    (\<forall>w. getSize H w (handler s') = getSize H w (handler s0) \<and> getAlignment H w (handler s') = getAlignment H w (handler s0))"
  using k
proof (induction k)
  case 0
  then show ?case using A by (simp add: placed_def)
next
  case (Suc k)
  then obtain s1 where r1: "foldE (introduceRange H A) (enumerate 0 (take k news)) s = Inr s1" and p1: "par s1 = par s"
    and l1: "liveRanges s1 = liveRanges s0 @ take k news"
    and k1: "\<And>w. known w (handler s1) \<longleftrightarrow> known w (handler s0) \<or> w \<in> set (take k news)"
    and a1: "\<And>i. i < k \<Longrightarrow> getAddress H (news ! i) (handler s1) = Inr (fst (the (map_of A i)))"
    and o1: "\<And>w. w \<notin> set (take k news) \<Longrightarrow> getAddress H w (handler s1) = getAddress H w (handler s0)"
    and f1: "\<And>w. getSize H w (handler s1) = getSize H w (handler s0)" "\<And>w. getAlignment H w (handler s1) = getAlignment H w (handler s0)"
    by auto
  let ?v = "news ! k"
  have kl: "k < length news" using Suc.prems by simp
  have fresh: "?v \<notin> set (take k news)"
    using n kl by (auto simp: newOk_def in_set_conv_nth nth_eq_iff_index_eq)
  have tk: "take (Suc k) news = take k news @ [?v]" using kl by (rule take_Suc_conv_app_nth)
  have "k \<in> fst ` set A" using dom kl by simp
  then obtain a sz where m: "map_of A k = Some (a, sz)" by (metis map_of_eq_None_iff not_None_eq surj_pair)
  then have e: "(k, a, sz) \<in> set A" by (rule map_of_SomeD)
  have en: "entryOk (handler s0) news (k, a, sz)" using A e by (simp add: placed_def)
  have reg: "regionsOk R (map snd A @ regions H (handler s0) (liveRanges s0)) (par s)" using A by (simp add: placed_def)
  have "(a, sz) \<in> set (map snd A @ regions H (handler s0) (liveRanges s0))" using e by force
  from regionsOk_bounds(4)[OF reg this] have inv: "a \<noteq> invalidAddress" .
  have al: "0 < getAlignment H ?v (handler s1)" "getAlignment H ?v (handler s1) < 2 ^ 64"
  proof -
    have "?v \<in> set news" using kl by simp
    then have "0 < getAlignment H ?v (handler s0)" "totalSize (par s0) + getAlignment H ?v (handler s0) < 2 ^ 64"
      using n by (simp_all add: newOk_def)
    moreover have "0 \<le> totalSize (par s0)"
      using regionsOk_bounds[OF reg, of a sz] e A by (force simp: placed_def)
    ultimately show "0 < getAlignment H ?v (handler s1)" "getAlignment H ?v (handler s1) < 2 ^ 64" by (simp_all add: f1)
  qed
  have "\<not> known ?v (handler s1)" using k1[of ?v] fresh n kl by (simp add: newOk_def)
  from allocated_defined[OF this inv al] obtain h' where h': "allocated H ?v a (handler s1) = Inr h'" by blast
  let ?s2 = "s1\<lparr>handler := h', liveRanges := liveRanges s1 @ [?v]\<rparr>"
  have r2: "foldE (introduceRange H A) (enumerate 0 (take (Suc k) news)) s = Inr ?s2"
    using r1 m h' kl by (simp add: tk foldE_append enumerate_append_eq introduceRange_def min_def)
  have addr: "getAddress H w h' = (if w = ?v then Inr a else getAddress H w (handler s1))" for w
    using allocated_address[OF h', of w] o1[OF fresh] en by (auto simp: entryOk_def)
  have "getAddress H (news ! i) h' = Inr (fst (the (map_of A i)))" if "i < Suc k" for i
    using that a1[of i] m addr n kl by (auto simp: less_Suc_eq newOk_def nth_eq_iff_index_eq)
  then show ?case
    using r2 p1 l1 allocated_known[OF h'] k1 addr o1 allocated_frame[OF h'] f1
    by (intro exI[of _ ?s2]) (auto simp: tk)
qed

lemma allocRanges_ok:
  assumes s0: "scanOk R s" and n: "newOk R s news"
  shows "\<exists>b s'. allocRanges H news False dir s = Inr (b, s') \<and> (\<not> b \<longrightarrow> s' = s) \<and>
    (b \<longrightarrow> scanOk R s' \<and> liveRanges s' = liveRanges s @ news \<and> totalSize (par s') = totalSize (par s) \<and>
      (\<forall>w \<in> set (liveRanges s). getAddress H w (handler s') = getAddress H w (handler s)) \<and>
      (\<forall>w. getSize H w (handler s') = getSize H w (handler s)) \<and>
      (\<forall>v \<in> set news. \<not> isFixedAlloc H v \<longrightarrow> getAlignment H v (handler s) dvd projr (getAddress H v (handler s'))))"
proof -
  let ?N = "length news"
  let ?f = "filter (\<lambda>i. isFixedAlloc H (news ! i)) [0..<?N]" let ?p = "filter (\<lambda>i. \<not> isFixedAlloc H (news ! i)) [0..<?N]"
  note fe = filter_enumerate[of "isFixedAlloc H" news] filter_enumerate[of "\<lambda>v. \<not> isFixedAlloc H v" news]
  have A0: "placed R s news [] s" using s0 by (simp add: placed_def scanOk_def)
  have 1: "placeRanges (\<lambda>pos r. allocFixedRange H pos r False) (map (\<lambda>i. (i, news ! i)) ?f) [] s = Inr (None, s) \<or>
    (\<exists>A1 s1. placeRanges (\<lambda>pos r. allocFixedRange H pos r False) (map (\<lambda>i. (i, news ! i)) ?f) [] s = Inr (Some A1, s1) \<and>
       placed R s news A1 s1 \<and> map fst A1 = map fst ([] :: allocated_addrs) @ ?f)"
  proof (rule placeRanges_ok[where Q = "\<lambda>i. isFixedAlloc H (news ! i)", OF A0])
    fix pos A t assume a: "pos \<in> set ?f" "placed R s news A t" "pos \<notin> fst ` set A" "\<forall>e \<in> set A. isFixedAlloc H (news ! fst e)"
    have "\<forall>e \<in> set A. isFixedAlloc H (news ! fst e) \<and> fst e \<noteq> pos" using a(3,4) by force
    moreover have "pos < ?N" "isFixedAlloc H (news ! pos)" using a(1) by simp_all
    ultimately show "allocFixedRange H pos (news ! pos) False A t = Inr (None, s) \<or>
      (\<exists>a sz s1. allocFixedRange H pos (news ! pos) False A t = Inr (Some (A @ [(pos, a, sz)]), s1) \<and>
         placed R s news (A @ [(pos, a, sz)]) s1)" using allocFixedRange_ok[OF a(2) s0 n] by blast
  qed simp_all
  show ?thesis
  proof (cases "placeRanges (\<lambda>pos r. allocFixedRange H pos r False) (map (\<lambda>i. (i, news ! i)) ?f) [] s = Inr (None, s)")
    case True
    then show ?thesis by (intro exI[of _ False] exI[of _ s]) (simp add: allocRanges_def fe Let_def)
  next
    case False
    with 1 obtain A1 s1 where r1: "placeRanges (\<lambda>pos r. allocFixedRange H pos r False) (map (\<lambda>i. (i, news ! i)) ?f) [] s = Inr (Some A1, s1)"
      and A1: "placed R s news A1 s1" and d1: "map fst A1 = ?f" by auto
    have dis: "fst ` set A1 \<inter> set ?p = {}" using arg_cong[OF d1, of set] by auto
    have 2: "placeRanges (\<lambda>pos r. allocPlainRange H pos r False dir) (map (\<lambda>i. (i, news ! i)) ?p) A1 s1 = Inr (None, s) \<or>
      (\<exists>A2 s2. placeRanges (\<lambda>pos r. allocPlainRange H pos r False dir) (map (\<lambda>i. (i, news ! i)) ?p) A1 s1 = Inr (Some A2, s2) \<and>
         placed R s news A2 s2 \<and> map fst A2 = map fst A1 @ ?p)"
    proof (rule placeRanges_ok[where Q = "\<lambda>i. True", OF A1 _ dis])
      fix pos A t assume a: "pos \<in> set ?p" "placed R s news A t"
      then show "allocPlainRange H pos (news ! pos) False dir A t = Inr (None, s) \<or>
        (\<exists>a sz s1. allocPlainRange H pos (news ! pos) False dir A t = Inr (Some (A @ [(pos, a, sz)]), s1) \<and>
           placed R s news (A @ [(pos, a, sz)]) s1)" using allocPlainRange_ok[OF a(2) s0 n] by auto
    qed simp_all
    show ?thesis
    proof (cases "placeRanges (\<lambda>pos r. allocPlainRange H pos r False dir) (map (\<lambda>i. (i, news ! i)) ?p) A1 s1 = Inr (None, s)")
      case True
      with r1 show ?thesis by (intro exI[of _ False] exI[of _ s]) (simp add: allocRanges_def fe Let_def)
    next
      case False
      with 2 obtain A2 s2 where r2: "placeRanges (\<lambda>pos r. allocPlainRange H pos r False dir) (map (\<lambda>i. (i, news ! i)) ?p) A1 s1 = Inr (Some A2, s2)"
        and A2: "placed R s news A2 s2" and d2: "map fst A2 = ?f @ ?p" using d1 by auto
      have dom: "fst ` set A2 = {..<?N}" using arg_cong[OF d2, of set] by auto
      from introduce_ok[OF A2 s0 n dom order.refl] obtain s3 where r3: "foldE (introduceRange H A2) (enumerate 0 news) s2 = Inr s3"
        and p3: "par s3 = par s2" and l3: "liveRanges s3 = liveRanges s @ news"
        and k3: "\<And>w. known w (handler s3) \<longleftrightarrow> known w (handler s) \<or> w \<in> set news"
        and a3: "\<And>i. i < ?N \<Longrightarrow> getAddress H (news ! i) (handler s3) = Inr (fst (the (map_of A2 i)))"
        and o3: "\<And>w. w \<notin> set news \<Longrightarrow> getAddress H w (handler s3) = getAddress H w (handler s)"
        and f3: "\<And>w. getSize H w (handler s3) = getSize H w (handler s)" by auto
      have run: "allocRanges H news False dir s = Inr (True, s3)"
        using r1 r2 r3 by (simp add: allocRanges_def fe Let_def)
      have notin: "w \<notin> set news" if "w \<in> set (liveRanges s)" for w using that s0 n by (auto simp: scanOk_def newOk_def)
      have en: "entryOk (handler s) news e" if "e \<in> set A2" for e using A2 that by (simp add: placed_def)
      have dist: "distinct (map fst A2)" unfolding d2 by auto
      have m: "map_of A2 i = Some x" if "(i, x) \<in> set A2" for i x using dist that by (rule map_of_is_SomeI)
      have snds: "snd e = (projr (getAddress H (news ! fst e) (handler s3)), getSize H (news ! fst e) (handler s3))" if "e \<in> set A2" for e
        using en[OF that] a3[of "fst e"] m[of "fst e" "snd e"] that by (cases e) (simp add: entryOk_def f3)
      have regN: "mset (map snd A2) = mset (regions H (handler s3) news)"
      proof -
        let ?G = "\<lambda>v. (projr (getAddress H v (handler s3)), getSize H v (handler s3))"
        have "map snd A2 = map (\<lambda>i. ?G (news ! i)) (map fst A2)" using snds by simp
        then have "mset (map snd A2) = image_mset (\<lambda>i. ?G (news ! i)) (mset (map fst A2))" by (simp only: mset_map)
        also have "mset (map fst A2) = mset [0..<?N]"
          using set_eq_iff_mset_eq_distinct[OF dist, of "[0..<?N]"] dom by (simp add: lessThan_atLeast0)
        also have "image_mset (\<lambda>i. ?G (news ! i)) (mset [0..<?N]) = mset (map ?G (map ((!) news) [0..<?N]))"
          by (simp only: mset_map map_map comp_def)
        finally show ?thesis unfolding map_nth regions_def .
      qed
      have regL: "regions H (handler s3) (liveRanges s) = regions H (handler s) (liveRanges s)"
        using notin o3 f3 by (simp add: regions_def)
      have regA: "regions H (handler s3) (liveRanges s @ news) = regions H (handler s3) (liveRanges s) @ regions H (handler s3) news"
        by (simp add: regions_def)
      have "regionsOk R (map snd A2 @ regions H (handler s) (liveRanges s)) (par s2)" using A2 by (simp add: placed_def)
      then have "regionsOk R (regions H (handler s3) (liveRanges s @ news)) (par s3)"
        unfolding p3 by (rule regionsOk_perm) (simp only: mset_append regN regA regL add.commute)
      moreover have "distinct (liveRanges s @ news)" using s0 n notin by (auto simp: scanOk_def newOk_def)
      moreover have "\<not> isl (getAddress H v (handler s3))" if "v \<in> set (liveRanges s @ news)" for v
      proof (cases "v \<in> set news")
        case True
        then obtain i where "i < ?N" "v = news ! i" by (auto simp: in_set_conv_nth)
        then show ?thesis using a3[of i] by simp
      next
        case False
        with that have "v \<in> set (liveRanges s)" by simp
        then have "\<not> isl (getAddress H v (handler s))" using s0 unfolding scanOk_def by blast
        then show ?thesis using o3[OF False] by simp
      qed
      ultimately have ok: "scanOk R s3" using s0 k3 unfolding scanOk_def l3 by auto
      have "getAlignment H v (handler s) dvd projr (getAddress H v (handler s3))" if v: "v \<in> set news" "\<not> isFixedAlloc H v" for v
      proof -
        obtain i where i: "i < ?N" "v = news ! i" using v(1) by (auto simp: in_set_conv_nth)
        have "i \<in> fst ` set A2" using dom i by simp
        then obtain e where e: "e \<in> set A2" "fst e = i" by auto
        from en[OF e(1)] snds[OF e(1)] v(2) i e(2) show ?thesis by (cases e) (auto simp: entryOk_def)
      qed
      then show ?thesis using run ok l3 f3 o3 notin p3 A2 by (intro exI[of _ True] exI[of _ s3]) (auto simp: placed_def)
    qed
  qed
qed

text \<open>The trial allocation takes regions one by one and gives all of them back.\<close>

lemma trialAlloc_ok:
  assumes "regionsOk R I p" "\<forall>v \<in> set vs. 0 < getSize H v h \<and> 0 < getAlignment H v h \<and> totalSize p + getAlignment H v h < 2 ^ 64"
  shows "\<exists>b J p'. trialAlloc H h dir vs I p = Inr (b, J, p') \<and> regionsOk R J p' \<and> totalSize p' = totalSize p"
  using assms
proof (induction vs arbitrary: I p)
  case (Cons v vs)
  let ?sz = "getSize H v h" and ?al = "getAlignment H v h"
  have v: "0 < ?sz" "0 < ?al" "totalSize p + ?al < 2 ^ 64" and "parOk p"
    using Cons.prems by (simp_all add: regionsOk_def)
  from alloc_ok[OF this(4) v, of dir] obtain a p1 where r: "alloc ?sz ?al dir p = Inr (a, p1)" "parOk p1" "totalSize p1 = totalSize p"
    and inv: "a = invalidAddress \<longrightarrow> p1 = p"
    and slot: "a \<noteq> invalidAddress \<longrightarrow> freeSlot (freeSpace p) ?sz ?al a \<and> freeSpace p1 = freeSpace p - {a..<a + ?sz}" by blast
  show ?case
  proof (cases "a = invalidAddress")
    case True
    then show ?thesis using r inv Cons.prems(1) by (intro exI[of _ False] exI[of _ I] exI[of _ p]) simp
  next
    case False
    have "regionsOk R ((a, ?sz) # I) p1"
      using slot False r by (intro regionsOk_take[OF Cons.prems(1) _ v(1)]) (auto simp: freeSlot_def)
    then have "regionsOk R (I @ [(a, ?sz)]) p1" by (rule regionsOk_perm) simp
    from Cons.IH[OF this] Cons.prems(2) r False show ?thesis by simp
  qed
qed (simp, blast)

lemma canAlloc_ok:
  assumes s: "scanOk R s" and n: "newOk R s news"
  shows "\<exists>b. canAlloc H news dir s = Inr (b, s)"
proof -
  let ?p = "par s" let ?R = "{0..<totalSize ?p} - freeSpace ?p"
  have po: "parOk ?p" using s by (simp add: scanOk_def regionsOk_def)
  then have "freeSpace ?p \<subseteq> {0..<totalSize ?p}" unfolding parOk_def freeSpace_def by (intro covered_bounds) simp
  with po have r0: "regionsOk ?R [] ?p" by (auto simp: regionsOk_def)
  have "\<forall>v \<in> set news. 0 < getSize H v (handler s) \<and> 0 < getAlignment H v (handler s) \<and>
      totalSize ?p + getAlignment H v (handler s) < 2 ^ 64" using n by (simp add: newOk_def)
  from trialAlloc_ok[OF r0 this, of dir] obtain b J p' where
    t: "trialAlloc H (handler s) dir news [] ?p = Inr (b, J, p')" and r: "regionsOk ?R J p'" "totalSize p' = totalSize ?p" by blast
  let ?p2 = "fold (\<lambda>(a, s). free a s) J p'"
  have "regionsOk ?R [] ?p2" "totalSize ?p2 = totalSize ?p" using release_list[of ?R J "[]" p'] r by simp_all
  then have "?p2 = ?p" using regionsOk_inject[OF _ r0] by simp
  moreover have "s\<lparr>par := ?p\<rparr> = s" by simp
  ultimately have "canAlloc H news dir s = Inr (b, s)" using t by (simp add: canAlloc_def)
  then show ?thesis by blast
qed

text \<open>Without fixed ranges it makes the same requests as the allocation.\<close>

lemma trial_place:
  assumes "trialAlloc H h dir (map snd rs) I p = Inr (b, J, p')" "handler t = h" "par t = p"
  shows "\<exists>r t'. placeRanges (\<lambda>pos r. allocPlainRange H pos r False dir) rs A t = Inr (r, t') \<and> (r \<noteq> None \<longleftrightarrow> b)"
  using assms
proof (induction rs arbitrary: I p A t)
  case (Cons r rs)
  obtain pos v where r: "r = (pos, v)" by (cases r) auto
  let ?sz = "getSize H v h" and ?al = "getAlignment H v h"
  from Cons.prems(1) r obtain a p1 where al: "alloc ?sz ?al dir p = Inr (a, p1)" by (auto simp: bindE_Inr)
  show ?case
  proof (cases "a = invalidAddress")
    case True
    then show ?thesis
      using Cons.prems al r by (auto simp: allocPlainRange_def makeRoomPlain.simps)
  next
    case False
    have pl: "allocPlainRange H pos v False dir A t = Inr (Some (A @ [(pos, a, ?sz)]), t\<lparr>par := p1\<rparr>)"
      using Cons.prems al False by (simp add: allocPlainRange_def makeRoomPlain.simps)
    have "trialAlloc H h dir (map snd rs) (I @ [(a, ?sz)]) p1 = Inr (b, J, p')"
      using Cons.prems(1) al r False by simp
    from Cons.IH[OF this, of "t\<lparr>par := p1\<rparr>" "A @ [(pos, a, ?sz)]"] Cons.prems(2) pl r show ?thesis by simp
  qed
qed simp

lemma canAlloc_predicts:
  assumes s: "scanOk R s" and n: "newOk R s news" and plain: "\<forall>v \<in> set news. \<not> isFixedAlloc H v"
    and c: "canAlloc H news dir s = Inr (b, s1)"
  shows "s1 = s \<and> (\<exists>s'. allocRanges H news False dir s = Inr (b, s'))"
proof -
  have "s1 = s" using canAlloc_ok[OF s n, of dir] c by auto
  from c obtain J p' where t: "trialAlloc H (handler s) dir news [] (par s) = Inr (b, J, p')"
    by (auto simp: canAlloc_def bindE_Inr guardE_Inr Let_def)
  have f: "filter (\<lambda>r. isFixedAlloc H (snd r)) (enumerate 0 news) = []"
    "filter (\<lambda>r. \<not> isFixedAlloc H (snd r)) (enumerate 0 news) = enumerate 0 news"
    using plain by (auto simp: filter_empty_conv in_set_enumerate_eq filter_id_conv)
  have "map snd (enumerate 0 news) = news" by simp
  with t have "trialAlloc H (handler s) dir (map snd (enumerate 0 news)) [] (par s) = Inr (b, J, p')" by simp
  from trial_place[OF this refl refl, of "[]"] obtain r t' where
    pl: "placeRanges (\<lambda>pos r. allocPlainRange H pos r False dir) (enumerate 0 news) [] s = Inr (r, t')" "r \<noteq> None \<longleftrightarrow> b" by blast
  from allocRanges_ok[OF s n, of dir] obtain b' s' where a: "allocRanges H news False dir s = Inr (b', s')" by blast
  have "b' = b"
    using a pl unfolding allocRanges_def Let_def f by (cases r) (auto simp: bindE_Inr)
  with a \<open>s1 = s\<close> show ?thesis by blast
qed

end

section \<open>The handler of the compiler\<close>

lemma lsGetSize_size: "fst (lsGetSize v h) = (case sizeCache h v of None \<Rightarrow> int (totalBytes v) | Some sz \<Rightarrow> sz)"
  by (simp add: lsGetSize_def Let_def split: option.splits)

lemma lsGetSize_frame:
  "valOffsets (snd (lsGetSize v h)) = valOffsets h" "aliveValues (snd (lsGetSize v h)) = aliveValues h"
  "defaultAlignment (snd (lsGetSize v h)) = defaultAlignment h" "fst (lsGetSize w (snd (lsGetSize v h))) = fst (lsGetSize w h)"
  by (auto simp: lsGetSize_def Let_def split: option.splits)

lemma toSigned_nonzero: "0 < x \<Longrightarrow> x < 2 ^ 64 \<Longrightarrow> toSigned x \<noteq> 0"
  by (auto simp: toSigned_def)

lemma lsAllocated_Inr:
  assumes "lsAllocated v a h = Inr h'"
  shows "valOffsets h' = (valOffsets h)(v \<mapsto> a)" "aliveValues h' = aliveValues h" "defaultAlignment h' = defaultAlignment h"
    "fst (lsGetSize w h') = fst (lsGetSize w h)"
proof -
  let ?h1 = "h\<lparr>valOffsets := (valOffsets h)(v \<mapsto> a)\<rparr>"
  obtain e where h': "h' = (snd (lsGetSize v ?h1))\<lparr>maxAllocatedSize := e\<rparr>"
    using assms by (auto simp: lsAllocated_def Let_def guardE_Inr bindE_Inr split: prod.splits)
  show "valOffsets h' = (valOffsets h)(v \<mapsto> a)" "aliveValues h' = aliveValues h" "defaultAlignment h' = defaultAlignment h"
    unfolding h' by (simp_all add: lsGetSize_frame)
  have "fst (lsGetSize w h') = fst (lsGetSize w (snd (lsGetSize v ?h1)))" unfolding h' by (simp add: lsGetSize_size)
  also have "\<dots> = fst (lsGetSize w h)" unfolding lsGetSize_frame by (simp add: lsGetSize_size)
  finally show "fst (lsGetSize w h') = fst (lsGetSize w h)" .
qed

definition hasAddress :: "mlir_value \<Rightarrow> handler_state \<Rightarrow> bool" where
  "hasAddress v h = (valOffsets h v \<noteq> None)"

interpretation ls: range_handler linearScanHandler hasAddress
proof (unfold_locales, unfold hasAddress_def)
  fix v a and h :: handler_state
  assume n: "\<not> valOffsets h v \<noteq> None" and a: "a \<noteq> invalidAddress" and al: "0 < getAlignment linearScanHandler v h"
    "getAlignment linearScanHandler v h < 2 ^ 64"
  let ?h1 = "h\<lparr>valOffsets := (valOffsets h)(v \<mapsto> a)\<rparr>"
  have "lsGetAlignment v (snd (lsGetSize v ?h1)) = lsGetAlignment v h"
    by (simp add: lsGetAlignment_def lsGetSize_frame)
  then have "toSigned (lsGetAlignment v (snd (lsGetSize v ?h1))) \<noteq> 0"
    using al toSigned_nonzero by (simp add: linearScanHandler_def)
  then show "\<exists>h'. allocated linearScanHandler v a h = Inr h'"
    using n a by (auto simp: linearScanHandler_def lsAllocated_def Let_def alignValUpSigned_def guardE_def split: prod.splits)
next
  fix v a w and h h' :: handler_state
  assume "allocated linearScanHandler v a h = Inr h'"
  then have r: "lsAllocated v a h = Inr h'" by (simp add: linearScanHandler_def)
  note l = lsAllocated_Inr[OF r]
  show "valOffsets h' w \<noteq> None \<longleftrightarrow> w = v \<or> valOffsets h w \<noteq> None" by (simp add: l)
  show "getAddress linearScanHandler w h' = (if w = v \<and> \<not> isFixedAlloc linearScanHandler v then Inr a else getAddress linearScanHandler w h)"
    by (auto simp: linearScanHandler_def lsGetAddress_def lsIsFixedAlloc_def l split: defining_op.splits)
  show "getSize linearScanHandler w h' = getSize linearScanHandler w h \<and>
      getAlignment linearScanHandler w h' = getAlignment linearScanHandler w h \<and>
      isAlive linearScanHandler w h' = isAlive linearScanHandler w h"
    by (simp add: linearScanHandler_def l lsGetAlignment_def lsIsAlive_def)
next
  fix v and h :: handler_state
  show "\<exists>h'. freed linearScanHandler v h = Inr h' \<and> (\<forall>w. (valOffsets h' w \<noteq> None) = (valOffsets h w \<noteq> None) \<and>
      getAddress linearScanHandler w h' = getAddress linearScanHandler w h \<and>
      getSize linearScanHandler w h' = getSize linearScanHandler w h \<and>
      getAlignment linearScanHandler w h' = getAlignment linearScanHandler w h \<and>
      isAlive linearScanHandler w h' = (w \<noteq> v \<and> isAlive linearScanHandler w h))"
    by (auto simp: linearScanHandler_def lsFreed_def markAsDead_def lsGetAddress_def lsGetSize_size lsGetAlignment_def
        lsIsAlive_def split: defining_op.splits)
qed

end
