(* ===== verification/Memory_Properties.thy ===== *)
theory Memory_Properties
  imports Linear_Scan_Correct
begin

text \<open>The properties of the partitioner and of the linear scan allocator.\<close>

section \<open>States of the compiler's allocator\<close>

text \<open>
  Live ranges have an address, their regions are disjoint, avoid the reserved addresses, and
  leave exactly the free space; new ranges have no address yet and fixed ones lie apart.
\<close>

type_synonym buffer_scan = "(mlir_value, handler_state) linear_scan"

definition bufferRegion :: "handler_state \<Rightarrow> mlir_value \<Rightarrow> int \<times> int" where
  "bufferRegion h v = (projr (lsGetAddress v h), fst (lsGetSize v h))"

definition scanInvariant :: "int set \<Rightarrow> buffer_scan \<Rightarrow> bool" where
  "scanInvariant R s \<longleftrightarrow>
     distinct (liveRanges s) \<and>
     (\<forall>v \<in> set (liveRanges s). valOffsets (handler s) v \<noteq> None \<and> \<not> isl (lsGetAddress v (handler s))) \<and>
     regionsOk R (map (bufferRegion (handler s)) (liveRanges s)) (par s)"

definition newBuffersOk :: "int set \<Rightarrow> buffer_scan \<Rightarrow> mlir_value list \<Rightarrow> bool" where
  "newBuffersOk R s news \<longleftrightarrow> distinct news \<and>
     (\<forall>v \<in> set news. valOffsets (handler s) v = None \<and> 0 < fst (lsGetSize v (handler s)) \<and>
        0 < lsGetAlignment v (handler s) \<and> totalSize (par s) + lsGetAlignment v (handler s) < 2 ^ 64) \<and>
     (\<forall>v \<in> set news. lsIsFixedAlloc v \<longrightarrow> ivl (bufferRegion (handler s) v) \<subseteq> {0..<totalSize (par s)} - R) \<and>
     (\<forall>v \<in> set news. \<forall>w \<in> set news. v \<noteq> w \<longrightarrow> lsIsFixedAlloc v \<longrightarrow> lsIsFixedAlloc w \<longrightarrow>
        ivl (bufferRegion (handler s) v) \<inter> ivl (bufferRegion (handler s) w) = {})"

lemma handler_ops [simp]:
  "isAlive linearScanHandler = lsIsAlive" "isFixedAlloc linearScanHandler = lsIsFixedAlloc"
  "getSize linearScanHandler = (\<lambda>v h. fst (lsGetSize v h))" "getAlignment linearScanHandler = lsGetAlignment"
  "getAddress linearScanHandler = lsGetAddress"
  by (simp_all add: linearScanHandler_def)

lemma scanInvariant_iff: "scanInvariant R s \<longleftrightarrow> ls.scanOk R s"
  by (auto simp: scanInvariant_def ls.scanOk_def regions_def bufferRegion_def[abs_def] hasAddress_def)

lemma fixed_address: "lsIsFixedAlloc v \<Longrightarrow> \<exists>a. lsGetAddress v h = Inr a"
  by (cases "definingOp v") (auto simp: lsIsFixedAlloc_def lsGetAddress_def)

lemma newBuffersOk_new:
  assumes "newBuffersOk R s news"
  shows "ls.newOk R s news"
proof -
  have "\<exists>a. lsGetAddress v (handler s) = Inr a \<and> ivl (a, fst (lsGetSize v (handler s))) \<subseteq> {0..<totalSize (par s)} - R"
    if "v \<in> set news" "lsIsFixedAlloc v" for v
    using fixed_address[OF that(2), of "handler s"] assms that by (fastforce simp: newBuffersOk_def bufferRegion_def)
  with assms show ?thesis by (simp add: ls.newOk_def newBuffersOk_def bufferRegion_def hasAddress_def)
qed

section \<open>Examples\<close>

definition twoGaps :: partitioner where
  "twoGaps = projr (allocFixed 4 4 (mkPartitioner 16))"

lemma twoGaps_ok: "parOk twoGaps" "totalSize twoGaps = 16" "0 \<in> freeSpace twoGaps" "4 \<notin> freeSpace twoGaps"
  by code_simp+

definition plainBuffer :: "nat \<Rightarrow> nat \<Rightarrow> mlir_value" where
  "plainBuffer i sz = \<lparr>valueId = i, definingOp = MemrefAllocOp (Some 4), totalBytes = sz\<rparr>"

definition staticBuffer :: "nat \<Rightarrow> nat \<Rightarrow> nat \<Rightarrow> mlir_value" where
  "staticBuffer i off sz = \<lparr>valueId = i, definingOp = StaticAllocOp off, totalBytes = sz\<rparr>"

text \<open>Addresses 0 to 3 are reserved.\<close>

definition emptyScan :: buffer_scan where
  "emptyScan = projr (mkLinearScan 16 [(0, 4)] (mkHandler 1))"

definition firstBuffers :: "mlir_value list" where
  "firstBuffers = [plainBuffer 1 3, staticBuffer 2 9 2]"

definition firstScan :: buffer_scan where
  "firstScan = snd (projr (allocRanges linearScanHandler firstBuffers False Up emptyScan))"

definition oneAlive :: buffer_scan where
  "oneAlive = firstScan\<lparr>handler := markAsAlive (plainBuffer 1 3) (handler firstScan)\<rparr>"

lemma emptyScan_ok: "scanInvariant {0..<4} emptyScan" "newBuffersOk {0..<4} emptyScan firstBuffers"
  "newBuffersOk {0..<4} emptyScan [plainBuffer 1 3]" "list_all (\<lambda>v. \<not> lsIsFixedAlloc v) [plainBuffer 1 3]"
  by code_simp+

lemma run_result: "\<not> isl r \<Longrightarrow> fst (projr r) = b \<Longrightarrow> r = Inr (b, snd (projr r))"
  by (cases r) auto

lemma firstScan_run: "allocRanges linearScanHandler firstBuffers False Up emptyScan = Inr (True, firstScan)"
  unfolding firstScan_def by (rule run_result) code_simp+

lemma firstScan_values:
  "lsGetAddress (plainBuffer 1 3) (handler firstScan) = Inr 4" "scanInvariant {0..<4} oneAlive"
  "liveRanges oneAlive = firstBuffers" "aliveValues (handler oneAlive) = {plainBuffer 1 3}"
  by code_simp+

section \<open>Properties\<close>

text \<open>
  C15: \<open>alloc\<close> of the partitioner takes an aligned interval of the asked sz out of the
  free addresses, and answers with the invalid address, unchanged, exactly when there is none;
  the order of the gaps is kept.
\<close>

theorem alloc_correct:
  assumes "parOk p" "0 < sz" "0 < alignment" "totalSize p + alignment < 2 ^ 64"
  shows "\<exists>a p'. alloc sz alignment dir p = Inr (a, p') \<and> parOk p' \<and>
    (a = invalidAddress \<longleftrightarrow> \<not> (\<exists>x. alignment dvd x \<and> {x..<x + sz} \<subseteq> freeSpace p)) \<and>
    (a = invalidAddress \<longrightarrow> p' = p) \<and>
    (a \<noteq> invalidAddress \<longrightarrow> alignment dvd a \<and> {a..<a + sz} \<subseteq> freeSpace p \<and> freeSpace p' = freeSpace p - {a..<a + sz})"
  using alloc_ok[OF assms, of dir] unfolding freeSlot_def by blast

theorem alloc_correct_witness:
  "\<exists>a p'. alloc 3 4 Down twoGaps = Inr (a, p') \<and> parOk p' \<and> a = 12 \<and> freeSpace p' = freeSpace twoGaps - {12..<15}"
proof -
  have r: "fst (projr (alloc 3 4 Down twoGaps)) = 12" by code_simp
  have "(12 :: int) \<noteq> invalidAddress" by (simp add: invalidAddress_def)
  with alloc_correct[of twoGaps 3 4 Down] twoGaps_ok r show ?thesis by fastforce
qed

text \<open>
  C16: \<open>free\<close> undoes \<open>alloc\<close>, and it undoes \<open>allocFixed\<close> at any free addresses: the gaps are
  again what they were, neighbouring ones merged. What was taken in between is exactly the
  interval, and \<open>allocFixed\<close> at the address that \<open>alloc\<close> chose does the same as \<open>alloc\<close>.
\<close>

theorem free_undoes_alloc:
  assumes "parOk p" "0 < sz"
    and "alloc sz alignment dir p = Inr (a, p') \<and> a \<noteq> invalidAddress \<and> 0 < alignment \<and> totalSize p + alignment < 2 ^ 64 \<or>
      allocFixed a sz p = Inr p' \<and> {a..<a + sz} \<subseteq> freeSpace p"
  shows "free a sz p' = p \<and> allocFixed a sz p = Inr p' \<and> parOk p' \<and> freeSpace p' = freeSpace p - {a..<a + sz}"
proof -
  have a: "parOk p' \<and> totalSize p' = totalSize p \<and> {a..<a + sz} \<subseteq> freeSpace p \<and> freeSpace p' = freeSpace p - {a..<a + sz}"
    using assms(3)
  proof
    assume h: "alloc sz alignment dir p = Inr (a, p') \<and> a \<noteq> invalidAddress \<and> 0 < alignment \<and> totalSize p + alignment < 2 ^ 64"
    with alloc_ok[OF assms(1,2), of alignment dir] show ?thesis by (auto simp: freeSlot_def)
  next
    assume h: "allocFixed a sz p = Inr p' \<and> {a..<a + sz} \<subseteq> freeSpace p"
    with allocFixed_ok[OF assms(1,2), of a] show ?thesis by auto
  qed
  then have "free a sz p' = p" using free_alloc_inverse[OF assms(1), of p' a sz] assms(2) by blast
  moreover from allocFixed_ok[OF assms(1,2), of a] a obtain q where "allocFixed a sz p = Inr q" "parOk q"
    "totalSize q = totalSize p'" "freeSpace q = freeSpace p'" by auto
  ultimately show ?thesis using partitioner_inject[of q p'] a by simp
qed

theorem free_undoes_alloc_witness:
  "\<exists>p' q. alloc 3 4 Down twoGaps = Inr (12, p') \<and> free 12 3 p' = twoGaps \<and>
     allocFixed 9 2 twoGaps = Inr q \<and> free 9 2 q = twoGaps"
proof -
  have "alloc 3 4 Down twoGaps = Inr (12, snd (projr (alloc 3 4 Down twoGaps)))" by (rule run_result) code_simp+
  then obtain p' where r: "alloc 3 4 Down twoGaps = Inr (12, p')" by blast
  have "\<not> isl (allocFixed 9 2 twoGaps)" by code_simp
  then obtain q where q: "allocFixed 9 2 twoGaps = Inr q" by (cases "allocFixed 9 2 twoGaps") auto
  have "9 \<in> freeSpace twoGaps" "10 \<in> freeSpace twoGaps" by code_simp+
  moreover have "{9..<9 + 2} = {9, 10 :: int}" by auto
  ultimately have "{9..<9 + 2} \<subseteq> freeSpace twoGaps" by simp
  with free_undoes_alloc[OF twoGaps_ok(1), of 2 0 Up 9 q] q have "free 9 2 q = twoGaps" by simp
  moreover have "free 12 3 p' = twoGaps" using free_undoes_alloc[OF twoGaps_ok(1), of 3 4 Down 12 p'] r
    by (simp add: twoGaps_ok(2) invalidAddress_def)
  ultimately show ?thesis using r q by blast
qed

text \<open>
  C17: Allocating new buffers without spills either fails and leaves the allocator exactly as it
  was, or gives every new buffer an address at its alignment such that no two live buffers
  overlap, none touches the reserved addresses, and no live buffer moves.
\<close>

theorem allocRanges_no_overlap:
  assumes "scanInvariant R s" "newBuffersOk R s news"
  shows "\<exists>b s'. allocRanges linearScanHandler news False dir s = Inr (b, s') \<and> (\<not> b \<longrightarrow> s' = s) \<and>
    (b \<longrightarrow> scanInvariant R s' \<and> liveRanges s' = liveRanges s @ news \<and>
      (\<forall>v \<in> set (liveRanges s). lsGetAddress v (handler s') = lsGetAddress v (handler s)) \<and>
      (\<forall>v \<in> set news. \<not> lsIsFixedAlloc v \<longrightarrow> lsGetAlignment v (handler s) dvd projr (lsGetAddress v (handler s'))))"
proof -
  have s: "ls.scanOk R s" using assms(1) unfolding scanInvariant_iff .
  from ls.allocRanges_ok[OF s newBuffersOk_new[OF assms(2)], of dir] show ?thesis
    unfolding scanInvariant_iff handler_ops by blast
qed

theorem allocRanges_no_overlap_witness:
  "allocRanges linearScanHandler firstBuffers False Up emptyScan = Inr (True, firstScan) \<and>
   scanInvariant {0..<4} firstScan \<and> lsGetAddress (plainBuffer 1 3) (handler firstScan) = Inr 4"
  using allocRanges_no_overlap[OF emptyScan_ok(1,2), of Up] firstScan_run firstScan_values(1) by auto

text \<open>
  \<open>freeNonAlive\<close> keeps exactly the buffers that are alive and releases the memory of all
  others.
\<close>

lemma freeNonAlive_exact:
  assumes "scanInvariant R s"
  shows "\<exists>s'. freeNonAlive linearScanHandler s = Inr s' \<and> scanInvariant R s' \<and>
    set (liveRanges s') = {v \<in> set (liveRanges s). v \<in> aliveValues (handler s)}"
  using ls.freeNonAlive_ok[of R s] assms unfolding scanInvariant_iff handler_ops lsIsAlive_def by blast

text \<open>
  C18: \<open>canAlloc\<close> never throws and leaves the allocator as it was, whatever the buffers, and it
  predicts the answer of the allocation of the same buffers when none of them has a fixed
  address. It does not look at fixed addresses (lemma \<open>canAlloc_ignores_fixed\<close>).
\<close>

theorem canAlloc_predicts_alloc:
  assumes "scanInvariant R s" "newBuffersOk R s news"
  shows "\<exists>b. canAlloc linearScanHandler news dir s = Inr (b, s) \<and>
    (list_all (\<lambda>v. \<not> lsIsFixedAlloc v) news \<longrightarrow> (\<exists>s'. allocRanges linearScanHandler news False dir s = Inr (b, s')))"
proof -
  have s: "ls.scanOk R s" using assms(1) unfolding scanInvariant_iff .
  note n = newBuffersOk_new[OF assms(2)]
  from ls.canAlloc_ok[OF s n, of dir] obtain b where b: "canAlloc linearScanHandler news dir s = Inr (b, s)" by blast
  have "\<exists>s'. allocRanges linearScanHandler news False dir s = Inr (b, s')" if "list_all (\<lambda>v. \<not> lsIsFixedAlloc v) news"
  proof -
    have "\<forall>v \<in> set news. \<not> isFixedAlloc linearScanHandler v" using that by (simp add: list_all_iff)
    from ls.canAlloc_predicts[OF s n this b] show ?thesis by blast
  qed
  with b show ?thesis by blast
qed

theorem canAlloc_predicts_alloc_witness:
  "\<exists>s'. canAlloc linearScanHandler [plainBuffer 1 3] Up emptyScan = Inr (True, emptyScan) \<and>
     allocRanges linearScanHandler [plainBuffer 1 3] False Up emptyScan = Inr (True, s')"
proof -
  have "fst (projr (canAlloc linearScanHandler [plainBuffer 1 3] Up emptyScan)) = True" by code_simp
  with canAlloc_predicts_alloc[OF emptyScan_ok(1,3), of Up] emptyScan_ok(4) show ?thesis by auto
qed

text \<open>A buffer with a fixed address inside a live one: \<open>canAlloc\<close> says yes, the allocation fails.\<close>

lemma canAlloc_ignores_fixed:
  "newBuffersOk {0..<4} oneAlive [staticBuffer 5 4 2] \<and>
   fst (projr (canAlloc linearScanHandler [staticBuffer 5 4 2] Up oneAlive)) \<and>
   \<not> fst (projr (allocRanges linearScanHandler [staticBuffer 5 4 2] False Up oneAlive))"
  by code_simp

end
