(* ===== verification/Async_Deps.thy ===== *)
theory Async_Deps
  imports Npu_Prelude Dep_Graph
begin

text \<open>
  \<open>AsyncDepsInfo\<close> (src/core/async_deps_info.cpp): which \<open>async.execute\<close> operation waits for
  which, the optimisation of these dependencies and their way back into the IR as tokens.
\<close>

section \<open>Operations of the function and state\<close>

text \<open>
  An operand is produced by an \<open>async.execute\<close> operation, by another operation, or is a block
  argument without a defining operation. An \<open>async.await\<close> has a result or not; each user of
  the result stands inside the region of an \<open>async.execute\<close> or does not.
\<close>

datatype operand_source = FromExecute nat | FromOther | BlockArgument

record exec_op =
  dependencies :: "operand_source list"
  bodyOperands :: "operand_source list"

datatype body_op = ExecuteOp nat | AwaitOp "bool list option" | OtherOp

text \<open>
  The part of the IR the class writes to, the attribute \<open>async-deps-index\<close> and the operands,
  is kept with its members. \<open>None\<close> in \<open>allExecOps\<close> is the null operation \<open>resize\<close> leaves.
\<close>

record async_deps =
  allExecOps :: "nat option list"
  depsMap :: "nat set list"
  consumerMap :: "nat set list"
  execOpCount :: nat
  indexAttr :: "nat \<Rightarrow> nat option"
  execOps :: "nat \<Rightarrow> exec_op"

datatype async_error =
    NoIndex
  | IndexTooLarge
  | InvalidIndex
  | UnsupportedOperand
  | NullOperation
  | AwaitUsedInside
  | ConsumersNotBuilt
  | InvalidCount
  | OutOfBounds \<comment> \<open>a vector is indexed past its end\<close>

definition operands :: "exec_op \<Rightarrow> operand_source list" where
  "operands e = dependencies e @ bodyOperands e"

section \<open>Indices\<close>

definition setIndex :: "nat \<Rightarrow> nat \<Rightarrow> async_deps \<Rightarrow> async_deps" where
  "setIndex execOp index s = s\<lparr>indexAttr := (indexAttr s)(execOp \<mapsto> index)\<rparr>"

definition fitsIndex :: "nat \<Rightarrow> bool" where
  "fitsIndex n \<longleftrightarrow> int n < 4294967296"

definition getIndex :: "nat \<Rightarrow> async_deps \<Rightarrow> async_error + nat" where
  "getIndex execOp s =
     (case indexAttr s execOp of None \<Rightarrow> Inl NoIndex
      | Some i \<Rightarrow> guardE (fitsIndex i) IndexTooLarge (Inr i))"

definition getDepsVec :: "nat set \<Rightarrow> nat list" where
  "getDepsVec deps = elems deps"

definition getExecuteOpAtIndex :: "nat \<Rightarrow> async_deps \<Rightarrow> async_error + nat option" where
  "getExecuteOpAtIndex opIdx s = guardE (opIdx < execOpCount s) InvalidIndex (Inr (allExecOps s ! opIdx))"

section \<open>Collecting the dependencies\<close>

definition addOperand :: "nat \<Rightarrow> operand_source \<Rightarrow> async_deps \<Rightarrow> async_error + async_deps" where
  "addOperand execInd arg s =
     (case arg of
        BlockArgument \<Rightarrow> Inl NullOperation
      | FromOther \<Rightarrow> Inl UnsupportedOperand
      | FromExecute argExecOp \<Rightarrow>
          bindE (getIndex argExecOp s) (\<lambda>argExecInd.
            guardE (execInd < length (depsMap s)) OutOfBounds
              (Inr (s\<lparr>depsMap := insert_at execInd argExecInd (depsMap s)\<rparr>))))"

definition addExecOp :: "nat \<Rightarrow> async_deps \<Rightarrow> async_error + async_deps" where
  "addExecOp execOp s =
     bindE (getIndex execOp s) (\<lambda>execInd. foldE (addOperand execInd) (operands (execOps s execOp)) s)"

definition visitOp :: "body_op \<Rightarrow> async_deps \<Rightarrow> async_error + async_deps" where
  "visitOp op s =
     (case op of
        ExecuteOp e \<Rightarrow> addExecOp e s
      | AwaitOp (Some users) \<Rightarrow> guardE (list_all Not users) AwaitUsedInside (Inr s)
      | _ \<Rightarrow> Inr s)"

definition executeOps :: "body_op list \<Rightarrow> nat list" where
  "executeOps body = concat (map (\<lambda>op. case op of ExecuteOp e \<Rightarrow> [e] | _ \<Rightarrow> []) body)"

definition buildDepsMap :: "body_op list \<Rightarrow> async_deps \<Rightarrow> async_error + async_deps" where
  "buildDepsMap body s =
     (let es = executeOps body;
          s1 = fold (\<lambda>(i, e). setIndex e i) (enumerate 0 es) (s\<lparr>allExecOps := map Some es\<rparr>);
          s2 = s1\<lparr>execOpCount := length es, depsMap := replicate (length es) {}\<rparr>
      in foldE visitOp body s2)"

definition mkAsyncDeps :: "body_op list \<Rightarrow> (nat \<Rightarrow> nat option) \<Rightarrow> (nat \<Rightarrow> exec_op) \<Rightarrow> async_error + async_deps" where
  "mkAsyncDeps body attrs ops =
     buildDepsMap body \<lparr>allExecOps = [], depsMap = [], consumerMap = [], execOpCount = 0, indexAttr = attrs, execOps = ops\<rparr>"

section \<open>Dependencies and consumers\<close>

definition addDependency :: "nat \<Rightarrow> nat \<Rightarrow> async_deps \<Rightarrow> async_error + async_deps" where
  "addDependency from_op to_op s =
     bindE (getIndex from_op s) (\<lambda>fromInd. bindE (getIndex to_op s) (\<lambda>toInd.
       guardE (toInd < length (depsMap s)) OutOfBounds
         (let s1 = s\<lparr>depsMap := insert_at toInd fromInd (depsMap s)\<rparr>
          in if consumerMap s1 = [] then Inr s1
             else guardE (fromInd < length (consumerMap s1)) OutOfBounds
               (Inr (s1\<lparr>consumerMap := insert_at fromInd toInd (consumerMap s1)\<rparr>)))))"

text \<open>\<open>resize\<close> of a vector of sets.\<close>

definition resizeSets :: "nat \<Rightarrow> nat set list \<Rightarrow> nat set list" where
  "resizeSets n v = take n v @ replicate (n - length v) {}"

definition addConsumerOf :: "nat \<Rightarrow> nat \<Rightarrow> nat set list \<Rightarrow> async_error + nat set list" where
  "addConsumerOf idx d cm =
     guardE (fitsIndex idx) IndexTooLarge (guardE (d < length cm) OutOfBounds (Inr (insert_at d idx cm)))"

definition buildConsMap :: "async_deps \<Rightarrow> async_error + async_deps" where
  "buildConsMap s =
     bindE (foldE (\<lambda>idx. foldE (addConsumerOf idx) (elems (depsMap s ! idx))) [0..<length (depsMap s)]
             (resizeSets (length (depsMap s)) (consumerMap s)))
       (\<lambda>cm. Inr (s\<lparr>consumerMap := cm\<rparr>))"

section \<open>Optimisation\<close>

definition simplifiedThreshold :: nat where
  "simplifiedThreshold = 10000"

text \<open>
  Step 1: the dependencies of the dependencies, from a map that is itself being completed or,
  for large functions, from the original one. The last entry is left out.
\<close>

definition closureStep :: "nat set list option \<Rightarrow> nat \<Rightarrow> nat set list \<Rightarrow> async_error + nat set list" where
  "closureStep original i D =
     (let refDeps = (case original of Some orig \<Rightarrow> orig | None \<Rightarrow> D)
      in guardE (\<forall>d \<in> D ! i. d < length refDeps) OutOfBounds
           (Inr (D[i := D ! i \<union> (\<Union>d \<in> D ! i. refDeps ! d)])))"

definition depsClosure :: "nat set list \<Rightarrow> async_error + nat set list" where
  "depsClosure deps =
     (let original = (if simplifiedThreshold < length deps then Some deps else None)
      in foldE (closureStep original) [0..<length deps - 1] deps)"

text \<open>Step 2: a dependency goes when another one implies it.\<close>

definition reductionStep :: "nat set list \<Rightarrow> nat \<Rightarrow> nat set list \<Rightarrow> async_error + nat set list" where
  "reductionStep depsMapClosure i D =
     (if card (D ! i) \<le> 1 then Inr D
      else guardE (\<forall>d \<in> D ! i. d < length depsMapClosure) OutOfBounds
             (Inr (D[i := D ! i - (\<Union>d \<in> D ! i. depsMapClosure ! d)])))"

definition optimizeDepsMap :: "async_deps \<Rightarrow> async_error + async_deps" where
  "optimizeDepsMap s =
     bindE (depsClosure (depsMap s)) (\<lambda>depsMapClosure.
       bindE (foldE (reductionStep depsMapClosure) (rev [0..<length (depsMap s)]) (depsMap s)) (\<lambda>D.
         let s1 = s\<lparr>depsMap := D\<rparr>
         in if consumerMap s1 = [] then Inr s1 else buildConsMap (s1\<lparr>consumerMap := []\<rparr>)))"

section \<open>Back to the IR, and new operations\<close>

definition tokenOf :: "async_deps \<Rightarrow> nat \<Rightarrow> async_error + operand_source" where
  "tokenOf s depInd =
     guardE (depInd < length (allExecOps s)) OutOfBounds
       (case allExecOps s ! depInd of None \<Rightarrow> Inl NullOperation | Some e \<Rightarrow> Inr (FromExecute e))"

definition updateTokens :: "nat option \<Rightarrow> async_deps \<Rightarrow> async_error + async_deps" where
  "updateTokens opt s =
     (case opt of None \<Rightarrow> Inl NullOperation
      | Some e \<Rightarrow> bindE (getIndex e s) (\<lambda>execInd.
          guardE (execInd < length (depsMap s)) OutOfBounds
            (bindE (foldE (\<lambda>d ts. bindE (tokenOf s d) (\<lambda>t. Inr (ts @ [t]))) (getDepsVec (depsMap s ! execInd)) [])
              (\<lambda>depsVec. Inr (s\<lparr>execOps := (execOps s)(e := (execOps s e)\<lparr>dependencies := depsVec\<rparr>)\<rparr>)))))"

definition updateTokenDependencies :: "async_deps \<Rightarrow> async_error + async_deps" where
  "updateTokenDependencies s = foldE updateTokens (take (execOpCount s) (allExecOps s)) s"

definition preAllocateForNewOps :: "nat \<Rightarrow> async_deps \<Rightarrow> async_deps" where
  "preAllocateForNewOps numOfNewOps s =
     (let newSize = length (allExecOps s) + numOfNewOps
      in s\<lparr>allExecOps := allExecOps s @ replicate numOfNewOps None,
           depsMap := resizeSets newSize (depsMap s),
           consumerMap := resizeSets newSize (consumerMap s)\<rparr>)"

definition insertNewExecOpToDepsMap :: "nat \<Rightarrow> async_deps \<Rightarrow> async_error + nat \<times> async_deps" where
  "insertNewExecOpToDepsMap execOp s =
     (let dataStructSize = length (allExecOps s)
      in guardE (execOpCount s \<le> dataStructSize) InvalidCount
           (let s1 = (if execOpCount s = dataStructSize then preAllocateForNewOps 1 s else s);
                s2 = setIndex execOp (execOpCount s1) (s1\<lparr>allExecOps := (allExecOps s1)[execOpCount s1 := Some execOp]\<rparr>)
            in bindE (addExecOp execOp s2) (\<lambda>s3. Inr (execOpCount s3, s3\<lparr>execOpCount := execOpCount s3 + 1\<rparr>))))"

section \<open>Queries\<close>

definition getOpDeps :: "nat \<Rightarrow> async_deps \<Rightarrow> async_error + nat list" where
  "getOpDeps opIdx s = guardE (opIdx < execOpCount s) InvalidIndex (Inr (getDepsVec (depsMap s ! opIdx)))"

definition getConsumerOps :: "nat \<Rightarrow> async_deps \<Rightarrow> async_error + nat list" where
  "getConsumerOps opIdx s =
     guardE (consumerMap s \<noteq> []) ConsumersNotBuilt
       (guardE (opIdx < execOpCount s) InvalidIndex (Inr (getDepsVec (consumerMap s ! opIdx))))"

definition calculateOpInDegreeTable :: "async_deps \<Rightarrow> (nat \<times> nat) list" where
  "calculateOpInDegreeTable s = map (\<lambda>i. (i, card (depsMap s ! i))) [0..<execOpCount s]"

definition calculateOpOutDegreeTable :: "async_deps \<Rightarrow> async_error + (nat \<times> nat) list" where
  "calculateOpOutDegreeTable s =
     guardE (consumerMap s \<noteq> []) ConsumersNotBuilt
       (Inr (map (\<lambda>i. (i, card (consumerMap s ! i))) [0..<execOpCount s]))"

end
