(* ===== verification/Async_Deps_Correct.thy ===== *)
theory Async_Deps_Correct
  imports Async_Deps
begin

text \<open>
  Correctness of the dependency optimisation and of the consumer map: the closure loop computes
  transitive closures (or the dependencies of dependencies), the reduction loop is the
  reduction of the shared dependency graph in which every barrier is a task.
\<close>

section \<open>The dependency relation\<close>

definition asyncEdges :: "nat set list \<Rightarrow> (nat \<times> nat) set" where
  "asyncEdges D = {(i, d). d \<in> entry D i}"

text \<open>Every operation depends on earlier ones only, as SSA form guarantees.\<close>

definition backwardDeps :: "nat set list \<Rightarrow> bool" where
  "backwardDeps D \<longleftrightarrow> (\<forall>i \<in> {..<length D}. \<forall>d \<in> D ! i. d < i)"

lemma backwardDepsD: "backwardDeps D \<Longrightarrow> d \<in> entry D i \<Longrightarrow> d < i"
  by (cases "i < length D") (auto simp: backwardDeps_def)

lemma backward_finite: "backwardDeps D \<Longrightarrow> finite (entry D i)"
  by (rule finite_subset[of _ "{..<i}"]) (auto dest: backwardDepsD)

lemma asyncEdges_dep: "asyncEdges D = dep_edges (entry D) (\<lambda>b. {b})"
  by (auto simp: asyncEdges_def dep_edges_def)

lemma kids_dep: "dep_kids (entry D) (\<lambda>b. {b}) i = entry D i"
  by (auto simp: dep_kids_def)

lemma edges_less:
  assumes "backwardDeps D" "(i, d) \<in> (asyncEdges D)\<^sup>+"
  shows "d < i"
  using assms(2) by (induction rule: trancl_induct) (auto simp: asyncEdges_def dest!: backwardDepsD[OF assms(1)])

lemma trancl_unfold_entry:
  "(asyncEdges D)\<^sup>+ `` {i} = entry D i \<union> (\<Union>d \<in> entry D i. (asyncEdges D)\<^sup>+ `` {d})"
proof -
  have "(i, x) \<in> (asyncEdges D)\<^sup>+ \<longleftrightarrow> x \<in> entry D i \<or> (\<exists>d \<in> entry D i. (d, x) \<in> (asyncEdges D)\<^sup>+)" for x
    by (subst trancl_unfold_left) (auto simp: asyncEdges_def relcomp_unfold rtrancl_eq_or_trancl)
  then show ?thesis by auto
qed

section \<open>Step 1\<close>

lemma closure_full:
  assumes "backwardDeps D" "k \<le> length D"
  shows "\<exists>C. foldE (closureStep None) [0..<k] D = Inr C \<and> length C = length D \<and>
    (\<forall>i < length D. C ! i = (if i < k then (asyncEdges D)\<^sup>+ `` {i} else D ! i))"
  using assms(2)
proof (induction k)
  case 0
  then show ?case by simp
next
  case (Suc k)
  then obtain C where C: "foldE (closureStep None) [0..<k] D = Inr C" "length C = length D"
    "\<And>i. i < length D \<Longrightarrow> C ! i = (if i < k then (asyncEdges D)\<^sup>+ `` {i} else D ! i)" by auto
  from Suc.prems have k: "k < length D" by simp
  have less: "d < k" if "d \<in> D ! k" for d using backwardDepsD[OF assms(1), of d k] that k by simp
  have Ck: "C ! k = D ! k" using C(3)[OF k] by simp
  have "C ! d = (asyncEdges D)\<^sup>+ `` {d}" if "d \<in> D ! k" for d
    using C(3)[of d] less[OF that] k by simp
  then have "(\<Union>d \<in> D ! k. C ! d) = (\<Union>d \<in> D ! k. (asyncEdges D)\<^sup>+ `` {d})" by simp
  then have "D ! k \<union> (\<Union>d \<in> D ! k. C ! d) = (asyncEdges D)\<^sup>+ `` {k}"
    using trancl_unfold_entry[of D k] k by simp
  moreover have "\<forall>d \<in> D ! k. d < length C" using less k C(2) by fastforce
  ultimately have "closureStep None k C = Inr (C[k := (asyncEdges D)\<^sup>+ `` {k}])"
    by (simp add: closureStep_def Ck)
  then show ?case using C k
    by (intro exI[of _ "C[k := (asyncEdges D)\<^sup>+ `` {k}]"]) (simp add: foldE_append nth_list_update less_Suc_eq)
qed

lemma closure_simplified:
  assumes "backwardDeps D" "k \<le> length D"
  shows "\<exists>C. foldE (closureStep (Some D)) [0..<k] D = Inr C \<and> length C = length D \<and>
    (\<forall>i < length D. C ! i = (if i < k then D ! i \<union> (\<Union>d \<in> D ! i. D ! d) else D ! i))"
  using assms(2)
proof (induction k)
  case 0
  then show ?case by simp
next
  case (Suc k)
  then obtain C where C: "foldE (closureStep (Some D)) [0..<k] D = Inr C" "length C = length D"
    "\<And>i. i < length D \<Longrightarrow> C ! i = (if i < k then D ! i \<union> (\<Union>d \<in> D ! i. D ! d) else D ! i)" by auto
  from Suc.prems have k: "k < length D" by simp
  have Ck: "C ! k = D ! k" using C(3)[OF k] by simp
  moreover have "\<forall>d \<in> D ! k. d < length D" using backwardDepsD[OF assms(1), of _ k] k by fastforce
  ultimately have "closureStep (Some D) k C = Inr (C[k := D ! k \<union> (\<Union>d \<in> D ! k. D ! d)])"
    by (simp add: closureStep_def)
  then show ?case using C k Ck
    by (intro exI[of _ "C[k := D ! k \<union> (\<Union>d \<in> D ! k. D ! d)]"]) (simp add: foldE_append nth_list_update less_Suc_eq)
qed

text \<open>What both modes give: something between the dependencies and their closure.\<close>

lemma depsClosure_between:
  assumes "backwardDeps D"
  obtains C where "depsClosure D = Inr C" "length C = length D"
    "\<And>i. entry C i \<subseteq> (asyncEdges D)\<^sup>+ `` {i}"
    "\<And>i. length D \<le> simplifiedThreshold \<Longrightarrow> i < length D - 1 \<Longrightarrow> entry C i = (asyncEdges D)\<^sup>+ `` {i}"
proof (cases "simplifiedThreshold < length D")
  case True
  from closure_simplified[OF assms, of "length D - 1"] obtain C where
    C: "foldE (closureStep (Some D)) [0..<length D - 1] D = Inr C" "length C = length D"
    "\<And>i. i < length D \<Longrightarrow> C ! i = (if i < length D - 1 then D ! i \<union> (\<Union>d \<in> D ! i. D ! d) else D ! i)" by auto
  have "entry C i \<subseteq> (asyncEdges D)\<^sup>+ `` {i}" for i
  proof (cases "i < length D")
    case i: True
    have "d < length D" if "d \<in> D ! i" for d using backwardDepsD[OF assms, of d i] i that by simp
    then have "D ! i \<union> (\<Union>d \<in> D ! i. D ! d) = entry D i \<union> (\<Union>d \<in> entry D i. entry D d)" using i by auto
    also have "\<dots> \<subseteq> (asyncEdges D)\<^sup>+ `` {i}"
      using trancl_unfold_entry[of D] by blast
    finally show ?thesis using C(2,3) i by (auto split: if_splits)
  qed (simp add: C(2))
  with that[of C] C True show thesis by (auto simp: depsClosure_def)
next
  case False
  from closure_full[OF assms, of "length D - 1"] obtain C where
    C: "foldE (closureStep None) [0..<length D - 1] D = Inr C" "length C = length D"
    "\<And>i. i < length D \<Longrightarrow> C ! i = (if i < length D - 1 then (asyncEdges D)\<^sup>+ `` {i} else D ! i)" by auto
  have "entry C i \<subseteq> (asyncEdges D)\<^sup>+ `` {i}" for i
    using C(2) C(3)[of i] trancl_unfold_entry[of D i] by (cases "i < length D") (auto split: if_splits)
  with that[of C] C False show thesis by (auto simp: depsClosure_def)
qed

section \<open>Step 2\<close>

lemma reductionStep_eq:
  assumes "backwardDeps D" "length C = length D" "\<And>i. entry C i \<subseteq> (asyncEdges D)\<^sup>+ `` {i}"
    and "i < length D" "length X = length D" "X ! i = D ! i"
  shows "reductionStep C i X = Inr (X[i := D ! i - (\<Union>d \<in> D ! i. entry C d)])"
proof -
  have in_range: "d < length C" if "d \<in> D ! i" for d
    using backwardDepsD[OF assms(1), of d i] assms(2,4) that by simp
  then have C: "(\<Union>d \<in> D ! i. C ! d) = (\<Union>d \<in> D ! i. entry C d)" by auto
  show ?thesis
  proof (cases "card (D ! i) \<le> 1")
    case True
    have "x \<notin> entry C d" if "x \<in> D ! i" "d \<in> D ! i" for x d
    proof -
      have "x = d" using True that backward_finite[OF assms(1), of i] assms(4)
        by (auto simp: le_Suc_eq card_Suc_eq)
      then show ?thesis using assms(3)[of d] edges_less[OF assms(1), of d d] by auto
    qed
    then have "D ! i - (\<Union>d \<in> D ! i. entry C d) = D ! i" by auto
    moreover have "X[i := D ! i] = X" using assms(6) by (metis list_update_id)
    ultimately show ?thesis using True assms(6) by (simp add: reductionStep_def)
  next
    case False
    with assms in_range C show ?thesis by (auto simp: reductionStep_def)
  qed
qed

lemma reduction_fold:
  assumes "backwardDeps D" "length C = length D" "\<And>i. entry C i \<subseteq> (asyncEdges D)\<^sup>+ `` {i}"
    and "distinct xs" "set xs \<subseteq> {..<length D}" "length X = length D" "\<And>i. i \<in> set xs \<Longrightarrow> X ! i = D ! i"
  shows "\<exists>Y. foldE (reductionStep C) xs X = Inr Y \<and> length Y = length D \<and>
    (\<forall>i < length D. Y ! i = (if i \<in> set xs then D ! i - (\<Union>d \<in> D ! i. entry C d) else X ! i))"
  using assms(4-7)
proof (induction xs arbitrary: X)
  case Nil
  then show ?case by simp
next
  case (Cons j xs)
  from Cons.prems have j: "j < length D" "X ! j = D ! j" by auto
  have "reductionStep C j X = Inr (X[j := D ! j - (\<Union>d \<in> D ! j. entry C d)])"
    by (rule reductionStep_eq[OF assms(1-3) j(1) Cons.prems(3) j(2)])
  moreover have "\<exists>Y. foldE (reductionStep C) xs (X[j := D ! j - (\<Union>d \<in> D ! j. entry C d)]) = Inr Y \<and>
    length Y = length D \<and> (\<forall>i < length D. Y ! i = (if i \<in> set xs then D ! i - (\<Union>d \<in> D ! i. entry C d)
       else X[j := D ! j - (\<Union>d \<in> D ! j. entry C d)] ! i))"
    by (rule Cons.IH) (use Cons.prems in \<open>auto simp: nth_list_update\<close>)
  then obtain Y where "foldE (reductionStep C) xs (X[j := D ! j - (\<Union>d \<in> D ! j. entry C d)]) = Inr Y" "length Y = length D"
    "\<forall>i < length D. Y ! i = (if i \<in> set xs then D ! i - (\<Union>d \<in> D ! i. entry C d)
       else X[j := D ! j - (\<Union>d \<in> D ! j. entry C d)] ! i)" by blast
  ultimately show ?case using Cons.prems(1,3) j by (intro exI[of _ Y]) (auto simp: nth_list_update)
qed

lemma reduction_reduced:
  assumes "backwardDeps D" "length C = length D" "\<And>i. entry C i \<subseteq> (asyncEdges D)\<^sup>+ `` {i}"
  obtains Y where "foldE (reductionStep C) (rev [0..<length D]) D = Inr Y" "length Y = length D"
    "\<And>i. entry Y i = reduced UNIV (entry D) (\<lambda>b. {b}) (entry C) i"
proof -
  from reduction_fold[OF assms, of "rev [0..<length D]" D] obtain Y where
    Y: "foldE (reductionStep C) (rev [0..<length D]) D = Inr Y" "length Y = length D"
    "\<And>i. i < length D \<Longrightarrow> Y ! i = D ! i - (\<Union>d \<in> D ! i. entry C d)"
    by (simp add: atLeast0LessThan) blast
  have "entry Y i = reduced UNIV (entry D) (\<lambda>b. {b}) (entry C) i" for i
    using Y(2) Y(3)[of i] by (cases "i < length D") (auto simp: reduced_def kids_dep)
  with Y that show thesis by blast
qed

section \<open>The optimised map\<close>

lemma deps_reduction:
  assumes "backwardDeps D" "\<And>i. V i \<subseteq> (asyncEdges D)\<^sup>+ `` {i}"
  shows "dep_reduction UNIV (entry D) (\<lambda>b. {b}) (\<lambda>i. (asyncEdges D)\<^sup>+ `` {i}) V (\<lambda>i. i)"
proof
  show "c < t" if "c \<in> dep_kids (entry D) (\<lambda>b. {b}) t" for c t
    using that backwardDepsD[OF assms(1)] by (simp add: kids_dep)
  show "(asyncEdges D)\<^sup>+ `` {t} = entry D t \<union> (\<Union>c \<in> dep_kids (entry D) (\<lambda>b. {b}) t. (asyncEdges D)\<^sup>+ `` {c})" for t
    unfolding kids_dep by (rule trancl_unfold_entry)
qed (use assms(2) in auto)

lemma optimized_deps:
  assumes "backwardDeps D"
  obtains C Y where "depsClosure D = Inr C" "foldE (reductionStep C) (rev [0..<length D]) D = Inr Y"
    "length Y = length D" "(asyncEdges Y)\<^sup>+ = (asyncEdges D)\<^sup>+" "\<And>i. entry Y i \<subseteq> entry D i"
    "\<And>i. length D \<le> simplifiedThreshold \<Longrightarrow>
       entry Y i = {d \<in> entry D i. \<not> (\<exists>e \<in> entry D i. (e, d) \<in> (asyncEdges D)\<^sup>+)}"
proof -
  from depsClosure_between[OF assms] obtain C where C: "depsClosure D = Inr C" "length C = length D"
    "\<And>i. entry C i \<subseteq> (asyncEdges D)\<^sup>+ `` {i}"
    "\<And>i. length D \<le> simplifiedThreshold \<Longrightarrow> i < length D - 1 \<Longrightarrow> entry C i = (asyncEdges D)\<^sup>+ `` {i}" by metis
  from reduction_reduced[OF assms C(2,3)] obtain Y where
    Y: "foldE (reductionStep C) (rev [0..<length D]) D = Inr Y" "length Y = length D"
    "\<And>i. entry Y i = reduced UNIV (entry D) (\<lambda>b. {b}) (entry C) i" by blast
  have "entry Y = reduced UNIV (entry D) (\<lambda>b. {b}) (entry C)" using Y(3) by blast
  then have "(asyncEdges Y)\<^sup>+ = (asyncEdges D)\<^sup>+"
    using dep_reduction.reduction_preserves_order[OF deps_reduction[OF assms C(3)]] by (simp add: asyncEdges_dep)
  moreover have "entry Y i \<subseteq> entry D i" for i by (auto simp: Y(3) reduced_def)
  moreover have "entry Y i = {d \<in> entry D i. \<not> (\<exists>e \<in> entry D i. (e, d) \<in> (asyncEdges D)\<^sup>+)}"
    if small: "length D \<le> simplifiedThreshold" for i
  proof -
    have "entry C e = (asyncEdges D)\<^sup>+ `` {e}" if "e \<in> entry D i" for e
      using C(4)[OF small, of e] backwardDepsD[OF assms that] entry_in_range[OF that] by linarith
    then show ?thesis by (auto simp: Y(3) reduced_def kids_dep)
  qed
  ultimately show thesis using that C(1) Y by blast
qed

end
