(* ===== verification/Async_Build.thy ===== *)
theory Async_Build
  imports Async_Deps_Correct
begin

text \<open>
  What the constructor of \<open>AsyncDepsInfo\<close> collects from a function, when it throws, and what
  \<open>updateTokenDependencies\<close> and \<open>buildConsMap\<close> write.
\<close>

section \<open>Consumer map\<close>

definition consumersOk :: "async_deps \<Rightarrow> bool" where
  "consumersOk s \<longleftrightarrow> consumerMap s = [] \<or> (length (consumerMap s) = length (depsMap s) \<and>
     (\<forall>i \<in> {..<length (depsMap s)}. \<forall>j \<in> {..<length (depsMap s)}.
        j \<in> consumerMap s ! i \<longleftrightarrow> i \<in> depsMap s ! j))"

lemma fitsIndex_less: "i < n \<Longrightarrow> fitsIndex n \<Longrightarrow> fitsIndex i"
  by (simp add: fitsIndex_def)

lemma addConsumers_fold:
  "fitsIndex idx \<Longrightarrow> set ds \<subseteq> {..<length cm} \<Longrightarrow>
    foldE (addConsumerOf idx) ds cm = Inr (fold (\<lambda>d. insert_at d idx) ds cm)"
  by (induction ds arbitrary: cm) (auto simp: addConsumerOf_def)

lemma consumers_fold:
  assumes "\<And>i. i \<in> set xs \<Longrightarrow> fitsIndex i \<and> finite (D ! i) \<and> D ! i \<subseteq> {..<length cm}"
  shows "\<exists>cm'. foldE (\<lambda>idx. foldE (addConsumerOf idx) (elems (D ! idx))) xs cm = Inr cm' \<and>
    length cm' = length cm \<and> (\<forall>i. entry cm' i = entry cm i \<union> {j \<in> set xs. i \<in> D ! j})"
  using assms
proof (induction xs arbitrary: cm)
  case Nil
  then show ?case by simp
next
  case (Cons j xs)
  let ?cm = "fold (\<lambda>d. insert_at d j) (elems (D ! j)) cm"
  from Cons.prems[of j] have j: "foldE (addConsumerOf j) (elems (D ! j)) cm = Inr ?cm"
    "entry ?cm i = (if i \<in> D ! j then insert j (entry cm i) else entry cm i)" for i
    by (simp_all add: addConsumers_fold entry_fold_insert_at)
  have "\<exists>cm'. foldE (\<lambda>idx. foldE (addConsumerOf idx) (elems (D ! idx))) xs ?cm = Inr cm' \<and>
    length cm' = length ?cm \<and> (\<forall>i. entry cm' i = entry ?cm i \<union> {j \<in> set xs. i \<in> D ! j})"
    by (rule Cons.IH) (use Cons.prems in auto)
  then show ?case using j by auto
qed

lemma entry_resize:
  "entry (resizeSets n v) i = (if i < n then entry v i else {})"
  by (auto simp: resizeSets_def entry_def nth_append)

lemma length_resize [simp]: "length (resizeSets n v) = n"
  by (simp add: resizeSets_def)

lemma buildConsMap_spec:
  assumes "backwardDeps (depsMap s)" "fitsIndex (length (depsMap s))"
  obtains cm where "buildConsMap s = Inr (s\<lparr>consumerMap := cm\<rparr>)" "length cm = length (depsMap s)"
    "\<And>i. i < length (depsMap s) \<Longrightarrow>
       entry cm i = entry (consumerMap s) i \<union> {j \<in> {..<length (depsMap s)}. i \<in> depsMap s ! j}"
proof -
  have "fitsIndex i \<and> finite (depsMap s ! i) \<and> depsMap s ! i \<subseteq> {..<length (depsMap s)}" if "i < length (depsMap s)" for i
    using that backwardDepsD[OF assms(1), of _ i] backward_finite[OF assms(1), of i] fitsIndex_less[OF that assms(2)]
    by (auto intro: less_trans)
  then have "\<exists>cm. foldE (\<lambda>idx. foldE (addConsumerOf idx) (elems (depsMap s ! idx))) [0..<length (depsMap s)]
      (resizeSets (length (depsMap s)) (consumerMap s)) = Inr cm \<and>
    length cm = length (resizeSets (length (depsMap s)) (consumerMap s)) \<and>
    (\<forall>i. entry cm i = entry (resizeSets (length (depsMap s)) (consumerMap s)) i \<union> {j \<in> set [0..<length (depsMap s)]. i \<in> depsMap s ! j})"
    by (intro consumers_fold) auto
  then obtain cm where cm: "foldE (\<lambda>idx. foldE (addConsumerOf idx) (elems (depsMap s ! idx))) [0..<length (depsMap s)]
      (resizeSets (length (depsMap s)) (consumerMap s)) = Inr cm" "length cm = length (depsMap s)"
    "\<And>i. entry cm i = entry (resizeSets (length (depsMap s)) (consumerMap s)) i \<union> {j \<in> {..<length (depsMap s)}. i \<in> depsMap s ! j}"
    by auto
  show thesis by (rule that[of cm]) (simp_all add: buildConsMap_def cm entry_resize)
qed

lemma buildConsMap_ok:
  assumes "backwardDeps (depsMap s)" "fitsIndex (length (depsMap s))" "consumersOk s"
  obtains cm where "buildConsMap s = Inr (s\<lparr>consumerMap := cm\<rparr>)" "consumersOk (s\<lparr>consumerMap := cm\<rparr>)"
    "length cm = length (depsMap s)"
proof -
  from buildConsMap_spec[OF assms(1,2)] obtain cm where
    cm: "buildConsMap s = Inr (s\<lparr>consumerMap := cm\<rparr>)" "length cm = length (depsMap s)"
    "\<And>i. i < length (depsMap s) \<Longrightarrow>
       entry cm i = entry (consumerMap s) i \<union> {j \<in> {..<length (depsMap s)}. i \<in> depsMap s ! j}" by blast
  have old: "j \<in> entry (consumerMap s) i \<Longrightarrow> i < length (depsMap s) \<Longrightarrow> j < length (depsMap s) \<Longrightarrow> i \<in> depsMap s ! j" for i j
    using assms(3) by (auto simp: consumersOk_def entry_def split: if_splits)
  have "consumersOk (s\<lparr>consumerMap := cm\<rparr>)"
    using cm(2,3) old by (auto simp: consumersOk_def)
  with that cm show thesis by blast
qed

lemma optimizeDepsMap_spec:
  assumes "backwardDeps (depsMap s)" "fitsIndex (length (depsMap s))"
  obtains D cm where "optimizeDepsMap s = Inr (s\<lparr>depsMap := D, consumerMap := cm\<rparr>)"
    "length D = length (depsMap s)" "(asyncEdges D)\<^sup>+ = (asyncEdges (depsMap s))\<^sup>+"
    "\<And>i. entry D i \<subseteq> entry (depsMap s) i"
    "\<And>i. length (depsMap s) \<le> simplifiedThreshold \<Longrightarrow>
       entry D i = {d \<in> entry (depsMap s) i. \<not> (\<exists>e \<in> entry (depsMap s) i. (e, d) \<in> (asyncEdges (depsMap s))\<^sup>+)}"
    "consumersOk (s\<lparr>depsMap := D, consumerMap := cm\<rparr>)" "consumerMap s = [] \<Longrightarrow> cm = []"
    "consumerMap s \<noteq> [] \<Longrightarrow> length cm = length D"
proof -
  from optimized_deps[OF assms(1)] obtain C D where
    C: "depsClosure (depsMap s) = Inr C" "foldE (reductionStep C) (rev [0..<length (depsMap s)]) (depsMap s) = Inr D"
    and D: "length D = length (depsMap s)" "(asyncEdges D)\<^sup>+ = (asyncEdges (depsMap s))\<^sup>+"
    "\<And>i. entry D i \<subseteq> entry (depsMap s) i"
    "\<And>i. length (depsMap s) \<le> simplifiedThreshold \<Longrightarrow>
       entry D i = {d \<in> entry (depsMap s) i. \<not> (\<exists>e \<in> entry (depsMap s) i. (e, d) \<in> (asyncEdges (depsMap s))\<^sup>+)}"
    by blast
  show thesis
  proof (cases "consumerMap s = []")
    case True
    then have "s\<lparr>depsMap := D\<rparr> = s\<lparr>depsMap := D, consumerMap := []\<rparr>" by (cases s) simp
    then have "optimizeDepsMap s = Inr (s\<lparr>depsMap := D, consumerMap := []\<rparr>)"
      using True by (simp add: optimizeDepsMap_def C)
    with True D that show thesis by (auto simp: consumersOk_def)
  next
    case False
    have "d < i" if "d \<in> entry D i" for d i using D(3)[of i] that backwardDepsD[OF assms(1)] by blast
    then have b: "backwardDeps D" by (simp add: backwardDeps_def)
    from buildConsMap_ok[of "s\<lparr>depsMap := D, consumerMap := []\<rparr>"] b assms(2) D(1) obtain cm where
      cm: "buildConsMap (s\<lparr>depsMap := D, consumerMap := []\<rparr>) = Inr (s\<lparr>depsMap := D, consumerMap := cm\<rparr>)"
      "consumersOk (s\<lparr>depsMap := D, consumerMap := cm\<rparr>)" "length cm = length D"
      by (auto simp: consumersOk_def)
    then have "optimizeDepsMap s = Inr (s\<lparr>depsMap := D, consumerMap := cm\<rparr>)"
      using False by (simp add: optimizeDepsMap_def C)
    with False D cm that show thesis by blast
  qed
qed

lemma optimizeDepsMap_run:
  assumes "backwardDeps (depsMap s)" "fitsIndex (length (depsMap s))"
  shows "\<exists>D cm. optimizeDepsMap s = Inr (s\<lparr>depsMap := D, consumerMap := cm\<rparr>) \<and> length D = length (depsMap s) \<and>
    (asyncEdges D)\<^sup>+ = (asyncEdges (depsMap s))\<^sup>+ \<and> (\<forall>i. entry D i \<subseteq> entry (depsMap s) i) \<and>
    (length (depsMap s) \<le> simplifiedThreshold \<longrightarrow> (\<forall>i. entry D i =
       {d \<in> entry (depsMap s) i. \<not> (\<exists>e \<in> entry (depsMap s) i. (e, d) \<in> (asyncEdges (depsMap s))\<^sup>+)})) \<and>
    consumersOk (s\<lparr>depsMap := D, consumerMap := cm\<rparr>) \<and> (consumerMap s = [] \<longrightarrow> cm = []) \<and>
    (consumerMap s \<noteq> [] \<longrightarrow> length cm = length D)"
proof (rule optimizeDepsMap_spec[OF assms])
  fix D cm
  assume a: "optimizeDepsMap s = Inr (s\<lparr>depsMap := D, consumerMap := cm\<rparr>)" "length D = length (depsMap s)"
    "(asyncEdges D)\<^sup>+ = (asyncEdges (depsMap s))\<^sup>+" "\<And>i. entry D i \<subseteq> entry (depsMap s) i"
    "\<And>i. length (depsMap s) \<le> simplifiedThreshold \<Longrightarrow> entry D i =
       {d \<in> entry (depsMap s) i. \<not> (\<exists>e \<in> entry (depsMap s) i. (e, d) \<in> (asyncEdges (depsMap s))\<^sup>+)}"
    "consumersOk (s\<lparr>depsMap := D, consumerMap := cm\<rparr>)" "consumerMap s = [] \<Longrightarrow> cm = []"
    "consumerMap s \<noteq> [] \<Longrightarrow> length cm = length D"
  show ?thesis by (rule exI[of _ D], rule exI[of _ cm], intro conjI allI impI) (fact a | rule a, assumption)+
qed

lemma addDependency_spec:
  assumes "getIndex p s = Inr i" "getIndex c s = Inr j" "j < length (depsMap s)" "i < length (depsMap s)"
    and "consumersOk s"
  obtains cm where "addDependency p c s = Inr (s\<lparr>depsMap := insert_at j i (depsMap s), consumerMap := cm\<rparr>)"
    "consumersOk (s\<lparr>depsMap := insert_at j i (depsMap s), consumerMap := cm\<rparr>)"
proof (cases "consumerMap s = []")
  case True
  with assms have "addDependency p c s = Inr (s\<lparr>depsMap := insert_at j i (depsMap s), consumerMap := []\<rparr>)"
    by (cases s) (simp add: addDependency_def)
  with that show thesis by (simp add: consumersOk_def)
next
  case False
  with assms have "addDependency p c s =
    Inr (s\<lparr>depsMap := insert_at j i (depsMap s), consumerMap := insert_at i j (consumerMap s)\<rparr>)"
    by (auto simp: addDependency_def consumersOk_def Let_def)
  moreover have "consumersOk (s\<lparr>depsMap := insert_at j i (depsMap s), consumerMap := insert_at i j (consumerMap s)\<rparr>)"
    using assms False by (auto simp: consumersOk_def nth_insert_at split: if_splits)
  ultimately show thesis by (rule that)
qed

section \<open>Collecting the operands\<close>

text \<open>An operand whose producer has an index.\<close>

definition goodOperand :: "(nat \<Rightarrow> nat option) \<Rightarrow> operand_source \<Rightarrow> bool" where
  "goodOperand attrs a \<longleftrightarrow> (\<exists>p k. a = FromExecute p \<and> attrs p = Some k \<and> fitsIndex k)"

definition producerIndices :: "(nat \<Rightarrow> nat option) \<Rightarrow> operand_source list \<Rightarrow> nat set" where
  "producerIndices attrs as = {k. \<exists>p. FromExecute p \<in> set as \<and> attrs p = Some k}"

lemma producerIndices_Cons:
  "producerIndices attrs (FromExecute p # as) =
     (case attrs p of None \<Rightarrow> {} | Some k \<Rightarrow> {k}) \<union> producerIndices attrs as"
  by (auto simp: producerIndices_def split: option.splits)

lemma addOperands_good:
  assumes "list_all (goodOperand (indexAttr s)) as" "i < length (depsMap s)"
  shows "foldE (addOperand i) as s =
    Inr (s\<lparr>depsMap := (depsMap s)[i := depsMap s ! i \<union> producerIndices (indexAttr s) as]\<rparr>)"
  using assms
proof (induction as arbitrary: s)
  case Nil
  then show ?case by (simp add: producerIndices_def)
next
  case (Cons a as)
  from Cons.prems obtain p k where a: "a = FromExecute p" "indexAttr s p = Some k" "fitsIndex k"
    by (auto simp: goodOperand_def)
  then have "addOperand i a s = Inr (s\<lparr>depsMap := insert_at i k (depsMap s)\<rparr>)"
    using Cons.prems by (simp add: addOperand_def getIndex_def)
  with Cons.IH[of "s\<lparr>depsMap := insert_at i k (depsMap s)\<rparr>"] Cons.prems a show ?case
    by (simp add: insert_at_def producerIndices_Cons)
qed

lemma addOperand_frame:
  "addOperand i a s = Inr s' \<Longrightarrow> s' = s\<lparr>depsMap := depsMap s'\<rparr> \<and> length (depsMap s') = length (depsMap s) \<and> goodOperand (indexAttr s) a"
  by (auto simp: addOperand_def getIndex_def goodOperand_def bindE_Inr guardE_Inr split: operand_source.splits option.splits)

lemma addOperands_all_good:
  "foldE (addOperand i) as s = Inr s' \<Longrightarrow> list_all (goodOperand (indexAttr s)) as"
proof (induction as arbitrary: s)
  case (Cons a as)
  then obtain t where t: "addOperand i a s = Inr t" "foldE (addOperand i) as t = Inr s'" by (auto simp: bindE_Inr)
  from addOperand_frame[OF t(1)] have a: "goodOperand (indexAttr s) a" and "t = s\<lparr>depsMap := depsMap t\<rparr>" by auto
  from this(2) have "indexAttr t = indexAttr s" by (metis async_deps.select_convs(5) async_deps.surjective async_deps.update_convs(2))
  with a Cons.IH[OF t(2)] show ?case by simp
qed simp

lemma addOperands_iff:
  assumes "i < length (depsMap s)"
  shows "foldE (addOperand i) as s = Inr s' \<longleftrightarrow> list_all (goodOperand (indexAttr s)) as \<and>
    s' = s\<lparr>depsMap := (depsMap s)[i := depsMap s ! i \<union> producerIndices (indexAttr s) as]\<rparr>"
  using addOperands_good[OF _ assms] addOperands_all_good by fastforce

lemma addExecOp_iff:
  assumes "indexAttr s e = Some i" "fitsIndex i" "i < length (depsMap s)"
  shows "addExecOp e s = Inr s' \<longleftrightarrow> list_all (goodOperand (indexAttr s)) (operands (execOps s e)) \<and>
    s' = s\<lparr>depsMap := (depsMap s)[i := depsMap s ! i \<union> producerIndices (indexAttr s) (operands (execOps s e))]\<rparr>"
  using addOperands_iff[OF assms(3)] assms(1,2) by (simp add: addExecOp_def getIndex_def)

section \<open>Walking the function\<close>

definition goodOp :: "async_deps \<Rightarrow> body_op \<Rightarrow> bool" where
  "goodOp s op =
     (case op of ExecuteOp e \<Rightarrow> list_all (goodOperand (indexAttr s)) (operands (execOps s e))
      | AwaitOp (Some users) \<Rightarrow> list_all Not users | _ \<Rightarrow> True)"

text \<open>What the walk leaves alone.\<close>

definition sameIr :: "async_deps \<Rightarrow> async_deps \<Rightarrow> bool" where
  "sameIr s s' \<longleftrightarrow> s' = s\<lparr>depsMap := depsMap s'\<rparr> \<and> length (depsMap s') = length (depsMap s)"

lemma sameIr_simps:
  "sameIr s s' \<Longrightarrow> indexAttr s' = indexAttr s \<and> execOps s' = execOps s \<and> length (depsMap s') = length (depsMap s) \<and>
     allExecOps s' = allExecOps s \<and> execOpCount s' = execOpCount s \<and> consumerMap s' = consumerMap s"
  by (cases s; cases s') (auto simp: sameIr_def)

lemma sameIr_refl: "sameIr s s"
  by (simp add: sameIr_def)

lemma sameIr_trans: "sameIr s t \<Longrightarrow> sameIr t u \<Longrightarrow> sameIr s u"
  by (cases s; cases t; cases u) (auto simp: sameIr_def)

lemma sameIr_goodOp: "sameIr s s' \<Longrightarrow> goodOp s' = goodOp s"
  by (auto simp: goodOp_def fun_eq_iff sameIr_simps split: body_op.splits option.splits)

definition ownDeps :: "async_deps \<Rightarrow> body_op list \<Rightarrow> nat \<Rightarrow> nat set" where
  "ownDeps s body i =
     {k. \<exists>e \<in> set (executeOps body). indexAttr s e = Some i \<and> k \<in> producerIndices (indexAttr s) (operands (execOps s e))}"

lemma executeOps_simps [simp]:
  "executeOps [] = []" "executeOps (ExecuteOp e # body) = e # executeOps body"
  "executeOps (AwaitOp r # body) = executeOps body" "executeOps (OtherOp # body) = executeOps body"
  by (simp_all add: executeOps_def)

lemma visitOp_iff:
  assumes "\<And>e. e \<in> set (executeOps [op]) \<Longrightarrow> \<exists>i < length (depsMap s). indexAttr s e = Some i \<and> fitsIndex i"
  shows "(\<exists>s'. visitOp op s = Inr s') \<longleftrightarrow> goodOp s op"
    and "visitOp op s = Inr s' \<Longrightarrow> sameIr s s' \<and> (\<forall>i. entry (depsMap s') i = entry (depsMap s) i \<union> ownDeps s [op] i)"
proof -
  have "((\<exists>s'. visitOp op s = Inr s') \<longleftrightarrow> goodOp s op) \<and> (visitOp op s = Inr s' \<longrightarrow>
     sameIr s s' \<and> (\<forall>i. entry (depsMap s') i = entry (depsMap s) i \<union> ownDeps s [op] i))"
  proof (cases op)
    case (ExecuteOp e)
    with assms obtain i where i: "i < length (depsMap s)" "indexAttr s e = Some i" "fitsIndex i" by auto
    show ?thesis using addExecOp_iff[OF i(2,3,1)] i ExecuteOp
      by (auto simp: visitOp_def goodOp_def sameIr_def ownDeps_def entry_def nth_list_update split: if_splits)
  next
    case (AwaitOp r)
    then show ?thesis by (cases r) (auto simp: visitOp_def goodOp_def guardE_Inr sameIr_refl ownDeps_def)
  next
    case OtherOp
    then show ?thesis by (auto simp: visitOp_def goodOp_def sameIr_refl ownDeps_def)
  qed
  then show "(\<exists>s'. visitOp op s = Inr s') \<longleftrightarrow> goodOp s op"
    "visitOp op s = Inr s' \<Longrightarrow> sameIr s s' \<and> (\<forall>i. entry (depsMap s') i = entry (depsMap s) i \<union> ownDeps s [op] i)"
    by blast+
qed

lemma ownDeps_Cons: "ownDeps s (op # body) i = ownDeps s [op] i \<union> ownDeps s body i"
  by (cases op) (auto simp: ownDeps_def)

lemma sameIr_ownDeps: "sameIr s s' \<Longrightarrow> ownDeps s' = ownDeps s"
  by (auto simp: ownDeps_def fun_eq_iff sameIr_simps)

lemma visit_walk:
  assumes "\<And>e. e \<in> set (executeOps body) \<Longrightarrow> \<exists>i < length (depsMap s). indexAttr s e = Some i \<and> fitsIndex i"
  shows "((\<exists>s'. foldE visitOp body s = Inr s') \<longleftrightarrow> list_all (goodOp s) body) \<and>
    (\<forall>s'. foldE visitOp body s = Inr s' \<longrightarrow>
       sameIr s s' \<and> (\<forall>i. entry (depsMap s') i = entry (depsMap s) i \<union> ownDeps s body i))"
  using assms
proof (induction body arbitrary: s)
  case Nil
  then show ?case by (simp add: sameIr_refl ownDeps_def)
next
  case (Cons op body)
  have op: "(\<exists>s'. visitOp op s = Inr s') \<longleftrightarrow> goodOp s op"
    "visitOp op s = Inr t \<Longrightarrow> sameIr s t \<and> (\<forall>i. entry (depsMap t) i = entry (depsMap s) i \<union> ownDeps s [op] i)" for t
    by (rule visitOp_iff; use Cons.prems in \<open>cases op; auto\<close>)+
  show ?case
  proof (cases "visitOp op s")
    case (Inl e)
    with op(1) show ?thesis by auto
  next
    case (Inr t)
    with op have t: "goodOp s op" "sameIr s t" "\<And>i. entry (depsMap t) i = entry (depsMap s) i \<union> ownDeps s [op] i" by auto
    have "\<exists>i < length (depsMap t). indexAttr t e = Some i \<and> fitsIndex i" if "e \<in> set (executeOps body)" for e
      using Cons.prems[of e] that sameIr_simps[OF t(2)] by (cases op) auto
    from Cons.IH[OF this] show ?thesis
      using Inr t sameIr_trans[OF t(2)] by (auto simp: sameIr_goodOp[OF t(2)] sameIr_ownDeps[OF t(2)] ownDeps_Cons[of s op body])
  qed
qed

section \<open>The constructor\<close>

definition indexIn :: "nat \<Rightarrow> nat list \<Rightarrow> nat" where
  "indexIn e es = length (takeWhile (\<lambda>x. x \<noteq> e) es)"

lemma indexIn_nth: "distinct es \<Longrightarrow> i < length es \<Longrightarrow> indexIn (es ! i) es = i"
proof (induction es arbitrary: i)
  case (Cons x es)
  then show ?case by (cases i) (auto simp: indexIn_def)
qed simp

lemma indexIn_less: "e \<in> set es \<Longrightarrow> indexIn e es < length es \<and> es ! indexIn e es = e"
  by (induction es) (auto simp: indexIn_def)

definition indexedBy :: "nat list \<Rightarrow> (nat \<Rightarrow> nat option) \<Rightarrow> nat \<Rightarrow> nat option" where
  "indexedBy es attrs e = (if e \<in> set es then Some (indexIn e es) else attrs e)"

lemma setIndices:
  "distinct es \<Longrightarrow> fold (\<lambda>(i, e). setIndex e i) (enumerate m es) s =
    s\<lparr>indexAttr := \<lambda>e. if e \<in> set es then Some (m + indexIn e es) else indexAttr s e\<rparr>"
proof (induction es arbitrary: m s)
  case (Cons x es)
  then show ?case by (auto simp: setIndex_def indexIn_def intro!: arg_cong[of _ _ "\<lambda>a. s\<lparr>indexAttr := a\<rparr>"])
qed simp

lemma mkAsyncDeps_walk:
  assumes "distinct (executeOps body)"
  shows "mkAsyncDeps body attrs ops = foldE visitOp body
    \<lparr>allExecOps = map Some (executeOps body), depsMap = replicate (length (executeOps body)) {}, consumerMap = [],
     execOpCount = length (executeOps body), indexAttr = indexedBy (executeOps body) attrs, execOps = ops\<rparr>"
  using assms by (simp add: mkAsyncDeps_def buildDepsMap_def setIndices Let_def indexedBy_def[abs_def] cong: if_cong)

definition bodyGood :: "body_op list \<Rightarrow> (nat \<Rightarrow> nat option) \<Rightarrow> (nat \<Rightarrow> exec_op) \<Rightarrow> bool" where
  "bodyGood body attrs ops \<longleftrightarrow>
     (\<forall>e \<in> set (executeOps body). list_all (goodOperand (indexedBy (executeOps body) attrs)) (operands (ops e))) \<and>
     (\<forall>users. AwaitOp (Some users) \<in> set body \<longrightarrow> list_all Not users)"

lemma set_executeOps: "e \<in> set (executeOps body) \<longleftrightarrow> ExecuteOp e \<in> set body"
  by (auto simp: executeOps_def split: body_op.splits)

lemma entry_replicate_empty: "entry (replicate n {}) i = {}"
  by (simp add: entry_def)

lemma list_all_body:
  "list_all P body \<longleftrightarrow> (\<forall>e. ExecuteOp e \<in> set body \<longrightarrow> P (ExecuteOp e)) \<and> (\<forall>us. AwaitOp (Some us) \<in> set body \<longrightarrow> P (AwaitOp (Some us))) \<and>
     (AwaitOp None \<in> set body \<longrightarrow> P (AwaitOp None)) \<and> (OtherOp \<in> set body \<longrightarrow> P OtherOp)"
proof -
  have "P x" if "x \<in> set body" "\<And>e. ExecuteOp e \<in> set body \<Longrightarrow> P (ExecuteOp e)"
    "\<And>us. AwaitOp (Some us) \<in> set body \<Longrightarrow> P (AwaitOp (Some us))"
    "AwaitOp None \<in> set body \<Longrightarrow> P (AwaitOp None)" "OtherOp \<in> set body \<Longrightarrow> P OtherOp" for x
  proof (cases x)
    case (AwaitOp r)
    with that show ?thesis by (cases r) auto
  qed (use that in auto)
  then show ?thesis unfolding list_all_iff by blast
qed

lemma mkAsyncDeps_spec:
  assumes "distinct (executeOps body)" "fitsIndex (length (executeOps body))"
  shows "(\<exists>s. mkAsyncDeps body attrs ops = Inr s) \<longleftrightarrow> bodyGood body attrs ops"
    and "mkAsyncDeps body attrs ops = Inr s \<Longrightarrow>
      allExecOps s = map Some (executeOps body) \<and> length (depsMap s) = length (executeOps body) \<and> consumerMap s = [] \<and>
      execOpCount s = length (executeOps body) \<and> indexAttr s = indexedBy (executeOps body) attrs \<and> execOps s = ops \<and>
      (\<forall>i < length (executeOps body). depsMap s ! i =
         producerIndices (indexedBy (executeOps body) attrs) (operands (ops (executeOps body ! i))))"
proof -
  let ?es = "executeOps body"
  let ?s = "\<lparr>allExecOps = map Some ?es, depsMap = replicate (length ?es) {}, consumerMap = [],
     execOpCount = length ?es, indexAttr = indexedBy ?es attrs, execOps = ops\<rparr>"
  have own: "\<exists>i < length (depsMap ?s). indexAttr ?s e = Some i \<and> fitsIndex i" if "e \<in> set ?es" for e
    using that indexIn_less[OF that] fitsIndex_less[OF _ assms(2)] by (simp add: indexedBy_def)
  note walk = visit_walk[of body ?s, OF own, folded mkAsyncDeps_walk[OF assms(1)]]
  have good: "list_all (goodOp ?s) body \<longleftrightarrow> bodyGood body attrs ops"
    by (simp add: list_all_body goodOp_def bodyGood_def set_executeOps Ball_def[of "set (executeOps body)"])
  show "(\<exists>s. mkAsyncDeps body attrs ops = Inr s) \<longleftrightarrow> bodyGood body attrs ops"
    using walk good by blast
  assume "mkAsyncDeps body attrs ops = Inr s"
  with walk have s: "sameIr ?s s" "\<And>i. entry (depsMap s) i = ownDeps ?s body i"
    by (auto simp: entry_replicate_empty)
  have own_i: "ownDeps ?s body i = producerIndices (indexedBy ?es attrs) (operands (ops (?es ! i)))" if "i < length ?es" for i
  proof -
    have "indexedBy ?es attrs e = Some i \<longleftrightarrow> e = ?es ! i" if "e \<in> set ?es" for e
      using that \<open>i < length ?es\<close> indexIn_nth[OF assms(1)] indexIn_less[OF that] by (auto simp: indexedBy_def)
    moreover have "?es ! i \<in> set ?es" using that by simp
    ultimately show ?thesis by (auto simp: ownDeps_def)
  qed
  have "depsMap s ! i = producerIndices (indexedBy ?es attrs) (operands (ops (?es ! i)))" if "i < length ?es" for i
  proof -
    have "depsMap s ! i = entry (depsMap s) i" using that sameIr_simps[OF s(1)] by simp
    also have "\<dots> = ownDeps ?s body i" by (rule s(2))
    finally show ?thesis using own_i[OF that] by simp
  qed
  with sameIr_simps[OF s(1)] show "allExecOps s = map Some (executeOps body) \<and> length (depsMap s) = length (executeOps body) \<and> consumerMap s = [] \<and>
      execOpCount s = length (executeOps body) \<and> indexAttr s = indexedBy (executeOps body) attrs \<and> execOps s = ops \<and>
      (\<forall>i < length (executeOps body). depsMap s ! i =
         producerIndices (indexedBy (executeOps body) attrs) (operands (ops (executeOps body ! i))))"
    by simp
qed

section \<open>Tokens\<close>

definition tokensFor :: "async_deps \<Rightarrow> nat \<Rightarrow> operand_source list" where
  "tokensFor s i = map (\<lambda>d. FromExecute (the (allExecOps s ! d))) (elems (depsMap s ! i))"

lemma tokens_fold:
  assumes "\<And>d. d \<in> set ds \<Longrightarrow> d < length (allExecOps s) \<and> allExecOps s ! d \<noteq> None"
  shows "foldE (\<lambda>d ts. bindE (tokenOf s d) (\<lambda>t. Inr (ts @ [t]))) ds ts =
    Inr (ts @ map (\<lambda>d. FromExecute (the (allExecOps s ! d))) ds)"
  using assms
proof (induction ds arbitrary: ts)
  case (Cons d ds)
  then obtain e where "d < length (allExecOps s)" "allExecOps s ! d = Some e" by fastforce
  with Cons show ?case by (simp add: tokenOf_def)
qed simp

definition opsIndexed :: "async_deps \<Rightarrow> bool" where
  "opsIndexed s \<longleftrightarrow> execOpCount s \<le> length (allExecOps s) \<and> length (depsMap s) = length (allExecOps s) \<and>
     fitsIndex (length (allExecOps s)) \<and>
     (\<forall>i < execOpCount s. \<exists>e. allExecOps s ! i = Some e \<and> indexAttr s e = Some i)"

lemma updateTokens_fold:
  assumes "opsIndexed s" "backwardDeps (depsMap s)" "set xs \<subseteq> set (take (execOpCount s) (allExecOps s))"
  shows "foldE updateTokens xs (s\<lparr>execOps := g\<rparr>) = Inr (s\<lparr>execOps := (\<lambda>e.
    if Some e \<in> set xs then (g e)\<lparr>dependencies := tokensFor s (the (indexAttr s e))\<rparr> else g e)\<rparr>)"
  using assms(3)
proof (induction xs arbitrary: g)
  case (Cons x xs)
  then have "x \<in> set (take (execOpCount s) (allExecOps s))" by simp
  then obtain i where "i < execOpCount s" "x = allExecOps s ! i"
    by (auto simp: in_set_conv_nth)
  with assms(1) obtain e where i: "i < execOpCount s" "x = Some e" "indexAttr s e = Some i"
    by (auto simp: opsIndexed_def)
  have len: "i < length (depsMap s)" "fitsIndex i"
    using i(1) assms(1) fitsIndex_less[of i "length (allExecOps s)"] by (auto simp: opsIndexed_def)
  have d: "d < length (allExecOps s) \<and> allExecOps s ! d \<noteq> None" if "d \<in> set (elems (depsMap s ! i))" for d
  proof -
    have "d \<in> depsMap s ! i" using that len(1) backward_finite[OF assms(2), of i] by simp
    then have "d < i" using backwardDepsD[OF assms(2), of d i] len(1) by simp
    then have "d < execOpCount s" using i(1) by simp
    moreover from this have "\<exists>e. allExecOps s ! d = Some e" using assms(1) unfolding opsIndexed_def by blast
    ultimately show ?thesis using assms(1) by (auto simp: opsIndexed_def)
  qed
  have "foldE (\<lambda>d ts. bindE (tokenOf (s\<lparr>execOps := g\<rparr>) d) (\<lambda>t. Inr (ts @ [t]))) (elems (depsMap s ! i)) [] = Inr (tokensFor s i)"
    using tokens_fold[of "elems (depsMap s ! i)" "s\<lparr>execOps := g\<rparr>" "[]"] d by (simp add: tokensFor_def)
  then have "updateTokens x (s\<lparr>execOps := g\<rparr>) = Inr (s\<lparr>execOps := g(e := (g e)\<lparr>dependencies := tokensFor s i\<rparr>)\<rparr>)"
    using i len by (simp add: updateTokens_def getIndex_def getDepsVec_def)
  with Cons i show ?case by (auto simp: fun_eq_iff intro!: arg_cong[of _ _ "\<lambda>a. s\<lparr>execOps := a\<rparr>"])
qed simp

lemma updateTokenDependencies_spec:
  assumes "opsIndexed s" "backwardDeps (depsMap s)"
  shows "updateTokenDependencies s = Inr (s\<lparr>execOps := (\<lambda>e. if Some e \<in> set (take (execOpCount s) (allExecOps s))
    then (execOps s e)\<lparr>dependencies := tokensFor s (the (indexAttr s e))\<rparr> else execOps s e)\<rparr>)"
  using updateTokens_fold[OF assms subset_refl, of "execOps s"] by (simp add: updateTokenDependencies_def)

section \<open>Inserting an operation\<close>

lemma insertNewExecOp_spec:
  assumes "opsIndexed s" "fitsIndex (length (allExecOps s) + 1)" "indexAttr s e = None"
    and "list_all (goodOperand (indexAttr s)) (operands (execOps s e))"
  obtains s' where "insertNewExecOpToDepsMap e s = Inr (execOpCount s, s')" "opsIndexed s'"
    "execOpCount s' = execOpCount s + 1" "allExecOps s' ! execOpCount s = Some e"
    "\<And>i. entry (depsMap s') i = entry (depsMap s) i \<union>
       (if i = execOpCount s then producerIndices (indexAttr s) (operands (execOps s e)) else {})"
    "\<And>i. entry (consumerMap s') i = entry (if execOpCount s = length (allExecOps s) then
       resizeSets (length (allExecOps s) + 1) (consumerMap s) else consumerMap s) i"
proof -
  let ?n = "execOpCount s"
  let ?s1 = "if ?n = length (allExecOps s) then preAllocateForNewOps 1 s else s"
  let ?s2 = "setIndex e ?n (?s1\<lparr>allExecOps := (allExecOps ?s1)[?n := Some e]\<rparr>)"
  have s1: "execOpCount ?s1 = ?n" "execOps ?s1 = execOps s" "indexAttr ?s1 = indexAttr s"
    by (simp_all add: preAllocateForNewOps_def Let_def)
  have len: "?n < length (allExecOps ?s1)" "length (depsMap ?s1) = length (allExecOps ?s1)"
    "length (allExecOps ?s1) \<le> length (allExecOps s) + 1"
    using assms(1) by (auto simp: preAllocateForNewOps_def opsIndexed_def Let_def)
  have dm: "entry (depsMap ?s1) i = entry (depsMap s) i" for i
    using assms(1) by (auto simp: preAllocateForNewOps_def Let_def entry_resize opsIndexed_def)
  have old: "allExecOps ?s1 ! i = allExecOps s ! i" if "i < ?n" for i
    using that assms(1) by (auto simp: preAllocateForNewOps_def opsIndexed_def Let_def nth_append)
  have fit: "fitsIndex ?n" "fitsIndex (length (allExecOps ?s1))"
    using len assms(2) by (auto simp: fitsIndex_def)
  have attrs: "indexAttr ?s2 = (indexAttr s)(e \<mapsto> ?n)" "execOps ?s2 = execOps s" "depsMap ?s2 = depsMap ?s1"
    by (simp_all add: setIndex_def s1)
  have good: "list_all (goodOperand (indexAttr ?s2)) (operands (execOps ?s2 e))"
    using assms(3,4) by (fastforce simp: attrs list_all_iff goodOperand_def)
  have prods: "producerIndices (indexAttr ?s2) (operands (execOps ?s2 e)) = producerIndices (indexAttr s) (operands (execOps s e))"
    using assms(3,4) by (auto simp: attrs producerIndices_def list_all_iff goodOperand_def split: if_splits)
  let ?s3 = "?s2\<lparr>depsMap := (depsMap ?s2)[?n := depsMap ?s2 ! ?n \<union> producerIndices (indexAttr s) (operands (execOps s e))]\<rparr>"
  have "addExecOp e ?s2 = Inr ?s3"
    using addExecOp_iff[of ?s2 e ?n ?s3] good len fit(1) prods by (simp add: attrs)
  moreover have "execOpCount ?s3 = ?n" by (simp add: setIndex_def s1)
  moreover have "?n \<le> length (allExecOps s)" using assms(1) by (simp add: opsIndexed_def)
  ultimately have run: "insertNewExecOpToDepsMap e s = Inr (?n, ?s3\<lparr>execOpCount := ?n + 1\<rparr>)"
    unfolding insertNewExecOpToDepsMap_def Let_def s1(1) by simp
  have idx: "opsIndexed (?s3\<lparr>execOpCount := ?n + 1\<rparr>)"
    using len fit(2) assms(1,3) old
    by (auto simp: opsIndexed_def attrs setIndex_def s1 nth_list_update less_Suc_eq) (metis assms(3) option.distinct(1))
  have "depsMap ?s1 ! ?n = entry (depsMap s) ?n" using len dm[of ?n] by (metis entry_nth)
  then have deps: "entry (depsMap ?s3) i = entry (depsMap s) i \<union>
      (if i = ?n then producerIndices (indexAttr s) (operands (execOps s e)) else {})" for i
    using len dm[of i] by (simp add: attrs entry_update)
  show thesis
    by (rule that[OF run idx]) (use len deps in \<open>auto simp: setIndex_def preAllocateForNewOps_def Let_def\<close>)
qed

end
