(* ===== verification/Async_Properties.thy ===== *)
theory Async_Properties
  imports Async_Build
begin

text \<open>The properties of the dependencies between \<open>async.execute\<close> operations.\<close>

section \<open>Example\<close>

text \<open>Three operations: 11 uses 10, and 12 uses both.\<close>

definition chainBody :: "body_op list" where
  "chainBody = [ExecuteOp 10, ExecuteOp 11, ExecuteOp 12, AwaitOp (Some [False])]"

definition chainOps :: "nat \<Rightarrow> exec_op" where
  "chainOps e = \<lparr>dependencies = [],
     bodyOperands = (if e = 11 then [FromExecute 10] else if e = 12 then [FromExecute 10, FromExecute 11] else [])\<rparr>"

definition chainDeps :: async_deps where
  "chainDeps = projr (mkAsyncDeps chainBody (\<lambda>_. None) chainOps)"

definition chainConsumers :: async_deps where
  "chainConsumers = projr (buildConsMap chainDeps)"

lemma chain_body: "executeOps chainBody = [10, 11, 12]" "distinct (executeOps chainBody)" "fitsIndex (length (executeOps chainBody))"
  by code_simp+

lemma chain_values: "depsMap chainDeps = [{}, {0}, {0, 1}]" "depsMap chainConsumers = [{}, {0}, {0, 1}]"
  "consumerMap chainConsumers = [{1, 2}, {2}, {}]"
  by code_simp+

lemma chain_backward: "backwardDeps (depsMap chainDeps)" "backwardDeps (depsMap chainConsumers)"
  "fitsIndex (length (depsMap chainDeps))" "fitsIndex (length (depsMap chainConsumers))" "consumersOk chainConsumers"
  by code_simp+

lemma isl_iff: "\<not> isl r \<longleftrightarrow> r = Inr (projr r)"
  by (cases r) auto

lemma chain_run: "mkAsyncDeps chainBody (\<lambda>_. None) chainOps = Inr chainDeps"
proof -
  have "\<not> isl (mkAsyncDeps chainBody (\<lambda>_. None) chainOps)" by code_simp
  then show ?thesis by (simp add: isl_iff chainDeps_def)
qed

section \<open>Collecting the dependencies\<close>

text \<open>
  C19: The dependencies collected for an operation are exactly the operations of the function
  that produce one of its operands, and the consumer map is not built yet.
\<close>

theorem mkAsyncDeps_exact:
  assumes "distinct (executeOps body)" "fitsIndex (length (executeOps body))"
    and "mkAsyncDeps body (\<lambda>_. None) ops = Inr s" "i < length (executeOps body)"
  shows "depsMap s ! i = {j. j < length (executeOps body) \<and>
      FromExecute (executeOps body ! j) \<in> set (operands (ops (executeOps body ! i)))} \<and>
    length (depsMap s) = length (executeOps body) \<and> consumerMap s = []"
proof -
  let ?es = "executeOps body"
  from mkAsyncDeps_spec(2)[OF assms(1-3)] have s: "consumerMap s = []" "length (depsMap s) = length ?es"
    "depsMap s ! i = producerIndices (indexedBy ?es (\<lambda>_. None)) (operands (ops (?es ! i)))"
    using assms(4) by auto
  have "indexedBy ?es (\<lambda>_. None) p = Some j \<longleftrightarrow> j < length ?es \<and> p = ?es ! j" for p j
    using indexIn_less[of p ?es] indexIn_nth[OF assms(1), of j] by (auto simp: indexedBy_def)
  with s show ?thesis by (auto simp: producerIndices_def)
qed

theorem mkAsyncDeps_exact_witness:
  "depsMap chainDeps ! 2 = {j. j < 3 \<and> FromExecute ([10, 11, 12] ! j) \<in> set (operands (chainOps 12))}"
  using mkAsyncDeps_exact[OF chain_body(2,3) chain_run, of 2] by (simp add: chain_body(1) numeral_3_eq_3)

text \<open>
  C20: The constructor throws exactly when an operand is not the result of an
  \<open>async.execute\<close> of the function, or the result of an \<open>async.await\<close> is used inside the
  region of an \<open>async.execute\<close>.
\<close>

theorem mkAsyncDeps_throws:
  assumes "distinct (executeOps body)" "fitsIndex (length (executeOps body))"
  shows "isl (mkAsyncDeps body (\<lambda>_. None) ops) \<longleftrightarrow>
    (\<exists>e \<in> set (executeOps body). \<exists>a \<in> set (operands (ops e)). a \<notin> FromExecute ` set (executeOps body)) \<or>
    (\<exists>users. AwaitOp (Some users) \<in> set body \<and> True \<in> set users)"
proof -
  let ?es = "executeOps body"
  have "goodOperand (indexedBy ?es (\<lambda>_. None)) a \<longleftrightarrow> a \<in> FromExecute ` set ?es" for a
    using indexIn_less fitsIndex_less[OF _ assms(2)] by (auto simp: goodOperand_def indexedBy_def split: if_splits)
  then have "bodyGood body (\<lambda>_. None) ops \<longleftrightarrow>
      (\<forall>e \<in> set ?es. \<forall>a \<in> set (operands (ops e)). a \<in> FromExecute ` set ?es) \<and>
      (\<forall>users. AwaitOp (Some users) \<in> set body \<longrightarrow> True \<notin> set users)"
    by (auto simp: bodyGood_def list_all_iff)
  moreover have "isl (mkAsyncDeps body (\<lambda>_. None) ops) \<longleftrightarrow> \<not> (\<exists>s. mkAsyncDeps body (\<lambda>_. None) ops = Inr s)"
    by (cases "mkAsyncDeps body (\<lambda>_. None) ops") auto
  ultimately show ?thesis unfolding mkAsyncDeps_spec(1)[OF assms] by blast
qed

theorem mkAsyncDeps_throws_witness:
  "isl (mkAsyncDeps chainBody (\<lambda>_. None) (chainOps(12 := \<lparr>dependencies = [], bodyOperands = [FromOther]\<rparr>)))"
proof -
  have "FromOther \<in> set (operands ((chainOps(12 := \<lparr>dependencies = [], bodyOperands = [FromOther]\<rparr>)) 12))"
    by (simp add: operands_def)
  moreover have "FromOther \<notin> FromExecute ` set (executeOps chainBody)" by auto
  ultimately show ?thesis unfolding mkAsyncDeps_throws[OF chain_body(2,3)]
    using chain_body(1) by (metis list.set_intros)
qed

section \<open>Optimisation\<close>

text \<open>
  C21: \<open>optimizeDepsMap\<close> returns, drops dependencies only, and keeps the transitive closure, for
  functions of any size.
\<close>

theorem optimizeDepsMap_keeps_order:
  assumes "backwardDeps (depsMap s)" "fitsIndex (length (depsMap s))"
  shows "\<exists>s'. optimizeDepsMap s = Inr s' \<and> (asyncEdges (depsMap s'))\<^sup>+ = (asyncEdges (depsMap s))\<^sup>+ \<and>
    asyncEdges (depsMap s') \<subseteq> asyncEdges (depsMap s)"
proof -
  from optimizeDepsMap_run[OF assms] obtain D cm where "optimizeDepsMap s = Inr (s\<lparr>depsMap := D, consumerMap := cm\<rparr>)"
    "(asyncEdges D)\<^sup>+ = (asyncEdges (depsMap s))\<^sup>+" "\<And>i. entry D i \<subseteq> entry (depsMap s) i" by blast
  moreover from this(3) have "asyncEdges D \<subseteq> asyncEdges (depsMap s)" by (auto simp: asyncEdges_def)
  ultimately show ?thesis by (intro exI[of _ "s\<lparr>depsMap := D, consumerMap := cm\<rparr>"]) simp
qed

theorem optimizeDepsMap_keeps_order_witness:
  "\<exists>s'. optimizeDepsMap chainConsumers = Inr s' \<and> (asyncEdges (depsMap s'))\<^sup>+ = (asyncEdges [{}, {0}, {0, 1}])\<^sup>+"
  using optimizeDepsMap_keeps_order[OF chain_backward(2,4)] by (auto simp: chain_values)

text \<open>
  C22: Up to the threshold of 10000 operations the result is the transitive reduction: a
  dependency stays exactly when no other dependency of the operation implies it.
\<close>

theorem optimizeDepsMap_minimal:
  assumes "backwardDeps (depsMap s)" "length (depsMap s) \<le> simplifiedThreshold"
  shows "\<exists>s'. optimizeDepsMap s = Inr s' \<and> length (depsMap s') = length (depsMap s) \<and>
    entry (depsMap s') i = {d \<in> entry (depsMap s) i. (asyncEdges (depsMap s))\<^sup>+ \<inter> entry (depsMap s) i \<times> {d} = {}}"
proof -
  have "fitsIndex (length (depsMap s))" using assms(2) by (simp add: fitsIndex_def simplifiedThreshold_def)
  from optimizeDepsMap_run[OF assms(1) this] assms(2) obtain D cm where D: "optimizeDepsMap s = Inr (s\<lparr>depsMap := D, consumerMap := cm\<rparr>)"
    "length D = length (depsMap s)"
    "\<forall>i. entry D i = {d \<in> entry (depsMap s) i. \<not> (\<exists>e \<in> entry (depsMap s) i. (e, d) \<in> (asyncEdges (depsMap s))\<^sup>+)}" by blast
  moreover have "{d \<in> entry (depsMap s) i. \<not> (\<exists>e \<in> entry (depsMap s) i. (e, d) \<in> (asyncEdges (depsMap s))\<^sup>+)} =
    {d \<in> entry (depsMap s) i. (asyncEdges (depsMap s))\<^sup>+ \<inter> entry (depsMap s) i \<times> {d} = {}}" by auto
  ultimately show ?thesis by (intro exI[of _ "s\<lparr>depsMap := D, consumerMap := cm\<rparr>"]) simp
qed

theorem optimizeDepsMap_minimal_witness:
  "\<exists>s'. optimizeDepsMap chainConsumers = Inr s' \<and> 0 \<notin> entry (depsMap s') 2"
proof -
  have "(1, 0) \<in> asyncEdges (depsMap chainConsumers)" by (simp add: asyncEdges_def chain_values entry_def)
  then have "(asyncEdges (depsMap chainConsumers))\<^sup>+ \<inter> entry (depsMap chainConsumers) 2 \<times> {0} \<noteq> {}"
    by (auto simp: chain_values entry_def)
  moreover have "length (depsMap chainConsumers) \<le> simplifiedThreshold"
    by (simp add: chain_values simplifiedThreshold_def)
  ultimately show ?thesis using optimizeDepsMap_minimal[OF chain_backward(2), of 2] by fastforce
qed

section \<open>Consumers\<close>

text \<open>
  C23: The consumer map, when it is built, is the converse of the dependency map: building
  it, adding a dependency and optimising all keep this.
\<close>

theorem consumerMap_converse:
  assumes "consumersOk s" "backwardDeps (depsMap s)" "fitsIndex (length (depsMap s))"
    and "getIndex p s = Inr i" "getIndex c s = Inr j" "i < length (depsMap s)" "j < length (depsMap s)"
  shows "\<exists>s1 s2 s3. buildConsMap s = Inr s1 \<and> consumersOk s1 \<and> length (consumerMap s1) = length (depsMap s1) \<and>
    addDependency p c s = Inr s2 \<and> consumersOk s2 \<and> i \<in> depsMap s2 ! j \<and>
    optimizeDepsMap s = Inr s3 \<and> consumersOk s3 \<and> (consumerMap s3 = [] \<longleftrightarrow> consumerMap s = [])"
proof -
  let ?D1 = "insert_at j i (depsMap s)"
  from buildConsMap_ok[OF assms(2,3,1)] obtain cm1 where
    b: "buildConsMap s = Inr (s\<lparr>consumerMap := cm1\<rparr>)" "consumersOk (s\<lparr>consumerMap := cm1\<rparr>)" "length cm1 = length (depsMap s)" .
  from addDependency_spec[OF assms(4,5,7,6,1)] obtain cm where
    a: "addDependency p c s = Inr (s\<lparr>depsMap := ?D1, consumerMap := cm\<rparr>)" "consumersOk (s\<lparr>depsMap := ?D1, consumerMap := cm\<rparr>)" .
  from optimizeDepsMap_run[OF assms(2,3)] obtain D cm' where
    o: "optimizeDepsMap s = Inr (s\<lparr>depsMap := D, consumerMap := cm'\<rparr>)" "consumersOk (s\<lparr>depsMap := D, consumerMap := cm'\<rparr>)"
    "consumerMap s = [] \<Longrightarrow> cm' = []" "consumerMap s \<noteq> [] \<Longrightarrow> length cm' = length D" "length D = length (depsMap s)" by blast
  have "cm' = [] \<longleftrightarrow> consumerMap s = []" using o(3-5) assms(6) by (cases "consumerMap s = []") auto
  then show ?thesis using a b o(1,2) assms(7)
    by (intro exI[of _ "s\<lparr>consumerMap := cm1\<rparr>"] exI[of _ "s\<lparr>depsMap := ?D1, consumerMap := cm\<rparr>"]
        exI[of _ "s\<lparr>depsMap := D, consumerMap := cm'\<rparr>"]) (simp add: nth_insert_at)
qed

theorem consumerMap_converse_witness:
  "\<exists>s2. addDependency 10 12 chainConsumers = Inr s2 \<and> consumersOk s2"
proof -
  have "getIndex 10 chainConsumers = Inr 0" "getIndex 12 chainConsumers = Inr 2" by code_simp+
  from consumerMap_converse[OF chain_backward(5,2,4) this] show ?thesis by (auto simp: chain_values)
qed

section \<open>Through the IR and back\<close>

text \<open>
  C24: Collecting the dependencies, optimising them, writing them back as tokens and
  collecting them again from the new operands gives the same order of the operations.
\<close>

theorem tokens_roundtrip:
  assumes "distinct (executeOps body)" "fitsIndex (length (executeOps body))"
    and "mkAsyncDeps body attrs ops = Inr s" "backwardDeps (depsMap s)"
  shows "\<exists>s1 s2 s3. optimizeDepsMap s = Inr s1 \<and> updateTokenDependencies s1 = Inr s2 \<and>
    mkAsyncDeps body (indexAttr s2) (execOps s2) = Inr s3 \<and> (asyncEdges (depsMap s3))\<^sup>+ = (asyncEdges (depsMap s))\<^sup>+"
proof -
  let ?es = "executeOps body"
  let ?A = "indexedBy ?es attrs"
  from mkAsyncDeps_spec(2)[OF assms(1-3)] have s: "allExecOps s = map Some ?es" "length (depsMap s) = length ?es"
    "execOpCount s = length ?es" "indexAttr s = ?A" "execOps s = ops"
    "\<And>i. i < length ?es \<Longrightarrow> depsMap s ! i = producerIndices ?A (operands (ops (?es ! i)))" by auto
  have good: "bodyGood body attrs ops" using mkAsyncDeps_spec(1)[OF assms(1,2)] assms(3) by blast
  from optimizeDepsMap_run[OF assms(4)] s(2) assms(2) obtain D cm where
    o: "optimizeDepsMap s = Inr (s\<lparr>depsMap := D, consumerMap := cm\<rparr>)" "length D = length ?es"
    "(asyncEdges D)\<^sup>+ = (asyncEdges (depsMap s))\<^sup>+" "\<And>i. entry D i \<subseteq> entry (depsMap s) i" by metis
  let ?s1 = "s\<lparr>depsMap := D, consumerMap := cm\<rparr>"
  have A: "?A (?es ! i) = Some i" if "i < length ?es" for i
    using that indexIn_nth[OF assms(1)] by (simp add: indexedBy_def)
  have AA: "indexedBy ?es ?A = ?A" by (auto simp: indexedBy_def)
  have idx: "opsIndexed ?s1" using s o(2) assms(2) A by (auto simp: opsIndexed_def)
  have "d < i" if "d \<in> entry D i" for d i using o(4)[of i] that backwardDepsD[OF assms(4)] by blast
  then have bw: "backwardDeps (depsMap ?s1)" by (simp add: backwardDeps_def)
  define ops' where "ops' = (\<lambda>e. if Some e \<in> set (take (execOpCount ?s1) (allExecOps ?s1))
    then (execOps ?s1 e)\<lparr>dependencies := tokensFor ?s1 (the (indexAttr ?s1 e))\<rparr> else execOps ?s1 e)"
  have u: "updateTokenDependencies ?s1 = Inr (?s1\<lparr>execOps := ops'\<rparr>)"
    unfolding ops'_def by (rule updateTokenDependencies_spec[OF idx bw])
  have tokens: "set (operands (ops' (?es ! i))) = (\<lambda>d. FromExecute (?es ! d)) ` (D ! i) \<union> set (bodyOperands (ops (?es ! i)))"
    if i: "i < length ?es" for i
  proof -
    have "D ! i \<subseteq> {..<length ?es}" using backwardDepsD[OF bw, of _ i] i o(2) by fastforce
    then have "(\<lambda>d. FromExecute (the (allExecOps ?s1 ! d))) ` (D ! i) = (\<lambda>d. FromExecute (?es ! d)) ` (D ! i)"
      by (intro image_cong) (auto simp: s(1))
    moreover have "finite (D ! i)" using backward_finite[OF bw, of i] i o(2) by simp
    ultimately show ?thesis using i by (simp add: ops'_def s A operands_def tokensFor_def)
  qed
  have goodToken: "goodOperand ?A (FromExecute (?es ! d))" if "d < length ?es" for d
    using A[OF that] fitsIndex_less[OF that assms(2)] by (simp add: goodOperand_def)
  have "list_all (goodOperand ?A) (operands (ops' e))" if "e \<in> set ?es" for e
  proof -
    from that obtain i where i: "i < length ?es" "e = ?es ! i" by (auto simp: in_set_conv_nth)
    have "D ! i \<subseteq> {..<length ?es}" using backwardDepsD[OF bw, of _ i] i o(2) by fastforce
    moreover have "list_all (goodOperand ?A) (bodyOperands (ops e))"
      using good that by (auto simp: bodyGood_def operands_def)
    ultimately show ?thesis using tokens[OF i(1)] goodToken i(2) by (auto simp: list_all_iff)
  qed
  then have "bodyGood body ?A ops'" using good by (simp add: bodyGood_def AA)
  with mkAsyncDeps_spec(1)[OF assms(1,2)] obtain s3 where s3: "mkAsyncDeps body ?A ops' = Inr s3" by blast
  from mkAsyncDeps_spec(2)[OF assms(1,2) s3] have d3: "length (depsMap s3) = length ?es"
    "\<And>i. i < length ?es \<Longrightarrow> depsMap s3 ! i = producerIndices ?A (operands (ops' (?es ! i)))" by (auto simp: AA)
  have "entry D i \<subseteq> entry (depsMap s3) i \<and> entry (depsMap s3) i \<subseteq> entry (depsMap s) i" for i
  proof (cases "i < length ?es")
    case True
    have "D ! i \<subseteq> {..<length ?es}" using backwardDepsD[OF bw, of _ i] True o(2) by fastforce
    then have "producerIndices ?A (operands (ops' (?es ! i))) = D ! i \<union> producerIndices ?A (bodyOperands (ops (?es ! i)))"
      using tokens[OF True] A by (force simp: producerIndices_def)
    moreover have "producerIndices ?A (bodyOperands (ops (?es ! i))) \<subseteq> depsMap s ! i"
      using s(6)[OF True] by (auto simp: producerIndices_def operands_def)
    moreover have "D ! i \<subseteq> depsMap s ! i" using o(4)[of i] True o(2) s(2) by simp
    ultimately show ?thesis using True d3 o(2) s(2) by simp
  qed (simp add: o(2) d3(1))
  then have "asyncEdges D \<subseteq> asyncEdges (depsMap s3)" "asyncEdges (depsMap s3) \<subseteq> asyncEdges (depsMap s)"
    by (auto simp: asyncEdges_def)
  then have "(asyncEdges (depsMap s3))\<^sup>+ = (asyncEdges (depsMap s))\<^sup>+"
    using o(3) trancl_mono_subset by blast
  with o(1) u s3 show ?thesis
    by (intro exI[of _ ?s1] exI[of _ "?s1\<lparr>execOps := ops'\<rparr>"] exI[of _ s3]) (simp add: s(4))
qed

theorem tokens_roundtrip_witness:
  "\<exists>s1 s2 s3. optimizeDepsMap chainDeps = Inr s1 \<and> updateTokenDependencies s1 = Inr s2 \<and>
    mkAsyncDeps chainBody (indexAttr s2) (execOps s2) = Inr s3 \<and> (asyncEdges (depsMap s3))\<^sup>+ = (asyncEdges [{}, {0}, {0, 1}])\<^sup>+"
  using tokens_roundtrip[OF chain_body(2,3) chain_run chain_backward(1)] by (simp add: chain_values(1))

section \<open>New operations\<close>

text \<open>
  A new operation gets the next index and depends on the producers of its operands;
  no other dependency changes. It is not entered as a consumer of these producers.
\<close>

lemma insertNewExecOp_exact:
  assumes "opsIndexed s" "fitsIndex (length (allExecOps s) + 1)" "indexAttr s e = None"
    and "list_all (goodOperand (indexAttr s)) (operands (execOps s e))"
  shows "\<exists>s'. insertNewExecOpToDepsMap e s = Inr (execOpCount s, s') \<and> opsIndexed s' \<and>
    allExecOps s' ! execOpCount s = Some e \<and> execOpCount s' = execOpCount s + 1 \<and>
    entry (depsMap s') i = entry (depsMap s) i \<union> (if i = execOpCount s then producerIndices (indexAttr s) (operands (execOps s e)) else {}) \<and>
    entry (consumerMap s') i \<subseteq> entry (consumerMap s) i"
proof -
  from insertNewExecOp_spec[OF assms] obtain s' where s': "insertNewExecOpToDepsMap e s = Inr (execOpCount s, s')" "opsIndexed s'"
    "execOpCount s' = execOpCount s + 1" "allExecOps s' ! execOpCount s = Some e"
    "\<And>i. entry (depsMap s') i = entry (depsMap s) i \<union>
       (if i = execOpCount s then producerIndices (indexAttr s) (operands (execOps s e)) else {})"
    "\<And>i. entry (consumerMap s') i = entry (if execOpCount s = length (allExecOps s) then
       resizeSets (length (allExecOps s) + 1) (consumerMap s) else consumerMap s) i" by blast
  have "entry (consumerMap s') i \<subseteq> entry (consumerMap s) i" by (auto simp: s'(6) entry_resize split: if_splits)
  with s'(1-5) show ?thesis by blast
qed

definition withNewOp :: async_deps where
  "withNewOp = chainConsumers\<lparr>execOps := (execOps chainConsumers)(13 := \<lparr>dependencies = [], bodyOperands = [FromExecute 10]\<rparr>)\<rparr>"

end
