(* ===== verification/Dims_Order.thy ===== *)
theory Dims_Order
  imports Npu_Prelude "HOL-Library.Word"
begin

unbundle bit_operations_syntax

text \<open>
  \<open>DimsOrder\<close> (src/core/attributes/dims_order.cpp): a permutation of up to 15 dimensions packed
  into 64 bits, four bits per dimension and the digit 0 as the end mark.
\<close>

section \<open>Codes\<close>

type_synonym storage = "64 word"

text \<open>\<open>code\<close> holds the innermost dimension in its lowest digit, \<open>invertedCode\<close> the outermost.\<close>

record dims_order =
  code :: storage
  invertedCode :: storage

datatype order_error =
    DimUsedTwice
  | DimOutOfRange
  | NotContiguous
  | TooManyDims
  | DimTooLarge
  | DimNotAvailable
  | NoDimAtPos
  | BadDimIndex
  | NotPermutation
  | SizeMismatch
  | ShiftTooLarge \<comment> \<open>a shift by at least the width of the word, undefined in C++\<close>
  | IndexOutOfBounds \<comment> \<open>a vector is indexed past its end, undefined in C++\<close>

definition bitsPerDim :: nat where
  "bitsPerDim = 4"

definition maxNumDims :: nat where
  "maxNumDims = 15"

definition maxDimInd :: nat where
  "maxDimInd = 15"

definition indexDigit :: "storage \<Rightarrow> storage" where
  "indexDigit c = c AND 0xF"

text \<open>The constructor of \<open>Dim\<close> and \<open>MemDim\<close> checks the index.\<close>

definition mkDim :: "nat \<Rightarrow> order_error + nat" where
  "mkDim ind = guardE (ind < maxNumDims) BadDimIndex (Inr ind)"

section \<open>From codes\<close>

text \<open>The constructor: the digits up to the first 0 in the opposite order.\<close>

fun invertLoop :: "nat \<Rightarrow> storage \<Rightarrow> storage \<Rightarrow> storage" where
  "invertLoop 0 c acc = acc"
| "invertLoop (Suc k) c acc =
     (let dimDigit = indexDigit c
      in if dimDigit = 0 then acc
         else invertLoop k (drop_bit bitsPerDim c) (push_bit bitsPerDim acc OR dimDigit))"

definition mkOrder :: "storage \<Rightarrow> dims_order" where
  "mkOrder c = \<lparr>code = c, invertedCode = invertLoop maxNumDims c 0\<rparr>"

fun usedDims :: "nat \<Rightarrow> nat \<Rightarrow> storage \<Rightarrow> bool list \<Rightarrow> order_error + nat \<times> bool list" where
  "usedDims 0 numDims c dimUsed = Inr (numDims, dimUsed)"
| "usedDims (Suc k) numDims c dimUsed =
     (let dimInd = indexDigit c
      in if dimInd = 0 then Inr (numDims, dimUsed)
         else let i = unat (dimInd - 1)
              in guardE (\<not> dimUsed ! i) DimUsedTwice
                   (usedDims k (numDims + 1) (drop_bit bitsPerDim c) (dimUsed[i := True])))"

fun checkRange :: "nat list \<Rightarrow> bool list \<Rightarrow> nat \<Rightarrow> order_error + unit" where
  "checkRange [] dimUsed numDims = Inr ()"
| "checkRange (dimInd # rest) dimUsed numDims =
     (if \<not> dimUsed ! dimInd then Inr ()
      else guardE (dimInd < numDims) DimOutOfRange (checkRange rest dimUsed numDims))"

fun checkTail :: "nat \<Rightarrow> storage \<Rightarrow> order_error + unit" where
  "checkTail 0 c = Inr ()"
| "checkTail (Suc k) c = guardE (indexDigit c = 0) NotContiguous (checkTail k (drop_bit bitsPerDim c))"

definition validateCode :: "storage \<Rightarrow> order_error + unit" where
  "validateCode c =
     bindE (usedDims maxNumDims 0 c (replicate maxNumDims False)) (\<lambda>(numDims, dimUsed).
       bindE (checkRange [0..<maxNumDims] dimUsed numDims) (\<lambda>_.
         checkTail (maxNumDims - numDims) (drop_bit (bitsPerDim * numDims) c)))"

definition fromCode :: "storage \<Rightarrow> order_error + dims_order" where
  "fromCode c = bindE (validateCode c) (\<lambda>_. Inr (mkOrder c))"

section \<open>From a number of dimensions and from a permutation\<close>

definition validateNumDims :: "nat \<Rightarrow> order_error + unit" where
  "validateNumDims n = guardE (n \<le> maxNumDims) TooManyDims (Inr ())"

definition getCodeFromNumDims :: "nat \<Rightarrow> order_error + storage" where
  "getCodeFromNumDims n =
     bindE (validateNumDims n) (\<lambda>_.
       Inr (fold (\<lambda>i c. c OR push_bit (bitsPerDim * i) (of_nat (n - i))) [0..<n] 0))"

definition fromNumDims :: "nat \<Rightarrow> order_error + dims_order" where
  "fromNumDims n = bindE (getCodeFromNumDims n) (\<lambda>c. Inr (mkOrder c))"

fun checkPermutation :: "nat \<Rightarrow> nat list \<Rightarrow> bool list \<Rightarrow> order_error + unit" where
  "checkPermutation n [] dimUsed = Inr ()"
| "checkPermutation n (d # perm) dimUsed =
     guardE (d \<le> maxDimInd) DimTooLarge (guardE (d < n) DimOutOfRange
       (guardE (\<not> dimUsed ! d) DimUsedTwice (checkPermutation n perm (dimUsed[d := True]))))"

definition validatePermutation :: "nat list \<Rightarrow> order_error + unit" where
  "validatePermutation perm = checkPermutation (length perm) perm (replicate maxNumDims False)"

definition appendDigit :: "nat \<Rightarrow> storage \<Rightarrow> storage" where
  "appendDigit d c = push_bit bitsPerDim c OR of_nat (d + 1)"

definition getCodeFromPermutation :: "nat list \<Rightarrow> order_error + storage" where
  "getCodeFromPermutation perm = bindE (validatePermutation perm) (\<lambda>_. Inr (fold appendDigit perm 0))"

definition fromPermutation :: "nat list \<Rightarrow> order_error + dims_order" where
  "fromPermutation perm = bindE (getCodeFromPermutation perm) (\<lambda>c. Inr (mkOrder c))"

section \<open>Reading\<close>

fun countDigits :: "nat \<Rightarrow> nat \<Rightarrow> storage \<Rightarrow> nat" where
  "countDigits 0 out c = out"
| "countDigits (Suc k) out c =
     (if indexDigit c = 0 then out else countDigits k (out + 1) (drop_bit bitsPerDim c))"

definition numDims :: "dims_order \<Rightarrow> nat" where
  "numDims order = countDigits maxNumDims 0 (code order)"

fun findDigit :: "nat \<Rightarrow> storage \<Rightarrow> storage \<Rightarrow> bool" where
  "findDigit 0 dimDigit c = False"
| "findDigit (Suc k) dimDigit c =
     (let curDigit = indexDigit c
      in if curDigit = 0 then False
         else if curDigit = dimDigit then True
         else findDigit k dimDigit (drop_bit bitsPerDim c))"

definition hasDim :: "nat \<Rightarrow> dims_order \<Rightarrow> bool" where
  "hasDim d order = findDigit maxNumDims (of_nat d + 1) (code order)"

fun digitPos :: "nat \<Rightarrow> nat \<Rightarrow> storage \<Rightarrow> storage \<Rightarrow> order_error + nat" where
  "digitPos 0 i dimDigit c = Inl DimNotAvailable"
| "digitPos (Suc k) i dimDigit c =
     (let curDigit = indexDigit c
      in if curDigit = 0 then Inl DimNotAvailable
         else if curDigit = dimDigit then Inr i
         else digitPos k (i + 1) dimDigit (drop_bit bitsPerDim c))"

definition dimPos :: "nat \<Rightarrow> dims_order \<Rightarrow> order_error + nat" where
  "dimPos d order = digitPos maxNumDims 0 (of_nat d + 1) (invertedCode order)"

definition dimAt :: "nat \<Rightarrow> dims_order \<Rightarrow> order_error + nat" where
  "dimAt pos order =
     guardE (pos * bitsPerDim < 64) ShiftTooLarge
       (let curDigit = indexDigit (drop_bit (pos * bitsPerDim) (invertedCode order))
        in guardE (curDigit > 0) NoDimAtPos (mkDim (unat (curDigit - 1))))"

definition toMemDim :: "nat \<Rightarrow> dims_order \<Rightarrow> order_error + nat" where
  "toMemDim d order = bindE (dimPos d order) mkDim"

definition toDim :: "nat \<Rightarrow> dims_order \<Rightarrow> order_error + nat" where
  "toDim memDim order = dimAt memDim order"

fun collectDims :: "nat \<Rightarrow> storage \<Rightarrow> nat list" where
  "collectDims 0 c = []"
| "collectDims (Suc k) c =
     (let curDigit = indexDigit c
      in if curDigit = 0 then [] else unat (curDigit - 1) # collectDims k (drop_bit bitsPerDim c))"

definition toPermutation :: "dims_order \<Rightarrow> nat list" where
  "toPermutation order = collectDims maxNumDims (invertedCode order)"

definition sameOrder :: "dims_order \<Rightarrow> dims_order \<Rightarrow> bool" where
  "sameOrder o1 o2 \<longleftrightarrow> code o1 = code o2"

definition isIdentity :: "dims_order \<Rightarrow> order_error + bool" where
  "isIdentity order = bindE (fromNumDims (numDims order)) (\<lambda>identity. Inr (sameOrder order identity))"

section \<open>Affine maps and strides\<close>

text \<open>
  What the conversions use of MLIR's affine maps: whether a map is a permutation, the dimension
  positions its results read, and how a permutation map and the empty map are made.
\<close>

record 'm affine_maps =
  isPermutation :: "'m \<Rightarrow> bool"
  resultPositions :: "'m \<Rightarrow> nat list"
  getPermutationMap :: "nat list \<Rightarrow> 'm"
  emptyMap :: 'm

fun mkDims :: "nat list \<Rightarrow> order_error + nat list" where
  "mkDims [] = Inr []"
| "mkDims (p # ps) = bindE (mkDim p) (\<lambda>d. bindE (mkDims ps) (\<lambda>ds. Inr (d # ds)))"

definition fromAffineMap :: "'m affine_maps \<Rightarrow> 'm \<Rightarrow> order_error + dims_order" where
  "fromAffineMap A map' =
     guardE (isPermutation A map') NotPermutation
       (bindE (mkDims (resultPositions A map')) fromPermutation)"

definition toAffineMap :: "'m affine_maps \<Rightarrow> dims_order \<Rightarrow> 'm" where
  "toAffineMap A order =
     (let permutation = toPermutation order
      in if permutation = [] then emptyMap A else getPermutationMap A permutation)"

text \<open>The strides are indexed by dimension; they do not grow from outer to inner dimensions.\<close>

definition isCompatibleLayout :: "nat \<Rightarrow> int list \<Rightarrow> dims_order \<Rightarrow> order_error + bool" where
  "isCompatibleLayout rank logicalStrides order =
     (if rank \<noteq> numDims order then Inr False
      else let currPerm = toPermutation order
           in if length currPerm \<le> 1 then Inr True
              else guardE (\<forall>d \<in> set currPerm. d < length logicalStrides) IndexOutOfBounds
                (Inr (list_all (\<lambda>i. \<not> logicalStrides ! (currPerm ! i) < logicalStrides ! (currPerm ! (i + 1)))
                   [0..<length currPerm - 1])))"

section \<open>Values in memory order and in logical order\<close>

definition toMemoryOrder :: "'v list \<Rightarrow> dims_order \<Rightarrow> order_error + 'v list" where
  "toMemoryOrder values order =
     guardE (length values = numDims order) SizeMismatch
       (guardE (\<forall>d \<in> set (toPermutation order). d < length values) IndexOutOfBounds
         (Inr (map (\<lambda>d. values ! d) (toPermutation order))))"

definition valueOfDim :: "'v list \<Rightarrow> dims_order \<Rightarrow> nat \<Rightarrow> order_error + 'v" where
  "valueOfDim values order dimInd =
     bindE (mkDim dimInd) (\<lambda>dim. bindE (toMemDim dim order) (\<lambda>memDim.
       guardE (memDim < length values) IndexOutOfBounds (Inr (values ! memDim))))"

definition toLogicalOrder :: "'v list \<Rightarrow> dims_order \<Rightarrow> order_error + 'v list" where
  "toLogicalOrder values order =
     guardE (length values = numDims order) SizeMismatch
       (foldE (\<lambda>dimInd out. bindE (valueOfDim values order dimInd) (\<lambda>v. Inr (out @ [v]))) [0..<length values] [])"

section \<open>Named orders\<close>

definition namedOrders :: "(storage \<times> string) list" where
  "namedOrders = [(0x0, ''SCALAR''), (0x1, ''C''), (0x12, ''NC''), (0x21, ''CN''), (0x123, ''CHW''), (0x231, ''HWC''),
     (0x213, ''HCW''), (0x1234, ''NCHW''), (0x1342, ''NHWC''), (0x1324, ''NHCW''), (0x1432, ''NWHC''),
     (0x1423, ''NWCH''), (0x1243, ''NCWH''), (0x12345, ''NCDHW''), (0x13452, ''NDHWC''), (0x12453, ''GNHWC''),
     (0x3412, ''YXOI''), (0x12345, ''GOIYX''), (0x12453, ''GOYXI'')]"

definition getCanonicalName :: "dims_order \<Rightarrow> string" where
  "getCanonicalName order =
     (case find (\<lambda>(c, name). sameOrder order (mkOrder c)) namedOrders of Some (c, name) \<Rightarrow> name | None \<Rightarrow> '''')"

end
