(* ===== verification/Permute_Utils.thy ===== *)
theory Permute_Utils
  imports Dims_Order
begin

text \<open>
  The operations on permutations of src/utils/permute_utils.cpp. A permutation map is given by
  the operations \<open>affine_maps\<close> of \<open>Dims_Order\<close>; a shape is the list of its sizes.
\<close>

section \<open>Applying a permutation to a shape\<close>

definition permStep :: "int list \<Rightarrow> dims_order \<Rightarrow> nat \<Rightarrow> int list \<Rightarrow> order_error + int list" where
  "permStep memShape perm ind outShape =
     bindE (mkDim ind) (\<lambda>outDim. bindE (dimAt ind perm) (\<lambda>d. bindE (mkDim d) (\<lambda>inDim.
       guardE (inDim < length memShape) IndexOutOfBounds (Inr (outShape[outDim := memShape ! inDim])))))"

definition applyPerm :: "'m affine_maps \<Rightarrow> int list \<Rightarrow> 'm \<Rightarrow> order_error + int list" where
  "applyPerm A memShape memPerm =
     bindE (fromAffineMap A memPerm) (\<lambda>perm. guardE (length memShape = numDims perm) SizeMismatch
       (foldE (permStep memShape perm) [0..<length memShape] (replicate (length memShape) 0)))"

section \<open>Trivial permutations\<close>

text \<open>The dimensions a permutation reads, without those of size 1.\<close>

definition nonTrivialStep :: "int list \<Rightarrow> dims_order \<Rightarrow> nat \<Rightarrow> nat list \<Rightarrow> order_error + nat list" where
  "nonTrivialStep inShape perm ind out =
     bindE (dimAt ind perm) (\<lambda>d. bindE (mkDim d) (\<lambda>inDim.
       guardE (inDim < length inShape) IndexOutOfBounds
         (Inr (if inShape ! inDim = 1 then out else out @ [inDim]))))"

definition nonTrivialDims :: "'m affine_maps \<Rightarrow> int list \<Rightarrow> 'm \<Rightarrow> order_error + nat list" where
  "nonTrivialDims A inShape memPerm =
     bindE (fromAffineMap A memPerm) (\<lambda>perm. guardE (length inShape = numDims perm) SizeMismatch
       (foldE (nonTrivialStep inShape perm) [0..<length inShape] []))"

definition isTrivialPermute :: "'m affine_maps \<Rightarrow> int list \<Rightarrow> 'm \<Rightarrow> order_error + bool" where
  "isTrivialPermute A inShape memPerm =
     bindE (nonTrivialDims A inShape memPerm) (\<lambda>dims.
       Inr (dims = [] \<or> list_all (\<lambda>ind. \<not> dims ! ind < dims ! (ind - 1)) [1..<length dims]))"

definition getPermutateDims :: "'m affine_maps \<Rightarrow> int list \<Rightarrow> 'm \<Rightarrow> order_error + nat list" where
  "getPermutateDims A inShape memPerm =
     bindE (nonTrivialDims A inShape memPerm) (\<lambda>dims.
       Inr (if list_ex (\<lambda>ind. dims ! ind > dims ! (ind - 1)) [1..<length dims] then [] else dims))"

definition isTrivialReorder :: "dims_order \<Rightarrow> dims_order \<Rightarrow> int list \<Rightarrow> order_error + bool" where
  "isTrivialReorder inOrder outOrder shape =
     (let inPerm = toPermutation inOrder; outPerm = toPermutation outOrder
      in guardE (\<forall>d \<in> set (inPerm @ outPerm). d < length shape) IndexOutOfBounds
           (Inr (filter (\<lambda>d. shape ! d \<noteq> 1) inPerm = filter (\<lambda>d. shape ! d \<noteq> 1) outPerm)))"

section \<open>Permutations between orders\<close>

definition memPermStep :: "dims_order \<Rightarrow> nat \<times> nat \<Rightarrow> nat list \<Rightarrow> order_error + nat list" where
  "memPermStep inOrder p memPerm =
     (case p of (i, d) \<Rightarrow> bindE (dimPos d inOrder) (\<lambda>pos.
        guardE (i < length memPerm) IndexOutOfBounds (Inr (memPerm[i := pos]))))"

definition getPermutationFromOrders :: "'m affine_maps \<Rightarrow> dims_order \<Rightarrow> dims_order \<Rightarrow> order_error + 'm" where
  "getPermutationFromOrders A inOrder outOrder =
     (let inPerm = toPermutation inOrder; outPerm = toPermutation outOrder
      in bindE (foldE (memPermStep inOrder) (enumerate 0 outPerm) (replicate (length inPerm) 0))
           (\<lambda>memPerm. Inr (getPermutationMap A memPerm)))"

definition applyPermutation :: "dims_order \<Rightarrow> dims_order \<Rightarrow> order_error + dims_order" where
  "applyPermutation srcOrder dstOrder =
     bindE (foldE (\<lambda>d out. bindE (dimAt d srcOrder) (\<lambda>r. Inr (out @ [r]))) (toPermutation dstOrder) [])
       fromPermutation"

definition moveD0ToTheFront :: "dims_order \<Rightarrow> order_error + dims_order" where
  "moveD0ToTheFront inOrder = fromPermutation (0 # filter (\<lambda>d. d \<noteq> 0) (toPermutation inOrder))"

section \<open>Merging dimensions\<close>

text \<open>
  The rank of every element: its first position in the sorted vector, as
  \<open>DenseMap::insert\<close> keeps the first entry of a key.
\<close>

definition firstIndex :: "nat \<Rightarrow> nat list \<Rightarrow> nat" where
  "firstIndex x xs = length (takeWhile (\<lambda>y. y \<noteq> x) xs)"

definition normalizePermutation :: "nat list \<Rightarrow> nat list" where
  "normalizePermutation vec = (let sorted = sort vec in map (\<lambda>x. firstIndex x sorted) vec)"

text \<open>
  The inner loop joins dimensions that follow one another before and after the permutation;
  it stops when the remaining rank is below the wanted one.
\<close>

function mergeRun :: "nat list \<Rightarrow> int list \<Rightarrow> int \<Rightarrow> nat \<Rightarrow> int \<Rightarrow> int \<Rightarrow> nat \<times> int \<times> int" where
  "mergeRun permVec shapeVec rank j dimSize remainingRank =
     (if j < length permVec \<and> permVec ! (j - 1) + 1 = permVec ! j \<and> \<not> remainingRank < rank
      then mergeRun permVec shapeVec rank (j + 1) (dimSize * shapeVec ! (permVec ! j)) (remainingRank - 1)
      else (j, dimSize, remainingRank))"
  by pat_completeness auto
termination
  by (relation "measure (\<lambda>(permVec, shapeVec, rank, j, dimSize, remainingRank). length permVec - j)") auto

declare mergeRun.simps [simp del]

lemma mergeRun_ge: "j \<le> fst (mergeRun permVec shapeVec rank j dimSize remainingRank)"
proof (induction permVec shapeVec rank j dimSize remainingRank rule: mergeRun.induct)
  case (1 permVec shapeVec rank j dimSize remainingRank)
  then show ?case by (subst mergeRun.simps) (auto dest: Suc_leD)
qed

function mergeDims :: "nat list \<Rightarrow> int list \<Rightarrow> int \<Rightarrow> nat \<Rightarrow> int \<Rightarrow> (nat \<times> int) list" where
  "mergeDims permVec shapeVec rank i remainingRank =
     (if i < length permVec
      then (case mergeRun permVec shapeVec rank (i + 1) (shapeVec ! (permVec ! i)) remainingRank of
              (j, dimSize, r) \<Rightarrow> (permVec ! i, dimSize) # mergeDims permVec shapeVec rank j r)
      else [])"
  by pat_completeness auto
termination
proof (relation "measure (\<lambda>(permVec, shapeVec, rank, i, remainingRank). length permVec - i)", goal_cases)
  case (2 permVec shapeVec rank i remainingRank)
  with mergeRun_ge[of "i + 1" permVec shapeVec rank "shapeVec ! (permVec ! i)" remainingRank] show ?case
    by (auto simp: prod_eq_iff)
qed simp

declare mergeDims.simps [simp del]

definition getMergedPermutationAndShape ::
  "'m affine_maps \<Rightarrow> int list \<Rightarrow> 'm \<Rightarrow> int \<Rightarrow> order_error + nat list \<times> int list" where
  "getMergedPermutationAndShape A memShape permutation rank =
     bindE (fromAffineMap A permutation) (\<lambda>order.
       let origPermVec = toPermutation order
       in guardE (\<forall>d \<in> set origPermVec. d < length memShape) IndexOutOfBounds
            (let permVec = normalizePermutation (filter (\<lambda>d. memShape ! d \<noteq> 1) origPermVec);
                 shapeVec = filter (\<lambda>dimSize. dimSize \<noteq> 1) memShape
             in if int (length shapeVec) < rank then Inr (permVec, shapeVec)
                else guardE (\<forall>d \<in> set permVec. d < length shapeVec) IndexOutOfBounds
                  (let merged = mergeDims permVec shapeVec rank 0 (int (length permVec))
                   in Inr (normalizePermutation (map fst merged), map snd (sort_key fst merged)))))"

section \<open>Padding to a rank\<close>

definition extendPermutationAndShape :: "nat list \<Rightarrow> int list \<Rightarrow> nat \<Rightarrow> order_error + nat list \<times> int list" where
  "extendPermutationAndShape permutation shape targetRank =
     (let padSize = targetRank - length permutation
      in if targetRank = 4 \<and> length shape = 2 then Inr ([0, 3, 2, 1], [1, shape ! 0, 1, shape ! 1])
         else if 0 < padSize then
           guardE (targetRank - padSize \<le> length shape) IndexOutOfBounds
             (Inr (map (\<lambda>i. if i < padSize then i else permutation ! (i - padSize) + padSize) [0..<targetRank],
                   map (\<lambda>i. if i < padSize then 1 else shape ! (i - padSize)) [0..<targetRank]))
         else Inr (permutation, shape))"

end
