(* ===== verification/Dims_Order_Correct.thy ===== *)
theory Dims_Order_Correct
  imports Dims_Order
begin

unbundle bit_operations_syntax

text \<open>
  Codes as digit lists: every loop of \<open>DimsOrder\<close> is a function of the digits of the code up
  to the first 0, lowest first.
\<close>

section \<open>Digits of a number\<close>

fun digitsOf :: "nat \<Rightarrow> nat \<Rightarrow> nat list" where
  "digitsOf 0 n = []"
| "digitsOf (Suc k) n = (if n mod 16 = 0 then [] else n mod 16 # digitsOf k (n div 16))"

fun digitsValue :: "nat list \<Rightarrow> nat" where
  "digitsValue [] = 0"
| "digitsValue (d # ds) = d + 16 * digitsValue ds"

definition digitsOk :: "nat list \<Rightarrow> bool" where
  "digitsOk ds \<longleftrightarrow> list_all (\<lambda>d. 0 < d \<and> d < 16) ds"

lemma digitsOk_simps [simp]: "digitsOk []" "digitsOk (d # ds) \<longleftrightarrow> 0 < d \<and> d < 16 \<and> digitsOk ds"
  "digitsOk (ds @ es) \<longleftrightarrow> digitsOk ds \<and> digitsOk es" "digitsOk (rev ds) \<longleftrightarrow> digitsOk ds"
  by (auto simp: digitsOk_def)

lemma digitsOf_ok: "digitsOk (digitsOf k n)"
  by (induction k n rule: digitsOf.induct) auto

lemma length_digitsOf: "length (digitsOf k n) \<le> k"
  by (induction k n rule: digitsOf.induct) auto

lemma digitsOf_value: "digitsOk ds \<Longrightarrow> length ds \<le> k \<Longrightarrow> digitsOf k (digitsValue ds) = ds"
proof (induction ds arbitrary: k)
  case Nil
  then show ?case by (cases k) auto
next
  case (Cons d ds)
  then show ?case by (cases k) auto
qed

lemma digitsValue_less: "digitsOk ds \<Longrightarrow> digitsValue ds < 16 ^ length ds"
  by (induction ds) auto

lemma digitsValue_append: "digitsValue (ds @ es) = digitsValue ds + 16 ^ length ds * digitsValue es"
  by (induction ds) (auto simp: algebra_simps)

text \<open>The digits a loop sees, and what it does not see.\<close>

lemma digitsOf_prefix: "digitsValue (digitsOf k n) = n mod 16 ^ length (digitsOf k n)"
proof (induction k n rule: digitsOf.induct)
  case (2 k n)
  show ?case
  proof (cases "n mod 16 = 0")
    case False
    with 2 show ?thesis by (simp add: mod_mult2_eq)
  qed simp
qed simp

lemma digitsOf_stop: "length (digitsOf k n) < k \<Longrightarrow> n div 16 ^ length (digitsOf k n) mod 16 = 0"
  by (induction k n rule: digitsOf.induct) (auto simp: div_mult2_eq split: if_splits)

section \<open>Words\<close>

lemma unat_digit: "unat (indexDigit c) = unat c mod 16"
proof -
  have "c AND 0xF = take_bit 4 c" by (simp add: take_bit_eq_mask mask_numeral)
  then have "unat (indexDigit c) = take_bit 4 (unat c)" by (simp only: indexDigit_def unsigned_take_bit_eq)
  then show ?thesis by (simp add: take_bit_eq_mod)
qed

lemma digit_zero: "indexDigit c = 0 \<longleftrightarrow> unat c mod 16 = 0"
  by (simp add: unat_digit[symmetric] unsigned_eq_0_iff)

lemma unat_shift: "unat (drop_bit k (c :: storage)) = unat c div 2 ^ k"
proof -
  have "unat (drop_bit k c) = drop_bit k (unat c)" by (rule unat_drop_bit_eq)
  then show ?thesis by (simp only: drop_bit_eq_div)
qed

lemma unat_shift_digit: "unat (drop_bit bitsPerDim (c :: storage)) = unat c div 16"
  by (simp add: unat_shift bitsPerDim_def)

lemma unat_digit_minus: "unat c mod 16 \<noteq> 0 \<Longrightarrow> unat (indexDigit c - 1) = unat c mod 16 - 1"
  by (simp add: unat_minus_one digit_zero unat_digit)

lemma word_digit_eq: "d < 16 \<Longrightarrow> indexDigit c = of_nat d \<longleftrightarrow> unat c mod 16 = d"
  by (simp add: word_unat_eq_iff unat_digit unat_of_nat)

lemma append_digit:
  fixes c d :: storage
  assumes "unat c < 2 ^ 60" "unat d < 16"
  shows "unat (push_bit bitsPerDim c OR d) = unat c * 16 + unat d"
proof -
  have "push_bit 4 c AND d = 0"
  proof (rule bit_word_eqI)
    fix n assume "n < LENGTH(64)"
    have "\<not> bit d n" if "4 \<le> n"
    proof -
      have "unat d < 2 ^ n" using assms(2) that by (meson less_le_trans one_le_numeral power_increasing[of 4 n 2, simplified])
      then show ?thesis by (metis bit_unsigned_iff div_less bit_iff_odd even_zero possible_bit_nat)
    qed
    then show "bit (push_bit 4 c AND d) n = bit (0 :: storage) n" by (auto simp: bit_simps)
  qed
  then have "push_bit 4 c OR d = push_bit 4 c + d" by (simp add: disjunctive_add_eq_or)
  moreover have "unat (push_bit 4 c) = unat c * 16"
  proof -
    have "unat (push_bit 4 c) = take_bit 64 (push_bit 4 (unat c))" by (simp only: unsigned_push_bit_eq len_num0 len_num1 len_bit0 len_bit1) simp
    also have "\<dots> = unat c * 16" using assms(1) by (simp add: take_bit_eq_mod push_bit_eq_mult)
    finally show ?thesis .
  qed
  moreover have "unat c * 16 + unat d < 2 ^ 64" using assms by simp
  ultimately show ?thesis by (simp add: bitsPerDim_def unat_add_lem[THEN iffD1])
qed

section \<open>The loops over digits\<close>

lemma countDigits_digits: "countDigits k out c = out + length (digitsOf k (unat c))"
  by (induction k out c rule: countDigits.induct) (auto simp: digit_zero unat_shift_digit)

lemma findDigit_digits: "d < 16 \<Longrightarrow> findDigit k (of_nat d) c \<longleftrightarrow> d \<in> set (digitsOf k (unat c))"
proof (induction k "of_nat d :: storage" c rule: findDigit.induct)
  case (2 k c)
  then show ?case by (auto simp: digit_zero word_digit_eq unat_shift_digit Let_def)
qed simp

lemma collectDims_digits: "collectDims k c = map (\<lambda>d. d - 1) (digitsOf k (unat c))"
  by (induction k c rule: collectDims.induct) (auto simp: digit_zero unat_digit_minus unat_shift_digit Let_def)

text \<open>The position of a digit: its first occurrence.\<close>

fun posIn :: "nat \<Rightarrow> nat list \<Rightarrow> nat" where
  "posIn x [] = 0"
| "posIn x (y # ys) = (if y = x then 0 else Suc (posIn x ys))"

lemma posIn_less: "x \<in> set xs \<Longrightarrow> posIn x xs < length xs \<and> xs ! posIn x xs = x"
  by (induction xs) auto

lemma posIn_nth: "distinct xs \<Longrightarrow> i < length xs \<Longrightarrow> posIn (xs ! i) xs = i"
proof (induction xs arbitrary: i)
  case (Cons x xs)
  then show ?case by (cases i) auto
qed simp

lemma posIn_map_Suc: "posIn (Suc x) (map Suc xs) = posIn x xs"
  by (induction xs) auto

lemma digitPos_digits:
  "d < 16 \<Longrightarrow> digitPos k i (of_nat d) c =
    (if d \<in> set (digitsOf k (unat c)) then Inr (i + posIn d (digitsOf k (unat c))) else Inl DimNotAvailable)"
proof (induction k i "of_nat d :: storage" c rule: digitPos.induct)
  case (2 k i c)
  then show ?case by (auto simp: digit_zero word_digit_eq unat_shift_digit Let_def)
qed simp

lemma digitsValue_bound: "digitsOk ds \<Longrightarrow> length ds < 16 \<Longrightarrow> digitsValue ds < 2 ^ 60"
proof -
  assume a: "digitsOk ds" "length ds < 16"
  then have "digitsValue ds < 16 ^ length ds" by (simp add: digitsValue_less)
  also have "(16 :: nat) ^ length ds \<le> 16 ^ 15" using a(2) by (intro power_increasing) auto
  finally show ?thesis by simp
qed

lemma invertLoop_digits:
  assumes "unat acc = digitsValue es" "digitsOk es" "length es + k \<le> 15"
  shows "unat (invertLoop k c acc) = digitsValue (rev (digitsOf k (unat c)) @ es)"
  using assms
proof (induction k c acc arbitrary: es rule: invertLoop.induct)
  case (2 k c acc)
  show ?case
  proof (cases "unat c mod 16 = 0")
    case False
    let ?d = "unat c mod 16"
    have "unat acc < 2 ^ 60" using 2(2-4) digitsValue_bound[of es] by simp
    then have "unat (push_bit bitsPerDim acc OR indexDigit c) = digitsValue (?d # es)"
      using 2(2) by (simp add: append_digit unat_digit)
    with 2(1)[of "indexDigit c" "?d # es"] False 2(3,4) show ?thesis
      by (simp add: digit_zero unat_shift_digit Let_def)
  qed (use 2 in \<open>simp add: digit_zero\<close>)
qed simp

lemma appendDigits_digits:
  assumes "unat c = digitsValue es" "digitsOk es" "length es + length perm \<le> 15" "list_all (\<lambda>d. d < 15) perm"
  shows "unat (fold appendDigit perm c) = digitsValue (rev (map Suc perm) @ es)"
  using assms
proof (induction perm arbitrary: c es)
  case (Cons d perm)
  have "unat c < 2 ^ 60" using Cons.prems digitsValue_bound[of es] by simp
  moreover have "unat (of_nat (d + 1) :: storage) = d + 1" using Cons.prems(4) by (subst unat_of_nat) simp
  ultimately have "unat (appendDigit d c) = digitsValue (Suc d # es)"
    using Cons.prems(1,4) append_digit[of c "of_nat (d + 1)"] by (simp add: appendDigit_def)
  with Cons.IH[of "appendDigit d c" "Suc d # es"] Cons.prems show ?case by simp
qed simp

section \<open>Orders that come from permutations\<close>

definition validPerm :: "nat list \<Rightarrow> bool" where
  "validPerm p \<longleftrightarrow> length p \<le> 15 \<and> distinct p \<and> set p \<subseteq> {..<length p}"

definition orderFor :: "nat list \<Rightarrow> dims_order" where
  "orderFor p = mkOrder (fold appendDigit p 0)"

lemma validPerm_small: "validPerm p \<Longrightarrow> list_all (\<lambda>d. d < 15) p"
  by (force simp: validPerm_def list_all_iff)

lemma validPerm_set: "validPerm p \<Longrightarrow> set p = {..<length p}"
  by (intro card_subset_eq) (auto simp: validPerm_def distinct_card)

lemma digitsOk_Suc: "list_all (\<lambda>d. d < 15) p \<Longrightarrow> digitsOk (map Suc p)"
  by (induction p) auto

lemma orderFor_digits:
  assumes "validPerm p"
  shows "unat (code (orderFor p)) = digitsValue (rev (map Suc p))"
    and "unat (invertedCode (orderFor p)) = digitsValue (map Suc p)"
    and "digitsOf 15 (unat (code (orderFor p))) = rev (map Suc p)"
    and "digitsOf 15 (unat (invertedCode (orderFor p))) = map Suc p"
proof -
  have ok: "digitsOk (map Suc p)" by (rule digitsOk_Suc[OF validPerm_small[OF assms]])
  have len: "length p \<le> 15" using assms by (simp add: validPerm_def)
  show c: "unat (code (orderFor p)) = digitsValue (rev (map Suc p))"
    using appendDigits_digits[of 0 "[]" p] validPerm_small[OF assms] len by (simp add: orderFor_def mkOrder_def)
  show d: "digitsOf 15 (unat (code (orderFor p))) = rev (map Suc p)"
    unfolding c using ok len by (intro digitsOf_value) auto
  have "unat (invertedCode (orderFor p)) = digitsValue (rev (digitsOf 15 (unat (code (orderFor p)))) @ [])"
    using invertLoop_digits[of 0 "[]" 15 "fold appendDigit p 0"] by (simp add: orderFor_def mkOrder_def maxNumDims_def)
  then show i: "unat (invertedCode (orderFor p)) = digitsValue (map Suc p)" by (simp add: d)
  show "digitsOf 15 (unat (invertedCode (orderFor p))) = map Suc p"
    unfolding i using ok len by (intro digitsOf_value) auto
qed

lemma checkPermutation_iff:
  assumes "n \<le> 15" "length used = 15"
  shows "checkPermutation n perm used = Inr () \<longleftrightarrow>
    list_all (\<lambda>d. d < n \<and> \<not> used ! d) perm \<and> distinct perm"
  using assms(2)
proof (induction perm arbitrary: used)
  case (Cons d perm)
  have "list_all (\<lambda>e. e < n \<and> \<not> used[d := True] ! e) perm \<longleftrightarrow> list_all (\<lambda>e. e < n \<and> \<not> used ! e) perm \<and> d \<notin> set perm"
    if "d < n" using that Cons.prems assms(1) by (auto simp: list_all_iff nth_list_update split: if_splits)
  with Cons.IH[of "used[d := True]"] Cons.prems assms(1) show ?case
    by (auto simp: guardE_Inr maxDimInd_def)
qed simp

lemma validatePermutation_iff:
  "length perm \<le> 15 \<Longrightarrow> validatePermutation perm = Inr () \<longleftrightarrow> validPerm perm"
  by (auto simp: validatePermutation_def checkPermutation_iff validPerm_def list_all_iff maxNumDims_def)

lemma fromPermutation_valid: "validPerm p \<Longrightarrow> fromPermutation p = Inr (orderFor p)"
proof -
  assume v: "validPerm p"
  then have "validatePermutation p = Inr ()" by (simp add: validatePermutation_iff validPerm_def)
  then show ?thesis by (simp add: fromPermutation_def getCodeFromPermutation_def orderFor_def)
qed

lemma toPermutation_orderFor [simp]: "validPerm p \<Longrightarrow> toPermutation (orderFor p) = p"
  by (simp add: toPermutation_def maxNumDims_def collectDims_digits orderFor_digits(4) o_def)

lemma numDims_orderFor [simp]: "validPerm p \<Longrightarrow> numDims (orderFor p) = length p"
  by (simp add: numDims_def maxNumDims_def countDigits_digits orderFor_digits(3))

lemma hasDim_orderFor: "validPerm p \<Longrightarrow> d < 15 \<Longrightarrow> hasDim d (orderFor p) \<longleftrightarrow> d < length p"
proof -
  assume v: "validPerm p" "d < 15"
  have "hasDim d (orderFor p) = findDigit 15 (of_nat (Suc d)) (code (orderFor p))"
    by (simp add: hasDim_def maxNumDims_def add.commute)
  also have "\<dots> \<longleftrightarrow> d \<in> set p" using v by (subst findDigit_digits) (auto simp: orderFor_digits(3))
  finally show ?thesis by (simp add: validPerm_set[OF v(1)])
qed

lemma dimPos_orderFor:
  "validPerm p \<Longrightarrow> d < 15 \<Longrightarrow> dimPos d (orderFor p) = (if d < length p then Inr (posIn d p) else Inl DimNotAvailable)"
proof -
  assume v: "validPerm p" "d < 15"
  have "dimPos d (orderFor p) = digitPos 15 0 (of_nat (Suc d)) (invertedCode (orderFor p))"
    by (simp add: dimPos_def maxNumDims_def add.commute)
  also have "\<dots> = (if d \<in> set p then Inr (posIn d p) else Inl DimNotAvailable)"
    using v by (subst digitPos_digits) (auto simp: orderFor_digits(4) posIn_map_Suc)
  finally show ?thesis by (simp add: validPerm_set[OF v(1)])
qed

lemma digitsValue_nth: "digitsOk ds \<Longrightarrow> digitsValue ds div 16 ^ i mod 16 = (if i < length ds then ds ! i else 0)"
proof (induction ds arbitrary: i)
  case (Cons d ds)
  then show ?case by (cases i) (auto simp: div_mult2_eq)
qed simp

lemma dimAt_orderFor:
  assumes "validPerm p" "i < 16"
  shows "dimAt i (orderFor p) = (if i < length p then Inr (p ! i) else Inl NoDimAtPos)"
proof -
  let ?w = "drop_bit (i * bitsPerDim) (invertedCode (orderFor p))"
  have ok: "digitsOk (map Suc p)" by (rule digitsOk_Suc[OF validPerm_small[OF assms(1)]])
  have "(2 :: nat) ^ (i * 4) = 16 ^ i" by (subst mult.commute) (simp add: power_mult)
  then have w: "unat ?w mod 16 = (if i < length p then Suc (p ! i) else 0)"
    using digitsValue_nth[OF ok, of i] by (simp add: unat_shift bitsPerDim_def orderFor_digits(2)[OF assms(1)])
  have "p ! i < 15" if "i < length p" using that validPerm_small[OF assms(1)] by (simp add: list_all_length)
  then show ?thesis using assms(2) w
    by (auto simp: dimAt_def guardE_def Let_def unat_digit_minus word_gt_0 digit_zero mkDim_def maxNumDims_def bitsPerDim_def)
qed

end
