(* ===== verification/Permute_Correct.thy ===== *)
theory Permute_Correct
  imports Permute_Utils Dims_Order_Correct
begin

text \<open>
  Validation of codes, values in memory and logical order, and the operations on permutations,
  stated over the permutation an order stands for.
\<close>

section \<open>Loops that fill vectors\<close>

lemma foldE_collect:
  "(\<And>x. x \<in> set xs \<Longrightarrow> f x = Inr (g x)) \<Longrightarrow>
    foldE (\<lambda>x out. bindE (f x) (\<lambda>v. Inr (out @ [v]))) xs out = Inr (out @ map g xs)"
  by (induction xs arbitrary: out) auto

lemma foldE_fill:
  assumes "\<And>i out. i < n \<Longrightarrow> length out = n \<Longrightarrow> f i out = Inr (out[i := g i])" "length xs = n" "k \<le> n"
  shows "foldE f [0..<k] xs = Inr (map g [0..<k] @ drop k xs)"
  using assms(3)
proof (induction k)
  case (Suc k)
  then have "foldE f [0..<Suc k] xs = f k (map g [0..<k] @ drop k xs)" by (simp add: foldE_append bindE_def split: sum.splits)
  also have "\<dots> = Inr ((map g [0..<k] @ drop k xs)[k := g k])" using Suc.prems assms(1,2) by simp
  finally show ?case using Suc.prems assms(2) Cons_nth_drop_Suc[of k xs, symmetric] by (simp add: list_update_append)
qed simp

lemma foldE_enumerate:
  assumes "\<And>i d out. d \<in> set ds \<Longrightarrow> i < length xs \<Longrightarrow> length out = length xs \<Longrightarrow> f (i, d) out = Inr (out[i := g d])"
    and "k + length ds = length xs"
  shows "foldE f (enumerate k ds) xs = Inr (take k xs @ map g ds)"
  using assms
proof (induction ds arbitrary: k xs)
  case (Cons d ds)
  let ?ys = "xs[k := g d]"
  have "foldE f (enumerate (Suc k) ds) ?ys = Inr (take (Suc k) ?ys @ map g ds)"
    by (rule Cons.IH) (use Cons.prems in auto)
  moreover have "take (Suc k) ?ys = take k xs @ [g d]" using Cons.prems(2) by (simp add: take_Suc_conv_app_nth)
  ultimately show ?case using Cons.prems by simp
qed simp

section \<open>Validation of codes\<close>

definition markDims :: "nat list \<Rightarrow> bool list \<Rightarrow> bool list" where
  "markDims ds used = fold (\<lambda>d u. u[d - 1 := True]) ds used"

lemma length_markDims [simp]: "length (markDims ds used) = length used"
  by (induction ds arbitrary: used) (auto simp: markDims_def)

lemma markDims_nth: "i < length used \<Longrightarrow> digitsOk ds \<Longrightarrow> markDims ds used ! i \<longleftrightarrow> used ! i \<or> Suc i \<in> set ds"
proof (induction ds arbitrary: used)
  case (Cons d ds)
  have "used[d - 1 := True] ! i \<longleftrightarrow> used ! i \<or> i = d - 1" using Cons.prems(1) by (cases "i = d - 1") auto
  with Cons.IH[of "used[d - 1 := True]"] Cons.prems show ?case by (cases d) (auto simp: markDims_def)
qed (simp add: markDims_def)

lemma usedDims_digits:
  assumes "length used = 15"
  shows "usedDims k n c used =
    (if distinct (digitsOf k (unat c)) \<and> (\<forall>d \<in> set (digitsOf k (unat c)). \<not> used ! (d - 1))
     then Inr (n + length (digitsOf k (unat c)), markDims (digitsOf k (unat c)) used) else Inl DimUsedTwice)"
  using assms
proof (induction k n c used rule: usedDims.induct)
  case (2 k n c used)
  show ?case
  proof (cases "unat c mod 16 = 0")
    case False
    let ?d = "unat c mod 16" and ?ds = "digitsOf k (unat c div 16)"
    have u: "used[?d - 1 := True] ! (e - 1) \<longleftrightarrow> used ! (e - 1) \<or> e = ?d" if "e \<in> set ?ds" for e
    proof -
      have "0 < e \<and> e < 16" using digitsOf_ok[of k "unat c div 16"] that by (auto simp: digitsOk_def list_all_iff)
      moreover have "?d < 16" by simp
      ultimately show ?thesis using False 2(2) by (auto simp: nth_list_update)
    qed
    show ?thesis using 2(1)[of "indexDigit c" "?d - 1"] False 2(2) u
      by (auto simp: digit_zero unat_digit_minus unat_shift_digit Let_def guardE_def markDims_def)
  qed (simp add: digit_zero markDims_def)
qed (simp add: markDims_def)

text \<open>The range check never fires: the dimensions it looks at are the first ones.\<close>

lemma checkRange_never_throws:
  assumes "card {i. i < 15 \<and> used ! i} \<le> n" "\<And>i. i < j \<Longrightarrow> used ! i" "j \<le> 15"
  shows "checkRange [j..<15] used n = Inr ()"
  using assms(2,3)
proof (induction "15 - j" arbitrary: j)
  case (Suc m)
  then have j: "j < 15" by simp
  show ?case
  proof (cases "used ! j")
    case True
    have "{..j} \<subseteq> {i. i < 15 \<and> used ! i}" using Suc.prems(1) True j by (auto simp: le_less)
    then have "card {..j} \<le> card {i. i < 15 \<and> used ! i}" by (intro card_mono) auto
    then have "j < n" using assms(1) by simp
    moreover have "checkRange [Suc j..<15] used n = Inr ()"
      by (rule Suc.hyps(1)) (use Suc.hyps(2) Suc.prems True j in \<open>auto simp: less_Suc_eq\<close>)
    ultimately show ?thesis using True j by (simp add: upt_conv_Cons)
  qed (use j in \<open>simp add: upt_conv_Cons\<close>)
qed simp

lemma checkTail_iff: "checkTail k c = Inr () \<longleftrightarrow> unat c mod 16 ^ k = 0"
proof (induction k c rule: checkTail.induct)
  case (2 k c)
  have "unat c mod 16 ^ Suc k = 0 \<longleftrightarrow> unat c mod 16 = 0 \<and> unat c div 16 mod 16 ^ k = 0"
    by (auto simp: mod_mult2_eq)
  then show ?case using 2 by (simp add: guardE_Inr digit_zero unat_shift_digit)
qed simp

lemma validateCode_iff:
  "validateCode c = Inr () \<longleftrightarrow> distinct (digitsOf 15 (unat c)) \<and>
    unat c div 16 ^ length (digitsOf 15 (unat c)) mod 16 ^ (15 - length (digitsOf 15 (unat c))) = 0"
proof -
  let ?ds = "digitsOf 15 (unat c)" and ?none = "replicate 15 False :: bool list"
  have ok: "digitsOk ?ds" by (rule digitsOf_ok)
  then have "\<not> ?none ! (d - 1)" if "d \<in> set ?ds" for d using that by (force simp: digitsOk_def list_all_iff)
  then have u: "usedDims 15 0 c ?none =
      (if distinct ?ds then Inr (length ?ds, markDims ?ds ?none) else Inl DimUsedTwice)"
    by (simp add: usedDims_digits)
  have "{i. i < 15 \<and> markDims ?ds ?none ! i} \<subseteq> (\<lambda>d. d - 1) ` set ?ds"
    using ok by (force simp: markDims_nth)
  then have "card {i. i < 15 \<and> markDims ?ds ?none ! i} \<le> card (set ?ds)"
    by (meson List.finite_set card_image_le card_mono finite_imageI le_trans)
  then have "checkRange [0..<15] (markDims ?ds ?none) (length ?ds) = Inr ()"
    by (intro checkRange_never_throws) (use card_length le_trans in blast)+
  then show ?thesis
    by (simp add: validateCode_def maxNumDims_def u checkTail_iff unat_shift bitsPerDim_def power_mult)
qed

lemma fromCode_orderFor:
  assumes "validPerm p"
  shows "fromCode (code (orderFor p)) = Inr (orderFor p)"
proof -
  have ok: "digitsOk (rev (map Suc p))" using digitsOk_Suc[OF validPerm_small[OF assms]] by simp
  have "unat (code (orderFor p)) < 16 ^ length p"
    using digitsValue_less[OF ok] by (simp add: orderFor_digits(1)[OF assms])
  then have "validateCode (code (orderFor p)) = Inr ()"
    using assms by (simp add: validateCode_iff orderFor_digits(3)[OF assms] validPerm_def distinct_map)
  then show ?thesis by (simp add: fromCode_def) (simp add: orderFor_def mkOrder_def)
qed

section \<open>Positions and values\<close>

lemma posIn_valid: "validPerm p \<Longrightarrow> d < length p \<Longrightarrow> posIn d p < length p \<and> p ! posIn d p = d"
  using posIn_less[of d p] validPerm_set[of p] by auto

lemma posIn_valid_nth: "validPerm p \<Longrightarrow> i < length p \<Longrightarrow> posIn (p ! i) p = i"
  using posIn_nth[of p i] by (simp add: validPerm_def)

lemma toMemDim_orderFor:
  assumes "validPerm p" "d < length p"
  shows "toMemDim d (orderFor p) = Inr (posIn d p)"
proof -
  have l: "length p \<le> 15" using assms(1) by (simp add: validPerm_def)
  then have "dimPos d (orderFor p) = Inr (posIn d p)" using dimPos_orderFor[OF assms(1), of d] assms(2) by simp
  then show ?thesis using posIn_valid[OF assms] l by (simp add: toMemDim_def mkDim_def maxNumDims_def)
qed

lemma toMemoryOrder_orderFor:
  "validPerm p \<Longrightarrow> toMemoryOrder values (orderFor p) =
    (if length values = length p then Inr (map (\<lambda>d. values ! d) p) else Inl SizeMismatch)"
  by (auto simp: toMemoryOrder_def validPerm_set guardE_def)

lemma toLogicalOrder_orderFor:
  assumes "validPerm p"
  shows "toLogicalOrder values (orderFor p) =
    (if length values = length p then Inr (map (\<lambda>d. values ! posIn d p) [0..<length p]) else Inl SizeMismatch)"
proof (cases "length values = length p")
  case True
  have l: "length p \<le> 15" using assms by (simp add: validPerm_def)
  have "valueOfDim values (orderFor p) d = Inr (values ! posIn d p)" if "d \<in> set [0..<length p]" for d
    using that l True posIn_valid[OF assms, of d] toMemDim_orderFor[OF assms, of d]
    by (simp add: valueOfDim_def mkDim_def maxNumDims_def)
  then have "foldE (\<lambda>d out. bindE (valueOfDim values (orderFor p) d) (\<lambda>v. Inr (out @ [v]))) [0..<length p] [] =
      Inr ([] @ map (\<lambda>d. values ! posIn d p) [0..<length p])" by (rule foldE_collect)
  with True assms show ?thesis by (simp add: toLogicalOrder_def)
qed (use assms in \<open>simp add: toLogicalOrder_def\<close>)

section \<open>Permutation maps\<close>

text \<open>What the conversions rely on: permutation maps read back the positions they are made from.\<close>

definition affineLaws :: "'m affine_maps \<Rightarrow> bool" where
  "affineLaws A \<longleftrightarrow> (\<forall>p. validPerm p \<longrightarrow> isPermutation A (getPermutationMap A p) \<and> resultPositions A (getPermutationMap A p) = p)"

lemma mkDims_small: "list_all (\<lambda>d. d < 15) p \<Longrightarrow> mkDims p = Inr p"
  by (induction p) (auto simp: mkDim_def maxNumDims_def)

lemma fromAffineMap_perm:
  "affineLaws A \<Longrightarrow> validPerm p \<Longrightarrow> fromAffineMap A (getPermutationMap A p) = Inr (orderFor p)"
  by (simp add: fromAffineMap_def affineLaws_def mkDims_small validPerm_small fromPermutation_valid)

lemma applyPerm_perm:
  assumes "affineLaws A" "validPerm p"
  shows "applyPerm A shape (getPermutationMap A p) =
    (if length shape = length p then Inr (map (\<lambda>d. shape ! d) p) else Inl SizeMismatch)"
proof (cases "length shape = length p")
  case True
  have l: "length p \<le> 15" using assms(2) by (simp add: validPerm_def)
  have "permStep shape (orderFor p) i out = Inr (out[i := shape ! (p ! i)])" if "i < length p" for i out
  proof -
    have "p ! i < length p" using that validPerm_set[OF assms(2)] nth_mem[OF that] by auto
    then show ?thesis using that l dimAt_orderFor[OF assms(2), of i] True
      by (simp add: permStep_def mkDim_def maxNumDims_def)
  qed
  then have "foldE (permStep shape (orderFor p)) [0..<length p] (replicate (length p) 0) =
      Inr (map (\<lambda>i. shape ! (p ! i)) [0..<length p] @ drop (length p) (replicate (length p) 0))"
    by (intro foldE_fill[of "length p"]) auto
  moreover have "map (\<lambda>i. shape ! (p ! i)) [0..<length p] = map (\<lambda>d. shape ! d) p" by (rule nth_equalityI) simp_all
  ultimately show ?thesis using True by (simp add: applyPerm_def fromAffineMap_perm[OF assms] assms(2))
qed (simp add: applyPerm_def fromAffineMap_perm[OF assms] assms(2))

lemma between_orders:
  assumes "validPerm p" "validPerm q" "length p = length q"
  shows "getPermutationFromOrders A (orderFor p) (orderFor q) = Inr (getPermutationMap A (map (\<lambda>d. posIn d p) q))"
    and "validPerm (map (\<lambda>d. posIn d p) q)"
proof -
  have l: "length p \<le> 15" using assms(1) by (simp add: validPerm_def)
  have d: "d < length p" if "d \<in> set q" for d using that validPerm_set[OF assms(2)] assms(3) by auto
  have "memPermStep (orderFor p) (i, e) out = Inr (out[i := posIn e p])" if "e \<in> set q" "i < length p" "length out = length p" for i e out
    using that d[of e] l dimPos_orderFor[OF assms(1), of e] by (simp add: memPermStep_def)
  then have "foldE (memPermStep (orderFor p)) (enumerate 0 q) (replicate (length p) 0) =
      Inr (take 0 (replicate (length p) 0) @ map (\<lambda>d. posIn d p) q)"
    by (intro foldE_enumerate) (use assms(3) in auto)
  then show "getPermutationFromOrders A (orderFor p) (orderFor q) = Inr (getPermutationMap A (map (\<lambda>d. posIn d p) q))"
    by (simp add: getPermutationFromOrders_def assms)
  have "inj_on (\<lambda>d. posIn d p) (set q)" by (rule inj_onI) (metis d posIn_valid[OF assms(1)])
  then show "validPerm (map (\<lambda>d. posIn d p) q)"
    using assms d posIn_valid[OF assms(1)] by (auto simp: validPerm_def distinct_map)
qed

end
