(* ===== verification/Permute_Merge.thy ===== *)
theory Permute_Merge
  imports Permute_Correct "HOL-Library.Multiset"
begin

text \<open>
  \<open>getMergedPermutationAndShape\<close>: normalisation gives the ranks, and merging runs of
  dimensions keeps the number of elements and does not go below the wanted rank by more than one.
\<close>

section \<open>Normalisation\<close>

lemma firstIndex_less: "x \<in> set xs \<Longrightarrow> firstIndex x xs < length xs \<and> xs ! firstIndex x xs = x"
  by (induction xs) (auto simp: firstIndex_def)

lemma length_normalize [simp]: "length (normalizePermutation vec) = length vec"
  by (simp add: normalizePermutation_def)

lemma normalize_valid:
  assumes "distinct vec"
  shows "distinct (normalizePermutation vec)" "set (normalizePermutation vec) = {..<length vec}"
proof -
  have f: "firstIndex x (sort vec) < length vec \<and> sort vec ! firstIndex x (sort vec) = x" if "x \<in> set vec" for x
    using firstIndex_less[of x "sort vec"] that by simp
  have "inj_on (\<lambda>x. firstIndex x (sort vec)) (set vec)" by (rule inj_onI) (metis f)
  with assms show d: "distinct (normalizePermutation vec)"
    by (simp add: normalizePermutation_def distinct_map)
  moreover have "set (normalizePermutation vec) \<subseteq> {..<length vec}" using f by (auto simp: normalizePermutation_def)
  ultimately show "set (normalizePermutation vec) = {..<length vec}"
    by (intro card_subset_eq) (auto simp: distinct_card)
qed

section \<open>Runs\<close>

lemma mergeRun_spec:
  "mergeRun pv sv rank j sz r = (j', sz', r') \<Longrightarrow>
    j \<le> j' \<and> (j \<le> length pv \<longrightarrow> j' \<le> length pv) \<and> sz' = sz * (\<Prod>k \<in> {j..<j'}. sv ! (pv ! k)) \<and>
    r' = r - int (j' - j) \<and> (j' = j \<or> rank - 1 \<le> r')"
proof (induction pv sv rank j sz r rule: mergeRun.induct)
  case (1 pv sv rank j sz r)
  show ?case
  proof (cases "j < length pv \<and> pv ! (j - 1) + 1 = pv ! j \<and> \<not> r < rank")
    case True
    then have m: "mergeRun pv sv rank (j + 1) (sz * sv ! (pv ! j)) (r - 1) = (j', sz', r')"
      using "1.prems" by (subst (asm) mergeRun.simps) auto
    note ih = "1.IH"[OF True m]
    have "{j..<j'} = insert j {j + 1..<j'}" using ih by auto
    then have "(\<Prod>k \<in> {j..<j'}. sv ! (pv ! k)) = sv ! (pv ! j) * (\<Prod>k \<in> {j + 1..<j'}. sv ! (pv ! k))" by simp
    with ih True show ?thesis by (auto simp: mult.assoc)
  next
    case False
    then have "(j', sz', r') = (j, sz, r)" using "1.prems" by (subst (asm) mergeRun.simps) auto
    then show ?thesis by simp
  qed
qed

lemma mergeDims_spec:
  "i \<le> length pv \<Longrightarrow> distinct pv \<Longrightarrow>
    prod_list (map snd (mergeDims pv sv rank i r)) = (\<Prod>k \<in> {i..<length pv}. sv ! (pv ! k)) \<and>
    distinct (map fst (mergeDims pv sv rank i r)) \<and> set (map fst (mergeDims pv sv rank i r)) \<subseteq> set (drop i pv) \<and>
    int (length pv) - int i - max 0 (r - rank + 1) \<le> int (length (mergeDims pv sv rank i r))"
proof (induction pv sv rank i r rule: mergeDims.induct)
  case (1 pv sv rank i r)
  show ?case
  proof (cases "i < length pv")
    case True
    obtain j sz r' where m: "mergeRun pv sv rank (i + 1) (sv ! (pv ! i)) r = (j, sz, r')" by (metis prod_cases3)
    note s = mergeRun_spec[OF m]
    have j: "i < j" "j \<le> length pv" using s True by auto
    from "1.IH"[OF True m[symmetric] refl j(2) "1.prems"(2)]
    have ih: "prod_list (map snd (mergeDims pv sv rank j r')) = (\<Prod>k \<in> {j..<length pv}. sv ! (pv ! k))"
      "distinct (map fst (mergeDims pv sv rank j r'))" "set (map fst (mergeDims pv sv rank j r')) \<subseteq> set (drop j pv)"
      "int (length pv) - int j - max 0 (r' - rank + 1) \<le> int (length (mergeDims pv sv rank j r'))" by auto
    have eq: "mergeDims pv sv rank i r = (pv ! i, sz) # mergeDims pv sv rank j r'"
      using True m by (subst mergeDims.simps) simp
    have "{i..<length pv} = insert i ({i + 1..<j} \<union> {j..<length pv})" using j by auto
    then have "(\<Prod>k \<in> {i..<length pv}. sv ! (pv ! k)) =
        sv ! (pv ! i) * ((\<Prod>k \<in> {i + 1..<j}. sv ! (pv ! k)) * (\<Prod>k \<in> {j..<length pv}. sv ! (pv ! k)))"
      using j by (simp add: prod.union_disjoint)
    moreover have "sz = sv ! (pv ! i) * (\<Prod>k \<in> {i + 1..<j}. sv ! (pv ! k))" using s by blast
    ultimately have p: "prod_list (map snd (mergeDims pv sv rank i r)) = (\<Prod>k \<in> {i..<length pv}. sv ! (pv ! k))"
      by (simp add: eq ih(1) mult.assoc)
    have sub: "set (drop j pv) \<subseteq> set (drop (i + 1) pv)" using j by (simp add: set_drop_subset_set_drop)
    have d: "drop i pv = pv ! i # drop (i + 1) pv" using True by (simp add: Cons_nth_drop_Suc)
    have "distinct (drop i pv)" using "1.prems"(2) by simp
    then have "pv ! i \<notin> set (drop (i + 1) pv)" by (simp add: d)
    then have k: "distinct (map fst (mergeDims pv sv rank i r))" "set (map fst (mergeDims pv sv rank i r)) \<subseteq> set (drop i pv)"
      using ih(2,3) sub by (auto simp: eq d)
    have "int (length pv) - int i - max 0 (r - rank + 1) \<le> int (length (mergeDims pv sv rank i r))"
      using ih(4) s j by (auto simp: eq max_def split: if_splits)
    with p k show ?thesis by blast
  qed (subst (1 2 3 4) mergeDims.simps, use "1.prems" in simp)
qed

section \<open>The result\<close>

lemma prod_list_filter_one: "prod_list (filter (\<lambda>x. x \<noteq> 1) xs) = prod_list (xs :: int list)"
  by (induction xs) auto

lemma prod_over_perm:
  assumes "distinct p" "set p = {..<length p}" "length xs = length p"
  shows "(\<Prod>k \<in> {0..<length p}. xs ! (p ! k)) = prod_list (xs :: int list)"
proof -
  have "bij_betw (\<lambda>k. p ! k) {0..<length p} {..<length p}"
    using bij_betw_nth[OF assms(1), of "{0..<length p}" "set p"] assms(2) by (simp add: atLeast0LessThan)
  then have "(\<Prod>k \<in> {0..<length p}. xs ! (p ! k)) = (\<Prod>k \<in> {..<length p}. xs ! k)"
    by (rule prod.reindex_bij_betw)
  then show ?thesis using assms(3) by (simp add: prod.list_conv_set_nth atLeast0LessThan)
qed

lemma length_nontrivial:
  assumes "validPerm p" "length shape = length p"
  shows "length (filter (\<lambda>d. shape ! d \<noteq> (1 :: int)) p) = length (filter (\<lambda>x. x \<noteq> 1) shape)"
proof -
  have "length (filter (\<lambda>d. shape ! d \<noteq> 1) p) = card (set (filter (\<lambda>d. shape ! d \<noteq> 1) p))"
    by (rule distinct_card[symmetric]) (use assms(1) in \<open>simp add: validPerm_def\<close>)
  also have "set (filter (\<lambda>d. shape ! d \<noteq> 1) p) = {d. d < length shape \<and> shape ! d \<noteq> 1}"
    using validPerm_set[OF assms(1)] assms(2) by auto
  finally show ?thesis by (simp add: length_filter_conv_card)
qed

lemma getMerged_spec:
  assumes "affineLaws A" "validPerm p" "length shape = length p"
  obtains p' shape' where "getMergedPermutationAndShape A shape (getPermutationMap A p) rank = Inr (p', shape')"
    "length p' = length shape'" "distinct p'" "set p' = {..<length p'}" "prod_list shape' = prod_list shape"
    "rank - 1 \<le> int (length shape') \<or> length shape' = length (filter (\<lambda>x. x \<noteq> 1) shape)"
proof -
  let ?f = "filter (\<lambda>d. shape ! d \<noteq> 1) p" and ?sv = "filter (\<lambda>x. x \<noteq> 1) shape"
  let ?pv = "normalizePermutation ?f"
  have len: "length ?pv = length ?sv" using length_nontrivial[OF assms(2,3)] by simp
  have "distinct ?f" using assms(2) by (simp add: validPerm_def)
  note pv = normalize_valid[OF this]
  have pv_set: "set ?pv = {..<length ?pv}" using pv(2) by simp
  have in_range: "\<forall>d \<in> set p. d < length shape" using validPerm_set[OF assms(2)] assms(3) by auto
  have pv_range: "\<forall>d \<in> set ?pv. d < length ?sv" unfolding pv_set len by simp
  have start: "getMergedPermutationAndShape A shape (getPermutationMap A p) rank =
    (if int (length ?sv) < rank then Inr (?pv, ?sv)
     else let merged = mergeDims ?pv ?sv rank 0 (int (length ?pv))
          in Inr (normalizePermutation (map fst merged), map snd (sort_key fst merged)))"
    using in_range pv_range
    by (simp add: getMergedPermutationAndShape_def fromAffineMap_perm[OF assms(1,2)] assms(2) Let_def del: length_normalize)
  show thesis
  proof (cases "int (length ?sv) < rank")
    case True
    with start that[of ?pv ?sv] pv(1) pv_set len show thesis by (simp add: prod_list_filter_one)
  next
    case False
    let ?m = "mergeDims ?pv ?sv rank 0 (int (length ?pv))"
    from mergeDims_spec[OF _ pv(1), of 0 ?sv rank "int (length ?pv)"] have m:
      "prod_list (map snd ?m) = (\<Prod>k \<in> {0..<length ?pv}. ?sv ! (?pv ! k))" "distinct (map fst ?m)"
      "int (length ?pv) - max 0 (int (length ?pv) - rank + 1) \<le> int (length ?m)" by simp_all
    have "prod_list (map snd (sort_key fst ?m)) = prod_mset (mset (map snd ?m))"
      by (simp flip: prod_mset_prod_list)
    also have "\<dots> = prod_list (map snd ?m)" by (simp only: prod_mset_prod_list)
    also have "\<dots> = prod_list shape"
      using m(1) prod_over_perm[OF pv(1) pv_set len[symmetric]] by (simp add: prod_list_filter_one)
    finally have "prod_list (map snd (sort_key fst ?m)) = prod_list shape" .
    moreover have "rank - 1 \<le> int (length ?m)" using m(3) False len by (simp add: max_def split: if_splits)
    ultimately show thesis
      using that[of "normalizePermutation (map fst ?m)" "map snd (sort_key fst ?m)"] start False normalize_valid[OF m(2)]
      by (simp add: Let_def)
  qed
qed

end
