(* ===== verification/Layout_Properties.thy ===== *)
theory Layout_Properties
  imports Permute_Merge
begin

text \<open>The properties of dimension orders and of the operations on permutations.\<close>

section \<open>Examples\<close>

text \<open>The layout NHWC, the order CN and a model of permutation maps by their result positions.\<close>

lemma nhwc_valid: "validPerm [0, 2, 3, 1]" "validPerm [0, 1, 2, 3]"
  by (simp_all add: validPerm_def)

definition listMaps :: "nat list affine_maps" where
  "listMaps = \<lparr>isPermutation = (\<lambda>p. distinct p), resultPositions = (\<lambda>p. p), getPermutationMap = (\<lambda>p. p), emptyMap = []\<rparr>"

lemma listMaps_laws: "affineLaws listMaps"
  by (simp add: affineLaws_def listMaps_def validPerm_def)

section \<open>Orders\<close>

text \<open>
  C25: A permutation of up to 15 dimensions survives packing into a code: the order it gives
  reads back as the permutation, and its code is accepted and gives the same order. Every other
  list of up to 15 dimensions is rejected.
\<close>

theorem dimsOrder_roundtrip:
  assumes "length p \<le> 15"
  shows "(if distinct p \<and> set p \<subseteq> {..<length p}
    then (\<exists>order. fromPermutation p = Inr order \<and> toPermutation order = p \<and> numDims order = length p \<and> fromCode (code order) = Inr order)
    else isl (fromPermutation p))"
proof (cases "validPerm p")
  case True
  then show ?thesis using fromCode_orderFor[OF True] fromPermutation_valid[OF True] by (simp add: validPerm_def)
next
  case False
  with assms have "validatePermutation p \<noteq> Inr ()" by (simp add: validatePermutation_iff)
  then have "isl (validatePermutation p)" by (cases "validatePermutation p") auto
  then have "isl (fromPermutation p)"
    by (cases "validatePermutation p") (auto simp: fromPermutation_def getCodeFromPermutation_def)
  moreover have "\<not> (distinct p \<and> set p \<subseteq> {..<length p})" using False assms by (simp add: validPerm_def)
  ultimately show ?thesis by (simp only: if_False)
qed

theorem dimsOrder_roundtrip_witness:
  "\<exists>order. fromPermutation [0, 2, 3, 1] = Inr order \<and> toPermutation order = [0, 2, 3, 1] \<and> fromCode (code order) = Inr order"
  using dimsOrder_roundtrip[of "[0, 2, 3, 1]"] nhwc_valid(1) unfolding validPerm_def by auto

text \<open>
  C26: \<open>validateCode\<close> accepts a code exactly when its digits up to the first 0 are distinct and
  the digits from there to the fifteenth are 0: the highest digit of the word and the range of
  the digits are not checked.
\<close>

theorem validateCode_exact:
  "validateCode c = Inr () \<longleftrightarrow> distinct (digitsOf 15 (unat c)) \<and>
    unat c div 16 ^ length (digitsOf 15 (unat c)) mod 16 ^ (15 - length (digitsOf 15 (unat c))) = 0"
  by (rule validateCode_iff)

text \<open>Two codes of no permutation that are accepted.\<close>

lemma validateCode_gap: "validateCode 0x13 = Inr ()" "toPermutation (mkOrder 0x13) = [0, 2]"
  by code_simp+

lemma validateCode_high: "validateCode 0x1000000000000001 = Inr ()" "toPermutation (mkOrder 0x1000000000000001) = [0]"
  by code_simp+

text \<open>
  C27: \<open>dimPos\<close> and \<open>dimAt\<close> of the order of a permutation are inverse to each other, and
  throw exactly outside the dimensions of the order.
\<close>

theorem dimPos_dimAt:
  assumes "fromPermutation p = Inr order" "length p \<le> 15" "d < 15" "i < 16"
  shows "(dimPos d order = Inr i \<longleftrightarrow> dimAt i order = Inr d) \<and>
    (isl (dimPos d order) \<longleftrightarrow> length p \<le> d) \<and> (isl (dimAt i order) \<longleftrightarrow> length p \<le> i) \<and> (hasDim d order \<longleftrightarrow> d < length p)"
proof -
  have v: "validPerm p"
  proof -
    have "validatePermutation p = Inr ()"
      using assms(1) by (cases "validatePermutation p") (auto simp: fromPermutation_def getCodeFromPermutation_def)
    then show ?thesis by (simp add: validatePermutation_iff[OF assms(2)])
  qed
  then have o: "order = orderFor p" using assms(1) fromPermutation_valid by simp
  have "d < length p \<Longrightarrow> posIn d p = i \<longleftrightarrow> i < length p \<and> p ! i = d"
    using posIn_valid[OF v, of d] posIn_valid_nth[OF v, of i] by auto
  moreover have "i < length p \<Longrightarrow> p ! i = d \<Longrightarrow> d < length p" using validPerm_set[OF v] nth_mem[of i p] by auto
  ultimately show ?thesis
    using dimPos_orderFor[OF v assms(3)] dimAt_orderFor[OF v assms(4)] hasDim_orderFor[OF v assms(3)] by (auto simp: o)
qed

theorem dimPos_dimAt_witness:
  "\<exists>order. fromPermutation [0, 2, 3, 1] = Inr order \<and> (dimPos 1 order = Inr 3 \<longleftrightarrow> dimAt 3 order = Inr 1)"
  using dimPos_dimAt[OF fromPermutation_valid[OF nhwc_valid(1)], of 1 3] fromPermutation_valid[OF nhwc_valid(1)] by simp

section \<open>Values\<close>

text \<open>
  C28: Values in logical order survive the way through memory order, and values in memory
  order the way through logical order, for every accepted permutation.
\<close>

theorem memory_logical_roundtrip:
  assumes "distinct p" "set p \<subseteq> {..<length p}" "length p \<le> 15" "length values = length p"
  shows "\<exists>order mem log. fromPermutation p = Inr order \<and>
    toMemoryOrder values order = Inr mem \<and> toLogicalOrder mem order = Inr values \<and>
    toLogicalOrder values order = Inr log \<and> toMemoryOrder log order = Inr values"
proof -
  have v: "validPerm p" using assms by (simp add: validPerm_def)
  have "map (\<lambda>d. map (\<lambda>d. values ! d) p ! posIn d p) [0..<length p] = values"
    using posIn_valid[OF v] assms(4) by (intro nth_equalityI) auto
  moreover have "map (\<lambda>d. map (\<lambda>d. values ! posIn d p) [0..<length p] ! d) p = values"
  proof (rule nth_equalityI)
    fix i assume i: "i < length (map (\<lambda>d. map (\<lambda>d. values ! posIn d p) [0..<length p] ! d) p)"
    then have "p ! i < length p" using validPerm_set[OF v] nth_mem[of i p] by auto
    with i show "map (\<lambda>d. map (\<lambda>d. values ! posIn d p) [0..<length p] ! d) p ! i = values ! i"
      by (simp add: posIn_valid_nth[OF v])
  qed (simp add: assms(4))
  ultimately show ?thesis
    using v assms(4) fromPermutation_valid[OF v] by (simp add: toMemoryOrder_orderFor toLogicalOrder_orderFor)
qed

theorem memory_logical_roundtrip_witness:
  "\<exists>order mem. fromPermutation [0, 2, 3, 1] = Inr order \<and> toMemoryOrder [1, 16, 8, 8 :: int] order = Inr mem \<and>
    toLogicalOrder mem order = Inr [1, 16, 8, 8]"
  using memory_logical_roundtrip[of "[0, 2, 3, 1]" "[1, 16, 8, 8 :: int]"] nhwc_valid(1) unfolding validPerm_def by auto

section \<open>Permutation maps\<close>

text \<open>
  C29: The permutation \<open>getPermutationFromOrders\<close> gives for two orders moves a shape from the
  memory order of the first to the memory order of the second, and \<open>fromAffineMap\<close> undoes
  \<open>toAffineMap\<close>, when permutation maps read back the positions they are made from.
\<close>

theorem applyPerm_between_orders:
  assumes "affineLaws A" "validPerm p" "validPerm q" "length q = length p" "length shape = length p" "0 < length p"
  shows "\<exists>memPerm mem. getPermutationFromOrders A (orderFor p) (orderFor q) = Inr memPerm \<and>
    toMemoryOrder shape (orderFor p) = Inr mem \<and> applyPerm A mem memPerm = toMemoryOrder shape (orderFor q) \<and>
    fromAffineMap A (toAffineMap A (orderFor p)) = Inr (orderFor p)"
proof -
  note b = between_orders(1)[OF assms(2,3) assms(4)[symmetric], of A] between_orders(2)[OF assms(2,3) assms(4)[symmetric]]
  have "map (\<lambda>d. map (\<lambda>d. shape ! d) p ! d) (map (\<lambda>d. posIn d p) q) = map (\<lambda>d. shape ! d) q"
    using posIn_valid[OF assms(2)] validPerm_set[OF assms(3)] assms(4) by auto
  then have "applyPerm A (map (\<lambda>d. shape ! d) p) (getPermutationMap A (map (\<lambda>d. posIn d p) q)) = toMemoryOrder shape (orderFor q)"
    using applyPerm_perm[OF assms(1) b(2)] assms(3-5) by (simp add: toMemoryOrder_orderFor o_def)
  moreover have "fromAffineMap A (toAffineMap A (orderFor p)) = Inr (orderFor p)"
    using fromAffineMap_perm[OF assms(1,2)] assms(2,6) by (auto simp: toAffineMap_def)
  ultimately show ?thesis using b(1) assms(2,5) by (simp add: toMemoryOrder_orderFor)
qed

theorem applyPerm_between_orders_witness:
  "\<exists>memPerm mem. getPermutationFromOrders listMaps (orderFor [0, 1, 2, 3]) (orderFor [0, 2, 3, 1]) = Inr memPerm \<and>
    toMemoryOrder [1, 16, 4, 8] (orderFor [0, 1, 2, 3]) = Inr mem \<and> applyPerm listMaps mem memPerm = Inr [1, 4, 8, 16]"
proof -
  have "toMemoryOrder [1, 16, 4, 8 :: int] (orderFor [0, 2, 3, 1]) = Inr [1, 4, 8, 16]"
    by (subst toMemoryOrder_orderFor[OF nhwc_valid(1)]) simp
  then show ?thesis using applyPerm_between_orders[OF listMaps_laws nhwc_valid(2,1), of "[1, 16, 4, 8]"] by auto
qed

text \<open>
  Merging dimensions returns a permutation of as many dimensions as the merged shape has,
  keeps the number of elements, and never goes more than one below the wanted rank unless the
  shape without its dimensions of size 1 does.
\<close>

lemma mergedPermutation_keeps_elements:
  assumes "affineLaws A" "validPerm p" "length shape = length p"
  shows "\<exists>p' shape'. getMergedPermutationAndShape A shape (getPermutationMap A p) rank = Inr (p', shape') \<and>
    distinct p' \<and> set p' = {..<length shape'} \<and> prod_list shape' = prod_list shape \<and>
    min (rank - 1) (int (length (filter (\<lambda>x. x \<noteq> 1) shape))) \<le> int (length shape')"
proof (rule getMerged_spec[OF assms, of rank])
  fix p' shape'
  assume m: "getMergedPermutationAndShape A shape (getPermutationMap A p) rank = Inr (p', shape')"
    "length p' = length shape'" "distinct p'" "set p' = {..<length p'}" "prod_list shape' = prod_list shape"
    "rank - 1 \<le> int (length shape') \<or> length shape' = length (filter (\<lambda>x. x \<noteq> 1) shape)"
  have "min (rank - 1) (int (length (filter (\<lambda>x. x \<noteq> 1) shape))) \<le> int (length shape')" using m(6) by linarith
  with m(1-5) show ?thesis by simp
qed

end
