(* ===== verification/Ring_Buffer.thy ===== *)
theory Ring_Buffer
  imports Npu_Prelude
begin

text \<open>
  \<open>RingBuffer\<close> (include/vpux/utils/core/ring_buffer.hpp): a queue of bounded size in a vector
  with two indices, and the interface its clients use.
\<close>

section \<open>The buffer\<close>

text \<open>After \<open>clear\<close> the put index is the capacity, so that the first \<open>push\<close> wraps to 0.\<close>

record 'a ring_buffer =
  storage :: "'a list"
  putInd :: nat
  getInd :: nat
  ringCount :: nat

definition clearRing :: "'a ring_buffer \<Rightarrow> 'a ring_buffer" where
  "clearRing r = r\<lparr>putInd := length (storage r), getInd := 0, ringCount := 0\<rparr>"

text \<open>\<open>reset\<close> resizes the vector; new elements have the default value \<open>z\<close> of their type.\<close>

definition resetRing :: "'a \<Rightarrow> nat \<Rightarrow> 'a ring_buffer \<Rightarrow> 'a ring_buffer" where
  "resetRing z capacity r =
     clearRing (r\<lparr>storage := take capacity (storage r) @ replicate (capacity - length (storage r)) z\<rparr>)"

definition emptyRing :: "'a ring_buffer" where
  "emptyRing = \<lparr>storage = [], putInd = 0, getInd = 0, ringCount = 0\<rparr>"

definition pushRing :: "'a \<Rightarrow> 'a ring_buffer \<Rightarrow> 'a ring_buffer" where
  "pushRing val r =
     (let next_put = (if putInd r + 1 \<ge> length (storage r) then 0 else putInd r + 1)
      in r\<lparr>ringCount := ringCount r + 1, putInd := next_put, storage := (storage r)[next_put := val]\<rparr>)"

definition popRing :: "'a ring_buffer \<Rightarrow> 'a ring_buffer" where
  "popRing r =
     r\<lparr>ringCount := ringCount r - 1, getInd := (if getInd r + 1 \<ge> length (storage r) then 0 else getInd r + 1)\<rparr>"

definition frontRing :: "'a ring_buffer \<Rightarrow> 'a" where
  "frontRing r = storage r ! getInd r"

definition ringEmpty :: "'a ring_buffer \<Rightarrow> bool" where
  "ringEmpty r \<longleftrightarrow> ringCount r = 0"

definition ringFull :: "'a ring_buffer \<Rightarrow> bool" where
  "ringFull r \<longleftrightarrow> ringCount r = length (storage r)"

section \<open>Contents\<close>

definition ringContents :: "'a ring_buffer \<Rightarrow> 'a list" where
  "ringContents r = map (\<lambda>i. storage r ! ((getInd r + i) mod length (storage r))) [0..<ringCount r]"

definition ringOk :: "'a ring_buffer \<Rightarrow> bool" where
  "ringOk r \<longleftrightarrow> ringCount r \<le> length (storage r) \<and> (storage r = [] \<longrightarrow> getInd r = 0) \<and>
     (storage r \<noteq> [] \<longrightarrow> getInd r < length (storage r) \<and>
       (if putInd r + 1 \<ge> length (storage r) then 0 else putInd r + 1) = (getInd r + ringCount r) mod length (storage r))"

lemma length_ringContents [simp]: "length (ringContents r) = ringCount r"
  by (simp add: ringContents_def)

lemma resetRing_ok: "ringOk (resetRing z n r)" "ringContents (resetRing z n r) = []" "length (storage (resetRing z n r)) = n"
  by (auto simp: ringOk_def resetRing_def clearRing_def ringContents_def)

lemma mod_wrap: "i < n \<Longrightarrow> (if Suc i \<ge> n then 0 else Suc i) = Suc i mod n" for n :: nat
  by (cases "Suc i = n") auto

lemma pushRing_ok:
  assumes "ringOk r" "ringCount r < length (storage r)"
  shows "ringOk (pushRing x r)" "ringContents (pushRing x r) = ringContents r @ [x]" "length (storage (pushRing x r)) = length (storage r)"
proof -
  let ?n = "length (storage r)"
  let ?p = "(getInd r + ringCount r) mod ?n"
  have n: "0 < ?n" using assms(2) by linarith
  have put: "(if putInd r + 1 \<ge> ?n then 0 else putInd r + 1) = ?p" using assms n by (auto simp: ringOk_def)
  have push: "pushRing x r = r\<lparr>ringCount := ringCount r + 1, putInd := ?p, storage := (storage r)[?p := x]\<rparr>"
    unfolding pushRing_def Let_def put ..
  have p: "?p < ?n" using n by simp
  have "(if ?p + 1 \<ge> ?n then 0 else ?p + 1) = (getInd r + (ringCount r + 1)) mod ?n"
    using mod_wrap[OF p] unfolding Suc_eq_plus1[symmetric] add_Suc_right mod_Suc_eq .
  then show "ringOk (pushRing x r)" using assms n by (auto simp: ringOk_def push)
  have "(getInd r + i) mod ?n \<noteq> ?p" if "i < ringCount r" for i
  proof
    assume e: "(getInd r + i) mod ?n = ?p"
    then have "?n dvd (getInd r + ringCount r) - (getInd r + i)" using that by (metis add_le_cancel_left less_imp_le mod_eq_dvd_iff_nat)
    then have "?n dvd ringCount r - i" by simp
    then have "?n \<le> ringCount r - i" using that by (simp add: dvd_imp_le)
    with assms(2) show False by simp
  qed
  then have "(storage r)[?p := x] ! ((getInd r + i) mod ?n) = storage r ! ((getInd r + i) mod ?n)" if "i < ringCount r" for i
    using that by (metis nth_list_update_neq)
  then show "ringContents (pushRing x r) = ringContents r @ [x]"
    using p by (simp add: ringContents_def push)
  show "length (storage (pushRing x r)) = ?n" by (simp add: push)
qed

lemma popRing_ok:
  assumes "ringOk r" "0 < ringCount r"
  shows "ringOk (popRing r)" "ringContents (popRing r) = tl (ringContents r)" "frontRing r = hd (ringContents r)"
    "length (storage (popRing r)) = length (storage r)"
proof -
  let ?n = "length (storage r)"
  have n: "0 < ?n" and g: "getInd r < ?n" using assms by (auto simp: ringOk_def)
  have pop: "popRing r = r\<lparr>ringCount := ringCount r - 1, getInd := Suc (getInd r) mod ?n\<rparr>"
    unfolding popRing_def using mod_wrap[OF g] by (simp only: Suc_eq_plus1)
  have "(Suc (getInd r) mod ?n + (ringCount r - 1)) mod ?n = (getInd r + ringCount r) mod ?n"
  proof -
    have "(Suc (getInd r) mod ?n + (ringCount r - 1)) mod ?n = (Suc (getInd r) + (ringCount r - 1)) mod ?n" by (rule mod_add_left_eq)
    then show ?thesis using assms(2) by simp
  qed
  then show "ringOk (popRing r)" using assms n by (auto simp: ringOk_def pop)
  have "[0..<ringCount r] = 0 # map Suc [0..<ringCount r - 1]" using assms(2) by (simp add: map_Suc_upt upt_conv_Cons)
  then show "ringContents (popRing r) = tl (ringContents r)" "frontRing r = hd (ringContents r)"
    using g by (simp_all add: ringContents_def pop frontRing_def mod_add_left_eq o_def)
  show "length (storage (popRing r)) = ?n" by (simp add: pop)
qed

text \<open>A sequence of operations on a queue, with the values that leave it; it ends at a wrong use.\<close>

datatype 'a fifo_op = PushOp 'a | PopOp

fun queueRun :: "nat \<Rightarrow> 'a fifo_op list \<Rightarrow> 'a list \<Rightarrow> ('a list \<times> 'a list) option" where
  "queueRun n [] q = Some ([], q)"
| "queueRun n (PushOp x # ops) q = (if length q < n then queueRun n ops (q @ [x]) else None)"
| "queueRun n (PopOp # ops) [] = None"
| "queueRun n (PopOp # ops) (x # q) = (case queueRun n ops q of None \<Rightarrow> None | Some (out, q') \<Rightarrow> Some (x # out, q'))"

fun fifoRun :: "('a \<Rightarrow> 'q \<Rightarrow> 'q) \<Rightarrow> ('q \<Rightarrow> 'q) \<Rightarrow> ('q \<Rightarrow> 'a) \<Rightarrow> 'a fifo_op list \<Rightarrow> 'q \<Rightarrow> 'a list \<times> 'q" where
  "fifoRun push pop front [] q = ([], q)"
| "fifoRun push pop front (PushOp x # ops) q = fifoRun push pop front ops (push x q)"
| "fifoRun push pop front (PopOp # ops) q = (case fifoRun push pop front ops (pop q) of (out, q') \<Rightarrow> (front q # out, q'))"

section \<open>The interface\<close>

text \<open>A queue of bounded size as its clients see it.\<close>

locale bounded_fifo =
  fixes push :: "'a \<Rightarrow> 'q \<Rightarrow> 'q" and pop :: "'q \<Rightarrow> 'q" and front :: "'q \<Rightarrow> 'a" and is_empty :: "'q \<Rightarrow> bool"
    and contents :: "'q \<Rightarrow> 'a list" and ok :: "'q \<Rightarrow> bool" and capacity :: "'q \<Rightarrow> nat"
  assumes push_ok: "ok q \<Longrightarrow> length (contents q) < capacity q \<Longrightarrow>
      ok (push x q) \<and> contents (push x q) = contents q @ [x] \<and> capacity (push x q) = capacity q"
    and pop_ok: "ok q \<Longrightarrow> contents q \<noteq> [] \<Longrightarrow>
      ok (pop q) \<and> contents (pop q) = tl (contents q) \<and> front q = hd (contents q) \<and> capacity (pop q) = capacity q"
    and empty_iff: "is_empty q \<longleftrightarrow> contents q = []"
begin

lemma push_all:
  "ok q \<Longrightarrow> length (contents q) + length xs \<le> capacity q \<Longrightarrow>
    ok (fold push xs q) \<and> contents (fold push xs q) = contents q @ xs \<and> capacity (fold push xs q) = capacity q"
proof (induction xs arbitrary: q)
  case (Cons x xs)
  from push_ok[of q x] Cons.prems have p: "ok (push x q)" "contents (push x q) = contents q @ [x]" "capacity (push x q) = capacity q" by auto
  from Cons.IH[OF p(1)] Cons.prems p show ?case by simp
qed simp

lemma run_refines:
  "ok q \<Longrightarrow> queueRun (capacity q) ops (contents q) = Some (out, xs) \<Longrightarrow>
    \<exists>q'. fifoRun push pop front ops q = (out, q') \<and> ok q' \<and> contents q' = xs \<and> capacity q' = capacity q"
proof (induction ops arbitrary: q out)
  case (Cons op ops)
  show ?case
  proof (cases op)
    case (PushOp x)
    then have l: "length (contents q) < capacity q" using Cons.prems(2) by (auto split: if_splits)
    then show ?thesis using Cons.IH[of "push x q" out] Cons.prems push_ok[OF Cons.prems(1) l, of x] PushOp by simp
  next
    case PopOp
    then obtain x ys out' where c: "contents q = x # ys" "queueRun (capacity q) ops ys = Some (out', xs)" "out = x # out'"
      using Cons.prems(2) by (cases "contents q") (auto split: option.splits)
    then have p: "ok (pop q)" "contents (pop q) = ys" "front q = x" "capacity (pop q) = capacity q" using pop_ok[OF Cons.prems(1)] by auto
    then show ?thesis using Cons.IH[of "pop q" out'] c PopOp by auto
  qed
qed simp

end

lemma ringEmpty_iff: "ringEmpty r \<longleftrightarrow> ringContents r = []"
  by (simp add: ringEmpty_def flip: length_0_conv)

interpretation ring: bounded_fifo pushRing popRing frontRing ringEmpty ringContents ringOk "\<lambda>r. length (storage r)"
proof
  show "ringOk (pushRing x q) \<and> ringContents (pushRing x q) = ringContents q @ [x] \<and> length (storage (pushRing x q)) = length (storage q)"
    if "ringOk q" "length (ringContents q) < length (storage q)" for q and x :: 'a
    using pushRing_ok[OF that(1)] that(2) by simp
  show "ringOk (popRing q) \<and> ringContents (popRing q) = tl (ringContents q) \<and> frontRing q = hd (ringContents q) \<and> length (storage (popRing q)) = length (storage q)"
    if "ringOk q" "ringContents q \<noteq> []" for q :: "'a ring_buffer"
  proof -
    have "0 < ringCount q" using that(2) by (simp flip: length_greater_0_conv)
    then show ?thesis using popRing_ok[OF that(1)] by simp
  qed
qed (rule ringEmpty_iff)

end
