(* ===== verification/Barrier_Simulator.thy ===== *)
theory Barrier_Simulator
  imports Vpurt_Tasks Ring_Buffer
begin

text \<open>
  \<open>BarrierSimulator\<close> (src/dialect/VPURT/interfaces/barrier_simulator.cpp): its state, what the
  constructor reads from a function, and the simulation of the tasks on their hardware queues
  with a limited number of physical barriers.
\<close>

section \<open>State\<close>

record barrier_config =
  realId :: int
  nextSameId :: int
  producerCount :: int
  consumerCount :: int

record user_config =
  waits :: "int set"
  posts :: "int set"
  startAfter :: int
  cleanAfter :: int
  virtualDep :: nat
  userCount :: int

definition mkConfig :: "int \<Rightarrow> barrier_config" where
  "mkConfig real = \<lparr>realId = real, nextSameId = -1, producerCount = 0, consumerCount = 0\<rparr>"

definition mkUser :: "nat \<Rightarrow> int \<Rightarrow> user_config" where
  "mkUser dep n = \<lparr>waits = {}, posts = {}, startAfter = -1, cleanAfter = -1, virtualDep = dep, userCount = n\<rparr>"

text \<open>The dependencies of the tasks as ranges of a vector of virtual ids; entry 0 has none.\<close>

record dependency =
  consumerRange :: "nat \<times> nat"
  producerRange :: "nat \<times> nat"

record dep_tracker =
  ids :: "nat list"
  deps :: "dependency list"

definition emptyTracker :: dep_tracker where
  "emptyTracker = \<lparr>ids = [], deps = [\<lparr>consumerRange = (0, 0), producerRange = (0, 0)\<rparr>]\<rparr>"

definition addIds :: "nat list \<Rightarrow> nat list \<Rightarrow> dep_tracker \<Rightarrow> nat \<times> dep_tracker" where
  "addIds ws ps t =
     (if ws \<noteq> [] \<or> ps \<noteq> [] then
        (let d = \<lparr>consumerRange = (length (ids t), length ws), producerRange = (length (ids t) + length ws, length ps)\<rparr>
         in (length (deps t), \<lparr>ids = ids t @ ws @ ps, deps = deps t @ [d]\<rparr>))
      else (0, t))"

definition cloneDep :: "nat \<Rightarrow> dep_tracker \<Rightarrow> nat \<times> dep_tracker" where
  "cloneDep i t = (length (deps t), t\<lparr>deps := deps t @ [deps t ! i]\<rparr>)"

definition rangeIds :: "dep_tracker \<Rightarrow> nat \<times> nat \<Rightarrow> nat list" where
  "rangeIds t r = map (\<lambda>i. ids t ! (fst r + i)) [0..<snd r]"

datatype sim_error =
    NoVirtualId
  | VirtualIdTooLarge
  | WrongVirtualId
  | MixedBarriers
  | BarrierNotCovered
  | NotDma
  | NotNce
  | QueueIndexTooLarge
  | UnsupportedTask
  | BadQueueType
  | TooManyBarriers
  | NoNewBarrier
  | NotMappedExceeding
  | FreeBarriersLeft
  | IncorrectIndex
  | InvalidBarrierType

text \<open>
  A multi-port DMA stands in several queues; \<open>multiQueue\<close> maps the list of its places to
  whether it has been processed.
\<close>

record simulator =
  availableBarriers :: int
  producerSlots :: int
  totalSlots :: int
  usedBarriers :: int
  barriersMap :: "nat \<Rightarrow> nat option"
  barrierVID :: "nat \<Rightarrow> nat option"
  barriers :: "barrier_config list"
  dynamicBarriers :: bool
  samePid :: bool
  dmaTasks :: "user_config list list"
  nceTasks :: "user_config list"
  actTasks :: "user_config list"
  upaTasks :: "user_config list"
  m2iTasks :: "user_config list"
  multiQueue :: "((int \<times> nat) list \<times> bool) list"
  tracker :: dep_tracker
  batches :: "int set list"
  controlMap :: "nat set list"

section \<open>Reading the function\<close>

text \<open>A task with its DMA ports, as \<open>getDMATaskPorts\<close> computes them from the buffer types.\<close>

record sim_task = task_op +
  ports :: "int list"

datatype sim_op = SimTask sim_task | DeclareVirtual nat | ConfigureBarrier nat int | OtherSim

text \<open>Virtual ids number the barrier operations in the order of the walk.\<close>

definition assignVirtualIds :: "sim_op list \<Rightarrow> sim_error + (nat \<Rightarrow> nat option)" where
  "assignVirtualIds body =
     bindE (foldE (\<lambda>op (vid, attrs).
         case op of
           DeclareVirtual x \<Rightarrow> guardE (\<not> int vid \<ge> 4294967295) VirtualIdTooLarge (Inr (vid + 1, attrs(x \<mapsto> vid)))
         | ConfigureBarrier x _ \<Rightarrow> guardE (\<not> int vid \<ge> 4294967295) VirtualIdTooLarge (Inr (vid + 1, attrs(x \<mapsto> vid)))
         | _ \<Rightarrow> Inr (vid, attrs)) body (0, \<lambda>_. None))
       (\<lambda>(vid, attrs). Inr attrs)"

definition getVirtualId :: "(nat \<Rightarrow> nat option) \<Rightarrow> nat option \<Rightarrow> sim_error + nat" where
  "getVirtualId attrs bar =
     (case bar of None \<Rightarrow> Inl NoVirtualId
      | Some x \<Rightarrow> (case attrs x of None \<Rightarrow> Inl NoVirtualId | Some v \<Rightarrow> Inr v))"

fun getVirtualIds :: "(nat \<Rightarrow> nat option) \<Rightarrow> nat option list \<Rightarrow> sim_error + nat list" where
  "getVirtualIds attrs [] = Inr []"
| "getVirtualIds attrs (b # bs) =
     bindE (getVirtualId attrs b) (\<lambda>v. bindE (getVirtualIds attrs bs) (\<lambda>vs. Inr (v # vs)))"

definition parseDeclared :: "(nat \<Rightarrow> nat option) \<Rightarrow> sim_op \<Rightarrow> simulator \<Rightarrow> sim_error + simulator" where
  "parseDeclared attrs op s =
     (case op of DeclareVirtual x \<Rightarrow>
        bindE (getVirtualId attrs (Some x)) (\<lambda>vid. guardE (vid = length (barriers s)) WrongVirtualId
          (Inr (s\<lparr>dynamicBarriers := True, barriersMap := (barriersMap s)(x \<mapsto> length (barriers s)),
                 barrierVID := (barrierVID s)(length (barriers s) \<mapsto> x), barriers := barriers s @ [mkConfig (-1)]\<rparr>)))
      | _ \<Rightarrow> Inr s)"

definition parseConfigured :: "(nat \<Rightarrow> nat option) \<Rightarrow> sim_op \<Rightarrow> simulator \<Rightarrow> sim_error + simulator" where
  "parseConfigured attrs op s =
     (case op of ConfigureBarrier x phys \<Rightarrow>
        guardE (\<not> dynamicBarriers s) MixedBarriers
          (bindE (getVirtualId attrs (Some x)) (\<lambda>vid. guardE (vid = length (barriers s)) WrongVirtualId
            (Inr (s\<lparr>barriersMap := (barriersMap s)(x \<mapsto> length (barriers s)), barriers := barriers s @ [mkConfig phys],
                   usedBarriers := max (usedBarriers s) (phys + 1)\<rparr>))))
      | _ \<Rightarrow> Inr s)"

definition parseBarriers :: "(nat \<Rightarrow> nat option) \<Rightarrow> sim_op list \<Rightarrow> simulator \<Rightarrow> sim_error + simulator" where
  "parseBarriers attrs body s =
     bindE (foldE (parseDeclared attrs) body (s\<lparr>dynamicBarriers := False\<rparr>)) (foldE (parseConfigured attrs) body)"

definition addCount :: "(barrier_config \<Rightarrow> barrier_config) \<Rightarrow> nat list \<Rightarrow> barrier_config list \<Rightarrow> barrier_config list" where
  "addCount f vs bars = fold (\<lambda>v bs. bs[v := f (bs ! v)]) vs bars"

definition updateBarrierConfigs :: "nat list \<Rightarrow> nat list \<Rightarrow> int \<Rightarrow> simulator \<Rightarrow> simulator" where
  "updateBarrierConfigs ws ps n s =
     s\<lparr>barriers := addCount (\<lambda>b. b\<lparr>producerCount := producerCount b + n\<rparr>) ps
        (addCount (\<lambda>b. b\<lparr>consumerCount := consumerCount b + n\<rparr>) ws (barriers s))\<rparr>"

text \<open>The queue index of a DMA queue id: the number of queues met before it.\<close>

definition dmaQueueIndex :: "int \<Rightarrow> (int \<times> nat) list \<Rightarrow> nat \<times> (int \<times> nat) list" where
  "dmaQueueIndex queueId known =
     (case map_of known queueId of Some i \<Rightarrow> (i, known) | None \<Rightarrow> (length known, known @ [(queueId, length known)]))"

definition addDmaPort ::
  "nat \<Rightarrow> dma_channel option \<Rightarrow> int \<Rightarrow> (int \<times> nat) list \<times> (int \<times> nat) list \<times> simulator \<Rightarrow>
    sim_error + (int \<times> nat) list \<times> (int \<times> nat) list \<times> simulator" where
  "addDmaPort dep channel port = (\<lambda>(known, places, s).
     case dmaQueueIndex (getDMAQueueIdEncoding port channel) known of (q, known') \<Rightarrow>
       guardE (q < length (dmaTasks s)) QueueIndexTooLarge
         (Inr (known', places @ [(port, length (dmaTasks s ! q))],
               s\<lparr>dmaTasks := (dmaTasks s)[q := dmaTasks s ! q @ [mkUser dep 1]]\<rparr>)))"

definition parseTask ::
  "(nat \<Rightarrow> nat option) \<Rightarrow> sim_task \<Rightarrow> (int \<times> nat) list \<times> simulator \<Rightarrow> sim_error + (int \<times> nat) list \<times> simulator" where
  "parseTask attrs t = (\<lambda>(known, s).
     bindE (getVirtualIds attrs (waitOperands t)) (\<lambda>ws. bindE (getVirtualIds attrs (updateOperands t)) (\<lambda>ps.
       case addIds ws ps (tracker s) of (dep, tr) \<Rightarrow>
       (let s = s\<lparr>tracker := tr\<rparr>; inner = unwrapClusterTiling (innerOp t)
        in case executorKind t of
             DMA_NN \<Rightarrow>
               (case inner of
                  Dma _ channel \<Rightarrow>
                    bindE (foldE (addDmaPort dep channel) (ports t) (known, [], s)) (\<lambda>(known', places, s1).
                      let s2 = updateBarrierConfigs ws ps 1 s1
                      in Inr (known',
                           if length places > 1 \<and> places \<notin> fst ` set (multiQueue s2)
                           then s2\<lparr>multiQueue := multiQueue s2 @ [(places, False)]\<rparr> else s2))
                | _ \<Rightarrow> Inl NotDma)
           | DPU \<Rightarrow>
               (case inner of
                  NCEClusterTask variants \<Rightarrow>
                    Inr (known, updateBarrierConfigs ws ps (int (length variants))
                      (s\<lparr>nceTasks := nceTasks s @ [mkUser dep (int (length variants))]\<rparr>))
                | _ \<Rightarrow> Inl NotNce)
           | SHAVE_ACT \<Rightarrow> Inr (known, updateBarrierConfigs ws ps 1 (s\<lparr>actTasks := actTasks s @ [mkUser dep 1]\<rparr>))
           | SHAVE_UPA \<Rightarrow> Inr (known, updateBarrierConfigs ws ps 1 (s\<lparr>upaTasks := upaTasks s @ [mkUser dep 1]\<rparr>))
           | M2I \<Rightarrow> Inr (known, updateBarrierConfigs ws ps 1 (s\<lparr>m2iTasks := m2iTasks s @ [mkUser dep 1]\<rparr>))
           | UNKNOWN \<Rightarrow>
               guardE (0 < length (dmaTasks s)) QueueIndexTooLarge
                 (Inr (known, updateBarrierConfigs ws ps 1
                   (s\<lparr>dmaTasks := (dmaTasks s)[0 := dmaTasks s ! 0 @ [mkUser dep 1]]\<rparr>)))
           | _ \<Rightarrow> Inl UnsupportedTask))))"

definition parseTasks :: "(nat \<Rightarrow> nat option) \<Rightarrow> sim_op list \<Rightarrow> simulator \<Rightarrow> sim_error + simulator" where
  "parseTasks attrs body s =
     bindE (foldE (\<lambda>op ks. case op of SimTask t \<Rightarrow> parseTask attrs t ks | _ \<Rightarrow> Inr ks) body ([], s)) (\<lambda>(_, s'). Inr s')"

section \<open>Barriers that depend on barriers\<close>

definition controlStep ::
  "(nat \<Rightarrow> nat option) \<Rightarrow> sim_task \<Rightarrow> (queue_type \<times> sim_task) list \<times> nat set list \<Rightarrow>
    sim_error + (queue_type \<times> sim_task) list \<times> nat set list" where
  "controlStep attrs t = (\<lambda>(lastOps, cm).
     bindE (if executorKind t = DMA_NN
            then (case getTaskQueueType (task_op.truncate t) False of
                    Inl _ \<Rightarrow> Inl BadQueueType
                  | Inr q \<Rightarrow> bindE (case map_of lastOps q of None \<Rightarrow> Inr [] | Some p \<Rightarrow> getVirtualIds attrs (waitOperands p))
                      (\<lambda>prev. Inr (prev, (q, t) # lastOps)))
            else Inr ([], lastOps)) (\<lambda>(prev, lastOps').
       bindE (getVirtualIds attrs (waitOperands t)) (\<lambda>ws. bindE (getVirtualIds attrs (updateOperands t)) (\<lambda>ps.
         Inr (lastOps', fold (\<lambda>vid c. c[vid := c ! vid \<union> set (prev @ ws)]) ps cm)))))"

text \<open>The closure: the bits of a row are walked upwards while the row grows.\<close>

definition closeRow :: "nat \<Rightarrow> nat set list \<Rightarrow> nat set list" where
  "closeRow i cm = fold (\<lambda>b c. if b \<in> c ! i then c[i := c ! i \<union> c ! b] else c) [0..<length cm] cm"

definition buildBarrierControlMap :: "(nat \<Rightarrow> nat option) \<Rightarrow> sim_op list \<Rightarrow> simulator \<Rightarrow> sim_error + simulator" where
  "buildBarrierControlMap attrs body s =
     (let n = length (barriers s)
      in bindE (foldE (\<lambda>op st. case op of SimTask t \<Rightarrow> controlStep attrs t st | _ \<Rightarrow> Inr st) body ([], replicate n {}))
           (\<lambda>(_, cm). Inr (s\<lparr>controlMap := fold closeRow [0..<n] cm\<rparr>)))"

text \<open>The four numbers of the device the constructor asks for are arguments.\<close>

definition mkSimulator :: "int \<Rightarrow> int \<Rightarrow> int \<Rightarrow> nat \<Rightarrow> bool \<Rightarrow> sim_op list \<Rightarrow> sim_error + simulator" where
  "mkSimulator maxVariants maxSum available dmaQueues wlm body =
     (let s = \<lparr>availableBarriers = available, producerSlots = maxVariants, totalSlots = maxSum, usedBarriers = 0,
               barriersMap = (\<lambda>_. None), barrierVID = (\<lambda>_. None), barriers = [], dynamicBarriers = False, samePid = False,
               dmaTasks = replicate dmaQueues [], nceTasks = [], actTasks = [], upaTasks = [], m2iTasks = [],
               multiQueue = [], tracker = emptyTracker, batches = [], controlMap = []\<rparr>
      in bindE (assignVirtualIds body) (\<lambda>attrs. bindE (parseBarriers attrs body s) (\<lambda>s1. bindE (parseTasks attrs body s1) (\<lambda>s2.
           if wlm then buildBarrierControlMap attrs body (s2\<lparr>samePid := True\<rparr>) else Inr s2))))"

section \<open>Checks of the counts\<close>

definition checkProducerCount :: "simulator \<Rightarrow> bool" where
  "checkProducerCount s \<longleftrightarrow> list_all (\<lambda>b. \<not> producerCount b > producerSlots s) (barriers s)"

definition checkProducerAndConsumerCount :: "simulator \<Rightarrow> bool" where
  "checkProducerAndConsumerCount s \<longleftrightarrow> list_all (\<lambda>b. \<not> producerCount b + consumerCount b > totalSlots s) (barriers s)"

definition getConfig :: "nat \<Rightarrow> simulator \<Rightarrow> sim_error + barrier_config" where
  "getConfig bar s =
     (case barriersMap s bar of None \<Rightarrow> Inl BarrierNotCovered | Some i \<Rightarrow> Inr (barriers s ! i))"

text \<open>Each barrier is linked to the next one with the same physical id.\<close>

definition nextSame :: "barrier_config list \<Rightarrow> nat \<Rightarrow> int" where
  "nextSame bars i =
     (case find (\<lambda>j. realId (bars ! j) = realId (bars ! i)) [i + 1..<length bars] of None \<Rightarrow> -1 | Some j \<Rightarrow> int j)"

definition linkNextIds :: "simulator \<Rightarrow> simulator" where
  "linkNextIds s = s\<lparr>barriers := map (\<lambda>i. (barriers s ! i)\<lparr>nextSameId := nextSame (barriers s) i\<rparr>) [0..<length (barriers s)]\<rparr>"

section \<open>The batches to legalise\<close>

text \<open>
  Virtual ids become barriers again; \<open>unused\<close> tells which barriers have no users any more. The set
  of a batch is walked in ascending order.
\<close>

definition getBarrierBatchesToLegalize :: "(nat \<Rightarrow> bool) \<Rightarrow> 'a simulator_scheme \<Rightarrow> sim_error + nat set list" where
  "getBarrierBatchesToLegalize unused s =
     foldE (\<lambda>batch result.
       bindE (foldE (\<lambda>vid acc. case barrierVID s (nat vid) of
             None \<Rightarrow> Inl InvalidBarrierType
           | Some x \<Rightarrow> Inr (if unused x then acc else insert x acc)) (sorted_list_of_set batch) {})
         (\<lambda>acc. Inr (if acc = {} then result else result @ [acc]))) (batches s) []"

end
