(* ===== verification/Barrier_Simulation.thy ===== *)
theory Barrier_Simulation
  imports Barrier_Simulator
begin

text \<open>
  \<open>BarrierSimulator::simulateBarriers\<close> and \<open>processSim\<close>: one round of the main loop after the
  other, each as the code writes it, and the loop itself with fuel.
\<close>

section \<open>Local state\<close>

record sim_state = simulator +
  toVirtual :: "int list"
  prevVid :: "int list"
  nextReal :: "int ring_buffer"
  bar :: nat
  dma :: "nat list"
  dpu :: nat
  act :: nat
  upa :: nat
  m2i :: nat
  progressed :: bool

datatype status = Success | Skip | Fail

section \<open>One task\<close>

definition isBarrierMapped :: "sim_state \<Rightarrow> nat \<Rightarrow> int \<Rightarrow> bool" where
  "isBarrierMapped s v r =
     (if r < 0 \<or> nat r \<ge> length (toVirtual s) then False
      else if dynamicBarriers s then True
      else toVirtual s ! nat r = int v)"

definition waitsReady :: "sim_state \<Rightarrow> nat list \<Rightarrow> bool" where
  "waitsReady s vs \<longleftrightarrow>
     list_all (\<lambda>v. isBarrierMapped s v (realId (barriers s ! v)) \<and> \<not> producerCount (barriers s ! v) > 0) vs"

definition postsMapped :: "sim_state \<Rightarrow> nat list \<Rightarrow> bool" where
  "postsMapped s vs \<longleftrightarrow> list_all (\<lambda>v. isBarrierMapped s v (realId (barriers s ! v))) vs"

definition freePhysical :: "int \<Rightarrow> sim_state \<Rightarrow> sim_state" where
  "freePhysical r s =
     (let s1 = s\<lparr>toVirtual := (toVirtual s)[nat r := -1]\<rparr>
      in if dynamicBarriers s1 then s1\<lparr>nextReal := pushRing r (nextReal s1)\<rparr> else s1)"

definition setBarrier :: "nat \<Rightarrow> barrier_config \<Rightarrow> sim_state \<Rightarrow> sim_state" where
  "setBarrier v b s = s\<lparr>barriers := (barriers s)[v := b]\<rparr>"

fun consumeBarriers :: "nat list \<Rightarrow> user_config \<Rightarrow> sim_state \<Rightarrow> bool \<times> user_config \<times> sim_state" where
  "consumeBarriers [] u s = (True, u, s)"
| "consumeBarriers (v # vs) u s =
     (let b = barriers s ! v; r = realId b
      in if isBarrierMapped s v r then
           if producerCount b \<noteq> 0 \<or> consumerCount b < userCount u then (False, u, s)
           else let b' = b\<lparr>consumerCount := consumerCount b - userCount u\<rparr>;
                    s1 = setBarrier v b' s;
                    u1 = u\<lparr>waits := insert r (waits u), startAfter := max (startAfter u) (int v + 1)\<rparr>
                in consumeBarriers vs u1 (if consumerCount b' = 0 then freePhysical r s1 else s1)
         else (False, u, s))"

fun produceBarriers :: "nat list \<Rightarrow> user_config \<Rightarrow> sim_state \<Rightarrow> bool \<times> user_config \<times> sim_state" where
  "produceBarriers [] u s = (True, u, s)"
| "produceBarriers (v # vs) u s =
     (let b = barriers s ! v; r = realId b
      in if isBarrierMapped s v r then
           if producerCount b < userCount u then (False, u, s)
           else produceBarriers vs
                  (u\<lparr>posts := insert r (posts u), startAfter := max (startAfter u) (int v + 1), cleanAfter := min (cleanAfter u) (int v)\<rparr>)
                  (setBarrier v (b\<lparr>producerCount := producerCount b - userCount u\<rparr>) s)
         else (False, u, s))"

definition processSim :: "user_config \<Rightarrow> sim_state \<Rightarrow> status \<times> user_config \<times> sim_state" where
  "processSim user s =
     (let d = deps (tracker s) ! virtualDep user;
          cs = rangeIds (tracker s) (consumerRange d); ps = rangeIds (tracker s) (producerRange d)
      in if \<not> waitsReady s cs \<or> \<not> postsMapped s ps then (Skip, user, s)
         else (case consumeBarriers cs (user\<lparr>startAfter := 0\<rparr>) s of (ok, u1, s1) \<Rightarrow>
           if \<not> ok then (Fail, u1, s1)
           else (case produceBarriers ps (u1\<lparr>cleanAfter := int (length (barriers s1))\<rparr>) s1 of (ok, u2, s2) \<Rightarrow>
             (if ok then Success else Fail, u2, s2))))"

section \<open>One queue\<close>

text \<open>
  The code has one loop per kind of queue, each with its own vector and index. The five loops are
  one definition over the kind; only the DMA queues look into \<open>multiQueue\<close>.
\<close>

datatype sim_queue = DmaQueue nat | DpuQueue | ActQueue | UpaQueue | M2iQueue

fun queueOf :: "sim_queue \<Rightarrow> sim_state \<Rightarrow> user_config list" where
  "queueOf (DmaQueue e) s = dmaTasks s ! e"
| "queueOf DpuQueue s = nceTasks s"
| "queueOf ActQueue s = actTasks s"
| "queueOf UpaQueue s = upaTasks s"
| "queueOf M2iQueue s = m2iTasks s"

fun headOf :: "sim_queue \<Rightarrow> sim_state \<Rightarrow> nat" where
  "headOf (DmaQueue e) s = dma s ! e"
| "headOf DpuQueue s = dpu s"
| "headOf ActQueue s = act s"
| "headOf UpaQueue s = upa s"
| "headOf M2iQueue s = m2i s"

fun setUser :: "sim_queue \<Rightarrow> nat \<Rightarrow> user_config \<Rightarrow> sim_state \<Rightarrow> sim_state" where
  "setUser (DmaQueue e) i u s = s\<lparr>dmaTasks := (dmaTasks s)[e := (dmaTasks s ! e)[i := u]]\<rparr>"
| "setUser DpuQueue i u s = s\<lparr>nceTasks := (nceTasks s)[i := u]\<rparr>"
| "setUser ActQueue i u s = s\<lparr>actTasks := (actTasks s)[i := u]\<rparr>"
| "setUser UpaQueue i u s = s\<lparr>upaTasks := (upaTasks s)[i := u]\<rparr>"
| "setUser M2iQueue i u s = s\<lparr>m2iTasks := (m2iTasks s)[i := u]\<rparr>"

fun moveHead :: "sim_queue \<Rightarrow> sim_state \<Rightarrow> sim_state" where
  "moveHead (DmaQueue e) s = s\<lparr>dma := (dma s)[e := dma s ! e + 1]\<rparr>"
| "moveHead DpuQueue s = s\<lparr>dpu := dpu s + 1\<rparr>"
| "moveHead ActQueue s = s\<lparr>act := act s + 1\<rparr>"
| "moveHead UpaQueue s = s\<lparr>upa := upa s + 1\<rparr>"
| "moveHead M2iQueue s = s\<lparr>m2i := m2i s + 1\<rparr>"

definition advanceQueue :: "sim_queue \<Rightarrow> sim_state \<Rightarrow> sim_state" where
  "advanceQueue c s = (moveHead c s)\<lparr>progressed := True\<rparr>"

text \<open>
  A DMA entry that stands in several queues is processed once. \<open>find_if\<close> over the hash map is a
  search in the order of insertion.
\<close>

fun multiEntry :: "sim_queue \<Rightarrow> sim_state \<Rightarrow> nat option" where
  "multiEntry (DmaQueue e) s = find (\<lambda>m. (int e, dma s ! e) \<in> set (fst (multiQueue s ! m))) [0..<length (multiQueue s)]"
| "multiEntry _ s = None"

definition markMulti :: "nat option \<Rightarrow> sim_state \<Rightarrow> sim_state" where
  "markMulti m s =
     (case m of None \<Rightarrow> s | Some k \<Rightarrow> s\<lparr>multiQueue := (multiQueue s)[k := (fst (multiQueue s ! k), True)]\<rparr>)"

definition queueStep :: "sim_queue \<Rightarrow> sim_state \<Rightarrow> status \<times> sim_state" where
  "queueStep c s =
     (let i = headOf c s; m = multiEntry c s
      in if (case m of None \<Rightarrow> True | Some j \<Rightarrow> \<not> snd (multiQueue s ! j)) then
           (case processSim (queueOf c s ! i) s of (st, u, s') \<Rightarrow>
              (st, if st = Success then advanceQueue c (markMulti m (setUser c i u s')) else setUser c i u s'))
         else (Success, advanceQueue c s))"

text \<open>The loop over a queue with \<open>k\<close> entries left; it stops at an entry that has to wait.\<close>

fun runQueue :: "nat \<Rightarrow> sim_queue \<Rightarrow> sim_state \<Rightarrow> bool \<times> sim_state" where
  "runQueue 0 c s = (True, s)"
| "runQueue (Suc k) c s =
     (case queueStep c s of (st, s') \<Rightarrow>
        (case st of Fail \<Rightarrow> (False, s') | Skip \<Rightarrow> (True, s') | Success \<Rightarrow> runQueue k c s'))"

fun runQueues :: "sim_queue list \<Rightarrow> sim_state \<Rightarrow> bool \<times> sim_state" where
  "runQueues [] s = (True, s)"
| "runQueues (c # cs) s =
     (case runQueue (length (queueOf c s) - headOf c s) c s of (ok, s') \<Rightarrow>
        if ok then runQueues cs s' else (False, s'))"

definition allQueues :: "sim_state \<Rightarrow> sim_queue list" where
  "allQueues s = map DmaQueue [0..<length (dmaTasks s)] @ [DpuQueue, ActQueue, UpaQueue, M2iQueue]"

section \<open>Mapping barriers\<close>

text \<open>
  With \<open>samePid\<close> a physical barrier is only reused below its last user: candidates that are not
  go back to the end of the queue.
\<close>

fun pickReal :: "nat \<Rightarrow> sim_state \<Rightarrow> int option \<times> sim_state" where
  "pickReal 0 s = (None, s)"
| "pickReal (Suc n) s =
     (let real = frontRing (nextReal s);
          s1 = s\<lparr>nextReal := popRing (nextReal s)\<rparr>;
          prev = prevVid s1 ! nat real
      in if prev \<ge> 0 \<and> nat prev \<notin> controlMap s1 ! bar s1
         then pickReal n (s1\<lparr>nextReal := pushRing real (nextReal s1)\<rparr>)
         else (Some real, s1))"

definition hasBarriersToMap :: "sim_state \<Rightarrow> bool" where
  "hasBarriersToMap s =
     (if dynamicBarriers s then \<not> ringEmpty (nextReal s)
      else toVirtual s ! nat (realId (barriers s ! bar s)) = -1)"

definition takeReal :: "sim_state \<Rightarrow> int option \<times> sim_state" where
  "takeReal s =
     (if dynamicBarriers s then
        (if samePid s then pickReal (ringCount (nextReal s)) s
         else (Some (frontRing (nextReal s)), s\<lparr>nextReal := popRing (nextReal s)\<rparr>))
      else (Some (realId (barriers s ! bar s)), s))"

definition mapBarrier :: "int \<Rightarrow> sim_state \<Rightarrow> sim_state" where
  "mapBarrier real s =
     (let s1 = (if dynamicBarriers s then setBarrier (bar s) ((barriers s ! bar s)\<lparr>realId := real\<rparr>) s else s)
      in s1\<lparr>toVirtual := (toVirtual s1)[nat real := int (bar s1)], prevVid := (prevVid s1)[nat real := int (bar s1)],
            bar := bar s1 + 1, progressed := True\<rparr>)"

fun mapBarriers :: "nat \<Rightarrow> sim_state \<Rightarrow> sim_error + sim_state" where
  "mapBarriers 0 s = Inr s"
| "mapBarriers (Suc k) s =
     (if hasBarriersToMap s then
        (case takeReal s of
           (None, s1) \<Rightarrow> Inr s1
         | (Some real, s1) \<Rightarrow> guardE (\<not> real < 0) NoNewBarrier (mapBarriers k (mapBarrier real s1)))
      else Inr s)"

section \<open>Batches to legalise\<close>

fun lastBatchActive :: "int set \<Rightarrow> bool \<Rightarrow> bool \<Rightarrow> int list \<Rightarrow> sim_error + bool" where
  "lastBatchActive batch same mapped [] = Inr mapped"
| "lastBatchActive batch same mapped (v # vs) =
     (if v = -1 then guardE same NotMappedExceeding (lastBatchActive batch same mapped vs)
      else if v \<in> batch then Inr False
      else lastBatchActive batch same True vs)"

definition isNewBatchNeeded :: "sim_state \<Rightarrow> sim_error + bool" where
  "isNewBatchNeeded s =
     (if batches s = [] then Inr True
      else if last (batches s) = {} then Inr False
      else lastBatchActive (last (batches s)) (samePid s) False (toVirtual s))"

definition storeBatch :: "sim_state \<Rightarrow> sim_error + sim_state" where
  "storeBatch s =
     bindE (isNewBatchNeeded s) (\<lambda>new.
       let bs = (if new then batches s @ [{}] else batches s)
       in guardE (samePid s \<or> -1 \<notin> set (toVirtual s)) NotMappedExceeding
            (Inr (s\<lparr>batches := bs[length bs - 1 := last bs \<union> (set (toVirtual s) - {-1})]\<rparr>)))"

section \<open>Exceeding barriers\<close>

definition refill :: "sim_state \<Rightarrow> sim_state" where
  "refill s =
     s\<lparr>nextReal := fold pushRing (map int (filter (\<lambda>i. toVirtual s ! i = -1) [0..<length (toVirtual s)]))
        (resetRing 0 (length (toVirtual s)) (nextReal s))\<rparr>"

definition growReal :: "sim_state \<Rightarrow> sim_state" where
  "growReal s = refill (s\<lparr>toVirtual := toVirtual s @ [-1], prevVid := prevVid s @ [-1], progressed := True\<rparr>)"

fun remapReal :: "nat \<Rightarrow> nat \<Rightarrow> nat \<Rightarrow> nat \<Rightarrow> int list \<Rightarrow> barrier_config list \<Rightarrow> barrier_config list" where
  "remapReal limit n i free [] bars = bars"
| "remapReal limit n i free (v # vs) bars =
     (if v \<noteq> -1 then remapReal limit n (i + 1) free vs (bars[nat v := (bars ! nat v)\<lparr>realId := int i - int free\<rparr>])
      else remapReal limit n (i + 1) (if n - free > limit then free + 1 else free) vs bars)"

text \<open>Erasing free barriers; the indices are those in the vector that is being shortened.\<close>

fun eraseFree :: "nat \<Rightarrow> nat \<Rightarrow> int list \<Rightarrow> nat set \<Rightarrow> int list \<times> nat set" where
  "eraseFree 0 limit tv removed = (tv, removed)"
| "eraseFree (Suc k) limit tv removed =
     (if -1 \<in> set tv \<and> length tv > limit
      then (let i = length (takeWhile (\<lambda>v. v \<noteq> -1) tv)
            in eraseFree k limit (take i tv @ drop (i + 1) tv) (insert i removed))
      else (tv, removed))"

fun erasePrev :: "nat list \<Rightarrow> int list \<Rightarrow> sim_error + int list" where
  "erasePrev [] pv = Inr pv"
| "erasePrev (i # is) pv = guardE (\<not> i \<ge> length pv) IncorrectIndex (erasePrev is (take i pv @ drop (i + 1) pv))"

definition shrinkReal :: "nat \<Rightarrow> sim_state \<Rightarrow> sim_error + sim_state" where
  "shrinkReal limit s =
     (let bars = remapReal limit (length (toVirtual s)) 0 0 (toVirtual s) (barriers s)
      in case eraseFree (length (toVirtual s)) limit (toVirtual s) {} of (tv, removed) \<Rightarrow>
           bindE (erasePrev (rev (elems removed)) (prevVid s)) (\<lambda>pv.
             Inr (refill (s\<lparr>barriers := bars, toVirtual := tv, prevVid := pv\<rparr>))))"

definition legalizeStep :: "nat \<Rightarrow> sim_state \<Rightarrow> sim_error + sim_state" where
  "legalizeStep limit s =
     (let free = length (filter (\<lambda>v. v = -1) (toVirtual s))
      in if \<not> progressed s then guardE (\<not> (\<not> samePid s \<and> free > 0)) FreeBarriersLeft (Inr (growReal s))
         else if free > 0 \<and> length (toVirtual s) > limit then shrinkReal limit s
         else Inr s)"

section \<open>The main loop\<close>

definition unfinished :: "sim_state \<Rightarrow> bool" where
  "unfinished s \<longleftrightarrow> bar s < length (barriers s) \<or> list_ex (\<lambda>c. headOf c s < length (queueOf c s)) (allQueues s)"

text \<open>One round: \<open>None\<close> goes on, \<open>Some\<close> leaves the function with failure.\<close>

definition simRound :: "bool \<Rightarrow> nat \<Rightarrow> sim_state \<Rightarrow> sim_error + bool \<times> sim_state" where
  "simRound legal limit s =
     bindE (mapBarriers (length (barriers s) - bar s) (s\<lparr>progressed := False\<rparr>)) (\<lambda>s.
     bindE (if legal \<and> length (toVirtual s) > limit then storeBatch s else Inr s) (\<lambda>s.
       case runQueues (allQueues s) s of (ok, s) \<Rightarrow>
         if \<not> ok then Inr (False, s)
         else bindE (if legal then legalizeStep limit s else Inr s) (\<lambda>s. Inr (progressed s, s))))"

fun simLoop :: "nat \<Rightarrow> bool \<Rightarrow> nat \<Rightarrow> sim_state \<Rightarrow> (sim_error + bool \<times> sim_state) option" where
  "simLoop 0 legal limit s = None"
| "simLoop (Suc fuel) legal limit s =
     (if unfinished s then
        (case simRound legal limit s of
           Inl e \<Rightarrow> Some (Inl e)
         | Inr (go, s') \<Rightarrow> if go then simLoop fuel legal limit s' else Some (Inr (False, s')))
      else Some (Inr (\<not> (legal \<and> batches s \<noteq> []), s)))"

definition startState :: "nat \<Rightarrow> simulator \<Rightarrow> sim_state" where
  "startState limit s =
     simulator.extend s \<lparr>toVirtual = replicate limit (-1), prevVid = replicate limit (-1),
       nextReal = (if dynamicBarriers s then fold pushRing (map int [0..<limit]) (resetRing 0 limit emptyRing) else emptyRing),
       bar = 0, dma = replicate (length (dmaTasks s)) 0, dpu = 0, act = 0, upa = 0, m2i = 0, progressed = False\<rparr>"

definition simulateBarriers :: "nat \<Rightarrow> int option \<Rightarrow> bool \<Rightarrow> simulator \<Rightarrow> (sim_error + bool \<times> sim_state) option" where
  "simulateBarriers fuel numBarriers legal s =
     (let limit = (case numBarriers of None \<Rightarrow> availableBarriers s | Some n \<Rightarrow> n)
      in if (case numBarriers of None \<Rightarrow> False | Some n \<Rightarrow> n > availableBarriers s) \<or> limit < 0 then Some (Inl TooManyBarriers)
         else simLoop fuel legal (nat limit) (startState (nat limit) s))"

end
