(* ===== verification/Simulation_Steps.thy ===== *)
theory Simulation_Steps
  imports Barrier_Simulation
begin

text \<open>
  The simulation as a state machine: one step maps a barrier, gives up on mapping, handles the
  head of a queue or starts a new round. Every run of the main loop is a sequence of steps, and a
  measure on the state bounds the number of rounds.
\<close>

section \<open>What an operation leaves alone\<close>

definition keepsPlan :: "sim_state \<Rightarrow> sim_state \<Rightarrow> bool" where
  "keepsPlan s s' \<longleftrightarrow> s' = s\<lparr>barriers := barriers s', toVirtual := toVirtual s', nextReal := nextReal s'\<rparr> \<and>
     length (barriers s') = length (barriers s) \<and> length (toVirtual s') = length (toVirtual s)"

lemma keepsPlan_refl [simp]: "keepsPlan s s"
  by (cases s) (simp add: keepsPlan_def)

lemma keepsPlan_trans [trans]: "keepsPlan a b \<Longrightarrow> keepsPlan b c \<Longrightarrow> keepsPlan a c"
  by (cases a; cases b; cases c) (simp add: keepsPlan_def)

lemma keepsPlan_setBarrier [simp]: "keepsPlan s (setBarrier v b s)"
  by (cases s) (auto simp: keepsPlan_def setBarrier_def)

lemma keepsPlan_freePhysical [simp]: "keepsPlan s (freePhysical r s)"
  by (cases s) (auto simp: keepsPlan_def freePhysical_def Let_def)

lemma consumeBarriers_frame:
  "consumeBarriers vs u s = (ok, u', s') \<Longrightarrow> keepsPlan s s' \<and> userCount u' = userCount u \<and> virtualDep u' = virtualDep u"
proof (induction vs u s arbitrary: ok u' s' rule: consumeBarriers.induct)
  case (2 v vs u s)
  show ?case
  proof (cases "isBarrierMapped s v (realId (barriers s ! v)) \<and> \<not> (producerCount (barriers s ! v) \<noteq> 0 \<or> consumerCount (barriers s ! v) < userCount u)")
    case True
    then show ?thesis
      using 2(2) 2(1)[OF refl refl _ _ refl refl refl, of ok u' s']
      by (auto simp: Let_def split: if_splits intro: keepsPlan_trans[OF keepsPlan_setBarrier] keepsPlan_trans[OF keepsPlan_trans[OF keepsPlan_setBarrier keepsPlan_freePhysical]])
  qed (use 2(2) in \<open>auto simp: Let_def split: if_splits\<close>)
qed simp

lemma produceBarriers_frame:
  "produceBarriers vs u s = (ok, u', s') \<Longrightarrow> keepsPlan s s' \<and> userCount u' = userCount u \<and> virtualDep u' = virtualDep u"
proof (induction vs u s arbitrary: ok u' s' rule: produceBarriers.induct)
  case (2 v vs u s)
  show ?case
  proof (cases "isBarrierMapped s v (realId (barriers s ! v)) \<and> \<not> producerCount (barriers s ! v) < userCount u")
    case True
    then show ?thesis
      using 2(2) 2(1)[OF refl refl, of ok u' s']
      by (auto simp: Let_def split: if_splits intro: keepsPlan_trans[OF keepsPlan_setBarrier])
  qed (use 2(2) in \<open>auto simp: Let_def split: if_splits\<close>)
qed simp

lemma processSim_frame:
  assumes "processSim u s = (st, u', s')"
  shows "keepsPlan s s'" "userCount u' = userCount u" "virtualDep u' = virtualDep u"
  using assms unfolding processSim_def Let_def
  by (auto split: if_splits prod.splits dest!: consumeBarriers_frame produceBarriers_frame intro: keepsPlan_trans)

lemma keepsPlan_simps:
  assumes "keepsPlan s s'"
  shows "length (barriers s') = length (barriers s)" "length (toVirtual s') = length (toVirtual s)"
    "bar s' = bar s" "dma s' = dma s" "dmaTasks s' = dmaTasks s" "progressed s' = progressed s"
    "tracker s' = tracker s" "dynamicBarriers s' = dynamicBarriers s" "prevVid s' = prevVid s" "multiQueue s' = multiQueue s"
    "queueOf c s' = queueOf c s" "headOf c s' = headOf c s" "allQueues s' = allQueues s" "samePid s' = samePid s"
    "batches s' = batches s"
  using assms by (cases s; cases s'; cases c; simp add: keepsPlan_def allQueues_def)+

section \<open>One entry of a queue\<close>

lemma allQueues_distinct [simp]: "distinct (allQueues s)"
  by (auto simp: allQueues_def distinct_map inj_on_def)

lemma allQueues_cong: "length (dmaTasks s') = length (dmaTasks s) \<Longrightarrow> allQueues s' = allQueues s"
  by (simp add: allQueues_def)

lemma queue_progressed [simp]:
  "queueOf c (s\<lparr>progressed := p\<rparr>) = queueOf c s" "headOf c (s\<lparr>progressed := p\<rparr>) = headOf c s"
  "allQueues (s\<lparr>progressed := p\<rparr>) = allQueues s"
  by (cases c; simp add: allQueues_def)+

lemma queue_setUser [simp]:
  "headOf d (setUser c i u s) = headOf d s" "allQueues (setUser c i u s) = allQueues s"
  by (cases d; cases c; simp add: allQueues_def)+

lemma queueOf_setUser:
  "c \<in> set (allQueues s) \<Longrightarrow> queueOf d (setUser c i u s) = (if d = c then (queueOf c s)[i := u] else queueOf d s)"
  by (cases d; cases c) (auto simp: allQueues_def)

lemma queue_moveHead [simp]: "queueOf d (moveHead c s) = queueOf d s" "allQueues (moveHead c s) = allQueues s"
  by (cases d; cases c; simp add: allQueues_def)+

lemma headOf_moveHead:
  "length (dma s) = length (dmaTasks s) \<Longrightarrow> c \<in> set (allQueues s) \<Longrightarrow>
    headOf d (moveHead c s) = (if d = c then headOf c s + 1 else headOf d s)"
  by (cases d; cases c) (auto simp: allQueues_def)

lemma queue_markMulti [simp]:
  "queueOf d (markMulti m s) = queueOf d s" "headOf d (markMulti m s) = headOf d s" "allQueues (markMulti m s) = allQueues s"
  by (cases d; auto simp: allQueues_def markMulti_def split: option.splits)+

definition userKey :: "user_config \<Rightarrow> int \<times> nat" where
  "userKey u = (userCount u, virtualDep u)"

lemma other_setUser:
  "length (dma (setUser c i u s)) = length (dma s)" "length (dmaTasks (setUser c i u s)) = length (dmaTasks s)"
  "bar (setUser c i u s) = bar s" "barriers (setUser c i u s) = barriers s" "progressed (setUser c i u s) = progressed s"
  "tracker (setUser c i u s) = tracker s" "dynamicBarriers (setUser c i u s) = dynamicBarriers s"
  "toVirtual (setUser c i u s) = toVirtual s" "nextReal (setUser c i u s) = nextReal s" "prevVid (setUser c i u s) = prevVid s"
  "samePid (setUser c i u s) = samePid s" "multiQueue (setUser c i u s) = multiQueue s"
  by (cases c; simp)+

lemma other_moveHead:
  "length (dma (moveHead c s)) = length (dma s)" "length (dmaTasks (moveHead c s)) = length (dmaTasks s)"
  "bar (moveHead c s) = bar s" "barriers (moveHead c s) = barriers s" "progressed (moveHead c s) = progressed s"
  "tracker (moveHead c s) = tracker s" "dynamicBarriers (moveHead c s) = dynamicBarriers s"
  "toVirtual (moveHead c s) = toVirtual s" "nextReal (moveHead c s) = nextReal s" "prevVid (moveHead c s) = prevVid s"
  "samePid (moveHead c s) = samePid s" "multiQueue (moveHead c s) = multiQueue s"
  by (cases c; simp)+

lemma other_markMulti:
  "dma (markMulti m s) = dma s" "dmaTasks (markMulti m s) = dmaTasks s"
  "bar (markMulti m s) = bar s" "barriers (markMulti m s) = barriers s" "progressed (markMulti m s) = progressed s"
  "tracker (markMulti m s) = tracker s" "dynamicBarriers (markMulti m s) = dynamicBarriers s"
  "toVirtual (markMulti m s) = toVirtual s" "nextReal (markMulti m s) = nextReal s" "prevVid (markMulti m s) = prevVid s"
  "samePid (markMulti m s) = samePid s" "length (multiQueue (markMulti m s)) = length (multiQueue s)"
  by (simp_all add: markMulti_def split: option.splits)

lemmas other_simps = other_setUser other_moveHead other_markMulti

text \<open>The shape of the state: one head per DMA queue.\<close>

definition wellShaped :: "sim_state \<Rightarrow> bool" where
  "wellShaped s \<longleftrightarrow> length (dma s) = length (dmaTasks s)"

definition hasEntry :: "sim_queue \<Rightarrow> sim_state \<Rightarrow> bool" where
  "hasEntry c s \<longleftrightarrow> c \<in> set (allQueues s) \<and> headOf c s < length (queueOf c s)"

lemma queueStep_frame:
  assumes "queueStep c s = (st, s')" "hasEntry c s" "wellShaped s"
  shows "wellShaped s'" "allQueues s' = allQueues s" "bar s' = bar s" "length (barriers s') = length (barriers s)"
    "length (toVirtual s') = length (toVirtual s)"
    "headOf d s' = headOf d s + (if st = Success \<and> d = c then 1 else 0)"
    "map userKey (queueOf d s') = map userKey (queueOf d s)" "progressed s' \<longleftrightarrow> progressed s \<or> st = Success"
    "tracker s' = tracker s" "dynamicBarriers s' = dynamicBarriers s" "prevVid s' = prevVid s" "samePid s' = samePid s"
proof -
  let ?goal = "wellShaped s' \<and> allQueues s' = allQueues s \<and> bar s' = bar s \<and> length (barriers s') = length (barriers s) \<and>
    length (toVirtual s') = length (toVirtual s) \<and> headOf d s' = headOf d s + (if st = Success \<and> d = c then 1 else 0) \<and>
    map userKey (queueOf d s') = map userKey (queueOf d s) \<and> (progressed s' \<longleftrightarrow> progressed s \<or> st = Success) \<and>
    tracker s' = tracker s \<and> dynamicBarriers s' = dynamicBarriers s \<and> prevVid s' = prevVid s \<and> samePid s' = samePid s"
  have c: "c \<in> set (allQueues s)" and h: "headOf c s < length (queueOf c s)" and w: "length (dma s) = length (dmaTasks s)"
    using assms(2,3) by (auto simp: hasEntry_def wellShaped_def)
  have ?goal
  proof (cases "case multiEntry c s of None \<Rightarrow> True | Some j \<Rightarrow> \<not> snd (multiQueue s ! j)")
    case False
    then have "st = Success" "s' = advanceQueue c s" using assms(1) by (auto simp: queueStep_def Let_def)
    then show ?thesis using c w by (simp add: advanceQueue_def wellShaped_def other_simps headOf_moveHead)
  next
    case True
    obtain st1 u s1 where p: "processSim (queueOf c s ! headOf c s) s = (st1, u, s1)" by (metis prod_cases3)
    note f = processSim_frame[OF p] and k = keepsPlan_simps[OF processSim_frame(1)[OF p]]
    have key: "map userKey ((queueOf c s)[headOf c s := u]) = map userKey (queueOf c s)"
      using h f(2,3) by (simp add: map_update userKey_def list_update_same_conv)
    have st: "st = st1" and s': "s' = (if st = Success then advanceQueue c (markMulti (multiEntry c s) (setUser c (headOf c s) u s1)) else setUser c (headOf c s) u s1)"
      using assms(1) True p by (auto simp: queueStep_def Let_def)
    have c1: "c \<in> set (allQueues s1)" using c k by simp
    show ?thesis using c w key unfolding s' st
      by (simp add: advanceQueue_def wellShaped_def other_simps headOf_moveHead k queueOf_setUser[OF c1])
  qed
  then show "wellShaped s'" "allQueues s' = allQueues s" "bar s' = bar s" "length (barriers s') = length (barriers s)"
    "length (toVirtual s') = length (toVirtual s)"
    "headOf d s' = headOf d s + (if st = Success \<and> d = c then 1 else 0)"
    "map userKey (queueOf d s') = map userKey (queueOf d s)" "progressed s' \<longleftrightarrow> progressed s \<or> st = Success"
    "tracker s' = tracker s" "dynamicBarriers s' = dynamicBarriers s" "prevVid s' = prevVid s" "samePid s' = samePid s" by blast+
qed

section \<open>The step relation\<close>

inductive sim_step :: "sim_state \<Rightarrow> sim_state \<Rightarrow> bool" where
  new_round: "sim_step s (s\<lparr>progressed := False\<rparr>)"
| map_barrier: "bar s < length (barriers s) \<Longrightarrow> hasBarriersToMap s \<Longrightarrow> takeReal s = (Some real, s') \<Longrightarrow> \<not> real < 0 \<Longrightarrow>
    sim_step s (mapBarrier real s')"
| no_candidate: "bar s < length (barriers s) \<Longrightarrow> hasBarriersToMap s \<Longrightarrow> takeReal s = (None, s') \<Longrightarrow> sim_step s s'"
| run_head: "hasEntry c s \<Longrightarrow> queueStep c s = (st, s') \<Longrightarrow> sim_step s s'"

inductive_cases sim_stepE [elim]: "sim_step s s'"

lemma pickReal_frame: "pickReal n s = (r, s') \<Longrightarrow> s' = s\<lparr>nextReal := nextReal s'\<rparr>"
proof (induction n arbitrary: s)
  case (Suc n)
  show ?case using Suc.prems Suc.IH by (auto simp: Let_def split: if_splits dest!: Suc.IH)
qed simp

lemma takeReal_frame: "takeReal s = (r, s') \<Longrightarrow> s' = s\<lparr>nextReal := nextReal s'\<rparr>"
  by (auto simp: takeReal_def split: if_splits dest: pickReal_frame)

lemma nextReal_simps [simp]:
  "queueOf c (s\<lparr>nextReal := q\<rparr>) = queueOf c s" "headOf c (s\<lparr>nextReal := q\<rparr>) = headOf c s" "allQueues (s\<lparr>nextReal := q\<rparr>) = allQueues s"
  by (cases c; simp add: allQueues_def)+

lemma mapBarrier_frame:
  "queueOf c (mapBarrier r s) = queueOf c s" "headOf c (mapBarrier r s) = headOf c s" "allQueues (mapBarrier r s) = allQueues s"
  "length (barriers (mapBarrier r s)) = length (barriers s)" "bar (mapBarrier r s) = bar s + 1" "progressed (mapBarrier r s)"
  "dma (mapBarrier r s) = dma s" "dmaTasks (mapBarrier r s) = dmaTasks s" "length (toVirtual (mapBarrier r s)) = length (toVirtual s)"
  "nextReal (mapBarrier r s) = nextReal s" "tracker (mapBarrier r s) = tracker s" "dynamicBarriers (mapBarrier r s) = dynamicBarriers s"
  "samePid (mapBarrier r s) = samePid s" "multiQueue (mapBarrier r s) = multiQueue s"
  by (cases c; simp add: mapBarrier_def setBarrier_def Let_def allQueues_def)+

lemma hasEntry_cong: "allQueues s' = allQueues s \<Longrightarrow> headOf c s' = headOf c s \<Longrightarrow> queueOf c s' = queueOf c s \<Longrightarrow> hasEntry c s' = hasEntry c s"
  by (simp add: hasEntry_def)

lemma map_key_length: "map userKey q' = map userKey q \<Longrightarrow> length q' = length q"
  by (metis length_map)

text \<open>The work that is left: barriers to map and entries to process.\<close>

definition queueLeft :: "sim_queue \<Rightarrow> sim_state \<Rightarrow> nat" where
  "queueLeft c s = length (queueOf c s) - headOf c s"

definition simWork :: "sim_state \<Rightarrow> nat" where
  "simWork s = (length (barriers s) - bar s) + (\<Sum>c\<leftarrow>allQueues s. queueLeft c s)"

lemma unfinished_iff: "unfinished s \<longleftrightarrow> bar s < length (barriers s) \<or> (\<exists>c. hasEntry c s)"
  by (auto simp: unfinished_def hasEntry_def list_ex_iff)

lemma simWork_zero: "simWork s = 0 \<Longrightarrow> \<not> unfinished s"
  by (auto simp: simWork_def unfinished_iff hasEntry_def queueLeft_def)

lemma simWork_mapBarrier: "bar s < length (barriers s) \<Longrightarrow> Suc (simWork (mapBarrier r s)) = simWork s"
  by (simp add: simWork_def queueLeft_def mapBarrier_frame)

lemma simWork_nextReal [simp]: "simWork (s\<lparr>nextReal := q\<rparr>) = simWork s"
  by (simp add: simWork_def queueLeft_def)

lemma sum_list_pointwise_less:
  fixes f :: "'a \<Rightarrow> nat"
  assumes "distinct xs" "x \<in> set xs" "Suc (f x) = g x" "\<And>y. y \<in> set xs \<Longrightarrow> y \<noteq> x \<Longrightarrow> f y = g y"
  shows "Suc (sum_list (map f xs)) = sum_list (map g xs)"
proof -
  have "sum f (set xs - {x}) = sum g (set xs - {x})" using assms(4) by (intro sum.cong) auto
  with assms(1-3) show ?thesis
    by (simp add: sum_list_distinct_conv_sum_set sum.remove[of "set xs" x])
qed

lemma simWork_queueStep:
  assumes "queueStep c s = (st, s')" "hasEntry c s" "wellShaped s"
  shows "simWork s = simWork s' + (if st = Success then 1 else 0)"
proof -
  note f = queueStep_frame[OF assms]
  have len: "length (queueOf d s') = length (queueOf d s)" for d using f(7) by (rule map_key_length)
  show ?thesis
  proof (cases "st = Success")
    case True
    have "Suc (\<Sum>d\<leftarrow>allQueues s. queueLeft d s') = (\<Sum>d\<leftarrow>allQueues s. queueLeft d s)"
      using assms(2) by (intro sum_list_pointwise_less[where x = c]) (auto simp: queueLeft_def len f(6) hasEntry_def True)
    then show ?thesis by (simp add: simWork_def f(2-4) True)
  next
    case False
    then show ?thesis by (simp add: simWork_def queueLeft_def len f(2-4) f(6))
  qed
qed

text \<open>What the rest of a round keeps: the progress made so far is visible in the flag.\<close>

definition progresses :: "sim_state \<Rightarrow> sim_state \<Rightarrow> bool" where
  "progresses s s' \<longleftrightarrow> sim_step\<^sup>*\<^sup>* s s' \<and> wellShaped s' \<and> allQueues s' = allQueues s \<and> simWork s' \<le> simWork s \<and>
     (progressed s' \<longleftrightarrow> progressed s \<or> simWork s' < simWork s)"

lemma progresses_refl [simp]: "wellShaped s \<Longrightarrow> progresses s s"
  by (simp add: progresses_def)

lemma progresses_trans [trans]: "progresses a b \<Longrightarrow> progresses b c \<Longrightarrow> progresses a c"
  by (auto simp: progresses_def)

lemma progresses_queueStep:
  assumes "queueStep c s = (st, s')" "hasEntry c s" "wellShaped s"
  shows "progresses s s'"
  using sim_step.run_head[OF assms(2,1)] queueStep_frame(1,2,8)[OF assms] simWork_queueStep[OF assms]
  by (auto simp: progresses_def)

lemma progresses_runQueue:
  assumes "runQueue k c s = (ok, s')" "c \<in> set (allQueues s)" "headOf c s + k = length (queueOf c s)" "wellShaped s"
  shows "progresses s s'"
  using assms
proof (induction k arbitrary: s)
  case (Suc k)
  obtain st s1 where q: "queueStep c s = (st, s1)" by fastforce
  have e: "hasEntry c s" using Suc.prems by (simp add: hasEntry_def)
  note p = progresses_queueStep[OF q e Suc.prems(4)] and f = queueStep_frame[OF q e Suc.prems(4)]
  show ?case
  proof (cases st)
    case Success
    have "progresses s1 s'"
      using Suc.prems f(1,2) f(6)[of c] map_key_length[OF f(7)[of c]] q Success by (intro Suc.IH) auto
    with p show ?thesis by (rule progresses_trans)
  qed (use Suc.prems(1) q p in auto)
qed simp

lemma runQueue_empty: "headOf c s \<ge> length (queueOf c s) \<Longrightarrow> runQueue (length (queueOf c s) - headOf c s) c s = (True, s)"
  by simp

lemma progresses_runQueues:
  "runQueues cs s = (ok, s') \<Longrightarrow> set cs \<subseteq> set (allQueues s) \<Longrightarrow> wellShaped s \<Longrightarrow> progresses s s'"
proof (induction cs arbitrary: s)
  case (Cons c cs)
  obtain ok1 s1 where q: "runQueue (length (queueOf c s) - headOf c s) c s = (ok1, s1)" by fastforce
  have p: "progresses s s1"
  proof (cases "headOf c s \<le> length (queueOf c s)")
    case True
    then show ?thesis using q Cons.prems by (intro progresses_runQueue) auto
  next
    case False
    then show ?thesis using q Cons.prems by simp
  qed
  show ?case
  proof (cases ok1)
    case True
    then have "progresses s1 s'" using Cons p q by (auto simp: progresses_def)
    with p show ?thesis by (rule progresses_trans)
  qed (use Cons.prems(1) q p in auto)
qed simp

lemma wellShaped_cong: "dma s' = dma s \<Longrightarrow> dmaTasks s' = dmaTasks s \<Longrightarrow> wellShaped s' = wellShaped s"
  by (simp add: wellShaped_def)

lemma progresses_mapBarriers:
  "mapBarriers k s = Inr s' \<Longrightarrow> bar s + k = length (barriers s) \<Longrightarrow> wellShaped s \<Longrightarrow> progresses s s'"
proof (induction k arbitrary: s)
  case (Suc k)
  obtain r s1 where t: "takeReal s = (r, s1)" by fastforce
  have b: "bar s < length (barriers s)" using Suc.prems(2) by simp
  have s1: "s1 = s\<lparr>nextReal := nextReal s1\<rparr>" by (rule takeReal_frame[OF t])
  have fr: "bar s1 = bar s" "barriers s1 = barriers s" "dma s1 = dma s" "dmaTasks s1 = dmaTasks s" "allQueues s1 = allQueues s"
    "simWork s1 = simWork s" "progressed s1 = progressed s"
    by (subst s1, simp)+
  show ?case
  proof (cases "hasBarriersToMap s")
    case False
    then show ?thesis using Suc.prems by simp
  next
    case h: True
    show ?thesis
    proof (cases r)
      case None
      have "progresses s s1"
        using sim_step.no_candidate[OF b h] t None fr Suc.prems(3) by (auto simp: progresses_def wellShaped_def)
      then show ?thesis using Suc.prems(1) h t None by simp
    next
      case (Some real)
      let ?m = "mapBarrier real s1"
      have m: "\<not> real < 0" "mapBarriers k ?m = Inr s'" using Suc.prems(1) h t Some by (auto simp: guardE_def split: if_splits)
      have "simWork s = Suc (simWork ?m)" using simWork_mapBarrier[of s1 real] fr b by simp
      then have "progresses s ?m"
        using sim_step.map_barrier[OF b h t[unfolded Some] m(1)] fr Suc.prems(3) by (auto simp: progresses_def wellShaped_def mapBarrier_frame)
      also have "progresses ?m s'"
        using m(2) Suc.prems fr by (intro Suc.IH) (auto simp: mapBarrier_frame wellShaped_def)
      finally show ?thesis .
    qed
  qed
qed simp

section \<open>The loop\<close>

lemma simRound_progresses:
  assumes "simRound False limit s = Inr (go, s')" "wellShaped s"
  shows "progresses (s\<lparr>progressed := False\<rparr>) s' \<and> (go \<longrightarrow> progressed s')"
proof -
  let ?s = "s\<lparr>progressed := False\<rparr>"
  obtain s1 where m: "mapBarriers (length (barriers s) - bar s) ?s = Inr s1" using assms(1)
    by (auto simp: simRound_def bindE_def split: sum.splits)
  obtain ok s2 where q: "runQueues (allQueues s1) s1 = (ok, s2)" by fastforce
  have r: "s' = s2" "go \<longrightarrow> progressed s2" using assms(1) m q by (auto simp: simRound_def split: if_splits)
  have w: "wellShaped ?s" using assms(2) by (simp add: wellShaped_def)
  have "progresses ?s s1"
  proof (cases "bar s \<le> length (barriers s)")
    case True
    then show ?thesis using m w by (intro progresses_mapBarriers) auto
  next
    case False
    then show ?thesis using m w by simp
  qed
  moreover from this have "progresses s1 s2" using q by (intro progresses_runQueues) (auto simp: progresses_def)
  ultimately show ?thesis using r progresses_trans by blast
qed

lemma simWork_progressed [simp]: "simWork (s\<lparr>progressed := p\<rparr>) = simWork s"
  by (simp add: simWork_def queueLeft_def)

lemma simRound_work:
  assumes "simRound False limit s = Inr (True, s')" "wellShaped s"
  shows "simWork s' < simWork s" "wellShaped s'"
  using simRound_progresses[OF assms] by (auto simp: progresses_def)

lemma simLoop_returns: "wellShaped s \<Longrightarrow> simWork s < fuel \<Longrightarrow> simLoop fuel False limit s \<noteq> None"
proof (induction fuel arbitrary: s)
  case (Suc fuel)
  show ?case
  proof (cases "unfinished s")
    case True
    show ?thesis
    proof (cases "simRound False limit s")
      case (Inr r)
      then show ?thesis
      proof (cases r)
        case (Pair go s')
        then show ?thesis using True Inr Suc simRound_work[of limit s s'] by (cases go) auto
      qed
    qed (use True in simp)
  qed simp
qed simp

lemma simLoop_more: "simLoop fuel legal limit s = Some r \<Longrightarrow> fuel \<le> fuel' \<Longrightarrow> simLoop fuel' legal limit s = Some r"
proof (induction fuel arbitrary: s fuel')
  case (Suc fuel)
  obtain f where f: "fuel' = Suc f" "fuel \<le> f" using Suc.prems(2) by (cases fuel') auto
  show ?case using Suc.prems(1) Suc.IH[OF _ f(2)]
    by (auto simp: f(1) split: sum.splits prod.splits if_splits)
qed simp

lemma simLoop_steps:
  "simLoop fuel False limit s = Some (Inr (ok, s')) \<Longrightarrow> wellShaped s \<Longrightarrow>
    sim_step\<^sup>*\<^sup>* s s' \<and> wellShaped s' \<and> (ok \<longrightarrow> \<not> unfinished s')"
proof (induction fuel arbitrary: s)
  case (Suc fuel)
  show ?case
  proof (cases "unfinished s")
    case True
    obtain go s1 where r: "simRound False limit s = Inr (go, s1)"
      using Suc.prems(1) True by (auto split: sum.splits)
    have p: "sim_step\<^sup>*\<^sup>* s s1" "wellShaped s1"
      using simRound_progresses[OF r Suc.prems(2)] sim_step.new_round[of s]
      by (auto simp: progresses_def intro: converse_rtranclp_into_rtranclp)
    show ?thesis
    proof (cases go)
      case True
      then show ?thesis using Suc.IH[of s1] Suc.prems(1) \<open>unfinished s\<close> r p by (auto intro: rtranclp_trans)
    next
      case False
      then show ?thesis using Suc.prems(1) \<open>unfinished s\<close> r p by auto
    qed
  qed (use Suc.prems in auto)
qed simp

lemma startState_shape [simp]: "wellShaped (startState limit s)" "bar (startState limit s) = 0" "barriers (startState limit s) = barriers s"
  "dmaTasks (startState limit s) = dmaTasks s" "nceTasks (startState limit s) = nceTasks s" "actTasks (startState limit s) = actTasks s"
  "upaTasks (startState limit s) = upaTasks s" "m2iTasks (startState limit s) = m2iTasks s" "tracker (startState limit s) = tracker s"
  "dynamicBarriers (startState limit s) = dynamicBarriers s" "toVirtual (startState limit s) = replicate limit (-1)"
  "prevVid (startState limit s) = replicate limit (-1)" "samePid (startState limit s) = samePid s" "controlMap (startState limit s) = controlMap s"
  "multiQueue (startState limit s) = multiQueue s" "batches (startState limit s) = batches s"
  "nextReal (startState limit s) = (if dynamicBarriers s then fold pushRing (map int [0..<limit]) (resetRing 0 limit emptyRing) else emptyRing)"
  by (simp_all add: startState_def wellShaped_def simulator.defs sim_state.defs)

lemma headOf_startState: "c \<in> set (allQueues (startState limit s)) \<Longrightarrow> headOf c (startState limit s) = 0"
  by (cases c) (auto simp: startState_def allQueues_def simulator.defs sim_state.defs)

text \<open>The number of entries in all queues.\<close>

definition entryCount :: "simulator \<Rightarrow> nat" where
  "entryCount s = sum_list (map length (dmaTasks s)) + length (nceTasks s) + length (actTasks s) + length (upaTasks s) + length (m2iTasks s)"

lemma simWork_startState: "simWork (startState limit s) = length (barriers s) + entryCount s"
proof -
  have e: "map (\<lambda>e. length (dmaTasks s ! e)) [0..<length (dmaTasks s)] = map length (dmaTasks s)" by (rule nth_equalityI) auto
  have "(\<Sum>c\<leftarrow>allQueues (startState limit s). queueLeft c (startState limit s)) = (\<Sum>c\<leftarrow>allQueues (startState limit s). length (queueOf c (startState limit s)))"
    by (intro arg_cong[where f = sum_list] map_cong) (auto simp: queueLeft_def headOf_startState)
  also have "\<dots> = entryCount s"
    using e by (simp add: allQueues_def entryCount_def o_def)
  finally show ?thesis by (simp add: simWork_def)
qed

end
