(* ===== verification/Simulation_Exclusive.thy ===== *)
theory Simulation_Exclusive
  imports Simulation_Steps "HOL-Library.Multiset"
begin

text \<open>
  Physical barriers are exclusive: a physical barrier is given to a virtual one only when every
  earlier virtual barrier on it has no producers and consumers left.
\<close>

section \<open>The plan\<close>

definition userWaits :: "dep_tracker \<Rightarrow> user_config \<Rightarrow> nat list" where
  "userWaits t u = rangeIds t (consumerRange (deps t ! virtualDep u))"

definition userPosts :: "dep_tracker \<Rightarrow> user_config \<Rightarrow> nat list" where
  "userPosts t u = rangeIds t (producerRange (deps t ! virtualDep u))"

definition userOk :: "nat \<Rightarrow> dep_tracker \<Rightarrow> user_config \<Rightarrow> bool" where
  "userOk n t u \<longleftrightarrow> 0 < userCount u \<and> set (userWaits t u) \<subseteq> {..<n} \<and> set (userPosts t u) \<subseteq> {..<n}"

definition usersOk :: "sim_state \<Rightarrow> bool" where
  "usersOk s \<longleftrightarrow> (\<forall>c\<in>set (allQueues s). list_all (userOk (length (barriers s)) (tracker s)) (queueOf c s))"

lemma userOk_key: "userKey u = userKey u' \<Longrightarrow> userOk n t u = userOk n t u'"
  by (simp add: userOk_def userKey_def userWaits_def userPosts_def)

lemma list_all_key: "map userKey q' = map userKey q \<Longrightarrow> list_all (userOk n t) q' = list_all (userOk n t) q"
  unfolding list_all_length list_eq_iff_nth_eq by (simp add: nth_map) (metis nth_map userOk_key)

section \<open>The assignment\<close>

abbreviation barAt :: "sim_state \<Rightarrow> nat \<Rightarrow> barrier_config" where
  "barAt s v \<equiv> barriers s ! v"

definition spent :: "barrier_config \<Rightarrow> bool" where
  "spent b \<longleftrightarrow> producerCount b = 0 \<and> consumerCount b = 0"

definition freeReals :: "sim_state \<Rightarrow> int set" where
  "freeReals s = int ` {r. r < length (toVirtual s) \<and> toVirtual s ! r = -1}"

definition ringMatches :: "sim_state \<Rightarrow> bool" where
  "ringMatches s \<longleftrightarrow> ringOk (nextReal s) \<and> length (storage (nextReal s)) = length (toVirtual s) \<and>
     distinct (ringContents (nextReal s)) \<and> set (ringContents (nextReal s)) = freeReals s"

definition validReal :: "sim_state \<Rightarrow> int \<Rightarrow> bool" where
  "validReal s r \<longleftrightarrow> 0 \<le> r \<and> nat r < length (toVirtual s)"

text \<open>
  The invariant has a strict form, for the simulation without legalisation, and a weaker one:
  legalisation renumbers the physical barriers that are in use, so the ids of barriers that are
  used up may be stale there.
\<close>

definition physInv :: "bool \<Rightarrow> sim_state \<Rightarrow> bool" where
  "physInv strict s \<longleftrightarrow> bar s \<le> length (barriers s) \<and> length (toVirtual s) \<le> length (prevVid s) \<and>
     (\<forall>v<bar s. validReal s (realId (barAt s v)) \<or> \<not> strict \<and> spent (barAt s v)) \<and>
     (\<forall>v<length (barriers s). bar s \<le> v \<longrightarrow> (if dynamicBarriers s then realId (barAt s v) = -1 else validReal s (realId (barAt s v)))) \<and>
     (\<forall>r<length (toVirtual s). toVirtual s ! r \<noteq> -1 \<longrightarrow> (\<exists>v<bar s. toVirtual s ! r = int v \<and> realId (barAt s v) = int r)) \<and>
     (\<forall>v<bar s. toVirtual s ! nat (realId (barAt s v)) = int v \<or> spent (barAt s v)) \<and>
     (strict \<longrightarrow> (\<forall>w<bar s. \<forall>v<w. realId (barAt s v) = realId (barAt s w) \<longrightarrow> spent (barAt s v))) \<and>
     (dynamicBarriers s \<longrightarrow> ringMatches s)"

abbreviation physOk :: "sim_state \<Rightarrow> bool" where
  "physOk \<equiv> physInv True"

lemma physInvD:
  assumes "physInv strict s"
  shows "bar s \<le> length (barriers s)" "length (toVirtual s) \<le> length (prevVid s)"
    "v < bar s \<Longrightarrow> validReal s (realId (barAt s v)) \<or> \<not> strict \<and> spent (barAt s v)"
    "v < length (barriers s) \<Longrightarrow> bar s \<le> v \<Longrightarrow> dynamicBarriers s \<Longrightarrow> realId (barAt s v) = -1"
    "v < length (barriers s) \<Longrightarrow> bar s \<le> v \<Longrightarrow> \<not> dynamicBarriers s \<Longrightarrow> validReal s (realId (barAt s v))"
    "r < length (toVirtual s) \<Longrightarrow> toVirtual s ! r \<noteq> -1 \<Longrightarrow> \<exists>v<bar s. toVirtual s ! r = int v \<and> realId (barAt s v) = int r"
    "v < bar s \<Longrightarrow> toVirtual s ! nat (realId (barAt s v)) = int v \<or> spent (barAt s v)"
    "strict \<Longrightarrow> w < bar s \<Longrightarrow> v < w \<Longrightarrow> realId (barAt s v) = realId (barAt s w) \<Longrightarrow> spent (barAt s v)"
    "dynamicBarriers s \<Longrightarrow> ringMatches s"
  using assms unfolding physInv_def by (meson not_le)+

lemma physOkD:
  assumes "physOk s"
  shows "bar s \<le> length (barriers s)"
    "v < bar s \<Longrightarrow> validReal s (realId (barAt s v))"
    "r < length (toVirtual s) \<Longrightarrow> toVirtual s ! r \<noteq> -1 \<Longrightarrow> \<exists>v<bar s. toVirtual s ! r = int v \<and> realId (barAt s v) = int r"
    "w < bar s \<Longrightarrow> v < w \<Longrightarrow> realId (barAt s v) = realId (barAt s w) \<Longrightarrow> spent (barAt s v)"
    "dynamicBarriers s \<Longrightarrow> ringMatches s"
  using physInvD[OF assms] by blast+

text \<open>A barrier a task finds mapped and not spent owns its physical barrier.\<close>

lemma mapped_owner:
  assumes "physInv strict s" "v < length (barriers s)" "isBarrierMapped s v (realId (barAt s v))" "\<not> spent (barAt s v)"
  shows "v < bar s" "validReal s (realId (barAt s v))" "toVirtual s ! nat (realId (barAt s v)) = int v"
proof -
  show r: "validReal s (realId (barAt s v))" using assms(3) by (auto simp: isBarrierMapped_def validReal_def split: if_splits)
  have "v < bar s \<and> toVirtual s ! nat (realId (barAt s v)) = int v"
  proof (cases "dynamicBarriers s")
    case True
    then have "v < bar s" using physInvD(4)[OF assms(1,2)] r by (force simp: validReal_def)
    then show ?thesis using physInvD(7)[OF assms(1)] assms(4) by blast
  next
    case False
    then have t: "toVirtual s ! nat (realId (barAt s v)) = int v" using assms(3) by (auto simp: isBarrierMapped_def split: if_splits)
    then obtain w where "w < bar s" "int v = int w" using physInvD(6)[OF assms(1), of "nat (realId (barAt s v))"] r by (auto simp: validReal_def)
    then show ?thesis using t by simp
  qed
  then show "v < bar s" "toVirtual s ! nat (realId (barAt s v)) = int v" by blast+
qed

text \<open>The counts of an owner may change; its physical barrier is released when it is spent.\<close>

lemma physOk_setBarrier:
  assumes "physInv strict s" "v < length (barriers s)" "realId b = realId (barAt s v)" "\<not> spent (barAt s v)"
    "isBarrierMapped s v (realId (barAt s v))"
  shows "physInv strict (setBarrier v b s)"
proof -
  note o = mapped_owner[OF assms(1,2,5,4)]
  have id: "realId ((barriers s)[v := b] ! w) = realId (barAt s w)" for w
    using assms(2,3) by (cases "w = v") auto
  have sp: "spent (barAt s w) \<Longrightarrow> spent ((barriers s)[v := b] ! w)" for w
    using assms(2,4) by (cases "w = v") auto
  have own: "toVirtual s ! nat (realId (barAt s w)) = int w \<or> spent ((barriers s)[v := b] ! w)" if "w < bar s" for w
    using physInvD(7)[OF assms(1) that] o(3) sp by (cases "w = v") auto
  show ?thesis
    using assms(1) own sp unfolding physInv_def setBarrier_def
    by (auto simp: id validReal_def ringMatches_def freeReals_def)
qed

lemma physOk_freePhysical:
  assumes "physInv strict s" "v < bar s" "spent (barAt s v)" "realId (barAt s v) = r" "toVirtual s ! nat r = int v" "validReal s r"
  shows "physInv strict (freePhysical r s)"
proof -
  note p = physInvD[OF assms(1)]
  have r: "0 \<le> r" "nat r < length (toVirtual s)" using assms(6) by (auto simp: validReal_def)
  define s1 where "s1 = s\<lparr>toVirtual := (toVirtual s)[nat r := -1]\<rparr>"
  have ring: "ringMatches (s1\<lparr>nextReal := pushRing r (nextReal s)\<rparr>)" if d: "dynamicBarriers s"
  proof -
    note m = p(9)[OF d, unfolded ringMatches_def]
    have notin: "r \<notin> freeReals s" using assms(5) r by (auto simp: freeReals_def)
    have new: "freeReals (s1\<lparr>nextReal := pushRing r (nextReal s)\<rparr>) = insert r (freeReals s)"
      using r by (auto simp: freeReals_def s1_def nth_list_update image_iff split: if_splits) (metis int_nat_eq)
    have "card (freeReals s) < length (toVirtual s)"
    proof -
      have "freeReals s \<subseteq> int ` ({..<length (toVirtual s)} - {nat r})" using notin r by (auto simp: freeReals_def image_iff intro!: imageI)
      then have "card (freeReals s) \<le> card (int ` ({..<length (toVirtual s)} - {nat r}))" by (intro card_mono) auto
      also have "\<dots> \<le> card ({..<length (toVirtual s)} - {nat r})" by (rule card_image_le) simp
      also have "\<dots> < length (toVirtual s)" using r(2) by simp
      finally show ?thesis .
    qed
    then have "ringCount (nextReal s) < length (storage (nextReal s))" using m distinct_card[of "ringContents (nextReal s)"] by simp
    from pushRing_ok[OF conjunct1[OF m] this] m notin show ?thesis by (simp add: ringMatches_def new) (simp add: s1_def)
  qed
  have tv: "(toVirtual s)[nat r := -1] ! k \<noteq> -1 \<Longrightarrow> k < length (toVirtual s) \<Longrightarrow> toVirtual s ! k \<noteq> -1 \<and> (toVirtual s)[nat r := -1] ! k = toVirtual s ! k" for k
    by (cases "k = nat r") auto
  have own: "(toVirtual s)[nat r := -1] ! nat (realId (barAt s w)) = int w \<or> spent (barAt s w)" if w: "w < bar s" for w
  proof (cases "w = v")
    case False
    show ?thesis
    proof (cases "nat (realId (barAt s w)) = nat r")
      case True
      then show ?thesis using p(7)[OF w] assms(5) False by simp
    qed (use p(7)[OF w] in simp)
  qed (use assms(3) in simp)
  have free: "physInv strict (freePhysical r s) \<longleftrightarrow> physInv strict (if dynamicBarriers s then s1\<lparr>nextReal := pushRing r (nextReal s)\<rparr> else s1)"
    by (simp add: freePhysical_def s1_def Let_def)
  have T: "\<forall>k<length (toVirtual s). (toVirtual s)[nat r := -1] ! k \<noteq> -1 \<longrightarrow> (\<exists>v<bar s. (toVirtual s)[nat r := -1] ! k = int v \<and> realId (barAt s v) = int k)"
    using tv p(6) by metis
  show ?thesis
    using assms(1) own ring T unfolding free by (auto simp: physInv_def s1_def validReal_def)
qed

lemma physOk_cong:
  assumes "barriers s' = barriers s" "toVirtual s' = toVirtual s" "prevVid s' = prevVid s" "nextReal s' = nextReal s"
    "bar s' = bar s" "dynamicBarriers s' = dynamicBarriers s"
  shows "physInv strict s' = physInv strict s"
  by (simp add: physInv_def assms validReal_def ringMatches_def freeReals_def)

section \<open>Processing keeps the assignment\<close>

lemma isBarrierMapped_cong:
  "toVirtual s' = toVirtual s \<Longrightarrow> dynamicBarriers s' = dynamicBarriers s \<Longrightarrow> isBarrierMapped s' v r = isBarrierMapped s v r"
  by (simp add: isBarrierMapped_def)

lemma physOk_consumeBarriers:
  "consumeBarriers vs u s = (ok, u', s') \<Longrightarrow> physInv strict s \<Longrightarrow> 0 < userCount u \<Longrightarrow> set vs \<subseteq> {..<length (barriers s)} \<Longrightarrow> physInv strict s'"
proof (induction vs u s arbitrary: ok u' s' rule: consumeBarriers.induct)
  case (2 v vs u s)
  let ?b = "barAt s v"
  show ?case
  proof (cases "isBarrierMapped s v (realId ?b) \<and> \<not> (producerCount ?b \<noteq> 0 \<or> consumerCount ?b < userCount u)")
    case True
    define b' where "b' = ?b\<lparr>consumerCount := consumerCount ?b - userCount u\<rparr>"
    define s1 where "s1 = setBarrier v b' s"
    define s2 where "s2 = (if consumerCount b' = 0 then freePhysical (realId ?b) s1 else s1)"
    have v: "v < length (barriers s)" and ns: "\<not> spent ?b" using 2(5,4) True by (auto simp: spent_def)
    have b': "realId b' = realId ?b" "producerCount b' = 0" using True by (simp_all add: b'_def)
    have p1: "physInv strict s1" unfolding s1_def using 2(3) v b' ns True by (intro physOk_setBarrier) auto
    note o = mapped_owner[OF 2(3) v conjunct1[OF True] ns]
    have at: "barAt s1 v = b'" "bar s1 = bar s" "toVirtual s1 = toVirtual s" using v by (simp_all add: s1_def setBarrier_def)
    have p2: "physInv strict s2"
    proof (cases "consumerCount b' = 0")
      case True
      then show ?thesis unfolding s2_def using p1 o at b' by (simp add: physOk_freePhysical spent_def validReal_def)
    qed (use p1 in \<open>simp add: s2_def\<close>)
    have len: "length (barriers s2) = length (barriers s)"
      by (simp add: s2_def s1_def setBarrier_def freePhysical_def Let_def)
    have "consumeBarriers vs (u\<lparr>waits := insert (realId ?b) (waits u), startAfter := max (startAfter u) (int v + 1)\<rparr>) s2 = (ok, u', s')"
      using 2(2) True by (auto simp: s2_def s1_def b'_def Let_def split: if_splits)
    moreover have "\<not> (producerCount ?b \<noteq> 0 \<or> consumerCount ?b < userCount u)" using True by blast
    ultimately show ?thesis
      using 2(1)[OF refl refl conjunct1[OF True] _ b'_def s1_def refl] p2 2(4,5) len unfolding s2_def by simp
  qed (use 2(2,3) in \<open>auto simp: Let_def split: if_splits\<close>)
qed simp

lemma physOk_produceBarriers:
  "produceBarriers vs u s = (ok, u', s') \<Longrightarrow> physInv strict s \<Longrightarrow> 0 < userCount u \<Longrightarrow> set vs \<subseteq> {..<length (barriers s)} \<Longrightarrow> physInv strict s'"
proof (induction vs u s arbitrary: ok u' s' rule: produceBarriers.induct)
  case (2 v vs u s)
  let ?b = "barAt s v"
  show ?case
  proof (cases "isBarrierMapped s v (realId ?b) \<and> \<not> producerCount ?b < userCount u")
    case True
    let ?s1 = "setBarrier v (?b\<lparr>producerCount := producerCount ?b - userCount u\<rparr>) s"
    have "v < length (barriers s)" "\<not> spent ?b" using 2(5,4) True by (auto simp: spent_def)
    then have "physInv strict ?s1" using 2(3) True by (intro physOk_setBarrier) auto
    then show ?thesis
      using 2(2) 2(1)[OF refl refl, of ok u' s'] True 2(4,5) by (simp add: Let_def setBarrier_def)
  qed (use 2(2,3) in \<open>auto simp: Let_def split: if_splits\<close>)
qed simp

lemma physOk_processSim:
  assumes "processSim u s = (st, u', s')" "physInv strict s" "userOk (length (barriers s)) (tracker s) u"
  shows "physInv strict s'"
proof -
  obtain ok1 u1 s1 where c: "consumeBarriers (userWaits (tracker s) u) (u\<lparr>startAfter := 0\<rparr>) s = (ok1, u1, s1)" by (metis prod_cases3)
  obtain ok2 u2 s2 where d: "produceBarriers (userPosts (tracker s) u) (u1\<lparr>cleanAfter := int (length (barriers s1))\<rparr>) s1 = (ok2, u2, s2)"
    by (metis prod_cases3)
  note f = conjunct1[OF consumeBarriers_frame[OF c]] conjunct1[OF conjunct2[OF consumeBarriers_frame[OF c]]]
  have p1: "physInv strict s1" using physOk_consumeBarriers[OF c assms(2)] assms(3) by (simp add: userOk_def)
  have p2: "physInv strict s2" using physOk_produceBarriers[OF d p1] assms(3) f keepsPlan_simps(1)[OF f(1)] by (simp add: userOk_def)
  show ?thesis using assms(1,2) c d p1 p2
    by (auto simp: processSim_def Let_def userWaits_def userPosts_def split: if_splits)
qed

lemma physOk_setUser [simp]: "physInv strict (setUser c i u s) = physInv strict s"
  by (rule physOk_cong; cases c; simp)

lemma physOk_advance [simp]: "physInv strict (advanceQueue c s) = physInv strict s"
  by (rule physOk_cong; cases c; simp add: advanceQueue_def)

lemma physOk_markMulti [simp]: "physInv strict (markMulti m s) = physInv strict s"
  by (rule physOk_cong; simp add: markMulti_def split: option.split)

lemma physOk_queueStep:
  assumes "queueStep c s = (st, s')" "physInv strict s" "hasEntry c s" "usersOk s"
  shows "physInv strict s'"
proof -
  have "userOk (length (barriers s)) (tracker s) (queueOf c s ! headOf c s)"
    using assms(3,4) by (auto simp: hasEntry_def usersOk_def list_all_length)
  from physOk_processSim[OF _ assms(2) this] show ?thesis
    using assms(1,2) by (auto simp: queueStep_def Let_def split: prod.splits if_splits)
qed

section \<open>Mapping keeps the assignment\<close>

text \<open>The candidate leaves the ring, and rejected candidates only rotate in it.\<close>

lemma pickReal_ring:
  assumes "pickReal n s = (r, s')" "ringOk (nextReal s)" "n \<le> ringCount (nextReal s)"
  shows "ringOk (nextReal s') \<and> length (storage (nextReal s')) = length (storage (nextReal s)) \<and>
    mset (ringContents (nextReal s)) = (case r of None \<Rightarrow> {#} | Some x \<Rightarrow> {#x#}) + mset (ringContents (nextReal s'))"
  using assms
proof (induction n arbitrary: s)
  case (Suc n)
  let ?q = "nextReal s"
  have c: "0 < ringCount ?q" using Suc.prems(3) by simp
  note pop = popRing_ok[OF Suc.prems(2) c]
  have pc: "ringCount (popRing ?q) = ringCount ?q - 1" by (simp add: popRing_def)
  have le: "ringCount ?q \<le> length (storage ?q)" using Suc.prems(2) by (simp add: ringOk_def)
  note push = pushRing_ok[OF pop(1), of "frontRing ?q"]
  have full: "ringCount (popRing ?q) < length (storage (popRing ?q))" using le c pop(4) pc by simp
  have ne: "ringContents ?q \<noteq> []" using c by (metis length_ringContents length_0_conv less_not_refl)
  then have rot: "mset (ringContents ?q) = {#frontRing ?q#} + mset (tl (ringContents ?q))"
    unfolding pop(3) by (metis add_mset_add_single add.commute list.collapse mset.simps(2))
  define s1 where "s1 = s\<lparr>nextReal := popRing ?q\<rparr>"
  show ?case
  proof (cases "prevVid s ! nat (frontRing ?q) \<ge> 0 \<and> nat (prevVid s ! nat (frontRing ?q)) \<notin> controlMap s ! bar s")
    case True
    let ?s2 = "s\<lparr>nextReal := pushRing (frontRing ?q) (popRing ?q)\<rparr>"
    have "pickReal n ?s2 = (r, s')" using Suc.prems(1) True by (simp add: Let_def)
    moreover have "ringCount (pushRing (frontRing ?q) (popRing ?q)) = ringCount ?q" using c by (simp add: pushRing_def popRing_def Let_def)
    ultimately show ?thesis
      using Suc.IH[of ?s2] push[OF full] pop Suc.prems(3) rot by simp
  next
    case False
    then have "r = Some (frontRing ?q)" "s' = s1" using Suc.prems(1) by (auto simp: Let_def s1_def)
    then show ?thesis using pop rot by (simp add: s1_def)
  qed
qed simp

lemma takeReal_ring:
  assumes "takeReal s = (r, s')" "dynamicBarriers s" "ringOk (nextReal s)" "hasBarriersToMap s"
  shows "ringOk (nextReal s') \<and> length (storage (nextReal s')) = length (storage (nextReal s)) \<and>
    mset (ringContents (nextReal s)) = (case r of None \<Rightarrow> {#} | Some x \<Rightarrow> {#x#}) + mset (ringContents (nextReal s'))"
proof (cases "samePid s")
  case True
  then show ?thesis using pickReal_ring[of "ringCount (nextReal s)" s r s'] assms by (simp add: takeReal_def)
next
  case False
  have c: "0 < ringCount (nextReal s)" using assms(2,4) by (simp add: hasBarriersToMap_def ringEmpty_def)
  note pop = popRing_ok[OF assms(3) c]
  have ne: "ringContents (nextReal s) \<noteq> []" using c by (metis length_ringContents length_0_conv less_not_refl)
  then have "mset (ringContents (nextReal s)) = {#frontRing (nextReal s)#} + mset (tl (ringContents (nextReal s)))"
    unfolding pop(3) by (metis add_mset_add_single add.commute list.collapse mset.simps(2))
  then show ?thesis using assms False pop by (auto simp: takeReal_def)
qed

lemma takeReal_free:
  assumes "takeReal s = (Some real, s1)" "hasBarriersToMap s" "physInv strict s" "bar s < length (barriers s)"
  shows "validReal s real" "toVirtual s ! nat real = -1" "\<not> dynamicBarriers s \<Longrightarrow> real = realId (barAt s (bar s)) \<and> s1 = s"
    "dynamicBarriers s \<Longrightarrow> ringOk (nextReal s1) \<and> length (storage (nextReal s1)) = length (toVirtual s) \<and>
      distinct (ringContents (nextReal s1)) \<and> set (ringContents (nextReal s1)) = freeReals s - {real}"
proof -
  note p = physInvD[OF assms(3)]
  have "validReal s real \<and> toVirtual s ! nat real = -1 \<and> (\<not> dynamicBarriers s \<longrightarrow> real = realId (barAt s (bar s)) \<and> s1 = s) \<and>
    (dynamicBarriers s \<longrightarrow> ringOk (nextReal s1) \<and> length (storage (nextReal s1)) = length (toVirtual s) \<and>
      distinct (ringContents (nextReal s1)) \<and> set (ringContents (nextReal s1)) = freeReals s - {real})"
  proof (cases "dynamicBarriers s")
    case True
    note m = p(9)[OF True, unfolded ringMatches_def]
    note t = takeReal_ring[OF assms(1) True conjunct1[OF m] assms(2)]
    have ms: "mset (ringContents (nextReal s)) = mset (real # ringContents (nextReal s1))" using t by simp
    have d: "distinct (real # ringContents (nextReal s1))" using m mset_eq_imp_distinct_iff[OF ms] by blast
    have s: "set (real # ringContents (nextReal s1)) = freeReals s" using m mset_eq_setD[OF ms] by simp
    from s have "real \<in> freeReals s" by auto
    then show ?thesis using d s t m True by (auto simp: freeReals_def validReal_def)
  next
    case False
    then show ?thesis using assms(1,2) p(5)[OF assms(4)] by (auto simp: takeReal_def hasBarriersToMap_def)
  qed
  then show "validReal s real" "toVirtual s ! nat real = -1" "\<not> dynamicBarriers s \<Longrightarrow> real = realId (barAt s (bar s)) \<and> s1 = s"
    "dynamicBarriers s \<Longrightarrow> ringOk (nextReal s1) \<and> length (storage (nextReal s1)) = length (toVirtual s) \<and>
      distinct (ringContents (nextReal s1)) \<and> set (ringContents (nextReal s1)) = freeReals s - {real}" by blast+
qed

lemma physOk_mapBarrier:
  assumes "takeReal s = (Some real, s1)" "hasBarriersToMap s" "physInv strict s" "bar s < length (barriers s)"
  shows "physInv strict (mapBarrier real s1)"
proof -
  note p = physInvD[OF assms(3)] and f = takeReal_free[OF assms]
  define B where "B = (if dynamicBarriers s then (barriers s)[bar s := (barAt s (bar s))\<lparr>realId := real\<rparr>] else barriers s)"
  define TV where "TV = (toVirtual s)[nat real := int (bar s)]"
  let ?m = "mapBarrier real s1"
  have s1: "s1 = s\<lparr>nextReal := nextReal s1\<rparr>" by (rule takeReal_frame[OF assms(1)])
  have m: "barriers ?m = B" "toVirtual ?m = TV" "prevVid ?m = (prevVid s)[nat real := int (bar s)]" "bar ?m = bar s + 1"
    "nextReal ?m = nextReal s1" "dynamicBarriers ?m = dynamicBarriers s"
    by (subst s1, simp add: mapBarrier_def setBarrier_def B_def TV_def Let_def)+
  have r: "nat real < length (toVirtual s)" "0 \<le> real" using f(1) by (auto simp: validReal_def)
  have len: "length B = length (barriers s)" by (simp add: B_def)
  have new: "realId (B ! bar s) = real" using f(3) assms(4) by (simp add: B_def)
  have old: "B ! v = barAt s v" if "v \<noteq> bar s" for v using that by (simp add: B_def)
  have sp: "spent (barAt s v)" if "v < bar s" "realId (barAt s v) = real" for v
    using p(7)[OF that(1)] that f(2) by auto
  have V: "\<forall>v<bar s + 1. (0 \<le> realId (B ! v) \<and> nat (realId (B ! v)) < length (toVirtual s)) \<or> \<not> strict \<and> spent (B ! v)"
    using p(3) new old r by (metis less_SucE Suc_eq_plus1 validReal_def)
  have U: "\<forall>v<length (barriers s). bar s + 1 \<le> v \<longrightarrow> (if dynamicBarriers s then realId (B ! v) = -1 else 0 \<le> realId (B ! v) \<and> nat (realId (B ! v)) < length (toVirtual s))"
    using p(4,5) old by (auto simp: validReal_def)
  have T: "\<forall>k<length (toVirtual s). TV ! k \<noteq> -1 \<longrightarrow> (\<exists>v<bar s + 1. TV ! k = int v \<and> realId (B ! v) = int k)"
  proof (intro allI impI)
    fix k assume k: "k < length (toVirtual s)" "TV ! k \<noteq> -1"
    show "\<exists>v<bar s + 1. TV ! k = int v \<and> realId (B ! v) = int k"
    proof (cases "k = nat real")
      case True
      then show ?thesis using r new by (intro exI[of _ "bar s"]) (simp add: TV_def)
    next
      case False
      then have "TV ! k = toVirtual s ! k" by (simp add: TV_def)
      then obtain v where "v < bar s" "TV ! k = int v" "realId (barAt s v) = int k" using p(6) k by metis
      then show ?thesis using old[of v] by (intro exI[of _ v]) simp
    qed
  qed
  have O: "\<forall>v<bar s + 1. TV ! nat (realId (B ! v)) = int v \<or> spent (B ! v)"
  proof (intro allI impI)
    fix v assume v: "v < bar s + 1"
    show "TV ! nat (realId (B ! v)) = int v \<or> spent (B ! v)"
    proof (cases "v = bar s")
      case True
      then show ?thesis using new r by (simp add: TV_def)
    next
      case False
      then have v': "v < bar s" and b: "B ! v = barAt s v" using v old by auto
      show ?thesis
      proof (cases "realId (barAt s v) = real")
        case True
        then show ?thesis using sp[OF v'] b by simp
      next
        case False
        then have "spent (barAt s v) \<or> nat (realId (barAt s v)) \<noteq> nat real" using p(3)[OF v'] r by (auto simp: validReal_def)
        then show ?thesis using p(7)[OF v'] b by (auto simp: TV_def)
      qed
    qed
  qed
  have X: "strict \<longrightarrow> (\<forall>w<bar s + 1. \<forall>v<w. realId (B ! v) = realId (B ! w) \<longrightarrow> spent (B ! v))"
  proof (intro allI impI)
    assume strict
    fix w v assume w: "w < bar s + 1" "v < w" "realId (B ! v) = realId (B ! w)"
    have v: "v < bar s" and b: "B ! v = barAt s v" using w old by auto
    show "spent (B ! v)"
    proof (cases "w = bar s")
      case True
      then show ?thesis using sp[OF v] w b new by simp
    next
      case False
      then show ?thesis using p(8)[OF \<open>strict\<close>, of w v] w b old by simp
    qed
  qed
  have R: "dynamicBarriers s \<longrightarrow> ringMatches ?m"
  proof
    assume d: "dynamicBarriers s"
    have "freeReals ?m = freeReals s - {real}"
      using r by (auto simp: freeReals_def m TV_def nth_list_update split: if_splits)
    then show "ringMatches ?m" using f(4)[OF d] by (simp add: ringMatches_def m TV_def)
  qed
  have lTV: "length TV = length (toVirtual s)" by (simp add: TV_def)
  show ?thesis
    unfolding physInv_def m len lTV validReal_def using assms(4) p(2) V U T O X R by (intro conjI; (assumption | simp))
qed

lemma physOk_no_candidate:
  assumes "takeReal s = (None, s1)" "hasBarriersToMap s" "physInv strict s"
  shows "physInv strict s1"
proof (cases "dynamicBarriers s")
  case True
  note m = physInvD(9)[OF assms(3) True, unfolded ringMatches_def]
  note t = takeReal_ring[OF assms(1) True conjunct1[OF m] assms(2)]
  have "mset (ringContents (nextReal s)) = mset (ringContents (nextReal s1))" using t by simp
  then have "distinct (ringContents (nextReal s1))" "set (ringContents (nextReal s1)) = freeReals s"
    using m mset_eq_imp_distinct_iff mset_eq_setD by metis+
  then have "physInv strict (s\<lparr>nextReal := nextReal s1\<rparr>)"
    using assms(3) t m True by (simp add: physInv_def ringMatches_def validReal_def freeReals_def)
  then show ?thesis using takeReal_frame[OF assms(1)] by simp
qed (use assms in \<open>auto simp: takeReal_def split: if_splits\<close>)

section \<open>Every reachable state\<close>

definition simInv :: "bool \<Rightarrow> sim_state \<Rightarrow> bool" where
  "simInv strict s \<longleftrightarrow> physInv strict s \<and> usersOk s \<and> wellShaped s"

abbreviation simOk :: "sim_state \<Rightarrow> bool" where
  "simOk \<equiv> simInv True"

lemma usersOk_cong:
  assumes "length (barriers s') = length (barriers s)" "tracker s' = tracker s" "allQueues s' = allQueues s"
    "\<And>c. map userKey (queueOf c s') = map userKey (queueOf c s)"
  shows "usersOk s' = usersOk s"
  by (simp add: usersOk_def assms(1-3) list_all_key[OF assms(4)])

lemma simOk_step: "sim_step s s' \<Longrightarrow> simInv strict s \<Longrightarrow> simInv strict s'"
proof (induction rule: sim_step.induct)
  case (new_round s)
  have "physInv strict (s\<lparr>progressed := False\<rparr>) = physInv strict s" "usersOk (s\<lparr>progressed := False\<rparr>) = usersOk s"
    by (rule physOk_cong usersOk_cong; simp)+
  then show ?case using new_round by (simp add: simInv_def wellShaped_def)
next
  case (map_barrier s real s')
  have s': "s' = s\<lparr>nextReal := nextReal s'\<rparr>" by (rule takeReal_frame[OF map_barrier(3)])
  have "usersOk (mapBarrier real s') = usersOk s" by (rule usersOk_cong; subst s'; simp add: mapBarrier_frame)
  moreover have "wellShaped (mapBarrier real s') = wellShaped s" by (subst s') (simp add: wellShaped_def mapBarrier_frame)
  ultimately show ?case using physOk_mapBarrier[OF map_barrier(3,2) _ map_barrier(1)] map_barrier(5) by (simp add: simInv_def)
next
  case (no_candidate s s')
  have s': "s' = s\<lparr>nextReal := nextReal s'\<rparr>" by (rule takeReal_frame[OF no_candidate(3)])
  have "usersOk s' = usersOk s" by (rule usersOk_cong; subst s'; simp)
  moreover have "wellShaped s' = wellShaped s" by (subst s') (simp add: wellShaped_def)
  ultimately show ?case using physOk_no_candidate[OF no_candidate(3,2)] no_candidate(4) by (simp add: simInv_def)
next
  case (run_head c s st s')
  note w = run_head(3)[unfolded simInv_def]
  note f = queueStep_frame[OF run_head(2,1)]
  have "usersOk s' = usersOk s" using w f by (intro usersOk_cong) auto
  then show ?case using w physOk_queueStep[OF run_head(2) _ run_head(1)] f(1) by (simp add: simInv_def)
qed

lemma simOk_steps: "sim_step\<^sup>*\<^sup>* s s' \<Longrightarrow> simInv strict s \<Longrightarrow> simInv strict s'"
  by (induction rule: rtranclp_induct) (auto intro: simOk_step)

text \<open>The start: dynamic barriers have no physical id yet, static ones a valid one.\<close>

definition startOk :: "nat \<Rightarrow> simulator \<Rightarrow> bool" where
  "startOk limit s \<longleftrightarrow>
     list_all (\<lambda>b. if dynamicBarriers s then realId b = -1 else 0 \<le> realId b \<and> realId b < int limit) (barriers s) \<and>
     list_all (list_all (userOk (length (barriers s)) (tracker s))) (dmaTasks s @ [nceTasks s, actTasks s, upaTasks s, m2iTasks s])"

lemma startState_ring:
  "ringOk (fold pushRing xs (resetRing 0 (length xs) emptyRing))"
  "ringContents (fold pushRing xs (resetRing 0 (length xs) emptyRing)) = xs"
  "length (storage (fold pushRing xs (resetRing 0 (length xs) emptyRing))) = length xs"
  using ring.push_all[of "resetRing 0 (length xs) emptyRing" xs] by (simp_all add: resetRing_ok)

lemma simOk_start:
  assumes "startOk limit s"
  shows "simInv strict (startState limit s)"
proof -
  have q: "list_all (userOk (length (barriers s)) (tracker s)) (queueOf c (startState limit s))" if "c \<in> set (allQueues (startState limit s))" for c
  proof -
    have "queueOf c (startState limit s) \<in> set (dmaTasks s @ [nceTasks s, actTasks s, upaTasks s, m2iTasks s])"
      using that by (cases c rule: sim_queue.exhaust) (auto simp: allQueues_def)
    moreover have "list_all (list_all (userOk (length (barriers s)) (tracker s))) (dmaTasks s @ [nceTasks s, actTasks s, upaTasks s, m2iTasks s])"
      using assms by (simp only: startOk_def)
    ultimately show ?thesis unfolding list_all_iff[of "list_all _"] by blast
  qed
  have r: "ringMatches (startState limit s)" if "dynamicBarriers s"
    using that startState_ring[of "map int [0..<limit]"] by (auto simp: ringMatches_def freeReals_def distinct_map)
  show ?thesis
    using q r assms unfolding simInv_def usersOk_def physInv_def
    by (auto simp: startOk_def list_all_length validReal_def nat_less_iff)
qed

end
