(* ===== verification/Simulation_Live.thy ===== *)
theory Simulation_Live
  imports Simulation_Exclusive
begin

text \<open>
  With a physical barrier for every virtual one, counts that agree with the queues, and an order
  of the entries in which producers come before consumers, the simulation never blocks or fails.
\<close>

section \<open>What processing does to the counts\<close>

definition wanted :: "(dep_tracker \<Rightarrow> user_config \<Rightarrow> nat list) \<Rightarrow> dep_tracker \<Rightarrow> nat \<Rightarrow> user_config \<Rightarrow> int" where
  "wanted f t v u = userCount u * int (count_list (f t u) v)"

lemma consumeBarriers_counts:
  "consumeBarriers vs u s = (True, u', s') \<Longrightarrow> set vs \<subseteq> {..<length (barriers s)} \<Longrightarrow>
    (\<forall>v. realId (barAt s' v) = realId (barAt s v) \<and> producerCount (barAt s' v) = producerCount (barAt s v) \<and>
      consumerCount (barAt s' v) = consumerCount (barAt s v) - userCount u * int (count_list vs v))"
proof (induction vs u s arbitrary: u' s' rule: consumeBarriers.induct)
  case (2 v vs u s)
  let ?b = "barAt s v"
  have ok: "isBarrierMapped s v (realId ?b)" "\<not> (producerCount ?b \<noteq> 0 \<or> consumerCount ?b < userCount u)"
    using 2(2) by (auto simp: Let_def split: if_splits)
  define b' where "b' = ?b\<lparr>consumerCount := consumerCount ?b - userCount u\<rparr>"
  define s1 where "s1 = setBarrier v b' s"
  define s2 where "s2 = (if consumerCount b' = 0 then freePhysical (realId ?b) s1 else s1)"
  have b: "barriers s2 = (barriers s)[v := b']"
    by (simp add: s2_def s1_def setBarrier_def freePhysical_def Let_def)
  have run: "consumeBarriers vs (u\<lparr>waits := insert (realId ?b) (waits u), startAfter := max (startAfter u) (int v + 1)\<rparr>) s2 = (True, u', s')"
    using 2(2) ok by (auto simp: s2_def s1_def b'_def Let_def split: if_splits)
  have v: "v < length (barriers s)" using 2(3) by simp
  have "\<forall>w. realId (barAt s' w) = realId (barAt s2 w) \<and> producerCount (barAt s' w) = producerCount (barAt s2 w) \<and>
      consumerCount (barAt s' w) = consumerCount (barAt s2 w) - userCount u * int (count_list vs w)"
    using 2(1)[OF refl refl ok b'_def s1_def refl] run 2(3) b unfolding s2_def by simp
  then show ?case using v unfolding b
    by (auto simp: nth_list_update b'_def algebra_simps)
qed simp

lemma produceBarriers_counts:
  "produceBarriers vs u s = (True, u', s') \<Longrightarrow> set vs \<subseteq> {..<length (barriers s)} \<Longrightarrow>
    (\<forall>v. realId (barAt s' v) = realId (barAt s v) \<and> consumerCount (barAt s' v) = consumerCount (barAt s v) \<and>
      producerCount (barAt s' v) = producerCount (barAt s v) - userCount u * int (count_list vs v))"
proof (induction vs u s arbitrary: u' s' rule: produceBarriers.induct)
  case (2 v vs u s)
  let ?b = "barAt s v"
  have ok: "isBarrierMapped s v (realId ?b)" "\<not> producerCount ?b < userCount u"
    using 2(2) by (auto simp: Let_def split: if_splits)
  have v: "v < length (barriers s)" using 2(3) by simp
  then show ?case
    using 2(1)[OF refl refl ok, of u' s'] 2(2,3) ok
    by (auto simp: Let_def setBarrier_def nth_list_update algebra_simps)
qed simp

lemma processSim_counts:
  assumes "processSim u s = (Success, u', s')" "userOk (length (barriers s)) (tracker s) u"
  shows "realId (barAt s' v) = realId (barAt s v)"
    "consumerCount (barAt s' v) = consumerCount (barAt s v) - wanted userWaits (tracker s) v u"
    "producerCount (barAt s' v) = producerCount (barAt s v) - wanted userPosts (tracker s) v u"
proof -
  obtain u1 s1 where c: "consumeBarriers (userWaits (tracker s) u) (u\<lparr>startAfter := 0\<rparr>) s = (True, u1, s1)"
    and d: "produceBarriers (userPosts (tracker s) u) (u1\<lparr>cleanAfter := int (length (barriers s1))\<rparr>) s1 = (True, u', s')"
    using assms(1) by (auto simp: processSim_def Let_def userWaits_def userPosts_def split: if_splits prod.splits)
  have l: "length (barriers s1) = length (barriers s)" and n: "userCount u1 = userCount u"
    using consumeBarriers_frame[OF c] keepsPlan_simps(1) by auto
  show "realId (barAt s' v) = realId (barAt s v)"
    "consumerCount (barAt s' v) = consumerCount (barAt s v) - wanted userWaits (tracker s) v u"
    "producerCount (barAt s' v) = producerCount (barAt s v) - wanted userPosts (tracker s) v u"
    using consumeBarriers_counts[OF c] produceBarriers_counts[OF d] assms(2) l n
    by (auto simp: userOk_def wanted_def)
qed

text \<open>Dynamic barriers that are mapped stay mapped for the checks, so only the counts can fail.\<close>

lemma consumeBarriers_succeeds:
  assumes "dynamicBarriers s" "set vs \<subseteq> {..<length (barriers s)}" "0 < userCount u"
    "\<And>v. v \<in> set vs \<Longrightarrow> validReal s (realId (barAt s v)) \<and> producerCount (barAt s v) = 0 \<and> userCount u * int (count_list vs v) \<le> consumerCount (barAt s v)"
  shows "\<exists>u' s'. consumeBarriers vs u s = (True, u', s')"
  using assms
proof (induction vs u s rule: consumeBarriers.induct)
  case (2 v vs u s)
  let ?b = "barAt s v"
  have nn: "0 \<le> userCount u * int (count_list vs w)" for w using 2(4) by simp
  have at: "validReal s (realId ?b)" "producerCount ?b = 0" "userCount u + userCount u * int (count_list vs v) \<le> consumerCount ?b"
    using 2(5)[of v] by (auto simp: algebra_simps)
  have ok: "isBarrierMapped s v (realId ?b)" "\<not> (producerCount ?b \<noteq> 0 \<or> consumerCount ?b < userCount u)"
    using at nn[of v] 2(2) by (auto simp: isBarrierMapped_def validReal_def)
  define b' where "b' = ?b\<lparr>consumerCount := consumerCount ?b - userCount u\<rparr>"
  define s1 where "s1 = setBarrier v b' s"
  define s2 where "s2 = (if consumerCount b' = 0 then freePhysical (realId ?b) s1 else s1)"
  have f: "barriers s2 = (barriers s)[v := b']" "dynamicBarriers s2" "length (toVirtual s2) = length (toVirtual s)"
    using 2(2) by (auto simp: s2_def s1_def setBarrier_def freePhysical_def Let_def)
  have v: "v < length (barriers s)" using 2(3) by simp
  have "\<exists>u' s'. consumeBarriers vs (u\<lparr>waits := insert (realId ?b) (waits u), startAfter := max (startAfter u) (int v + 1)\<rparr>) s2 = (True, u', s')"
    unfolding s2_def
  proof (rule 2(1)[OF refl refl ok b'_def s1_def refl], fold s2_def)
    fix w assume w: "w \<in> set vs"
    show "validReal s2 (realId (barAt s2 w)) \<and> producerCount (barAt s2 w) = 0 \<and>
      userCount (u\<lparr>waits := insert (realId ?b) (waits u), startAfter := max (startAfter u) (int v + 1)\<rparr>) * int (count_list vs w) \<le> consumerCount (barAt s2 w)"
    proof (cases "w = v")
      case True
      then show ?thesis using at f v by (simp add: validReal_def b'_def)
    next
      case False
      then show ?thesis using 2(5)[of w] w f by (auto simp: validReal_def)
    qed
  qed (use 2(3,4) f in auto)
  then show ?case using ok by (auto simp: s2_def s1_def b'_def Let_def cong: if_cong)
qed simp

lemma produceBarriers_succeeds:
  assumes "dynamicBarriers s" "set vs \<subseteq> {..<length (barriers s)}" "0 < userCount u"
    "\<And>v. v \<in> set vs \<Longrightarrow> validReal s (realId (barAt s v)) \<and> userCount u * int (count_list vs v) \<le> producerCount (barAt s v)"
  shows "\<exists>u' s'. produceBarriers vs u s = (True, u', s')"
  using assms
proof (induction vs u s rule: produceBarriers.induct)
  case (2 v vs u s)
  let ?b = "barAt s v"
  have nn: "0 \<le> userCount u * int (count_list vs w)" for w using 2(4) by simp
  have at: "validReal s (realId ?b)" "userCount u + userCount u * int (count_list vs v) \<le> producerCount ?b"
    using 2(5)[of v] by (auto simp: algebra_simps)
  have ok: "isBarrierMapped s v (realId ?b)" "\<not> producerCount ?b < userCount u"
    using at nn[of v] 2(2) by (auto simp: isBarrierMapped_def validReal_def)
  let ?s1 = "setBarrier v (?b\<lparr>producerCount := producerCount ?b - userCount u\<rparr>) s"
  let ?u1 = "u\<lparr>posts := insert (realId ?b) (posts u), startAfter := max (startAfter u) (int v + 1), cleanAfter := min (cleanAfter u) (int v)\<rparr>"
  have v: "v < length (barriers s)" using 2(3) by simp
  have "\<exists>u' s'. produceBarriers vs ?u1 ?s1 = (True, u', s')"
  proof (rule 2(1)[OF refl refl ok])
    fix w assume w: "w \<in> set vs"
    show "validReal ?s1 (realId (barAt ?s1 w)) \<and> userCount ?u1 * int (count_list vs w) \<le> producerCount (barAt ?s1 w)"
    proof (cases "w = v")
      case True
      then show ?thesis using at v by (simp add: validReal_def setBarrier_def)
    next
      case False
      then show ?thesis using 2(5)[of w] w by (auto simp: validReal_def setBarrier_def)
    qed
  qed (use 2(2-4) in \<open>auto simp: setBarrier_def\<close>)
  then show ?case using ok by (simp add: Let_def)
qed simp

section \<open>Counts that agree with the queues\<close>

definition queueWant :: "(dep_tracker \<Rightarrow> user_config \<Rightarrow> nat list) \<Rightarrow> dep_tracker \<Rightarrow> nat \<Rightarrow> user_config list \<Rightarrow> int" where
  "queueWant f t v us = (\<Sum>u\<leftarrow>us. wanted f t v u)"

definition pend :: "(dep_tracker \<Rightarrow> user_config \<Rightarrow> nat list) \<Rightarrow> sim_state \<Rightarrow> nat \<Rightarrow> int" where
  "pend f s v = (\<Sum>c\<leftarrow>allQueues s. queueWant f (tracker s) v (drop (headOf c s) (queueOf c s)))"

definition balanced :: "sim_state \<Rightarrow> bool" where
  "balanced s \<longleftrightarrow> (\<forall>v<length (barriers s). consumerCount (barAt s v) = pend userWaits s v \<and> producerCount (barAt s v) = pend userPosts s v)"

definition byDep :: "(dep_tracker \<Rightarrow> user_config \<Rightarrow> nat list) \<Rightarrow> bool" where
  "byDep f \<longleftrightarrow> (\<forall>t u u'. virtualDep u = virtualDep u' \<longrightarrow> f t u = f t u')"

lemma byDep_users [simp]: "byDep userWaits" "byDep userPosts"
  by (simp_all add: byDep_def userWaits_def userPosts_def)

lemma wanted_key: "byDep f \<Longrightarrow> userKey u = userKey u' \<Longrightarrow> wanted f t v u = wanted f t v u'"
  unfolding byDep_def wanted_def userKey_def by (metis prod.inject)

lemma queueWant_key: "byDep f \<Longrightarrow> map userKey us = map userKey us' \<Longrightarrow> queueWant f t v us = queueWant f t v us'"
proof (induction us arbitrary: us')
  case (Cons u us)
  then obtain u' ws where us': "us' = u' # ws" "userKey u = userKey u'" "map userKey us = map userKey ws" by (cases us') auto
  then show ?case using Cons.IH[OF Cons.prems(1) us'(3)] wanted_key[OF Cons.prems(1) us'(2)] by (simp add: queueWant_def)
qed simp

lemma pend_step:
  assumes "queueStep c s = (st, s')" "hasEntry c s" "wellShaped s" "byDep f"
  shows "pend f s' v = pend f s v - (if st = Success then wanted f (tracker s) v (queueOf c s ! headOf c s) else 0)"
proof -
  note fr = queueStep_frame[OF assms(1-3)]
  let ?w = "\<lambda>x d. queueWant f (tracker s) v (drop (headOf d x) (queueOf d x))"
  have same: "?w s' d = queueWant f (tracker s) v (drop (headOf d s + (if st = Success \<and> d = c then 1 else 0)) (queueOf d s))" for d
    unfolding fr(6) using fr(7)[of d] by (intro queueWant_key[OF assms(4)]) (simp add: drop_map[symmetric])
  have c: "c \<in> set (allQueues s)" "headOf c s < length (queueOf c s)" using assms(2) by (auto simp: hasEntry_def)
  have hd: "?w s c = wanted f (tracker s) v (queueOf c s ! headOf c s) + queueWant f (tracker s) v (drop (headOf c s + 1) (queueOf c s))"
    using Cons_nth_drop_Suc[OF c(2), symmetric] by (simp add: queueWant_def)
  have "pend f s' v = sum (?w s') (set (allQueues s))" "pend f s v = sum (?w s) (set (allQueues s))"
    by (simp_all add: pend_def fr(2,9) sum_list_distinct_conv_sum_set)
  moreover have "sum (?w s') (set (allQueues s) - {c}) = sum (?w s) (set (allQueues s) - {c})"
    by (intro sum.cong) (auto simp: same)
  ultimately show ?thesis using c(1) hd
    by (simp add: sum.remove[of "set (allQueues s)" c] same)
qed

lemma pend_cong:
  assumes "allQueues s' = allQueues s" "tracker s' = tracker s" "\<And>c. queueOf c s' = queueOf c s" "\<And>c. headOf c s' = headOf c s"
  shows "pend f s' v = pend f s v"
  by (simp add: pend_def assms)

lemma wanted_nonneg: "0 < userCount u \<Longrightarrow> 0 \<le> wanted f t v u"
  by (simp add: wanted_def)

lemma pend_nonneg:
  assumes "usersOk s"
  shows "0 \<le> pend f s v"
  unfolding pend_def queueWant_def using assms
  by (intro sum_list_nonneg) (auto simp: usersOk_def list_all_iff userOk_def dest!: in_set_dropD intro!: sum_list_nonneg wanted_nonneg)

lemma pend_entry:
  assumes "usersOk s" "c \<in> set (allQueues s)" "headOf c s \<le> i" "i < length (queueOf c s)"
  shows "wanted f (tracker s) v (queueOf c s ! i) \<le> pend f s v"
proof -
  let ?w = "\<lambda>d. queueWant f (tracker s) v (drop (headOf d s) (queueOf d s))"
  have pos: "0 \<le> wanted f (tracker s) v u" if "d \<in> set (allQueues s)" "u \<in> set (drop (headOf d s) (queueOf d s))" for d u
    using assms(1) that by (auto simp: usersOk_def list_all_iff userOk_def dest!: in_set_dropD intro!: wanted_nonneg)
  have "queueOf c s ! i \<in> set (drop (headOf c s) (queueOf c s))"
    using assms(3,4) by (auto simp: in_set_conv_nth intro!: exI[of _ "i - headOf c s"])
  then have "wanted f (tracker s) v (queueOf c s ! i) \<le> ?w c"
    unfolding queueWant_def using pos[OF assms(2)] by (intro member_le_sum_list) (auto simp: in_set_conv_nth)
  also have "?w c \<le> pend f s v"
    unfolding pend_def using assms(2) pos by (intro member_le_sum_list) (auto simp: queueWant_def intro!: sum_list_nonneg)
  finally show ?thesis .
qed

section \<open>Enough physical barriers\<close>

definition liveOk :: "sim_state \<Rightarrow> bool" where
  "liveOk s \<longleftrightarrow> simOk s \<and> dynamicBarriers s \<and> \<not> samePid s \<and> multiQueue s = [] \<and> balanced s \<and>
     length (barriers s) \<le> length (toVirtual s)"

text \<open>At most one physical barrier per mapped virtual one is taken, so an unmapped one finds a free one.\<close>

lemma free_left:
  assumes "physOk s" "length (barriers s) \<le> length (toVirtual s)" "bar s < length (barriers s)" "dynamicBarriers s"
  shows "hasBarriersToMap s"
proof -
  let ?R = "{r. r < length (toVirtual s) \<and> toVirtual s ! r \<noteq> -1}"
  have "inj_on (\<lambda>r. nat (toVirtual s ! r)) ?R"
  proof (rule inj_onI)
    fix r r' assume a: "r \<in> ?R" "r' \<in> ?R" "nat (toVirtual s ! r) = nat (toVirtual s ! r')"
    obtain v where v: "toVirtual s ! r = int v" "realId (barAt s v) = int r" using physOkD(3)[OF assms(1)] a(1) by blast
    obtain w where w: "toVirtual s ! r' = int w" "realId (barAt s w) = int r'" using physOkD(3)[OF assms(1)] a(2) by blast
    show "r = r'" using a(3) v w by simp
  qed
  moreover have "(\<lambda>r. nat (toVirtual s ! r)) ` ?R \<subseteq> {..<bar s}" 
  proof
    fix x assume "x \<in> (\<lambda>r. nat (toVirtual s ! r)) ` ?R"
    then obtain r where "x = nat (toVirtual s ! r)" "r < length (toVirtual s)" "toVirtual s ! r \<noteq> -1" by blast
    then show "x \<in> {..<bar s}" using physOkD(3)[OF assms(1), of r] by auto
  qed
  ultimately have "card ?R \<le> bar s" using card_inj_on_le[of _ ?R "{..<bar s}"] by simp
  moreover have "card {r. r < length (toVirtual s)} = length (toVirtual s)" by simp
  ultimately have "card ?R \<noteq> card {r. r < length (toVirtual s)}" using assms(2,3) by linarith
  then have "?R \<noteq> {r. r < length (toVirtual s)}" by metis
  then obtain r where r: "r < length (toVirtual s)" "toVirtual s ! r = -1" by blast
  then have "int r \<in> freeReals s" by (simp add: freeReals_def)
  moreover have "set (ringContents (nextReal s)) = freeReals s" using physOkD(5)[OF assms(1,4)] by (simp add: ringMatches_def)
  ultimately have "ringContents (nextReal s) \<noteq> []" by force
  then show ?thesis using assms(4) by (simp add: hasBarriersToMap_def ringEmpty_iff)
qed

lemma balanced_cong:
  assumes "length (barriers s') = length (barriers s)" "\<And>v. consumerCount (barAt s' v) = consumerCount (barAt s v)"
    "\<And>v. producerCount (barAt s' v) = producerCount (barAt s v)" "\<And>f v. pend f s' v = pend f s v"
  shows "balanced s' = balanced s"
  by (simp add: balanced_def assms)

lemma mapBarrier_counts:
  "consumerCount (barAt (mapBarrier r s) v) = consumerCount (barAt s v)" "producerCount (barAt (mapBarrier r s) v) = producerCount (barAt s v)"
proof -
  have b: "barriers (mapBarrier r s) = (if dynamicBarriers s then (barriers s)[bar s := (barAt s (bar s))\<lparr>realId := r\<rparr>] else barriers s)"
    by (simp add: mapBarrier_def setBarrier_def Let_def)
  have "xs[i := f (xs ! i)] ! v = (if v = i \<and> i < length xs then f (xs ! v) else xs ! v)" for xs :: "barrier_config list" and i f
    by (cases "i < length xs") (auto simp: nth_list_update list_update_beyond)
  then show "consumerCount (barAt (mapBarrier r s) v) = consumerCount (barAt s v)" "producerCount (barAt (mapBarrier r s) v) = producerCount (barAt s v)"
    unfolding b by simp_all
qed

lemma liveOk_mapBarrier:
  assumes "liveOk s" "bar s < length (barriers s)"
  shows "\<exists>real s1. hasBarriersToMap s \<and> takeReal s = (Some real, s1) \<and> \<not> real < 0 \<and> liveOk (mapBarrier real s1) \<and>
    bar (mapBarrier real s1) = bar s + 1 \<and> length (barriers (mapBarrier real s1)) = length (barriers s)"
proof -
  note l = assms(1)[unfolded liveOk_def simInv_def]
  have h: "hasBarriersToMap s" using l assms(2) by (intro free_left) auto
  obtain real s1 where t: "takeReal s = (Some real, s1)" using l by (auto simp: takeReal_def)
  have r: "\<not> real < 0" using takeReal_free(1)[where strict = True, OF t h _ assms(2)] l by (simp add: validReal_def)
  have s1: "s1 = s\<lparr>nextReal := nextReal s1\<rparr>" by (rule takeReal_frame[OF t])
  let ?m = "mapBarrier real s1"
  have ok: "simOk ?m" by (rule simOk_step[OF sim_step.map_barrier[OF assms(2) h t r]]) (use l in \<open>simp add: simInv_def\<close>)
  have m: "length (barriers ?m) = length (barriers s)" "length (toVirtual ?m) = length (toVirtual s)" "allQueues ?m = allQueues s"
    "tracker ?m = tracker s" "dynamicBarriers ?m = dynamicBarriers s" "samePid ?m = samePid s" "bar ?m = bar s + 1" "multiQueue ?m = multiQueue s"
    by (subst s1, simp add: mapBarrier_frame)+
  have q: "queueOf c ?m = queueOf c s" "headOf c ?m = headOf c s" for c
    by (subst s1, simp add: mapBarrier_frame)+
  have n: "consumerCount (barAt ?m v) = consumerCount (barAt s v)" "producerCount (barAt ?m v) = producerCount (barAt s v)" for v
    by (subst s1, simp add: mapBarrier_counts)+
  have "balanced ?m = balanced s" by (intro balanced_cong m n pend_cong q)
  then have "liveOk ?m" using ok l m by (simp add: liveOk_def)
  then show ?thesis using h t r m by blast
qed

lemma liveOk_mapBarriers:
  "liveOk s \<Longrightarrow> bar s + k = length (barriers s) \<Longrightarrow> \<exists>s'. mapBarriers k s = Inr s' \<and> liveOk s' \<and> bar s' = length (barriers s')"
proof (induction k arbitrary: s)
  case (Suc k)
  obtain real s1 where m: "hasBarriersToMap s" "takeReal s = (Some real, s1)" "\<not> real < 0" "liveOk (mapBarrier real s1)"
    "bar (mapBarrier real s1) = bar s + 1" "length (barriers (mapBarrier real s1)) = length (barriers s)"
    using liveOk_mapBarrier[of s] Suc.prems by auto
  then show ?case using Suc.IH[OF m(4)] Suc.prems(2) by simp
qed simp

section \<open>No entry fails\<close>

lemma count_list_pos: "v \<in> set vs \<Longrightarrow> 0 < count_list vs v"
  by (induction vs) auto

lemma liveOk_process:
  assumes "liveOk s" "hasEntry c s" "bar s = length (barriers s)"
  defines "u \<equiv> queueOf c s ! headOf c s"
  shows "\<exists>st u' s'. processSim u s = (st, u', s') \<and> st \<noteq> Fail \<and> (st = Skip \<longrightarrow> u' = u \<and> s' = s) \<and>
    (st = Skip \<longleftrightarrow> (\<exists>v\<in>set (userWaits (tracker s) u). 0 < producerCount (barAt s v)))"
proof -
  note l = assms(1)[unfolded liveOk_def simInv_def]
  note c = assms(2)[unfolded hasEntry_def]
  have uok: "userOk (length (barriers s)) (tracker s) u" using l c by (auto simp: usersOk_def list_all_length u_def)
  have val: "validReal s (realId (barAt s v))" if "v < length (barriers s)" for v
    using physOkD(2)[of s v] l assms(3) that by simp
  have mapped: "isBarrierMapped s v (realId (barAt s v))" if "v < length (barriers s)" for v
    using val[OF that] l by (simp add: isBarrierMapped_def validReal_def)
  have bal: "consumerCount (barAt s v) = pend userWaits s v" "producerCount (barAt s v) = pend userPosts s v" if "v < length (barriers s)" for v
    using l that by (auto simp: balanced_def)
  have ent: "wanted f (tracker s) v u \<le> pend f s v" for f v using pend_entry[of s c "headOf c s" f v] l c by (simp add: u_def)
  have post: "postsMapped s (userPosts (tracker s) u)" using uok mapped by (auto simp: postsMapped_def list_all_iff userOk_def)
  show ?thesis
  proof (cases "\<exists>v\<in>set (userWaits (tracker s) u). 0 < producerCount (barAt s v)")
    case True
    then have "\<not> waitsReady s (userWaits (tracker s) u)" by (auto simp: waitsReady_def list_all_iff)
    then have "processSim u s = (Skip, u, s)" by (simp add: processSim_def Let_def userWaits_def)
    with True show ?thesis by simp
  next
    case False
    have ready: "waitsReady s (userWaits (tracker s) u)" using False uok mapped by (auto simp: waitsReady_def list_all_iff userOk_def)
    have "\<exists>u1 s1. consumeBarriers (userWaits (tracker s) u) (u\<lparr>startAfter := 0\<rparr>) s = (True, u1, s1)"
    proof (rule consumeBarriers_succeeds)
      fix v assume v: "v \<in> set (userWaits (tracker s) u)"
      then have n: "v < length (barriers s)" using uok by (auto simp: userOk_def)
      have "producerCount (barAt s v) = 0" using False v bal(2)[OF n] pend_nonneg[of s userPosts v] l by force
      then show "validReal s (realId (barAt s v)) \<and> producerCount (barAt s v) = 0 \<and>
        userCount (u\<lparr>startAfter := 0\<rparr>) * int (count_list (userWaits (tracker s) u) v) \<le> consumerCount (barAt s v)"
        using val[OF n] ent[of userWaits v] bal(1)[OF n] by (simp add: wanted_def)
    qed (use l uok in \<open>auto simp: userOk_def\<close>)
    then obtain u1 s1 where c1: "consumeBarriers (userWaits (tracker s) u) (u\<lparr>startAfter := 0\<rparr>) s = (True, u1, s1)" by blast
    note fr = consumeBarriers_frame[OF c1] and k = keepsPlan_simps[OF conjunct1[OF consumeBarriers_frame[OF c1]]]
    have cnt: "realId (barAt s1 v) = realId (barAt s v)" "producerCount (barAt s1 v) = producerCount (barAt s v)" for v
      using consumeBarriers_counts[OF c1] uok by (auto simp: userOk_def)
    have "\<exists>u2 s2. produceBarriers (userPosts (tracker s) u) (u1\<lparr>cleanAfter := int (length (barriers s1))\<rparr>) s1 = (True, u2, s2)"
    proof (rule produceBarriers_succeeds)
      fix v assume v: "v \<in> set (userPosts (tracker s) u)"
      then have n: "v < length (barriers s)" using uok by (auto simp: userOk_def)
      show "validReal s1 (realId (barAt s1 v)) \<and> userCount (u1\<lparr>cleanAfter := int (length (barriers s1))\<rparr>) * int (count_list (userPosts (tracker s) u) v) \<le> producerCount (barAt s1 v)"
        using val[OF n] ent[of userPosts v] bal(2)[OF n] fr k cnt by (simp add: wanted_def validReal_def)
    qed (use l uok fr k in \<open>auto simp: userOk_def\<close>)
    then obtain u2 s2 where "produceBarriers (userPosts (tracker s) u) (u1\<lparr>cleanAfter := int (length (barriers s1))\<rparr>) s1 = (True, u2, s2)" by blast
    then have "processSim u s = (Success, u2, s2)"
      using c1 ready post by (simp add: processSim_def Let_def userWaits_def userPosts_def)
    with False show ?thesis by simp
  qed
qed

section \<open>No round is blocked\<close>

lemma liveOk_queueStep:
  assumes "liveOk s" "hasEntry c s" "bar s = length (barriers s)" "queueStep c s = (st, s')"
  shows "st \<noteq> Fail" "liveOk s'" "bar s' = length (barriers s')" "st = Skip \<Longrightarrow> s' = s"
    "st = Skip \<longleftrightarrow> (\<exists>v\<in>set (userWaits (tracker s) (queueOf c s ! headOf c s)). 0 < producerCount (barAt s v))"
proof -
  note l = assms(1)[unfolded liveOk_def simInv_def]
  note c = assms(2)[unfolded hasEntry_def]
  let ?u = "queueOf c s ! headOf c s"
  obtain st1 u s1 where p: "processSim ?u s = (st1, u, s1)" "st1 \<noteq> Fail" "st1 = Skip \<Longrightarrow> u = ?u \<and> s1 = s"
    "st1 = Skip \<longleftrightarrow> (\<exists>v\<in>set (userWaits (tracker s) ?u). 0 < producerCount (barAt s v))"
    using liveOk_process[OF assms(1-3)] by blast
  have none: "multiEntry c s = None" using l by (cases c) auto
  have q: "st = st1" "s' = (if st = Success then advanceQueue c (markMulti None (setUser c (headOf c s) u s1)) else setUser c (headOf c s) u s1)"
    using assms(4) p none by (auto simp: queueStep_def Let_def)
  show "st \<noteq> Fail" "st = Skip \<longleftrightarrow> (\<exists>v\<in>set (userWaits (tracker s) ?u). 0 < producerCount (barAt s v))" using p q by auto
  show skip: "s' = s" if "st = Skip"
  proof -
    have "setUser c (headOf c s) ?u s = s" by (cases c) (simp_all add: list_update_id)
    then show ?thesis using p q that by simp
  qed
  note fr = queueStep_frame[OF assms(4,2)]
  have w: "wellShaped s" using l by blast
  show "bar s' = length (barriers s')" using fr(3,4)[OF w] assms(3) by simp
  show "liveOk s'"
  proof (cases "st = Skip")
    case False
    then have st: "st = Success" using p q by (cases st1) auto
    have uok: "userOk (length (barriers s)) (tracker s) ?u" using l c by (auto simp: usersOk_def list_all_length)
    have "barriers s' = barriers s1" using q st by (simp add: advanceQueue_def other_simps)
    then have cnt: "consumerCount (barAt s' v) = consumerCount (barAt s v) - wanted userWaits (tracker s) v ?u"
      "producerCount (barAt s' v) = producerCount (barAt s v) - wanted userPosts (tracker s) v ?u" for v
      using processSim_counts[OF p(1)[folded q(1), unfolded st] uok] by simp_all
    have "balanced s'"
      using l pend_step[OF assms(4,2) w] fr(4)[OF w] cnt st by (simp add: balanced_def)
    moreover have "simOk s'" using simOk_step[where strict = True, OF sim_step.run_head[OF assms(2,4)]] l by (simp add: simInv_def)
    moreover have "multiQueue s' = []"
      using l q st keepsPlan_simps(10)[OF processSim_frame(1)[OF p(1)]] by (simp add: advanceQueue_def other_simps markMulti_def)
    ultimately show ?thesis using l fr[OF w] by (simp add: liveOk_def)
  qed (use skip assms(1) in simp)
qed

lemma liveOk_runQueue:
  "liveOk s \<Longrightarrow> bar s = length (barriers s) \<Longrightarrow> c \<in> set (allQueues s) \<Longrightarrow> headOf c s + k = length (queueOf c s) \<Longrightarrow>
    \<exists>s'. runQueue k c s = (True, s') \<and> liveOk s' \<and> bar s' = length (barriers s') \<and>
      (simWork s' = simWork s \<longrightarrow> s' = s \<and> (hasEntry c s \<longrightarrow> fst (queueStep c s) = Skip))"
proof (induction k arbitrary: s)
  case 0
  then show ?case by (simp add: hasEntry_def)
next
  case (Suc k)
  obtain st s1 where q: "queueStep c s = (st, s1)" by fastforce
  have e: "hasEntry c s" and w: "wellShaped s" using Suc.prems by (auto simp: hasEntry_def liveOk_def simInv_def)
  note l = liveOk_queueStep[OF Suc.prems(1) e Suc.prems(2) q] and fr = queueStep_frame[OF q e w]
  show ?case
  proof (cases st)
    case Success
    have len: "length (queueOf c s1) = length (queueOf c s)" using fr(7) by (rule map_key_length)
    obtain s' where r: "runQueue k c s1 = (True, s')" "liveOk s'" "bar s' = length (barriers s')"
      using Suc.IH[OF l(2,3)] Suc.prems(3,4) fr(2) fr(6)[of c] len Success by auto
    have "simWork s1 < simWork s" using simWork_queueStep[OF q e w] Success by simp
    moreover have "simWork s' \<le> simWork s1"
      using progresses_runQueue[OF r(1)] Suc.prems(3,4) fr(1,2) fr(6)[of c] len Success by (auto simp: progresses_def)
    ultimately show ?thesis using q Success r by simp
  qed (use q l Suc.prems in auto)
qed

lemma liveOk_runQueues:
  "liveOk s \<Longrightarrow> bar s = length (barriers s) \<Longrightarrow> set cs \<subseteq> set (allQueues s) \<Longrightarrow>
    \<exists>s'. runQueues cs s = (True, s') \<and> liveOk s' \<and>
      (simWork s' = simWork s \<longrightarrow> s' = s \<and> (\<forall>c\<in>set cs. hasEntry c s \<longrightarrow> fst (queueStep c s) = Skip))"
proof (induction cs arbitrary: s)
  case (Cons c cs)
  have w: "wellShaped s" using Cons.prems by (simp add: liveOk_def simInv_def)
  obtain s1 where r: "runQueue (length (queueOf c s) - headOf c s) c s = (True, s1)" "liveOk s1" "bar s1 = length (barriers s1)"
      "simWork s1 = simWork s \<Longrightarrow> s1 = s \<and> (hasEntry c s \<longrightarrow> fst (queueStep c s) = Skip)" "allQueues s1 = allQueues s" "simWork s1 \<le> simWork s"
  proof (cases "headOf c s \<le> length (queueOf c s)")
    case True
    then obtain s1 where r: "runQueue (length (queueOf c s) - headOf c s) c s = (True, s1)" "liveOk s1" "bar s1 = length (barriers s1)"
      "simWork s1 = simWork s \<Longrightarrow> s1 = s \<and> (hasEntry c s \<longrightarrow> fst (queueStep c s) = Skip)"
      using liveOk_runQueue[OF Cons.prems(1,2), of c "length (queueOf c s) - headOf c s"] Cons.prems(3) by auto
    then show ?thesis using progresses_runQueue[OF r(1)] Cons.prems(3) w True that by (auto simp: progresses_def)
  next
    case False
    then show ?thesis using Cons.prems that[of s] by (simp add: hasEntry_def)
  qed
  obtain s' where t: "runQueues cs s1 = (True, s')" "liveOk s'"
    "simWork s' = simWork s1 \<Longrightarrow> s' = s1 \<and> (\<forall>c\<in>set cs. hasEntry c s1 \<longrightarrow> fst (queueStep c s1) = Skip)"
    using Cons.IH[OF r(2,3)] Cons.prems(3) r(5) by auto
  have le: "simWork s' \<le> simWork s1"
    using progresses_runQueues[OF t(1)] Cons.prems(3) r(2,5) by (auto simp: progresses_def liveOk_def simInv_def)
  have "simWork s' = simWork s \<longrightarrow> s' = s \<and> (\<forall>d\<in>set (c # cs). hasEntry d s \<longrightarrow> fst (queueStep d s) = Skip)"
  proof
    assume "simWork s' = simWork s"
    then have a: "simWork s1 = simWork s" "simWork s' = simWork s1" using le r(6) by auto
    show "s' = s \<and> (\<forall>d\<in>set (c # cs). hasEntry d s \<longrightarrow> fst (queueStep d s) = Skip)"
      using r(4)[OF a(1)] t(3)[OF a(2)] by auto
  qed
  then show ?case using r(1) t(1,2) by simp
qed simp

text \<open>An order of the entries that the queues and the barriers respect: the program order.\<close>

definition orderedBy :: "(sim_queue \<Rightarrow> nat \<Rightarrow> nat) \<Rightarrow> sim_state \<Rightarrow> bool" where
  "orderedBy ord s \<longleftrightarrow>
     (\<forall>c\<in>set (allQueues s). \<forall>j<length (queueOf c s). \<forall>i<j. ord c i < ord c j) \<and>
     (\<forall>c\<in>set (allQueues s). \<forall>i<length (queueOf c s). \<forall>d\<in>set (allQueues s). \<forall>j<length (queueOf d s).
        ord c i < ord d j \<or> set (userPosts (tracker s) (queueOf c s ! i)) \<inter> set (userWaits (tracker s) (queueOf d s ! j)) = {})"

lemma orderedBy_cong:
  assumes "allQueues s' = allQueues s" "tracker s' = tracker s" "\<And>c. map userKey (queueOf c s') = map userKey (queueOf c s)"
  shows "orderedBy ord s' = orderedBy ord s"
proof -
  have len: "length (queueOf c s') = length (queueOf c s)" for c by (rule map_key_length[OF assms(3)])
  have "virtualDep (queueOf c s' ! i) = virtualDep (queueOf c s ! i)" if "i < length (queueOf c s)" for c i
    using arg_cong[OF assms(3)[of c], of "\<lambda>xs. snd (xs ! i)"] that len[of c] by (simp add: userKey_def)
  then have "userPosts (tracker s) (queueOf c s' ! i) = userPosts (tracker s) (queueOf c s ! i)"
    "userWaits (tracker s) (queueOf c s' ! i) = userWaits (tracker s) (queueOf c s ! i)" if "i < length (queueOf c s)" for c i
    using that by (simp_all add: userPosts_def userWaits_def)
  then show ?thesis unfolding orderedBy_def assms(1,2) len by (simp cong: ball_cong)
qed

lemma orderedBy_step: "sim_step s s' \<Longrightarrow> simOk s \<Longrightarrow> orderedBy ord s \<Longrightarrow> orderedBy ord s'"
proof (induction rule: sim_step.induct)
  case (new_round s)
  then show ?case by (simp add: orderedBy_cong[of "s\<lparr>progressed := False\<rparr>" s])
next
  case (map_barrier s real s')
  have s': "s' = s\<lparr>nextReal := nextReal s'\<rparr>" by (rule takeReal_frame[OF map_barrier(3)])
  have "orderedBy ord (mapBarrier real s') = orderedBy ord s" by (rule orderedBy_cong; subst s'; simp add: mapBarrier_frame)
  then show ?case using map_barrier by simp
next
  case (no_candidate s s')
  have s': "s' = s\<lparr>nextReal := nextReal s'\<rparr>" by (rule takeReal_frame[OF no_candidate(3)])
  have "orderedBy ord s' = orderedBy ord s" by (rule orderedBy_cong; subst s'; simp)
  then show ?case using no_candidate by simp
next
  case (run_head c s st s')
  note fr = queueStep_frame[OF run_head(2,1)]
  have w: "wellShaped s" using run_head(3) by (simp add: simInv_def)
  have "orderedBy ord s' = orderedBy ord s" by (rule orderedBy_cong) (use fr[OF w] in auto)
  then show ?case using run_head by simp
qed

lemma orderedBy_steps: "sim_step\<^sup>*\<^sup>* s s' \<Longrightarrow> simOk s \<Longrightarrow> orderedBy ord s \<Longrightarrow> orderedBy ord s'"
  by (induction rule: rtranclp_induct) (auto intro: orderedBy_step simOk_steps)

lemma sum_list_pos_ex:
  fixes f :: "'a \<Rightarrow> int"
  shows "0 < sum_list (map f xs) \<Longrightarrow> \<exists>x\<in>set xs. 0 < f x"
  by (induction xs) (auto, force)

lemma pend_posE:
  assumes "0 < pend f s v"
  obtains c j where "c \<in> set (allQueues s)" "headOf c s \<le> j" "j < length (queueOf c s)" "v \<in> set (f (tracker s) (queueOf c s ! j))"
proof -
  obtain c where c: "c \<in> set (allQueues s)" "0 < queueWant f (tracker s) v (drop (headOf c s) (queueOf c s))"
    using sum_list_pos_ex[of "\<lambda>c. queueWant f (tracker s) v (drop (headOf c s) (queueOf c s))"] assms unfolding pend_def by blast
  obtain u where u: "u \<in> set (drop (headOf c s) (queueOf c s))" "0 < wanted f (tracker s) v u"
    using sum_list_pos_ex[of "wanted f (tracker s) v"] c(2) unfolding queueWant_def by blast
  obtain i where i: "i < length (queueOf c s) - headOf c s" "u = queueOf c s ! (headOf c s + i)"
    using u(1) by (auto simp: in_set_conv_nth)
  have "v \<in> set (f (tracker s) u)" using u(2) by (auto simp: wanted_def intro: ccontr)
  then show ?thesis using that[of c "headOf c s + i"] c(1) i by auto
qed

text \<open>The least head in the order is never waiting.\<close>

lemma some_head_ready:
  assumes "liveOk s" "bar s = length (barriers s)" "orderedBy ord s" "hasEntry c0 s"
  shows "\<exists>c. hasEntry c s \<and> fst (queueStep c s) \<noteq> Skip"
proof -
  obtain c where c: "hasEntry c s" "\<And>d. hasEntry d s \<Longrightarrow> ord c (headOf c s) \<le> ord d (headOf d s)"
    using ex_has_least_nat[of "\<lambda>c. hasEntry c s" c0 "\<lambda>c. ord c (headOf c s)"] assms(4) by blast
  let ?u = "queueOf c s ! headOf c s"
  obtain st s' where q: "queueStep c s = (st, s')" by fastforce
  have "st \<noteq> Skip"
  proof
    assume "st = Skip"
    then obtain v where v: "v \<in> set (userWaits (tracker s) ?u)" "0 < producerCount (barAt s v)"
      using liveOk_queueStep(5)[OF assms(1) c(1) assms(2) q] by blast
    have e: "c \<in> set (allQueues s)" "headOf c s < length (queueOf c s)" using c(1) by (auto simp: hasEntry_def)
    have "userOk (length (barriers s)) (tracker s) ?u" using assms(1) e by (auto simp: liveOk_def simInv_def usersOk_def list_all_length)
    then have "v < length (barriers s)" using v(1) by (auto simp: userOk_def)
    then have "0 < pend userPosts s v" using assms(1) v(2) by (auto simp: liveOk_def balanced_def)
    then obtain d j where d: "d \<in> set (allQueues s)" "headOf d s \<le> j" "j < length (queueOf d s)" "v \<in> set (userPosts (tracker s) (queueOf d s ! j))"
      by (rule pend_posE)
    have "ord d j < ord c (headOf c s)" using assms(3) d e v(1) unfolding orderedBy_def by blast
    moreover have "ord d (headOf d s) \<le> ord d j"
      using assms(3) d(1-3) unfolding orderedBy_def by (cases "headOf d s = j") (auto intro: less_imp_le)
    moreover have "hasEntry d s" using d by (simp add: hasEntry_def)
    ultimately show False using c(2)[of d] by linarith
  qed
  then show ?thesis using c(1) q by (intro exI[of _ c]) simp
qed

lemma simRound_live:
  assumes "liveOk s" "orderedBy ord s" "unfinished s"
  shows "\<exists>s'. simRound False limit s = Inr (True, s') \<and> liveOk s' \<and> orderedBy ord s'"
proof -
  let ?s = "s\<lparr>progressed := False\<rparr>"
  have so: "simOk s" "wellShaped s" using assms(1) by (auto simp: liveOk_def simInv_def)
  have "balanced ?s = balanced s" by (intro balanced_cong pend_cong) simp_all
  then have l0: "liveOk ?s" using assms(1) simOk_step[OF sim_step.new_round so(1)] by (simp add: liveOk_def)
  have o0: "orderedBy ord ?s" using assms(2) so(1) orderedBy_step[OF sim_step.new_round] by blast
  have b: "bar s \<le> length (barriers s)" using so(1) physOkD(1)[of s] by (simp add: simInv_def)
  obtain s1 where m: "mapBarriers (length (barriers s) - bar s) ?s = Inr s1" "liveOk s1" "bar s1 = length (barriers s1)"
    using liveOk_mapBarriers[OF l0, of "length (barriers s) - bar s"] b by auto
  have p1: "progresses ?s s1" using progresses_mapBarriers[OF m(1)] b so(2) by (simp add: wellShaped_def)
  obtain s2 where q: "runQueues (allQueues s1) s1 = (True, s2)" "liveOk s2"
    "simWork s2 = simWork s1 \<Longrightarrow> s2 = s1 \<and> (\<forall>c\<in>set (allQueues s1). hasEntry c s1 \<longrightarrow> fst (queueStep c s1) = Skip)"
    using liveOk_runQueues[OF m(2,3), of "allQueues s1"] by auto
  have p2: "progresses s1 s2" using progresses_runQueues[OF q(1)] m(2) by (auto simp: liveOk_def simInv_def)
  have o1: "orderedBy ord s1" using p1 o0 l0 orderedBy_steps by (auto simp: progresses_def liveOk_def)
  have o2: "orderedBy ord s2" using p2 o1 m(2) orderedBy_steps by (auto simp: progresses_def liveOk_def)
  have "progressed s2"
  proof (rule ccontr)
    assume "\<not> progressed s2"
    then have eq: "simWork s2 = simWork s1" "simWork s1 = simWork s" using p1 p2 by (auto simp: progresses_def)
    have blocked: "\<forall>c. hasEntry c s1 \<longrightarrow> fst (queueStep c s1) = Skip" using q(3)[OF eq(1)] by (auto simp: hasEntry_def)
    have none: "\<not> hasEntry c s1" for c using some_head_ready[OF m(2,3) o1] blocked by blast
    have "queueLeft c s1 = 0" if "c \<in> set (allQueues s1)" for c using none[of c] that by (simp add: hasEntry_def queueLeft_def)
    then have "simWork s1 = 0" using m(3) by (simp add: simWork_def)
    then show False using simWork_zero[of s] eq assms(3) by simp
  qed
  then show ?thesis using m(1) q(1,2) o2 by (simp add: simRound_def)
qed

lemma simLoop_live:
  "liveOk s \<Longrightarrow> orderedBy ord s \<Longrightarrow> simWork s < fuel \<Longrightarrow>
    \<exists>s'. simLoop fuel False limit s = Some (Inr (True, s')) \<and> liveOk s' \<and> \<not> unfinished s'"
proof (induction fuel arbitrary: s)
  case (Suc fuel)
  show ?case
  proof (cases "unfinished s")
    case True
    obtain s1 where r: "simRound False limit s = Inr (True, s1)" "liveOk s1" "orderedBy ord s1"
      using simRound_live[OF Suc.prems(1,2) True] by blast
    have "simWork s1 < simWork s" using simRound_work[OF r(1)] Suc.prems(1) by (auto simp: liveOk_def simInv_def)
    then show ?thesis using Suc.IH[OF r(2,3)] Suc.prems(3) True r(1) by simp
  qed (use Suc.prems in simp)
qed simp

lemma finished_counts:
  assumes "liveOk s" "\<not> unfinished s" "v < length (barriers s)"
  shows "producerCount (barAt s v) = 0 \<and> consumerCount (barAt s v) = 0"
proof -
  have "drop (headOf c s) (queueOf c s) = []" if "c \<in> set (allQueues s)" for c
    using assms(2) that unfolding unfinished_iff hasEntry_def by auto
  then have "pend f s v = 0" for f by (simp add: pend_def queueWant_def cong: map_cong)
  then show ?thesis using assms(1,3) by (auto simp: liveOk_def balanced_def)
qed

end
