(* ===== verification/Simulator_Build.thy ===== *)
theory Simulator_Build
  imports Simulation_Live
begin

text \<open>
  What the constructor of \<open>BarrierSimulator\<close> establishes on a function with dynamic barriers and
  single-port DMAs: virtual ids number the barriers, the counts of the barriers agree with the
  queues, and the program order is an order of the entries.
\<close>

section \<open>Virtual ids\<close>

definition barrierOps :: "sim_op list \<Rightarrow> nat" where
  "barrierOps body = length (filter (\<lambda>op. case op of DeclareVirtual _ \<Rightarrow> True | ConfigureBarrier _ _ \<Rightarrow> True | _ \<Rightarrow> False) body)"

definition attrsOk :: "nat \<Rightarrow> (nat \<Rightarrow> nat option) \<Rightarrow> bool" where
  "attrsOk n attrs \<longleftrightarrow> (\<forall>x v. attrs x = Some v \<longrightarrow> v < n) \<and> inj_on attrs (dom attrs)"

lemma attrsOk_insert: "attrsOk n attrs \<Longrightarrow> attrsOk (Suc n) (attrs(x \<mapsto> n))"
  unfolding attrsOk_def inj_on_def by (auto simp: dom_def less_Suc_eq split: if_splits) fastforce+

lemma assignVirtualIds_ok:
  assumes "assignVirtualIds body = Inr attrs"
  shows "attrsOk (barrierOps body) attrs"
proof -
  let ?f = "\<lambda>op (vid, attrs).
         case op of
           DeclareVirtual x \<Rightarrow> guardE (\<not> int vid \<ge> 4294967295) VirtualIdTooLarge (Inr (vid + 1, attrs(x \<mapsto> vid)))
         | ConfigureBarrier x _ \<Rightarrow> guardE (\<not> int vid \<ge> 4294967295) VirtualIdTooLarge (Inr (vid + 1, attrs(x \<mapsto> vid)))
         | _ \<Rightarrow> Inr (vid, attrs)"
  have "foldE ?f ops (n, a) = Inr (n', a') \<Longrightarrow> attrsOk n a \<Longrightarrow> n' = n + barrierOps ops \<and> attrsOk n' a'" for ops n a n' a'
  proof (induction ops arbitrary: n a)
    case (Cons op ops)
    obtain n1 a1 where s: "?f op (n, a) = Inr (n1, a1)" "foldE ?f ops (n1, a1) = Inr (n', a')"
      using Cons.prems(1) by (auto simp: bindE_Inr)
    have "n1 = n + barrierOps [op] \<and> attrsOk n1 a1"
      using s(1) Cons.prems(2) attrsOk_insert by (auto simp: barrierOps_def guardE_Inr split: sim_op.splits)
    moreover have "barrierOps (op # ops) = barrierOps [op] + barrierOps ops" by (simp add: barrierOps_def)
    ultimately show ?case using Cons.IH[OF s(2)] by auto
  qed (simp add: barrierOps_def)
  moreover obtain n' where "foldE ?f body (0, \<lambda>_. None) = Inr (n', attrs)"
    using assms by (auto simp: assignVirtualIds_def bindE_Inr)
  moreover have "attrsOk 0 (\<lambda>_. None)" by (simp add: attrsOk_def)
  ultimately show ?thesis by fastforce
qed

lemma getVirtualIds_map:
  "getVirtualIds attrs bs = Inr vs \<Longrightarrow> map (\<lambda>b. case b of None \<Rightarrow> None | Some x \<Rightarrow> attrs x) bs = map Some vs"
  by (induction bs arbitrary: vs) (auto simp: bindE_Inr getVirtualId_def split: option.splits)

lemma getVirtualIds_set:
  assumes "getVirtualIds attrs bs = Inr vs" "attrsOk n attrs"
  shows "set vs \<subseteq> {..<n}" "v \<in> set vs \<longleftrightarrow> (\<exists>x. Some x \<in> set bs \<and> attrs x = Some v)"
proof -
  have "Some ` set vs = (\<lambda>b. case b of None \<Rightarrow> None | Some x \<Rightarrow> attrs x) ` set bs"
    using arg_cong[OF getVirtualIds_map[OF assms(1)], of set] by simp
  then have iff: "v \<in> set vs \<longleftrightarrow> Some v \<in> (\<lambda>b. case b of None \<Rightarrow> None | Some x \<Rightarrow> attrs x) ` set bs" for v
    by (metis image_iff option.inject)
  show e: "v \<in> set vs \<longleftrightarrow> (\<exists>x. Some x \<in> set bs \<and> attrs x = Some v)" for v
  proof
    assume "v \<in> set vs"
    then obtain b where "b \<in> set bs" "Some v = (case b of None \<Rightarrow> None | Some x \<Rightarrow> attrs x)" unfolding iff by blast
    then show "\<exists>x. Some x \<in> set bs \<and> attrs x = Some v" by (cases b rule: option.exhaust) auto
  next
    assume "\<exists>x. Some x \<in> set bs \<and> attrs x = Some v"
    then obtain x where x: "Some x \<in> set bs" "attrs x = Some v" by blast
    show "v \<in> set vs" unfolding iff by (rule image_eqI[OF _ x(1)]) (simp add: x(2))
  qed
  show "set vs \<subseteq> {..<n}" using e assms(2) by (auto simp: attrsOk_def)
qed

lemma getVirtualIds_disjoint:
  assumes "getVirtualIds attrs bs = Inr vs" "getVirtualIds attrs bs' = Inr vs'" "attrsOk n attrs" "set bs \<inter> set bs' = {}"
  shows "set vs \<inter> set vs' = {}"
  using assms(3,4) getVirtualIds_set(2)[OF assms(1,3)] getVirtualIds_set(2)[OF assms(2,3)]
  by (auto simp: attrsOk_def inj_on_def dom_def) (metis disjoint_iff option.inject)

section \<open>Barriers\<close>

definition sameBut :: "simulator \<Rightarrow> simulator \<Rightarrow> bool" where
  "sameBut s s' \<longleftrightarrow> dmaTasks s' = dmaTasks s \<and> nceTasks s' = nceTasks s \<and> actTasks s' = actTasks s \<and> upaTasks s' = upaTasks s \<and>
     m2iTasks s' = m2iTasks s \<and> multiQueue s' = multiQueue s \<and> tracker s' = tracker s \<and> samePid s' = samePid s \<and>
     batches s' = batches s \<and> availableBarriers s' = availableBarriers s"

lemma parseBarriers_dynamic:
  assumes "parseBarriers attrs body s = Inr s'" "dynamicBarriers s'" "barriers s = []"
  shows "barriers s' = replicate (barrierOps body) (mkConfig (-1)) \<and> sameBut s s'"
proof -
  obtain s1 where d: "foldE (parseDeclared attrs) body (s\<lparr>dynamicBarriers := False\<rparr>) = Inr s1"
    and c: "foldE (parseConfigured attrs) body s1 = Inr s'" using assms(1) by (auto simp: parseBarriers_def bindE_Inr)
  have dec: "foldE (parseDeclared attrs) ops t = Inr t' \<Longrightarrow> list_all (\<lambda>op. case op of ConfigureBarrier _ _ \<Rightarrow> False | _ \<Rightarrow> True) ops \<Longrightarrow>
      barriers t' = barriers t @ replicate (barrierOps ops) (mkConfig (-1)) \<and> sameBut t t'" for ops t t'
  proof (induction ops arbitrary: t)
    case (Cons op ops)
    obtain t1 where t1: "parseDeclared attrs op t = Inr t1" "foldE (parseDeclared attrs) ops t1 = Inr t'"
      using Cons.prems(1) by (auto simp: bindE_Inr)
    have "barriers t1 = barriers t @ replicate (barrierOps [op]) (mkConfig (-1)) \<and> sameBut t t1"
      using t1(1) Cons.prems(2) by (auto simp: parseDeclared_def barrierOps_def sameBut_def bindE_Inr guardE_Inr split: sim_op.splits)
    moreover have "barrierOps (op # ops) = barrierOps [op] + barrierOps ops" by (simp add: barrierOps_def)
    ultimately show ?case using Cons.IH[OF t1(2)] Cons.prems(2) by (simp add: sameBut_def replicate_add)
  qed (simp add: barrierOps_def sameBut_def)
  have conf: "foldE (parseConfigured attrs) ops t = Inr t' \<Longrightarrow> dynamicBarriers t' \<Longrightarrow>
      t' = t \<and> list_all (\<lambda>op. case op of ConfigureBarrier _ _ \<Rightarrow> False | _ \<Rightarrow> True) ops" for ops t t'
  proof (induction ops arbitrary: t)
    case (Cons op ops)
    obtain t1 where t1: "parseConfigured attrs op t = Inr t1" "foldE (parseConfigured attrs) ops t1 = Inr t'"
      using Cons.prems(1) by (auto simp: bindE_Inr)
    have dyn: "dynamicBarriers t1" "t' = t1" using Cons.IH[OF t1(2)] Cons.prems(2) by auto
    then show ?case using Cons.IH[OF t1(2)] Cons.prems(2) t1(1)
      by (auto simp: parseConfigured_def bindE_Inr guardE_Inr split: sim_op.splits)
  qed simp
  have c': "s' = s1" "list_all (\<lambda>op. case op of ConfigureBarrier _ _ \<Rightarrow> False | _ \<Rightarrow> True) body" using conf[OF c assms(2)] by auto
  show ?thesis using dec[OF d c'(2)] c'(1) assms(3) by (simp add: sameBut_def)
qed

section \<open>Entries\<close>

fun addEntry :: "sim_queue \<Rightarrow> user_config \<Rightarrow> simulator \<Rightarrow> simulator" where
  "addEntry (DmaQueue e) u s = s\<lparr>dmaTasks := (dmaTasks s)[e := dmaTasks s ! e @ [u]]\<rparr>"
| "addEntry DpuQueue u s = s\<lparr>nceTasks := nceTasks s @ [u]\<rparr>"
| "addEntry ActQueue u s = s\<lparr>actTasks := actTasks s @ [u]\<rparr>"
| "addEntry UpaQueue u s = s\<lparr>upaTasks := upaTasks s @ [u]\<rparr>"
| "addEntry M2iQueue u s = s\<lparr>m2iTasks := m2iTasks s @ [u]\<rparr>"

text \<open>A task in one queue, with at least one user of its barriers.\<close>

definition simpleTask :: "sim_task \<Rightarrow> bool" where
  "simpleTask t \<longleftrightarrow> (executorKind t = DMA_NN \<longrightarrow> length (ports t) = 1) \<and>
     (executorKind t = DPU \<longrightarrow> unwrapClusterTiling (innerOp t) \<noteq> NCEClusterTask [])"

abbreviation simQueues :: "simulator \<Rightarrow> sim_queue set" where
  "simQueues s \<equiv> set (allQueues (startState 0 s))"

lemma parseTask_entry:
  assumes "parseTask attrs t (known, s) = Inr (known', s')" "simpleTask t"
  shows "\<exists>c ws ps dep tr n. getVirtualIds attrs (waitOperands t) = Inr ws \<and> getVirtualIds attrs (updateOperands t) = Inr ps \<and>
    addIds ws ps (tracker s) = (dep, tr) \<and> 0 < n \<and> c \<in> simQueues s \<and>
    s' = updateBarrierConfigs ws ps n (addEntry c (mkUser dep n) (s\<lparr>tracker := tr\<rparr>))"
proof -
  obtain ws ps where ids: "getVirtualIds attrs (waitOperands t) = Inr ws" "getVirtualIds attrs (updateOperands t) = Inr ps"
    using assms(1) by (auto simp: parseTask_def bindE_Inr)
  obtain dep tr where d: "addIds ws ps (tracker s) = (dep, tr)" by fastforce
  let ?goal = "\<lambda>c n. 0 < n \<and> c \<in> simQueues s \<and> s' = updateBarrierConfigs ws ps n (addEntry c (mkUser dep n) (s\<lparr>tracker := tr\<rparr>))"
  note p = assms(1)[unfolded parseTask_def, simplified ids, simplified]
  have "\<exists>c n. ?goal c n"
  proof (cases "executorKind t")
    case DMA_NN
    then obtain port where port: "ports t = [port]" using assms(2) by (auto simp: simpleTask_def length_Suc_conv)
    obtain e channel where ch: "unwrapClusterTiling (innerOp t) = Dma e channel"
      using p DMA_NN by (auto simp: d Let_def split: inner_op.splits)
    obtain q known1 where q: "dmaQueueIndex (getDMAQueueIdEncoding port channel) known = (q, known1)" by fastforce
    have "?goal (DmaQueue q) 1"
      using p DMA_NN by (auto simp: d Let_def ch port addDmaPort_def q bindE_Inr guardE_Inr allQueues_def)
    then show ?thesis by blast
  next
    case DPU
    obtain vs where v: "unwrapClusterTiling (innerOp t) = NCEClusterTask vs" using p DPU by (auto simp: d Let_def split: inner_op.splits)
    have "?goal DpuQueue (int (length vs))"
      using p DPU assms(2) by (auto simp: d Let_def v simpleTask_def allQueues_def)
    then show ?thesis by blast
  next
    case SHAVE_ACT
    have "?goal ActQueue 1" using p SHAVE_ACT by (auto simp: d Let_def allQueues_def)
    then show ?thesis by blast
  next
    case SHAVE_UPA
    have "?goal UpaQueue 1" using p SHAVE_UPA by (auto simp: d Let_def allQueues_def)
    then show ?thesis by blast
  next
    case M2I
    have "?goal M2iQueue 1" using p M2I by (auto simp: d Let_def allQueues_def)
    then show ?thesis by blast
  next
    case UNKNOWN
    have "?goal (DmaQueue 0) 1" using p UNKNOWN by (auto simp: d Let_def allQueues_def guardE_Inr)
    then show ?thesis by blast
  qed (use p in \<open>simp_all add: d Let_def\<close>)
  then show ?thesis using ids d by blast
qed

text \<open>Dependencies are stored once and keep their meaning when the tracker grows.\<close>

definition trackerOk :: "dep_tracker \<Rightarrow> bool" where
  "trackerOk t \<longleftrightarrow> deps t \<noteq> [] \<and> deps t ! 0 = \<lparr>consumerRange = (0, 0), producerRange = (0, 0)\<rparr> \<and>
     (\<forall>d\<in>set (deps t). fst (consumerRange d) + snd (consumerRange d) \<le> length (ids t) \<and> fst (producerRange d) + snd (producerRange d) \<le> length (ids t))"

lemma rangeIds_append:
  "fst r + snd r \<le> length (ids t) \<Longrightarrow> rangeIds \<lparr>ids = ids t @ xs, deps = ds\<rparr> r = rangeIds t r"
  by (auto simp: rangeIds_def nth_append)

lemma addIds_ok:
  assumes "addIds ws ps t = (dep, t')" "trackerOk t"
  shows "trackerOk t'" "dep < length (deps t')" "length (deps t) \<le> length (deps t')"
    "userWaits t' (mkUser dep n) = ws" "userPosts t' (mkUser dep n) = ps"
    "virtualDep u < length (deps t) \<Longrightarrow> userWaits t' u = userWaits t u \<and> userPosts t' u = userPosts t u"
proof -
  have "trackerOk t' \<and> dep < length (deps t') \<and> length (deps t) \<le> length (deps t') \<and> userWaits t' (mkUser dep n) = ws \<and> userPosts t' (mkUser dep n) = ps \<and>
    (virtualDep u < length (deps t) \<longrightarrow> userWaits t' u = userWaits t u \<and> userPosts t' u = userPosts t u)"
  proof (cases "ws \<noteq> [] \<or> ps \<noteq> []")
    case True
    let ?d = "\<lparr>consumerRange = (length (ids t), length ws), producerRange = (length (ids t) + length ws, length ps)\<rparr>"
    have e: "dep = length (deps t)" "t' = \<lparr>ids = ids t @ ws @ ps, deps = deps t @ [?d]\<rparr>"
      using assms(1) True by (auto simp: addIds_def Let_def)
    have "map (\<lambda>i. (ids t @ ws @ ps) ! (length (ids t) + i)) [0..<length ws] = ws"
      "map (\<lambda>i. (ids t @ ws @ ps) ! (length (ids t) + length ws + i)) [0..<length ps] = ps"
      by (auto intro!: nth_equalityI simp: nth_append)
    moreover have "trackerOk t'" using assms(2) e by (auto simp: trackerOk_def nth_append)
    moreover have "rangeIds t' (consumerRange (deps t ! virtualDep u)) = rangeIds t (consumerRange (deps t ! virtualDep u)) \<and>
        rangeIds t' (producerRange (deps t ! virtualDep u)) = rangeIds t (producerRange (deps t ! virtualDep u))" if "virtualDep u < length (deps t)"
      using assms(2) that unfolding e by (auto simp: trackerOk_def intro!: rangeIds_append)
    ultimately show ?thesis by (auto simp: e userWaits_def userPosts_def mkUser_def rangeIds_def nth_append)
  next
    case False
    then show ?thesis using assms by (auto simp: addIds_def trackerOk_def userWaits_def userPosts_def mkUser_def rangeIds_def)
  qed
  then show "trackerOk t'" "dep < length (deps t')" "length (deps t) \<le> length (deps t')"
    "userWaits t' (mkUser dep n) = ws" "userPosts t' (mkUser dep n) = ps"
    "virtualDep u < length (deps t) \<Longrightarrow> userWaits t' u = userWaits t u \<and> userPosts t' u = userPosts t u" by blast+
qed

section \<open>The constructor keeps the counts and the order\<close>

lemma addCount_length [simp]: "length (addCount f vs bars) = length bars"
  unfolding addCount_def by (induction vs arbitrary: bars) auto

lemma addCount_nth:
  "v < length bars \<Longrightarrow> addCount f vs bars ! v = (f ^^ count_list vs v) (bars ! v)"
  unfolding addCount_def
proof (induction vs arbitrary: bars)
  case (Cons w vs)
  then show ?case by (cases "w = v") (auto simp: funpow_swap1)
qed simp

lemma addCounts_nth:
  fixes n :: int and ws ps :: "nat list"
  assumes "v < length bars"
  defines "b \<equiv> addCount (\<lambda>b. b\<lparr>producerCount := producerCount b + n\<rparr>) ps (addCount (\<lambda>b. b\<lparr>consumerCount := consumerCount b + n\<rparr>) ws bars) ! v"
  shows "realId b = realId (bars ! v)" "consumerCount b = consumerCount (bars ! v) + n * int (count_list ws v)"
    "producerCount b = producerCount (bars ! v) + n * int (count_list ps v)"
proof -
  have c: "((\<lambda>b. b\<lparr>consumerCount := consumerCount b + n\<rparr>) ^^ k) x = x\<lparr>consumerCount := consumerCount x + n * int k\<rparr>" for k and x :: barrier_config
    by (induction k) (auto simp: algebra_simps)
  have p: "((\<lambda>b. b\<lparr>producerCount := producerCount b + n\<rparr>) ^^ k) x = x\<lparr>producerCount := producerCount x + n * int k\<rparr>" for k and x :: barrier_config
    by (induction k) (auto simp: algebra_simps)
  show "realId b = realId (bars ! v)" "consumerCount b = consumerCount (bars ! v) + n * int (count_list ws v)"
    "producerCount b = producerCount (bars ! v) + n * int (count_list ps v)"
    using assms(1) by (simp_all add: b_def addCount_nth c p)
qed

text \<open>The state after a prefix of the tasks: \<open>k\<close> of them, waiting on the barriers \<open>W\<close>.\<close>

definition built :: "nat \<Rightarrow> (sim_queue \<Rightarrow> nat \<Rightarrow> nat) \<Rightarrow> nat \<Rightarrow> nat set \<Rightarrow> simulator \<Rightarrow> bool" where
  "built L ord k W s \<longleftrightarrow> (let st = startState L s in
     trackerOk (tracker s) \<and> multiQueue s = [] \<and> \<not> samePid s \<and> dynamicBarriers s \<and> list_all (\<lambda>b. realId b = -1) (barriers s) \<and>
     usersOk st \<and> balanced st \<and> orderedBy ord st \<and>
     (\<forall>c\<in>set (allQueues st). \<forall>i<length (queueOf c st). virtualDep (queueOf c st ! i) < length (deps (tracker s)) \<and> ord c i < k \<and>
        set (userWaits (tracker s) (queueOf c st ! i)) \<subseteq> W))"

lemma queueOf_updateConfigs: "queueOf c (startState L (updateBarrierConfigs ws ps n s)) = queueOf c (startState L s)"
  by (cases c) (simp_all add: updateBarrierConfigs_def)

lemma queueOf_tracker: "queueOf c (startState L (s\<lparr>tracker := tr\<rparr>)) = queueOf c (startState L s)"
  by (cases c) simp_all

lemma queueOf_addEntry:
  "c \<in> simQueues s \<Longrightarrow> queueOf d (startState L (addEntry c u s)) = (if d = c then queueOf c (startState L s) @ [u] else queueOf d (startState L s))"
  by (cases c; cases d) (auto simp: allQueues_def)

lemma addEntry_other [simp]:
  "length (dmaTasks (addEntry c u s)) = length (dmaTasks s)" "tracker (addEntry c u s) = tracker s" "barriers (addEntry c u s) = barriers s"
  "multiQueue (addEntry c u s) = multiQueue s" "samePid (addEntry c u s) = samePid s" "dynamicBarriers (addEntry c u s) = dynamicBarriers s"
  "availableBarriers (addEntry c u s) = availableBarriers s"
  by (cases c; simp)+

lemma built_entry:
  assumes "built L ord k W s" "addIds ws ps (tracker s) = (dep, tr)" "0 < n" "c \<in> simQueues s"
    "set ws \<subseteq> {..<length (barriers s)}" "set ps \<subseteq> {..<length (barriers s)}" "set ps \<inter> (W \<union> set ws) = {}"
  defines "s' \<equiv> updateBarrierConfigs ws ps n (addEntry c (mkUser dep n) (s\<lparr>tracker := tr\<rparr>))"
  shows "built L (ord(c := (ord c)(length (queueOf c (startState L s)) := k))) (Suc k) (W \<union> set ws) s'"
    "length (barriers s') = length (barriers s)"
proof -
  let ?st = "startState L s" and ?st' = "startState L s'" and ?u = "mkUser dep n"
  let ?Q = "set (allQueues ?st)" and ?ord = "ord(c := (ord c)(length (queueOf c ?st) := k))"
  note b = assms(1)[unfolded built_def Let_def]
  note ad = addIds_ok[OF assms(2) conjunct1[OF b]]
  have tr: "tracker s' = tr" "tracker ?st' = tr" by (simp_all add: s'_def updateBarrierConfigs_def)
  have aq: "allQueues ?st' = allQueues ?st" by (rule allQueues_cong) (simp add: s'_def updateBarrierConfigs_def)
  have cQ: "c \<in> ?Q" using assms(4) by (simp add: allQueues_def)
  have len: "length (barriers s') = length (barriers s)" "length (barriers ?st') = length (barriers s)" by (simp_all add: s'_def updateBarrierConfigs_def)
  have q: "queueOf d ?st' = (if d = c then queueOf c ?st @ [?u] else queueOf d ?st)" for d
    using assms(4) unfolding s'_def queueOf_updateConfigs by (subst queueOf_addEntry) (auto simp: queueOf_tracker allQueues_def)
  have dep: "virtualDep (queueOf d ?st ! i) < length (deps (tracker s))" if "d \<in> ?Q" "i < length (queueOf d ?st)" for d i
    using b that by blast
  have old: "userWaits tr (queueOf d ?st ! i) = userWaits (tracker s) (queueOf d ?st ! i)"
    "userPosts tr (queueOf d ?st ! i) = userPosts (tracker s) (queueOf d ?st ! i)" if "d \<in> ?Q" "i < length (queueOf d ?st)" for d i
    using ad(6)[OF dep[OF that]] by auto
  have want_old: "queueWant f tr v (queueOf d ?st) = queueWant f (tracker s) v (queueOf d ?st)"
    if "d \<in> ?Q" "f = userWaits \<or> f = userPosts" for d v f
    unfolding queueWant_def using old[OF that(1)] that(2)
    by (intro arg_cong[where f = sum_list] map_cong refl) (auto simp: in_set_conv_nth wanted_def)
  have pend: "pend f ?st' v = pend f ?st v + n * int (count_list (f tr ?u) v)" if f: "f = userWaits \<or> f = userPosts" for f v
  proof -
    have p: "pend f (startState L x) v = (\<Sum>d\<in>set (allQueues (startState L x)). queueWant f (tracker x) v (queueOf d (startState L x)))" for x
      by (simp add: pend_def headOf_startState sum_list_distinct_conv_sum_set cong: map_cong)
    have "(\<Sum>d\<in>?Q - {c}. queueWant f tr v (queueOf d ?st')) = (\<Sum>d\<in>?Q - {c}. queueWant f (tracker s) v (queueOf d ?st))"
      using f by (intro sum.cong) (auto simp: q want_old)
    moreover have "queueWant f tr v (queueOf c ?st') = queueWant f (tracker s) v (queueOf c ?st) + n * int (count_list (f tr ?u) v)"
      using want_old[OF cQ f] unfolding q by (simp add: queueWant_def wanted_def mkUser_def)
    ultimately show ?thesis unfolding p aq tr using cQ by (simp add: sum.remove[of ?Q c])
  qed
  have cnt: "realId (barAt ?st' v) = realId (barAt ?st v)" "consumerCount (barAt ?st' v) = consumerCount (barAt ?st v) + n * int (count_list ws v)"
    "producerCount (barAt ?st' v) = producerCount (barAt ?st v) + n * int (count_list ps v)" if "v < length (barriers s)" for v
    using addCounts_nth[OF that] by (simp_all add: s'_def updateBarrierConfigs_def)
  have uk: "userOk (length (barriers s)) tr (queueOf d ?st' ! i)" if "d \<in> ?Q" "i < length (queueOf d ?st')" for d i
  proof (cases "d = c \<and> i = length (queueOf c ?st)")
    case True
    then show ?thesis using assms(3,5,6) ad(4,5) by (simp add: q userOk_def mkUser_def[symmetric]) (simp add: mkUser_def)
  next
    case False
    then have i: "i < length (queueOf d ?st)" "queueOf d ?st' ! i = queueOf d ?st ! i" using that(2) by (auto simp: q nth_append split: if_splits)
    then have "userOk (length (barriers s)) (tracker s) (queueOf d ?st ! i)" using b that(1) by (auto simp: usersOk_def list_all_length)
    then show ?thesis using old[OF that(1) i(1)] i(2) by (simp add: userOk_def)
  qed
  have entry: "virtualDep (queueOf d ?st' ! i) < length (deps tr) \<and> ?ord d i < Suc k \<and> set (userWaits tr (queueOf d ?st' ! i)) \<subseteq> W \<union> set ws"
    if "d \<in> ?Q" "i < length (queueOf d ?st')" for d i
  proof (cases "d = c \<and> i = length (queueOf c ?st)")
    case True
    then show ?thesis using ad by (simp add: q mkUser_def)
  next
    case False
    then have i: "i < length (queueOf d ?st)" "queueOf d ?st' ! i = queueOf d ?st ! i" using that(2) by (auto simp: q nth_append split: if_splits)
    have "virtualDep (queueOf d ?st ! i) < length (deps (tracker s)) \<and> ord d i < k \<and> set (userWaits (tracker s) (queueOf d ?st ! i)) \<subseteq> W"
      using b that(1) i(1) by blast
    moreover have "?ord d i = ord d i" using i(1) by auto
    ultimately show ?thesis using i old[OF that(1) i(1)] ad(3) by auto
  qed
  have ordered: "orderedBy ?ord ?st'"
  proof -
    have A: "\<forall>d\<in>?Q. \<forall>j<length (queueOf d ?st'). \<forall>i<j. ?ord d i < ?ord d j"
    proof (intro ballI allI impI)
      fix d j i assume d: "d \<in> ?Q" "j < length (queueOf d ?st')" "i < j"
      show "?ord d i < ?ord d j"
      proof (cases "d = c \<and> j = length (queueOf c ?st)")
        case True
        then have "ord c i < k" using b cQ d(3) by blast
        then show ?thesis using True d(3) by simp
      next
        case False
        then have "j < length (queueOf d ?st)" using d(2) by (auto simp: q split: if_splits)
        moreover have "orderedBy ord ?st" using b by blast
        ultimately have "ord d i < ord d j" using d unfolding orderedBy_def by blast
        then show ?thesis using \<open>j < length (queueOf d ?st)\<close> d(3) by auto
      qed
    qed
    have B: "?ord d i < ?ord e j \<or> set (userPosts tr (queueOf d ?st' ! i)) \<inter> set (userWaits tr (queueOf e ?st' ! j)) = {}"
      if d: "d \<in> ?Q" "i < length (queueOf d ?st')" and e: "e \<in> ?Q" "j < length (queueOf e ?st')" for d i e j
    proof (cases "d = c \<and> i = length (queueOf c ?st)")
      case True
      then have "set (userPosts tr (queueOf d ?st' ! i)) = set ps" using ad(5) by (simp add: q)
      then show ?thesis using entry[OF e] assms(7) by blast
    next
      case False
      then have i: "i < length (queueOf d ?st)" "queueOf d ?st' ! i = queueOf d ?st ! i" "?ord d i = ord d i"
        using d(2) by (auto simp: q nth_append split: if_splits)
      have ik: "ord d i < k" using b d(1) i(1) by blast
      show ?thesis
      proof (cases "e = c \<and> j = length (queueOf c ?st)")
        case True
        then show ?thesis using ik i(3) by simp
      next
        case False
        then have j: "j < length (queueOf e ?st)" "queueOf e ?st' ! j = queueOf e ?st ! j" "?ord e j = ord e j"
          using e(2) by (auto simp: q nth_append split: if_splits)
        have "orderedBy ord ?st" using b by blast
        then have "ord d i < ord e j \<or> set (userPosts (tracker s) (queueOf d ?st ! i)) \<inter> set (userWaits (tracker s) (queueOf e ?st ! j)) = {}"
          using d(1) e(1) i(1) j(1) unfolding orderedBy_def by simp
        then show ?thesis using i j old[OF d(1) i(1)] old[OF e(1) j(1)] by simp
      qed
    qed
    show ?thesis unfolding orderedBy_def aq tr using A B by blast
  qed
  have "balanced ?st'"
    unfolding balanced_def len using b cnt pend[of userWaits] pend[of userPosts] ad(4,5) by (simp add: balanced_def)
  moreover have "usersOk ?st'" unfolding usersOk_def aq len tr list_all_length using uk by blast
  moreover have "list_all (\<lambda>b. realId b = -1) (barriers s')"
    using b cnt(1) len by (simp add: list_all_length)
  moreover have "multiQueue s' = []" "\<not> samePid s'" "dynamicBarriers s'" using b by (simp_all add: s'_def updateBarrierConfigs_def)
  ultimately show "built L ?ord (Suc k) (W \<union> set ws) s'"
    unfolding built_def Let_def aq tr using ordered ad(1) entry by blast
  show "length (barriers s') = length (barriers s)" by (rule len)
qed

section \<open>The whole constructor\<close>

definition simTasks :: "sim_op list \<Rightarrow> sim_task list" where
  "simTasks body = concat (map (\<lambda>op. case op of SimTask t \<Rightarrow> [t] | _ \<Rightarrow> []) body)"

text \<open>No task updates a barrier that it or an earlier task waits for.\<close>

fun waitsAfterUpdates :: "nat option set \<Rightarrow> sim_task list \<Rightarrow> bool" where
  "waitsAfterUpdates W [] = True"
| "waitsAfterUpdates W (t # ts) \<longleftrightarrow>
     set (updateOperands t) \<inter> (W \<union> set (waitOperands t)) = {} \<and> waitsAfterUpdates (W \<union> set (waitOperands t)) ts"

definition idsOf :: "(nat \<Rightarrow> nat option) \<Rightarrow> nat option set \<Rightarrow> nat set" where
  "idsOf attrs X = {v. \<exists>x. Some x \<in> X \<and> attrs x = Some v}"

lemma idsOf_set: "getVirtualIds attrs bs = Inr vs \<Longrightarrow> attrsOk n attrs \<Longrightarrow> set vs = idsOf attrs (set bs)"
  using getVirtualIds_set(2) by (fastforce simp: idsOf_def)

lemma idsOf_disjoint: "attrsOk n attrs \<Longrightarrow> X \<inter> Y = {} \<Longrightarrow> idsOf attrs X \<inter> idsOf attrs Y = {}"
  by (auto simp: idsOf_def attrsOk_def inj_on_def dom_def) (metis disjoint_iff option.inject)

lemma idsOf_Un: "idsOf attrs (X \<union> Y) = idsOf attrs X \<union> idsOf attrs Y"
  by (auto simp: idsOf_def)

lemma foldE_parseTask_built:
  "foldE (\<lambda>op ks. case op of SimTask t \<Rightarrow> parseTask attrs t ks | _ \<Rightarrow> Inr ks) body (known, s) = Inr (known', s') \<Longrightarrow>
    built L ord k (idsOf attrs W) s \<Longrightarrow> attrsOk (length (barriers s)) attrs \<Longrightarrow> list_all simpleTask (simTasks body) \<Longrightarrow>
    waitsAfterUpdates W (simTasks body) \<Longrightarrow>
    \<exists>ord' k' W'. built L ord' k' W' s' \<and> length (barriers s') = length (barriers s)"
proof (induction body arbitrary: known s ord k W)
  case Nil
  then show ?case by auto
next
  case (Cons op body)
  show ?case
  proof (cases op)
    case (SimTask t)
    obtain known1 s1 where s1: "parseTask attrs t (known, s) = Inr (known1, s1)"
      "foldE (\<lambda>op ks. case op of SimTask t \<Rightarrow> parseTask attrs t ks | _ \<Rightarrow> Inr ks) body (known1, s1) = Inr (known', s')"
      using Cons.prems(1) SimTask by (auto simp: bindE_Inr)
    have ts: "simTasks (op # body) = t # simTasks body" by (simp add: simTasks_def SimTask)
    obtain c ws ps dep tr n where e: "getVirtualIds attrs (waitOperands t) = Inr ws" "getVirtualIds attrs (updateOperands t) = Inr ps"
      "addIds ws ps (tracker s) = (dep, tr)" "0 < n" "c \<in> simQueues s" "s1 = updateBarrierConfigs ws ps n (addEntry c (mkUser dep n) (s\<lparr>tracker := tr\<rparr>))"
      using parseTask_entry[OF s1(1)] Cons.prems(4) ts by auto
    note at = Cons.prems(3)
    have W: "set ps \<inter> (idsOf attrs W \<union> set ws) = {}"
      using idsOf_disjoint[OF at, of "set (updateOperands t)" "W \<union> set (waitOperands t)"] Cons.prems(5) ts
      by (simp add: idsOf_set[OF e(1) at] idsOf_set[OF e(2) at] idsOf_Un)
    note b = built_entry[OF Cons.prems(2) e(3-5) getVirtualIds_set(1)[OF e(1) at] getVirtualIds_set(1)[OF e(2) at] W, folded e(6)]
    have "\<exists>ord' k' W'. built L ord' k' W' s' \<and> length (barriers s') = length (barriers s1)"
      by (rule Cons.IH[OF s1(2), where W = "W \<union> set (waitOperands t)"])
        (use b Cons.prems(3-5) ts idsOf_set[OF e(1) at] in \<open>auto simp: idsOf_Un\<close>)
    then show ?thesis using b(2) by simp
  qed (use Cons in \<open>auto simp: simTasks_def\<close>)
qed

lemma built_start:
  assumes "parseBarriers attrs body s0 = Inr s" "dynamicBarriers s" "barriers s0 = []" "tracker s0 = emptyTracker" "multiQueue s0 = []"
    "\<not> samePid s0" "dmaTasks s0 = replicate dq []" "nceTasks s0 = []" "actTasks s0 = []" "upaTasks s0 = []" "m2iTasks s0 = []"
  shows "built L (\<lambda>_ _. 0) 0 {} s" "length (barriers s) = barrierOps body"
proof -
  note p = parseBarriers_dynamic[OF assms(1-3)]
  have b: "barriers s = replicate (barrierOps body) (mkConfig (-1))" and f: "sameBut s0 s" using p by auto
  have q: "queueOf c (startState L s) = []" if "c \<in> set (allQueues (startState L s))" for c
    using that f assms(7-11) by (cases c rule: sim_queue.exhaust) (auto simp: allQueues_def sameBut_def)
  have bal: "balanced (startState L s)"
    by (simp add: balanced_def b mkConfig_def pend_def queueWant_def q cong: map_cong)
  show "built L (\<lambda>_ _. 0) 0 {} s"
    using f assms(2,4-6) bal unfolding built_def Let_def usersOk_def orderedBy_def
    by (simp add: q b mkConfig_def sameBut_def list_all_length) (auto simp: trackerOk_def emptyTracker_def)
  show "length (barriers s) = barrierOps body" by (simp add: b)
qed

lemma built_live:
  assumes "built L ord k W s" "length (barriers s) \<le> L"
  shows "liveOk (startState L s)" "orderedBy ord (startState L s)"
proof -
  note b = assms(1)[unfolded built_def Let_def]
  have "startOk L s"
  proof -
    have ok: "list_all (userOk (length (barriers s)) (tracker s)) (queueOf c (startState L s))" if "c \<in> set (allQueues (startState L s))" for c
      using b that by (simp add: usersOk_def)
    have "list_all (userOk (length (barriers s)) (tracker s)) us" if us: "us \<in> set (dmaTasks s)" for us
    proof -
      obtain e where "e < length (dmaTasks s)" "us = dmaTasks s ! e" using us by (auto simp: in_set_conv_nth)
      then show ?thesis using ok[of "DmaQueue e"] by (simp add: allQueues_def)
    qed
    then have "list_all (list_all (userOk (length (barriers s)) (tracker s))) (dmaTasks s)" by (simp add: list_all_iff[of "list_all _"])
    then have "list_all (list_all (userOk (length (barriers s)) (tracker s))) (dmaTasks s @ [nceTasks s, actTasks s, upaTasks s, m2iTasks s])"
      using ok[of DpuQueue] ok[of ActQueue] ok[of UpaQueue] ok[of M2iQueue] by (simp add: allQueues_def)
    moreover have "list_all (\<lambda>b. if dynamicBarriers s then realId b = -1 else 0 \<le> realId b \<and> realId b < int L) (barriers s)"
      using b by (auto simp: list_all_iff)
    ultimately show ?thesis unfolding startOk_def by blast
  qed
  then show "liveOk (startState L s)" using simOk_start b assms(2) by (simp add: liveOk_def)
  show "orderedBy ord (startState L s)" using b by blast
qed

text \<open>What the constructor hands over on such a function.\<close>

lemma mkSimulator_built:
  assumes "mkSimulator mv ms avail dq False body = Inr s" "dynamicBarriers s" "list_all simpleTask (simTasks body)"
    "waitsAfterUpdates {} (simTasks body)"
  shows "(\<exists>ord k W. built L ord k W s) \<and> length (barriers s) = barrierOps body"
proof -
  let ?s0 = "\<lparr>availableBarriers = avail, producerSlots = mv, totalSlots = ms, usedBarriers = 0,
               barriersMap = (\<lambda>_. None), barrierVID = (\<lambda>_. None), barriers = [], dynamicBarriers = False, samePid = False,
               dmaTasks = replicate dq [], nceTasks = [], actTasks = [], upaTasks = [], m2iTasks = [],
               multiQueue = [], tracker = emptyTracker, batches = [], controlMap = []\<rparr>"
  obtain attrs s1 known where p: "assignVirtualIds body = Inr attrs" "parseBarriers attrs body ?s0 = Inr s1"
    "foldE (\<lambda>op ks. case op of SimTask t \<Rightarrow> parseTask attrs t ks | _ \<Rightarrow> Inr ks) body ([], s1) = Inr (known, s)"
    using assms(1) by (auto simp: mkSimulator_def Let_def bindE_Inr parseTasks_def)
  have dyn: "dynamicBarriers s1 = dynamicBarriers s"
  proof -
    have one: "dynamicBarriers x' = dynamicBarriers x" if "parseTask attrs t (kn, x) = Inr (kn', x')" "SimTask t \<in> set body" for t kn x kn' x'
    proof -
      have "simpleTask t" using assms(3) that(2) by (force simp: simTasks_def list_all_iff)
      from parseTask_entry[OF that(1) this] show ?thesis by (auto simp: updateBarrierConfigs_def)
    qed
    have "dynamicBarriers (snd (known, s)) = dynamicBarriers s1"
      by (rule foldE_invariant[OF p(3), where P = "\<lambda>ks. dynamicBarriers (snd ks) = dynamicBarriers s1"]) (auto dest: one split: sim_op.splits)
    then show ?thesis by simp
  qed
  have st: "built L (\<lambda>_ _. 0) 0 (idsOf attrs {}) s1" "length (barriers s1) = barrierOps body"
    using built_start[OF p(2)] dyn assms(2) by (auto simp: idsOf_def)
  have "\<exists>ord' k' W'. built L ord' k' W' s \<and> length (barriers s) = length (barriers s1)"
    using foldE_parseTask_built[OF p(3) st(1) _ assms(3,4)] assignVirtualIds_ok[OF p(1)] st(2) by simp
  then show ?thesis using st(2) by auto
qed

end
