(* ===== verification/Simulation_Legal.thy ===== *)
theory Simulation_Legal
  imports Simulation_Exclusive
begin

text \<open>
  The simulation with legalisation as a state machine: beside the steps of the plain simulation
  it stores batches, adds physical barriers and removes free ones. Two virtual barriers that are
  in use never share a physical one, even though removing barriers renumbers the others.
\<close>

section \<open>Steps\<close>

inductive legal_step :: "nat \<Rightarrow> sim_state \<Rightarrow> sim_state \<Rightarrow> bool" for limit where
  plain: "sim_step s s' \<Longrightarrow> legal_step limit s s'"
| batch: "storeBatch s = Inr s' \<Longrightarrow> legal_step limit s s'"
| legalise: "legalizeStep limit s = Inr s' \<Longrightarrow> legal_step limit s s'"

inductive_cases legal_stepE [elim]: "legal_step limit s s'"

lemma plain_steps: "sim_step\<^sup>*\<^sup>* s s' \<Longrightarrow> (legal_step limit)\<^sup>*\<^sup>* s s'"
  by (rule rtranclp_mono[THEN predicate2D]) (auto intro: legal_step.plain)

section \<open>The ring after growing or shrinking\<close>

lemma refill_ring:
  assumes "s' = refill s"
  shows "ringMatches s'" "toVirtual s' = toVirtual s" "barriers s' = barriers s" "prevVid s' = prevVid s" "bar s' = bar s"
    "dynamicBarriers s' = dynamicBarriers s"
proof -
  let ?free = "map int (filter (\<lambda>i. toVirtual s ! i = -1) [0..<length (toVirtual s)])"
    and ?r = "resetRing 0 (length (toVirtual s)) (nextReal s)"
  have "length ?free \<le> length (toVirtual s)" by (metis length_filter_le length_map length_upt minus_nat.diff_0)
  then have r: "ringOk (fold pushRing ?free ?r)" "ringContents (fold pushRing ?free ?r) = ?free"
    "length (storage (fold pushRing ?free ?r)) = length (toVirtual s)"
    using ring.push_all[of ?r ?free] by (simp_all add: resetRing_ok)
  show "ringMatches s'" using r unfolding assms by (auto simp: ringMatches_def refill_def freeReals_def distinct_map)
  show "toVirtual s' = toVirtual s" "barriers s' = barriers s" "prevVid s' = prevVid s" "bar s' = bar s"
    "dynamicBarriers s' = dynamicBarriers s" by (simp_all add: assms refill_def)
qed

lemma physInv_growReal:
  assumes "physInv False s"
  shows "physInv False (growReal s)"
proof -
  define s1 where "s1 = s\<lparr>toVirtual := toVirtual s @ [-1], prevVid := prevVid s @ [-1], progressed := True\<rparr>"
  have g: "growReal s = refill s1" by (simp add: growReal_def s1_def)
  note r = refill_ring[OF g]
  note p = physInvD[OF assms]
  have tv: "nat (realId (barAt s v)) < length (toVirtual s)"
    if "v < bar s" "\<not> spent (barAt s v)" for v using p(3)[OF that(1)] that(2) by (simp add: validReal_def)
  have own: "(toVirtual s @ [-1]) ! nat (realId (barAt s v)) = int v \<or> spent (barAt s v)" if "v < bar s" for v
    using p(7)[OF that] tv[OF that] by (auto simp: nth_append)
  have T: "\<exists>v<bar s. (toVirtual s @ [-1]) ! k = int v \<and> realId (barAt s v) = int k"
    if "k < Suc (length (toVirtual s))" "(toVirtual s @ [-1]) ! k \<noteq> -1" for k
    using that p(6)[of k] by (auto simp: nth_append split: if_splits)
  have valid: "validReal (growReal s) x" if "validReal s x" for x using that r(2) by (simp add: validReal_def s1_def)
  have V: "validReal (growReal s) (realId (barAt s v)) \<or> spent (barAt s v)" if "v < bar s" for v using p(3)[OF that] valid by blast
  have U: "validReal (growReal s) (realId (barAt s v))" if "v < length (barriers s)" "bar s \<le> v" "\<not> dynamicBarriers s" for v
    using p(5)[OF that] valid by blast
  show ?thesis
    unfolding physInv_def r(2-6) using r(1) p(1,2,4) own T V U by (auto simp: s1_def)
qed

section \<open>Removing free physical barriers\<close>

text \<open>
  With \<open>k\<close> barriers to remove, the first \<open>k\<close> free ones go; a barrier in use moves down by the
  number of free ones that went before it.
\<close>

fun dropFree :: "nat \<Rightarrow> int list \<Rightarrow> int list" where
  "dropFree k [] = []"
| "dropFree k (v # vs) = (if v = -1 \<and> 0 < k then dropFree (k - 1) vs else v # dropFree k vs)"

lemma dropFree_0 [simp]: "dropFree 0 tv = tv"
  by (induction tv) auto

lemma takeWhile_stops: "x \<in> set xs \<Longrightarrow> \<not> P x \<Longrightarrow> length (takeWhile P xs) < length xs"
  by (induction xs) auto

lemma dropFree_Suc:
  assumes "-1 \<in> set tv"
  shows "dropFree (Suc k) tv = dropFree k (take (length (takeWhile (\<lambda>v. v \<noteq> -1) tv)) tv @ drop (length (takeWhile (\<lambda>v. v \<noteq> -1) tv) + 1) tv)"
  using assms by (induction tv) auto

lemma dropFree_none: "-1 \<notin> set tv \<Longrightarrow> dropFree k tv = tv"
  by (induction tv) auto

lemma eraseFree_dropFree:
  assumes "eraseFree n limit tv R = (tv', R')" "length tv \<le> n" "finite R"
  shows "tv' = dropFree (length tv - limit) tv \<and> finite R' \<and> card R' + length tv' \<le> card R + length tv"
  using assms
proof (induction n arbitrary: tv R)
  case (Suc n)
  show ?case
  proof (cases "-1 \<in> set tv \<and> length tv > limit")
    case True
    let ?i = "length (takeWhile (\<lambda>v. v \<noteq> -1) tv)"
    let ?tv = "take ?i tv @ drop (?i + 1) tv"
    have "?i < length tv" using True takeWhile_stops[of "-1" tv "\<lambda>v. v \<noteq> -1"] by simp
    then have len: "length ?tv = length tv - 1" "0 < length tv" by auto
    have e: "eraseFree n limit ?tv (insert ?i R) = (tv', R')" using Suc.prems(1) True by (simp add: Let_def)
    have "length ?tv \<le> n" "finite (insert ?i R)" using Suc.prems(2,3) len by simp_all
    from Suc.IH[OF e this]
    have IH: "tv' = dropFree (length ?tv - limit) ?tv" "finite R'" "card R' + length tv' \<le> card (insert ?i R) + length ?tv"
      by blast+
    have "length tv - limit = Suc (length ?tv - limit)" unfolding len(1) using True by arith
    then have "tv' = dropFree (length tv - limit) tv" using IH(1) dropFree_Suc[of tv] True by simp
    moreover have "card (insert ?i R) \<le> Suc (card R)" using Suc.prems(3) by (simp add: card_insert_if)
    then have "card R' + length tv' \<le> card R + length tv" using IH(3) unfolding len(1) using len(2) by linarith
    with calculation IH(2) show ?thesis by blast
  next
    case False
    then have "tv' = tv" "R' = R" using Suc.prems(1) by auto
    moreover have "dropFree (length tv - limit) tv = tv" using False dropFree_none[of tv] by (cases "-1 \<in> set tv") auto
    ultimately show ?thesis using Suc.prems(3) by simp
  qed
qed simp

text \<open>\<open>remapReal\<close> writes to each barrier in use the place it has after the removal.\<close>

lemma remapReal_spec:
  assumes "distinct (filter (\<lambda>v. v \<noteq> -1) vs)" "\<forall>v \<in> set vs. v \<noteq> -1 \<longrightarrow> 0 \<le> v \<and> nat v < length bars" "free \<le> i"
  shows "length (remapReal limit n i free vs bars) = length bars \<and>
    (\<forall>w<length bars. int w \<notin> set vs \<longrightarrow> remapReal limit n i free vs bars ! w = bars ! w) \<and>
    (\<forall>w<length bars. producerCount (remapReal limit n i free vs bars ! w) = producerCount (bars ! w) \<and>
      consumerCount (remapReal limit n i free vs bars ! w) = consumerCount (bars ! w)) \<and>
    (\<forall>k<length (dropFree (n - limit - free) vs). dropFree (n - limit - free) vs ! k \<noteq> -1 \<longrightarrow>
      realId (remapReal limit n i free vs bars ! nat (dropFree (n - limit - free) vs ! k)) = int (i - free) + int k)"
  using assms
proof (induction vs arbitrary: i free bars)
  case (Cons v vs)
  show ?case
  proof (cases "v = -1")
    case True
    show ?thesis
    proof (cases "n - free > limit")
      case t: True
      then have k: "n - limit - free = Suc (n - limit - Suc free)" "limit + free < n" by simp_all
      have "int (Suc i - Suc free) = int (i - free)" by simp
      then show ?thesis using Cons.IH[of bars "Suc free" "Suc i"] Cons.prems True t by (simp add: k(1)) (simp add: k(2))
    next
      case False
      then have k: "n - limit - free = 0" by simp
      note IH = Cons.IH[of bars free "Suc i"]
      have "realId (remapReal limit n (Suc i) free vs bars ! nat ((v # vs) ! j)) = int (i - free) + int j"
        if "j < Suc (length vs)" "(v # vs) ! j \<noteq> -1" for j
        using IH Cons.prems True that k by (cases j) (auto simp: Suc_diff_le)
      then show ?thesis using IH Cons.prems True False k by simp
    qed
  next
    case False
    let ?bars = "bars[nat v := (bars ! nat v)\<lparr>realId := int i - int free\<rparr>]"
    have v: "0 \<le> v" "nat v < length bars" using Cons.prems(2) False by auto
    have notin: "v \<notin> set vs" using Cons.prems(1) False by auto
    have IH: "length (remapReal limit n (Suc i) free vs ?bars) = length ?bars"
      "\<forall>w<length bars. int w \<notin> set vs \<longrightarrow> remapReal limit n (Suc i) free vs ?bars ! w = ?bars ! w"
      "\<forall>w<length bars. producerCount (remapReal limit n (Suc i) free vs ?bars ! w) = producerCount (?bars ! w) \<and>
        consumerCount (remapReal limit n (Suc i) free vs ?bars ! w) = consumerCount (?bars ! w)"
      "\<forall>k<length (dropFree (n - limit - free) vs). dropFree (n - limit - free) vs ! k \<noteq> -1 \<longrightarrow>
        realId (remapReal limit n (Suc i) free vs ?bars ! nat (dropFree (n - limit - free) vs ! k)) = int (Suc i - free) + int k"
      using Cons.IH[of ?bars free "Suc i"] Cons.prems False by auto
    have here: "remapReal limit n (Suc i) free vs ?bars ! nat v = (bars ! nat v)\<lparr>realId := int i - int free\<rparr>"
      using IH(2) notin v by auto
    have R: "remapReal limit n i free (v # vs) bars = remapReal limit n (Suc i) free vs ?bars"
      and D: "dropFree (n - limit - free) (v # vs) = v # dropFree (n - limit - free) vs" using False by simp_all
    have "realId (remapReal limit n (Suc i) free vs ?bars ! nat ((v # dropFree (n - limit - free) vs) ! j)) = int (i - free) + int j"
      if "j < Suc (length (dropFree (n - limit - free) vs))" "(v # dropFree (n - limit - free) vs) ! j \<noteq> -1" for j
      using that IH(4) here Cons.prems(3) by (cases j) (auto simp: Suc_diff_le)
    moreover have "producerCount (?bars ! w) = producerCount (bars ! w) \<and> consumerCount (?bars ! w) = consumerCount (bars ! w)" for w
      by (cases "w = nat v") (use v in auto)
    moreover have "?bars ! w = bars ! w" if "int w \<noteq> v" for w using that v by (cases "w = nat v") auto
    ultimately show ?thesis unfolding R D using IH by auto
  qed
qed simp

lemma remapReal_length: "length (remapReal limit n i free vs bars) = length bars"
  by (induction limit n i free vs bars rule: remapReal.induct) auto

lemma erasePrev_length: "erasePrev is pv = Inr pv' \<Longrightarrow> length pv' + length is = length pv"
proof (induction "is" arbitrary: pv)
  case (Cons i "is")
  then have "i < length pv" "erasePrev is (take i pv @ drop (i + 1) pv) = Inr pv'" by (auto simp: guardE_Inr)
  with Cons.IH[of "take i pv @ drop (i + 1) pv"] show ?case by auto
qed simp

lemma set_dropFree: "set (dropFree k tv) \<subseteq> set tv" "v \<noteq> -1 \<Longrightarrow> v \<in> set tv \<Longrightarrow> v \<in> set (dropFree k tv)"
  by (induction k tv rule: dropFree.induct) (auto split: if_splits)

lemma distinct_held:
  assumes "physInv strict s"
  shows "distinct (filter (\<lambda>v. v \<noteq> -1) (toVirtual s))"
proof -
  have inj: "i = j" if ij: "i < length (toVirtual s)" "j < length (toVirtual s)" "toVirtual s ! i = toVirtual s ! j" "toVirtual s ! i \<noteq> -1" for i j
  proof -
    obtain v where v: "toVirtual s ! i = int v" "realId (barAt s v) = int i" using physInvD(6)[OF assms ij(1,4)] by blast
    obtain w where w: "toVirtual s ! j = int w" "realId (barAt s w) = int j" using physInvD(6)[OF assms ij(2)] ij(3,4) by auto
    from v w ij(3) show ?thesis by simp
  qed
  have "distinct (filter (\<lambda>v. v \<noteq> -1) xs)"
    if "\<And>i j. i < length xs \<Longrightarrow> j < length xs \<Longrightarrow> xs ! i = xs ! j \<Longrightarrow> xs ! i \<noteq> -1 \<Longrightarrow> i = j" for xs :: "int list"
    using that
  proof (induction xs)
    case (Cons x xs)
    have "distinct (filter (\<lambda>v. v \<noteq> -1) xs)"
      by (rule Cons.IH) (use Cons.prems[of "Suc i" "Suc j" for i j] in auto)
    moreover have "x \<noteq> -1 \<Longrightarrow> x \<notin> set xs" using Cons.prems[of 0 "Suc j" for j] by (fastforce simp: in_set_conv_nth)
    ultimately show ?case by auto
  qed simp
  from this[OF inj] show ?thesis .
qed

lemma physInv_shrinkReal:
  assumes "physInv False s" "dynamicBarriers s" "shrinkReal limit s = Inr s'"
  shows "physInv False s'"
proof -
  note p = physInvD[OF assms(1)]
  let ?tv = "toVirtual s" and ?n = "length (toVirtual s)"
  define B where "B = remapReal limit ?n 0 0 ?tv (barriers s)"
  obtain tv R where e: "eraseFree ?n limit ?tv {} = (tv, R)" by (cases "eraseFree ?n limit ?tv {}")
  obtain pv where pv: "erasePrev (rev (elems R)) (prevVid s) = Inr pv"
    and s': "s' = refill (s\<lparr>barriers := B, toVirtual := tv, prevVid := pv\<rparr>)"
    using assms(3) e by (auto simp: shrinkReal_def Let_def bindE_Inr B_def)
  note r = refill_ring[OF s']
  have tv: "tv = dropFree (?n - limit) ?tv" "finite R" "card R + length tv \<le> ?n" using eraseFree_dropFree[OF e] by auto
  have lpv: "length tv \<le> length pv" using erasePrev_length[OF pv] p(2) tv(2,3) by simp
  have held: "0 \<le> v \<and> nat v < bar s" if v: "v \<in> set ?tv" "v \<noteq> -1" for v
  proof -
    obtain k where "k < ?n" "?tv ! k = v" using v(1) by (auto simp: in_set_conv_nth)
    with p(6)[of k] v(2) show ?thesis by auto
  qed
  have Bs: "length B = length (barriers s)" "\<And>w. w < length (barriers s) \<Longrightarrow> int w \<notin> set ?tv \<Longrightarrow> B ! w = barAt s w"
    "\<And>w. w < length (barriers s) \<Longrightarrow> spent (B ! w) = spent (barAt s w)"
    "\<And>k. k < length tv \<Longrightarrow> tv ! k \<noteq> -1 \<Longrightarrow> realId (B ! nat (tv ! k)) = int k"
    using remapReal_spec[OF distinct_held[OF assms(1)], of "barriers s" 0 0 limit ?n] held p(1)
    by (force simp: B_def tv(1) spent_def)+
  have holds: "\<exists>k<length tv. tv ! k = int v \<and> realId (B ! v) = int k" if v: "v < bar s" "\<not> spent (B ! v)" for v
  proof -
    have vl: "v < length (barriers s)" using v(1) p(1) by simp
    then have ns: "\<not> spent (barAt s v)" using Bs(3) v(2) by simp
    then have "nat (realId (barAt s v)) < ?n" "?tv ! nat (realId (barAt s v)) = int v" using p(3,7)[OF v(1)] by (auto simp: validReal_def)
    then have "int v \<in> set ?tv" by (metis nth_mem)
    then have "int v \<in> set tv" using set_dropFree(2)[of "int v" ?tv] tv(1) by simp
    then obtain k where "k < length tv" "tv ! k = int v" by (auto simp: in_set_conv_nth)
    with Bs(4)[of k] show ?thesis by auto
  qed
  have T: "\<exists>v<bar s. tv ! k = int v \<and> realId (B ! v) = int k" if k: "k < length tv" "tv ! k \<noteq> -1" for k
  proof -
    have "tv ! k \<in> set ?tv" using k(1) set_dropFree(1)[of "?n - limit" ?tv] tv(1) by auto
    with held k(2) have "0 \<le> tv ! k" "nat (tv ! k) < bar s" by auto
    with Bs(4)[OF k] show ?thesis by (intro exI[of _ "nat (tv ! k)"]) simp
  qed
  have new: "realId (B ! v) = -1" if "v < length (barriers s)" "bar s \<le> v" for v
  proof -
    have "int v \<notin> set ?tv" using held[of "int v"] that(2) by auto
    then show ?thesis using Bs(2)[OF that(1)] p(4)[OF that assms(2)] by simp
  qed
  have V: "validReal s' (realId (B ! v)) \<or> spent (B ! v)" if "v < bar s" for v
    using holds[OF that] r(2) by (auto simp: validReal_def)
  have O: "tv ! nat (realId (B ! v)) = int v \<or> spent (B ! v)" if "v < bar s" for v
    using holds[OF that] by auto
  show ?thesis
    unfolding physInv_def r(2-6) using r(1) p(1) lpv V T O new Bs(1) assms(2) by (auto simp: r(4))
qed

section \<open>Every reachable state\<close>

lemma simInv_frame:
  assumes "simInv False s" "physInv False s'" "length (barriers s') = length (barriers s)" "tracker s' = tracker s"
    "allQueues s' = allQueues s" "\<And>c. queueOf c s' = queueOf c s" "dma s' = dma s" "dmaTasks s' = dmaTasks s"
  shows "simInv False s'"
proof -
  have "usersOk s' = usersOk s" by (rule usersOk_cong) (simp_all add: assms)
  with assms show ?thesis by (simp add: simInv_def wellShaped_def)
qed

lemma refill_queues [simp]: "queueOf c (refill s) = queueOf c s" "allQueues (refill s) = allQueues s"
  by (cases c; simp add: refill_def allQueues_def)+

lemma plan_queues [simp]:
  "queueOf c (s\<lparr>barriers := B, toVirtual := tv, prevVid := pv\<rparr>) = queueOf c s"
  "allQueues (s\<lparr>barriers := B, toVirtual := tv, prevVid := pv\<rparr>) = allQueues s"
  "queueOf c (s\<lparr>toVirtual := tv, prevVid := pv, progressed := b\<rparr>) = queueOf c s"
  "allQueues (s\<lparr>toVirtual := tv, prevVid := pv, progressed := b\<rparr>) = allQueues s"
  "queueOf c (s\<lparr>batches := bs\<rparr>) = queueOf c s" "allQueues (s\<lparr>batches := bs\<rparr>) = allQueues s"
  by (cases c; simp add: allQueues_def)+

lemma storeBatch_frame: "storeBatch s = Inr s' \<Longrightarrow> \<exists>bs. s' = s\<lparr>batches := bs\<rparr>"
  by (auto simp: storeBatch_def bindE_Inr guardE_Inr Let_def)

lemma simInv_storeBatch:
  assumes "storeBatch s = Inr s'" "simInv False s"
  shows "simInv False s'" "dynamicBarriers s' = dynamicBarriers s"
proof -
  obtain bs where s': "s' = s\<lparr>batches := bs\<rparr>" using storeBatch_frame[OF assms(1)] by blast
  then show "dynamicBarriers s' = dynamicBarriers s" by simp
  have "physInv False s' = physInv False s" by (rule physOk_cong) (simp_all add: s')
  then show "simInv False s'" using assms(2) by (intro simInv_frame[OF assms(2)]) (simp_all add: s' simInv_def)
qed

lemma simInv_legalizeStep:
  assumes "legalizeStep limit s = Inr s'" "simInv False s" "dynamicBarriers s"
  shows "simInv False s' \<and> dynamicBarriers s'"
proof -
  have p: "physInv False s" using assms(2) by (simp add: simInv_def)
  consider "s' = s" | "s' = growReal s" | "shrinkReal limit s = Inr s'"
  proof (cases "progressed s")
    case False
    then have "s' = growReal s" using assms(1) by (simp add: legalizeStep_def Let_def guardE_Inr)
    then show ?thesis by (rule that(2))
  next
    case True
    then have "shrinkReal limit s = Inr s' \<or> s' = s" using assms(1) by (simp add: legalizeStep_def Let_def split: if_splits)
    with that(1,3) show ?thesis by blast
  qed
  then show ?thesis
  proof cases
    case 2
    have "simInv False (growReal s)"
      by (rule simInv_frame[OF assms(2) physInv_growReal[OF p]], unfold growReal_def) (simp_all only: refill_queues plan_queues, simp_all add: refill_def)
    then show ?thesis using 2 assms(3) by (simp add: growReal_def refill_def)
  next
    case 3
    obtain B tv pv where s': "s' = refill (s\<lparr>barriers := B, toVirtual := tv, prevVid := pv\<rparr>)" "length B = length (barriers s)"
      using 3 by (auto simp: shrinkReal_def Let_def bindE_Inr remapReal_length split: prod.splits)
    have "simInv False s'"
      by (rule simInv_frame[OF assms(2) physInv_shrinkReal[OF p assms(3) 3]], unfold s'(1)) (simp_all only: refill_queues plan_queues, simp_all add: refill_def s'(2))
    then show ?thesis using s' assms(3) by (simp add: refill_def)
  qed (use assms in simp)
qed

lemma takeReal_dynamic: "takeReal s = (r, s') \<Longrightarrow> dynamicBarriers s' = dynamicBarriers s"
  using arg_cong[OF takeReal_frame, of s r s' dynamicBarriers] by simp

lemma sim_step_dynamic: "sim_step s s' \<Longrightarrow> wellShaped s \<Longrightarrow> dynamicBarriers s' = dynamicBarriers s"
  by (induction rule: sim_step.induct) (auto simp: mapBarrier_frame takeReal_dynamic queueStep_frame(10))

lemma simInv_legal_step: "legal_step limit s s' \<Longrightarrow> simInv False s \<and> dynamicBarriers s \<Longrightarrow> simInv False s' \<and> dynamicBarriers s'"
proof (induction rule: legal_step.induct)
  case (plain s s')
  then show ?case using simOk_step sim_step_dynamic by (auto simp: simInv_def)
next
  case (batch s s')
  then show ?case using simInv_storeBatch by blast
next
  case (legalise s s')
  then show ?case using simInv_legalizeStep by blast
qed

lemma simInv_legal_steps:
  "(legal_step limit)\<^sup>*\<^sup>* s s' \<Longrightarrow> simInv False s \<and> dynamicBarriers s \<Longrightarrow> simInv False s' \<and> dynamicBarriers s'"
proof (induction rule: rtranclp_induct)
  case (step y z)
  then show ?case using simInv_legal_step by blast
qed simp

section \<open>Every run is a sequence of steps\<close>

lemma legalizeStep_shape: "legalizeStep limit s = Inr s' \<Longrightarrow> dma s' = dma s \<and> dmaTasks s' = dmaTasks s"
  by (auto simp: legalizeStep_def growReal_def shrinkReal_def refill_def Let_def guardE_Inr bindE_Inr split: if_splits prod.splits)

lemma simRound_legal_steps:
  assumes "simRound True limit s = Inr (go, s')" "wellShaped s"
  shows "(legal_step limit)\<^sup>*\<^sup>* s s' \<and> wellShaped s'"
proof -
  let ?s = "s\<lparr>progressed := False\<rparr>"
  obtain s1 where m: "mapBarriers (length (barriers s) - bar s) ?s = Inr s1" using assms(1) by (auto simp: simRound_def bindE_Inr)
  obtain s2 where b: "(if length (toVirtual s1) > limit then storeBatch s1 else Inr s1) = Inr s2"
    using assms(1) m by (auto simp: simRound_def bindE_Inr)
  obtain ok s3 where q: "runQueues (allQueues s2) s2 = (ok, s3)" by fastforce
  have e: "s' = s3 \<or> legalizeStep limit s3 = Inr s'"
    using assms(1) m b q by (auto simp: simRound_def bindE_Inr split: if_splits)
  have w: "wellShaped ?s" using assms(2) by (simp add: wellShaped_def)
  have "progresses ?s s1"
  proof (cases "bar s \<le> length (barriers s)")
    case True
    then show ?thesis using m w by (intro progresses_mapBarriers) auto
  next
    case False
    then show ?thesis using m w by simp
  qed
  then have r1: "(legal_step limit)\<^sup>*\<^sup>* ?s s1" "wellShaped s1" using plain_steps by (auto simp: progresses_def)
  have r2: "(legal_step limit)\<^sup>*\<^sup>* s1 s2" "wellShaped s2"
    using b r1(2) storeBatch_frame[of s1 s2] legal_step.batch[of s1 s2] by (auto simp: wellShaped_def split: if_splits)
  have "progresses s2 s3" using q r2(2) by (intro progresses_runQueues) auto
  then have r3: "(legal_step limit)\<^sup>*\<^sup>* s2 s3" "wellShaped s3" using plain_steps by (auto simp: progresses_def)
  have r4: "(legal_step limit)\<^sup>*\<^sup>* s3 s'" "wellShaped s'"
    using e r3(2) legal_step.legalise[of limit s3 s'] legalizeStep_shape[of limit s3 s'] by (auto simp: wellShaped_def)
  have "legal_step limit s ?s" by (intro legal_step.plain sim_step.new_round)
  with r1(1) r2(1) r3(1) r4 show ?thesis by (meson converse_rtranclp_into_rtranclp rtranclp_trans)
qed

lemma simLoop_legal_steps:
  "simLoop fuel True limit s = Some (Inr (ok, s')) \<Longrightarrow> wellShaped s \<Longrightarrow> (legal_step limit)\<^sup>*\<^sup>* s s'"
proof (induction fuel arbitrary: s)
  case (Suc fuel)
  show ?case
  proof (cases "unfinished s")
    case True
    obtain go s1 where r: "simRound True limit s = Inr (go, s1)"
      using Suc.prems(1) True by (auto split: sum.splits)
    note st = simRound_legal_steps[OF r Suc.prems(2)]
    show ?thesis
    proof (cases go)
      case True
      then have "(legal_step limit)\<^sup>*\<^sup>* s1 s'" using Suc.IH[of s1] Suc.prems(1) \<open>unfinished s\<close> r st by simp
      with st show ?thesis by (meson rtranclp_trans)
    next
      case False
      then show ?thesis using Suc.prems(1) \<open>unfinished s\<close> r st by simp
    qed
  qed (use Suc.prems in simp)
qed simp

text \<open>The states the simulation goes through, with or without legalisation.\<close>

definition simReachable :: "bool \<Rightarrow> nat \<Rightarrow> simulator \<Rightarrow> sim_state \<Rightarrow> bool" where
  "simReachable legal limit s t \<longleftrightarrow> (if legal then legal_step limit else sim_step)\<^sup>*\<^sup>* (startState limit s) t"

lemma simLoop_reachable:
  "simLoop fuel legal limit (startState limit s) = Some (Inr (ok, t)) \<Longrightarrow> simReachable legal limit s t"
  using simLoop_legal_steps[of fuel limit "startState limit s" ok t] simLoop_steps[of fuel limit "startState limit s" ok t]
  by (cases legal) (auto simp: simReachable_def)

lemma simReachable_inv:
  assumes "startOk limit s" "simReachable legal limit s t" "legal \<Longrightarrow> dynamicBarriers s"
  shows "physInv (\<not> legal) t"
proof (cases legal)
  case True
  then show ?thesis
    using simInv_legal_steps[of limit "startState limit s" t] simOk_start[OF assms(1)] assms(2,3) by (simp add: simReachable_def simInv_def)
next
  case False
  then show ?thesis
    using simOk_steps[of "startState limit s" t True] simOk_start[OF assms(1)] assms(2) by (simp add: simReachable_def simInv_def)
qed

end
