(* ===== verification/Simulator_Properties.thy ===== *)
theory Simulator_Properties
  imports Simulator_Build Simulation_Legal
begin

text \<open>
  What the ring buffer and the barrier simulator promise.
\<close>

section \<open>Ring buffer\<close>

text \<open>
  C30: a ring buffer of capacity \<open>n\<close> is a queue of at most \<open>n\<close> elements. For every sequence of
  pushes and pops a queue of that size allows, the ring returns the same elements in the same
  order, and it is empty or full exactly when the queue is.
\<close>

theorem ringBuffer_refines_queue:
  assumes "queueRun n ops [] = Some (out, q)"
  shows "\<exists>r. fifoRun pushRing popRing frontRing ops (resetRing z n r0) = (out, r) \<and> ringContents r = q \<and>
    (ringEmpty r \<longleftrightarrow> q = []) \<and> (ringFull r \<longleftrightarrow> length q = n)"
proof -
  have "ringOk (resetRing z n r0)" "queueRun (length (storage (resetRing z n r0))) ops (ringContents (resetRing z n r0)) = Some (out, q)"
    using assms by (simp_all add: resetRing_ok)
  from ring.run_refines[OF this] obtain r where "fifoRun pushRing popRing frontRing ops (resetRing z n r0) = (out, r)"
    "ringContents r = q" "length (storage r) = n" by (auto simp: resetRing_ok)
  then show ?thesis by (auto simp: ringEmpty_iff ringFull_def simp flip: length_ringContents)
qed

theorem ringBuffer_refines_queue_witness:
  "\<exists>r. fifoRun pushRing popRing frontRing [PushOp 7, PushOp 8, PopOp, PushOp (9::nat), PopOp] (resetRing 0 2 emptyRing) = ([7, 8], r) \<and>
    ringContents r = [9] \<and> (ringEmpty r \<longleftrightarrow> [9::nat] = []) \<and> (ringFull r \<longleftrightarrow> length [9::nat] = 2)"
  by (rule ringBuffer_refines_queue) simp

section \<open>Simulation without legalisation\<close>

text \<open>
  C31: without legalisation the main loop ends on every input: as many rounds as there are
  barriers and queue entries, and one, are enough, and more fuel does not change the result.
\<close>

theorem simulateBarriers_returns:
  "\<exists>r. \<forall>extra. simulateBarriers (Suc (length (barriers s) + entryCount s) + extra) numBarriers False s = Some r"
proof -
  let ?fuel = "Suc (length (barriers s) + entryCount s)"
  define L where "L = (case numBarriers of None \<Rightarrow> availableBarriers s | Some n \<Rightarrow> n)"
  have "simLoop ?fuel False (nat L) (startState (nat L) s) \<noteq> None"
    by (rule simLoop_returns) (simp_all add: simWork_startState)
  then obtain r where r: "simLoop ?fuel False (nat L) (startState (nat L) s) = Some r" by blast
  have "simLoop (?fuel + extra) False (nat L) (startState (nat L) s) = Some r" for extra
    by (rule simLoop_more[OF r]) simp
  then show ?thesis unfolding simulateBarriers_def L_def[symmetric] Let_def
    by (cases "(case numBarriers of None \<Rightarrow> False | Some n \<Rightarrow> availableBarriers s < n) \<or> L < 0") (simp_all del: simLoop.simps)
qed

section \<open>Physical barriers\<close>

text \<open>Two tasks on two queues, three barriers in a row on two physical barriers.\<close>

definition plainTask :: "executor_kind \<Rightarrow> nat list \<Rightarrow> nat list \<Rightarrow> sim_op" where
  "plainTask k ws us = SimTask \<lparr>executorKind = k, innerOp = (if k = DMA_NN then Dma (Some 0) None else OtherOp),
     waitOperands = map Some ws, updateOperands = map Some us, taskIndexAttr = None, syncTaskAttr = False, ports = [0]\<rparr>"

definition chainBody :: "sim_op list" where
  "chainBody = [DeclareVirtual 10, DeclareVirtual 11, DeclareVirtual 12, plainTask DMA_NN [] [10], plainTask SHAVE_ACT [10] [11],
     plainTask DMA_NN [11] [12], plainTask SHAVE_ACT [12] []]"

definition chainSim :: simulator where
  "chainSim = (case mkSimulator 64 64 4 1 False chainBody of Inr s \<Rightarrow> s | Inl _ \<Rightarrow> undefined)"

lemma chainSim_ok: "mkSimulator 64 64 4 1 False chainBody = Inr chainSim"
proof -
  have "case mkSimulator 64 64 4 1 False chainBody of Inr s \<Rightarrow> True | Inl _ \<Rightarrow> False" by code_simp
  then show ?thesis by (auto simp: chainSim_def split: sum.splits)
qed








section \<open>Simulations that succeed\<close>

text \<open>
  C33: when every task stands in one hardware queue (no DMA on several ports), updates of a barrier come before the waits for it in program
  order, and there is a physical barrier for each virtual one, the simulation of the function
  succeeds: it returns success within the bound of C31, and every barrier is produced and
  consumed completely.
\<close>

theorem simulation_succeeds:
  assumes "mkSimulator mv ms avail dq False body = Inr s" "dynamicBarriers s" "list_all simpleTask (simTasks body)"
    "waitsAfterUpdates {} (simTasks body)" "int (barrierOps body) \<le> limit" "limit \<le> availableBarriers s"
  shows "\<exists>t. simulateBarriers (Suc (length (barriers s) + entryCount s)) (Some limit) False s = Some (Inr (True, t)) \<and>
    \<not> unfinished t \<and> list_all (\<lambda>b. producerCount b = 0 \<and> consumerCount b = 0) (barriers t)"
proof -
  obtain ord k W where b: "built (nat limit) ord k W s" and n: "length (barriers s) = barrierOps body"
    using mkSimulator_built[OF assms(1-4)] by blast
  note l = built_live[OF b]
  have "length (barriers s) \<le> nat limit" using n assms(5) by simp
  then obtain t where t: "simLoop (Suc (length (barriers s) + entryCount s)) False (nat limit) (startState (nat limit) s) = Some (Inr (True, t))"
    "liveOk t" "\<not> unfinished t" using simLoop_live[OF l(1) l(2)] by (metis lessI simWork_startState)
  have "list_all (\<lambda>b. producerCount b = 0 \<and> consumerCount b = 0) (barriers t)"
    using finished_counts[OF t(2,3)] by (simp add: list_all_length)
  moreover have "\<not> limit < 0" using assms(5) by simp
  ultimately show ?thesis using t assms(6) by (simp add: simulateBarriers_def del: simLoop.simps)
qed

theorem simulation_succeeds_witness:
  "\<exists>t. simulateBarriers (Suc (length (barriers chainSim) + entryCount chainSim)) (Some 3) False chainSim = Some (Inr (True, t)) \<and>
    \<not> unfinished t \<and> list_all (\<lambda>b. producerCount b = 0 \<and> consumerCount b = 0) (barriers t)"
proof (rule simulation_succeeds[OF chainSim_ok])
  show "dynamicBarriers chainSim" "(3::int) \<le> availableBarriers chainSim" unfolding chainSim_def by code_simp+
  show "list_all simpleTask (simTasks chainBody)" "waitsAfterUpdates {} (simTasks chainBody)" "int (barrierOps chainBody) \<le> 3" by code_simp+
qed

text \<open>
  Why one queue per task: a DMA on the ports 0 and 1 behind a DMA on port 1. All conditions but
  this one hold, with a physical barrier for the only virtual one, and the simulation fails.
\<close>

definition portTask :: "int list \<Rightarrow> nat list \<Rightarrow> sim_op" where
  "portTask ps us = SimTask \<lparr>executorKind = DMA_NN, innerOp = Dma (Some 0) None, waitOperands = [], updateOperands = map Some us,
     taskIndexAttr = None, syncTaskAttr = False, ports = ps\<rparr>"

definition portBody :: "sim_op list" where
  "portBody = [DeclareVirtual 10, portTask [1] [], portTask [0, 1] [10], plainTask SHAVE_ACT [10] []]"

lemma multi_port_fails:
  "waitsAfterUpdates {} (simTasks portBody)" "int (barrierOps portBody) = 1"
  "case mkSimulator 64 64 4 2 False portBody of Inl _ \<Rightarrow> False
   | Inr s \<Rightarrow> dynamicBarriers s \<and> 1 \<le> availableBarriers s \<and>
      (case simulateBarriers 20 (Some 1) False s of Some (Inr (ok, _)) \<Rightarrow> \<not> ok | _ \<Rightarrow> False)"
  by code_simp+

section \<open>Simulation with legalisation\<close>

text \<open>A deadlock: every barrier is mapped and every head waits for producers that are behind a head.\<close>

definition deadlocked :: "sim_state \<Rightarrow> bool" where
  "deadlocked s \<longleftrightarrow> bar s = length (barriers s) \<and> (\<exists>c\<in>set (allQueues s). headOf c s < length (queueOf c s)) \<and>
     (\<forall>c\<in>set (allQueues s). headOf c s < length (queueOf c s) \<longrightarrow> multiEntry c s = None \<and>
       (\<exists>v\<in>set (userWaits (tracker s) (queueOf c s ! headOf c s)). 0 < producerCount (barriers s ! v)))"

lemma queueStep_waiting:
  assumes "multiEntry c s = None" "v \<in> set (userWaits (tracker s) (queueOf c s ! headOf c s))" "0 < producerCount (barriers s ! v)"
  shows "queueStep c s = (Skip, s)"
proof -
  have "\<not> waitsReady s (userWaits (tracker s) (queueOf c s ! headOf c s))" using assms(2,3) by (auto simp: waitsReady_def list_all_iff)
  then have "processSim (queueOf c s ! headOf c s) s = (Skip, queueOf c s ! headOf c s, s)" by (simp add: processSim_def Let_def userWaits_def)
  moreover have "setUser c (headOf c s) (queueOf c s ! headOf c s) s = s" by (cases c) simp_all
  ultimately show ?thesis using assms(1) by (simp add: queueStep_def)
qed

lemma runQueues_deadlocked:
  "deadlocked s \<Longrightarrow> set cs \<subseteq> set (allQueues s) \<Longrightarrow> runQueues cs s = (True, s)"
proof (induction cs)
  case (Cons c cs)
  have "runQueue (length (queueOf c s) - headOf c s) c s = (True, s)"
  proof (cases "headOf c s < length (queueOf c s)")
    case True
    then obtain v where "multiEntry c s = None" "v \<in> set (userWaits (tracker s) (queueOf c s ! headOf c s))" "0 < producerCount (barriers s ! v)"
      using Cons.prems by (auto simp: deadlocked_def)
    from queueStep_waiting[OF this] True show ?thesis by (cases "length (queueOf c s) - headOf c s") auto
  qed simp
  then show ?case using Cons by simp
qed simp

lemma storeBatch_same:
  assumes "samePid s"
  shows "\<exists>bs. storeBatch s = Inr (s\<lparr>batches := bs\<rparr>)"
proof -
  have last: "\<exists>r. lastBatchActive b True m vs = Inr r" for b m vs
    by (induction b True m vs rule: lastBatchActive.induct) auto
  have "\<exists>r. isNewBatchNeeded s = Inr r" using assms last[of "last (batches s)" False "toVirtual s"] by (auto simp: isNewBatchNeeded_def)
  then obtain r where r: "isNewBatchNeeded s = Inr r" ..
  define bs where "bs = (if r then batches s @ [{}] else batches s)"
  have "storeBatch s = Inr (s\<lparr>batches := bs[length bs - 1 := last bs \<union> (set (toVirtual s) - {-1})]\<rparr>)"
    using r assms by (simp only: storeBatch_def Let_def bindE_simps guardE_simps simp_thms bs_def[symmetric])
  then show ?thesis by (rule exI)
qed

lemma deadlocked_cong:
  assumes "bar s' = bar s" "barriers s' = barriers s" "tracker s' = tracker s" "allQueues s' = allQueues s"
    "\<And>c. queueOf c s' = queueOf c s" "\<And>c. headOf c s' = headOf c s" "\<And>c. multiEntry c s' = multiEntry c s"
  shows "deadlocked s' = deadlocked s"
  by (simp add: deadlocked_def assms)

lemma deadlocked_round:
  assumes "deadlocked s" "samePid s"
  shows "\<exists>s'. simRound True limit s = Inr (True, s') \<and> deadlocked s' \<and> samePid s'"
proof -
  define s1 where "s1 = s\<lparr>progressed := False\<rparr>"
  obtain bs where bs: "(if length (toVirtual s1) > limit then storeBatch s1 else Inr s1) = Inr (s1\<lparr>batches := bs\<rparr>)"
  proof (cases "length (toVirtual s1) > limit")
    case True
    then show ?thesis using storeBatch_same[of s1] assms(2) that by (auto simp: s1_def)
  next
    case False
    then show ?thesis using that[of "batches s1"] by (cases s1) simp
  qed
  define s2 where "s2 = s1\<lparr>batches := bs\<rparr>"
  have d2: "deadlocked s2 = deadlocked s"
  proof (rule deadlocked_cong)
    show "queueOf c s2 = queueOf c s" "headOf c s2 = headOf c s" "multiEntry c s2 = multiEntry c s" for c
      by (cases c; simp add: s2_def s1_def)+
  qed (simp_all add: s2_def s1_def allQueues_def)
  have run: "runQueues (allQueues s2) s2 = (True, s2)" using runQueues_deadlocked d2 assms(1) by blast
  have leg: "legalizeStep limit s2 = Inr (growReal s2)" using assms(2) by (simp add: legalizeStep_def s2_def s1_def)
  have dg: "deadlocked (growReal s2) = deadlocked s2"
  proof (rule deadlocked_cong)
    show "queueOf c (growReal s2) = queueOf c s2" "headOf c (growReal s2) = headOf c s2" "multiEntry c (growReal s2) = multiEntry c s2" for c
      by (cases c; simp add: growReal_def refill_def)+
  qed (simp_all add: growReal_def refill_def allQueues_def)
  have m: "mapBarriers (length (barriers s) - bar s) s1 = Inr s1" using assms(1) by (simp add: deadlocked_def)
  have "simRound True limit s = Inr (True, growReal s2)"
    using m bs run leg by (simp add: simRound_def s1_def[symmetric] s2_def[symmetric]) (simp add: growReal_def refill_def)
  moreover have "samePid (growReal s2)" using assms(2) by (simp add: growReal_def refill_def s2_def s1_def)
  ultimately show ?thesis using dg d2 assms(1) by blast
qed

text \<open>
  C34: in legalisation mode with the reuse of physical barriers along dependencies, the loop has
  no way out of a deadlock: where the other modes report a blocked simulation, it adds one
  physical barrier per round for ever, for every bound on the rounds.
\<close>

theorem legalisation_never_returns:
  assumes "deadlocked s" "samePid s"
  shows "simLoop fuel True limit s = None"
  using assms
proof (induction fuel arbitrary: s)
  case (Suc fuel)
  obtain s' where s': "simRound True limit s = Inr (True, s')" "deadlocked s'" "samePid s'" using deadlocked_round[OF Suc.prems] by blast
  have "unfinished s" using Suc.prems(1) by (auto simp: deadlocked_def unfinished_def list_ex_iff)
  then show ?case using s' Suc.IH by simp
qed simp

text \<open>Two tasks on two queues that wait for each other.\<close>

definition crossSim :: simulator where
  "crossSim = (case mkSimulator 64 64 4 1 True
      [DeclareVirtual 10, DeclareVirtual 11, plainTask DMA_NN [10] [11], plainTask SHAVE_ACT [11] [10]] of Inr s \<Rightarrow> s | Inl _ \<Rightarrow> undefined)"

definition crossState :: sim_state where
  "crossState = (case mapBarriers 2 (startState 4 crossSim) of Inr s \<Rightarrow> s | Inl _ \<Rightarrow> undefined)"

theorem legalisation_never_returns_witness: "simLoop 1000000 True 4 crossState = None"
proof (rule legalisation_never_returns)
  show "deadlocked crossState" "samePid crossState" unfolding crossState_def crossSim_def by code_simp+
qed

end
