(* ===== verification/Npu_Numeric.thy ===== *)
theory Npu_Numeric
  imports Npu_Prelude "HOL-Library.Signed_Division"
begin

text \<open>
  The integer helpers of include/vpux/utils/core/numeric.hpp at type \<open>int64_t\<close>. Division is that
  of C++, which rounds towards zero; sizes stay far below \<open>2 ^ 63\<close>, so values are integers.
\<close>

definition divUp :: "int \<Rightarrow> int \<Rightarrow> int" where
  "divUp a b = (a + b - 1) sdiv b"

definition alignUp :: "'e \<Rightarrow> int \<Rightarrow> int \<Rightarrow> 'e + int" where
  "alignUp zeroAlign val align =
     guardE (align \<noteq> 0) zeroAlign
       (let isPos = (if val \<ge> 0 then 1 else 0) in Inr (((val + isPos * (align - 1)) sdiv align) * align))"

lemma sdiv_nonneg: "0 \<le> a \<Longrightarrow> 0 \<le> b \<Longrightarrow> a sdiv b = a div b" for a b :: int
  by (simp add: signed_divide_int_def sgn_if)

lemma smod_nonneg: "0 \<le> a \<Longrightarrow> 0 \<le> b \<Longrightarrow> a smod b = a mod b" for a b :: int
  by (cases "a = 0") (simp_all add: signed_modulo_int_def sgn_if)

lemma divUp_bounds:
  assumes "0 \<le> a" "0 < b"
  shows "a \<le> divUp a b * b" "divUp a b * b < a + b" "0 < a \<Longrightarrow> 0 < divUp a b" "0 \<le> divUp a b"
proof -
  have d: "divUp a b = (a + b - 1) div b" using assms by (simp add: divUp_def sdiv_nonneg)
  have m: "(a + b - 1) div b * b + (a + b - 1) mod b = a + b - 1" "0 \<le> (a + b - 1) mod b" "(a + b - 1) mod b < b" using assms by simp_all
  from m show "a \<le> divUp a b * b" "divUp a b * b < a + b" unfolding d by linarith+
  show "0 < divUp a b" if "0 < a" using assms that unfolding d by (simp add: pos_imp_zdiv_pos_iff)
  show "0 \<le> divUp a b" using assms unfolding d by (simp add: pos_imp_zdiv_nonneg_iff)
qed

lemma alignUp_bounds:
  assumes "alignUp e val align = Inr r" "0 \<le> val" "0 < align"
  shows "val \<le> r" "r < val + align" "align dvd r"
proof -
  have r: "r = divUp val align * align" using assms by (simp add: alignUp_def divUp_def Let_def algebra_simps)
  show "val \<le> r" "r < val + align" using divUp_bounds[OF assms(2,3)] r by auto
  show "align dvd r" by (simp add: r)
qed

lemma alignUp_total: "align \<noteq> 0 \<Longrightarrow> \<exists>r. alignUp e val align = Inr r"
  by (simp add: alignUp_def Let_def)

end
