(* ===== verification/Tiling.thy ===== *)
theory Tiling
  imports Npu_Numeric Dims_Order
begin

text \<open>
  Tiling of operations (src/core/tiling.cpp, include/vpux/compiler/core/tiling.hpp): how an output
  shape is divided into tiles.
\<close>

section \<open>Tiles\<close>

type_synonym shape = "int list"

record tile_info =
  tileShape :: shape
  tileOffsets :: shape
  tileAxis :: shape
  isCompletedTile :: bool

definition emptyTile :: "nat \<Rightarrow> tile_info" where
  "emptyTile rank = \<lparr>tileShape = replicate rank 0, tileOffsets = replicate rank 0, tileAxis = replicate rank 0, isCompletedTile = False\<rparr>"

definition wholeTile :: "shape \<Rightarrow> tile_info" where
  "wholeTile sh = \<lparr>tileShape = sh, tileOffsets = replicate (length sh) 0, tileAxis = replicate (length sh) 1, isCompletedTile = False\<rparr>"

datatype tiling_error =
    ZeroAlign
  | MlirFailure \<comment> \<open>\<open>mlir::failure()\<close>, not an exception\<close>
  | OrderFailed order_error
  | WrongOutputTile
  | WrongInputRange
  | WrongKernel
  | WrongStride
  | WrongPadding
  | InputDoesNotMatch
  | WrongRange
  | WrongPlanarSize
  | WrongRank
  | WrongTileShape
  | WrongTileOffset
  | WrongPads
  | ZeroBlockSize
  | AlignmentSizes
  | DivisionByZero
  | NotIsolated
  | FailedToTile
  | StrideMismatch
  | EmptyList

section \<open>Dividing a shape\<close>

text \<open>
  The size of the first tiles, the size of the others, and how many tiles are of the first size.
  \<open>None\<close> is \<open>std::nullopt\<close>. A divisor of 0 is a division by zero.
\<close>

definition divideTileSizeAndInterval :: "nat \<Rightarrow> shape \<Rightarrow> shape \<Rightarrow> shape \<Rightarrow> tiling_error + (int \<times> int \<times> int) option" where
  "divideTileSizeAndInterval dimension divisors sh alignment =
     (let shapeVal = sh ! dimension; divisorVal = divisors ! dimension; alignmentVal = alignment ! dimension
      in if shapeVal < divisorVal then Inr None
         else guardE (divisorVal \<noteq> 0) DivisionByZero (
         if alignmentVal > 1 then
           bindE (alignUp ZeroAlign (divUp shapeVal divisorVal) alignmentVal) (\<lambda>tileSize.
             let remainderTileSize = shapeVal - tileSize * (divisorVal - 1)
             in Inr (if remainderTileSize \<le> 0 then None else Some (tileSize, remainderTileSize, divisorVal - 1)))
         else
           (let tileSize = shapeVal sdiv divisorVal; remainderTileSize = shapeVal smod divisorVal
            in Inr (Some (if remainderTileSize \<noteq> 0 then (tileSize + 1, tileSize, remainderTileSize)
                          else (tileSize, remainderTileSize, divisorVal))))))"

text \<open>The dimension at a level of the recursion: NCHW, or NHWC when space comes first.\<close>

definition nhwc :: dims_order where
  "nhwc = mkOrder 0x1342"

definition dimensionAt :: "bool \<Rightarrow> nat \<Rightarrow> tiling_error + nat" where
  "dimensionAt unrollSpatialFirst i =
     (if unrollSpatialFirst then (case dimAt i nhwc of Inl e \<Rightarrow> Inl (OrderFailed e) | Inr d \<Rightarrow> Inr d) else Inr i)"

text \<open>
  The recursion over the dimensions; \<open>k\<close> of them are left, the tile under construction and the
  list of results are threaded through. A complete tile is registered when no dimension is left.
\<close>

definition setTile :: "nat \<Rightarrow> int \<Rightarrow> int \<Rightarrow> int \<Rightarrow> tile_info \<Rightarrow> tile_info" where
  "setTile d sz off ax t =
     t\<lparr>tileShape := (tileShape t)[d := sz], tileOffsets := (tileOffsets t)[d := off], tileAxis := (tileAxis t)[d := ax]\<rparr>"

fun divideTiles :: "shape \<Rightarrow> shape \<Rightarrow> shape \<Rightarrow> bool \<Rightarrow> nat \<Rightarrow> tile_info \<Rightarrow> tile_info list \<Rightarrow>
    tiling_error + tile_info \<times> tile_info list" where
  "divideTiles divisors sh alignment unrollSpatialFirst 0 ongoing tiles = Inr (ongoing, tiles @ [ongoing])"
| "divideTiles divisors sh alignment unrollSpatialFirst (Suc k) ongoing tiles =
     bindE (dimensionAt unrollSpatialFirst (length divisors - Suc k)) (\<lambda>d.
     bindE (divideTileSizeAndInterval d divisors sh alignment) (\<lambda>r.
       case r of
         None \<Rightarrow> Inl MlirFailure
       | Some (tileSize, remainderTileSize, tileSizeInterval) \<Rightarrow>
           bindE (foldE (\<lambda>tileIndex (ongoing, tiles, tileOffset).
               let sz = (if int tileIndex < tileSizeInterval then tileSize else remainderTileSize)
               in bindE (divideTiles divisors sh alignment unrollSpatialFirst k (setTile d sz tileOffset (divisors ! d) ongoing) tiles)
                    (\<lambda>(ongoing, tiles). Inr (ongoing, tiles, tileOffset + sz)))
             [0..<nat (divisors ! d)] (ongoing, tiles, 0))
             (\<lambda>(ongoing, tiles, _). Inr (ongoing, tiles))))"

definition fillDividedTiles :: "shape \<Rightarrow> shape \<Rightarrow> shape option \<Rightarrow> bool \<Rightarrow> tiling_error + tile_info list" where
  "fillDividedTiles divisors sh alignment unrollSpatialFirst =
     bindE (divideTiles divisors sh (case alignment of None \<Rightarrow> replicate (length sh) 1 | Some a \<Rightarrow> a) unrollSpatialFirst
              (length divisors) ((emptyTile (length divisors))\<lparr>isCompletedTile := True\<rparr>) [])
       (\<lambda>(_, tiles). Inr tiles)"

section \<open>Tiles of colour conversions\<close>

text \<open>Both loops over the rows are the same code; tile sizes are even, the last tile takes the rest.\<close>

definition actN :: nat where "actN = 0"
definition actC :: nat where "actC = 1"
definition actH :: nat where "actH = 2"
definition actW :: nat where "actW = 3"

definition evenTile :: "int \<Rightarrow> int \<Rightarrow> tiling_error + int" where
  "evenTile shapeVal divisorVal =
     guardE (divisorVal \<noteq> 0) DivisionByZero
       (let tileSizeInit = shapeVal sdiv divisorVal; tileSize = tileSizeInit + tileSizeInit smod 2
        in guardE (tileSize \<noteq> 0) DivisionByZero (Inr tileSize))"

definition setRange :: "nat \<Rightarrow> int \<Rightarrow> int \<Rightarrow> tile_info \<Rightarrow> tile_info" where
  "setRange d sz off t = t\<lparr>tileShape := (tileShape t)[d := sz], tileOffsets := (tileOffsets t)[d := off]\<rparr>"

definition yuvRows :: "shape \<Rightarrow> shape \<Rightarrow> tile_info \<Rightarrow> tiling_error + tile_info list" where
  "yuvRows divisors sh t =
     bindE (evenTile (sh ! actH) (divisors ! actH)) (\<lambda>tileSizeH.
     let divisorValH = (sh ! actH) sdiv tileSizeH; remainderTileSizeH = (sh ! actH) smod tileSizeH
     in Inr (map (\<lambda>j. setRange actH tileSizeH (tileSizeH * int j) t) [0..<nat divisorValH] @
          (if remainderTileSizeH \<noteq> 0 then [setRange actH remainderTileSizeH (tileSizeH * divisorValH) t] else [])))"

definition divideTilesYuvToRgbOp :: "shape \<Rightarrow> shape \<Rightarrow> tile_info \<Rightarrow> tiling_error + tile_info list" where
  "divideTilesYuvToRgbOp divisors sh ongoing =
     (let t = ongoing\<lparr>tileShape := (tileShape ongoing)[actN := sh ! actN, actW := sh ! actW],
            tileAxis := (tileAxis ongoing)[actN := divisors ! actN, actC := divisors ! actC, actH := divisors ! actH, actW := divisors ! actW]\<rparr>
      in bindE (evenTile (sh ! actC) (divisors ! actC)) (\<lambda>tileSizeC.
         let divisorValC = (sh ! actC) sdiv tileSizeC; remainderTileSizeC = (sh ! actC) smod tileSizeC
         in bindE (foldE (\<lambda>i tiles. bindE (yuvRows divisors sh (setRange actC tileSizeC (tileSizeC * int i) t)) (\<lambda>rows. Inr (tiles @ rows)))
              [0..<nat divisorValC] []) (\<lambda>tiles.
            if remainderTileSizeC \<noteq> 0
            then bindE (yuvRows divisors sh (setRange actC remainderTileSizeC (tileSizeC * divisorValC) t)) (\<lambda>rows. Inr (tiles @ rows))
            else Inr tiles)))"

definition fillDividedTilesYuvToRgbOp :: "shape \<Rightarrow> shape \<Rightarrow> tiling_error + tile_info list" where
  "fillDividedTilesYuvToRgbOp divisors sh = divideTilesYuvToRgbOp divisors sh ((emptyTile (length divisors))\<lparr>isCompletedTile := True\<rparr>)"

section \<open>Alignment and order of an operation\<close>

text \<open>
  What tiling asks an operation: whether it is element-wise, the element sizes (in bits) of its
  operands and result, the channel alignment of \<open>AlignedChannelsOpInterface\<close>, the width alignment
  of an \<open>NCEPermute\<close>, and for an NCE operation with weights the sizes of input and filter.
\<close>

record op_facts =
  isEltwise :: bool
  elemBits :: "int list"
  permuteAlignment :: "int option"
  channelAlignment :: "int option"
  weightedSizes :: "(int \<times> int) option"

definition getSubByteAlignmentFactor :: "op_facts \<Rightarrow> int" where
  "getSubByteAlignmentFactor op = fold (\<lambda>bits f. if bits < 8 then max f (8 sdiv bits) else f) (elemBits op) 1"

definition getAlignment :: "op_facts \<Rightarrow> shape \<Rightarrow> shape \<Rightarrow> shape option" where
  "getAlignment op divisors sh =
     (let factor = getSubByteAlignmentFactor op;
          (alignment, result) =
            (if isEltwise op \<and> factor > 1
             then (let a = map (\<lambda>x. if x > 1 then factor else x) divisors in (a, Some a))
             else (replicate (length sh) 1, None))
      in case permuteAlignment op of
           Some w \<Rightarrow> Some (alignment[actW := w])
         | None \<Rightarrow> (case channelAlignment op of
             Some c \<Rightarrow> Some (alignment[actC := lcm c (alignment ! actC)])
           | None \<Rightarrow> result))"

definition calculateAlignmentLCM :: "shape list \<Rightarrow> tiling_error + shape option" where
  "calculateAlignmentLCM alignments =
     (if alignments = [] then Inr None
      else let numDimensions = length (hd alignments)
        in guardE (list_all (\<lambda>a. length a = numDimensions) alignments) AlignmentSizes
             (Inr (Some (map (\<lambda>dim. fold (\<lambda>a l. lcm l (a ! dim)) alignments 1) [0..<numDimensions]))))"

definition getNonOneDim :: "shape \<Rightarrow> nat list" where
  "getNonOneDim sh = filter (\<lambda>i. sh ! i \<noteq> 1) [0..<length sh]"

definition isSpatialFirstNestedTiling :: "op_facts \<Rightarrow> shape \<Rightarrow> bool" where
  "isSpatialFirstNestedTiling op divisors =
     (case weightedSizes op of
        None \<Rightarrow> False
      | Some (inputMemSize, filterMemSize) \<Rightarrow>
          if length (getNonOneDim divisors) \<le> 1 then False
          else inputMemSize * divisors ! actC > filterMemSize * divisors ! actH * divisors ! actW)"

text \<open>A fused operation has the inner operations with their output shapes.\<close>

datatype tiling_op = YuvToRgb | VerticalFusion op_facts "(op_facts \<times> shape) list" | PlainOp op_facts

definition fillDividedTilesOfOp :: "tiling_op \<Rightarrow> shape \<Rightarrow> shape \<Rightarrow> tiling_error + tile_info list" where
  "fillDividedTilesOfOp op divisors sh =
     (case op of
        YuvToRgb \<Rightarrow> fillDividedTilesYuvToRgbOp divisors sh
      | VerticalFusion facts inner \<Rightarrow>
          bindE (calculateAlignmentLCM (List.map_filter (\<lambda>(f, s). getAlignment f divisors s) inner)) (\<lambda>alignment.
            fillDividedTiles divisors sh alignment (isSpatialFirstNestedTiling facts divisors))
      | PlainOp facts \<Rightarrow> fillDividedTiles divisors sh (getAlignment facts divisors sh) (isSpatialFirstNestedTiling facts divisors))"

end
