(* ===== verification/Tile_Inference.thy ===== *)
theory Tile_Inference
  imports Tiling
begin

text \<open>
  From an output tile to the tiles of the inputs (src/core/tiling.cpp): the window of a convolution
  or pooling, and the operations that reduce, gather, pad or rearrange.
\<close>

section \<open>Ranges and pads\<close>

record dim_range =
  rangeBegin :: int
  rangeEnd :: int

text \<open>The two-argument constructor checks the order of the bounds; the fields are public.\<close>

definition dimRange :: "int \<Rightarrow> int \<Rightarrow> tiling_error + dim_range" where
  "dimRange b e = guardE (e \<ge> b) WrongRange (Inr \<lparr>rangeBegin = b, rangeEnd = e\<rparr>)"

definition rangeLength :: "dim_range \<Rightarrow> int" where
  "rangeLength r = rangeEnd r - rangeBegin r"

definition rangeIntersects :: "dim_range \<Rightarrow> dim_range \<Rightarrow> bool" where
  "rangeIntersects r other \<longleftrightarrow> rangeBegin r < rangeEnd other \<and> rangeBegin other < rangeEnd r"

definition rangeContains :: "dim_range \<Rightarrow> dim_range \<Rightarrow> bool" where
  "rangeContains r other \<longleftrightarrow> rangeBegin r \<le> rangeBegin other \<and> rangeEnd r \<ge> rangeEnd other"

definition rangeAsROI :: "dim_range \<Rightarrow> dim_range \<Rightarrow> tiling_error + dim_range" where
  "rangeAsROI r other = guardE (rangeContains r other) WrongRange (dimRange (rangeBegin other - rangeBegin r) (rangeEnd other - rangeBegin r))"

record pad_info =
  padLeft :: int
  padRight :: int
  padTop :: int
  padBottom :: int

definition padEnabled :: "pad_info \<Rightarrow> bool" where
  "padEnabled p \<longleftrightarrow> padLeft p \<noteq> 0 \<or> padRight p \<noteq> 0 \<or> padTop p \<noteq> 0 \<or> padBottom p \<noteq> 0"

section \<open>One dimension of a window\<close>

text \<open>The range of the input an output range reads, and the padding on both sides of it.\<close>

definition inputForOutputDim :: "dim_range \<Rightarrow> int \<Rightarrow> int \<Rightarrow> dim_range \<Rightarrow> int \<Rightarrow> int \<Rightarrow> tiling_error + dim_range \<times> int \<times> int" where
  "inputForOutputDim output kern stride initialInputRange padBefore padAfter =
     guardE (rangeLength output > 0) WrongOutputTile (
     guardE (rangeLength initialInputRange > 0) WrongInputRange (
     guardE (kern > 0) WrongKernel (
     guardE (stride > 0) WrongStride (
     guardE (padBefore \<ge> 0) WrongPadding (
     guardE (padAfter \<ge> 0) WrongPadding (
       let begin0 = rangeBegin output * stride - padBefore; lo = rangeBegin initialInputRange; hi = rangeEnd initialInputRange
       in guardE (begin0 < lo \<longrightarrow> lo - begin0 \<le> padBefore) InputDoesNotMatch (
          let before = (if begin0 < lo then min (lo - begin0) padBefore else 0);
              inputBegin = (if begin0 < lo then lo else begin0)
          in guardE (inputBegin < hi) InputDoesNotMatch (
             let end0 = (rangeEnd output - 1) * stride + kern - padBefore
             in guardE (end0 > hi \<longrightarrow> end0 - hi \<le> padAfter) InputDoesNotMatch (
                let after = (if end0 > hi then min (end0 - hi) padAfter else 0);
                    inputEnd = (if end0 > hi then hi else end0)
                in guardE (inputEnd > lo) InputDoesNotMatch (
                   guardE (inputEnd - inputBegin > 0) InputDoesNotMatch (
                     Inr (\<lparr>rangeBegin = inputBegin, rangeEnd = inputEnd\<rparr>, before, after))))))))))))"

section \<open>Planes\<close>

record plane_tile =
  tileWidth :: dim_range
  tileHeight :: dim_range

definition planeArea :: "plane_tile \<Rightarrow> int" where
  "planeArea p = rangeLength (tileWidth p) * rangeLength (tileHeight p)"

text \<open>The indices of \<open>Dims4D::Filter\<close>, \<open>Dims4D::Kernel\<close> and \<open>Dims4D::Strides\<close>.\<close>

definition filterOC :: nat where "filterOC = 0"
definition filterIC :: nat where "filterIC = 1"
definition filterKY :: nat where "filterKY = 2"
definition filterKX :: nat where "filterKX = 3"
definition kernelY :: nat where "kernelY = 0"
definition kernelX :: nat where "kernelX = 1"

lemmas dim_defs = actN_def actC_def actH_def actW_def filterOC_def filterIC_def filterKY_def filterKX_def kernelY_def kernelX_def

definition inputForOutputTile :: "plane_tile \<Rightarrow> int \<Rightarrow> int \<Rightarrow> int \<Rightarrow> int \<Rightarrow> shape \<Rightarrow> pad_info \<Rightarrow> tiling_error + plane_tile \<times> pad_info" where
  "inputForOutputTile output kX kY strideX strideY initialInputDims initialPad =
     bindE (dimRange 0 (initialInputDims ! actH)) (\<lambda>rangeH.
     bindE (inputForOutputDim (tileHeight output) kY strideY rangeH (padTop initialPad) (padBottom initialPad)) (\<lambda>(height, top, bottom).
     bindE (dimRange 0 (initialInputDims ! actW)) (\<lambda>rangeW.
     bindE (inputForOutputDim (tileWidth output) kX strideX rangeW (padLeft initialPad) (padRight initialPad)) (\<lambda>(width, left, right).
       Inr (\<lparr>tileWidth = width, tileHeight = height\<rparr>, \<lparr>padLeft = left, padRight = right, padTop = top, padBottom = bottom\<rparr>)))))"

definition spatialRange :: "tile_info \<Rightarrow> nat \<Rightarrow> dim_range" where
  "spatialRange t d = \<lparr>rangeBegin = tileOffsets t ! d, rangeEnd = tileOffsets t ! d + tileShape t ! d\<rparr>"

definition spatialPlane :: "tile_info \<Rightarrow> plane_tile" where
  "spatialPlane t = \<lparr>tileWidth = spatialRange t actW, tileHeight = spatialRange t actH\<rparr>"

definition backInferPadsTile :: "tile_info \<Rightarrow> shape \<Rightarrow> pad_info \<Rightarrow> int list \<Rightarrow> int list \<Rightarrow> tiling_error + pad_info" where
  "backInferPadsTile outputTile inShape origPads kern strides =
     (let side = (\<lambda>ind spatialDim padBegin padEnd.
        let outSize = tileShape outputTile ! spatialDim; outOffset = tileOffsets outputTile ! spatialDim
        in bindE (dimRange 0 (inShape ! spatialDim)) (\<lambda>inputRange.
           bindE (dimRange outOffset (outOffset + outSize)) (\<lambda>tileRange.
           bindE (inputForOutputDim tileRange (kern ! ind) (strides ! ind) inputRange padBegin padEnd) (\<lambda>(_, b, e). Inr (b, e)))))
      in bindE (side 0 actH (padTop origPads) (padBottom origPads)) (\<lambda>(begin0, end0).
         bindE (side 1 actW (padLeft origPads) (padRight origPads)) (\<lambda>(begin1, end1).
           Inr \<lparr>padLeft = begin1, padRight = end1, padTop = begin0, padBottom = end0\<rparr>)))"

text \<open>
  The slice of the input may be smaller than the input although the dimension is not tiled; the full
  size is restored then.
\<close>

definition restorePlanarShapeForInputTile :: "tile_info \<Rightarrow> shape \<Rightarrow> nat \<Rightarrow> tiling_error + tile_info" where
  "restorePlanarShapeForInputTile inputTile origInputShape planarDim =
     guardE (planarDim = actH \<or> planarDim = actW) WrongPlanarSize (
     guardE (\<not> tileShape inputTile ! planarDim > origInputShape ! planarDim) WrongPlanarSize (
       Inr (inputTile\<lparr>tileShape := (tileShape inputTile)[planarDim := origInputShape ! planarDim]\<rparr>)))"

definition restoreIfWhole :: "tile_info \<Rightarrow> shape \<Rightarrow> nat \<Rightarrow> tile_info \<Rightarrow> tiling_error + tile_info" where
  "restoreIfWhole outputTile origInputShape d inputTile =
     (if isCompletedTile outputTile \<and> tileAxis outputTile ! d = 1 then restorePlanarShapeForInputTile inputTile origInputShape d else Inr inputTile)"

section \<open>Convolution and pooling\<close>

record input_tiling =
  inputTiles :: "tile_info list"
  inputPads :: "pad_info option"

definition copyDim :: "nat \<Rightarrow> tile_info \<Rightarrow> tile_info \<Rightarrow> tile_info" where
  "copyDim d src t = setRange d (tileShape src ! d) (tileOffsets src ! d) t"

definition setDimRange :: "nat \<Rightarrow> dim_range \<Rightarrow> tile_info \<Rightarrow> tile_info" where
  "setDimRange d r t = setRange d (rangeLength r) (rangeBegin r) t"

text \<open>A convolution without bias passes an empty bias shape.\<close>

definition backInferConvTile :: "tile_info \<Rightarrow> shape \<Rightarrow> shape \<Rightarrow> shape \<Rightarrow> int list \<Rightarrow> pad_info \<Rightarrow> tiling_error + input_tiling" where
  "backInferConvTile outputTile origInputShape origFilterShape origBiasShape strides origPadding =
     bindE (inputForOutputTile (spatialPlane outputTile) (origFilterShape ! filterKX) (origFilterShape ! filterKY)
              (strides ! kernelX) (strides ! kernelY) origInputShape origPadding) (\<lambda>(plane, pads).
     let inputTile0 = setDimRange actW (tileWidth plane) (setDimRange actH (tileHeight plane)
           ((copyDim actN outputTile (wholeTile origInputShape))\<lparr>tileAxis := tileAxis outputTile\<rparr>))
     in bindE (restoreIfWhole outputTile origInputShape actH inputTile0) (\<lambda>inputTile1.
        bindE (restoreIfWhole outputTile origInputShape actW inputTile1) (\<lambda>inputTile.
        let filterTile = setRange filterOC (tileShape outputTile ! actC) (tileOffsets outputTile ! actC) (wholeTile origFilterShape);
            biasTile = copyDim actC outputTile (wholeTile origBiasShape)
        in Inr \<lparr>inputTiles = (if origBiasShape \<noteq> [] then [inputTile, filterTile, biasTile] else [inputTile, filterTile]),
                inputPads = Some pads\<rparr>)))"

definition backInferGroupConvTile :: "tile_info \<Rightarrow> shape \<Rightarrow> shape \<Rightarrow> shape \<Rightarrow> int list \<Rightarrow> pad_info \<Rightarrow> int \<Rightarrow> tiling_error + input_tiling" where
  "backInferGroupConvTile outputTile origInputShape origFilterShape origBiasShape strides origPadding groups =
     bindE (backInferConvTile outputTile origInputShape origFilterShape origBiasShape strides origPadding) (\<lambda>res.
     guardE (groups \<noteq> 0) DivisionByZero (
       let numOutChannelsPerGroup = (origFilterShape ! filterOC) sdiv groups
       in guardE (numOutChannelsPerGroup \<noteq> 0) DivisionByZero (
          let startGroupForTile = (tileOffsets outputTile ! actC) sdiv numOutChannelsPerGroup;
              numGroupsForTile = divUp (tileShape outputTile ! actC) numOutChannelsPerGroup
          in Inr (res\<lparr>inputTiles := (inputTiles res)[0 := setRange actC (numGroupsForTile * origFilterShape ! filterIC)
                        (startGroupForTile * origFilterShape ! filterIC) (inputTiles res ! 0)]\<rparr>))))"

definition backInferPoolTile :: "tile_info \<Rightarrow> shape \<Rightarrow> int list \<Rightarrow> int list \<Rightarrow> pad_info \<Rightarrow> tiling_error + input_tiling" where
  "backInferPoolTile outputTile origInputShape kernelSize strides origPadding =
     bindE (inputForOutputTile (spatialPlane outputTile) (kernelSize ! kernelX) (kernelSize ! kernelY)
              (strides ! kernelX) (strides ! kernelY) origInputShape origPadding) (\<lambda>(plane, pads).
     let inputTile0 = setDimRange actW (tileWidth plane) (setDimRange actH (tileHeight plane)
           (copyDim actC outputTile (copyDim actN outputTile (wholeTile origInputShape))))
     in bindE (restoreIfWhole outputTile origInputShape actH inputTile0) (\<lambda>inputTile1.
        bindE (restoreIfWhole outputTile origInputShape actW inputTile1) (\<lambda>inputTile.
          Inr \<lparr>inputTiles = [inputTile], inputPads = Some pads\<rparr>)))"

text \<open>The size of the output for a window of the input, over both dimensions.\<close>

definition spatialOutputForInputWindowSize :: "int \<times> int \<Rightarrow> int list \<Rightarrow> int list \<Rightarrow> pad_info \<Rightarrow> tiling_error + (int \<times> int) option" where
  "spatialOutputForInputWindowSize inputHW kern strides pads =
     guardE (length kern = 2) WrongKernel (
     guardE (length strides = 2) WrongStride (
     guardE (\<not> (padTop pads < 0 \<or> padBottom pads < 0 \<or> padLeft pads < 0 \<or> padRight pads < 0)) WrongPads (
     guardE (strides ! kernelY \<noteq> 0 \<and> strides ! kernelX \<noteq> 0) DivisionByZero (
       let outputHeight = (fst inputHW - kern ! kernelY + padTop pads + padBottom pads) sdiv (strides ! kernelY) + 1;
           outputWidth = (snd inputHW - kern ! kernelX + padLeft pads + padRight pads) sdiv (strides ! kernelX) + 1
       in Inr (if outputHeight \<le> 0 \<or> outputWidth \<le> 0 then None else Some (outputHeight, outputWidth))))))"

section \<open>Other operations\<close>

text \<open>\<open>insert(begin + i, v)\<close> needs a position of the vector or its end.\<close>

definition insertAtPos :: "nat \<Rightarrow> int \<Rightarrow> shape \<Rightarrow> shape" where
  "insertAtPos i v xs = take i xs @ v # drop i xs"

definition backInferReduceTile :: "tile_info \<Rightarrow> shape \<Rightarrow> nat list \<Rightarrow> bool \<Rightarrow> tiling_error + input_tiling" where
  "backInferReduceTile outputTile inShape axes keepDims =
     (if \<not> keepDims then
        bindE (foldE (\<lambda>axesInd (newInput, newAxis, newOffset).
            guardE (axesInd \<le> length newInput \<and> axesInd < length inShape) WrongRank
              (Inr (insertAtPos axesInd (inShape ! axesInd) newInput, insertAtPos axesInd 1 newAxis, insertAtPos axesInd 0 newOffset)))
          axes (tileShape outputTile, tileAxis outputTile, tileOffsets outputTile))
          (\<lambda>(newInput, newAxis, newOffset).
            Inr \<lparr>inputTiles = [\<lparr>tileShape = newInput, tileOffsets = newOffset, tileAxis = newAxis, isCompletedTile = False\<rparr>], inputPads = None\<rparr>)
      else
        bindE (foldE (\<lambda>axesInd t. guardE (axesInd < length (tileShape t) \<and> axesInd < length inShape) WrongRank
            (Inr (t\<lparr>tileShape := (tileShape t)[axesInd := inShape ! axesInd]\<rparr>))) axes outputTile)
          (\<lambda>inTile. Inr \<lparr>inputTiles = [inTile], inputPads = None\<rparr>))"

text \<open>Dimension \<open>i\<close> of a tile takes the range of dimension \<open>j\<close> of the output tile.\<close>

definition takeDim :: "tile_info \<Rightarrow> nat \<Rightarrow> int \<Rightarrow> tile_info \<Rightarrow> tiling_error + tile_info" where
  "takeDim outputTile i j t =
     guardE (0 \<le> j \<and> j < int (length (tileShape outputTile))) WrongRank
       (Inr (setRange i (tileShape outputTile ! nat j) (tileOffsets outputTile ! nat j) t))"

definition withAxisTensor :: "bool \<Rightarrow> tile_info list \<Rightarrow> input_tiling" where
  "withAxisTensor hasAxisTensor tiles = \<lparr>inputTiles = (if hasAxisTensor then tiles @ [wholeTile [1]] else tiles), inputPads = None\<rparr>"

definition backInferGatherTile :: "tile_info \<Rightarrow> shape \<Rightarrow> shape \<Rightarrow> int \<Rightarrow> int \<Rightarrow> bool \<Rightarrow> tiling_error + input_tiling" where
  "backInferGatherTile outputTile origInputShape origIndicesShape axisValue batchDims hasAxisTensor =
     (let inputRank = length origInputShape; indicesRank = length origIndicesShape
      in bindE (foldE (\<lambda>i t.
            if int i < axisValue then takeDim outputTile i (int i) t
            else if int i = axisValue then Inr t
            else takeDim outputTile i (int i + int indicesRank - batchDims - 1) t)
          [0..<inputRank] (wholeTile origInputShape)) (\<lambda>inputTile.
         bindE (foldE (\<lambda>i t.
            if int i < batchDims then takeDim outputTile i (int i) t
            else takeDim outputTile i (int i + axisValue - batchDims) t)
          [0..<indicesRank] (wholeTile origIndicesShape)) (\<lambda>indicesTile.
           Inr (withAxisTensor hasAxisTensor [inputTile, indicesTile]))))"

definition backInferGatherDMATile :: "tile_info \<Rightarrow> shape \<Rightarrow> shape \<Rightarrow> int \<Rightarrow> bool \<Rightarrow> tiling_error + input_tiling" where
  "backInferGatherDMATile outputTile origInputShape origIndicesShape axisValue hasAxisTensor =
     bindE (foldE (\<lambda>i t. if int i \<noteq> axisValue then takeDim outputTile i (int i) t else Inr t)
       [0..<length origInputShape] (wholeTile origInputShape)) (\<lambda>inputTile.
     guardE (0 \<le> axisValue \<and> axisValue < int (length origIndicesShape)) WrongRank (
     bindE (takeDim outputTile (nat axisValue) axisValue (wholeTile origIndicesShape)) (\<lambda>indicesTile.
       Inr (withAxisTensor hasAxisTensor [inputTile, indicesTile]))))"

definition padTileDim :: "tile_info \<Rightarrow> shape \<Rightarrow> shape \<Rightarrow> shape \<Rightarrow> shape \<Rightarrow> nat \<Rightarrow> tile_info \<Rightarrow> tiling_error + tile_info" where
  "padTileDim outputTile inShape outShape padBegins padEnds idx curTile =
     (let sh = tileShape outputTile ! idx; off = tileOffsets outputTile ! idx;
          newSize = (if tileAxis curTile ! idx = 1 then inShape ! idx
                     else sh - (if off = 0 then padBegins ! idx else 0) - (if off + sh = outShape ! idx then padEnds ! idx else 0));
          newOffset = (if off \<noteq> 0 then off - padBegins ! idx else off)
      in guardE (newSize > 0) WrongTileShape (
         guardE (newOffset < inShape ! idx) WrongTileOffset (
           Inr (setTile idx newSize newOffset (tileAxis outputTile ! idx) curTile))))"

definition backInferPadTile :: "tile_info \<Rightarrow> shape \<Rightarrow> shape \<Rightarrow> shape \<Rightarrow> shape \<Rightarrow> tiling_error + input_tiling" where
  "backInferPadTile outputTile inShape outShape padBegins padEnds =
     bindE (foldE (padTileDim outputTile inShape outShape padBegins padEnds) [0..<length inShape] outputTile) (\<lambda>curTile.
       Inr \<lparr>inputTiles = [curTile], inputPads = None\<rparr>)"

text \<open>The pads of the tiled operation, begin and end.\<close>

definition updatePadOpAttrsAfterTiling :: "shape \<Rightarrow> tile_info \<Rightarrow> shape \<Rightarrow> shape \<Rightarrow> shape \<times> shape" where
  "updatePadOpAttrsAfterTiling outShape outTile padsBegin padsEnd =
     fold (\<lambda>ind (pb, pe).
       if tileAxis outTile ! ind = 1 then (pb, pe)
       else (pb[ind := if tileOffsets outTile ! ind < pb ! ind then pb ! ind - tileOffsets outTile ! ind else 0],
             if tileOffsets outTile ! ind + tileShape outTile ! ind \<noteq> outShape ! ind then pe[ind := 0] else pe))
     [0..<length outShape] (padsBegin, padsEnd)"

definition backInferDepthToSpaceTile :: "tile_info \<Rightarrow> shape \<Rightarrow> int \<Rightarrow> tiling_error + input_tiling" where
  "backInferDepthToSpaceTile outputTile origInputShape blockSize =
     guardE (blockSize \<noteq> 0) ZeroBlockSize (
     guardE (length origInputShape = 4) WrongRank (
       Inr \<lparr>inputTiles =
          [setRange actH (tileShape outputTile ! actH sdiv blockSize) (tileOffsets outputTile ! actH sdiv blockSize)
            (setRange actW (tileShape outputTile ! actW sdiv blockSize) (tileOffsets outputTile ! actW sdiv blockSize)
             (setRange actC (tileShape outputTile ! actC * (blockSize * blockSize)) (tileOffsets outputTile ! actC * (blockSize * blockSize))
              (copyDim actN outputTile (wholeTile origInputShape))))],
        inputPads = None\<rparr>))"

text \<open>Operands of size 1 in a dimension are broadcast over it.\<close>

definition broadcastDim :: "shape \<Rightarrow> nat \<Rightarrow> tile_info \<Rightarrow> tile_info" where
  "broadcastDim curShape d t = (if curShape ! d = 1 then setRange d 1 0 t else t)"

definition backInferEltwiseTile :: "shape list \<Rightarrow> tile_info \<Rightarrow> tiling_error + input_tiling" where
  "backInferEltwiseTile operandShapes outputTile =
     guardE (list_all (\<lambda>s. length s = length (tileShape outputTile)) operandShapes) WrongRank
       (Inr \<lparr>inputTiles = map (\<lambda>s. fold (broadcastDim s) [0..<length s] outputTile) operandShapes, inputPads = None\<rparr>)"

section \<open>Strides of a tile\<close>

text \<open>
  The strides (in bits) of every adapted shape: where the adapted shape has another size than the
  original one, the stride follows the adapted size, else the ratio of the original strides.
\<close>

definition adaptStride :: "int list \<Rightarrow> int list \<Rightarrow> int list \<Rightarrow> nat \<Rightarrow> int list \<Rightarrow> tiling_error + int list" where
  "adaptStride memShape memStrides adaptedMemShape i adapted =
     (let currStride = memStrides ! i; prevStride = memStrides ! (i + 1); prevAdaptedStride = adapted ! (i + 1)
      in guardE (prevStride \<noteq> 0) DivisionByZero (
         let strideRatio = currStride sdiv prevStride
         in if memShape ! (i + 1) \<noteq> adaptedMemShape ! (i + 1)
            then guardE (strideRatio = memShape ! (i + 1)) StrideMismatch (Inr (adapted[i := adaptedMemShape ! (i + 1) * prevAdaptedStride]))
            else Inr (adapted[i := (prevAdaptedStride * currStride) sdiv prevStride])))"

definition ofOrder :: "order_error + 'a \<Rightarrow> tiling_error + 'a" where
  "ofOrder r = (case r of Inl e \<Rightarrow> Inl (OrderFailed e) | Inr v \<Rightarrow> Inr v)"

definition adaptShapeStrides :: "int list \<Rightarrow> int list \<Rightarrow> dims_order \<Rightarrow> shape \<Rightarrow> tiling_error + int list" where
  "adaptShapeStrides memShape memStrides order adaptedShape =
     bindE (ofOrder (toMemoryOrder adaptedShape order)) (\<lambda>adaptedMemShape.
     bindE (foldE (adaptStride memShape memStrides adaptedMemShape) (rev [0..<length memStrides - 1]) memStrides) (\<lambda>adapted.
       ofOrder (toLogicalOrder adapted order)))"

definition adaptStrides :: "shape \<Rightarrow> int list \<Rightarrow> shape list \<Rightarrow> dims_order \<Rightarrow> tiling_error + int list list" where
  "adaptStrides origShape origStrides adaptedShapes order =
     bindE (ofOrder (toMemoryOrder origShape order)) (\<lambda>memShape.
     bindE (ofOrder (toMemoryOrder origStrides order)) (\<lambda>memStrides.
       foldE (\<lambda>adaptedShape out. bindE (adaptShapeStrides memShape memStrides order adaptedShape) (\<lambda>s. Inr (out @ [s]))) adaptedShapes []))"

end
