(* ===== verification/Tiling_Strategy.thy ===== *)
theory Tiling_Strategy
  imports Tile_Inference
begin

text \<open>
  The choice of the number of tiles (src/core/tiling.cpp): limits and orders of the dimensions, and
  the searches for software and hardware layers.
\<close>

section \<open>Dimensions and limits\<close>

definition isDimLeftToTile :: "shape \<Rightarrow> shape \<Rightarrow> nat \<Rightarrow> bool" where
  "isDimLeftToTile curNumTiles maxNumTiles d \<longleftrightarrow> curNumTiles ! d < maxNumTiles ! d"

definition isSupportedAlignedDivision :: "int \<Rightarrow> int \<Rightarrow> int \<Rightarrow> tiling_error + bool" where
  "isSupportedAlignedDivision dimSize tiles alignment =
     guardE (tiles \<noteq> 0) DivisionByZero
       (bindE (alignUp ZeroAlign (divUp dimSize tiles) alignment) (\<lambda>alignedBase.
         Inr (dimSize - alignedBase * (tiles - 1) > 0)))"

definition getMaxNonOneDim :: "shape \<Rightarrow> nat option" where
  "getMaxNonOneDim inputShape =
     (let (maxDim, maxShape) = fold (\<lambda>i (d, m). if inputShape ! i \<noteq> 1 \<and> inputShape ! i > m then (i, inputShape ! i) else (d, m))
            [0..<length inputShape] (0, 0)
      in if maxShape \<le> 1 then None else Some maxDim)"

text \<open>
  The dimensions by descending size in memory; the positions of a size are used up one by one.
\<close>

fun findFirst :: "int \<Rightarrow> int list \<Rightarrow> nat" where
  "findFirst v [] = 0"
| "findFirst v (x # xs) = (if x = v then 0 else Suc (findFirst v xs))"

fun takeDims :: "int list \<Rightarrow> int list \<Rightarrow> nat list \<Rightarrow> nat list" where
  "takeDims [] memShape perm = []"
| "takeDims (it # rest) memShape perm =
     (if it > 1 then perm ! findFirst it memShape # takeDims rest (memShape[findFirst it memShape := 0]) perm
      else takeDims rest memShape perm)"

definition getTileDimOrderND :: "int list \<Rightarrow> dims_order \<Rightarrow> nat list" where
  "getTileDimOrderND memShape order = takeDims (rev (sort memShape)) memShape (toPermutation order)"

definition getMaxNumTilesWithAxesExclusion :: "shape \<Rightarrow> int list \<Rightarrow> dims_order \<Rightarrow> nat list \<Rightarrow> shape" where
  "getMaxNumTilesWithAxesExclusion outputShape memShape order axes =
     fold (\<lambda>d m. if d \<in> set axes then m[d := 1] else m) (getTileDimOrderND memShape order) outputShape"

text \<open>What \<open>getMaxNumTiles\<close> asks the operation.\<close>

datatype multi_cluster = SplitOverHeight | SplitOverKernel | OtherStrategy

record max_facts =
  isMemPermute :: bool
  ncePermuteWidth :: "int option"
  outputChannelAlignment :: "int option"
  minSupportedChannel :: "int option"
  clusterStrategy :: "multi_cluster option"
  tileCount :: nat

definition minChannelSize :: "max_facts \<Rightarrow> int" where
  "minChannelSize f =
     (let c = (case outputChannelAlignment f of None \<Rightarrow> 1 | Some a \<Rightarrow> a)
      in case minSupportedChannel f of None \<Rightarrow> c | Some s \<Rightarrow> if c < s then s else c)"

text \<open>The loop tests the remainder before it tests whether any cluster is left.\<close>

fun clustersForSOK :: "int \<Rightarrow> int \<Rightarrow> nat \<Rightarrow> tiling_error + nat" where
  "clustersForSOK channels minChannel 0 = Inl DivisionByZero"
| "clustersForSOK channels minChannel (Suc n) =
     guardE (minChannel \<noteq> 0) DivisionByZero
       (if channels smod (minChannel * int (Suc n)) \<noteq> 0 then clustersForSOK channels minChannel n else Inr (Suc n))"

definition getMaxNumTiles :: "max_facts \<Rightarrow> shape \<Rightarrow> tiling_error + shape" where
  "getMaxNumTiles f outputShape =
     guardE (isMemPermute f \<or> length outputShape = 4) WrongRank
     (let minC = (if ncePermuteWidth f \<noteq> None then 1 else minChannelSize f);
          channelDim = (if length outputShape = 5 then 2 else actC)
      in bindE (case ncePermuteWidth f of
           Some minWidth \<Rightarrow> guardE (length outputShape = 4) WrongRank (guardE (minWidth \<noteq> 0) DivisionByZero
             (Inr (outputShape[actW := (outputShape ! actW) sdiv minWidth])))
         | None \<Rightarrow> guardE (outputChannelAlignment f = None \<or> length outputShape = 4 \<or> length outputShape = 5) WrongRank
             (guardE (minC \<noteq> 0) DivisionByZero (guardE (channelDim < length outputShape) WrongRank
               (Inr (outputShape[channelDim := (outputShape ! channelDim) sdiv minC]))))) (\<lambda>maxNumTiles.
         case clusterStrategy f of
           None \<Rightarrow> Inr maxNumTiles
         | Some strategy \<Rightarrow> guardE (length outputShape = 4 \<or> length outputShape = 5) WrongRank (
             case strategy of
               SplitOverHeight \<Rightarrow> guardE (tileCount f \<noteq> 0) DivisionByZero
                 (Inr (maxNumTiles[actH := (outputShape ! actH) sdiv int (tileCount f)]))
             | SplitOverKernel \<Rightarrow> bindE (clustersForSOK (outputShape ! actC) minC (tileCount f)) (\<lambda>n.
                 Inr (maxNumTiles[actC := (outputShape ! actC) sdiv (minC * int n)]))
             | OtherStrategy \<Rightarrow> Inr maxNumTiles)))"

text \<open>The dimension with an alignment and the alignment.\<close>

definition opFacts :: "tiling_op \<Rightarrow> op_facts option" where
  "opFacts op = (case op of YuvToRgb \<Rightarrow> None | VerticalFusion f _ \<Rightarrow> Some f | PlainOp f \<Rightarrow> Some f)"

definition getAlignDimAndSize :: "tiling_op \<Rightarrow> nat \<times> int" where
  "getAlignDimAndSize op =
     (case opFacts op of
        None \<Rightarrow> (actC, 1)
      | Some f \<Rightarrow> (case permuteAlignment f of
          Some w \<Rightarrow> (actW, w)
        | None \<Rightarrow> (actC, case channelAlignment f of Some c \<Rightarrow> c | None \<Rightarrow> 1)))"

section \<open>Steps to the next number of tiles\<close>

lemma bindE_cong [fundef_cong]: "r = r' \<Longrightarrow> (\<And>x. r' = Inr x \<Longrightarrow> f x = g x) \<Longrightarrow> bindE r f = bindE r' g"
  by (cases r') auto

text \<open>
  One dimension: raise the number until the aligned division is supported or \<open>limit\<close> is reached.
\<close>

function raiseAligned :: "int \<Rightarrow> int \<Rightarrow> int \<Rightarrow> int \<Rightarrow> tiling_error + int" where
  "raiseAligned dimSize alignment limit n =
     bindE (isSupportedAlignedDivision dimSize (n + 1) alignment) (\<lambda>ok.
       if \<not> ok \<and> n + 1 < limit then raiseAligned dimSize alignment limit (n + 1) else Inr (n + 1))"
  by pat_completeness auto
termination by (relation "measure (\<lambda>(_, _, limit, n). nat (limit - n))") auto

function lowerAligned :: "int \<Rightarrow> int \<Rightarrow> int \<Rightarrow> tiling_error + int" where
  "lowerAligned dimSize alignment n =
     (if n > 1 then bindE (isSupportedAlignedDivision dimSize n alignment) (\<lambda>ok.
        if \<not> ok then lowerAligned dimSize alignment (n - 1) else Inr n)
      else Inr n)"
  by pat_completeness auto
termination by (relation "measure (\<lambda>(_, _, n). nat n)") auto

text \<open>As \<open>raiseAligned\<close>, but reaching the limit is a failure, also when the division would be supported.\<close>

function nextAligned :: "int \<Rightarrow> int \<Rightarrow> int \<Rightarrow> int \<Rightarrow> tiling_error + int" where
  "nextAligned dimSize alignment limit n =
     (if \<not> n + 1 < limit then Inl MlirFailure
      else bindE (isSupportedAlignedDivision dimSize (n + 1) alignment) (\<lambda>ok.
        if \<not> ok then nextAligned dimSize alignment limit (n + 1) else Inr (n + 1)))"
  by pat_completeness auto
termination by (relation "measure (\<lambda>(_, _, limit, n). nat (limit - n))") auto

declare raiseAligned.simps [simp del] lowerAligned.simps [simp del] nextAligned.simps [simp del]

definition getNextTiling :: "nat \<Rightarrow> nat \<Rightarrow> int \<Rightarrow> shape \<Rightarrow> shape \<Rightarrow> shape \<Rightarrow> tiling_error + shape" where
  "getNextTiling targetDim dimToAlign dimAlignment nTilesOnDim maxNumTiles outputShape =
     (if \<not> isDimLeftToTile nTilesOnDim maxNumTiles targetDim then Inl MlirFailure
      else if targetDim = dimToAlign \<and> dimAlignment \<noteq> 1
      then bindE (nextAligned (outputShape ! targetDim) dimAlignment (maxNumTiles ! targetDim) (nTilesOnDim ! targetDim)) (\<lambda>n.
             Inr (nTilesOnDim[targetDim := n]))
      else Inr (nTilesOnDim[targetDim := nTilesOnDim ! targetDim + 1]))"

section \<open>What the strategies ask\<close>

datatype tiling_mode = ISOLATED | PIPELINING | PREFETCHING

text \<open>
  The interfaces of the operation: \<open>isSupportedTiling\<close>, the limits of \<open>TilingBuilderOpInterface\<close>,
  the compatibility of a tile with a multi-cluster strategy (if it has one) with the choice of the
  tiles that are checked, whether it becomes a DMA, and how an output tile is distributed over
  clusters (the split dimension and the number of clusters).
\<close>

record tiling_iface =
  isSupportedTiling :: "tile_info list \<Rightarrow> tiling_mode \<Rightarrow> bool"
  builderMaxNumTiles :: shape
  strategyCompatible :: "(tile_info \<Rightarrow> bool) option"
  uniqueCandidates :: "tile_info list \<Rightarrow> tile_info list"
  legalConvertToDMA :: bool
  shaveActCount :: int
  clusterSplit :: "shape \<Rightarrow> (nat \<times> int) option"

definition isMultiClusterCompatibleForTiling :: "tiling_iface \<Rightarrow> tile_info list \<Rightarrow> bool" where
  "isMultiClusterCompatibleForTiling I tiles =
     (case strategyCompatible I of None \<Rightarrow> True | Some ok \<Rightarrow> list_all ok (uniqueCandidates I tiles))"

definition canTileBeEvenlyDivided :: "tiling_iface \<Rightarrow> nat \<Rightarrow> shape \<Rightarrow> tiling_error + bool" where
  "canTileBeEvenlyDivided I targetDim outputTileShape =
     (let factor = (case clusterSplit I outputTileShape of
            Some (dimIdx, numClusters) \<Rightarrow> if dimIdx = targetDim then shaveActCount I * numClusters else shaveActCount I
          | None \<Rightarrow> shaveActCount I)
      in case fillDividedTiles ((replicate (length outputTileShape) 1)[targetDim := factor]) outputTileShape None False of
           Inl MlirFailure \<Rightarrow> Inr False
         | Inl e \<Rightarrow> Inl e
         | Inr tiles \<Rightarrow> Inr (list_all (\<lambda>t. \<not> tileShape t ! targetDim \<le> (tileShape (hd tiles) ! targetDim) sdiv 2) tiles))"

text \<open>The tiles are first reduced to one per shape, which the test only depends on.\<close>

fun canSWLayerBeEvenlyUnrolled :: "tiling_iface \<Rightarrow> tile_info list \<Rightarrow> nat \<Rightarrow> tiling_error + bool" where
  "canSWLayerBeEvenlyUnrolled I [] targetDim = Inr True"
| "canSWLayerBeEvenlyUnrolled I (t # tiles) targetDim =
     bindE (canTileBeEvenlyDivided I targetDim (tileShape t)) (\<lambda>ok.
       if ok then canSWLayerBeEvenlyUnrolled I tiles targetDim else Inr False)"

definition ifDivided :: "tiling_op \<Rightarrow> shape \<Rightarrow> shape \<Rightarrow> (tile_info list \<Rightarrow> bool) \<Rightarrow> tiling_error + bool" where
  "ifDivided op nTilesOnDim outputShape P =
     (case fillDividedTilesOfOp op nTilesOnDim outputShape of
        Inl MlirFailure \<Rightarrow> Inr False
      | Inl e \<Rightarrow> Inl e
      | Inr tiles \<Rightarrow> Inr (P tiles))"

definition isSupportedTileSizeForHWLayer :: "tiling_op \<Rightarrow> tiling_iface \<Rightarrow> shape \<Rightarrow> shape \<Rightarrow> tiling_mode \<Rightarrow> tiling_error + bool" where
  "isSupportedTileSizeForHWLayer op I outputShape nTilesOnDim mode =
     ifDivided op nTilesOnDim outputShape (\<lambda>tiles. isMultiClusterCompatibleForTiling I tiles \<and> isSupportedTiling I tiles mode)"

definition isSupportedTileSize :: "tiling_op \<Rightarrow> tiling_iface \<Rightarrow> shape \<Rightarrow> shape \<Rightarrow> tiling_mode \<Rightarrow> tiling_error + tile_info list" where
  "isSupportedTileSize op I outputShape nTilesOnDim mode =
     bindE (fillDividedTilesOfOp op nTilesOnDim outputShape) (\<lambda>tiles.
       if isMultiClusterCompatibleForTiling I tiles \<and> isSupportedTiling I tiles mode then Inr tiles else Inl MlirFailure)"

section \<open>Software layers\<close>

text \<open>
  The first loop: \<open>dims\<close> are the dimensions from the current one on. Dimensions at their limit are
  skipped; when none is left the compilation fails.
\<close>

lemma sum_list_dropWhile: "(\<Sum>x\<leftarrow>dropWhile P xs. f x) \<le> (\<Sum>x\<leftarrow>xs. f x)" for f :: "'a \<Rightarrow> nat"
  by (induction xs) auto

function searchIsolated :: "(shape \<Rightarrow> tiling_error + bool) \<Rightarrow> shape \<Rightarrow> nat list \<Rightarrow> shape \<Rightarrow> tiling_error + shape" where
  "searchIsolated supported maxNumTiles dims nTilesOnDim =
     bindE (supported nTilesOnDim) (\<lambda>ok.
       if ok then Inr nTilesOnDim
       else (case dropWhile (\<lambda>d. \<not> isDimLeftToTile nTilesOnDim maxNumTiles d) dims of
               [] \<Rightarrow> Inl FailedToTile
             | d # rest \<Rightarrow>
                 if d < length nTilesOnDim
                 then searchIsolated supported maxNumTiles (d # rest) (nTilesOnDim[d := nTilesOnDim ! d + 1])
                 else Inl WrongRank))"
  by pat_completeness auto
termination
proof (relation "measure (\<lambda>(_, m, dims, n). \<Sum>d\<leftarrow>dims. nat (m ! d - n ! d))")
  fix supported :: "shape \<Rightarrow> tiling_error + bool" and m n :: shape and dims rest :: "nat list" and d :: nat and ok :: bool
  assume dw: "dropWhile (\<lambda>d. \<not> isDimLeftToTile n m d) dims = d # rest" and d: "d < length n"
  have less: "n ! d < m ! d" using dw by (simp add: dropWhile_eq_Cons_conv isDimLeftToTile_def)
  have "(\<Sum>x\<leftarrow>rest. nat (m ! x - n[d := n ! d + 1] ! x)) \<le> (\<Sum>x\<leftarrow>rest. nat (m ! x - n ! x))"
    by (rule sum_list_mono) (use d in \<open>auto simp: nth_list_update\<close>)
  then have "(\<Sum>x\<leftarrow>d # rest. nat (m ! x - n[d := n ! d + 1] ! x)) < (\<Sum>x\<leftarrow>d # rest. nat (m ! x - n ! x))"
    using less d by simp
  also have "\<dots> \<le> (\<Sum>x\<leftarrow>dims. nat (m ! x - n ! x))"
    using sum_list_dropWhile[of "\<lambda>x. nat (m ! x - n ! x)" "\<lambda>d. \<not> isDimLeftToTile n m d" dims] dw by simp
  finally show "((supported, m, d # rest, n[d := n ! d + 1]), supported, m, dims, n) \<in> measure (\<lambda>(_, m, dims, n). \<Sum>d\<leftarrow>dims. nat (m ! d - n ! d))"
    by simp
qed simp

declare searchIsolated.simps [simp del]

text \<open>The second loop raises the number of tiles for tiles that the shaves share evenly.\<close>

definition maxExcessiveTilingTime :: int where
  "maxExcessiveTilingTime = 3"

definition maxPrefetchTilingTime :: int where
  "maxPrefetchTilingTime = 3"

function searchEven :: "tiling_op \<Rightarrow> tiling_iface \<Rightarrow> shape \<Rightarrow> shape \<Rightarrow> shape \<Rightarrow> nat \<Rightarrow> tile_info list \<Rightarrow> int \<Rightarrow> tiling_error + tile_info list" where
  "searchEven op I outputShape maxNumTiles nTilesOnDim targetDim isolatedTiles n =
     (if n < maxNumTiles ! targetDim \<and> n \<le> maxExcessiveTilingTime * nTilesOnDim ! targetDim
      then (case fillDividedTilesOfOp op (nTilesOnDim[targetDim := n + 1]) outputShape of
              Inl MlirFailure \<Rightarrow> searchEven op I outputShape maxNumTiles nTilesOnDim targetDim isolatedTiles (n + 1)
            | Inl e \<Rightarrow> Inl e
            | Inr evenUnrollingTiles \<Rightarrow>
                bindE (canSWLayerBeEvenlyUnrolled I evenUnrollingTiles targetDim) (\<lambda>ok.
                  if ok then Inr evenUnrollingTiles
                  else searchEven op I outputShape maxNumTiles nTilesOnDim targetDim isolatedTiles (n + 1)))
      else Inr isolatedTiles)"
  by pat_completeness auto
termination by (relation "measure (\<lambda>(_, _, _, m, _, d, _, n). nat (m ! d - n))") auto

declare searchEven.simps [simp del]

definition getSWLayerTilingStrategyWithTileDimOrder :: "tiling_op \<Rightarrow> tiling_iface \<Rightarrow> shape \<Rightarrow> tiling_mode \<Rightarrow> nat list \<Rightarrow> shape \<Rightarrow>
    tiling_error + tile_info list" where
  "getSWLayerTilingStrategyWithTileDimOrder op I outputShape mode tileDimOrder maxTilesPerDim =
     guardE (mode = ISOLATED) NotIsolated (
     guardE (tileDimOrder \<noteq> []) EmptyList (
       let maxNumTiles = (if maxTilesPerDim = [] then builderMaxNumTiles I else maxTilesPerDim)
       in bindE (searchIsolated (\<lambda>n. ifDivided op n outputShape (\<lambda>tiles. isSupportedTiling I tiles mode)) maxNumTiles tileDimOrder
                   (replicate (length outputShape) 1)) (\<lambda>nTilesOnDim.
          bindE (fillDividedTilesOfOp op nTilesOnDim outputShape) (\<lambda>isolatedTiles.
            let tilingDims = getNonOneDim nTilesOnDim
            in if legalConvertToDMA I \<or> length tilingDims \<noteq> 1 then Inr isolatedTiles
               else bindE (canSWLayerBeEvenlyUnrolled I isolatedTiles (hd tilingDims)) (\<lambda>even.
                 if even then Inr isolatedTiles
                 else searchEven op I outputShape maxNumTiles nTilesOnDim (hd tilingDims) isolatedTiles (nTilesOnDim ! hd tilingDims))))))"

section \<open>Hardware layers\<close>

text \<open>What the lambdas of the function capture.\<close>

record hw_search =
  hwOp :: tiling_op
  hwIface :: tiling_iface
  hwShape :: shape
  hwAlignDim :: nat
  hwAlignment :: int
  hwMax :: shape
  hwMode :: tiling_mode
  hwMultithreaded :: bool

definition dimPlus :: "hw_search \<Rightarrow> shape \<Rightarrow> nat \<Rightarrow> tiling_error + shape" where
  "dimPlus S n d =
     (if d = hwAlignDim S \<and> hwAlignment S \<noteq> 1
      then bindE (raiseAligned (hwShape S ! d) (hwAlignment S) (hwMax S ! d) (n ! d)) (\<lambda>k. Inr (n[d := k]))
      else Inr (n[d := n ! d + 1]))"

definition dimMinus :: "hw_search \<Rightarrow> shape \<Rightarrow> nat \<Rightarrow> tiling_error + shape" where
  "dimMinus S n d =
     (if d = hwAlignDim S \<and> hwAlignment S \<noteq> 1
      then bindE (lowerAligned (hwShape S ! d) (hwAlignment S) (n ! d - 1)) (\<lambda>k. Inr (n[d := k]))
      else Inr (n[d := n ! d - 1]))"

definition hwSupported :: "hw_search \<Rightarrow> shape \<Rightarrow> tiling_mode \<Rightarrow> tiling_error + bool" where
  "hwSupported S n mode = isSupportedTileSizeForHWLayer (hwOp S) (hwIface S) (hwShape S) n mode"

text \<open>
  Two candidates are checked concurrently; the results are read in order, and the last candidate
  that was read is kept.
\<close>

fun firstSupported :: "hw_search \<Rightarrow> shape list \<Rightarrow> shape \<Rightarrow> tiling_error + shape \<times> bool" where
  "firstSupported S [] n = Inr (n, False)"
| "firstSupported S (c # cs) n = bindE (hwSupported S c (hwMode S)) (\<lambda>ok. if ok then Inr (c, True) else firstSupported S cs c)"

definition checkSupportedTilingMultithreaded :: "hw_search \<Rightarrow> shape \<Rightarrow> nat \<Rightarrow> tiling_error + shape \<times> bool" where
  "checkSupportedTilingMultithreaded S n d =
     bindE (dimPlus S n d) (\<lambda>n1.
     bindE (dimPlus S n1 d) (\<lambda>_.
       firstSupported S (filter (\<lambda>c. c ! d \<le> hwMax S ! d) [n, n1]) n))"

definition checkSupportedTiling :: "hw_search \<Rightarrow> shape \<Rightarrow> nat \<Rightarrow> tiling_error + shape \<times> bool" where
  "checkSupportedTiling S n d =
     (if hwMultithreaded S then checkSupportedTilingMultithreaded S n d
      else bindE (hwSupported S n (hwMode S)) (\<lambda>ok. Inr (n, ok)))"

text \<open>Lower a dimension until the multi-cluster strategy is compatible with the tiles.\<close>

lemma lowerAligned_le: "lowerAligned dimSize alignment n = Inr k \<Longrightarrow> k \<le> n"
proof (induction dimSize alignment n rule: lowerAligned.induct)
  case (1 dimSize alignment n)
  then show ?case by (subst (asm) (2) lowerAligned.simps) (force simp: bindE_Inr split: if_splits)
qed

lemma raiseAligned_gt: "raiseAligned dimSize alignment limit n = Inr k \<Longrightarrow> n < k"
proof (induction dimSize alignment limit n rule: raiseAligned.induct)
  case (1 dimSize alignment limit n)
  then show ?case by (subst (asm) (2) raiseAligned.simps) (force simp: bindE_Inr split: if_splits)
qed

lemma dimMinus_less: "dimMinus S n d = Inr n' \<Longrightarrow> d < length n \<Longrightarrow> n' ! d < n ! d"
  by (auto simp: dimMinus_def bindE_Inr dest!: lowerAligned_le split: if_splits)

lemma dimPlus_greater: "dimPlus S n d = Inr n' \<Longrightarrow> d < length n \<Longrightarrow> n ! d < n' ! d"
  by (auto simp: dimPlus_def bindE_Inr dest!: raiseAligned_gt split: if_splits)

lemma dimMinus_out: "dimMinus S n d = Inr n' \<Longrightarrow> n' = n[d := n' ! d] \<and> length n' = length n"
  by (cases "d < length n") (auto simp: dimMinus_def bindE_Inr list_update_beyond split: if_splits)

lemma dimPlus_out: "dimPlus S n d = Inr n' \<Longrightarrow> n' = n[d := n' ! d] \<and> length n' = length n"
  by (cases "d < length n") (auto simp: dimPlus_def bindE_Inr list_update_beyond split: if_splits)

function lowerToCompatible :: "hw_search \<Rightarrow> nat \<Rightarrow> shape \<Rightarrow> tiling_error + shape" where
  "lowerToCompatible S d n =
     (if d < length n \<and> n ! d > 1
      then bindE (ifDivided (hwOp S) n (hwShape S) (isMultiClusterCompatibleForTiling (hwIface S))) (\<lambda>ok.
        if ok then Inr n else bindE (dimMinus S n d) (lowerToCompatible S d))
      else Inr n)"
  by pat_completeness auto
termination by (relation "measure (\<lambda>(_, d, n). nat (n ! d))") (auto dest!: dimMinus_less)

declare lowerToCompatible.simps [simp del]

text \<open>
  The second dimension of the order gets a number of tiles that suffices with the first one tiled
  as far as possible.
\<close>

lemma firstSupported_in: "firstSupported S cs n = Inr (n', ok) \<Longrightarrow> n' \<in> set (n # cs)"
  by (induction cs arbitrary: n) (auto simp: bindE_Inr split: if_splits)

lemma checkSupportedTiling_grows:
  assumes "checkSupportedTiling S n d = Inr (n', ok)"
  shows "length n' = length n" "d < length n \<Longrightarrow> n ! d \<le> n' ! d" "n' = n[d := n' ! d]"
proof -
  have "n' = n \<or> dimPlus S n d = Inr n'"
    using assms by (auto simp: checkSupportedTiling_def checkSupportedTilingMultithreaded_def bindE_Inr simp del: firstSupported.simps filter.simps
      split: if_splits dest!: firstSupported_in)
  then show "length n' = length n" "d < length n \<Longrightarrow> n ! d \<le> n' ! d" "n' = n[d := n' ! d]"
    using dimPlus_out[of S n d n'] dimPlus_greater[of S n d n'] by (auto intro: less_imp_le)
qed

lemma search_decreases:
  assumes "checkSupportedTiling S n d = Inr (n', ok)" "isDimLeftToTile n' (hwMax S) d" "d < length n'" "dimPlus S n' d = Inr m"
  shows "n ! d < hwMax S ! d" "n ! d < m ! d"
  using checkSupportedTiling_grows(1,2)[OF assms(1)] dimPlus_greater[OF assms(4,3)] assms(2,3) by (simp_all add: isDimLeftToTile_def)

function searchNextDim :: "hw_search \<Rightarrow> nat list \<Rightarrow> shape \<Rightarrow> shape \<Rightarrow> tiling_error + shape" where
  "searchNextDim S [] newTiles n = Inr n"
| "searchNextDim S (d # rest) newTiles n =
     bindE (checkSupportedTiling S newTiles d) (\<lambda>(newTiles', ok).
       if ok then Inr (n[d := newTiles' ! d])
       else if \<not> isDimLeftToTile newTiles' (hwMax S) d then searchNextDim S rest newTiles' (n[d := newTiles' ! d])
       else if d < length newTiles' then bindE (dimPlus S newTiles' d) (\<lambda>m. searchNextDim S (d # rest) m n)
       else Inl WrongRank)"
  by pat_completeness auto
termination
  by (relation "measures [\<lambda>(_, dims, _, _). length dims, \<lambda>(S, dims, t, _). case dims of [] \<Rightarrow> 0 | d # _ \<Rightarrow> nat (hwMax S ! d - t ! d)]")
    (auto intro: search_decreases)

declare searchNextDim.simps(2) [simp del]

definition feasibleNextDim :: "hw_search \<Rightarrow> nat list \<Rightarrow> shape \<Rightarrow> tiling_error + shape" where
  "feasibleNextDim S tileDimOrder n =
     (if length tileDimOrder \<le> 1 then Inr n
      else bindE (lowerToCompatible S (hd tileDimOrder) (n[hd tileDimOrder := hwMax S ! hd tileDimOrder])) (\<lambda>newTiles.
        searchNextDim S (tl tileDimOrder) newTiles n))"

text \<open>Leave the dimensions that are at their limit; \<open>None\<close> when none is left.\<close>

fun nextDimToTile :: "hw_search \<Rightarrow> nat list \<Rightarrow> shape \<Rightarrow> tiling_error + (nat list \<times> shape) option" where
  "nextDimToTile S [] n = Inr None"
| "nextDimToTile S (d # rest) n =
     (if isDimLeftToTile n (hwMax S) d then Inr (Some (d # rest, n))
      else bindE (lowerToCompatible S d n) (\<lambda>n'. if rest = [] then Inr None else nextDimToTile S rest n'))"

lemma nextDimToTile_cases:
  "nextDimToTile S dims n = Inr (Some (ds, m)) \<Longrightarrow> ds \<noteq> [] \<and> isDimLeftToTile m (hwMax S) (hd ds) \<and> (ds = dims \<and> m = n \<or> length ds < length dims)"
  by (induction dims arbitrary: n) (fastforce simp: bindE_Inr split: if_splits)+

function searchTiles :: "hw_search \<Rightarrow> nat list \<Rightarrow> shape \<Rightarrow> tiling_error + shape option" where
  "searchTiles S dims n =
     (if dims = [] then Inl EmptyList
      else bindE (checkSupportedTiling S n (hd dims)) (\<lambda>(n', ok).
        if ok then Inr (Some n')
        else bindE (nextDimToTile S dims n') (\<lambda>r.
          case r of
            None \<Rightarrow> Inr None
          | Some (ds, m) \<Rightarrow>
              if hd ds < length m then bindE (dimPlus S m (hd ds)) (\<lambda>m'. searchTiles S ds m') else Inl WrongRank)))"
  by pat_completeness auto
termination
  by (relation "measures [\<lambda>(_, dims, _). length dims, \<lambda>(S, dims, n). nat (hwMax S ! hd dims - n ! hd dims)]")
    (auto dest!: nextDimToTile_cases intro: search_decreases)

declare searchTiles.simps [simp del]

lemma nextAligned_gt: "nextAligned dimSize alignment limit n = Inr k \<Longrightarrow> n < k \<and> k < limit"
proof (induction dimSize alignment limit n rule: nextAligned.induct)
  case (1 dimSize alignment limit n)
  then show ?case by (subst (asm) (2) nextAligned.simps) (force simp: bindE_Inr split: if_splits)
qed

function searchPipelining :: "hw_search \<Rightarrow> shape \<Rightarrow> nat \<Rightarrow> tile_info list \<Rightarrow> int \<Rightarrow> tiling_error + tile_info list" where
  "searchPipelining S n targetDim isolatedTiles k =
     bindE (hwSupported S (n[targetDim := k]) PIPELINING) (\<lambda>ok.
       if ok then fillDividedTilesOfOp (hwOp S) (n[targetDim := k]) (hwShape S)
       else if k \<ge> maxPrefetchTilingTime * n ! targetDim \<or> \<not> k < hwMax S ! targetDim then Inr isolatedTiles
       else if targetDim = hwAlignDim S \<and> hwAlignment S \<noteq> 1
       then (case nextAligned (hwShape S ! targetDim) (hwAlignment S) (hwMax S ! targetDim) k of
               Inl MlirFailure \<Rightarrow> Inr isolatedTiles
             | Inl e \<Rightarrow> Inl e
             | Inr k' \<Rightarrow> searchPipelining S n targetDim isolatedTiles k')
       else searchPipelining S n targetDim isolatedTiles (k + 1))"
  by pat_completeness auto
termination
  by (relation "measure (\<lambda>(S, _, d, _, k). nat (hwMax S ! d - k))") (auto dest!: nextAligned_gt)

declare searchPipelining.simps [simp del]

definition mkHwSearch :: "tiling_op \<Rightarrow> tiling_iface \<Rightarrow> shape \<Rightarrow> tiling_mode \<Rightarrow> bool \<Rightarrow> hw_search" where
  "mkHwSearch op I outputShape mode multithreaded =
     \<lparr>hwOp = op, hwIface = I, hwShape = outputShape, hwAlignDim = fst (getAlignDimAndSize op), hwAlignment = snd (getAlignDimAndSize op),
      hwMax = builderMaxNumTiles I, hwMode = (if mode = PIPELINING then ISOLATED else mode), hwMultithreaded = multithreaded\<rparr>"

definition getHWLayerTilingStrategyWithTileDimOrder :: "tiling_op \<Rightarrow> tiling_iface \<Rightarrow> shape \<Rightarrow> tiling_mode \<Rightarrow> nat list \<Rightarrow> bool \<Rightarrow>
    tiling_error + tile_info list" where
  "getHWLayerTilingStrategyWithTileDimOrder op I outputShape mode tileDimOrder multithreaded =
     guardE (length outputShape = 4 \<or> length outputShape = 5) WrongRank (
     guardE (tileDimOrder \<noteq> []) EmptyList (
     guardE (list_all (\<lambda>d. d < length outputShape) tileDimOrder) WrongRank (
       let S = mkHwSearch op I outputShape mode multithreaded; neutralTiling = replicate (length outputShape) 1
       in bindE (feasibleNextDim S tileDimOrder neutralTiling) (\<lambda>n1.
          bindE (searchTiles S tileDimOrder n1) (\<lambda>r.
            case r of
              None \<Rightarrow> if hwMode S = ISOLATED then Inl MlirFailure else fillDividedTilesOfOp op neutralTiling outputShape
            | Some n \<Rightarrow>
                bindE (fillDividedTilesOfOp op n outputShape) (\<lambda>isolatedTiles.
                  let dimsToTile = filter (\<lambda>i. n ! i > 1) [0..<length n]
                  in if mode \<noteq> PIPELINING \<or> length dimsToTile > 1 then Inr isolatedTiles
                     else let targetDim = (if dimsToTile = [] then actC else hd dimsToTile)
                          in searchPipelining S n targetDim isolatedTiles (n ! targetDim)))))))"

end
