(* ===== verification/Tiling_Correct.thy ===== *)
theory Tiling_Correct
  imports Tiling
begin

text \<open>
  The tiles of a division cover every element of the shape exactly once.
\<close>

section \<open>One dimension\<close>

text \<open>The size of tile \<open>i\<close> and the number of elements before it.\<close>

definition pieceSize :: "int \<times> int \<times> int \<Rightarrow> nat \<Rightarrow> int" where
  "pieceSize r i = (case r of (ts, rs, iv) \<Rightarrow> if int i < iv then ts else rs)"

definition pieceOffset :: "int \<times> int \<times> int \<Rightarrow> nat \<Rightarrow> int" where
  "pieceOffset r i = sum_list (map (pieceSize r) [0..<i])"

lemma pieceOffset_Suc [simp]: "pieceOffset r 0 = 0" "pieceOffset r (Suc i) = pieceOffset r i + pieceSize r i"
  by (simp_all add: pieceOffset_def)

text \<open>A division of a dimension of length \<open>len\<close> into \<open>n\<close> pieces.\<close>

definition dividesInto :: "int \<times> int \<times> int \<Rightarrow> nat \<Rightarrow> int \<Rightarrow> bool" where
  "dividesInto r n len \<longleftrightarrow> (\<forall>i<n. 0 < pieceSize r i) \<and> pieceOffset r n = len"

lemma pieceOffset_mono: "(\<And>i. i < n \<Longrightarrow> 0 < pieceSize r i) \<Longrightarrow> i \<le> j \<Longrightarrow> j \<le> n \<Longrightarrow> pieceOffset r i \<le> pieceOffset r j"
proof (induction j)
  case (Suc j)
  show ?case
  proof (cases "i = Suc j")
    case False
    then show ?thesis using Suc by (smt (verit) Suc_le_eq le_SucE less_imp_le pieceOffset_Suc(2))
  qed simp
qed simp

lemma pieces_once:
  assumes "dividesInto r n len" "0 \<le> x" "x < len"
  shows "length (filter (\<lambda>i. pieceOffset r i \<le> x \<and> x < pieceOffset r i + pieceSize r i) [0..<n]) = 1"
proof -
  have pos: "\<And>i. i < n \<Longrightarrow> 0 < pieceSize r i" using assms(1) by (simp add: dividesInto_def)
  have "length (filter (\<lambda>i. pieceOffset r i \<le> x \<and> x < pieceOffset r i + pieceSize r i) [0..<m]) = (if x < pieceOffset r m then 1 else 0)"
    if "m \<le> n" for m
    using that
  proof (induction m)
    case 0
    then show ?case using assms(2) by simp
  next
    case (Suc m)
    then have "pieceOffset r m < pieceOffset r (Suc m)" using pos[of m] by simp
    then show ?case using Suc by auto
  qed
  from this[of n] show ?thesis using assms by (simp add: dividesInto_def)
qed

lemma pieceOffset_const:
  "(\<And>j. j < i \<Longrightarrow> int j < iv) \<Longrightarrow> pieceOffset (ts, rs, iv) i = int i * ts"
  by (induction i) (auto simp: pieceSize_def algebra_simps)

lemma pieceOffset_rest:
  "0 \<le> iv \<Longrightarrow> pieceOffset (ts, rs, iv) (nat iv + j) = iv * ts + int j * rs"
proof (induction j)
  case 0
  have "pieceOffset (ts, rs, iv) (nat iv) = int (nat iv) * ts" by (rule pieceOffset_const) simp
  then show ?case using 0 by simp
next
  case (Suc j)
  then show ?case by (simp add: pieceSize_def algebra_simps)
qed

lemma pieceOffset_total:
  assumes "0 \<le> iv" "iv \<le> int n"
  shows "pieceOffset (ts, rs, iv) n = iv * ts + (int n - iv) * rs"
  using pieceOffset_rest[OF assms(1), of ts rs "n - nat iv"] assms by (simp add: of_nat_diff)

lemma divide_ok:
  assumes "divideTileSizeAndInterval d divisors sh alignment = Inr (Some r)" "1 \<le> divisors ! d"
  shows "dividesInto r (nat (divisors ! d)) (sh ! d)"
    "alignment ! d \<le> 1 \<Longrightarrow> i < nat (divisors ! d) \<Longrightarrow> pieceSize r i = sh ! d div divisors ! d \<or> pieceSize r i = sh ! d div divisors ! d + 1"
    "1 < alignment ! d \<Longrightarrow> Suc i < nat (divisors ! d) \<Longrightarrow> alignment ! d dvd pieceSize r i"
proof -
  let ?s = "sh ! d" and ?v = "divisors ! d" and ?a = "alignment ! d"
  have s: "?v \<le> ?s" using assms(1) by (auto simp: divideTileSizeAndInterval_def Let_def split: if_splits)
  have "dividesInto r (nat ?v) ?s \<and> (?a \<le> 1 \<longrightarrow> i < nat ?v \<longrightarrow> pieceSize r i = ?s div ?v \<or> pieceSize r i = ?s div ?v + 1) \<and>
      (1 < ?a \<longrightarrow> Suc i < nat ?v \<longrightarrow> ?a dvd pieceSize r i)" for i
  proof (cases "1 < ?a")
    case True
    then obtain ts where ts: "alignUp ZeroAlign (divUp ?s ?v) ?a = Inr ts" "r = (ts, ?s - ts * (?v - 1), ?v - 1)" "0 < ?s - ts * (?v - 1)"
      using assms(1) s by (auto simp: divideTileSizeAndInterval_def Let_def bindE_Inr guardE_Inr split: if_splits)
    have u: "0 < divUp ?s ?v" using divUp_bounds(3)[of ?s ?v] s assms(2) by simp
    note al = alignUp_bounds[OF ts(1)]
    have t: "0 < ts" "?a dvd ts" using al u True by auto
    have "pieceOffset r (nat ?v) = ?s" using pieceOffset_total[of "?v - 1" "nat ?v" ts "?s - ts * (?v - 1)"] assms(2) ts(2)
      by (simp add: algebra_simps)
    then show ?thesis using t ts True assms(2) by (auto simp: dividesInto_def pieceSize_def)
  next
    case False
    define q where "q = ?s div ?v"
    define m where "m = ?s mod ?v"
    have q: "?s = q * ?v + m" "0 \<le> m" "m < ?v" "1 \<le> q" using s assms(2) unfolding q_def m_def 
      by (simp_all add: pos_imp_zdiv_pos_iff int_one_le_iff_zero_less div_mult_mod_eq)
    have r: "r = (if m \<noteq> 0 then (q + 1, q, m) else (q, m, ?v))"
      using assms False s by (auto simp: divideTileSizeAndInterval_def Let_def sdiv_nonneg smod_nonneg q_def m_def split: if_splits)
    have "pieceOffset r (nat ?v) = ?s"
    proof (cases "m = 0")
      case True
      then show ?thesis using r q assms(2) pieceOffset_total[of ?v "nat ?v" q m] by (simp add: algebra_simps)
    next
      case m: False
      then show ?thesis using r q assms(2) pieceOffset_total[of m "nat ?v" "q + 1" q] by (simp add: algebra_simps)
    qed
    then show ?thesis using r q False by (auto simp: dividesInto_def pieceSize_def q_def[symmetric])
  qed
  then show "dividesInto r (nat ?v) ?s"
    "?a \<le> 1 \<Longrightarrow> i < nat ?v \<Longrightarrow> pieceSize r i = ?s div ?v \<or> pieceSize r i = ?s div ?v + 1"
    "1 < ?a \<Longrightarrow> Suc i < nat ?v \<Longrightarrow> ?a dvd pieceSize r i" by blast+
qed

section \<open>All dimensions\<close>

definition tileOfRank :: "nat \<Rightarrow> tile_info \<Rightarrow> bool" where
  "tileOfRank n t \<longleftrightarrow> length (tileShape t) = n \<and> length (tileOffsets t) = n \<and> length (tileAxis t) = n"

definition sameOutside :: "nat set \<Rightarrow> tile_info \<Rightarrow> tile_info \<Rightarrow> bool" where
  "sameOutside D t s \<longleftrightarrow> isCompletedTile s = isCompletedTile t \<and>
     (\<forall>d. d \<notin> D \<longrightarrow> tileShape s ! d = tileShape t ! d \<and> tileOffsets s ! d = tileOffsets t ! d \<and> tileAxis s ! d = tileAxis t ! d)"

lemma sameOutside_refl [simp]: "sameOutside D t t"
  by (simp add: sameOutside_def)

lemma sameOutside_trans: "sameOutside D a b \<Longrightarrow> sameOutside D b c \<Longrightarrow> sameOutside D a c"
  by (simp add: sameOutside_def)

lemma sameOutside_mono: "sameOutside D a b \<Longrightarrow> D \<subseteq> D' \<Longrightarrow> sameOutside D' a b"
  by (auto simp: sameOutside_def)

lemma sameOutside_setTile: "sameOutside {d} t (setTile d sz off ax t)"
  by (simp add: sameOutside_def setTile_def)

lemma tileOfRank_setTile [simp]: "tileOfRank n (setTile d sz off ax t) = tileOfRank n t"
  by (simp add: tileOfRank_def setTile_def)

lemma setTile_at:
  "tileOfRank n t \<Longrightarrow> d < n \<Longrightarrow> tileShape (setTile d sz off ax t) ! d = sz"
  "tileOfRank n t \<Longrightarrow> d < n \<Longrightarrow> tileOffsets (setTile d sz off ax t) ! d = off"
  "tileOfRank n t \<Longrightarrow> d < n \<Longrightarrow> tileAxis (setTile d sz off ax t) ! d = ax"
  by (simp_all add: setTile_def tileOfRank_def)

definition coversDim :: "int list \<Rightarrow> tile_info \<Rightarrow> nat \<Rightarrow> bool" where
  "coversDim x t d \<longleftrightarrow> tileOffsets t ! d \<le> x ! d \<and> x ! d < tileOffsets t ! d + tileShape t ! d"

text \<open>A tile is one of the pieces of dimension \<open>d\<close>.\<close>

definition pieceOf :: "shape \<Rightarrow> shape \<Rightarrow> shape \<Rightarrow> tile_info \<Rightarrow> nat \<Rightarrow> bool" where
  "pieceOf divisors sh alignment t d \<longleftrightarrow>
     (\<exists>r i. divideTileSizeAndInterval d divisors sh alignment = Inr (Some r) \<and> i < nat (divisors ! d) \<and>
        tileShape t ! d = pieceSize r i \<and> tileOffsets t ! d = pieceOffset r i \<and> tileAxis t ! d = divisors ! d)"

definition tilesDims :: "shape \<Rightarrow> shape \<Rightarrow> shape \<Rightarrow> nat set \<Rightarrow> tile_info \<Rightarrow> tile_info list \<Rightarrow> bool" where
  "tilesDims divisors sh alignment D t new \<longleftrightarrow>
     (\<forall>s\<in>set new. sameOutside D t s \<and> tileOfRank (length divisors) s \<and> (\<forall>d\<in>D. pieceOf divisors sh alignment s d)) \<and>
     int (length new) = (\<Prod>d\<in>D. divisors ! d) \<and>
     (\<forall>x. (\<forall>d\<in>D. 0 \<le> x ! d \<and> x ! d < sh ! d) \<longrightarrow> length (filter (\<lambda>s. \<forall>d\<in>D. coversDim x s d) new) = 1)"

lemma filter_none: "(\<And>s. s \<in> set xs \<Longrightarrow> \<not> P s) \<Longrightarrow> length (filter P xs) = 0"
  by (simp add: filter_empty_conv)

lemma filter_same: "(\<And>s. s \<in> set xs \<Longrightarrow> P s = Q s) \<Longrightarrow> length (filter P xs) = length (filter Q xs)"
  by (metis filter_cong)

text \<open>One step of the loop over the tiles of dimension \<open>d\<close>, given that the deeper dimensions are right.\<close>

lemma divideTiles_correct:
  assumes "divideTiles divisors sh alignment u k t out = Inr (t', out')" "k \<le> n" "n = length divisors" "tileOfRank n t"
    "\<And>i. i < n \<Longrightarrow> dimensionAt u i = Inr (\<delta> i)" "\<And>i. i < n \<Longrightarrow> \<delta> i < n" "inj_on \<delta> {..<n}" "\<And>d. d < n \<Longrightarrow> 1 \<le> divisors ! d"
  shows "\<exists>new. out' = out @ new \<and> sameOutside (\<delta> ` {n - k..<n}) t t' \<and> tileOfRank n t' \<and>
    tilesDims divisors sh alignment (\<delta> ` {n - k..<n}) t new"
  using assms(1,2,4)
proof (induction k arbitrary: t out t' out')
  case 0
  then have "t' = t" "out' = out @ [t]" by auto
  then show ?case using 0 by (intro exI[of _ "[t]"]) (simp add: tilesDims_def assms(3))
next
  case (Suc k)
  note IH = Suc.IH and run0 = Suc.prems(1) and kn = Suc.prems(2) and rank = Suc.prems(3)
  let ?D = "\<delta> ` {n - k..<n}" and ?D' = "\<delta> ` {n - Suc k..<n}"
  define d where "d = \<delta> (n - Suc k)"
  have dn: "d < n" using assms(6) kn by (simp add: d_def)
  have D': "?D' = insert d ?D"
  proof -
    have "{n - Suc k..<n} = insert (n - Suc k) {n - k..<n}" using kn by auto
    then show ?thesis by (simp add: d_def)
  qed
  have notin: "d \<notin> ?D" using kn by (auto simp: d_def dest!: inj_onD[OF assms(7)])
  have at: "dimensionAt u (length divisors - Suc k) = Inr d" using assms(3,5) kn by (simp add: d_def)
  obtain ts rs iv where tri: "divideTileSizeAndInterval d divisors sh alignment = Inr (Some (ts, rs, iv))"
    using run0 at by (auto simp: bindE_Inr split: option.splits)
  define r where "r = (ts, rs, iv)"
  have r: "divideTileSizeAndInterval d divisors sh alignment = Inr (Some r)" using tri by (simp add: r_def)
  let ?N = "nat (divisors ! d)"
  define step where "step = (\<lambda>tileIndex (ongoing, tiles, tileOffset).
               let sz = (if int tileIndex < iv then ts else rs)
               in bindE (divideTiles divisors sh alignment u k (setTile d sz tileOffset (divisors ! d) ongoing) tiles)
                    (\<lambda>(ongoing, tiles). Inr (ongoing, tiles, tileOffset + sz)) :: tiling_error + tile_info \<times> tile_info list \<times> int)"
  obtain off where run: "foldE step [0..<?N] (t, out, 0) = Inr (t', out', off)"
    using run0 at tri by (auto simp: bindE_Inr step_def)
  define inPiece where "inPiece = (\<lambda>x i. pieceOffset r i \<le> x ! d \<and> x ! d < pieceOffset r i + pieceSize r i)"
  define G where "G = (\<lambda>m t1 new. sameOutside ?D' t t1 \<and> tileOfRank n t1 \<and>
      (\<forall>s\<in>set new. sameOutside ?D' t s \<and> tileOfRank n s \<and> (\<forall>d\<in>?D'. pieceOf divisors sh alignment s d)) \<and>
      int (length new) = int m * (\<Prod>d\<in>?D. divisors ! d) \<and>
      (\<forall>x. (\<forall>d\<in>?D. 0 \<le> x ! d \<and> x ! d < sh ! d) \<longrightarrow> length (filter (\<lambda>s. \<forall>d\<in>?D'. coversDim x s d) new) = length (filter (inPiece x) [0..<m])))"
  have loop: "foldE step [0..<m] (t, out, 0) = Inr (t1, out1, off1) \<Longrightarrow> m \<le> ?N \<Longrightarrow>
    \<exists>new. out1 = out @ new \<and> off1 = pieceOffset r m \<and> G m t1 new" for m t1 out1 off1
  proof (induction m arbitrary: t1 out1 off1)
    case 0
    then show ?case using rank by (simp add: G_def)
  next
    case (Suc m)
    obtain t0 out0 off0 where s0: "foldE step [0..<m] (t, out, 0) = Inr (t0, out0, off0)" and s1: "step m (t0, out0, off0) = Inr (t1, out1, off1)"
      using Suc.prems(1) by (auto simp: foldE_append bindE_Inr)
    obtain new0 where n0: "out0 = out @ new0" "off0 = pieceOffset r m" "G m t0 new0" using Suc.IH[OF s0] Suc.prems(2) by auto
    note g0 = n0(3)[unfolded G_def]
    let ?t = "setTile d (pieceSize r m) off0 (divisors ! d) t0"
    have rec: "divideTiles divisors sh alignment u k ?t out0 = Inr (t1, out1)" and off1: "off1 = off0 + pieceSize r m"
      using s1 by (auto simp: step_def pieceSize_def r_def bindE_Inr Let_def)
    have rank0: "tileOfRank n ?t" using g0 by simp
    obtain new1 where n1: "out1 = out0 @ new1" "sameOutside ?D ?t t1" "tileOfRank n t1" "tilesDims divisors sh alignment ?D ?t new1"
      using IH[OF rec _ rank0] kn by auto
    note g1 = n1(4)[unfolded tilesDims_def]
    have same: "sameOutside ?D' t s" if "sameOutside ?D ?t s" for s
    proof -
      have "sameOutside ?D' t0 ?t" unfolding D' by (rule sameOutside_mono[OF sameOutside_setTile]) simp
      moreover have "sameOutside ?D' ?t s" using that D' by (auto intro: sameOutside_mono)
      ultimately show ?thesis using g0 sameOutside_trans by blast
    qed
    have atd: "tileShape s ! d = pieceSize r m" "tileOffsets s ! d = pieceOffset r m" "tileAxis s ! d = divisors ! d" if "sameOutside ?D ?t s" for s
      using that notin setTile_at[of n t0 d] g0 dn n0(2) by (auto simp: sameOutside_def)
    have piece: "pieceOf divisors sh alignment s d" if "sameOutside ?D ?t s" for s
      using atd[OF that] r Suc.prems(2) unfolding pieceOf_def by (intro exI[of _ r] exI[of _ m]) simp
    have "G (Suc m) t1 (new0 @ new1)"
      unfolding G_def
    proof (intro conjI allI impI ballI)
      show "sameOutside ?D' t t1" "tileOfRank n t1" using same n1 by auto
      show "int (length (new0 @ new1)) = int (Suc m) * (\<Prod>d\<in>?D. divisors ! d)" using g0 g1 by (simp add: algebra_simps)
    next
      fix s assume "s \<in> set (new0 @ new1)"
      then consider "s \<in> set new0" | "s \<in> set new1" by auto
      then have s: "sameOutside ?D' t s \<and> tileOfRank n s \<and> (\<forall>d\<in>?D'. pieceOf divisors sh alignment s d)"
      proof cases
        case 2
        then have "sameOutside ?D ?t s" "tileOfRank n s" "\<forall>d\<in>?D. pieceOf divisors sh alignment s d" using g1 assms(3) by auto
        then show ?thesis using same piece D' by auto
      qed (use g0 in blast)
      then show "sameOutside ?D' t s" "tileOfRank n s" by auto
      show "pieceOf divisors sh alignment s e" if "e \<in> ?D'" for e using s that by blast
    next
      fix x assume x: "\<forall>d\<in>?D. 0 \<le> x ! d \<and> x ! d < sh ! d"
      have "(\<forall>e\<in>?D'. coversDim x s e) \<longleftrightarrow> inPiece x m \<and> (\<forall>e\<in>?D. coversDim x s e)" if "s \<in> set new1" for s
        using atd[of s] that g1 by (auto simp: D' coversDim_def inPiece_def)
      then have "length (filter (\<lambda>s. \<forall>e\<in>?D'. coversDim x s e) new1) = length (filter (\<lambda>s. inPiece x m \<and> (\<forall>e\<in>?D. coversDim x s e)) new1)"
        by (rule filter_same)
      also have "\<dots> = (if inPiece x m then 1 else 0)" using g1 x by auto
      finally show "length (filter (\<lambda>s. \<forall>e\<in>?D'. coversDim x s e) (new0 @ new1)) = length (filter (inPiece x) [0..<Suc m])"
        using g0 x by simp
    qed
    then show ?case using n0 n1(1) off1 by (intro exI[of _ "new0 @ new1"]) simp
  qed
  obtain new where new: "out' = out @ new" "G ?N t' new" using loop[OF run] by auto
  note g = new(2)[unfolded G_def]
  have "tilesDims divisors sh alignment ?D' t new"
    unfolding tilesDims_def
  proof (intro conjI ballI allI impI)
    show "int (length new) = (\<Prod>d\<in>?D'. divisors ! d)" using g notin assms(8)[OF dn] by (simp add: D')
  next
    fix x assume x: "\<forall>d\<in>?D'. 0 \<le> x ! d \<and> x ! d < sh ! d"
    then show "length (filter (\<lambda>s. \<forall>d\<in>?D'. coversDim x s d) new) = 1"
      using g pieces_once[OF divide_ok(1)[OF r assms(8)[OF dn]], of "x ! d"] by (auto simp: D' inPiece_def)
  qed (use g assms(3) in auto)
  then show ?case using new(1) g by auto
qed

section \<open>The whole shape\<close>

definition dimOrder :: "bool \<Rightarrow> nat \<Rightarrow> nat" where
  "dimOrder u i = (if u then [0, 2, 3, 1] ! i else i)"

lemma dimensionAt_ok:
  assumes "u \<Longrightarrow> n = 4" "i < n"
  shows "dimensionAt u i = Inr (dimOrder u i)" "dimOrder u i < n"
proof -
  have "dimensionAt True 0 = Inr 0 \<and> dimensionAt True 1 = Inr 2 \<and> dimensionAt True 2 = Inr 3 \<and> dimensionAt True 3 = Inr 1"
    by code_simp
  moreover have "u \<Longrightarrow> i = 0 \<or> i = 1 \<or> i = 2 \<or> i = 3" using assms by auto
  ultimately have "u \<Longrightarrow> dimensionAt True i = Inr (dimOrder True i) \<and> dimOrder True i < 4" by (auto simp: dimOrder_def)
  then show "dimensionAt u i = Inr (dimOrder u i)" "dimOrder u i < n"
    using assms by (cases u; auto simp: dimensionAt_def dimOrder_def)+
qed

lemma dimOrder_inj: "(u \<Longrightarrow> n = 4) \<Longrightarrow> inj_on (dimOrder u) {..<n}"
proof (cases u)
  case True
  assume "u \<Longrightarrow> n = 4"
  then have n: "{..<n} = {0, 1, 2, 3}" using True by auto
  show ?thesis unfolding n by (auto simp: dimOrder_def True)
next
  case False
  then show ?thesis by (simp add: dimOrder_def inj_on_def)
qed

lemma dimOrder_image: "(u \<Longrightarrow> n = 4) \<Longrightarrow> dimOrder u ` {..<n} = {..<n}"
  using dimensionAt_ok(2) dimOrder_inj by (intro endo_inj_surj) (auto simp: image_subset_iff)

definition coversTile :: "int list \<Rightarrow> tile_info \<Rightarrow> bool" where
  "coversTile x t \<longleftrightarrow> (\<forall>d<length x. coversDim x t d)"

definition insideShape :: "shape \<Rightarrow> int list \<Rightarrow> bool" where
  "insideShape sh x \<longleftrightarrow> length x = length sh \<and> (\<forall>d<length sh. 0 \<le> x ! d \<and> x ! d < sh ! d)"

definition alignmentOf :: "shape \<Rightarrow> shape option \<Rightarrow> shape" where
  "alignmentOf sh alignment = (case alignment of None \<Rightarrow> replicate (length sh) 1 | Some a \<Rightarrow> a)"

lemma fillDividedTiles_tiles:
  assumes "fillDividedTiles divisors sh alignment u = Inr tiles" "length divisors = length sh" "list_all (\<lambda>v. 1 \<le> v) divisors" "u \<Longrightarrow> length sh = 4"
  shows "tilesDims divisors sh (alignmentOf sh alignment) {..<length sh} ((emptyTile (length divisors))\<lparr>isCompletedTile := True\<rparr>) tiles"
proof -
  let ?t = "(emptyTile (length divisors))\<lparr>isCompletedTile := True\<rparr>" and ?n = "length divisors"
  obtain t' where run: "divideTiles divisors sh (alignmentOf sh alignment) u ?n ?t [] = Inr (t', tiles)"
    using assms(1) by (auto simp: fillDividedTiles_def alignmentOf_def bindE_Inr)
  have u4: "u \<Longrightarrow> ?n = 4" using assms(2,4) by simp
  have "tileOfRank ?n ?t" by (simp add: tileOfRank_def emptyTile_def)
  from divideTiles_correct[OF run order_refl refl this dimensionAt_ok(1)[OF u4] dimensionAt_ok(2)[OF u4] dimOrder_inj[OF u4]] assms(2,3)
  have "tilesDims divisors sh (alignmentOf sh alignment) (dimOrder u ` {..<?n}) ?t tiles"
    by (auto simp: list_all_length atLeast0LessThan)
  then show ?thesis using dimOrder_image[OF u4] assms(2) by simp
qed

lemma pieceOf_bounds:
  assumes "pieceOf divisors sh alignment t d" "1 \<le> divisors ! d"
  shows "0 \<le> tileOffsets t ! d" "0 < tileShape t ! d" "tileOffsets t ! d + tileShape t ! d \<le> sh ! d" "tileAxis t ! d = divisors ! d"
proof -
  obtain r i where r: "divideTileSizeAndInterval d divisors sh alignment = Inr (Some r)" "i < nat (divisors ! d)"
    "tileShape t ! d = pieceSize r i" "tileOffsets t ! d = pieceOffset r i" "tileAxis t ! d = divisors ! d"
    using assms(1) by (auto simp: pieceOf_def)
  note dv = divide_ok(1)[OF r(1) assms(2), unfolded dividesInto_def]
  have "pieceOffset r 0 \<le> pieceOffset r i" "pieceOffset r (Suc i) \<le> pieceOffset r (nat (divisors ! d))"
    using dv r(2) by (intro pieceOffset_mono[where n = "nat (divisors ! d)"]; simp)+
  then show "0 \<le> tileOffsets t ! d" "0 < tileShape t ! d" "tileOffsets t ! d + tileShape t ! d \<le> sh ! d" "tileAxis t ! d = divisors ! d"
    using dv r by auto
qed

lemma filter_one_ex1:
  assumes "length (filter P xs) = 1"
  shows "\<exists>!i. i < length xs \<and> P (xs ! i)"
proof -
  have "card {i. i < length xs \<and> P (xs ! i)} = 1" using assms by (simp add: length_filter_conv_card)
  then obtain i where "{i. i < length xs \<and> P (xs ! i)} = {i}" by (auto simp: card_1_singleton_iff)
  then have "i < length xs \<and> P (xs ! i)" "\<And>j. j < length xs \<and> P (xs ! j) \<Longrightarrow> j = i" by blast+
  then show ?thesis by blast
qed

text \<open>Whether the division succeeds depends on the dimensions one by one.\<close>

definition dividable :: "shape \<Rightarrow> shape \<Rightarrow> shape \<Rightarrow> nat \<Rightarrow> bool" where
  "dividable divisors sh alignment d \<longleftrightarrow> (\<exists>r. divideTileSizeAndInterval d divisors sh alignment = Inr (Some r))"

lemma divideTiles_defined:
  assumes "\<And>i. i < length divisors \<Longrightarrow> dimensionAt u i = Inr (\<delta> i) \<and> dividable divisors sh alignment (\<delta> i)"
  shows "k \<le> length divisors \<Longrightarrow> \<exists>r. divideTiles divisors sh alignment u k t out = Inr r"
proof (induction k arbitrary: t out)
  case (Suc k)
  then have i: "length divisors - Suc k < length divisors" by simp
  obtain a b c where r: "divideTileSizeAndInterval (\<delta> (length divisors - Suc k)) divisors sh alignment = Inr (Some (a, b, c))"
    using assms[OF i] unfolding dividable_def by (metis prod_cases3)
  have "\<exists>s. foldE (\<lambda>tileIndex (ongoing, tiles, tileOffset).
               let sz = (if int tileIndex < c then a else b)
               in bindE (divideTiles divisors sh alignment u k (setTile (\<delta> (length divisors - Suc k)) sz tileOffset (divisors ! \<delta> (length divisors - Suc k)) ongoing) tiles)
                    (\<lambda>(ongoing, tiles). Inr (ongoing, tiles, tileOffset + sz)))
             [0..<nat (divisors ! \<delta> (length divisors - Suc k))] (t, out, 0) = Inr s \<and> True"
  proof (rule foldE_defined)
    fix x and s :: "tile_info \<times> tile_info list \<times> int"
    obtain on ts off where s: "s = (on, ts, off)" by (cases s)
    obtain on' ts' where "divideTiles divisors sh alignment u k (setTile (\<delta> (length divisors - Suc k)) (if int x < c then a else b) off (divisors ! \<delta> (length divisors - Suc k)) on) ts = Inr (on', ts')"
      using Suc.IH Suc.prems by (metis Suc_leD surj_pair)
    then show "\<exists>s'. (case s of (ongoing, tiles, tileOffset) \<Rightarrow>
               let sz = (if int x < c then a else b)
               in bindE (divideTiles divisors sh alignment u k (setTile (\<delta> (length divisors - Suc k)) sz tileOffset (divisors ! \<delta> (length divisors - Suc k)) ongoing) tiles)
                    (\<lambda>(ongoing, tiles). Inr (ongoing, tiles, tileOffset + sz))) = Inr s' \<and> True"
      by (simp add: s Let_def)
  qed simp
  then show ?case using assms[OF i] r by auto
qed simp

lemma fillDividedTiles_defined_iff:
  assumes "length divisors = length sh" "list_all (\<lambda>v. 1 \<le> v) divisors" "u \<Longrightarrow> length sh = 4"
  shows "(\<exists>tiles. fillDividedTiles divisors sh alignment u = Inr tiles) \<longleftrightarrow> (\<forall>d<length sh. dividable divisors sh (alignmentOf sh alignment) d)"
proof
  assume "\<exists>tiles. fillDividedTiles divisors sh alignment u = Inr tiles"
  then obtain tiles where f: "fillDividedTiles divisors sh alignment u = Inr tiles" ..
  note td = fillDividedTiles_tiles[OF f assms, unfolded tilesDims_def]
  have "0 < (\<Prod>d\<in>{..<length sh}. divisors ! d)" using assms by (intro prod_pos) (auto simp: list_all_length)
  moreover have "int (length tiles) = (\<Prod>d\<in>{..<length sh}. divisors ! d)" using td by blast
  ultimately have "0 < length tiles" by linarith
  then have "hd tiles \<in> set tiles" by (cases tiles) auto
  then show "\<forall>d<length sh. dividable divisors sh (alignmentOf sh alignment) d"
    using td unfolding pieceOf_def dividable_def by (meson lessThan_iff)
next
  assume d: "\<forall>d<length sh. dividable divisors sh (alignmentOf sh alignment) d"
  have u4: "u \<Longrightarrow> length divisors = 4" using assms by simp
  have "\<exists>r. divideTiles divisors sh (alignmentOf sh alignment) u (length divisors) ((emptyTile (length divisors))\<lparr>isCompletedTile := True\<rparr>) [] = Inr r"
    by (rule divideTiles_defined[where \<delta> = "dimOrder u"]) (use dimensionAt_ok[OF u4] d assms(1) in auto)
  then show "\<exists>tiles. fillDividedTiles divisors sh alignment u = Inr tiles" by (auto simp: fillDividedTiles_def alignmentOf_def)
qed

end
