(* ===== verification/Tile_Inference_Correct.thy ===== *)
theory Tile_Inference_Correct
  imports Tile_Inference Tiling_Correct
begin

text \<open>
  The window an input tile covers: every element an output element of the tile reads, padding
  included, is the one it reads in the whole input.
\<close>

section \<open>One dimension\<close>

text \<open>
  An input of length \<open>len\<close> is read with windows of size \<open>k\<close> at a distance of \<open>s\<close>, with padding
  \<open>pb\<close> before it. The outputs \<open>off, \<dots>, off + n - 1\<close> read the part of length \<open>isz\<close> at \<open>ioff\<close> with
  padding \<open>before\<close>.
\<close>

definition sameWindow :: "int \<Rightarrow> int \<Rightarrow> int \<Rightarrow> int \<Rightarrow> int \<Rightarrow> int \<Rightarrow> int \<Rightarrow> int \<Rightarrow> int \<Rightarrow> bool" where
  "sameWindow len k s pb off n ioff isz before \<longleftrightarrow>
     0 \<le> ioff \<and> 0 < isz \<and> ioff + isz \<le> len \<and> ioff - before = off * s - pb \<and>
     (\<forall>p. off * s - pb \<le> p \<longrightarrow> p < (off + n - 1) * s + k - pb \<longrightarrow> (ioff \<le> p \<and> p < ioff + isz \<longleftrightarrow> 0 \<le> p \<and> p < len))"

lemma sameWindow_read:
  assumes "sameWindow len k s pb off n ioff isz before" "0 \<le> y" "y < n" "0 \<le> j" "j < k" "0 < s"
  shows "ioff + (y * s + j - before) = (off + y) * s + j - pb"
    and "0 \<le> y * s + j - before \<and> y * s + j - before < isz \<longleftrightarrow> 0 \<le> (off + y) * s + j - pb \<and> (off + y) * s + j - pb < len"
proof -
  show eq: "ioff + (y * s + j - before) = (off + y) * s + j - pb" using assms(1) by (simp add: sameWindow_def algebra_simps)
  have "off * s \<le> (off + y) * s" "(off + y) * s \<le> (off + n - 1) * s" using assms(2,3,6) by (simp_all add: mult_right_mono)
  then have "ioff \<le> (off + y) * s + j - pb \<and> (off + y) * s + j - pb < ioff + isz \<longleftrightarrow> 0 \<le> (off + y) * s + j - pb \<and> (off + y) * s + j - pb < len"
    using assms(1,4,5) unfolding sameWindow_def by (meson add_le_less_mono diff_right_mono diff_strict_right_mono le_add_same_cancel1 order_trans)
  then show "0 \<le> y * s + j - before \<and> y * s + j - before < isz \<longleftrightarrow> 0 \<le> (off + y) * s + j - pb \<and> (off + y) * s + j - pb < len"
    using eq by linarith
qed

lemma inputForOutputDim_facts:
  assumes "inputForOutputDim out k s \<lparr>rangeBegin = 0, rangeEnd = len\<rparr> pb pa = Inr (inp, before, after)"
  shows "0 < rangeLength out" "0 < k" "0 < s" "0 \<le> pb" "0 \<le> pa"
    and "rangeBegin inp = max 0 (rangeBegin out * s - pb)" "rangeEnd inp = min len ((rangeEnd out - 1) * s + k - pb)"
    and "rangeBegin inp < rangeEnd inp"
    and "before = rangeBegin inp - (rangeBegin out * s - pb)" "after = (rangeEnd out - 1) * s + k - pb - rangeEnd inp"
    and "before \<le> pb" "after \<le> pa"
  using assms by (auto simp: inputForOutputDim_def guardE_Inr Let_def rangeLength_def split: if_splits)

lemma inputForOutputDim_window:
  assumes "inputForOutputDim \<lparr>rangeBegin = off, rangeEnd = off + n\<rparr> k s \<lparr>rangeBegin = 0, rangeEnd = len\<rparr> pb pa = Inr (inp, before, after)"
  shows "sameWindow len k s pb off n (rangeBegin inp) (rangeLength inp) before"
    and "rangeLength inp + before + after = (n - 1) * s + k"
  using inputForOutputDim_facts[OF assms] by (auto simp: sameWindow_def rangeLength_def algebra_simps)

text \<open>
  It is defined for every part of the output, when the padding on either side is smaller than the
  window and the last window ends inside the padded input.
\<close>

lemma inputForOutputDim_defined:
  assumes "0 < s" "0 \<le> pb" "pb < k" "0 \<le> pa" "pa < k" "0 < len" "0 \<le> off" "0 < n" "off + n \<le> osize" "(osize - 1) * s + k \<le> len + pb + pa"
  shows "\<exists>r. inputForOutputDim \<lparr>rangeBegin = off, rangeEnd = off + n\<rparr> k s \<lparr>rangeBegin = 0, rangeEnd = len\<rparr> pb pa = Inr r"
proof -
  have F: "off * s \<le> (off + n - 1) * s" "(off + n - 1) * s \<le> (osize - 1) * s" "0 \<le> off * s" using assms by (simp_all add: mult_right_mono)
  show ?thesis using assms(1-9)
    by (simp add: inputForOutputDim_def Let_def rangeLength_def guardE_def; intro conjI impI; use F assms in linarith)
qed

text \<open>The whole dimension: a smaller slice may be widened to the full input.\<close>

lemma sameWindow_widen:
  assumes "sameWindow len k s pb 0 n ioff isz before"
  shows "ioff = before - pb" and "0 \<le> pb \<Longrightarrow> before \<le> pb \<Longrightarrow> sameWindow len k s pb 0 n ioff len before"
  using assms by (auto simp: sameWindow_def)

section \<open>Tiles of a division\<close>

text \<open>A tile of a shape: inside it, complete, and the whole of every dimension that is not divided.\<close>

definition tileOf :: "shape \<Rightarrow> tile_info \<Rightarrow> bool" where
  "tileOf sh t \<longleftrightarrow> tileOfRank (length sh) t \<and> isCompletedTile t \<and>
     (\<forall>d<length sh. 0 \<le> tileOffsets t ! d \<and> 0 < tileShape t ! d \<and> tileOffsets t ! d + tileShape t ! d \<le> sh ! d \<and>
        (tileAxis t ! d = 1 \<longrightarrow> tileOffsets t ! d = 0 \<and> tileShape t ! d = sh ! d))"

lemma tileOf_dim:
  assumes "tileOf sh t" "d < length sh"
  shows "0 \<le> tileOffsets t ! d" "0 < tileShape t ! d" "tileOffsets t ! d + tileShape t ! d \<le> sh ! d"
  using assms by (simp_all add: tileOf_def)

lemma fillDividedTiles_tileOf:
  assumes "fillDividedTiles divisors sh alignment u = Inr tiles" "length divisors = length sh" "list_all (\<lambda>v. 1 \<le> v) divisors" "u \<Longrightarrow> length sh = 4"
    and "t \<in> set tiles"
  shows "tileOf sh t" "tileAxis t = divisors"
proof -
  note td = fillDividedTiles_tiles[OF assms(1-4), unfolded tilesDims_def]
  have rank: "tileOfRank (length sh) t" and completed: "isCompletedTile t" using td assms(2,5) by (auto simp: sameOutside_def)
  have d: "0 \<le> tileOffsets t ! d" "0 < tileShape t ! d" "tileOffsets t ! d + tileShape t ! d \<le> sh ! d" "tileAxis t ! d = divisors ! d"
    "tileAxis t ! d = 1 \<longrightarrow> tileOffsets t ! d = 0 \<and> tileShape t ! d = sh ! d" if "d < length sh" for d
  proof -
    have p: "pieceOf divisors sh (alignmentOf sh alignment) t d" using td assms(5) that by blast
    have v: "1 \<le> divisors ! d" using assms(2,3) that by (simp add: list_all_length)
    show "0 \<le> tileOffsets t ! d" "0 < tileShape t ! d" "tileOffsets t ! d + tileShape t ! d \<le> sh ! d" "tileAxis t ! d = divisors ! d"
      by (rule pieceOf_bounds[OF p v])+
    show "tileAxis t ! d = 1 \<longrightarrow> tileOffsets t ! d = 0 \<and> tileShape t ! d = sh ! d"
    proof
      assume one: "tileAxis t ! d = 1"
      obtain r i where r: "divideTileSizeAndInterval d divisors sh (alignmentOf sh alignment) = Inr (Some r)" "i < nat (divisors ! d)"
        "tileShape t ! d = pieceSize r i" "tileOffsets t ! d = pieceOffset r i" "tileAxis t ! d = divisors ! d"
        using p by (auto simp: pieceOf_def)
      have "pieceOffset r 1 = sh ! d" "i = 0" using divide_ok(1)[OF r(1) v] r one by (auto simp: dividesInto_def)
      then show "tileOffsets t ! d = 0 \<and> tileShape t ! d = sh ! d" using r by simp
    qed
  qed
  show "tileOf sh t" using rank completed d by (simp add: tileOf_def)
  show "tileAxis t = divisors" using rank d(4) assms(2) by (simp add: tileOfRank_def list_eq_iff_nth_eq)
qed

section \<open>Two dimensions\<close>

text \<open>What the inference of a window promises of the tile of the data input.\<close>

definition planarInput :: "tile_info \<Rightarrow> shape \<Rightarrow> int \<Rightarrow> int \<Rightarrow> int \<Rightarrow> int \<Rightarrow> pad_info \<Rightarrow> tile_info \<Rightarrow> pad_info \<Rightarrow> bool" where
  "planarInput t inSh kY kX sY sX pads it pads' \<longleftrightarrow>
     tileOfRank 4 it \<and> tileOffsets it ! actN = tileOffsets t ! actN \<and> tileShape it ! actN = tileShape t ! actN \<and> 0 < sY \<and> 0 < sX \<and>
     sameWindow (inSh ! actH) kY sY (padTop pads) (tileOffsets t ! actH) (tileShape t ! actH) (tileOffsets it ! actH) (tileShape it ! actH) (padTop pads') \<and>
     sameWindow (inSh ! actW) kX sX (padLeft pads) (tileOffsets t ! actW) (tileShape t ! actW) (tileOffsets it ! actW) (tileShape it ! actW) (padLeft pads')"

lemma inputForOutputTile_facts:
  assumes "inputForOutputTile (spatialPlane t) kX kY sX sY inSh pads = Inr (plane, pads')"
  shows "inputForOutputDim (spatialRange t actH) kY sY \<lparr>rangeBegin = 0, rangeEnd = inSh ! actH\<rparr> (padTop pads) (padBottom pads) = Inr (tileHeight plane, padTop pads', padBottom pads')"
    and "inputForOutputDim (spatialRange t actW) kX sX \<lparr>rangeBegin = 0, rangeEnd = inSh ! actW\<rparr> (padLeft pads) (padRight pads) = Inr (tileWidth plane, padLeft pads', padRight pads')"
  using assms by (auto simp: inputForOutputTile_def bindE_Inr guardE_Inr dimRange_def spatialPlane_def)

lemma restoreIfWhole_facts:
  assumes "restoreIfWhole t inSh d it = Inr it'"
  shows "it' = (if isCompletedTile t \<and> tileAxis t ! d = 1 then it\<lparr>tileShape := (tileShape it)[d := inSh ! d]\<rparr> else it)"
  using assms by (auto simp: restoreIfWhole_def restorePlanarShapeForInputTile_def guardE_Inr split: if_splits)

lemma restoreIfWhole_window:
  assumes "restoreIfWhole t inSh d it = Inr it'" "tileOfRank 4 it" "d < 4" "tileOf outSh t" "length outSh = 4"
    and "sameWindow (inSh ! d) k s pb (tileOffsets t ! d) (tileShape t ! d) (tileOffsets it ! d) (tileShape it ! d) before" "0 \<le> pb" "before \<le> pb"
  shows "sameWindow (inSh ! d) k s pb (tileOffsets t ! d) (tileShape t ! d) (tileOffsets it' ! d) (tileShape it' ! d) before"
proof (cases "tileAxis t ! d = 1")
  case True
  then have "tileOffsets t ! d = 0" using assms(3-5) by (simp add: tileOf_def)
  then show ?thesis using sameWindow_widen(2)[of "inSh ! d" k s pb] assms restoreIfWhole_facts[OF assms(1)] by (auto simp: tileOfRank_def)
qed (use restoreIfWhole_facts[OF assms(1)] assms(6) in simp)

lemma planarInput_infer:
  assumes "inputForOutputTile (spatialPlane t) kX kY sX sY inSh pads = Inr (plane, pads')"
    and "restoreIfWhole t inSh actH (setDimRange actW (tileWidth plane) (setDimRange actH (tileHeight plane) it0)) = Inr it1"
    and "restoreIfWhole t inSh actW it1 = Inr it" "tileOfRank 4 it0" "tileOf outSh t" "length outSh = 4"
    and "tileOffsets it0 ! actN = tileOffsets t ! actN" "tileShape it0 ! actN = tileShape t ! actN"
  shows "planarInput t inSh kY kX sY sX pads it pads'"
    and "tileShape it ! actC = tileShape it0 ! actC" "tileOffsets it ! actC = tileOffsets it0 ! actC"
proof -
  note io = inputForOutputTile_facts[OF assms(1), unfolded spatialRange_def]
  note f = inputForOutputDim_facts[OF io(1)] inputForOutputDim_facts[OF io(2)]
  let ?it = "setDimRange actW (tileWidth plane) (setDimRange actH (tileHeight plane) it0)"
  have at: "tileOfRank 4 ?it" "tileOffsets ?it ! actH = rangeBegin (tileHeight plane)" "tileShape ?it ! actH = rangeLength (tileHeight plane)"
    "tileOffsets ?it ! actW = rangeBegin (tileWidth plane)" "tileShape ?it ! actW = rangeLength (tileWidth plane)"
    using assms(4) by (auto simp: tileOfRank_def setDimRange_def setRange_def dim_defs)
  note r1 = restoreIfWhole_facts[OF assms(2)] and r2 = restoreIfWhole_facts[OF assms(3)]
  have rank1: "tileOfRank 4 it1" using at(1) r1 by (auto simp: tileOfRank_def)
  have h: "sameWindow (inSh ! actH) kY sY (padTop pads) (tileOffsets t ! actH) (tileShape t ! actH) (tileOffsets it1 ! actH) (tileShape it1 ! actH) (padTop pads')"
    by (rule restoreIfWhole_window[OF assms(2) at(1) _ assms(5,6)]) (use inputForOutputDim_window(1)[OF io(1)] at f in \<open>simp_all add: dim_defs\<close>)
  have w: "sameWindow (inSh ! actW) kX sX (padLeft pads) (tileOffsets t ! actW) (tileShape t ! actW) (tileOffsets it1 ! actW) (tileShape it1 ! actW) (padLeft pads')"
    using inputForOutputDim_window(1)[OF io(2)] at r1 by (simp add: dim_defs split: if_splits)
  have w': "sameWindow (inSh ! actW) kX sX (padLeft pads) (tileOffsets t ! actW) (tileShape t ! actW) (tileOffsets it ! actW) (tileShape it ! actW) (padLeft pads')"
    by (rule restoreIfWhole_window[OF assms(3) rank1 _ assms(5,6) w]) (use f in \<open>simp_all add: dim_defs\<close>)
  have same: "tileOffsets it ! actH = tileOffsets it1 ! actH" "tileShape it ! actH = tileShape it1 ! actH" "tileOfRank 4 it"
    using r2 rank1 by (auto simp: dim_defs tileOfRank_def)
  have c: "tileOffsets it ! d = tileOffsets it0 ! d" "tileShape it ! d = tileShape it0 ! d" if "d = actN \<or> d = actC" for d
    using r1 r2 that assms(4) by (auto simp: dim_defs setDimRange_def setRange_def tileOfRank_def)
  show "planarInput t inSh kY kX sY sX pads it pads'" using h w' same c assms(7,8) f by (simp add: planarInput_def)
  show "tileShape it ! actC = tileShape it0 ! actC" "tileOffsets it ! actC = tileOffsets it0 ! actC" using c by simp_all
qed

section \<open>What the elements of a tile read\<close>

definition tileSlice :: "tile_info \<Rightarrow> (int list \<Rightarrow> 'v) \<Rightarrow> int list \<Rightarrow> 'v" where
  "tileSlice t T x = T (map2 (+) (tileOffsets t) x)"

definition readTap :: "(int list \<Rightarrow> 'v) \<Rightarrow> shape \<Rightarrow> int list \<Rightarrow> 'v option" where
  "readTap T sh x = (if insideShape sh x then Some (T x) else None)"

lemma list4: "length xs = 4 \<longleftrightarrow> (\<exists>a b c d. xs = [a, b, c, d])"
  by (auto simp: numeral_eq_Suc length_Suc_conv)

lemma insideShape4: "insideShape [a, b, c, d] [x, y, z, w] \<longleftrightarrow> 0 \<le> x \<and> x < a \<and> 0 \<le> y \<and> y < b \<and> 0 \<le> z \<and> z < c \<and> 0 \<le> w \<and> w < d"
  by (auto simp: insideShape_def less_Suc_eq numeral_eq_Suc)

text \<open>A tap of the window in the tile is the tap of the whole input, inside or in the padding.\<close>

lemma planarInput_taps:
  assumes "planarInput t inSh kY kX sY sX pads it pads'" "length inSh = 4" "0 \<le> y" "y < tileShape t ! actH" "0 \<le> w" "w < tileShape t ! actW"
    and "0 \<le> ky" "ky < kY" "0 \<le> kx" "kx < kX" "0 \<le> n" "n < tileShape t ! actN" "0 \<le> tileOffsets t ! actN"
    and "tileOffsets t ! actN + tileShape t ! actN \<le> inSh ! actN" "0 \<le> c" "c < tileShape it ! actC" "0 \<le> tileOffsets it ! actC"
    and "tileOffsets it ! actC + tileShape it ! actC \<le> inSh ! actC"
  shows "readTap (tileSlice it T) (tileShape it) [n, c, y * sY + ky - padTop pads', w * sX + kx - padLeft pads'] =
    readTap T inSh [tileOffsets t ! actN + n, tileOffsets it ! actC + c, (tileOffsets t ! actH + y) * sY + ky - padTop pads,
      (tileOffsets t ! actW + w) * sX + kx - padLeft pads]"
proof -
  note pl = assms(1)[unfolded planarInput_def]
  have "length (tileShape it) = 4" "length (tileOffsets it) = 4" using pl by (simp_all add: tileOfRank_def)
  then obtain a1 a2 a3 a4 b1 b2 b3 b4 c1 c2 c3 c4 where eqs: "tileShape it = [a1, a2, a3, a4]" "tileOffsets it = [b1, b2, b3, b4]" "inSh = [c1, c2, c3, c4]"
    using assms(2) unfolding list4 by blast
  define qy py qx px where "qy = y * sY + ky - padTop pads'" and "py = (tileOffsets t ! actH + y) * sY + ky - padTop pads"
    and "qx = w * sX + kx - padLeft pads'" and "px = (tileOffsets t ! actW + w) * sX + kx - padLeft pads"
  have h: "b3 + qy = py" "0 \<le> qy \<and> qy < a3 \<longleftrightarrow> 0 \<le> py \<and> py < c3"
    using sameWindow_read[of "inSh ! actH" kY sY "padTop pads" "tileOffsets t ! actH" "tileShape t ! actH" "tileOffsets it ! actH" "tileShape it ! actH" "padTop pads'" y ky]
      pl assms(3,4,7,8) eqs unfolding qy_def py_def by (simp_all add: dim_defs)
  have v: "b4 + qx = px" "0 \<le> qx \<and> qx < a4 \<longleftrightarrow> 0 \<le> px \<and> px < c4"
    using sameWindow_read[of "inSh ! actW" kX sX "padLeft pads" "tileOffsets t ! actW" "tileShape t ! actW" "tileOffsets it ! actW" "tileShape it ! actW" "padLeft pads'" w kx]
      pl assms(5,6,9,10) eqs unfolding qx_def px_def by (simp_all add: dim_defs)
  have "insideShape [a1, a2, a3, a4] [n, c, qy, qx] \<longleftrightarrow> insideShape [c1, c2, c3, c4] [tileOffsets t ! actN + n, b2 + c, py, px]"
    unfolding insideShape4 using h(2) v(2) pl assms(11-18) eqs by (auto simp: dim_defs)
  moreover have "b1 = tileOffsets t ! actN" using pl eqs by (simp add: dim_defs)
  ultimately show ?thesis unfolding qy_def[symmetric] py_def[symmetric] qx_def[symmetric] px_def[symmetric]
    using h(1) v(1) eqs by (simp add: readTap_def tileSlice_def dim_defs)
qed

section \<open>Convolution\<close>

text \<open>
  The mathematical definition of the operations that are tiled: the convolution of data and filter
  with a bias, at output element \<open>x\<close>, and the values a pooling window holds (\<open>None\<close> in the padding).
\<close>

definition tapValue :: "int option \<Rightarrow> int" where
  "tapValue v = (case v of None \<Rightarrow> 0 | Some i \<Rightarrow> i)"

definition convolutionAt :: "(int list \<Rightarrow> int) \<Rightarrow> shape \<Rightarrow> (int list \<Rightarrow> int) \<Rightarrow> shape \<Rightarrow> (int list \<Rightarrow> int) option \<Rightarrow> int list \<Rightarrow> pad_info \<Rightarrow> int list \<Rightarrow> int" where
  "convolutionAt T inSh F fSh B strides pads x =
     (case B of None \<Rightarrow> 0 | Some b \<Rightarrow> b [0, x ! actC, 0, 0]) +
     (\<Sum>ic\<leftarrow>[0..fSh ! filterIC - 1]. \<Sum>ky\<leftarrow>[0..fSh ! filterKY - 1]. \<Sum>kx\<leftarrow>[0..fSh ! filterKX - 1].
        F [x ! actC, ic, ky, kx] * tapValue (readTap T inSh [x ! actN, ic, x ! actH * strides ! kernelY + ky - padTop pads,
                                                             x ! actW * strides ! kernelX + kx - padLeft pads]))"

definition poolWindow :: "(int list \<Rightarrow> 'v) \<Rightarrow> shape \<Rightarrow> int list \<Rightarrow> int list \<Rightarrow> pad_info \<Rightarrow> int list \<Rightarrow> 'v option list" where
  "poolWindow T inSh kernelSize strides pads x =
     concat (map (\<lambda>ky. map (\<lambda>kx. readTap T inSh [x ! actN, x ! actC, x ! actH * strides ! kernelY + ky - padTop pads,
                                                   x ! actW * strides ! kernelX + kx - padLeft pads])
        [0..kernelSize ! kernelX - 1]) [0..kernelSize ! kernelY - 1])"

text \<open>The convolution of a tile: of the slices of its operands with its own padding.\<close>

definition tiledConvolutionAt :: "(int list \<Rightarrow> int) \<Rightarrow> (int list \<Rightarrow> int) \<Rightarrow> (int list \<Rightarrow> int) option \<Rightarrow> int list \<Rightarrow> input_tiling \<Rightarrow> int list \<Rightarrow> int" where
  "tiledConvolutionAt T F B strides r x =
     (let it = inputTiles r ! 0; ft = inputTiles r ! 1
      in convolutionAt (tileSlice it T) (tileShape it) (tileSlice ft F) (tileShape ft)
           (case B of None \<Rightarrow> None | Some b \<Rightarrow> Some (tileSlice (inputTiles r ! 2) b)) strides (the (inputPads r)) x)"

lemma backInferConvTile_facts:
  assumes "backInferConvTile t inSh fSh bSh strides pads = Inr r" "tileOf outSh t" "length outSh = 4" "length inSh = 4"
  obtains it pads' where "r = \<lparr>inputTiles = [it, setRange filterOC (tileShape t ! actC) (tileOffsets t ! actC) (wholeTile fSh)] @
       (if bSh = [] then [] else [copyDim actC t (wholeTile bSh)]), inputPads = Some pads'\<rparr>"
    "planarInput t inSh (fSh ! filterKY) (fSh ! filterKX) (strides ! kernelY) (strides ! kernelX) pads it pads'"
    "tileShape it ! actC = inSh ! actC" "tileOffsets it ! actC = 0"
proof -
  let ?it0 = "(copyDim actN t (wholeTile inSh))\<lparr>tileAxis := tileAxis t\<rparr>"
  obtain plane pads' it1 it where steps: "inputForOutputTile (spatialPlane t) (fSh ! filterKX) (fSh ! filterKY) (strides ! kernelX) (strides ! kernelY) inSh pads = Inr (plane, pads')"
    "restoreIfWhole t inSh actH (setDimRange actW (tileWidth plane) (setDimRange actH (tileHeight plane) ?it0)) = Inr it1"
    "restoreIfWhole t inSh actW it1 = Inr it" "r = \<lparr>inputTiles = [it, setRange filterOC (tileShape t ! actC) (tileOffsets t ! actC) (wholeTile fSh)] @
       (if bSh = [] then [] else [copyDim actC t (wholeTile bSh)]), inputPads = Some pads'\<rparr>"
    using assms(1) by (auto simp: backInferConvTile_def bindE_Inr Let_def split: if_splits)
  have "tileOfRank 4 ?it0" using assms(2-4) by (simp add: tileOfRank_def tileOf_def copyDim_def setRange_def wholeTile_def)
  from planarInput_infer[OF steps(1-3) this assms(2,3)] steps(4) that[of it pads'] assms(4) show thesis
    by (simp add: copyDim_def setRange_def wholeTile_def dim_defs)
qed

lemma sum_list_cong: "(\<And>x. x \<in> set xs \<Longrightarrow> f x = g x) \<Longrightarrow> sum_list (map f xs) = sum_list (map g xs)"
  by (metis map_cong)

lemma convolution_tile:
  assumes "backInferConvTile t inSh fSh bSh strides pads = Inr r" "tileOf outSh t" "length outSh = 4" "length inSh = 4" "length fSh = 4"
    and "outSh ! actN = inSh ! actN" "inSh ! actC = fSh ! filterIC" "bSh = (case B of None \<Rightarrow> [] | Some b \<Rightarrow> [1, fSh ! filterOC, 1, 1])"
    and "insideShape (tileShape t) x"
  shows "tiledConvolutionAt T F B strides r x = convolutionAt T inSh F fSh B strides pads (map2 (+) (tileOffsets t) x)"
proof -
  obtain it pads' where r: "r = \<lparr>inputTiles = [it, setRange filterOC (tileShape t ! actC) (tileOffsets t ! actC) (wholeTile fSh)] @
       (if bSh = [] then [] else [copyDim actC t (wholeTile bSh)]), inputPads = Some pads'\<rparr>"
    and p: "planarInput t inSh (fSh ! filterKY) (fSh ! filterKX) (strides ! kernelY) (strides ! kernelX) pads it pads'"
    "tileShape it ! actC = inSh ! actC" "tileOffsets it ! actC = 0"
    using backInferConvTile_facts[OF assms(1-4)] .
  have rank: "length (tileShape t) = 4" "length (tileOffsets t) = 4" "length x = 4"
    using assms(2,3,9) by (simp_all add: tileOf_def tileOfRank_def insideShape_def)
  then obtain a1 a2 a3 a4 b1 b2 b3 b4 x1 x2 x3 x4 f1 f2 f3 f4 where eqs: "tileShape t = [a1, a2, a3, a4]" "tileOffsets t = [b1, b2, b3, b4]" "x = [x1, x2, x3, x4]"
    "fSh = [f1, f2, f3, f4]"
    using assms(5) unfolding list4 by blast
  have N: "0 \<le> tileOffsets t ! actN" "tileOffsets t ! actN + tileShape t ! actN \<le> inSh ! actN"
    using tileOf_dim[OF assms(2), of actN] assms(3,6) by (simp_all add: dim_defs)
  have in4: "0 \<le> x1" "x1 < a1" "0 \<le> x2" "x2 < a2" "0 \<le> x3" "x3 < a3" "0 \<le> x4" "x4 < a4" using assms(9) eqs by (simp_all add: insideShape4)
  have taps: "readTap (tileSlice it T) (tileShape it) [x1, ic, x3 * strides ! kernelY + ky - padTop pads', x4 * strides ! kernelX + kx - padLeft pads'] =
      readTap T inSh [b1 + x1, ic, (b3 + x3) * strides ! kernelY + ky - padTop pads, (b4 + x4) * strides ! kernelX + kx - padLeft pads]"
    if "0 \<le> ic" "ic < f2" "0 \<le> ky" "ky < f3" "0 \<le> kx" "kx < f4" for ic ky kx
    using planarInput_taps[OF p(1) assms(4), of x3 x4 ky kx x1 ic T] in4 N p(2,3) that assms(7) eqs by (simp add: dim_defs)
  have bias: "(case (case B of None \<Rightarrow> None | Some b \<Rightarrow> Some (tileSlice (inputTiles r ! 2) b)) of None \<Rightarrow> 0 | Some b \<Rightarrow> b [0, x ! actC, 0, 0]) =
      (case B of None \<Rightarrow> 0 | Some b \<Rightarrow> b [0, map2 (+) (tileOffsets t) x ! actC, 0, 0])"
    using r assms(8) eqs by (auto simp: tileSlice_def copyDim_def setRange_def wholeTile_def dim_defs split: option.splits)
  have sums: "(\<Sum>ic\<leftarrow>[0..f2 - 1]. \<Sum>ky\<leftarrow>[0..f3 - 1]. \<Sum>kx\<leftarrow>[0..f4 - 1]. F [b2 + x2, ic, ky, kx] *
        tapValue (readTap (tileSlice it T) (tileShape it) [x1, ic, x3 * strides ! kernelY + ky - padTop pads', x4 * strides ! kernelX + kx - padLeft pads'])) =
      (\<Sum>ic\<leftarrow>[0..f2 - 1]. \<Sum>ky\<leftarrow>[0..f3 - 1]. \<Sum>kx\<leftarrow>[0..f4 - 1]. F [b2 + x2, ic, ky, kx] *
        tapValue (readTap T inSh [b1 + x1, ic, (b3 + x3) * strides ! kernelY + ky - padTop pads, (b4 + x4) * strides ! kernelX + kx - padLeft pads]))"
    by (intro sum_list_cong) (simp add: taps)
  show ?thesis unfolding tiledConvolutionAt_def convolutionAt_def Let_def bias
    using sums r bias eqs by (simp add: tileSlice_def setRange_def wholeTile_def dim_defs)
qed

section \<open>Pooling\<close>

lemma backInferPoolTile_facts:
  assumes "backInferPoolTile t inSh ks strides pads = Inr r" "tileOf outSh t" "length outSh = 4" "length inSh = 4"
  obtains it pads' where "r = \<lparr>inputTiles = [it], inputPads = Some pads'\<rparr>"
    "planarInput t inSh (ks ! kernelY) (ks ! kernelX) (strides ! kernelY) (strides ! kernelX) pads it pads'"
    "tileShape it ! actC = tileShape t ! actC" "tileOffsets it ! actC = tileOffsets t ! actC"
proof -
  let ?it0 = "copyDim actC t (copyDim actN t (wholeTile inSh))"
  obtain plane pads' it1 it where steps: "inputForOutputTile (spatialPlane t) (ks ! kernelX) (ks ! kernelY) (strides ! kernelX) (strides ! kernelY) inSh pads = Inr (plane, pads')"
    "restoreIfWhole t inSh actH (setDimRange actW (tileWidth plane) (setDimRange actH (tileHeight plane) ?it0)) = Inr it1"
    "restoreIfWhole t inSh actW it1 = Inr it" "r = \<lparr>inputTiles = [it], inputPads = Some pads'\<rparr>"
    using assms(1) by (auto simp: backInferPoolTile_def bindE_Inr Let_def)
  have "tileOfRank 4 ?it0" using assms(2-4) by (simp add: tileOfRank_def tileOf_def copyDim_def setRange_def wholeTile_def)
  from planarInput_infer[OF steps(1-3) this assms(2,3)] steps(4) that[of it pads'] assms(4) show thesis
    by (simp add: copyDim_def setRange_def wholeTile_def dim_defs)
qed

definition tiledPoolWindow :: "(int list \<Rightarrow> 'v) \<Rightarrow> int list \<Rightarrow> int list \<Rightarrow> input_tiling \<Rightarrow> int list \<Rightarrow> 'v option list" where
  "tiledPoolWindow T ks strides r x =
     (let it = inputTiles r ! 0 in poolWindow (tileSlice it T) (tileShape it) ks strides (the (inputPads r)) x)"

lemma pool_tile:
  assumes "backInferPoolTile t inSh ks strides pads = Inr r" "tileOf outSh t" "length outSh = 4" "length inSh = 4"
    and "outSh ! actN = inSh ! actN" "outSh ! actC = inSh ! actC" "insideShape (tileShape t) x"
  shows "tiledPoolWindow T ks strides r x = poolWindow T inSh ks strides pads (map2 (+) (tileOffsets t) x)"
proof -
  obtain it pads' where r: "r = \<lparr>inputTiles = [it], inputPads = Some pads'\<rparr>"
    and p: "planarInput t inSh (ks ! kernelY) (ks ! kernelX) (strides ! kernelY) (strides ! kernelX) pads it pads'"
    "tileShape it ! actC = tileShape t ! actC" "tileOffsets it ! actC = tileOffsets t ! actC"
    using backInferPoolTile_facts[OF assms(1-4)] .
  have rank: "length (tileShape t) = 4" "length (tileOffsets t) = 4" "length x = 4"
    using assms(2,3,7) by (simp_all add: tileOf_def tileOfRank_def insideShape_def)
  then obtain a1 a2 a3 a4 b1 b2 b3 b4 x1 x2 x3 x4 where eqs: "tileShape t = [a1, a2, a3, a4]" "tileOffsets t = [b1, b2, b3, b4]" "x = [x1, x2, x3, x4]"
    unfolding list4 by blast
  have NC: "0 \<le> tileOffsets t ! actN" "tileOffsets t ! actN + tileShape t ! actN \<le> inSh ! actN" "0 \<le> tileOffsets t ! actC" "tileOffsets t ! actC + tileShape t ! actC \<le> inSh ! actC"
    using tileOf_dim[OF assms(2), of actN] tileOf_dim[OF assms(2), of actC] assms(3,5,6) by (simp_all add: dim_defs)
  have in4: "0 \<le> x1" "x1 < a1" "0 \<le> x2" "x2 < a2" "0 \<le> x3" "x3 < a3" "0 \<le> x4" "x4 < a4" using assms(7) eqs by (simp_all add: insideShape4)
  have taps: "readTap (tileSlice it T) (tileShape it) [x1, x2, x3 * strides ! kernelY + ky - padTop pads', x4 * strides ! kernelX + kx - padLeft pads'] =
      readTap T inSh [b1 + x1, b2 + x2, (b3 + x3) * strides ! kernelY + ky - padTop pads, (b4 + x4) * strides ! kernelX + kx - padLeft pads]"
    if "0 \<le> ky" "ky < ks ! kernelY" "0 \<le> kx" "kx < ks ! kernelX" for ky kx
    using planarInput_taps[OF p(1) assms(4), of x3 x4 ky kx x1 x2 T] in4 NC p(2,3) that eqs by (simp add: dim_defs)
  then have "concat (map (\<lambda>ky. map (\<lambda>kx. readTap (tileSlice it T) (tileShape it) [x1, x2, x3 * strides ! kernelY + ky - padTop pads', x4 * strides ! kernelX + kx - padLeft pads'])
      [0..ks ! kernelX - 1]) [0..ks ! kernelY - 1]) =
    concat (map (\<lambda>ky. map (\<lambda>kx. readTap T inSh [b1 + x1, b2 + x2, (b3 + x3) * strides ! kernelY + ky - padTop pads, (b4 + x4) * strides ! kernelX + kx - padLeft pads])
      [0..ks ! kernelX - 1]) [0..ks ! kernelY - 1])"
    by (intro arg_cong[where f = concat] map_cong refl) simp
  then show ?thesis using r eqs by (simp add: tiledPoolWindow_def poolWindow_def dim_defs)
qed

section \<open>The size of the output of a tile, and when the inference is defined\<close>

text \<open>
  The number of windows along a dimension, as \<open>spatialOutputForInputWindowSize\<close> computes it.
\<close>

definition windowCount :: "int \<Rightarrow> int \<Rightarrow> int \<Rightarrow> int \<Rightarrow> int \<Rightarrow> int" where
  "windowCount len k s pb pa = (len - k + pb + pa) sdiv s + 1"

lemma windowCount_exact: "0 < s \<Longrightarrow> 0 < n \<Longrightarrow> len + pb + pa = (n - 1) * s + k \<Longrightarrow> windowCount len k s pb pa = n"
proof -
  assume "0 < s" "0 < n" and eq: "len + pb + pa = (n - 1) * s + k"
  then have "len - k + pb + pa = (n - 1) * s" "0 \<le> (n - 1) * s" by simp_all
  with \<open>0 < s\<close> show ?thesis by (simp add: windowCount_def sdiv_nonneg)
qed

lemma windowCount_bounds:
  assumes "0 < s" "0 \<le> len - k + pb + pa"
  shows "(windowCount len k s pb pa - 1) * s + k \<le> len + pb + pa" "len + pb + pa < windowCount len k s pb pa * s + k"
proof -
  define x q where "x = len - k + pb + pa" and "q = x div s"
  have "windowCount len k s pb pa = q + 1" using assms by (simp add: windowCount_def sdiv_nonneg q_def x_def)
  moreover have "q * s \<le> x" using div_mult_mod_eq[of x s] pos_mod_sign[OF assms(1), of x] unfolding q_def by linarith
  moreover have "x < (q + 1) * s" using div_mult_mod_eq[of x s] pos_mod_bound[OF assms(1), of x] unfolding q_def distrib_right by linarith
  ultimately show "(windowCount len k s pb pa - 1) * s + k \<le> len + pb + pa" "len + pb + pa < windowCount len k s pb pa * s + k"
    by (simp_all add: x_def)
qed

lemma windowCount_pads:
  assumes "0 < s" "0 \<le> a" "a \<le> a'" "0 < n" "n = windowCount len k s pb a'" "(n - 1) * s + k \<le> len + pb + a" "0 \<le> len - k + pb + a"
  shows "windowCount len k s pb a = n"
proof -
  have lo: "(n - 1) * s \<le> len - k + pb + a" using assms(6) by simp
  have hi: "len - k + pb + a < n * s" using windowCount_bounds(2)[of s len k pb a'] assms by simp
  have "n - 1 \<le> (len - k + pb + a) div s" using zdiv_mono1[OF lo assms(1)] assms(1) by simp
  moreover have "(len - k + pb + a) div s < n"
    using hi assms(1) div_mult_mod_eq[of "len - k + pb + a" s] pos_mod_sign[OF assms(1), of "len - k + pb + a"]
    by (smt (verit) mult_less_cancel_right)
  ultimately show ?thesis using assms(1,7) by (simp add: windowCount_def sdiv_nonneg)
qed

text \<open>The inferred slice, widened or not, yields as many windows as the output tile has elements.\<close>

lemma inferred_count:
  assumes "inputForOutputDim \<lparr>rangeBegin = off, rangeEnd = off + n\<rparr> k s \<lparr>rangeBegin = 0, rangeEnd = len\<rparr> pb pa = Inr (inp, before, after)"
  shows "windowCount (rangeLength inp) k s before after = n"
    and "off = 0 \<Longrightarrow> n = windowCount len k s pb pa \<Longrightarrow> windowCount len k s before after = n"
proof -
  note f = inputForOutputDim_facts[OF assms]
  have n: "0 < n" using f(1) by (simp add: rangeLength_def)
  show c: "windowCount (rangeLength inp) k s before after = n"
    by (rule windowCount_exact) (use f n inputForOutputDim_window(2)[OF assms] in simp_all)
  show "windowCount len k s before after = n" if "off = 0" "n = windowCount len k s pb pa"
  proof -
    have b: "before = pb" "rangeBegin inp = 0" using f that(1) by auto
    have e: "(n - 1) * s + k - pb \<le> len + after" "0 \<le> (n - 1) * s" "0 \<le> after" using f(3,7,10) n that(1) by auto
    have p: "0 \<le> len - k + pb + after" "(n - 1) * s + k \<le> len + pb + after" using e(1,2) by linarith+
    show ?thesis unfolding b(1)
      by (rule windowCount_pads[OF f(3) e(3) f(12) n that(2) p(2,1)])
  qed
qed

text \<open>A window that fits the padded input, with less padding than its size; \<open>n\<close> outputs.\<close>

definition windowOk :: "int \<Rightarrow> int \<Rightarrow> int \<Rightarrow> int \<Rightarrow> int \<Rightarrow> int \<Rightarrow> bool" where
  "windowOk len k s pb pa n \<longleftrightarrow> 0 < len \<and> 0 < s \<and> 0 \<le> pb \<and> pb < k \<and> 0 \<le> pa \<and> pa < k \<and> k \<le> len + pb + pa \<and> n = windowCount len k s pb pa"

lemma dim_total:
  assumes "tileOf outSh t" "d < length outSh" "windowOk len k s pb pa (outSh ! d)"
  obtains inp before after where "inputForOutputDim (spatialRange t d) k s \<lparr>rangeBegin = 0, rangeEnd = len\<rparr> pb pa = Inr (inp, before, after)"
    "rangeLength inp \<le> len" "0 \<le> before" "0 \<le> after" "windowCount (rangeLength inp) k s before after = tileShape t ! d"
    "tileAxis t ! d = 1 \<Longrightarrow> windowCount len k s before after = tileShape t ! d"
proof -
  note w = assms(3)[unfolded windowOk_def] and td = tileOf_dim[OF assms(1,2)]
  have "(outSh ! d - 1) * s + k \<le> len + pb + pa" using windowCount_bounds(1)[of s len k pb pa] w by simp
  then obtain inp before after where r: "inputForOutputDim \<lparr>rangeBegin = tileOffsets t ! d, rangeEnd = tileOffsets t ! d + tileShape t ! d\<rparr> k s \<lparr>rangeBegin = 0, rangeEnd = len\<rparr> pb pa = Inr (inp, before, after)"
    using inputForOutputDim_defined[of s pb k pa len "tileOffsets t ! d" "tileShape t ! d" "outSh ! d"] w td by force
  have "windowCount len k s before after = tileShape t ! d" if "tileAxis t ! d = 1"
    using inferred_count(2)[OF r] that assms(1,2) w by (simp add: tileOf_def)
  moreover have "rangeLength inp \<le> len" "0 \<le> before" "0 \<le> after" using inputForOutputDim_facts[OF r] by (simp_all add: rangeLength_def)
  ultimately show thesis by (intro that[OF r[folded spatialRange_def]] inferred_count(1)[OF r])
qed

lemma restoreIfWhole_defined:
  assumes "d = actH \<or> d = actW" "tileShape it ! d \<le> inSh ! d"
  shows "\<exists>it'. restoreIfWhole t inSh d it = Inr it'"
  using assms by (simp add: restoreIfWhole_def restorePlanarShapeForInputTile_def guardE_def)

lemma planar_total:
  assumes "tileOf outSh t" "length outSh = 4" "tileOfRank 4 it0"
    and "windowOk (inSh ! actH) kY sY (padTop pads) (padBottom pads) (outSh ! actH)" "windowOk (inSh ! actW) kX sX (padLeft pads) (padRight pads) (outSh ! actW)"
  obtains plane pads' it1 it where "inputForOutputTile (spatialPlane t) kX kY sX sY inSh pads = Inr (plane, pads')"
    "restoreIfWhole t inSh actH (setDimRange actW (tileWidth plane) (setDimRange actH (tileHeight plane) it0)) = Inr it1"
    "restoreIfWhole t inSh actW it1 = Inr it"
    "windowCount (tileShape it ! actH) kY sY (padTop pads') (padBottom pads') = tileShape t ! actH"
    "windowCount (tileShape it ! actW) kX sX (padLeft pads') (padRight pads') = tileShape t ! actW"
    "\<not> (padTop pads' < 0 \<or> padBottom pads' < 0 \<or> padLeft pads' < 0 \<or> padRight pads' < 0)"
proof -
  have lt: "actH < length outSh" "actW < length outSh" using assms(2) by (simp_all add: dim_defs)
  obtain hi hb ha where h: "inputForOutputDim (spatialRange t actH) kY sY \<lparr>rangeBegin = 0, rangeEnd = inSh ! actH\<rparr> (padTop pads) (padBottom pads) = Inr (hi, hb, ha)"
    "rangeLength hi \<le> inSh ! actH" "0 \<le> hb" "0 \<le> ha" "windowCount (rangeLength hi) kY sY hb ha = tileShape t ! actH"
    "tileAxis t ! actH = 1 \<Longrightarrow> windowCount (inSh ! actH) kY sY hb ha = tileShape t ! actH"
    using dim_total[OF assms(1) lt(1) assms(4)] by blast
  obtain wi wb wa where w: "inputForOutputDim (spatialRange t actW) kX sX \<lparr>rangeBegin = 0, rangeEnd = inSh ! actW\<rparr> (padLeft pads) (padRight pads) = Inr (wi, wb, wa)"
    "rangeLength wi \<le> inSh ! actW" "0 \<le> wb" "0 \<le> wa" "windowCount (rangeLength wi) kX sX wb wa = tileShape t ! actW"
    "tileAxis t ! actW = 1 \<Longrightarrow> windowCount (inSh ! actW) kX sX wb wa = tileShape t ! actW"
    using dim_total[OF assms(1) lt(2) assms(5)] by blast
  let ?it = "setDimRange actW wi (setDimRange actH hi it0)"
  have at: "tileShape ?it ! actH = rangeLength hi" "tileShape ?it ! actW = rangeLength wi" "length (tileShape ?it) = 4"
    using assms(3) by (auto simp: tileOfRank_def setDimRange_def setRange_def dim_defs)
  obtain it1 where r1: "restoreIfWhole t inSh actH ?it = Inr it1" using restoreIfWhole_defined[of actH ?it inSh t] at h(2) by auto
  note f1 = restoreIfWhole_facts[OF r1]
  have at1: "tileShape it1 ! actW = rangeLength wi" "length (tileShape it1) = 4" using f1 at by (simp_all add: dim_defs split: if_splits)
  obtain it where r2: "restoreIfWhole t inSh actW it1 = Inr it" using restoreIfWhole_defined[of actW it1 inSh t] at1 w(2) by auto
  note f2 = restoreIfWhole_facts[OF r2]
  have H: "tileShape it ! actH = (if isCompletedTile t \<and> tileAxis t ! actH = 1 then inSh ! actH else rangeLength hi)"
    using f1 f2 at at1 by (auto simp: dim_defs)
  have W: "tileShape it ! actW = (if isCompletedTile t \<and> tileAxis t ! actW = 1 then inSh ! actW else rangeLength wi)"
    using f2 at1 by (auto simp: dim_defs)
  have nn: "0 \<le> inSh ! actH" "0 \<le> inSh ! actW" using assms(4,5) by (simp_all add: windowOk_def)
  have "inputForOutputTile (spatialPlane t) kX kY sX sY inSh pads = Inr (\<lparr>tileWidth = wi, tileHeight = hi\<rparr>, \<lparr>padLeft = wb, padRight = wa, padTop = hb, padBottom = ha\<rparr>)"
    using h(1) w(1) nn by (simp add: inputForOutputTile_def dimRange_def spatialPlane_def)
  then show thesis by (rule that[of _ _ it1 it]) (use r1 r2 H W h w in simp_all)
qed

lemma backInferConvTile_total:
  assumes "tileOf outSh t" "length outSh = 4" "length inSh = 4"
    and "windowOk (inSh ! actH) (fSh ! filterKY) (strides ! kernelY) (padTop pads) (padBottom pads) (outSh ! actH)"
    and "windowOk (inSh ! actW) (fSh ! filterKX) (strides ! kernelX) (padLeft pads) (padRight pads) (outSh ! actW)"
  obtains r it pads' where "backInferConvTile t inSh fSh bSh strides pads = Inr r" "inputTiles r ! 0 = it" "inputPads r = Some pads'"
    "windowCount (tileShape it ! actH) (fSh ! filterKY) (strides ! kernelY) (padTop pads') (padBottom pads') = tileShape t ! actH"
    "windowCount (tileShape it ! actW) (fSh ! filterKX) (strides ! kernelX) (padLeft pads') (padRight pads') = tileShape t ! actW"
    "\<not> (padTop pads' < 0 \<or> padBottom pads' < 0 \<or> padLeft pads' < 0 \<or> padRight pads' < 0)"
proof -
  have "tileOfRank 4 ((copyDim actN t (wholeTile inSh))\<lparr>tileAxis := tileAxis t\<rparr>)"
    using assms(1-3) by (simp add: tileOfRank_def tileOf_def copyDim_def setRange_def wholeTile_def)
  note total = planar_total[OF assms(1,2) this assms(4,5)]
  let ?fb = "[setRange filterOC (tileShape t ! actC) (tileOffsets t ! actC) (wholeTile fSh)] @ (if bSh = [] then [] else [copyDim actC t (wholeTile bSh)])"
  obtain plane pads' it1 it where steps: "inputForOutputTile (spatialPlane t) (fSh ! filterKX) (fSh ! filterKY) (strides ! kernelX) (strides ! kernelY) inSh pads = Inr (plane, pads')"
      "restoreIfWhole t inSh actH (setDimRange actW (tileWidth plane) (setDimRange actH (tileHeight plane)
         ((copyDim actN t (wholeTile inSh))\<lparr>tileAxis := tileAxis t\<rparr>))) = Inr it1" "restoreIfWhole t inSh actW it1 = Inr it"
      and rest: "windowCount (tileShape it ! actH) (fSh ! filterKY) (strides ! kernelY) (padTop pads') (padBottom pads') = tileShape t ! actH"
      "windowCount (tileShape it ! actW) (fSh ! filterKX) (strides ! kernelX) (padLeft pads') (padRight pads') = tileShape t ! actW"
      "\<not> (padTop pads' < 0 \<or> padBottom pads' < 0 \<or> padLeft pads' < 0 \<or> padRight pads' < 0)"
    by (rule total) blast
  have run: "backInferConvTile t inSh fSh bSh strides pads = Inr \<lparr>inputTiles = it # ?fb, inputPads = Some pads'\<rparr>"
      using steps by (simp add: backInferConvTile_def Let_def)
  show thesis by (rule that[OF run _ _ rest]) simp_all
qed

lemma backInferPoolTile_total:
  assumes "tileOf outSh t" "length outSh = 4" "length inSh = 4"
    and "windowOk (inSh ! actH) (ks ! kernelY) (strides ! kernelY) (padTop pads) (padBottom pads) (outSh ! actH)"
    and "windowOk (inSh ! actW) (ks ! kernelX) (strides ! kernelX) (padLeft pads) (padRight pads) (outSh ! actW)"
  obtains r it pads' where "backInferPoolTile t inSh ks strides pads = Inr r" "inputTiles r ! 0 = it" "inputPads r = Some pads'"
    "windowCount (tileShape it ! actH) (ks ! kernelY) (strides ! kernelY) (padTop pads') (padBottom pads') = tileShape t ! actH"
    "windowCount (tileShape it ! actW) (ks ! kernelX) (strides ! kernelX) (padLeft pads') (padRight pads') = tileShape t ! actW"
    "\<not> (padTop pads' < 0 \<or> padBottom pads' < 0 \<or> padLeft pads' < 0 \<or> padRight pads' < 0)"
proof -
  have "tileOfRank 4 (copyDim actC t (copyDim actN t (wholeTile inSh)))"
    using assms(1-3) by (simp add: tileOfRank_def tileOf_def copyDim_def setRange_def wholeTile_def)
  note total = planar_total[OF assms(1,2) this assms(4,5)]
  obtain plane pads' it1 it where steps: "inputForOutputTile (spatialPlane t) (ks ! kernelX) (ks ! kernelY) (strides ! kernelX) (strides ! kernelY) inSh pads = Inr (plane, pads')"
      "restoreIfWhole t inSh actH (setDimRange actW (tileWidth plane) (setDimRange actH (tileHeight plane)
         (copyDim actC t (copyDim actN t (wholeTile inSh))))) = Inr it1" "restoreIfWhole t inSh actW it1 = Inr it"
      and rest: "windowCount (tileShape it ! actH) (ks ! kernelY) (strides ! kernelY) (padTop pads') (padBottom pads') = tileShape t ! actH"
      "windowCount (tileShape it ! actW) (ks ! kernelX) (strides ! kernelX) (padLeft pads') (padRight pads') = tileShape t ! actW"
      "\<not> (padTop pads' < 0 \<or> padBottom pads' < 0 \<or> padLeft pads' < 0 \<or> padRight pads' < 0)"
    by (rule total) blast
  have run: "backInferPoolTile t inSh ks strides pads = Inr \<lparr>inputTiles = [it], inputPads = Some pads'\<rparr>"
      using steps by (simp add: backInferPoolTile_def Let_def)
  show thesis by (rule that[OF run _ _ rest]) simp_all
qed

lemma outputSize_windowCount:
  assumes "length ks = 2" "length strides = 2" "0 < strides ! kernelY" "0 < strides ! kernelX"
    and "\<not> (padTop pads < 0 \<or> padBottom pads < 0 \<or> padLeft pads < 0 \<or> padRight pads < 0)"
  shows "spatialOutputForInputWindowSize (h, w) ks strides pads = Inr
    (let oh = windowCount h (ks ! kernelY) (strides ! kernelY) (padTop pads) (padBottom pads);
         ow = windowCount w (ks ! kernelX) (strides ! kernelX) (padLeft pads) (padRight pads)
     in if oh \<le> 0 \<or> ow \<le> 0 then None else Some (oh, ow))"
  using assms by (simp add: spatialOutputForInputWindowSize_def windowCount_def Let_def dim_defs)

text \<open>
  Two boundary cases. A window larger than the padded input still counts as one window when the
  missing part is smaller than the stride, because the division rounds towards zero; and a tile of
  output channels that begins inside a group gets the input channels of one group too few.
\<close>

lemma window_larger_than_input:
  "spatialOutputForInputWindowSize (3, 3) [4, 4] [2, 2] \<lparr>padLeft = 0, padRight = 0, padTop = 0, padBottom = 0\<rparr> = Inr (Some (1, 1))"
  by (simp add: spatialOutputForInputWindowSize_def dim_defs signed_divide_int_def)

lemma group_conv_tile_inside_groups:
  "case backInferGroupConvTile \<lparr>tileShape = [1, 2, 1, 1], tileOffsets = [0, 2, 0, 0], tileAxis = [1, 3, 1, 1], isCompletedTile = True\<rparr>
      [1, 4, 1, 1] [6, 2, 1, 1] [] [1, 1] \<lparr>padLeft = 0, padRight = 0, padTop = 0, padBottom = 0\<rparr> 2 of
    Inl e \<Rightarrow> False
  | Inr r \<Rightarrow> tileOffsets (inputTiles r ! 0) = [0, 0, 0, 0] \<and> tileShape (inputTiles r ! 0) = [1, 2, 1, 1]"
  by code_simp

end
