(* ===== verification/Tiling_Strategy_Correct.thy ===== *)
theory Tiling_Strategy_Correct
  imports Tiling_Strategy Tile_Inference_Correct "HOL-Library.Multiset"
begin

text \<open>
  The searches for a number of tiles: they end, and what they return is a division of the output
  that the operation accepts.
\<close>

section \<open>Partitions\<close>

definition isPartition :: "shape \<Rightarrow> tile_info list \<Rightarrow> bool" where
  "isPartition sh tiles \<longleftrightarrow> (\<forall>t\<in>set tiles. tileOf sh t) \<and> (\<forall>x. insideShape sh x \<longrightarrow> (\<exists>!i. i < length tiles \<and> coversTile x (tiles ! i)))"

lemma fillDividedTiles_isPartition:
  assumes "fillDividedTiles divisors sh alignment u = Inr tiles" "length divisors = length sh" "list_all (\<lambda>v. 1 \<le> v) divisors" "u \<Longrightarrow> length sh = 4"
  shows "isPartition sh tiles" "int (length tiles) = (\<Prod>d<length sh. divisors ! d)"
proof -
  note td = fillDividedTiles_tiles[OF assms, unfolded tilesDims_def]
  have "\<exists>!i. i < length tiles \<and> coversTile x (tiles ! i)" if x: "insideShape sh x" for x
  proof -
    have "length (filter (\<lambda>s. \<forall>d\<in>{..<length sh}. coversDim x s d) tiles) = 1" using td x by (auto simp: insideShape_def)
    moreover have "(\<lambda>s. \<forall>d\<in>{..<length sh}. coversDim x s d) = coversTile x" using x by (auto simp: coversTile_def insideShape_def fun_eq_iff)
    ultimately show ?thesis by (intro filter_one_ex1) simp
  qed
  then show "isPartition sh tiles" using fillDividedTiles_tileOf(1)[OF assms] by (simp add: isPartition_def)
  show "int (length tiles) = (\<Prod>d<length sh. divisors ! d)" using td by blast
qed

lemma fillDividedTilesOfOp_isPartition:
  assumes "fillDividedTilesOfOp op divisors sh = Inr tiles" "op \<noteq> YuvToRgb" "length divisors = length sh" "list_all (\<lambda>v. 1 \<le> v) divisors" "length sh = 4"
  shows "isPartition sh tiles"
proof -
  obtain alignment u where "fillDividedTiles divisors sh alignment u = Inr tiles"
    using assms(1,2) by (cases op) (auto simp: fillDividedTilesOfOp_def bindE_Inr)
  then show ?thesis using fillDividedTiles_isPartition(1) assms(3-5) by blast
qed

section \<open>Aligned divisions\<close>

text \<open>The test the searches use is the success of the division itself.\<close>

lemma isSupportedAlignedDivision_iff:
  assumes "1 < alignment ! d" "1 \<le> divisors ! d" "0 < sh ! d"
  shows "isSupportedAlignedDivision (sh ! d) (divisors ! d) (alignment ! d) = Inr (dividable divisors sh alignment d)"
proof -
  obtain ts where ts: "alignUp ZeroAlign (divUp (sh ! d) (divisors ! d)) (alignment ! d) = Inr ts" using alignUp_total[of "alignment ! d"] assms(1) by force
  have u: "0 < divUp (sh ! d) (divisors ! d)" using divUp_bounds(3)[of "sh ! d" "divisors ! d"] assms by simp
  have "alignment ! d dvd ts" "0 < ts" using alignUp_bounds[OF ts] u assms(1) by auto
  then have "1 < ts" using assms(1) by (auto dest: zdvd_imp_le)
  have small: "sh ! d - ts * (divisors ! d - 1) \<le> 0" if "sh ! d < divisors ! d"
  proof -
    define T where "T = ts * (divisors ! d - 1)"
    have "2 * (divisors ! d - 1) \<le> T" unfolding T_def using \<open>1 < ts\<close> assms(2) by (intro mult_right_mono) auto
    then show ?thesis unfolding T_def[symmetric] using that assms(2,3) by presburger
  qed
  show ?thesis using ts small assms(1,2)
    by (auto simp: isSupportedAlignedDivision_def dividable_def divideTileSizeAndInterval_def Let_def)
qed

lemma nextAligned_least:
  "nextAligned dimSize alignment limit n = Inr k \<Longrightarrow>
     isSupportedAlignedDivision dimSize k alignment = Inr True \<and> (\<forall>j. n < j \<longrightarrow> j < k \<longrightarrow> isSupportedAlignedDivision dimSize j alignment = Inr False)"
proof (induction dimSize alignment limit n rule: nextAligned.induct)
  case (1 dimSize alignment limit n)
  obtain ok where ok: "isSupportedAlignedDivision dimSize (n + 1) alignment = Inr ok" and lt: "n + 1 < limit"
    and k: "if ok then k = n + 1 else nextAligned dimSize alignment limit (n + 1) = Inr k"
    using 1(2) by (subst (asm) nextAligned.simps) (auto simp: bindE_Inr split: if_splits)
  show ?case
  proof (cases ok)
    case True
    then show ?thesis using ok k by auto
  next
    case False
    then have IH: "isSupportedAlignedDivision dimSize k alignment = Inr True \<and> (\<forall>j. n + 1 < j \<longrightarrow> j < k \<longrightarrow> isSupportedAlignedDivision dimSize j alignment = Inr False)"
      using 1(1)[of ok] lt ok k by simp
    moreover have "isSupportedAlignedDivision dimSize j alignment = Inr False" if "n < j" "j < k" for j
      using IH ok False that by (cases "j = n + 1") auto
    ultimately show ?thesis by blast
  qed
qed

text \<open>The number of an aligned dimension never reaches the limit, even where the division there is supported.\<close>

lemma nextAligned_reaches_no_limit:
  "nextAligned 64 16 4 2 = Inl MlirFailure" "isSupportedAlignedDivision 64 4 16 = Inr True" "isSupportedAlignedDivision 64 3 16 = Inr False"
  by code_simp+

section \<open>Software layers\<close>

definition geq :: "shape \<Rightarrow> shape \<Rightarrow> bool" where
  "geq m n \<longleftrightarrow> length m = length n \<and> (\<forall>d<length n. n ! d \<le> m ! d)"

lemma geq_refl [simp]: "geq n n"
  by (simp add: geq_def)

lemma geq_trans: "geq a b \<Longrightarrow> geq b c \<Longrightarrow> geq a c"
  by (force simp: geq_def)

lemma geq_update: "n ! d \<le> v \<Longrightarrow> geq (n[d := v]) n"
  by (metis geq_def length_list_update nth_list_update_eq nth_list_update_neq order_refl)

lemma geq_ones: "geq n (replicate r 1) \<Longrightarrow> length n = r \<and> list_all (\<lambda>v. 1 \<le> v) n"
  by (auto simp: geq_def list_all_length)

text \<open>
  The first loop returns the first supported numbers it meets. Where it fails, the dimensions of
  the order are all at their limits and this finest division is not supported.
\<close>

definition withinLimits :: "shape \<Rightarrow> nat set \<Rightarrow> shape \<Rightarrow> bool" where
  "withinLimits maxNumTiles D n \<longleftrightarrow> (\<forall>d<length n. if d \<in> D then n ! d \<le> max 1 (maxNumTiles ! d) else n ! d = 1)"

lemma dropWhile_dims:
  assumes "dropWhile P xs = ys"
  shows "set ys \<subseteq> set xs" "x \<in> set xs \<Longrightarrow> x \<notin> set ys \<Longrightarrow> P x"
  using assms by (metis set_dropWhileD subsetI, metis UnE set_append set_takeWhileD takeWhile_dropWhile_id)

lemma searchIsolated_ok:
  assumes "searchIsolated supported maxNumTiles dims n = Inr n'" "withinLimits maxNumTiles D n" "set dims \<subseteq> D"
  shows "supported n' = Inr True \<and> geq n' n \<and> withinLimits maxNumTiles D n'"
  using assms
proof (induction supported maxNumTiles dims n rule: searchIsolated.induct)
  case (1 supported maxNumTiles dims n)
  obtain ok where ok: "supported n = Inr ok" using "1.prems"(1) by (subst (asm) searchIsolated.simps) (auto simp: bindE_Inr)
  show ?case
  proof (cases ok)
    case True
    then show ?thesis using "1.prems" ok by (subst (asm) searchIsolated.simps) auto
  next
    case False
    then obtain d rest where dw: "dropWhile (\<lambda>d. \<not> isDimLeftToTile n maxNumTiles d) dims = d # rest" "d < length n"
      "searchIsolated supported maxNumTiles (d # rest) (n[d := n ! d + 1]) = Inr n'"
      using "1.prems" ok by (subst (asm) searchIsolated.simps) (auto split: list.splits if_splits)
    have left: "n ! d < maxNumTiles ! d" "d \<in> D" "set (d # rest) \<subseteq> D"
      using dw(1) dropWhile_dims(1)[OF dw(1)] "1.prems"(3) by (auto simp: dropWhile_eq_Cons_conv isDimLeftToTile_def)
    have w: "withinLimits maxNumTiles D (n[d := n ! d + 1])" using "1.prems"(2) left dw(2)
      by (auto simp: withinLimits_def nth_list_update)
    show ?thesis using "1.IH"[OF ok False dw(1,2) dw(3) w left(3)] geq_trans[OF _ geq_update[of n d "n ! d + 1"]] by simp
  qed
qed

lemma searchIsolated_fails:
  assumes "searchIsolated supported maxNumTiles dims n = Inl FailedToTile" "withinLimits maxNumTiles D n" "set dims \<subseteq> D"
    and "\<And>m. supported m \<noteq> Inl FailedToTile" "\<And>d. d \<in> D - set dims \<Longrightarrow> \<not> isDimLeftToTile n maxNumTiles d"
  shows "\<exists>n'. supported n' = Inr False \<and> geq n' n \<and> withinLimits maxNumTiles D n' \<and> (\<forall>d\<in>D. \<not> isDimLeftToTile n' maxNumTiles d)"
  using assms
proof (induction supported maxNumTiles dims n rule: searchIsolated.induct)
  case (1 supported maxNumTiles dims n)
  obtain ok where ok: "supported n = Inr ok" "\<not> ok"
    using "1.prems"(1,4) by (subst (asm) searchIsolated.simps) (cases "supported n"; auto split: if_splits)
  show ?case
  proof (cases "dropWhile (\<lambda>d. \<not> isDimLeftToTile n maxNumTiles d) dims")
    case Nil
    then have "\<forall>d\<in>D. \<not> isDimLeftToTile n maxNumTiles d" using "1.prems"(5) by auto
    then show ?thesis using ok "1.prems"(2) by (intro exI[of _ n]) simp
  next
    case (Cons d rest)
    then have d: "d < length n" and run: "searchIsolated supported maxNumTiles (d # rest) (n[d := n ! d + 1]) = Inl FailedToTile"
      using "1.prems"(1) ok searchIsolated.simps[of supported maxNumTiles dims n] by (auto split: if_splits)
    have left: "n ! d < maxNumTiles ! d" "d \<in> D" "set (d # rest) \<subseteq> D"
      using Cons dropWhile_dims(1)[OF Cons] "1.prems"(3) by (auto simp: dropWhile_eq_Cons_conv isDimLeftToTile_def)
    have w: "withinLimits maxNumTiles D (n[d := n ! d + 1])" using "1.prems"(2) left d
      by (auto simp: withinLimits_def nth_list_update)
    have rest: "\<not> isDimLeftToTile (n[d := n ! d + 1]) maxNumTiles e" if "e \<in> D - set (d # rest)" for e
    proof -
      have "\<not> isDimLeftToTile n maxNumTiles e"
        using that dropWhile_dims(2)[OF Cons, of e] "1.prems"(5)[of e] by auto
      then show ?thesis using that by (auto simp: isDimLeftToTile_def)
    qed
    obtain n' where "supported n' = Inr False" "geq n' (n[d := n ! d + 1])" "withinLimits maxNumTiles D n'" "\<forall>d\<in>D. \<not> isDimLeftToTile n' maxNumTiles d"
      using "1.IH"[OF ok Cons d run w left(3) "1.prems"(4) rest] by blast
    then show ?thesis using geq_trans[OF _ geq_update[of n d "n ! d + 1"]] by auto
  qed
qed

lemma searchEven_result:
  "searchEven op I sh maxNumTiles n d isolatedTiles k = Inr tiles \<Longrightarrow>
     tiles = isolatedTiles \<or> (\<exists>j. k < j \<and> j \<le> maxExcessiveTilingTime * n ! d + 1 \<and> j \<le> maxNumTiles ! d \<and>
       fillDividedTilesOfOp op (n[d := j]) sh = Inr tiles \<and> canSWLayerBeEvenlyUnrolled I tiles d = Inr True)"
proof (induction op I sh maxNumTiles n d isolatedTiles k rule: searchEven.induct)
  case (1 op I sh maxNumTiles n d isolatedTiles k)
  note run = 1(3)[unfolded searchEven.simps[of op I sh maxNumTiles n d isolatedTiles k]]
  show ?case
  proof (cases "k < maxNumTiles ! d \<and> k \<le> maxExcessiveTilingTime * n ! d")
    case True
    note rec = run[unfolded if_P[OF True]]
    have shift: ?thesis if "searchEven op I sh maxNumTiles n d isolatedTiles (k + 1) = Inr tiles"
      "searchEven op I sh maxNumTiles n d isolatedTiles (k + 1) = Inr tiles \<Longrightarrow> tiles = isolatedTiles \<or>
        (\<exists>j. k + 1 < j \<and> j \<le> maxExcessiveTilingTime * n ! d + 1 \<and> j \<le> maxNumTiles ! d \<and>
          fillDividedTilesOfOp op (n[d := j]) sh = Inr tiles \<and> canSWLayerBeEvenlyUnrolled I tiles d = Inr True)"
      using that by force
    show ?thesis
    proof (cases "fillDividedTilesOfOp op (n[d := k + 1]) sh")
      case (Inl e)
      then have e: "e = MlirFailure" "searchEven op I sh maxNumTiles n d isolatedTiles (k + 1) = Inr tiles"
        using rec by (cases e; simp)+
      show ?thesis by (rule shift[OF e(2) 1(1)[OF True]]) (use Inl e in simp_all)
    next
      case (Inr ts)
      then obtain ok where ok: "canSWLayerBeEvenlyUnrolled I ts d = Inr ok"
        "if ok then tiles = ts else searchEven op I sh maxNumTiles n d isolatedTiles (k + 1) = Inr tiles"
        using rec by (auto simp: bindE_Inr split: if_splits)
      show ?thesis
      proof (cases ok)
        case True
        then show ?thesis using Inr ok \<open>k < maxNumTiles ! d \<and> k \<le> maxExcessiveTilingTime * n ! d\<close>
          by (intro disjI2 exI[of _ "k + 1"]) auto
      next
        case False
        then have r: "searchEven op I sh maxNumTiles n d isolatedTiles (k + 1) = Inr tiles" using ok by simp
        show ?thesis by (rule shift[OF r 1(2)[OF \<open>k < maxNumTiles ! d \<and> _\<close> Inr ok(1) False]])
      qed
    qed
  next
    case False
    then show ?thesis using run[unfolded if_not_P[OF False]] by simp
  qed
qed

text \<open>The result of the strategy for software layers, on success and on failure.\<close>

definition swResult :: "tiling_op \<Rightarrow> tiling_iface \<Rightarrow> shape \<Rightarrow> shape \<Rightarrow> nat set \<Rightarrow> tile_info list \<Rightarrow> bool" where
  "swResult op I sh maxNumTiles D tiles \<longleftrightarrow>
     (\<exists>n isolatedTiles. fillDividedTilesOfOp op n sh = Inr isolatedTiles \<and> isSupportedTiling I isolatedTiles ISOLATED \<and>
        geq n (replicate (length sh) 1) \<and> withinLimits maxNumTiles D n \<and>
        (tiles = isolatedTiles \<or>
         (\<exists>d k. getNonOneDim n = [d] \<and> n ! d < k \<and> k \<le> 3 * n ! d + 1 \<and> k \<le> maxNumTiles ! d \<and>
            fillDividedTilesOfOp op (n[d := k]) sh = Inr tiles \<and> canSWLayerBeEvenlyUnrolled I tiles d = Inr True)))"

definition finestUnsupported :: "tiling_op \<Rightarrow> tiling_iface \<Rightarrow> shape \<Rightarrow> shape \<Rightarrow> nat set \<Rightarrow> bool" where
  "finestUnsupported op I sh maxNumTiles D \<longleftrightarrow>
     (let n = map (\<lambda>d. if d \<in> D then max 1 (maxNumTiles ! d) else 1) [0..<length sh]
      in case fillDividedTilesOfOp op n sh of Inl e \<Rightarrow> e = MlirFailure | Inr tiles \<Rightarrow> \<not> isSupportedTiling I tiles ISOLATED)"

lemma ifDivided_True: "ifDivided op n sh P = Inr True \<longleftrightarrow> (\<exists>tiles. fillDividedTilesOfOp op n sh = Inr tiles \<and> P tiles)"
  by (cases "fillDividedTilesOfOp op n sh") (auto simp: ifDivided_def split: tiling_error.splits)

lemma ifDivided_False: "ifDivided op n sh P = Inr False \<longleftrightarrow> (case fillDividedTilesOfOp op n sh of Inl e \<Rightarrow> e = MlirFailure | Inr tiles \<Rightarrow> \<not> P tiles)"
  by (cases "fillDividedTilesOfOp op n sh") (auto simp: ifDivided_def split: tiling_error.splits)

lemma length_getNonOneDim: "length (getNonOneDim n) = 1 \<Longrightarrow> getNonOneDim n = [hd (getNonOneDim n)]"
  by (cases "getNonOneDim n") auto

lemma swStrategy_ok:
  assumes "getSWLayerTilingStrategyWithTileDimOrder op I sh mode order maxTiles = Inr tiles"
  shows "swResult op I sh (if maxTiles = [] then builderMaxNumTiles I else maxTiles) (set order) tiles"
proof -
  let ?max = "if maxTiles = [] then builderMaxNumTiles I else maxTiles"
  obtain n isolatedTiles where m: "mode = ISOLATED" "order \<noteq> []"
    and n: "searchIsolated (\<lambda>n. ifDivided op n sh (\<lambda>tiles. isSupportedTiling I tiles mode)) ?max order (replicate (length sh) 1) = Inr n"
    and iso: "fillDividedTilesOfOp op n sh = Inr isolatedTiles"
    and r: "(if legalConvertToDMA I \<or> length (getNonOneDim n) \<noteq> 1 then Inr isolatedTiles
       else bindE (canSWLayerBeEvenlyUnrolled I isolatedTiles (hd (getNonOneDim n))) (\<lambda>even.
         if even then Inr isolatedTiles
         else searchEven op I sh ?max n (hd (getNonOneDim n)) isolatedTiles (n ! hd (getNonOneDim n)))) = Inr tiles"
    using assms by (auto simp: getSWLayerTilingStrategyWithTileDimOrder_def Let_def bindE_Inr guardE_Inr)
  have "withinLimits ?max (set order) (replicate (length sh) 1)" by (simp add: withinLimits_def)
  note ok = searchIsolated_ok[OF n this subset_refl]
  have supported: "isSupportedTiling I isolatedTiles ISOLATED" using ok m iso by (simp add: ifDivided_True)
  show ?thesis
  proof (cases "tiles = isolatedTiles")
    case True
    then show ?thesis unfolding swResult_def using ok iso supported by blast
  next
    case False
    then have one: "length (getNonOneDim n) = 1" and even: "searchEven op I sh ?max n (hd (getNonOneDim n)) isolatedTiles (n ! hd (getNonOneDim n)) = Inr tiles"
      using r by (auto simp: bindE_Inr split: if_splits)
    from searchEven_result[OF even] False length_getNonOneDim[OF one] ok iso supported show ?thesis
      unfolding swResult_def maxExcessiveTilingTime_def by blast
  qed
qed

text \<open>The divisions never fail the way the search does.\<close>

lemma foldE_error: "foldE f xs s = Inl e \<Longrightarrow> (\<And>x s e. f x s = Inl e \<Longrightarrow> P e) \<Longrightarrow> P e"
  by (induction xs arbitrary: s) (auto simp: bindE_def split: sum.splits)

lemma bindE_error: "bindE r f = Inl e \<Longrightarrow> (r = Inl e \<Longrightarrow> P e) \<Longrightarrow> (\<And>x. f x = Inl e \<Longrightarrow> P e) \<Longrightarrow> P e"
  by (auto simp: bindE_def split: sum.splits)

lemma divide_error: "divideTileSizeAndInterval d divisors sh alignment = Inl e \<Longrightarrow> e = ZeroAlign \<or> e = DivisionByZero"
  by (auto simp: divideTileSizeAndInterval_def Let_def bindE_def alignUp_def guardE_def split: sum.splits if_splits)

lemma divideTiles_error: "divideTiles divisors sh alignment u k t out = Inl e \<Longrightarrow> e \<noteq> FailedToTile"
proof (induction k arbitrary: t out e)
  case (Suc k)
  note IH = Suc.IH
  show ?case
    using Suc.prems unfolding divideTiles.simps
  proof (rule bindE_error[where P = "\<lambda>e. e \<noteq> FailedToTile"])
    show "e \<noteq> FailedToTile" if "dimensionAt u (length divisors - Suc k) = Inl e"
      using that by (auto simp: dimensionAt_def split: if_splits sum.splits)
  next
    fix d
    assume "bindE (divideTileSizeAndInterval d divisors sh alignment) (\<lambda>r. case r of
         None \<Rightarrow> Inl MlirFailure
       | Some (tileSize, remainderTileSize, tileSizeInterval) \<Rightarrow>
           bindE (foldE (\<lambda>tileIndex (ongoing, tiles, tileOffset).
               let sz = (if int tileIndex < tileSizeInterval then tileSize else remainderTileSize)
               in bindE (divideTiles divisors sh alignment u k (setTile d sz tileOffset (divisors ! d) ongoing) tiles)
                    (\<lambda>(ongoing, tiles). Inr (ongoing, tiles, tileOffset + sz)))
             [0..<nat (divisors ! d)] (t, out, 0))
             (\<lambda>(ongoing, tiles, _). Inr (ongoing, tiles))) = Inl e"
    then show "e \<noteq> FailedToTile"
    proof (rule bindE_error[where P = "\<lambda>e. e \<noteq> FailedToTile"])
      show "e \<noteq> FailedToTile" if "divideTileSizeAndInterval d divisors sh alignment = Inl e" using divide_error[OF that] by auto
    next
      fix r
      assume r: "(case r of
         None \<Rightarrow> Inl MlirFailure
       | Some (tileSize, remainderTileSize, tileSizeInterval) \<Rightarrow>
           bindE (foldE (\<lambda>tileIndex (ongoing, tiles, tileOffset).
               let sz = (if int tileIndex < tileSizeInterval then tileSize else remainderTileSize)
               in bindE (divideTiles divisors sh alignment u k (setTile d sz tileOffset (divisors ! d) ongoing) tiles)
                    (\<lambda>(ongoing, tiles). Inr (ongoing, tiles, tileOffset + sz)))
             [0..<nat (divisors ! d)] (t, out, 0))
             (\<lambda>(ongoing, tiles, _). Inr (ongoing, tiles))) = Inl e"
      show "e \<noteq> FailedToTile"
      proof (cases r)
        case (Some abc)
        obtain a b c where abc: "abc = (a, b, c)" by (metis prod_cases3)
        from r Some abc have "foldE (\<lambda>tileIndex (ongoing, tiles, tileOffset).
               let sz = (if int tileIndex < c then a else b)
               in bindE (divideTiles divisors sh alignment u k (setTile d sz tileOffset (divisors ! d) ongoing) tiles)
                    (\<lambda>(ongoing, tiles). Inr (ongoing, tiles, tileOffset + sz))) [0..<nat (divisors ! d)] (t, out, 0) = Inl e"
          by (auto simp: bindE_def split: sum.splits)
        then show ?thesis
        proof (rule foldE_error[where P = "\<lambda>e. e \<noteq> FailedToTile"])
          fix x and s :: "tile_info \<times> tile_info list \<times> int" and e
          assume "(case s of (ongoing, tiles, tileOffset) \<Rightarrow>
               let sz = (if int x < c then a else b)
               in bindE (divideTiles divisors sh alignment u k (setTile d sz tileOffset (divisors ! d) ongoing) tiles)
                    (\<lambda>(ongoing, tiles). Inr (ongoing, tiles, tileOffset + sz))) = Inl e"
          then show "e \<noteq> FailedToTile" using IH by (cases s) (auto simp: Let_def bindE_def split: sum.splits)
        qed
      qed (use r in auto)
    qed
  qed
qed simp

lemma fillDividedTiles_error: "fillDividedTiles divisors sh alignment u = Inl e \<Longrightarrow> e \<noteq> FailedToTile"
  unfolding fillDividedTiles_def by (elim bindE_error) (auto dest: divideTiles_error)

lemma yuvRows_error: "yuvRows divisors sh t = Inl e \<Longrightarrow> e \<noteq> FailedToTile"
  by (auto simp: yuvRows_def evenTile_def guardE_def bindE_def Let_def split: sum.splits if_splits)

lemma yuvRows_bind_error: "bindE (yuvRows divisors sh t) (\<lambda>rows. Inr (f rows)) \<noteq> Inl FailedToTile"
  using yuvRows_error[of divisors sh t FailedToTile] by (cases "yuvRows divisors sh t") auto

lemma fillDividedTilesYuvToRgbOp_error: "fillDividedTilesYuvToRgbOp divisors sh = Inl e \<Longrightarrow> e \<noteq> FailedToTile"
  unfolding fillDividedTilesYuvToRgbOp_def divideTilesYuvToRgbOp_def Let_def
proof (elim bindE_error)
  show "e \<noteq> FailedToTile" if "evenTile (sh ! actC) (divisors ! actC) = Inl e"
    using that by (auto simp: evenTile_def guardE_def Let_def split: if_splits)
qed (auto elim!: foldE_error[where P = "\<lambda>e. e \<noteq> FailedToTile"] simp: yuvRows_bind_error split: if_splits)

lemma fillDividedTilesOfOp_error: "fillDividedTilesOfOp op n sh = Inl e \<Longrightarrow> e \<noteq> FailedToTile"
proof (cases op)
  case (VerticalFusion facts inner)
  assume "fillDividedTilesOfOp op n sh = Inl e"
  then show ?thesis unfolding fillDividedTilesOfOp_def VerticalFusion tiling_op.case
    by (elim bindE_error) (auto simp: calculateAlignmentLCM_def guardE_def Let_def dest: fillDividedTiles_error split: if_splits)
qed (auto simp: fillDividedTilesOfOp_def dest: fillDividedTiles_error fillDividedTilesYuvToRgbOp_error)

lemma ifDivided_error: "ifDivided op n sh P = Inl e \<Longrightarrow> e \<noteq> FailedToTile"
  using fillDividedTilesOfOp_error[of op n sh] by (cases "fillDividedTilesOfOp op n sh") (auto simp: ifDivided_def split: tiling_error.splits)

lemma canSWLayerBeEvenlyUnrolled_error: "canSWLayerBeEvenlyUnrolled I tiles d = Inl e \<Longrightarrow> e \<noteq> FailedToTile"
proof (induction tiles)
  case (Cons t tiles)
  have one: "canTileBeEvenlyDivided I d (tileShape t) = Inl e \<Longrightarrow> e \<noteq> FailedToTile" for e
    by (auto simp: canTileBeEvenlyDivided_def Let_def split: sum.splits tiling_error.splits dest: fillDividedTiles_error)
  show ?case
    using Cons.prems unfolding canSWLayerBeEvenlyUnrolled.simps
    by (rule bindE_error[where P = "\<lambda>e. e \<noteq> FailedToTile"]) (use one Cons.IH in \<open>auto split: if_splits\<close>)
qed simp

lemma searchEven_error: "searchEven op I sh maxNumTiles n d isolatedTiles k = Inl e \<Longrightarrow> e \<noteq> FailedToTile"
proof (induction op I sh maxNumTiles n d isolatedTiles k rule: searchEven.induct)
  case (1 op I sh maxNumTiles n d isolatedTiles k)
  show ?case
  proof (cases "k < maxNumTiles ! d \<and> k \<le> maxExcessiveTilingTime * n ! d")
    case True
    note rec = 1(3)[unfolded searchEven.simps[of op I sh maxNumTiles n d isolatedTiles k] if_P[OF True]]
    show ?thesis
    proof (cases "fillDividedTilesOfOp op (n[d := k + 1]) sh")
      case (Inl x)
      then show ?thesis using rec 1(1)[OF True Inl] fillDividedTilesOfOp_error[OF Inl] by (cases x) auto
    next
      case (Inr ts)
      have "bindE (canSWLayerBeEvenlyUnrolled I ts d) (\<lambda>ok. if ok then Inr ts
          else searchEven op I sh maxNumTiles n d isolatedTiles (k + 1)) = Inl e"
        using rec Inr by simp
      then show ?thesis
      proof (cases "canSWLayerBeEvenlyUnrolled I ts d")
        case (Inl x)
        then show ?thesis using rec Inr canSWLayerBeEvenlyUnrolled_error[OF Inl] by simp
      next
        case (Inr ok)
        then show ?thesis using rec \<open>fillDividedTilesOfOp op _ sh = Inr ts\<close> 1(2)[OF True \<open>fillDividedTilesOfOp op _ sh = Inr ts\<close> Inr]
          by (auto split: if_splits)
      qed
    qed
  next
    case False
    then show ?thesis using 1(3)[unfolded searchEven.simps[of op I sh maxNumTiles n d isolatedTiles k] if_not_P[OF False]] by simp
  qed
qed

lemma swStrategy_fails:
  assumes "getSWLayerTilingStrategyWithTileDimOrder op I sh mode order maxTiles = Inl FailedToTile" "list_all (\<lambda>d. d < length sh) order"
  shows "finestUnsupported op I sh (if maxTiles = [] then builderMaxNumTiles I else maxTiles) (set order)"
proof -
  let ?max = "if maxTiles = [] then builderMaxNumTiles I else maxTiles" and ?ones = "replicate (length sh) (1 :: int)"
  let ?sup = "\<lambda>n. ifDivided op n sh (\<lambda>tiles. isSupportedTiling I tiles mode)"
  have m: "mode = ISOLATED" "order \<noteq> []"
    using assms(1) by (auto simp: getSWLayerTilingStrategyWithTileDimOrder_def guardE_def split: if_splits)
  have run: "bindE (searchIsolated ?sup ?max order ?ones) (\<lambda>n. bindE (fillDividedTilesOfOp op n sh) (\<lambda>isolatedTiles.
      if legalConvertToDMA I \<or> length (getNonOneDim n) \<noteq> 1 then Inr isolatedTiles
      else bindE (canSWLayerBeEvenlyUnrolled I isolatedTiles (hd (getNonOneDim n))) (\<lambda>even.
        if even then Inr isolatedTiles
        else searchEven op I sh ?max n (hd (getNonOneDim n)) isolatedTiles (n ! hd (getNonOneDim n))))) = Inl FailedToTile"
    using assms(1) m by (simp add: getSWLayerTilingStrategyWithTileDimOrder_def Let_def)
  have rest: "bindE (fillDividedTilesOfOp op n sh) (\<lambda>isolatedTiles.
      if legalConvertToDMA I \<or> length (getNonOneDim n) \<noteq> 1 then Inr isolatedTiles
      else bindE (canSWLayerBeEvenlyUnrolled I isolatedTiles (hd (getNonOneDim n))) (\<lambda>even.
        if even then Inr isolatedTiles
        else searchEven op I sh ?max n (hd (getNonOneDim n)) isolatedTiles (n ! hd (getNonOneDim n)))) \<noteq> Inl FailedToTile" for n
    by (auto simp: bindE_def split: sum.splits if_splits dest: fillDividedTilesOfOp_error canSWLayerBeEvenlyUnrolled_error searchEven_error)
  have s: "searchIsolated ?sup ?max order ?ones = Inl FailedToTile"
    using run rest by (cases "searchIsolated ?sup ?max order ?ones") auto
  have w: "withinLimits ?max (set order) ?ones" by (simp add: withinLimits_def)
  obtain n where n: "?sup n = Inr False" "geq n ?ones" "withinLimits ?max (set order) n" "\<forall>d\<in>set order. \<not> isDimLeftToTile n ?max d"
    using searchIsolated_fails[OF s w subset_refl] ifDivided_error[of op _ sh "\<lambda>tiles. isSupportedTiling I tiles mode"] by blast
  have "n = map (\<lambda>d. if d \<in> set order then max 1 (?max ! d) else 1) [0..<length sh]"
  proof (rule nth_equalityI)
    show "length n = length (map (\<lambda>d. if d \<in> set order then max 1 (?max ! d) else 1) [0..<length sh])" using n(2) by (simp add: geq_def)
    fix d
    assume "d < length n"
    then show "n ! d = map (\<lambda>d. if d \<in> set order then max 1 (?max ! d) else 1) [0..<length sh] ! d"
      using n(2-4) by (cases "d \<in> set order") (force simp: geq_def withinLimits_def isDimLeftToTile_def)+
  qed
  then show ?thesis using n(1) m(1) unfolding finestUnsupported_def Let_def by (simp add: ifDivided_False)
qed

section \<open>Hardware layers\<close>

text \<open>Numbers of tiles: one per dimension, at least 1 in the dimensions of \<open>D\<close>.\<close>

definition numbersOk :: "nat \<Rightarrow> nat set \<Rightarrow> shape \<Rightarrow> bool" where
  "numbersOk r D n \<longleftrightarrow> length n = r \<and> (\<forall>d\<in>D. d < r \<longrightarrow> 1 \<le> n ! d)"

lemma numbersOk_mono: "numbersOk r D n \<Longrightarrow> D' \<subseteq> D \<Longrightarrow> numbersOk r D' n"
  by (auto simp: numbersOk_def)

lemma numbersOk_update: "numbersOk r D n \<Longrightarrow> (d < r \<Longrightarrow> d \<in> D \<Longrightarrow> 1 \<le> v) \<Longrightarrow> numbersOk r D (n[d := v])"
  unfolding numbersOk_def by (metis length_list_update nth_list_update_eq nth_list_update_neq)

lemma numbersOk_grows: "numbersOk r D n \<Longrightarrow> n' = n[d := n' ! d] \<Longrightarrow> (d < length n \<Longrightarrow> n ! d \<le> n' ! d) \<Longrightarrow> numbersOk r D n'"
  by (metis numbersOk_def numbersOk_update order_trans)

lemma dimPlus_ok: "dimPlus S n d = Inr n' \<Longrightarrow> numbersOk r D n \<Longrightarrow> numbersOk r D n'"
  using dimPlus_out dimPlus_greater by (metis less_imp_le numbersOk_grows)

lemma checkSupportedTiling_ok: "checkSupportedTiling S n d = Inr (n', ok) \<Longrightarrow> numbersOk r D n \<Longrightarrow> numbersOk r D n'"
  using checkSupportedTiling_grows by (metis numbersOk_grows)

lemma firstSupported_True: "firstSupported S cs n = Inr (n', True) \<Longrightarrow> hwSupported S n' (hwMode S) = Inr True"
  by (induction cs arbitrary: n) (auto simp: bindE_Inr split: if_splits)

lemma checkSupportedTiling_True: "checkSupportedTiling S n d = Inr (n', True) \<Longrightarrow> hwSupported S n' (hwMode S) = Inr True"
  by (auto simp: checkSupportedTiling_def checkSupportedTilingMultithreaded_def bindE_Inr split: if_splits dest: firstSupported_True
      simp del: firstSupported.simps filter.simps)

lemma lowerAligned_pos: "lowerAligned dimSize alignment n = Inr k \<Longrightarrow> 1 \<le> n \<Longrightarrow> 1 \<le> k"
proof (induction dimSize alignment n rule: lowerAligned.induct)
  case (1 dimSize alignment n)
  show ?case
  proof (cases "n > 1")
    case True
    then obtain ok where ok: "isSupportedAlignedDivision dimSize n alignment = Inr ok"
      "if \<not> ok then lowerAligned dimSize alignment (n - 1) = Inr k else n = k"
      using 1(2) lowerAligned.simps[of dimSize alignment n] by (auto simp: bindE_Inr split: if_splits)
    show ?thesis
    proof (cases ok)
      case False
      then show ?thesis using 1(1)[OF True ok(1)] ok(2) True by simp
    qed (use ok(2) 1(3) in simp)
  next
    case False
    then show ?thesis using 1(2,3) lowerAligned.simps[of dimSize alignment n] by simp
  qed
qed

lemma dimMinus_ok:
  assumes "dimMinus S n d = Inr n'" "numbersOk r D n" "d < length n \<Longrightarrow> 1 < n ! d"
  shows "numbersOk r D n'"
proof -
  have "1 \<le> n' ! d" if d: "d < length n"
  proof (cases "d = hwAlignDim S \<and> hwAlignment S \<noteq> 1")
    case True
    then obtain k where "lowerAligned (hwShape S ! d) (hwAlignment S) (n ! d - 1) = Inr k" "n' = n[d := k]"
      using assms(1) by (auto simp: dimMinus_def bindE_Inr)
    then show ?thesis using lowerAligned_pos[of _ _ "n ! d - 1"] assms(3)[OF d] d by simp
  next
    case False
    then show ?thesis using assms(1) assms(3)[OF d] d by (auto simp: dimMinus_def)
  qed
  then have "numbersOk r D (n[d := n' ! d])" using assms(2) by (intro numbersOk_update[OF assms(2)]) (simp add: numbersOk_def)
  then show ?thesis using dimMinus_out[OF assms(1)] by metis
qed

lemma lowerToCompatible_ok: "lowerToCompatible S d n = Inr n' \<Longrightarrow> numbersOk r D n \<Longrightarrow> numbersOk r D n'"
proof (induction S d n rule: lowerToCompatible.induct)
  case (1 S d n)
  show ?case
  proof (cases "d < length n \<and> n ! d > 1")
    case True
    note run = 1(2)[unfolded lowerToCompatible.simps[of S d n] if_P[OF True]]
    then obtain ok where ok: "ifDivided (hwOp S) n (hwShape S) (isMultiClusterCompatibleForTiling (hwIface S)) = Inr ok"
      "if ok then n = n' else bindE (dimMinus S n d) (lowerToCompatible S d) = Inr n'"
      by (auto simp: bindE_Inr split: if_splits)
    show ?thesis
    proof (cases ok)
      case False
      then obtain m where m: "dimMinus S n d = Inr m" "lowerToCompatible S d m = Inr n'" using ok(2) by (auto simp: bindE_Inr)
      then show ?thesis using 1(1)[OF True ok(1) False m(1) m(2)] dimMinus_ok[OF m(1) 1(3)] True by simp
    qed (use ok(2) 1(3) in simp)
  next
    case False
    then show ?thesis using 1(2)[unfolded lowerToCompatible.simps[of S d n] if_not_P[OF False]] 1(3) by simp
  qed
qed

lemma searchNextDim_ok:
  "searchNextDim S dims newTiles n = Inr n' \<Longrightarrow> numbersOk r (set dims) newTiles \<Longrightarrow> numbersOk r UNIV n \<Longrightarrow> numbersOk r UNIV n'"
proof (induction S dims newTiles n rule: searchNextDim.induct)
  case (2 S d rest newTiles n)
  obtain t ok where t: "checkSupportedTiling S newTiles d = Inr (t, ok)"
    and run: "(if ok then Inr (n[d := t ! d])
       else if \<not> isDimLeftToTile t (hwMax S) d then searchNextDim S rest t (n[d := t ! d])
       else if d < length t then bindE (dimPlus S t d) (\<lambda>m. searchNextDim S (d # rest) m n)
       else Inl WrongRank) = Inr n'"
    using 2(3) by (subst (asm) searchNextDim.simps) (auto simp: bindE_Inr)
  have tok: "numbersOk r (set (d # rest)) t" by (rule checkSupportedTiling_ok[OF t 2(4)])
  have upd: "numbersOk r UNIV (n[d := t ! d])" using tok by (intro numbersOk_update[OF 2(5)]) (simp add: numbersOk_def)
  consider "ok" | "\<not> ok" "\<not> isDimLeftToTile t (hwMax S) d" | "\<not> ok" "isDimLeftToTile t (hwMax S) d" "d < length t"
    using run by (auto split: if_splits)
  then show ?case
  proof cases
    case 1
    then show ?thesis using run upd by simp
  next
    case 2
    then show ?thesis using "2.IH"(1)[OF t refl] run upd numbersOk_mono[OF tok] by auto
  next
    case 3
    then obtain m where m: "dimPlus S t d = Inr m" "searchNextDim S (d # rest) m n = Inr n'" using run by (auto simp: bindE_Inr)
    show ?thesis using "2.IH"(2)[OF t refl 3(1) _ 3(3) m(1,2) dimPlus_ok[OF m(1) tok] "2.prems"(3)] 3(2) by simp
  qed
qed simp

lemma feasibleNextDim_ok:
  assumes "feasibleNextDim S dims n = Inr n'" "numbersOk r UNIV n" "distinct dims"
  shows "numbersOk r UNIV n'"
proof (cases "length dims \<le> 1")
  case True
  then show ?thesis using assms by (simp add: feasibleNextDim_def)
next
  case False
  then obtain d rest where dims: "dims = d # rest" by (cases dims) auto
  obtain t where t: "lowerToCompatible S d (n[d := hwMax S ! d]) = Inr t" "searchNextDim S rest t n = Inr n'"
    using assms(1) False dims by (auto simp: feasibleNextDim_def bindE_Inr)
  have "numbersOk r (set rest) (n[d := hwMax S ! d])"
    by (rule numbersOk_update[OF numbersOk_mono[OF assms(2) subset_UNIV]]) (use assms(3) dims in auto)
  from searchNextDim_ok[OF t(2) lowerToCompatible_ok[OF t(1) this] assms(2)] show ?thesis .
qed

lemma nextDimToTile_ok: "nextDimToTile S dims n = Inr (Some (ds, m)) \<Longrightarrow> numbersOk r D n \<Longrightarrow> numbersOk r D m"
  by (induction dims arbitrary: n) (auto simp: bindE_Inr split: if_splits dest: lowerToCompatible_ok)

lemma searchTiles_ok:
  "searchTiles S dims n = Inr (Some n') \<Longrightarrow> numbersOk r D n \<Longrightarrow> numbersOk r D n' \<and> hwSupported S n' (hwMode S) = Inr True"
proof (induction S dims n rule: searchTiles.induct)
  case (1 S dims n)
  have ne: "dims \<noteq> []" using 1(2) searchTiles.simps[of S dims n] by auto
  obtain t ok where t: "checkSupportedTiling S n (hd dims) = Inr (t, ok)"
    and run: "(if ok then Inr (Some t)
        else bindE (nextDimToTile S dims t) (\<lambda>r. case r of None \<Rightarrow> Inr None
          | Some (ds, m) \<Rightarrow> if hd ds < length m then bindE (dimPlus S m (hd ds)) (\<lambda>m'. searchTiles S ds m') else Inl WrongRank)) = Inr (Some n')"
    using 1(2) ne searchTiles.simps[of S dims n] by (auto simp: bindE_Inr)
  have tok: "numbersOk r D t" by (rule checkSupportedTiling_ok[OF t 1(3)])
  show ?case
  proof (cases ok)
    case True
    then show ?thesis using run tok t checkSupportedTiling_True by auto
  next
    case False
    then obtain x where x: "nextDimToTile S dims t = Inr x" "(case x of None \<Rightarrow> Inr None
        | Some (ds, m) \<Rightarrow> if hd ds < length m then bindE (dimPlus S m (hd ds)) (\<lambda>m'. searchTiles S ds m') else Inl WrongRank) = Inr (Some n')"
      using run by (auto simp: bindE_Inr)
    then obtain ds m m' where m: "nextDimToTile S dims t = Inr (Some (ds, m))" "hd ds < length m" "dimPlus S m (hd ds) = Inr m'" "searchTiles S ds m' = Inr (Some n')"
      by (cases x) (auto simp: bindE_Inr split: if_splits)
    show ?thesis
      by (rule "1.IH"[OF ne t refl False m(1) refl refl m(2,3,4) dimPlus_ok[OF m(3) nextDimToTile_ok[OF m(1) tok]]])
  qed
qed

lemma hwSupported_True:
  "hwSupported S n mode = Inr True \<longleftrightarrow> (\<exists>tiles. fillDividedTilesOfOp (hwOp S) n (hwShape S) = Inr tiles \<and>
     isMultiClusterCompatibleForTiling (hwIface S) tiles \<and> isSupportedTiling (hwIface S) tiles mode)"
  by (simp add: hwSupported_def isSupportedTileSizeForHWLayer_def ifDivided_True)

text \<open>Pipelining returns the isolated tiles or more tiles, accepted for pipelining.\<close>

lemma searchPipelining_result:
  "searchPipelining S n d isolatedTiles k = Inr tiles \<Longrightarrow>
     tiles = isolatedTiles \<or> (\<exists>j\<ge>k. hwSupported S (n[d := j]) PIPELINING = Inr True \<and> fillDividedTilesOfOp (hwOp S) (n[d := j]) (hwShape S) = Inr tiles)"
proof (induction S n d isolatedTiles k rule: searchPipelining.induct)
  case (1 S n d isolatedTiles k)
  obtain ok where ok: "hwSupported S (n[d := k]) PIPELINING = Inr ok"
    and run: "(if ok then fillDividedTilesOfOp (hwOp S) (n[d := k]) (hwShape S)
       else if k \<ge> maxPrefetchTilingTime * n ! d \<or> \<not> k < hwMax S ! d then Inr isolatedTiles
       else if d = hwAlignDim S \<and> hwAlignment S \<noteq> 1
       then (case nextAligned (hwShape S ! d) (hwAlignment S) (hwMax S ! d) k of
               Inl MlirFailure \<Rightarrow> Inr isolatedTiles
             | Inl e \<Rightarrow> Inl e
             | Inr k' \<Rightarrow> searchPipelining S n d isolatedTiles k')
       else searchPipelining S n d isolatedTiles (k + 1)) = Inr tiles"
    using 1(3) searchPipelining.simps[of S n d isolatedTiles k] by (auto simp: bindE_Inr)
  show ?case
  proof (cases ok)
    case True
    then show ?thesis using ok run by auto
  next
    case nok: False
    show ?thesis
    proof (cases "k \<ge> maxPrefetchTilingTime * n ! d \<or> \<not> k < hwMax S ! d")
      case True
      then show ?thesis using run nok by simp
    next
      case stop: False
      show ?thesis
      proof (cases "d = hwAlignDim S \<and> hwAlignment S \<noteq> 1")
        case al: True
        note r = run[unfolded if_not_P[OF nok] if_not_P[OF stop] if_P[OF al]]
        show ?thesis
        proof (cases "nextAligned (hwShape S ! d) (hwAlignment S) (hwMax S ! d) k")
          case (Inl e)
          then show ?thesis using r by (cases e) auto
        next
          case (Inr k')
          then have "k < k'" using nextAligned_gt by blast
          then show ?thesis using "1.IH"(1)[OF ok nok stop al Inr] r Inr by force
        qed
      next
        case al: False
        note r = run[unfolded if_not_P[OF nok] if_not_P[OF stop] if_not_P[OF al]]
        show ?thesis using "1.IH"(2)[OF ok nok stop al r] by force
      qed
    qed
  qed
qed

text \<open>
  What the strategy for hardware layers returns: a division compatible with the multi-cluster
  strategy and supported in the mode, for pipelining at least as isolated tiles; or, for
  prefetching only, the undivided output.
\<close>

definition hwResult :: "tiling_op \<Rightarrow> tiling_iface \<Rightarrow> shape \<Rightarrow> tiling_mode \<Rightarrow> tile_info list \<Rightarrow> bool" where
  "hwResult op I sh mode tiles \<longleftrightarrow>
     (\<exists>n. length n = length sh \<and> list_all (\<lambda>v. 1 \<le> v) n \<and> fillDividedTilesOfOp op n sh = Inr tiles \<and>
        (mode = PREFETCHING \<and> n = replicate (length sh) 1 \<or>
         isMultiClusterCompatibleForTiling I tiles \<and>
           (isSupportedTiling I tiles (if mode = PIPELINING then ISOLATED else mode) \<or> mode = PIPELINING \<and> isSupportedTiling I tiles PIPELINING)))"

lemma numbersOk_UNIV: "numbersOk r UNIV n \<longleftrightarrow> length n = r \<and> list_all (\<lambda>v. 1 \<le> v) n"
  by (auto simp: numbersOk_def list_all_length)

lemma hwStrategy_ok:
  assumes "getHWLayerTilingStrategyWithTileDimOrder op I sh mode order mt = Inr tiles" "distinct order"
  shows "hwResult op I sh mode tiles"
proof -
  let ?S = "mkHwSearch op I sh mode mt" and ?ones = "replicate (length sh) (1 :: int)"
  have S: "hwOp ?S = op" "hwIface ?S = I" "hwShape ?S = sh" "hwMode ?S = (if mode = PIPELINING then ISOLATED else mode)"
    by (simp_all add: mkHwSearch_def)
  obtain n1 r where n1: "feasibleNextDim ?S order ?ones = Inr n1" and r: "searchTiles ?S order n1 = Inr r"
    and res: "(case r of None \<Rightarrow> if hwMode ?S = ISOLATED then Inl MlirFailure else fillDividedTilesOfOp op ?ones sh
       | Some n \<Rightarrow> bindE (fillDividedTilesOfOp op n sh) (\<lambda>isolatedTiles.
            let dimsToTile = filter (\<lambda>i. n ! i > 1) [0..<length n]
            in if mode \<noteq> PIPELINING \<or> length dimsToTile > 1 then Inr isolatedTiles
               else let targetDim = (if dimsToTile = [] then actC else hd dimsToTile)
                    in searchPipelining ?S n targetDim isolatedTiles (n ! targetDim))) = Inr tiles"
    using assms(1) unfolding getHWLayerTilingStrategyWithTileDimOrder_def guardE_Inr Let_def[of "mkHwSearch op I sh mode mt"]
      Let_def[of "replicate (length sh) (1 :: int)"] bindE_Inr by blast
  have ones: "numbersOk (length sh) UNIV ?ones" by (simp add: numbersOk_def)
  show ?thesis
  proof (cases r)
    case None
    then have "mode = PREFETCHING" "fillDividedTilesOfOp op ?ones sh = Inr tiles" using res S(4) by (cases mode; simp)+
    then show ?thesis using ones[unfolded numbersOk_UNIV] unfolding hwResult_def by blast
  next
    case (Some n)
    have n: "numbersOk (length sh) UNIV n" "hwSupported ?S n (hwMode ?S) = Inr True"
      using searchTiles_ok[OF _ feasibleNextDim_ok[OF n1 ones assms(2)]] r Some by auto
    then obtain iso where iso: "fillDividedTilesOfOp op n sh = Inr iso" "isMultiClusterCompatibleForTiling I iso"
      "isSupportedTiling I iso (if mode = PIPELINING then ISOLATED else mode)"
      unfolding hwSupported_True S by blast
    have whole: "hwResult op I sh mode iso" unfolding hwResult_def using n(1)[unfolded numbersOk_UNIV] iso by blast
    show ?thesis
    proof (cases "tiles = iso")
      case False
      then obtain d where p: "mode = PIPELINING" "searchPipelining ?S n d iso (n ! d) = Inr tiles"
        using res Some iso(1) by (auto simp: Let_def split: if_splits)
      from searchPipelining_result[OF p(2)] False obtain j where j: "n ! d \<le> j" "hwSupported ?S (n[d := j]) PIPELINING = Inr True" "fillDividedTilesOfOp op (n[d := j]) sh = Inr tiles"
        unfolding S by blast
      have "numbersOk (length sh) UNIV (n[d := j])" using n(1) j(1) by (intro numbersOk_update) (auto simp: numbersOk_def)
      then show ?thesis using j p(1) unfolding hwResult_def hwSupported_True S numbersOk_UNIV
        by (intro exI[of _ "n[d := j]"]) auto
    qed (use whole in simp)
  qed
qed

section \<open>Limits and orders\<close>

text \<open>
  The number of clusters for a split over the kernel is the largest one that divides the channels
  evenly; when the channels are no multiple of the smallest channel size, the loop runs into a
  division by zero.
\<close>

lemma clustersForSOK_exact:
  assumes "0 < minC" "0 \<le> channels"
  shows "case clustersForSOK channels minC n of
      Inr k \<Rightarrow> 1 \<le> k \<and> k \<le> n \<and> minC * int k dvd channels \<and> (\<forall>j. k < j \<longrightarrow> j \<le> n \<longrightarrow> \<not> minC * int j dvd channels)
    | Inl e \<Rightarrow> e = DivisionByZero \<and> (\<forall>j. 1 \<le> j \<longrightarrow> j \<le> n \<longrightarrow> \<not> minC * int j dvd channels)"
proof (induction n)
  case (Suc n)
  have m: "channels smod (minC * int (Suc n)) = channels mod (minC * int (Suc n))" using assms by (intro smod_nonneg) simp_all
  show ?case
  proof (cases "minC * int (Suc n) dvd channels")
    case True
    then show ?thesis using m assms(1) by (simp add: dvd_eq_mod_eq_0 del: of_nat_Suc)
  next
    case False
    then have "clustersForSOK channels minC (Suc n) = clustersForSOK channels minC n" using m assms(1) by (simp add: dvd_eq_mod_eq_0 del: of_nat_Suc)
    then show ?thesis using Suc.IH False by (cases "clustersForSOK channels minC n") (auto simp: le_Suc_eq simp del: of_nat_Suc)
  qed
qed simp

lemma clustersForSOK_division_by_zero:
  assumes "0 < minC" "0 \<le> channels" "\<not> minC dvd channels"
  shows "clustersForSOK channels minC n = Inl DivisionByZero"
  using clustersForSOK_exact[OF assms(1,2), of n] assms(3) by (cases "clustersForSOK channels minC n") (auto dest: dvd_mult_left)

text \<open>
  The order of the dimensions by size: every dimension of a size above 1 once, by descending size.
\<close>

lemma findFirst_at: "v \<in> set xs \<Longrightarrow> findFirst v xs < length xs \<and> xs ! findFirst v xs = v"
  by (induction xs) auto

lemma takeDims_positions:
  assumes "mset (filter (\<lambda>v. v > 1) its) \<subseteq># mset ms"
  shows "\<exists>P. takeDims its ms perm = map ((!) perm) P \<and> distinct P \<and> set P \<subseteq> {i. i < length ms \<and> ms ! i > 1} \<and> map ((!) ms) P = filter (\<lambda>v. v > 1) its"
  using assms
proof (induction its arbitrary: ms)
  case (Cons it rest)
  show ?case
  proof (cases "it > 1")
    case True
    let ?i = "findFirst it ms"
    have sub: "add_mset it (mset (filter (\<lambda>v. v > 1) rest)) \<subseteq># mset ms" using Cons.prems True by simp
    then have "it \<in> set ms" by (metis insert_subset_eq_iff set_mset_mset)
    then have i: "?i < length ms" "ms ! ?i = it" using findFirst_at by blast+
    have "mset (filter (\<lambda>v. v > 1) rest) \<subseteq># mset ms - {#it#}" using sub by (simp add: insert_subset_eq_iff)
    also have "\<dots> \<subseteq># mset (ms[?i := 0])" using i by (simp add: mset_update)
    finally obtain P where P: "takeDims rest (ms[?i := 0]) perm = map ((!) perm) P" "distinct P" "set P \<subseteq> {i. i < length (ms[?i := 0]) \<and> ms[?i := 0] ! i > 1}"
      "map ((!) (ms[?i := 0])) P = filter (\<lambda>v. v > 1) rest"
      using Cons.IH by blast
    have notin: "?i \<notin> set P" using P(3) i(1) by auto
    have same: "map ((!) (ms[?i := 0])) P = map ((!) ms) P" using notin by (intro map_cong refl nth_list_update_neq) auto
    have inside: "set P \<subseteq> {i. i < length ms \<and> ms ! i > 1}"
    proof
      fix j
      assume "j \<in> set P"
      then show "j \<in> {i. i < length ms \<and> ms ! i > 1}" using P(3) notin by (cases "j = ?i") auto
    qed
    show ?thesis using P notin same inside i True by (intro exI[of _ "?i # P"]) auto
  next
    case False
    then show ?thesis using Cons by simp
  qed
qed simp

lemma getTileDimOrderND_exact:
  assumes "perm = toPermutation order" "distinct perm" "length perm = length memShape"
  shows "distinct (getTileDimOrderND memShape order)"
    and "set (getTileDimOrderND memShape order) = {perm ! i |i. i < length memShape \<and> memShape ! i > 1}"
    and "\<exists>P. getTileDimOrderND memShape order = map ((!) perm) P \<and> sorted (rev (map ((!) memShape) P))"
proof -
  let ?big = "{i. i < length memShape \<and> memShape ! i > 1}"
  have "mset (filter (\<lambda>v. v > 1) (rev (sort memShape))) \<subseteq># mset memShape" by (simp add: multiset_filter_subset)
  from takeDims_positions[OF this] obtain P where P: "getTileDimOrderND memShape order = map ((!) perm) P" "distinct P" "set P \<subseteq> ?big"
    "map ((!) memShape) P = filter (\<lambda>v. v > 1) (rev (sort memShape))"
    unfolding getTileDimOrderND_def assms(1) by blast
  have "card (set P) = length (filter (\<lambda>v. v > 1) (rev (sort memShape)))" using P(2,4) by (metis distinct_card length_map)
  also have "\<dots> = size (mset (filter (\<lambda>v. v > 1) memShape))" by (metis mset_filter mset_rev mset_sort size_mset)
  also have "\<dots> = card ?big" by (simp only: size_mset length_filter_conv_card)
  finally have set: "set P = ?big" using card_subset_eq[of ?big "set P"] P(3) by simp
  have inj: "inj_on ((!) perm) (set P)" using P(3) assms(2,3) by (intro inj_on_nth) auto
  show "distinct (getTileDimOrderND memShape order)" using P(1,2) inj by (simp add: distinct_map)
  show "set (getTileDimOrderND memShape order) = {perm ! i |i. i < length memShape \<and> memShape ! i > 1}" using P(1) set by auto
  have "sorted (rev (filter (\<lambda>v. v > 1) (rev (sort memShape))))" by (simp add: rev_filter sorted_wrt_filter)
  then show "\<exists>P. getTileDimOrderND memShape order = map ((!) perm) P \<and> sorted (rev (map ((!) memShape) P))" using P(1,4) by metis
qed

end
