(* ===== verification/Tile_Pad_Correct.thy ===== *)
theory Tile_Pad_Correct
  imports Tile_Inference_Correct
begin

text \<open>
  The tiles of a Pad operation read the elements the whole operation reads, and pad where it pads.
\<close>

section \<open>Pad\<close>

text \<open>One dimension of \<open>padTileDim\<close>.\<close>

definition padNewSize :: "tile_info \<Rightarrow> shape \<Rightarrow> shape \<Rightarrow> shape \<Rightarrow> shape \<Rightarrow> nat \<Rightarrow> int" where
  "padNewSize t inSh outSh pb pe d =
     (if tileAxis t ! d = 1 then inSh ! d
      else tileShape t ! d - (if tileOffsets t ! d = 0 then pb ! d else 0) - (if tileOffsets t ! d + tileShape t ! d = outSh ! d then pe ! d else 0))"

definition padNewOffset :: "tile_info \<Rightarrow> shape \<Rightarrow> nat \<Rightarrow> int" where
  "padNewOffset t pb d = (if tileOffsets t ! d \<noteq> 0 then tileOffsets t ! d - pb ! d else 0)"

lemma padTile_dims:
  assumes "foldE (padTileDim t inSh outSh pb pe) [0..<n] t = Inr it" "tileOfRank r t" "n \<le> r"
  shows "tileOfRank r it \<and> (\<forall>d<n. tileShape it ! d = padNewSize t inSh outSh pb pe d \<and> tileOffsets it ! d = padNewOffset t pb d \<and>
      0 < padNewSize t inSh outSh pb pe d \<and> padNewOffset t pb d < inSh ! d) \<and>
    (\<forall>d. n \<le> d \<longrightarrow> tileShape it ! d = tileShape t ! d \<and> tileOffsets it ! d = tileOffsets t ! d) \<and> tileAxis it = tileAxis t"
  using assms(1,3)
proof (induction n arbitrary: it)
  case 0
  then show ?case using assms(2) by simp
next
  case (Suc n)
  then obtain jt where j: "foldE (padTileDim t inSh outSh pb pe) [0..<n] t = Inr jt" "padTileDim t inSh outSh pb pe n jt = Inr it"
    by (auto simp: foldE_append bindE_Inr)
  note IH = Suc.IH[OF j(1)]
  have n: "n < r" using Suc.prems(2) by simp
  from j(2) IH n have "it = setTile n (padNewSize t inSh outSh pb pe n) (padNewOffset t pb n) (tileAxis t ! n) jt"
    and "0 < padNewSize t inSh outSh pb pe n" "padNewOffset t pb n < inSh ! n"
    by (auto simp: padTileDim_def Let_def guardE_Inr padNewSize_def padNewOffset_def split: if_splits)
  then show ?case using IH n by (auto simp: setTile_def tileOfRank_def less_Suc_eq)
qed

text \<open>The pads of the tiled operation.\<close>

lemma padAttrs_dims:
  assumes "updatePadOpAttrsAfterTiling outSh t pb pe = (pb', pe')" "length pb = length outSh" "length pe = length outSh"
  shows "length pb' = length outSh" "length pe' = length outSh"
    and "d < length outSh \<Longrightarrow> pb' ! d = (if tileAxis t ! d = 1 then pb ! d else if tileOffsets t ! d < pb ! d then pb ! d - tileOffsets t ! d else 0)"
    and "d < length outSh \<Longrightarrow> pe' ! d = (if tileAxis t ! d = 1 \<or> tileOffsets t ! d + tileShape t ! d = outSh ! d then pe ! d else 0)"
proof -
  let ?f = "\<lambda>ind (pb, pe). if tileAxis t ! ind = 1 then (pb, pe)
       else (pb[ind := if tileOffsets t ! ind < pb ! ind then pb ! ind - tileOffsets t ! ind else 0],
             if tileOffsets t ! ind + tileShape t ! ind \<noteq> outSh ! ind then pe[ind := 0] else pe)"
  have "length (fst r) = length outSh \<and> length (snd r) = length outSh \<and>
      (\<forall>d<length outSh. fst r ! d = (if n \<le> d \<or> tileAxis t ! d = 1 then pb ! d else if tileOffsets t ! d < pb ! d then pb ! d - tileOffsets t ! d else 0) \<and>
        snd r ! d = (if n \<le> d \<or> tileAxis t ! d = 1 \<or> tileOffsets t ! d + tileShape t ! d = outSh ! d then pe ! d else 0))"
    if "r = fold ?f [0..<n] (pb, pe)" "n \<le> length outSh" for n r
    using that
  proof (induction n arbitrary: r)
    case 0
    then show ?case using assms(2,3) by simp
  next
    case (Suc n)
    obtain x y where xy: "fold ?f [0..<n] (pb, pe) = (x, y)" by (cases "fold ?f [0..<n] (pb, pe)")
    have n: "n < length outSh" using Suc.prems(2) by simp
    note IH = Suc.IH[OF xy[symmetric] less_imp_le[OF n], simplified]
    have r: "r = ?f n (x, y)" using Suc.prems xy by simp
    have "fst r ! d = (if Suc n \<le> d \<or> tileAxis t ! d = 1 then pb ! d else if tileOffsets t ! d < pb ! d then pb ! d - tileOffsets t ! d else 0) \<and>
        snd r ! d = (if Suc n \<le> d \<or> tileAxis t ! d = 1 \<or> tileOffsets t ! d + tileShape t ! d = outSh ! d then pe ! d else 0)"
      if d: "d < length outSh" for d
    proof (cases "d = n")
      case True
      then show ?thesis using IH n unfolding r by simp
    next
      case False
      then have "Suc n \<le> d \<longleftrightarrow> n \<le> d" by auto
      then show ?thesis using IH d False unfolding r by simp
    qed
    moreover have "length (fst r) = length outSh \<and> length (snd r) = length outSh" using IH unfolding r by simp
    ultimately show ?case by blast
  qed
  from this[of "(pb', pe')" "length outSh"] assms(1)
  show "length pb' = length outSh" "length pe' = length outSh"
    "d < length outSh \<Longrightarrow> pb' ! d = (if tileAxis t ! d = 1 then pb ! d else if tileOffsets t ! d < pb ! d then pb ! d - tileOffsets t ! d else 0)"
    "d < length outSh \<Longrightarrow> pe' ! d = (if tileAxis t ! d = 1 \<or> tileOffsets t ! d + tileShape t ! d = outSh ! d then pe ! d else 0)"
    by (auto simp: updatePadOpAttrsAfterTiling_def)
qed

text \<open>
  The value of Pad at an output element, in the four modes of \<open>IE::PadMode\<close>. Along one dimension
  an output index, counted from the first element of the input, is filled or has a source:
  \<open>ModeEdge\<close> repeats the outermost element, \<open>ModeReflect\<close> mirrors at it and \<open>ModeSymmetric\<close>
  mirrors it too. \<open>PadOutside\<close> is a read outside of the input, which is no value of Pad.
\<close>

datatype pad_mode = ModeConstant | ModeEdge | ModeReflect | ModeSymmetric

datatype 'v pad_value = PadFill | PadElem 'v | PadOutside

definition padSource :: "pad_mode \<Rightarrow> int \<Rightarrow> int \<Rightarrow> int" where
  "padSource mode n i =
     (if 0 \<le> i \<and> i < n then i
      else case mode of
        ModeConstant \<Rightarrow> i
      | ModeEdge \<Rightarrow> (if i < 0 then 0 else n - 1)
      | ModeReflect \<Rightarrow> (if i < 0 then - i else 2 * (n - 1) - i)
      | ModeSymmetric \<Rightarrow> (if i < 0 then - i - 1 else 2 * n - 1 - i))"

definition padAt :: "pad_mode \<Rightarrow> (int list \<Rightarrow> 'v) \<Rightarrow> shape \<Rightarrow> shape \<Rightarrow> int list \<Rightarrow> 'v pad_value" where
  "padAt mode T inSh pb x =
     (let src = map2 (padSource mode) inSh (map2 (-) x pb)
      in if insideShape inSh src then PadElem (T src) else if mode = ModeConstant then PadFill else PadOutside)"

text \<open>The pads a mode allows: mirroring needs as many elements as it pads.\<close>

definition padModeOk :: "pad_mode \<Rightarrow> shape \<Rightarrow> shape \<Rightarrow> shape \<Rightarrow> bool" where
  "padModeOk mode inSh pb pe \<longleftrightarrow>
     (mode = ModeReflect \<longrightarrow> list_all2 (<) pb inSh \<and> list_all2 (<) pe inSh) \<and>
     (mode = ModeSymmetric \<longrightarrow> list_all2 (\<le>) pb inSh \<and> list_all2 (\<le>) pe inSh)"

text \<open>
  A tile may not begin inside the padding before the data, or end inside the padding after it,
  unless it begins or ends with the output.
\<close>

definition cutsPads :: "tile_info \<Rightarrow> shape \<Rightarrow> shape \<Rightarrow> shape \<Rightarrow> nat \<Rightarrow> bool" where
  "cutsPads t inSh outSh pb d \<longleftrightarrow>
     \<not> ((tileOffsets t ! d = 0 \<or> pb ! d \<le> tileOffsets t ! d) \<and>
        (tileOffsets t ! d + tileShape t ! d = outSh ! d \<or> tileOffsets t ! d + tileShape t ! d \<le> inSh ! d + pb ! d))"

definition paddedShape :: "shape \<Rightarrow> shape \<Rightarrow> shape \<Rightarrow> shape \<Rightarrow> bool" where
  "paddedShape inSh pb pe outSh \<longleftrightarrow> length inSh = length outSh \<and> length pb = length outSh \<and> length pe = length outSh \<and>
     (\<forall>d<length outSh. 0 \<le> pb ! d \<and> 0 \<le> pe ! d \<and> outSh ! d = inSh ! d + pb ! d + pe ! d)"

text \<open>One dimension: the sources of a tile of size \<open>m\<close> at offset \<open>off\<close> are those of the whole.\<close>

lemma padSource_tile:
  assumes "0 \<le> off" "0 < m" "off + m \<le> n" "pb = 0 \<or> off = 0" "pe = 0 \<or> off + m = n"
    and "- pb \<le> i" "i < m + pe" "0 \<le> pb" "0 \<le> pe"
    and "mode = ModeReflect \<Longrightarrow> pb < m \<and> pe < m" "mode = ModeSymmetric \<Longrightarrow> pb \<le> m \<and> pe \<le> m"
  shows "off + padSource mode m i = padSource mode n (i + off) \<and>
    (0 \<le> padSource mode m i \<and> padSource mode m i < m \<longleftrightarrow> 0 \<le> padSource mode n (i + off) \<and> padSource mode n (i + off) < n) \<and>
    (mode \<noteq> ModeConstant \<longrightarrow> 0 \<le> padSource mode m i \<and> padSource mode m i < m)"
proof -
  consider "0 \<le> i" "i < m" | "i < 0" | "m \<le> i" by linarith
  then show ?thesis
  proof cases
    case 1
    then show ?thesis using assms by (simp add: padSource_def)
  next
    case 2
    then have "off = 0" using assms(4,6) by auto
    then show ?thesis using 2 assms by (cases mode) (auto simp: padSource_def)
  next
    case 3
    then have "n = off + m" using assms(5,7) by auto
    then show ?thesis using 3 assms by (cases mode) (auto simp: padSource_def)
  qed
qed

lemma pad_tile:
  assumes "backInferPadTile t inSh outSh pb pe = Inr r" "updatePadOpAttrsAfterTiling outSh t pb pe = (pb', pe')"
    and "tileOf outSh t" "paddedShape inSh pb pe outSh" "\<And>d. d < length outSh \<Longrightarrow> \<not> cutsPads t inSh outSh pb d"
    and "r = \<lparr>inputTiles = [it], inputPads = None\<rparr>"
  shows "d < length outSh \<Longrightarrow> 0 \<le> tileOffsets it ! d \<and> 0 < tileShape it ! d \<and> tileOffsets it ! d + tileShape it ! d \<le> inSh ! d"
    and "d < length outSh \<Longrightarrow> tileShape it ! d + pb' ! d + pe' ! d = tileShape t ! d"
    and "insideShape (tileShape t) x \<Longrightarrow> padModeOk mode (tileShape it) pb' pe' \<Longrightarrow>
      padAt mode (tileSlice it T) (tileShape it) pb' x = padAt mode T inSh pb (map2 (+) (tileOffsets t) x) \<and>
      padAt mode (tileSlice it T) (tileShape it) pb' x \<noteq> PadOutside"
proof -
  note len = assms(4)[unfolded paddedShape_def]
  have rank: "tileOfRank (length outSh) t" using assms(3) by (simp add: tileOf_def)
  have it: "foldE (padTileDim t inSh outSh pb pe) [0..<length inSh] t = Inr it" using assms(1,6) by (auto simp: backInferPadTile_def bindE_Inr)
  note dims = padTile_dims[OF it rank] and attrs = padAttrs_dims[OF assms(2)]
  have d: "0 \<le> tileOffsets it ! d \<and> 0 < tileShape it ! d \<and> tileOffsets it ! d + tileShape it ! d \<le> inSh ! d \<and>
      tileShape it ! d + pb' ! d + pe' ! d = tileShape t ! d \<and>
      (pb' ! d = 0 \<or> tileOffsets it ! d = 0) \<and> (pe' ! d = 0 \<or> tileOffsets it ! d + tileShape it ! d = inSh ! d) \<and>
      0 \<le> pb' ! d \<and> 0 \<le> pe' ! d \<and> (tileOffsets it ! d - pb' ! d = tileOffsets t ! d - pb ! d)" if "d < length outSh" for d
  proof -
    have it_d: "tileShape it ! d = padNewSize t inSh outSh pb pe d" "tileOffsets it ! d = padNewOffset t pb d" "0 < padNewSize t inSh outSh pb pe d"
      using dims len that by auto
    have at: "pb' ! d = (if tileAxis t ! d = 1 then pb ! d else if tileOffsets t ! d < pb ! d then pb ! d - tileOffsets t ! d else 0)"
      "pe' ! d = (if tileAxis t ! d = 1 \<or> tileOffsets t ! d + tileShape t ! d = outSh ! d then pe ! d else 0)"
      using attrs that len by auto
    have t: "0 \<le> tileOffsets t ! d" "0 < tileShape t ! d" "tileOffsets t ! d + tileShape t ! d \<le> outSh ! d"
      "tileAxis t ! d = 1 \<Longrightarrow> tileOffsets t ! d = 0 \<and> tileShape t ! d = outSh ! d"
      using assms(3) that by (simp_all add: tileOf_def)
    have p: "0 \<le> pb ! d" "0 \<le> pe ! d" "outSh ! d = inSh ! d + pb ! d + pe ! d" using len that by auto
    note c = assms(5)[OF that, unfolded cutsPads_def not_not]
    show ?thesis
    proof (cases "tileAxis t ! d = 1")
      case True
      then show ?thesis using it_d at t p by (auto simp: padNewSize_def padNewOffset_def)
    next
      case False
      then show ?thesis using it_d at t(1-3) p c by (auto simp: padNewSize_def padNewOffset_def split: if_splits)
    qed
  qed
  show "0 \<le> tileOffsets it ! d \<and> 0 < tileShape it ! d \<and> tileOffsets it ! d + tileShape it ! d \<le> inSh ! d"
    "tileShape it ! d + pb' ! d + pe' ! d = tileShape t ! d" if "d < length outSh" for d
    using d that by auto
  show "padAt mode (tileSlice it T) (tileShape it) pb' x = padAt mode T inSh pb (map2 (+) (tileOffsets t) x) \<and>
      padAt mode (tileSlice it T) (tileShape it) pb' x \<noteq> PadOutside"
    if x: "insideShape (tileShape t) x" and ok: "padModeOk mode (tileShape it) pb' pe'"
  proof -
    have L: "length x = length outSh" "length (tileShape it) = length outSh" "length (tileOffsets it) = length outSh" "length (tileOffsets t) = length outSh"
      "length pb' = length outSh" "length pe' = length outSh" "length pb = length outSh" "length inSh = length outSh"
      using x rank dims len attrs by (auto simp: insideShape_def tileOfRank_def)
    let ?src = "map2 (padSource mode) (tileShape it) (map2 (-) x pb')"
      and ?all = "map2 (padSource mode) inSh (map2 (-) (map2 (+) (tileOffsets t) x) pb)"
    have one: "tileOffsets it ! e + ?src ! e = ?all ! e \<and>
        (0 \<le> ?src ! e \<and> ?src ! e < tileShape it ! e \<longleftrightarrow> 0 \<le> ?all ! e \<and> ?all ! e < inSh ! e) \<and>
        (mode \<noteq> ModeConstant \<longrightarrow> 0 \<le> ?src ! e \<and> ?src ! e < tileShape it ! e)" if e: "e < length outSh" for e
    proof -
      have y: "0 \<le> x ! e" "x ! e < tileShape t ! e" using x rank e by (auto simp: insideShape_def tileOfRank_def)
      have m: "mode = ModeReflect \<Longrightarrow> pb' ! e < tileShape it ! e \<and> pe' ! e < tileShape it ! e"
        "mode = ModeSymmetric \<Longrightarrow> pb' ! e \<le> tileShape it ! e \<and> pe' ! e \<le> tileShape it ! e"
        using ok e L by (auto simp: padModeOk_def list_all2_conv_all_nth)
      have src: "?src ! e = padSource mode (tileShape it ! e) (x ! e - pb' ! e)"
        "?all ! e = padSource mode (inSh ! e) (x ! e - pb' ! e + tileOffsets it ! e)"
      proof -
        have "x ! e - pb' ! e + tileOffsets it ! e = tileOffsets t ! e + x ! e - pb ! e" using d[OF e] by linarith
        from arg_cong[OF this, of "padSource mode (inSh ! e)"]
        show "?all ! e = padSource mode (inSh ! e) (x ! e - pb' ! e + tileOffsets it ! e)" using e L by simp
      qed (use e L in simp)
      show ?thesis unfolding src
        by (rule padSource_tile[where pb = "pb' ! e" and pe = "pe' ! e"]) (use d[OF e] y m in auto)
    qed
    have in_iff: "insideShape (tileShape it) ?src \<longleftrightarrow> insideShape inSh ?all" using one L by (auto simp: insideShape_def)
    have "map2 (+) (tileOffsets it) ?src = ?all" by (rule nth_equalityI) (use one L in auto)
    moreover have "mode \<noteq> ModeConstant \<Longrightarrow> insideShape (tileShape it) ?src" using one L by (auto simp: insideShape_def)
    ultimately show ?thesis unfolding padAt_def Let_def in_iff by (simp add: tileSlice_def)
  qed
qed

text \<open>
  No tile of a division cuts the padding when the inference succeeds for all of them: the tile
  before it or after it would have nothing but padding, which the inference refuses.
\<close>

lemma divided_neighbours:
  assumes "fillDividedTiles divisors sh alignment u = Inr tiles" "length divisors = length sh" "list_all (\<lambda>v. 1 \<le> v) divisors" "u \<Longrightarrow> length sh = 4"
    and "t \<in> set tiles" "d < length sh"
  shows "0 < tileOffsets t ! d \<Longrightarrow> \<exists>t'\<in>set tiles. tileOffsets t' ! d = 0 \<and> tileShape t' ! d \<le> tileOffsets t ! d"
    and "tileOffsets t ! d + tileShape t ! d < sh ! d \<Longrightarrow> \<exists>t'\<in>set tiles. tileOffsets t' ! d = tileOffsets t ! d + tileShape t ! d"
proof -
  note td = fillDividedTiles_tiles[OF assms(1-4), unfolded tilesDims_def]
  have to: "tileOf sh t" by (rule fillDividedTiles_tileOf(1)[OF assms(1-5)])
  have v: "1 \<le> divisors ! d" using assms(2,3,6) by (simp add: list_all_length)
  have piece: "pieceOf divisors sh (alignmentOf sh alignment) s d" if "s \<in> set tiles" for s using td that assms(6) by blast
  then obtain r i where r: "divideTileSizeAndInterval d divisors sh (alignmentOf sh alignment) = Inr (Some r)" "i < nat (divisors ! d)"
    "tileShape t ! d = pieceSize r i" "tileOffsets t ! d = pieceOffset r i"
    using assms(5) unfolding pieceOf_def by blast
  note dv = divide_ok(1)[OF r(1) v, unfolded dividesInto_def]
  note mono = pieceOffset_mono[of "nat (divisors ! d)" r, OF dv[THEN conjunct1, rule_format]]
  have cover: "\<exists>s\<in>set tiles. \<exists>j<nat (divisors ! d). tileShape s ! d = pieceSize r j \<and> tileOffsets s ! d = pieceOffset r j \<and>
      pieceOffset r j \<le> p \<and> p < pieceOffset r (Suc j)" if p: "0 \<le> p" "p < sh ! d" for p
  proof -
    let ?x = "(tileOffsets t)[d := p]"
    have "0 \<le> ?x ! e \<and> ?x ! e < sh ! e" if "e < length sh" for e
      using tileOf_dim[OF to that] to p that assms(6) by (cases "e = d") (auto simp: tileOf_def tileOfRank_def)
    then have "length (filter (\<lambda>s. \<forall>e\<in>{..<length sh}. coversDim ?x s e) tiles) = 1" using td by blast
    then obtain s where s: "s \<in> set tiles" "\<forall>e\<in>{..<length sh}. coversDim ?x s e" by (metis (no_types, lifting) filter_none zero_neq_one)
    then have "coversDim ?x s d" using assms(6) by blast
    then have "tileOffsets s ! d \<le> p" "p < tileOffsets s ! d + tileShape s ! d"
      using to assms(6) by (auto simp: coversDim_def tileOf_def tileOfRank_def)
    moreover obtain j where "j < nat (divisors ! d)" "tileShape s ! d = pieceSize r j" "tileOffsets s ! d = pieceOffset r j"
      using piece[OF s(1)] r(1) unfolding pieceOf_def by auto
    ultimately show ?thesis using s(1) by (intro bexI[of _ s] exI[of _ j]) auto
  qed
  show "\<exists>t'\<in>set tiles. tileOffsets t' ! d = 0 \<and> tileShape t' ! d \<le> tileOffsets t ! d" if pos: "0 < tileOffsets t ! d"
  proof -
    have "0 < sh ! d" using tileOf_dim[OF to assms(6)] by linarith
    then obtain s j where s: "s \<in> set tiles" "j < nat (divisors ! d)" "tileShape s ! d = pieceSize r j" "tileOffsets s ! d = pieceOffset r j" "pieceOffset r j \<le> 0" "0 < pieceOffset r (Suc j)"
      using cover[of 0] by blast
    have i: "0 < i" using pos r(4) by (cases i) auto
    have "\<not> 0 < j" using mono[of 1 j] s(2,5) dv by (cases j) (auto dest!: spec[of _ 0])
    then have "j = 0" by simp
    then show ?thesis using s(1,3,4) mono[of 1 i] i r(2,4) by auto
  qed
  show "\<exists>t'\<in>set tiles. tileOffsets t' ! d = tileOffsets t ! d + tileShape t ! d" if less: "tileOffsets t ! d + tileShape t ! d < sh ! d"
  proof -
    have e: "tileOffsets t ! d + tileShape t ! d = pieceOffset r (Suc i)" using r by simp
    have "0 \<le> tileOffsets t ! d + tileShape t ! d" using tileOf_dim[OF to assms(6)] by linarith
    then obtain s j where s: "s \<in> set tiles" "j < nat (divisors ! d)" "tileOffsets s ! d = pieceOffset r j" "pieceOffset r j \<le> pieceOffset r (Suc i)" "pieceOffset r (Suc i) < pieceOffset r (Suc j)"
      using cover[OF _ less] e by auto
    have "\<not> j \<le> i" using mono[of "Suc j" "Suc i"] s(5) r(2) by auto
    moreover have "\<not> Suc i < j"
    proof
      assume "Suc i < j"
      then have "pieceOffset r (Suc (Suc i)) \<le> pieceOffset r j" using mono[of "Suc (Suc i)" j] s(2) by auto
      moreover have "0 < pieceSize r (Suc i)" using dv \<open>Suc i < j\<close> s(2) by auto
      ultimately show False using s(4) by simp
    qed
    ultimately have "j = Suc i" by simp
    then show ?thesis using s(1,3) e by auto
  qed
qed

lemma divided_pads_not_cut:
  assumes "fillDividedTiles divisors outSh alignment u = Inr tiles" "length divisors = length outSh" "list_all (\<lambda>v. 1 \<le> v) divisors" "u \<Longrightarrow> length outSh = 4"
    and "paddedShape inSh pb pe outSh" "\<And>t. t \<in> set tiles \<Longrightarrow> \<exists>r. backInferPadTile t inSh outSh pb pe = Inr r"
    and "t \<in> set tiles" "d < length outSh"
  shows "\<not> cutsPads t inSh outSh pb d"
proof
  assume cut: "cutsPads t inSh outSh pb d"
  note len = assms(5)[unfolded paddedShape_def]
  have fact: "0 < padNewSize s inSh outSh pb pe d \<and> padNewOffset s pb d < inSh ! d" if "s \<in> set tiles" for s
  proof -
    have "tileOfRank (length outSh) s" using fillDividedTiles_tileOf(1)[OF assms(1-4) that] by (simp add: tileOf_def)
    moreover obtain it where "foldE (padTileDim s inSh outSh pb pe) [0..<length inSh] s = Inr it"
      using assms(6)[of s] \<open>s \<in> set tiles\<close> by (auto simp: backInferPadTile_def bindE_Inr)
    ultimately show ?thesis using padTile_dims[of s inSh outSh pb pe "length inSh" it "length outSh"] len assms(8) by auto
  qed
  have axis: "tileAxis s ! d = divisors ! d" if "s \<in> set tiles" for s using fillDividedTiles_tileOf(2)[OF assms(1-4) that] by simp
  note to = fillDividedTiles_tileOf(1)[OF assms(1-4,7)]
  have t: "0 \<le> tileOffsets t ! d" "tileOffsets t ! d + tileShape t ! d \<le> outSh ! d" using tileOf_dim[OF to assms(8)] by auto
  have d: "0 \<le> pb ! d" "0 \<le> pe ! d" "outSh ! d = inSh ! d + pb ! d + pe ! d" using len assms(8) by auto
  have one: "divisors ! d \<noteq> 1"
  proof
    assume "divisors ! d = 1"
    then have "tileOffsets t ! d = 0 \<and> tileShape t ! d = outSh ! d" using to axis[OF assms(7)] assms(8) by (simp add: tileOf_def)
    then show False using cut by (simp add: cutsPads_def)
  qed
  show False
  proof (cases "tileOffsets t ! d \<noteq> 0 \<and> tileOffsets t ! d < pb ! d")
    case True
    then obtain s where s: "s \<in> set tiles" "tileOffsets s ! d = 0" "tileShape s ! d \<le> tileOffsets t ! d"
      using divided_neighbours(1)[OF assms(1-4,7,8)] t by auto
    then have "padNewSize s inSh outSh pb pe d < 0" using True axis one d by (auto simp: padNewSize_def)
    then show False using fact[OF s(1)] by simp
  next
    case False
    then have e: "tileOffsets t ! d + tileShape t ! d < outSh ! d" "inSh ! d + pb ! d < tileOffsets t ! d + tileShape t ! d"
      using cut t by (auto simp: cutsPads_def)
    then obtain s where s: "s \<in> set tiles" "tileOffsets s ! d = tileOffsets t ! d + tileShape t ! d"
      using divided_neighbours(2)[OF assms(1-4,7,8)] by auto
    then have "inSh ! d < padNewOffset s pb d \<or> padNewOffset s pb d = 0 \<and> inSh ! d < 0" using e(2) d by (auto simp: padNewOffset_def)
    moreover have "0 < tileOffsets t ! d + tileShape t ! d" using tileOf_dim[OF to assms(8)] by linarith
    ultimately show False using fact[OF s(1)] s e(2) by (auto simp: padNewOffset_def)
  qed
qed

end
