(* ===== verification/Tiling_Properties.thy ===== *)
theory Tiling_Properties
  imports Tiling_Strategy_Correct Tile_Pad_Correct
begin

text \<open>
  The properties of tiling: the division of a shape, the inputs of the tiles, and the searches for
  the number of tiles.
\<close>

section \<open>Local coordinates\<close>

lemma local_coordinates:
  assumes "tileOf sh t" "insideShape sh x" "coversTile x t"
  shows "insideShape (tileShape t) (map2 (-) x (tileOffsets t))" "map2 (+) (tileOffsets t) (map2 (-) x (tileOffsets t)) = x"
proof -
  have len: "length x = length sh" "length (tileShape t) = length sh" "length (tileOffsets t) = length sh"
    using assms(1,2) by (simp_all add: tileOf_def tileOfRank_def insideShape_def)
  show "insideShape (tileShape t) (map2 (-) x (tileOffsets t))"
    using assms(3) len by (auto simp: insideShape_def coversTile_def coversDim_def)
  show "map2 (+) (tileOffsets t) (map2 (-) x (tileOffsets t)) = x" using len by (intro nth_equalityI) auto
qed

section \<open>Division\<close>

text \<open>
  C35: a shape is divided into the product of the divisors many tiles, all inside the shape, each of
  positive size in every dimension, carrying the divisors as their axes, and such that every element
  of the shape lies in exactly one of them; the division fails only if some dimension cannot be
  divided.
\<close>

theorem fillDividedTiles_partition:
  assumes "length divisors = length sh" "list_all (\<lambda>v. 1 \<le> v) divisors" "unrollSpatialFirst \<Longrightarrow> length sh = 4"
  shows "case fillDividedTiles divisors sh alignment unrollSpatialFirst of
      Inr tiles \<Rightarrow> int (length tiles) = (\<Prod>d<length sh. divisors ! d) \<and> isPartition sh tiles \<and> list_all (\<lambda>t. tileAxis t = divisors) tiles
    | Inl e \<Rightarrow> \<exists>d<length sh. \<not> dividable divisors sh (alignmentOf sh alignment) d"
proof (cases "fillDividedTiles divisors sh alignment unrollSpatialFirst")
  case (Inl e)
  then show ?thesis using fillDividedTiles_defined_iff[where alignment = alignment and u = unrollSpatialFirst, OF assms] by auto
next
  case (Inr tiles)
  then show ?thesis using fillDividedTiles_isPartition[OF Inr assms] fillDividedTiles_tileOf(2)[OF Inr assms] by (auto simp: list_all_iff)
qed

theorem fillDividedTiles_partition_witness:
  "case fillDividedTiles [1, 3, 2, 1] [1, 80, 7, 7] (Some [1, 16, 1, 1]) True of
      Inr tiles \<Rightarrow> int (length tiles) = (\<Prod>d<length ([1, 80, 7, 7] :: int list). [1, 3, 2, 1] ! d) \<and> isPartition [1, 80, 7, 7] tiles \<and>
        list_all (\<lambda>t. tileAxis t = [1, 3, 2, 1]) tiles
    | Inl e \<Rightarrow> \<exists>d<length ([1, 80, 7, 7] :: int list). \<not> dividable [1, 3, 2, 1] [1, 80, 7, 7] (alignmentOf [1, 80, 7, 7] (Some [1, 16, 1, 1])) d"
  by (rule fillDividedTiles_partition) simp_all

text \<open>Plain divisions, without alignment, evaluated by their divisors.\<close>

lemma plain_division:
  assumes "length divisors = length sh" "list_all2 (\<lambda>v s. 1 \<le> v \<and> v \<le> s) divisors sh"
  shows "\<exists>tiles. fillDividedTiles divisors sh None False = Inr tiles \<and> int (length tiles) = (\<Prod>d<length sh. divisors ! d)"
proof -
  have v: "list_all (\<lambda>v. 1 \<le> v) divisors" using assms(2) by (auto simp: list_all2_conv_all_nth list_all_length)
  have "dividable divisors sh (alignmentOf sh None) d" if "d < length sh" for d
    using assms(2) that by (auto simp: dividable_def divideTileSizeAndInterval_def alignmentOf_def Let_def list_all2_conv_all_nth)
  then obtain tiles where "fillDividedTiles divisors sh None False = Inr tiles"
    using fillDividedTiles_defined_iff[where alignment = None and u = False, OF assms(1) v] by auto
  then show ?thesis using fillDividedTiles_isPartition(2)[OF _ assms(1) v] by auto
qed

section \<open>Inputs of the tiles\<close>

text \<open>
  C36: a convolution may be tiled: every output element lies in exactly one tile, the inference of
  its inputs does not fail, the window fits so that the tile yields as many output elements as it
  should, and the convolution of the slices with the padding of the tile has the value of the whole
  convolution there.
\<close>

theorem conv_tiles_compute_conv:
  assumes "fillDividedTiles divisors outSh alignment u = Inr tiles" "length divisors = 4" "list_all (\<lambda>v. 1 \<le> v) divisors"
    and "length outSh = 4" "length inSh = 4" "length fSh = 4" "length strides = 2"
    and "outSh ! actN = inSh ! actN" "inSh ! actC = fSh ! filterIC" "bSh = (case B of None \<Rightarrow> [] | Some b \<Rightarrow> [1, fSh ! filterOC, 1, 1])"
    and "windowOk (inSh ! actH) (fSh ! filterKY) (strides ! kernelY) (padTop pads) (padBottom pads) (outSh ! actH)"
    and "windowOk (inSh ! actW) (fSh ! filterKX) (strides ! kernelX) (padLeft pads) (padRight pads) (outSh ! actW)"
    and "insideShape outSh x"
  shows "\<exists>t r pads'. (\<exists>!i. i < length tiles \<and> coversTile x (tiles ! i)) \<and> t \<in> set tiles \<and> coversTile x t \<and>
    backInferConvTile t inSh fSh bSh strides pads = Inr r \<and> inputPads r = Some pads' \<and>
    spatialOutputForInputWindowSize (tileShape (inputTiles r ! 0) ! actH, tileShape (inputTiles r ! 0) ! actW)
      [fSh ! filterKY, fSh ! filterKX] strides pads' = Inr (Some (tileShape t ! actH, tileShape t ! actW)) \<and>
    tiledConvolutionAt T F B strides r (map2 (-) x (tileOffsets t)) = convolutionAt T inSh F fSh B strides pads x"
proof -
  have len: "length divisors = length outSh" and u: "u \<Longrightarrow> length outSh = 4" using assms(2,4) by simp_all
  note part = fillDividedTiles_isPartition(1)[OF assms(1) len assms(3) u, unfolded isPartition_def]
  have once: "\<exists>!i. i < length tiles \<and> coversTile x (tiles ! i)" using part assms(13) by blast
  then obtain t where t: "t \<in> set tiles" "coversTile x t" by (metis nth_mem)
  have to: "tileOf outSh t" using part t(1) by blast
  note local = local_coordinates[OF to assms(13) t(2)]
  obtain r it pads' where r: "backInferConvTile t inSh fSh bSh strides pads = Inr r" "inputTiles r ! 0 = it" "inputPads r = Some pads'"
    "windowCount (tileShape it ! actH) (fSh ! filterKY) (strides ! kernelY) (padTop pads') (padBottom pads') = tileShape t ! actH"
    "windowCount (tileShape it ! actW) (fSh ! filterKX) (strides ! kernelX) (padLeft pads') (padRight pads') = tileShape t ! actW"
    "\<not> (padTop pads' < 0 \<or> padBottom pads' < 0 \<or> padLeft pads' < 0 \<or> padRight pads' < 0)"
    using backInferConvTile_total[OF to assms(4,5,11,12)] .
  have "0 < tileShape t ! actH" "0 < tileShape t ! actW" using tileOf_dim(2)[OF to] assms(4) by (simp_all add: dim_defs)
  then have "spatialOutputForInputWindowSize (tileShape it ! actH, tileShape it ! actW) [fSh ! filterKY, fSh ! filterKX] strides pads' =
      Inr (Some (tileShape t ! actH, tileShape t ! actW))"
    using outputSize_windowCount[of "[fSh ! filterKY, fSh ! filterKX]" strides pads'] assms(7,11,12) r(4-6)
    by (simp add: windowOk_def Let_def dim_defs)
  moreover have "tiledConvolutionAt T F B strides r (map2 (-) x (tileOffsets t)) = convolutionAt T inSh F fSh B strides pads x"
    using convolution_tile[OF r(1) to assms(4-6,8-10) local(1)] local(2) by simp
  ultimately show ?thesis using once t r by blast
qed

theorem conv_tiles_compute_conv_witness:
  "\<exists>tiles. fillDividedTiles [1, 2, 2, 1] [1, 4, 3, 3] None False = Inr tiles \<and>
    (\<exists>t r pads'. (\<exists>!i. i < length tiles \<and> coversTile [0, 3, 1, 2] (tiles ! i)) \<and> t \<in> set tiles \<and> coversTile [0, 3, 1, 2] t \<and>
      backInferConvTile t [1, 2, 6, 5] [4, 2, 3, 2] [1, 4, 1, 1] [2, 2] \<lparr>padLeft = 1, padRight = 0, padTop = 1, padBottom = 1\<rparr> = Inr r \<and>
      inputPads r = Some pads' \<and>
      spatialOutputForInputWindowSize (tileShape (inputTiles r ! 0) ! actH, tileShape (inputTiles r ! 0) ! actW)
        [[4, 2, 3, 2] ! filterKY, [4, 2, 3, 2] ! filterKX] [2, 2] pads' = Inr (Some (tileShape t ! actH, tileShape t ! actW)) \<and>
      tiledConvolutionAt sum_list (\<lambda>x. x ! 0) (Some (\<lambda>x. x ! 1)) [2, 2] r (map2 (-) [0, 3, 1, 2] (tileOffsets t)) =
        convolutionAt sum_list [1, 2, 6, 5] (\<lambda>x. x ! 0) [4, 2, 3, 2] (Some (\<lambda>x. x ! 1)) [2, 2]
          \<lparr>padLeft = 1, padRight = 0, padTop = 1, padBottom = 1\<rparr> [0, 3, 1, 2])"
proof -
  obtain tiles where tiles: "fillDividedTiles [1, 2, 2, 1] [1, 4, 3, 3] None False = Inr tiles"
    using plain_division[of "[1, 2, 2, 1]" "[1, 4, 3, 3]"] by auto
  show ?thesis
    by (rule exI[of _ tiles], rule conjI[OF tiles], rule conv_tiles_compute_conv[OF tiles])
      (simp_all add: windowOk_def windowCount_def insideShape4 dim_defs sdiv_nonneg)
qed

text \<open>
  C37: so may a pooling: the window of every output element holds the same values, and the same
  padding, in its tile as in the whole input.
\<close>

theorem pool_tiles_same_windows:
  assumes "fillDividedTiles divisors outSh alignment u = Inr tiles" "length divisors = 4" "list_all (\<lambda>v. 1 \<le> v) divisors"
    and "length outSh = 4" "length inSh = 4" "length ks = 2" "length strides = 2" "outSh ! actN = inSh ! actN" "outSh ! actC = inSh ! actC"
    and "windowOk (inSh ! actH) (ks ! kernelY) (strides ! kernelY) (padTop pads) (padBottom pads) (outSh ! actH)"
    and "windowOk (inSh ! actW) (ks ! kernelX) (strides ! kernelX) (padLeft pads) (padRight pads) (outSh ! actW)"
    and "insideShape outSh x"
  shows "\<exists>t r pads'. (\<exists>!i. i < length tiles \<and> coversTile x (tiles ! i)) \<and> t \<in> set tiles \<and> coversTile x t \<and>
    backInferPoolTile t inSh ks strides pads = Inr r \<and> inputPads r = Some pads' \<and>
    spatialOutputForInputWindowSize (tileShape (inputTiles r ! 0) ! actH, tileShape (inputTiles r ! 0) ! actW)
      ks strides pads' = Inr (Some (tileShape t ! actH, tileShape t ! actW)) \<and>
    tiledPoolWindow T ks strides r (map2 (-) x (tileOffsets t)) = poolWindow T inSh ks strides pads x"
proof -
  have len: "length divisors = length outSh" and u: "u \<Longrightarrow> length outSh = 4" using assms(2,4) by simp_all
  note part = fillDividedTiles_isPartition(1)[OF assms(1) len assms(3) u, unfolded isPartition_def]
  have once: "\<exists>!i. i < length tiles \<and> coversTile x (tiles ! i)" using part assms(12) by blast
  then obtain t where t: "t \<in> set tiles" "coversTile x t" by (metis nth_mem)
  have to: "tileOf outSh t" using part t(1) by blast
  note local = local_coordinates[OF to assms(12) t(2)]
  obtain r it pads' where r: "backInferPoolTile t inSh ks strides pads = Inr r" "inputTiles r ! 0 = it" "inputPads r = Some pads'"
    "windowCount (tileShape it ! actH) (ks ! kernelY) (strides ! kernelY) (padTop pads') (padBottom pads') = tileShape t ! actH"
    "windowCount (tileShape it ! actW) (ks ! kernelX) (strides ! kernelX) (padLeft pads') (padRight pads') = tileShape t ! actW"
    "\<not> (padTop pads' < 0 \<or> padBottom pads' < 0 \<or> padLeft pads' < 0 \<or> padRight pads' < 0)"
    using backInferPoolTile_total[OF to assms(4,5,10,11)] .
  have "0 < tileShape t ! actH" "0 < tileShape t ! actW" using tileOf_dim(2)[OF to] assms(4) by (simp_all add: dim_defs)
  then have "spatialOutputForInputWindowSize (tileShape it ! actH, tileShape it ! actW) ks strides pads' =
      Inr (Some (tileShape t ! actH, tileShape t ! actW))"
    using outputSize_windowCount[of ks strides pads'] assms(6,7,10,11) r(4-6) by (simp add: windowOk_def Let_def)
  moreover have "tiledPoolWindow T ks strides r (map2 (-) x (tileOffsets t)) = poolWindow T inSh ks strides pads x"
    using pool_tile[OF r(1) to assms(4,5,8,9) local(1)] local(2) by simp
  ultimately show ?thesis using once t r by blast
qed

theorem pool_tiles_same_windows_witness:
  "\<exists>tiles. fillDividedTiles [1, 1, 2, 2] [1, 4, 3, 3] None False = Inr tiles \<and>
    (\<exists>t r pads'. (\<exists>!i. i < length tiles \<and> coversTile [0, 3, 1, 2] (tiles ! i)) \<and> t \<in> set tiles \<and> coversTile [0, 3, 1, 2] t \<and>
      backInferPoolTile t [1, 4, 6, 5] [3, 2] [2, 2] \<lparr>padLeft = 1, padRight = 0, padTop = 1, padBottom = 1\<rparr> = Inr r \<and>
      inputPads r = Some pads' \<and>
      spatialOutputForInputWindowSize (tileShape (inputTiles r ! 0) ! actH, tileShape (inputTiles r ! 0) ! actW)
        [3, 2] [2, 2] pads' = Inr (Some (tileShape t ! actH, tileShape t ! actW)) \<and>
      tiledPoolWindow sum_list [3, 2] [2, 2] r (map2 (-) [0, 3, 1, 2] (tileOffsets t)) =
        poolWindow sum_list [1, 4, 6, 5] [3, 2] [2, 2] \<lparr>padLeft = 1, padRight = 0, padTop = 1, padBottom = 1\<rparr> [0, 3, 1, 2 :: int])"
proof -
  obtain tiles where tiles: "fillDividedTiles [1, 1, 2, 2] [1, 4, 3, 3] None False = Inr tiles"
    using plain_division[of "[1, 1, 2, 2]" "[1, 4, 3, 3]"] by auto
  show ?thesis
    by (rule exI[of _ tiles], rule conjI[OF tiles], rule pool_tiles_same_windows[OF tiles])
      (simp_all add: windowOk_def windowCount_def insideShape4 dim_defs sdiv_nonneg)
qed

text \<open>
  C38: Pad may be tiled when the inference succeeds for every tile: each tile reads a part of the
  input and its own padding (as \<open>updatePadOpAttrsAfterTiling\<close> leaves it) makes it as large as the
  output tile. In each of the four modes every element has the value of the whole Pad, provided
  the mode allows the pads of the tile: constant and edge padding always do, the mirroring modes
  need as many input elements in the tile as it pads, which the inference does not ask for
  (lemma \<open>reflect_tile_too_small\<close>).
\<close>

theorem pad_tiles_compute_pad:
  assumes "fillDividedTiles divisors outSh alignment u = Inr tiles" "length divisors = length outSh" "list_all (\<lambda>v. 1 \<le> v) divisors" "u \<Longrightarrow> length outSh = 4"
    and "paddedShape inSh pb pe outSh" "list_all (\<lambda>t. \<exists>r. backInferPadTile t inSh outSh pb pe = Inr r) tiles"
    and "t \<in> set tiles" "backInferPadTile t inSh outSh pb pe = Inr \<lparr>inputTiles = [it], inputPads = None\<rparr>"
    and "updatePadOpAttrsAfterTiling outSh t pb pe = (pb', pe')" "insideShape (tileShape t) x"
  shows "(padModeOk mode (tileShape it) pb' pe' \<longrightarrow>
      padAt mode (tileSlice it T) (tileShape it) pb' x = padAt mode T inSh pb (map2 (+) (tileOffsets t) x) \<and>
      padAt mode (tileSlice it T) (tileShape it) pb' x \<noteq> PadOutside) \<and>
    list_all (\<lambda>d. 0 \<le> tileOffsets it ! d \<and> 0 < tileShape it ! d \<and> tileOffsets it ! d + tileShape it ! d \<le> inSh ! d \<and>
      tileShape it ! d + pb' ! d + pe' ! d = tileShape t ! d) [0..<length outSh]"
proof -
  have inf: "\<And>t. t \<in> set tiles \<Longrightarrow> \<exists>r. backInferPadTile t inSh outSh pb pe = Inr r" using assms(6) by (auto simp: list_all_iff)
  have to: "tileOf outSh t" using fillDividedTiles_tileOf(1)[OF assms(1-4,7)] .
  have cut: "\<And>d. d < length outSh \<Longrightarrow> \<not> cutsPads t inSh outSh pb d"
    using divided_pads_not_cut[OF assms(1-5) inf assms(7)] by blast
  note p = pad_tile[OF assms(8,9) to assms(5) cut refl]
  show ?thesis using p(1,2) p(3)[OF _ assms(10), of mode T] by (auto simp: list_all_iff)
qed

text \<open>Reflection, two tiles along the second dimension; row 0 of the tile mirrors row 1.\<close>

theorem pad_tiles_compute_pad_witness:
  "padAt ModeReflect (tileSlice \<lparr>tileShape = [3, 3], tileOffsets = [0, 1], tileAxis = [1, 2], isCompletedTile = True\<rparr> id) [3, 3] [1, 0] [0, 2] =
     padAt ModeReflect id [3, 4] [1, 2] (map2 (+) [0, 3] [0, 2]) \<and>
   padAt ModeReflect id [3, 4] [1, 2] (map2 (+) [0, 3] [0, 2]) = PadElem [1, 3] \<and>
   list_all (\<lambda>d. (0::int) \<le> [0, 1] ! d \<and> (0::int) < [3, 3] ! d \<and> ([0, 1] ! d :: int) + [3, 3] ! d \<le> [3, 4] ! d \<and>
      ([3, 3] ! d :: int) + [1, 0] ! d + [1, 0] ! d = [5, 3] ! d) [0..<length ([5, 6] :: int list)]"
proof -
  let ?t = "\<lparr>tileShape = [5, 3], tileOffsets = [0, 3], tileAxis = [1, 2], isCompletedTile = True\<rparr>"
    and ?s = "\<lparr>tileShape = [5, 3], tileOffsets = [0, 0], tileAxis = [1, 2], isCompletedTile = True\<rparr>"
  have tiles: "fillDividedTiles [1, 2] [5, 6] None False = Inr [?s, ?t]" by code_simp
  have s: "backInferPadTile ?s [3, 4] [5, 6] [1, 2] [1, 0] = Inr \<lparr>inputTiles = [\<lparr>tileShape = [3, 1], tileOffsets = [0, 0], tileAxis = [1, 2], isCompletedTile = True\<rparr>], inputPads = None\<rparr>"
    by code_simp
  have t: "backInferPadTile ?t [3, 4] [5, 6] [1, 2] [1, 0] = Inr \<lparr>inputTiles = [\<lparr>tileShape = [3, 3], tileOffsets = [0, 1], tileAxis = [1, 2], isCompletedTile = True\<rparr>], inputPads = None\<rparr>"
    by code_simp
  have attrs: "updatePadOpAttrsAfterTiling [5, 6] ?t [1, 2] [1, 0] = ([1, 0], [1, 0])" by code_simp
  have shapes: "paddedShape [3, 4] [1, 2] [1, 0] [5, 6]" by (simp add: paddedShape_def less_Suc_eq numeral_eq_Suc)
  have inside: "insideShape (tileShape ?t) [0, 2]" by (simp add: insideShape_def less_Suc_eq numeral_eq_Suc)
  show ?thesis
    using pad_tiles_compute_pad[OF tiles _ _ _ shapes _ _ t attrs inside, of ModeReflect id] s t
    by (simp add: padModeOk_def padAt_def padSource_def insideShape_def less_Suc_eq numeral_eq_Suc)
qed

text \<open>
  Four elements with two reflected before them, output halved: the inference accepts both tiles,
  but the first has one input element and two to mirror.
\<close>

lemma reflect_tile_too_small:
  "fillDividedTiles [2] [6] None False = Inr
     [\<lparr>tileShape = [3], tileOffsets = [0], tileAxis = [2], isCompletedTile = True\<rparr>, \<lparr>tileShape = [3], tileOffsets = [3], tileAxis = [2], isCompletedTile = True\<rparr>]"
  "backInferPadTile \<lparr>tileShape = [3], tileOffsets = [0], tileAxis = [2], isCompletedTile = True\<rparr> [4] [6] [2] [0] =
     Inr \<lparr>inputTiles = [\<lparr>tileShape = [1], tileOffsets = [0], tileAxis = [2], isCompletedTile = True\<rparr>], inputPads = None\<rparr>"
  "\<not> isl (backInferPadTile \<lparr>tileShape = [3], tileOffsets = [3], tileAxis = [2], isCompletedTile = True\<rparr> [4] [6] [2] [0])"
  "padModeOk ModeReflect [4] [2] [0]" "padAt ModeReflect id [4] [2] [0] = PadElem [2]"
  "padAt ModeReflect (tileSlice \<lparr>tileShape = [1], tileOffsets = [0], tileAxis = [2], isCompletedTile = True\<rparr> id) [1] [2] [0] = PadOutside"
  by (code_simp | simp add: padModeOk_def padAt_def padSource_def insideShape_def)+

section \<open>Searches\<close>

text \<open>
  C39: the strategy for software layers ends on every input; what it returns is a partition of the
  output: the tiles of the first numbers within the limits that the operation supports, or a
  division of the same dimension into at most three times as many tiles (and one) that the shaves
  share evenly; and it only gives up when the finest division within the limits is not supported.
\<close>

theorem swStrategy_partition:
  assumes "length sh = 4" "op \<noteq> YuvToRgb" "list_all (\<lambda>d. d < length sh) order"
  shows "case getSWLayerTilingStrategyWithTileDimOrder op I sh mode order maxTiles of
      Inr tiles \<Rightarrow> isPartition sh tiles \<and> swResult op I sh (if maxTiles = [] then builderMaxNumTiles I else maxTiles) (set order) tiles
    | Inl e \<Rightarrow> e = FailedToTile \<longrightarrow> finestUnsupported op I sh (if maxTiles = [] then builderMaxNumTiles I else maxTiles) (set order)"
proof (cases "getSWLayerTilingStrategyWithTileDimOrder op I sh mode order maxTiles")
  case (Inl e)
  have "e = FailedToTile \<longrightarrow> finestUnsupported op I sh (if maxTiles = [] then builderMaxNumTiles I else maxTiles) (set order)"
    using swStrategy_fails[of op I sh mode order maxTiles] Inl assms(3) by blast
  then show ?thesis unfolding Inl by simp
next
  case (Inr tiles)
  note sw = swStrategy_ok[OF Inr]
  then obtain n where n: "geq n (replicate (length sh) 1)" "fillDividedTilesOfOp op n sh = Inr tiles \<or>
      (\<exists>d k. n ! d < k \<and> fillDividedTilesOfOp op (n[d := k]) sh = Inr tiles)"
    unfolding swResult_def by blast
  have "\<exists>m. geq m (replicate (length sh) 1) \<and> fillDividedTilesOfOp op m sh = Inr tiles"
    using n geq_trans[OF geq_update[OF less_imp_le] n(1)] by blast
  then obtain m where "geq m (replicate (length sh) 1)" "fillDividedTilesOfOp op m sh = Inr tiles" by blast
  then have "isPartition sh tiles" using fillDividedTilesOfOp_isPartition[of op m sh tiles] geq_ones[of m "length sh"] assms(1,2) by simp
  then show ?thesis using Inr sw by simp
qed

definition exampleOp :: tiling_op where
  "exampleOp = PlainOp \<lparr>isEltwise = False, elemBits = [16], permuteAlignment = None, channelAlignment = None, weightedSizes = None\<rparr>"

definition exampleIface :: tiling_iface where
  "exampleIface = \<lparr>isSupportedTiling = \<lambda>tiles _. 3 \<le> length tiles, builderMaxNumTiles = [1, 8, 4, 4], strategyCompatible = None,
     uniqueCandidates = id, legalConvertToDMA = True, shaveActCount = 2, clusterSplit = \<lambda>_. None\<rparr>"

lemma prod4: "(\<Prod>d<4. f d) = f 0 * f 1 * f 2 * f 3" for f :: "nat \<Rightarrow> int"
  by (simp add: numeral_eq_Suc)

lemma example_divided:
  assumes "list_all2 (\<lambda>v s. 1 \<le> v \<and> v \<le> s) n [1, 8, 4, 4]"
  shows "\<exists>tiles. fillDividedTilesOfOp exampleOp n [1, 8, 4, 4] = Inr tiles \<and> int (length tiles) = (\<Prod>d<4. n ! d)"
  using plain_division[of n "[1, 8, 4, 4]"] assms
  by (auto simp: exampleOp_def fillDividedTilesOfOp_def getAlignment_def isSpatialFirstNestedTiling_def Let_def list_all2_lengthD prod4 numeral_eq_Suc)

lemma example_supported:
  assumes "list_all2 (\<lambda>v s. 1 \<le> v \<and> v \<le> s) n [1, 8, 4, 4]"
  shows "ifDivided exampleOp n [1, 8, 4, 4] (\<lambda>tiles. 3 \<le> length tiles) = Inr (3 \<le> (\<Prod>d<4. n ! d))"
  using example_divided[OF assms] by (auto simp: ifDivided_def)

theorem swStrategy_partition_witness:
  "\<exists>tiles. getSWLayerTilingStrategyWithTileDimOrder exampleOp exampleIface [1, 8, 4, 4] ISOLATED [1, 2] [] = Inr tiles \<and>
     isPartition [1, 8, 4, 4] tiles \<and> swResult exampleOp exampleIface [1, 8, 4, 4] [1, 8, 4, 4] {1, 2} tiles"
proof -
  let ?sup = "\<lambda>n. ifDivided exampleOp n [1, 8, 4, 4] (\<lambda>tiles. 3 \<le> length tiles)"
  have sup: "?sup [1, 1, 1, 1] = Inr False" "?sup [1, 2, 1, 1] = Inr False" "?sup [1, 3, 1, 1] = Inr True"
    by (simp_all add: example_supported prod4)
  have search: "searchIsolated ?sup [1, 8, 4, 4] [1, 2] [1, 1, 1, 1] = Inr [1, 3, 1, 1]"
    by (simp add: searchIsolated.simps[of _ _ _ "[1, 1, 1, 1]"] searchIsolated.simps[of _ _ _ "[1, 2, 1, 1]"] searchIsolated.simps[of _ _ _ "[1, 3, 1, 1]"]
        sup isDimLeftToTile_def)
  obtain tiles where "fillDividedTilesOfOp exampleOp [1, 3, 1, 1] [1, 8, 4, 4] = Inr tiles" using example_divided[of "[1, 3, 1, 1]"] by auto
  then have run: "getSWLayerTilingStrategyWithTileDimOrder exampleOp exampleIface [1, 8, 4, 4] ISOLATED [1, 2] [] = Inr tiles"
    using search by (simp add: getSWLayerTilingStrategyWithTileDimOrder_def exampleIface_def numeral_eq_Suc)
  show ?thesis using swStrategy_partition[where sh = "[1, 8, 4, 4]" and op = exampleOp and order = "[1, 2]" and I = exampleIface and mode = ISOLATED and maxTiles = "[]"] run
    by (auto simp: exampleOp_def exampleIface_def)
qed

text \<open>
  C40: the strategy for hardware layers ends on every input, with and without concurrent checks;
  what it returns is a partition of the output that is compatible with the multi-cluster strategy
  and supported in the mode (isolated or pipelined tiles for pipelining), or, for prefetching, the
  undivided output.
\<close>

theorem hwStrategy_partition:
  assumes "getHWLayerTilingStrategyWithTileDimOrder op I sh mode order multithreaded = Inr tiles" "length sh = 4" "op \<noteq> YuvToRgb" "distinct order"
  shows "isPartition sh tiles \<and> hwResult op I sh mode tiles"
proof -
  have hw: "hwResult op I sh mode tiles" by (rule hwStrategy_ok[OF assms(1,4)])
  then obtain n where "length n = length sh" "list_all (\<lambda>v. 1 \<le> v) n" "fillDividedTilesOfOp op n sh = Inr tiles" unfolding hwResult_def by blast
  then show ?thesis using fillDividedTilesOfOp_isPartition[of op n sh tiles] assms(2,3) hw by simp
qed

theorem hwStrategy_partition_witness:
  "\<exists>tiles. getHWLayerTilingStrategyWithTileDimOrder exampleOp exampleIface [1, 8, 4, 4] ISOLATED [1] False = Inr tiles \<and>
     isPartition [1, 8, 4, 4] tiles \<and> hwResult exampleOp exampleIface [1, 8, 4, 4] ISOLATED tiles"
proof -
  let ?S = "mkHwSearch exampleOp exampleIface [1, 8, 4, 4] ISOLATED False"
  have sup: "hwSupported ?S n ISOLATED = Inr (3 \<le> (\<Prod>d<4. n ! d))" if "list_all2 (\<lambda>v s. 1 \<le> v \<and> v \<le> s) n [1, 8, 4, 4]" for n
    using example_supported[OF that]
    by (simp add: hwSupported_def isSupportedTileSizeForHWLayer_def mkHwSearch_def exampleIface_def isMultiClusterCompatibleForTiling_def)
  have check: "checkSupportedTiling ?S [1, k, 1, 1] 1 = Inr ([1, k, 1, 1], 3 \<le> k)" if "1 \<le> k" "k \<le> 8" for k
    using sup[of "[1, k, 1, 1]"] that by (simp add: checkSupportedTiling_def mkHwSearch_def prod4)
  have plus: "dimPlus ?S [1, k, 1, 1] (Suc 0) = Inr [1, k + 1, 1, 1]" for k
    by (simp add: dimPlus_def mkHwSearch_def getAlignDimAndSize_def opFacts_def exampleOp_def)
  have left: "isDimLeftToTile [1, k, 1, 1] (hwMax ?S) (Suc 0) \<longleftrightarrow> k < 8" for k
    by (simp add: isDimLeftToTile_def mkHwSearch_def exampleIface_def)
  have search: "searchTiles ?S [1] [1, 1, 1, 1] = Inr (Some [1, 3, 1, 1])"
    using check[of 1] check[of 2] check[of 3]
    by (simp add: searchTiles.simps[of _ _ "[1, 1, 1, 1]"] searchTiles.simps[of _ _ "[1, 2, 1, 1]"] searchTiles.simps[of _ _ "[1, 3, 1, 1]"] plus left)
  obtain tiles where "fillDividedTilesOfOp exampleOp [1, 3, 1, 1] [1, 8, 4, 4] = Inr tiles" using example_divided[of "[1, 3, 1, 1]"] by auto
  then have "getHWLayerTilingStrategyWithTileDimOrder exampleOp exampleIface [1, 8, 4, 4] ISOLATED [1] False = Inr tiles"
    using search by (simp add: getHWLayerTilingStrategyWithTileDimOrder_def feasibleNextDim_def numeral_eq_Suc Let_def)
  from hwStrategy_partition[OF this] this show ?thesis by (auto simp: exampleOp_def)
qed

end
