(* ===== verification/Spec2Isabelle.thy ===== *)
theory Spec2Isabelle
  imports Barrier_Properties Barrier_Control_Properties Barrier_Merge_Properties Barrier_Split_Properties
    Memory_Properties Async_Properties Layout_Properties Simulator_Properties Tiling_Properties
begin

text \<open>
  A verification library of the NPU compiler's core: the parts of src/src/vpux_compiler that
  decide in which order tasks run, which barriers and addresses they use, how data is laid out
  and how an operation is cut into tiles. All of it is C++ over MLIR operations; what a function
  asks of an operation is a value of the model, and what it does to the operations is a change
  of a state record. Below, \<open>src/core\<close> and the like are relative to src/src/vpux_compiler.

  \<^bold>\<open>The parts and how they interact.\<close> Tiling cuts an operation until its data fits the local
  memory. A schedule of the resulting \<open>async.execute\<close> operations has dependencies
  (\<open>AsyncDepsInfo\<close>), which are reduced and then turned into tokens. The linear scan allocator
  gives every buffer alive at a point of the schedule an address, over a partitioner of the free
  memory. Lowered, the operations become \<open>VPURT.Task\<close> operations on hardware queues that wait for
  and update barriers; \<open>BarrierInfo\<close> optimises, splits and merges these barriers, and
  \<open>BarrierSimulator\<close> plays the queues to show that the physical barriers of the device suffice.
  \<open>DimsOrder\<close> and the permutation utilities describe the layout of tensors for all of them.

  \<^bold>\<open>Shared theories.\<close>
  \<^item> \<open>Npu_Prelude\<close>: results with errors as a sum (\<open>bindE\<close>, \<open>guardE\<close>, \<open>foldE\<close>; \<open>VPUX_THROW\<close> is
    an \<open>Inl\<close> value), lemmas on lists, folds, sums and masks that the components share.
  \<^item> \<open>Npu_Numeric\<close>: \<open>divUp\<close> and \<open>alignValUp\<close> of utils/core/numeric.hpp on \<open>int64_t\<close>, with
    the division of C++ that truncates towards zero.
  \<^item> \<open>Dep_Graph\<close>: tasks and barriers as a graph, its reduction, and what a reduction keeps; used
    both by the barriers and by \<open>AsyncDepsInfo\<close>.
  \<^item> \<open>Vpurt_Tasks\<close>: executors, hardware queues and slots of a task
    (src/dialect/VPURT/IR/ops/task.cpp, src/utils/dma.cpp).

  \<^bold>\<open>BarrierInfo\<close> (src/core/barrier_info.cpp; include/vpux/compiler/core/barrier_info.hpp).
  The record \<open>barrier_info\<close> holds the tasks, the barriers, and four maps: the producers and the
  consumers of each barrier and the barriers each task waits for and updates. \<open>bi_wf\<close> is the
  invariant: the maps agree, have the right length and stay in range; every operation keeps it.
  \<^item> \<open>Barrier_Info\<close>: the state and the elementary operations. \<open>Barrier_Build\<close>: reading the
    maps off a function and writing them back. \<open>Barrier_Blocks\<close>: blocks of a split graph.
  \<^item> \<open>Barrier_Masks\<close>, \<open>Barrier_Reduce\<close>, \<open>Barrier_Optimize\<close>, \<open>Barrier_Optimize_Total\<close>,
    \<open>Barrier_Slots\<close>, \<open>Barrier_Properties\<close>: \<open>optimizeBarriers\<close>. The bit masks of the two
    reducing walks are reachability; the two walks are instances of one locale \<open>link_side\<close>;
    the optimisation keeps the order of tasks, does not throw, and respects the slots.
  \<^item> \<open>Barrier_Control\<close>, \<open>Barrier_Control_Map\<close>, \<open>Barrier_Control_Properties\<close>: hardware
    queues, the control map of a block, and the conditions under which barriers may be merged.
  \<^item> \<open>Barrier_Variants\<close>: batches of tasks that fit the slots, and the splitting of barriers
    that have too many. \<open>Barrier_Merge\<close>, \<open>Barrier_Merge_Correct\<close>,
    \<open>Barrier_Merge_Total\<close>, \<open>Barrier_Merge_Properties\<close>: one wait barrier per task
    (\<open>ensureTasksDrivenBySingleBarrier\<close>, also src/dialect/VPURT/utils/barrier_legalization_utils.cpp).
  \<^item> \<open>Barrier_Split\<close>, \<open>Barrier_Split_Correct\<close>, \<open>Barrier_Split_Final\<close>,
    \<open>Barrier_Split_Properties\<close>: \<open>splitControlGraphToBlocks\<close> in its seven steps, and that the
    result is what \<open>verifyControlGraphSplit\<close> accepts. \<open>Barrier_Examples\<close>: concrete graphs.

  \<^bold>\<open>Memory.\<close> \<open>Partitioner\<close> and \<open>Partitioner_Correct\<close> (src/utils/partitioner.cpp): the list of
  gaps of an address range, and its abstraction, the set of free addresses. \<open>Linear_Scan\<close> and
  \<open>Linear_Scan_Correct\<close> (include/vpux/compiler/utils/linear_scan.hpp, src/core/linear_scan_handler.cpp): the
  allocator over any handler, with spilling; the locale of handlers that keep the addresses they
  are told is interpreted by the compiler's own handler. \<open>Memory_Properties\<close> states the results:
  live ranges never overlap, an allocation that fails changes nothing. The handler's cache of sizes
  is left out, as nothing depends on it; \<open>canAlloc\<close> does not look at fixed addresses, so it
  predicts the allocation of the other buffers only.

  \<^bold>\<open>AsyncDepsInfo\<close> (src/core/async_deps_info.cpp): \<open>Async_Deps\<close>, \<open>Async_Build\<close>,
  \<open>Async_Deps_Correct\<close>, \<open>Async_Properties\<close>. The record \<open>async_deps\<close> has the operations in
  program order, the dependencies and the consumers; the lemmas give the constructor's invariant,
  what the optimisation keeps, that consumers are the inverse of dependencies, and the tokens.

  \<^bold>\<open>Layouts\<close> (src/core/attributes/dims_order.cpp, src/utils/permute_utils.cpp): \<open>Dims_Order\<close> and
  \<open>Dims_Order_Correct\<close> model the 64-bit code of an order digit by digit; \<open>Permute_Utils\<close>,
  \<open>Permute_Correct\<close> and \<open>Permute_Merge\<close> the operations on permutations and the merging of
  dimensions; \<open>Layout_Properties\<close> has the round trips and the equivalences.

  \<^bold>\<open>Barrier simulation\<close> (include/vpux/utils/core/ring_buffer.hpp,
  src/dialect/VPURT/interfaces/barrier_simulator.cpp): \<open>Ring_Buffer\<close> refines a bounded queue.
  \<open>Barrier_Simulator\<close> and \<open>Simulator_Build\<close> are the state and its construction from a function;
  \<open>Barrier_Simulation\<close> the main loop; \<open>Simulation_Steps\<close> the same as a step relation with its
  reachable states, \<open>Simulation_Legal\<close> the relation with the steps of legalisation (batches,
  added and removed physical barriers); \<open>Simulation_Exclusive\<close> and \<open>Simulation_Live\<close> the two
  results that a physical barrier never serves two virtual barriers at once, in both modes, and
  that the simulation of tasks with one hardware queue each does not block when
  there are enough; \<open>Simulator_Properties\<close> states them on the code.

  \<^bold>\<open>Tiling\<close> (src/core/tiling.cpp, include/vpux/compiler/core/tiling.hpp): \<open>Tiling\<close> divides a
  shape, \<open>Tiling_Correct\<close> shows that the tiles are a partition of it. \<open>Tile_Inference\<close> computes
  the input tiles of an output tile; \<open>Tile_Inference_Correct\<close> and \<open>Tile_Pad_Correct\<close> show that
  every element a convolution, pooling or Pad tile reads is the one the whole operation reads at
  that place, padding included; the mirroring modes of Pad need tiles that are large enough,
  which the code does not check. \<open>Tiling_Strategy\<close> is the search for the number of tiles, for
  software and hardware layers; \<open>Tiling_Strategy_Correct\<close> shows what it returns and when it fails;
  \<open>Tiling_Properties\<close> states the results.

  \<^bold>\<open>Loops and fuel.\<close> Loops are recursions with a termination proof, the searches for a number of
  tiles included: their measure is what is left of the limits of the dimensions. Two loops have
  fuel, and their result is then an option. \<open>simLoop\<close> is the main loop of the simulation:
  without legalisation, the number of barriers plus the number of queue entries plus one is
  enough, as is proved with the result. \<open>mergeRounds\<close> is the outer loop of
  \<open>ensureTasksDrivenBySingleBarrier\<close>; every merge lowers the weight of the tasks that wait for
  several barriers (\<open>2 ^ t\<close> for task \<open>t\<close>), so \<open>2 ^ n\<close> rounds for \<open>n\<close> tasks are enough.

  \<^bold>\<open>Numbers.\<close> Indices and sizes that the code keeps in \<open>size_t\<close> are \<open>nat\<close>, those in
  \<open>int64_t\<close> \<open>int\<close>; where the code relies on wrap-around or may reach it (alignment in the
  partitioner, the maximum of an empty set, codes of orders) it is written out or the type is a
  64-bit word. Elsewhere the sizes of a model are far below the bound.

  \<^bold>\<open>Parameters.\<close> What is outside the repository or belongs to the device is an argument:
  \<open>affine_maps\<close> (the permutation maps of MLIR), \<open>op_facts\<close> and \<open>tiling_iface\<close> (what tiling asks
  of an operation through its interfaces), the numbers of physical barriers, slots, ports and
  channels, the order in which a hash set is iterated (\<open>set_iteration\<close>, where the code depends
  on it; it is a function of the set, while two equal sets built differently may be walked
  differently in the code), and the handler of the linear scan.

  \<^bold>\<open>Not modelled.\<close>
  \<^item> The reordering of tasks and barriers of barrier_legalization_utils.cpp rewrites the order of
    MLIR operations in place and moves them through the SSA form.
  \<^item> The feasible memory scheduler ranks operations by cycle costs, which come from an external
    cost model; so do the strategy managers and the cycle cost pass.
  \<^item> The tiles of Interpolate: its coordinates are computed in floating point.
  \<^item> \<open>getTileDimOrder\<close>, a table over the operations of the dialect; the strategies take the order
    it returns as an argument. \<open>getFusableLayerWithPermuteInterface\<close> and the overload of
    \<open>isTrivialReorder\<close> on an operation only inspect MLIR operations.
  \<^item> The front end (IE.cpp) and the serialisation to ELF are glue between external libraries; the
    dialect passes and conversions are rewrite patterns whose meaning is that of MLIR's driver.
  \<^item> Debug assertions and \<open>PartitionerValidator\<close>, printing and logging.
\<close>

end
